(* ===== verification/Prelude.thy ===== *)
theory Prelude
  imports Main "HOL-Library.Word" "HOL-Library.Monad_Syntax" "HOL-Library.Multiset"
begin

text \<open>
  Shared vocabulary of the development: the machine integers of the C sources, the
  \<open>lite_assert\<close> of \<open>src/common/utils/LiteAssert.h\<close>, sequential composition of
  operations that may abort, and generic facts on lists, options and words.

  A C operation that can abort (a failed \<open>lite_assert\<close>, which stores through a null
  pointer, or a dereference of a null or dangling pointer) is a function into an
  \<open>option\<close> type: \<open>None\<close> is the abort and \<open>Some\<close> the normal return.
\<close>

unbundle bit_operations_syntax

type_synonym u8 = "8 word"
type_synonym u16 = "16 word"
type_synonym u32 = "32 word"
type_synonym u64 = "64 word"
type_synonym bytes = "8 word list"

text \<open>\<open>lite_assert(cond)\<close>: the null store that aborts the process when \<open>cond\<close> is false.\<close>

definition lite_assert :: "bool \<Rightarrow> unit option" where
  "lite_assert cond = (if cond then Some () else None)"

text \<open>Running an operation that may abort over a list, left to right.\<close>

fun foldM :: "('s \<Rightarrow> 'a \<Rightarrow> 's option) \<Rightarrow> 's \<Rightarrow> 'a list \<Rightarrow> 's option" where
  "foldM f s [] = Some s"
| "foldM f s (x # xs) = Option.bind (f s x) (\<lambda>s'. foldM f s' xs)"

named_theorems word_nat "comparisons of words as comparisons of natural numbers"
named_theorems mpi_defs "the value and the well-formedness of a multi-precision integer"

declare word_less_nat_alt [word_nat] word_le_nat_alt [word_nat]

subsection \<open>Assertions and sequencing\<close>

lemma lite_assert_True [simp]: "lite_assert True = Some ()"
  by (simp add: lite_assert_def)

lemma lite_assert_bind [simp]:
  "Option.bind (lite_assert b) f = (if b then f () else None)"
  by (simp add: lite_assert_def)

lemma lite_assert_Some [simp]: "lite_assert b = Some u \<longleftrightarrow> b"
  by (simp add: lite_assert_def)

lemma lite_assert_None [simp]: "lite_assert b = None \<longleftrightarrow> \<not> b"
  by (simp add: lite_assert_def)

lemma foldM_append: "foldM f s (xs @ ys) = Option.bind (foldM f s xs) (\<lambda>s'. foldM f s' ys)"
  by (induction xs arbitrary: s) (simp_all add: Option.bind_assoc)

lemma foldM_invariant:
  assumes "foldM f s xs = Some t" and "P s"
    and "\<And>s x s'. P s \<Longrightarrow> x \<in> set xs \<Longrightarrow> f s x = Some s' \<Longrightarrow> P s'"
  shows "P t"
  using assms
proof (induction xs arbitrary: s)
  case (Cons x xs)
  from Cons.prems(1) obtain s' where s': "f s x = Some s'" "foldM f s' xs = Some t"
    by (cases "f s x") auto
  have "P s'" by (rule Cons.prems(3) [OF Cons.prems(2) _ s'(1)]) simp
  moreover have "P b" if "P a" "y \<in> set xs" "f a y = Some b" for a y b
    using that by (intro Cons.prems(3) [of a y b]) simp_all
  ultimately show ?case by (rule Cons.IH [OF s'(2)])
qed simp

lemma foldM_returns:
  assumes "P s"
    and "\<And>s x. P s \<Longrightarrow> x \<in> set xs \<Longrightarrow> \<exists>s'. f s x = Some s' \<and> P s'"
  shows "\<exists>t. foldM f s xs = Some t \<and> P t"
  using assms
proof (induction xs arbitrary: s)
  case (Cons x xs)
  from Cons.prems(2) [OF Cons.prems(1), of x] obtain s' where s': "f s x = Some s'" "P s'"
    by auto
  have "\<exists>t. foldM f s' xs = Some t \<and> P t"
    by (rule Cons.IH [OF s'(2)]) (metis Cons.prems(2) list.set_intros(2))
  with s'(1) show ?case by simp
qed simp

subsection \<open>Lists\<close>

lemma sum_list_map_length_0:
  "sum_list (map length xss) = (0::nat) \<longleftrightarrow> (\<forall>xs \<in> set xss. xs = [])"
  by (induction xss) auto

lemma length_concat_update:
  assumes "i < length xss"
  shows "length (concat (xss[i := ys])) + length (xss ! i) = length (concat xss) + length ys"
  using assms
proof (induction xss arbitrary: i)
  case (Cons xs xss)
  then show ?case by (cases i) simp_all
qed simp

lemma mset_concat_update:
  assumes "i < length xss"
  shows "mset (concat (xss[i := ys])) + mset (xss ! i) = mset (concat xss) + mset ys"
  using assms
proof (induction xss arbitrary: i)
  case (Cons xs xss)
  show ?case
  proof (cases i)
    case 0
    then show ?thesis by (simp add: union_commute)
  next
    case (Suc j)
    with Cons show ?thesis by (simp add: union_assoc)
  qed
qed simp

lemma set_concat_update_subset:
  "set (concat (xss[i := ys])) \<subseteq> set (concat xss) \<union> set ys"
proof -
  have "set (xss[i := ys]) \<subseteq> insert ys (set xss)" by (rule set_update_subset_insert)
  then show ?thesis by auto
qed

lemma le_div_int_iff:
  fixes n :: int
  assumes "0 < n"
  shows "k \<le> a div n \<longleftrightarrow> k * n \<le> a"
proof
  assume "k \<le> a div n"
  then have "k * n \<le> a div n * n" using assms by (simp add: mult_right_mono)
  also have "\<dots> \<le> a" using div_mult_mod_eq [of a n] pos_mod_sign [OF assms, of a] by linarith
  finally show "k * n \<le> a" .
next
  assume "k * n \<le> a"
  from zdiv_mono1 [OF this assms] show "k \<le> a div n" using assms by simp
qed

lemma sint_eq_0_iff [simp]: "sint w = 0 \<longleftrightarrow> w = 0"
  by (rule signed_eq_0_iff)

subsection \<open>Words\<close>

lemma unat_drop_bit: "unat (drop_bit k w) = unat w div 2 ^ k"
  by (subst unat_drop_bit_eq) (simp add: drop_bit_eq_div)

lemma unat_less_exp: "unat (w :: 'a :: len word) < 2 ^ LENGTH('a)"
  by (rule unsigned_less)

lemma sint_small_u32: "unat (w :: u32) < 2 ^ 31 \<Longrightarrow> sint w = int (unat w)"
proof -
  assume "unat w < 2 ^ 31"
  then have "signed_take_bit 31 (int (unat w)) = int (unat w)"
    by (intro signed_take_bit_int_eq_self) (simp_all del: of_nat_unat)
  then show ?thesis by (simp add: sint_uint)
qed

lemma nat_xor_1: "(x :: nat) XOR 1 = (if even x then x + 1 else x - 1)"
proof (cases "even x")
  case True
  then show ?thesis by (simp add: xor_nat_def xor_one_eq)
next
  case False
  then have "0 < x" by (simp add: odd_pos)
  with False show ?thesis by (simp add: xor_nat_def xor_one_eq nat_diff_distrib)
qed

lemma unat_eq_iff: "a = b \<longleftrightarrow> unat a = unat b"
  by (auto intro: unsigned_word_eqI)

lemma unat_max_u32 [simp]: "unat (- 1 :: u32) = 4294967295"
  by (simp add: unsigned_minus_1_eq_mask mask_eq_exp_minus_1)

lemma unat_of_nat_u32: "n < 2 ^ 32 \<Longrightarrow> unat (of_nat n :: u32) = n"
  by (simp add: unat_of_nat take_bit_nat_eq_self)

lemma unat_push_bit:
  fixes w :: "'a :: len word"
  assumes "unat w * 2 ^ k < 2 ^ LENGTH('a)"
  shows "unat (push_bit k w) = unat w * 2 ^ k"
  using assms by (subst unsigned_push_bit_eq) (simp add: push_bit_eq_mult take_bit_nat_eq_self)

lemma unat_add_small:
  fixes a b :: "'a :: len word"
  assumes "unat a + unat b < 2 ^ LENGTH('a)"
  shows "unat (a + b) = unat a + unat b"
  using assms by (simp add: unat_word_ariths)

lemma unat_sub_le:
  fixes a b :: "'a :: len word"
  assumes "unat b \<le> unat a"
  shows "unat (a - b) = unat a - unat b"
  using assms by (simp add: unat_sub_if')

subsection \<open>Byte buffers\<close>

text \<open>
  A buffer is the list of its bytes and a pointer into it an offset. Reading or writing
  outside the buffer aborts. \<open>overwrite\<close> is the buffer after writing a list of bytes at an
  offset; \<open>cstr b p cs\<close> says that \<open>cs\<close> is the NUL-terminated string at offset
  \<open>p\<close>.
\<close>

definition rd :: "'a list \<Rightarrow> nat \<Rightarrow> 'a option" where
  "rd b i = (if i < length b then Some (b ! i) else None)"

definition wr :: "'a list \<Rightarrow> nat \<Rightarrow> 'a \<Rightarrow> 'a list option" where
  "wr b i v = (if i < length b then Some (b[i := v]) else None)"

definition overwrite :: "'a list \<Rightarrow> nat \<Rightarrow> 'a list \<Rightarrow> 'a list" where
  "overwrite b i xs = take i b @ xs @ drop (i + length xs) b"

definition cstr :: "bytes \<Rightarrow> nat \<Rightarrow> bytes \<Rightarrow> bool" where
  "cstr b p cs \<longleftrightarrow>
     p + length cs < length b \<and> take (length cs) (drop p b) = cs \<and> b ! (p + length cs) = 0 \<and> 0 \<notin> set cs"

lemma length_overwrite [simp]: "i + length xs \<le> length b \<Longrightarrow> length (overwrite b i xs) = length b"
  by (simp add: overwrite_def)

lemma overwrite_Nil [simp]: "overwrite b i [] = b"
  by (simp add: overwrite_def)

lemma overwrite_Cons: "i < length b \<Longrightarrow> overwrite (b[i := x]) (Suc i) xs = overwrite b i (x # xs)"
  by (simp add: overwrite_def take_Suc_conv_app_nth drop_update_cancel)

lemma overwrite_single: "i < length b \<Longrightarrow> overwrite b i [x] = b[i := x]"
  by (simp add: overwrite_def upd_conv_take_nth_drop)

lemma nth_overwrite:
  "i + length xs \<le> length b \<Longrightarrow>
     overwrite b i xs ! j = (if j < i then b ! j else if j < i + length xs then xs ! (j - i) else b ! j)"
  by (auto simp: overwrite_def nth_append)

lemma cstr_Nil [simp]: "cstr b p [] \<longleftrightarrow> p < length b \<and> b ! p = 0"
  by (simp add: cstr_def)

lemma cstr_Cons:
  "cstr b p (c # cs) \<longleftrightarrow> p < length b \<and> b ! p = c \<and> c \<noteq> 0 \<and> cstr b (Suc p) cs"
proof (cases "p < length b")
  case True
  then have "drop p b = b ! p # drop (Suc p) b" by (simp add: Cons_nth_drop_Suc)
  with True show ?thesis by (auto simp: cstr_def)
qed (auto simp: cstr_def)

lemma cstr_unique: "cstr b p cs \<Longrightarrow> cstr b p ds \<Longrightarrow> cs = ds"
  by (induction cs arbitrary: p ds) (case_tac ds; auto simp: cstr_Cons)+

lemma cstr_overwrite:
  assumes "p + length cs < length b" and "0 \<notin> set cs"
  shows "cstr (overwrite b p (cs @ [0])) p cs"
  using assms by (auto simp: cstr_def nth_overwrite) (auto simp: overwrite_def)

end
