(* ===== verification/LinkedList.thy ===== *)
theory LinkedList
  imports Prelude
begin

text \<open>
  The doubly linked list of \<open>src/common/utils/linked_list.c\<close> and
  \<open>src/common/utils/linked_list.h\<close>. Links live in an explicit store that maps
  addresses to link records; \<open>NULL\<close> is address 0 and is never mapped by a well-formed
  store. The address a \<open>mf_malloc\<close> call returns is an argument of the operation that
  calls it; \<open>mf_free\<close> removes the link from the store. A dereference of an address the
  store does not map aborts.

  The second half relates a list structure in the store to a HOL list of cells
  (\<open>ll_rep\<close>) and shows that each operation implements the list operation it names, keeps
  the structure well formed, and leaves the rest of the store alone.
\<close>

subsection \<open>Data\<close>

type_synonym addr = nat

abbreviation NULL :: addr where
  "NULL \<equiv> 0"

record 'd LinkedListLink =
  datum :: 'd
  link_next :: addr
  link_prev :: addr

record LinkedList =
  ll_head :: addr
  ll_tail :: addr
  ll_count :: int

type_synonym 'd ll_store = "addr \<Rightarrow> 'd LinkedListLink option"

subsection \<open>Operations\<close>

definition linked_list_init :: LinkedList where
  "linked_list_init = \<lparr>ll_head = NULL, ll_tail = NULL, ll_count = 0\<rparr>"

text \<open>\<open>link\<close> is the address returned by \<open>mf_malloc(ll->mf, sizeof(LinkedListLink))\<close>.\<close>

definition linked_list_insert_head ::
    "addr \<Rightarrow> 'd ll_store \<Rightarrow> LinkedList \<Rightarrow> 'd \<Rightarrow> ('d ll_store \<times> LinkedList) option" where
  "linked_list_insert_head link h ll d =
     (let h1 = h(link \<mapsto> \<lparr>datum = d, link_next = ll_head ll, link_prev = NULL\<rparr>);
          ll1 = ll\<lparr>ll_head := link\<rparr>
      in if ll_head ll = NULL
         then Some (h1, ll1\<lparr>ll_tail := link, ll_count := ll_count ll1 + 1\<rparr>)
         else do {
           n \<leftarrow> h1 (ll_head ll);
           Some (h1(ll_head ll \<mapsto> n\<lparr>link_prev := link\<rparr>), ll1\<lparr>ll_count := ll_count ll1 + 1\<rparr>)
         })"

definition linked_list_insert_tail ::
    "addr \<Rightarrow> 'd ll_store \<Rightarrow> LinkedList \<Rightarrow> 'd \<Rightarrow> ('d ll_store \<times> LinkedList) option" where
  "linked_list_insert_tail link h ll d =
     (let h1 = h(link \<mapsto> \<lparr>datum = d, link_next = NULL, link_prev = ll_tail ll\<rparr>);
          ll1 = ll\<lparr>ll_tail := link\<rparr>
      in if ll_tail ll = NULL
         then Some (h1, ll1\<lparr>ll_head := link, ll_count := ll_count ll1 + 1\<rparr>)
         else do {
           p \<leftarrow> h1 (ll_tail ll);
           Some (h1(ll_tail ll \<mapsto> p\<lparr>link_next := link\<rparr>), ll1\<lparr>ll_count := ll_count ll1 + 1\<rparr>)
         })"

definition linked_list_remove_head ::
    "'d ll_store \<Rightarrow> LinkedList \<Rightarrow> ('d ll_store \<times> LinkedList \<times> 'd option) option" where
  "linked_list_remove_head h ll =
     (let link = ll_head ll
      in if link = NULL
         then do { lite_assert (ll_tail ll = NULL); Some (h, ll, None) }
         else do {
           l \<leftarrow> h link;
           (h1, ll1) \<leftarrow>
             (if link_next l = NULL
              then do {
                lite_assert (ll_tail ll = link);
                Some (h, ll\<lparr>ll_head := link_next l, ll_tail := NULL\<rparr>)
              }
              else do {
                n \<leftarrow> h (link_next l);
                Some (h(link_next l \<mapsto> n\<lparr>link_prev := NULL\<rparr>), ll\<lparr>ll_head := link_next l\<rparr>)
              });
           l1 \<leftarrow> h1 link;
           Some (h1(link := None), ll1\<lparr>ll_count := ll_count ll1 - 1\<rparr>, Some (datum l1))
         })"

definition linked_list_remove_tail ::
    "'d ll_store \<Rightarrow> LinkedList \<Rightarrow> ('d ll_store \<times> LinkedList \<times> 'd option) option" where
  "linked_list_remove_tail h ll =
     (let link = ll_tail ll
      in if link = NULL
         then do { lite_assert (ll_head ll = NULL); Some (h, ll, None) }
         else do {
           l \<leftarrow> h link;
           (h1, ll1) \<leftarrow>
             (if link_prev l = NULL
              then do {
                lite_assert (ll_head ll = link);
                Some (h, ll\<lparr>ll_tail := link_prev l, ll_head := NULL\<rparr>)
              }
              else do {
                p \<leftarrow> h (link_prev l);
                Some (h(link_prev l \<mapsto> p\<lparr>link_next := NULL\<rparr>), ll\<lparr>ll_tail := link_prev l\<rparr>)
              });
           l1 \<leftarrow> h1 link;
           Some (h1(link := None), ll1\<lparr>ll_count := ll_count ll1 - 1\<rparr>, Some (datum l1))
         })"

definition linked_list_remove_middle ::
    "'d ll_store \<Rightarrow> LinkedList \<Rightarrow> addr \<Rightarrow> ('d ll_store \<times> LinkedList) option" where
  "linked_list_remove_middle h ll link = do {
     l \<leftarrow> h link;
     (h1, ll1) \<leftarrow>
       (if ll_head ll = link
        then do { lite_assert (link_prev l = NULL); Some (h, ll\<lparr>ll_head := link_next l\<rparr>) }
        else do {
          p \<leftarrow> h (link_prev l);
          Some (h(link_prev l \<mapsto> p\<lparr>link_next := link_next l\<rparr>), ll)
        });
     l1 \<leftarrow> h1 link;
     (h2, ll2) \<leftarrow>
       (if ll_tail ll1 = link
        then do { lite_assert (link_next l1 = NULL); Some (h1, ll1\<lparr>ll_tail := link_prev l1\<rparr>) }
        else do {
          n \<leftarrow> h1 (link_next l1);
          Some (h1(link_next l1 \<mapsto> n\<lparr>link_prev := link_prev l1\<rparr>), ll1)
        });
     Some (h2(link := None), ll2\<lparr>ll_count := ll_count ll2 - 1\<rparr>)
   }"

text \<open>
  The iterator of the header file is the address of the current link. A walk over a cyclic
  store does not end, so the walking loops are partial: \<open>None\<close> is an abort or a walk
  without end.
\<close>

definition ll_start :: "LinkedList \<Rightarrow> addr" where
  "ll_start ll = ll_head ll"

definition ll_has_more :: "addr \<Rightarrow> bool" where
  "ll_has_more li = (li \<noteq> NULL)"

definition ll_advance :: "'d ll_store \<Rightarrow> addr \<Rightarrow> addr option" where
  "ll_advance h li = map_option link_next (h li)"

definition ll_read :: "'d ll_store \<Rightarrow> addr \<Rightarrow> 'd option" where
  "ll_read h li = map_option datum (h li)"

definition ll_remove ::
    "'d ll_store \<Rightarrow> LinkedList \<Rightarrow> addr \<Rightarrow> ('d ll_store \<times> LinkedList \<times> addr) option" where
  "ll_remove h ll li = do {
     nxt \<leftarrow> ll_advance h li;
     (h1, ll1) \<leftarrow> linked_list_remove_middle h ll li;
     Some (h1, ll1, nxt)
   }"

partial_function (option) linked_list_remove_from ::
    "'d ll_store \<Rightarrow> LinkedList \<Rightarrow> 'd \<Rightarrow> addr \<Rightarrow> ('d ll_store \<times> LinkedList) option" where
  "linked_list_remove_from h ll d lli =
     (if ll_has_more lli
      then do {
        x \<leftarrow> ll_read h lli;
        if x = d then linked_list_remove_middle h ll lli
        else do {
          nxt \<leftarrow> ll_advance h lli;
          linked_list_remove_from h ll d nxt
        }
      }
      else None)"

definition linked_list_remove ::
    "'d ll_store \<Rightarrow> LinkedList \<Rightarrow> 'd \<Rightarrow> ('d ll_store \<times> LinkedList) option" where
  "linked_list_remove h ll d = linked_list_remove_from h ll d (ll_start ll)"

partial_function (option) linked_list_find_from :: "'d ll_store \<Rightarrow> 'd \<Rightarrow> addr \<Rightarrow> addr option" where
  "linked_list_find_from h d link =
     (if link \<noteq> NULL
      then do {
        l \<leftarrow> h link;
        if datum l = d then Some link else linked_list_find_from h d (link_next l)
      }
      else Some NULL)"

definition linked_list_find :: "'d ll_store \<Rightarrow> LinkedList \<Rightarrow> 'd \<Rightarrow> addr option" where
  "linked_list_find h ll d = linked_list_find_from h d (ll_head ll)"

text \<open>\<open>visit\<close> returns whether to carry on, together with the visitor's new user data.\<close>

partial_function (option) linked_list_visit_from ::
    "'d ll_store \<Rightarrow> ('d \<Rightarrow> 'u \<Rightarrow> bool \<times> 'u) \<Rightarrow> addr \<Rightarrow> 'u \<Rightarrow> 'u option" where
  "linked_list_visit_from h visit link u =
     (if link \<noteq> NULL
      then do {
        l \<leftarrow> h link;
        (case visit (datum l) u of
           (carry_on, u') \<Rightarrow>
             if carry_on then linked_list_visit_from h visit (link_next l) u' else Some u')
      }
      else Some u)"

definition linked_list_visit_all ::
    "'d ll_store \<Rightarrow> LinkedList \<Rightarrow> ('d \<Rightarrow> 'u \<Rightarrow> bool \<times> 'u) \<Rightarrow> 'u \<Rightarrow> 'u option" where
  "linked_list_visit_all h ll visit u = linked_list_visit_from h visit (ll_head ll) u"

subsection \<open>Abstraction\<close>

text \<open>
  \<open>dseg h p pr cs nx lst\<close>: following \<open>link_next\<close> from \<open>p\<close> through the cells \<open>cs\<close>
  (addresses with their data) arrives at \<open>nx\<close>; the first cell points back to \<open>pr\<close> and
  \<open>lst\<close> is the last cell (\<open>pr\<close> when there is none).
\<close>

fun dseg :: "'d ll_store \<Rightarrow> addr \<Rightarrow> addr \<Rightarrow> (addr \<times> 'd) list \<Rightarrow> addr \<Rightarrow> addr \<Rightarrow> bool" where
  "dseg h p pr [] nx lst \<longleftrightarrow> p = nx \<and> lst = pr"
| "dseg h p pr ((a, d) # cs) nx lst \<longleftrightarrow>
     p = a \<and> a \<noteq> NULL \<and>
     (\<exists>n. h a = Some \<lparr>datum = d, link_next = n, link_prev = pr\<rparr> \<and> dseg h n a cs nx lst)"

definition ll_rep :: "'d ll_store \<Rightarrow> LinkedList \<Rightarrow> (addr \<times> 'd) list \<Rightarrow> bool" where
  "ll_rep h ll cs \<longleftrightarrow>
     dseg h (ll_head ll) NULL cs NULL (ll_tail ll) \<and> distinct (map fst cs)
     \<and> ll_count ll = int (length cs)"

fun visit_list :: "('d \<Rightarrow> 'u \<Rightarrow> bool \<times> 'u) \<Rightarrow> 'd list \<Rightarrow> 'u \<Rightarrow> 'u" where
  "visit_list visit [] u = u"
| "visit_list visit (d # ds) u =
     (case visit d u of (carry_on, u') \<Rightarrow> if carry_on then visit_list visit ds u' else u')"

subsection \<open>Segments\<close>

lemma dseg_append:
  "dseg h p pr (cs @ ds) nx lst \<longleftrightarrow>
     (\<exists>m k. dseg h p pr cs m k \<and> dseg h m k ds nx lst)"
proof (induction cs arbitrary: p pr)
  case (Cons c cs)
  then show ?case by (cases c) (simp, blast)
qed simp

lemma dseg_frame:
  assumes "\<And>a. a \<in> fst ` set cs \<Longrightarrow> h' a = h a"
  shows "dseg h' p pr cs nx lst = dseg h p pr cs nx lst"
  using assms by (induction cs arbitrary: p pr) auto

lemma dseg_upd_other [simp]:
  "a \<notin> fst ` set cs \<Longrightarrow> dseg (h(a := v)) p pr cs nx lst = dseg h p pr cs nx lst"
  by (rule dseg_frame) auto

lemma dseg_nonnull: "dseg h p pr cs nx lst \<Longrightarrow> a \<in> fst ` set cs \<Longrightarrow> a \<noteq> NULL"
  by (induction cs arbitrary: p pr) force+

lemma dseg_mapped: "dseg h p pr cs nx lst \<Longrightarrow> a \<in> fst ` set cs \<Longrightarrow> h a \<noteq> None"
  by (induction cs arbitrary: p pr) force+

lemma dseg_last: "dseg h p pr cs nx lst \<Longrightarrow> cs \<noteq> [] \<Longrightarrow> lst = fst (last cs)"
  by (induction cs arbitrary: p pr) (auto split: if_splits)

lemma dseg_first: "dseg h p pr cs nx lst \<Longrightarrow> cs \<noteq> [] \<Longrightarrow> p = fst (hd cs)"
  by (cases cs) auto

text \<open>Changing the back pointer of the first cell, or the forward pointer of the last one.\<close>

lemma dseg_set_prev:
  assumes "dseg h a pr ((a, d) # cs) nx lst" and "a \<notin> fst ` set cs" and "h a = Some l"
  shows "dseg (h(a \<mapsto> l\<lparr>link_prev := pr'\<rparr>)) a pr' ((a, d) # cs) nx lst"
  using assms by auto

lemma dseg_set_next:
  assumes "dseg h p pr (cs @ [(a, d)]) nx lst" and "a \<notin> fst ` set cs" and "h a = Some l"
  shows "dseg (h(a \<mapsto> l\<lparr>link_next := nx'\<rparr>)) p pr (cs @ [(a, d)]) nx' lst"
  using assms by (auto simp: dseg_append)

subsection \<open>Each operation implements its list operation\<close>

lemma ll_rep_init: "ll_rep h linked_list_init []"
  by (simp add: ll_rep_def linked_list_init_def)

lemma ll_rep_head_null: "ll_rep h ll cs \<Longrightarrow> ll_head ll = NULL \<longleftrightarrow> cs = []"
  by (cases cs) (auto simp: ll_rep_def)

lemma ll_rep_tail_null: "ll_rep h ll cs \<Longrightarrow> ll_tail ll = NULL \<longleftrightarrow> cs = []"
proof (cases cs rule: rev_cases)
  case (snoc ds c)
  assume "ll_rep h ll cs"
  with snoc show ?thesis by (cases c) (auto simp: ll_rep_def dseg_append)
qed (simp add: ll_rep_def)

lemma ll_rep_tail_neq:
  assumes "ll_rep h ll (cs @ (a, d) # e # es)"
  shows "ll_tail ll \<noteq> a"
proof -
  from assms have "ll_tail ll = fst (last (e # es))"
    by (auto simp: ll_rep_def dest!: dseg_last split: if_splits)
  moreover have "fst (last (e # es)) \<in> fst ` set (e # es)"
    by (intro imageI last_in_set) simp
  moreover from assms have "a \<notin> fst ` set (e # es)" by (auto simp: ll_rep_def)
  ultimately show ?thesis by metis
qed

lemma insert_head_rep:
  assumes rep: "ll_rep h ll cs" and new: "link \<noteq> NULL" "link \<notin> fst ` set cs"
  shows "\<exists>h' ll'. linked_list_insert_head link h ll d = Some (h', ll') \<and>
           ll_rep h' ll' ((link, d) # cs) \<and>
           (\<forall>a. a \<notin> insert link (fst ` set cs) \<longrightarrow> h' a = h a)"
proof (cases cs)
  case Nil
  with rep new show ?thesis
    by (auto simp: linked_list_insert_head_def ll_rep_def Let_def)
next
  case (Cons c cs')
  obtain a x where c: "c = (a, x)" by (cases c)
  from rep Cons c obtain n where n: "h a = Some \<lparr>datum = x, link_next = n, link_prev = NULL\<rparr>"
    and hd: "ll_head ll = a" "a \<noteq> NULL"
    by (auto simp: ll_rep_def)
  from rep Cons c n hd new show ?thesis
    by (auto simp: linked_list_insert_head_def ll_rep_def Let_def)
qed

lemma insert_tail_rep:
  assumes rep: "ll_rep h ll cs" and new: "link \<noteq> NULL" "link \<notin> fst ` set cs"
  shows "\<exists>h' ll'. linked_list_insert_tail link h ll d = Some (h', ll') \<and>
           ll_rep h' ll' (cs @ [(link, d)]) \<and>
           (\<forall>a. a \<notin> insert link (fst ` set cs) \<longrightarrow> h' a = h a)"
proof (cases cs rule: rev_cases)
  case Nil
  with rep new show ?thesis
    by (auto simp: linked_list_insert_tail_def ll_rep_def Let_def)
next
  case (snoc cs' c)
  obtain a x where c: "c = (a, x)" by (cases c)
  from rep snoc c obtain p where p: "h a = Some \<lparr>datum = x, link_next = NULL, link_prev = p\<rparr>"
    and tl: "ll_tail ll = a" "a \<noteq> NULL" and a: "a \<notin> fst ` set cs'"
    by (auto simp: ll_rep_def dseg_append)
  from rep snoc c p tl a new show ?thesis
    by (auto simp: linked_list_insert_tail_def ll_rep_def Let_def dseg_append)
qed

lemma remove_head_rep:
  assumes rep: "ll_rep h ll ((a, d) # cs)"
  shows "\<exists>h' ll'. linked_list_remove_head h ll = Some (h', ll', Some d) \<and>
           ll_rep h' ll' cs \<and> h' a = None \<and>
           (\<forall>b. b \<notin> insert a (fst ` set cs) \<longrightarrow> h' b = h b)"
proof (cases cs)
  case Nil
  with rep show ?thesis
    by (auto simp: linked_list_remove_head_def ll_rep_def Let_def)
next
  case (Cons c cs')
  obtain b x where c: "c = (b, x)" by (cases c)
  from rep Cons c show ?thesis
    by (auto simp: linked_list_remove_head_def ll_rep_def Let_def)
qed

lemma remove_head_empty:
  assumes "ll_rep h ll []"
  shows "linked_list_remove_head h ll = Some (h, ll, None)"
  using assms by (simp add: linked_list_remove_head_def ll_rep_def Let_def)

lemma remove_tail_rep:
  assumes rep: "ll_rep h ll (cs @ [(a, d)])"
  shows "\<exists>h' ll'. linked_list_remove_tail h ll = Some (h', ll', Some d) \<and>
           ll_rep h' ll' cs \<and> h' a = None \<and>
           (\<forall>b. b \<notin> insert a (fst ` set cs) \<longrightarrow> h' b = h b)"
proof (cases cs rule: rev_cases)
  case Nil
  with rep show ?thesis
    by (auto simp: linked_list_remove_tail_def ll_rep_def Let_def)
next
  case (snoc cs' c)
  obtain b x where c: "c = (b, x)" by (cases c)
  from rep snoc c show ?thesis
    by (auto simp: linked_list_remove_tail_def ll_rep_def Let_def dseg_append)
qed

lemma remove_tail_empty:
  assumes "ll_rep h ll []"
  shows "linked_list_remove_tail h ll = Some (h, ll, None)"
  using assms by (simp add: linked_list_remove_tail_def ll_rep_def Let_def)

text \<open>Unlinking a cell in the middle: the four cases of its two neighbours.\<close>

lemma remove_middle_rep:
  assumes rep: "ll_rep h ll (cs @ (a, d) # ds)"
  shows "\<exists>h' ll'. linked_list_remove_middle h ll a = Some (h', ll') \<and>
           ll_rep h' ll' (cs @ ds) \<and> h' a = None \<and>
           (\<forall>b. b \<notin> insert a (fst ` set (cs @ ds)) \<longrightarrow> h' b = h b)"
proof (cases cs rule: rev_cases)
  case Nil
  show ?thesis
  proof (cases ds)
    case Nil
    with rep \<open>cs = []\<close> show ?thesis
      by (auto simp: linked_list_remove_middle_def ll_rep_def)
  next
    case (Cons e es)
    obtain b x where e: "e = (b, x)" by (cases e)
    from rep have "ll_tail ll \<noteq> a" unfolding Cons by (rule ll_rep_tail_neq)
    with rep \<open>cs = []\<close> Cons e show ?thesis
      by (auto simp: linked_list_remove_middle_def ll_rep_def)
  qed
next
  case (snoc cs' c)
  obtain b x where c: "c = (b, x)" by (cases c)
  from rep snoc c have "ll_head ll \<noteq> a"
    by (cases cs') (auto simp: ll_rep_def)
  show ?thesis
  proof (cases ds)
    case Nil
    with rep snoc c \<open>ll_head ll \<noteq> a\<close> show ?thesis
      by (auto simp: linked_list_remove_middle_def ll_rep_def dseg_append)
  next
    case (Cons e es)
    obtain f y where e: "e = (f, y)" by (cases e)
    from rep have "ll_tail ll \<noteq> a" unfolding Cons by (rule ll_rep_tail_neq)
    with rep snoc c Cons e \<open>ll_head ll \<noteq> a\<close> show ?thesis
      by (auto simp: linked_list_remove_middle_def ll_rep_def dseg_append)
  qed
qed

subsection \<open>Walks\<close>

text \<open>
  On a well-formed list the walking loops end, whatever the length: the first cell that
  holds the datum is found, visited or removed.
\<close>

lemma find_from_dseg:
  assumes "dseg h p pr cs NULL lst"
  shows "linked_list_find_from h d p =
           Some (case find (\<lambda>c. snd c = d) cs of None \<Rightarrow> NULL | Some c \<Rightarrow> fst c)"
  using assms
proof (induction cs arbitrary: p pr)
  case Nil
  then show ?case by (simp add: linked_list_find_from.simps)
next
  case (Cons c cs)
  obtain a x where c: "c = (a, x)" by (cases c)
  with Cons.prems obtain n where n: "p = a" "a \<noteq> NULL"
    "h a = Some \<lparr>datum = x, link_next = n, link_prev = pr\<rparr>" "dseg h n a cs NULL lst"
    by auto
  show ?case
    using n Cons.IH [OF n(4)] c
    by (subst linked_list_find_from.simps) simp
qed

lemma find_rep:
  assumes "ll_rep h ll cs"
  shows "linked_list_find h ll d =
           Some (case find (\<lambda>c. snd c = d) cs of None \<Rightarrow> NULL | Some c \<Rightarrow> fst c)"
  using assms find_from_dseg by (auto simp: linked_list_find_def ll_rep_def)

lemma visit_from_dseg:
  assumes "dseg h p pr cs NULL lst"
  shows "linked_list_visit_from h visit p u = Some (visit_list visit (map snd cs) u)"
  using assms
proof (induction cs arbitrary: p pr u)
  case Nil
  then show ?case by (simp add: linked_list_visit_from.simps)
next
  case (Cons c cs)
  obtain a x where c: "c = (a, x)" by (cases c)
  with Cons.prems obtain n where n: "p = a" "a \<noteq> NULL"
    "h a = Some \<lparr>datum = x, link_next = n, link_prev = pr\<rparr>" "dseg h n a cs NULL lst"
    by auto
  show ?case
    using n Cons.IH [OF n(4)] c
    by (subst linked_list_visit_from.simps) (simp split: prod.splits)
qed

lemma visit_all_rep:
  assumes "ll_rep h ll cs"
  shows "linked_list_visit_all h ll visit u = Some (visit_list visit (map snd cs) u)"
  using assms visit_from_dseg by (auto simp: linked_list_visit_all_def ll_rep_def)

lemma remove_from_dseg:
  assumes "dseg h p pr cs NULL lst"
  shows "linked_list_remove_from h ll d p =
           (case find (\<lambda>c. snd c = d) cs of
              None \<Rightarrow> None | Some c \<Rightarrow> linked_list_remove_middle h ll (fst c))"
  using assms
proof (induction cs arbitrary: p pr)
  case Nil
  then show ?case by (simp add: linked_list_remove_from.simps ll_has_more_def)
next
  case (Cons c cs)
  obtain a x where c: "c = (a, x)" by (cases c)
  with Cons.prems obtain n where n: "p = a" "a \<noteq> NULL"
    "h a = Some \<lparr>datum = x, link_next = n, link_prev = pr\<rparr>" "dseg h n a cs NULL lst"
    by auto
  show ?case
    using n Cons.IH [OF n(4)] c
    by (subst linked_list_remove_from.simps) (simp add: ll_has_more_def ll_read_def ll_advance_def)
qed

lemma find_split:
  assumes "find P xs = Some x"
  shows "\<exists>ys zs. xs = ys @ x # zs \<and> P x \<and> (\<forall>y \<in> set ys. \<not> P y)"
  using assms
proof (induction xs)
  case (Cons y xs)
  show ?case
  proof (cases "P y")
    case True
    with Cons.prems show ?thesis by (intro exI [of _ "[]"] exI [of _ xs]) simp
  next
    case False
    with Cons obtain ys zs where "xs = ys @ x # zs" "P x" "\<forall>y \<in> set ys. \<not> P y" by auto
    with False show ?thesis by (intro exI [of _ "y # ys"] exI [of _ zs]) simp
  qed
qed simp

lemma remove_rep:
  assumes rep: "ll_rep h ll cs" and mem: "d \<in> snd ` set cs"
  shows "\<exists>h' ll' cs'. linked_list_remove h ll d = Some (h', ll') \<and> ll_rep h' ll' cs' \<and>
           map snd cs' = remove1 d (map snd cs) \<and> set (map fst cs') \<subseteq> set (map fst cs) \<and>
           (\<forall>b. b \<notin> fst ` set cs \<longrightarrow> h' b = h b)"
proof -
  from mem have "find (\<lambda>c. snd c = d) cs \<noteq> None" by (auto simp: find_None_iff)
  then obtain c where c: "find (\<lambda>c. snd c = d) cs = Some c" by auto
  from find_split [OF this] obtain ys zs where
    split: "cs = ys @ c # zs" "snd c = d" "\<forall>y \<in> set ys. snd y \<noteq> d" by auto
  obtain a where a: "c = (a, d)" using split(2) by (cases c) auto
  from remove_middle_rep [of h ll ys a d zs] rep split(1) a obtain h' ll' where
    r: "linked_list_remove_middle h ll a = Some (h', ll')" "ll_rep h' ll' (ys @ zs)"
      "\<forall>b. b \<notin> insert a (fst ` set (ys @ zs)) \<longrightarrow> h' b = h b" by auto
  from rep c a r(1) have "linked_list_remove h ll d = Some (h', ll')"
    by (auto simp: linked_list_remove_def ll_start_def ll_rep_def remove_from_dseg)
  moreover from split a have "map snd (ys @ zs) = remove1 d (map snd cs)"
    by (auto simp: remove1_append)
  moreover from r(3) split(1) a have "\<forall>b. b \<notin> fst ` set cs \<longrightarrow> h' b = h b" by auto
  ultimately show ?thesis using r(2) split(1) by (intro exI [of _ h'] exI [of _ ll'] exI [of _ "ys @ zs"]) auto
qed

lemma remove_missing:
  assumes "ll_rep h ll cs" and "d \<notin> snd ` set cs"
  shows "linked_list_remove h ll d = None"
proof -
  from assms(2) have "find (\<lambda>c. snd c = d) cs = None" by (force simp: find_None_iff)
  with assms(1) show ?thesis
    by (auto simp: linked_list_remove_def ll_start_def ll_rep_def remove_from_dseg)
qed

lemma ll_remove_rep:
  assumes rep: "ll_rep h ll (cs @ (a, d) # ds)"
  shows "\<exists>h' ll'. ll_remove h ll a = Some (h', ll', (case ds of [] \<Rightarrow> NULL | e # _ \<Rightarrow> fst e)) \<and>
           ll_rep h' ll' (cs @ ds)"
proof -
  from remove_middle_rep [OF rep] obtain h' ll' where
    "linked_list_remove_middle h ll a = Some (h', ll')" "ll_rep h' ll' (cs @ ds)" by auto
  moreover from rep have "ll_advance h a = Some (case ds of [] \<Rightarrow> NULL | e # _ \<Rightarrow> fst e)"
    by (cases ds) (auto simp: ll_rep_def dseg_append ll_advance_def)
  ultimately show ?thesis by (auto simp: ll_remove_def)
qed

lemmas ll_operation_reps =
  insert_head_rep insert_tail_rep remove_head_rep remove_tail_rep remove_middle_rep

subsection \<open>Sessions\<close>

text \<open>
  A client's session is a list of calls. \<open>alloc\<close> is the allocator behind
  \<open>mf_malloc\<close>: all that is asked of it is that it returns an address that is not NULL
  and not in use.
\<close>

datatype 'd ll_op = Insert_head 'd | Insert_tail 'd | Remove_head | Remove_tail | Remove 'd

definition mf_fresh :: "('d ll_store \<Rightarrow> addr) \<Rightarrow> bool" where
  "mf_fresh alloc \<longleftrightarrow> (\<forall>h. finite (dom h) \<longrightarrow> alloc h \<noteq> NULL \<and> h (alloc h) = None)"

fun ll_step :: "('d ll_store \<Rightarrow> addr) \<Rightarrow> 'd ll_store \<times> LinkedList \<times> 'd option list \<Rightarrow> 'd ll_op \<Rightarrow>
    ('d ll_store \<times> LinkedList \<times> 'd option list) option" where
  "ll_step alloc (h, ll, out) (Insert_head d) =
     map_option (\<lambda>(h', ll'). (h', ll', out)) (linked_list_insert_head (alloc h) h ll d)"
| "ll_step alloc (h, ll, out) (Insert_tail d) =
     map_option (\<lambda>(h', ll'). (h', ll', out)) (linked_list_insert_tail (alloc h) h ll d)"
| "ll_step alloc (h, ll, out) Remove_head =
     map_option (\<lambda>(h', ll', r). (h', ll', out @ [r])) (linked_list_remove_head h ll)"
| "ll_step alloc (h, ll, out) Remove_tail =
     map_option (\<lambda>(h', ll', r). (h', ll', out @ [r])) (linked_list_remove_tail h ll)"
| "ll_step alloc (h, ll, out) (Remove d) =
     map_option (\<lambda>(h', ll'). (h', ll', out)) (linked_list_remove h ll d)"

fun deque_step :: "'d list \<times> 'd option list \<Rightarrow> 'd ll_op \<Rightarrow> ('d list \<times> 'd option list) option" where
  "deque_step (xs, out) (Insert_head d) = Some (d # xs, out)"
| "deque_step (xs, out) (Insert_tail d) = Some (xs @ [d], out)"
| "deque_step (xs, out) Remove_head =
     (if xs = [] then Some ([], out @ [None]) else Some (tl xs, out @ [Some (hd xs)]))"
| "deque_step (xs, out) Remove_tail =
     (if xs = [] then Some ([], out @ [None]) else Some (butlast xs, out @ [Some (last xs)]))"
| "deque_step (xs, out) (Remove d) = (if d \<in> set xs then Some (remove1 d xs, out) else None)"

definition ll_session :: "'d ll_store \<Rightarrow> LinkedList \<Rightarrow> 'd list \<Rightarrow> bool" where
  "ll_session h ll xs \<longleftrightarrow> finite (dom h) \<and> (\<exists>cs. ll_rep h ll cs \<and> map snd cs = xs)"

lemma finite_dom_frame:
  assumes "finite (dom h)" and "finite A" and "\<forall>b. b \<notin> A \<longrightarrow> h' b = h b"
  shows "finite (dom h')"
proof -
  have "dom h' \<subseteq> dom h \<union> A" using assms(3) by fastforce
  then show ?thesis using assms(1,2) finite_subset by blast
qed

lemma ll_sessionI:
  "ll_rep h' ll' cs \<Longrightarrow> map snd cs = xs \<Longrightarrow> finite (dom h) \<Longrightarrow> finite A \<Longrightarrow>
     \<forall>b. b \<notin> A \<longrightarrow> h' b = h b \<Longrightarrow> ll_session h' ll' xs"
  using finite_dom_frame by (auto simp: ll_session_def)

lemma ll_step_refines:
  assumes "mf_fresh alloc" and "ll_session h ll xs"
  shows "case deque_step (xs, out) op of
           None \<Rightarrow> ll_step alloc (h, ll, out) op = None
         | Some (xs', out') \<Rightarrow> \<exists>h' ll'. ll_step alloc (h, ll, out) op = Some (h', ll', out') \<and> ll_session h' ll' xs'"
proof -
  from assms(2) obtain cs where fin: "finite (dom h)" and rep: "ll_rep h ll cs" and xs: "map snd cs = xs"
    by (auto simp: ll_session_def)
  from assms(1) fin have new: "alloc h \<noteq> NULL" "h (alloc h) = None" by (auto simp: mf_fresh_def)
  then have fresh: "alloc h \<notin> fst ` set cs" using rep dseg_mapped unfolding ll_rep_def by blast
  note sess = ll_sessionI [OF _ _ fin]
  show ?thesis
  proof (cases op)
    case (Insert_head d)
    from insert_head_rep [OF rep new(1) fresh, of d] obtain h' ll' where
      "linked_list_insert_head (alloc h) h ll d = Some (h', ll')" "ll_rep h' ll' ((alloc h, d) # cs)"
      "\<forall>a. a \<notin> insert (alloc h) (fst ` set cs) \<longrightarrow> h' a = h a" by blast
    then show ?thesis
      using Insert_head xs sess [of h' ll' "(alloc h, d) # cs" _ "insert (alloc h) (fst ` set cs)"] by auto
  next
    case (Insert_tail d)
    from insert_tail_rep [OF rep new(1) fresh, of d] obtain h' ll' where
      "linked_list_insert_tail (alloc h) h ll d = Some (h', ll')" "ll_rep h' ll' (cs @ [(alloc h, d)])"
      "\<forall>a. a \<notin> insert (alloc h) (fst ` set cs) \<longrightarrow> h' a = h a" by blast
    then show ?thesis
      using Insert_tail xs sess [of h' ll' "cs @ [(alloc h, d)]" _ "insert (alloc h) (fst ` set cs)"] by auto
  next
    case Remove_head
    show ?thesis
    proof (cases cs)
      case Nil
      then show ?thesis using Remove_head xs rep remove_head_empty assms(2) by auto
    next
      case (Cons c ds)
      obtain a d where c: "c = (a, d)" by (cases c)
      from remove_head_rep [of h ll a d ds] rep Cons c obtain h' ll' where
        "linked_list_remove_head h ll = Some (h', ll', Some d)" "ll_rep h' ll' ds"
        "\<forall>b. b \<notin> insert a (fst ` set ds) \<longrightarrow> h' b = h b" by blast
      then show ?thesis using Remove_head xs Cons c sess [of h' ll' ds _ "insert a (fst ` set ds)"] by auto
    qed
  next
    case Remove_tail
    show ?thesis
    proof (cases cs rule: rev_cases)
      case Nil
      then show ?thesis using Remove_tail xs rep remove_tail_empty assms(2) by auto
    next
      case (snoc ds c)
      obtain a d where c: "c = (a, d)" by (cases c)
      from remove_tail_rep [of h ll ds a d] rep snoc c obtain h' ll' where
        "linked_list_remove_tail h ll = Some (h', ll', Some d)" "ll_rep h' ll' ds"
        "\<forall>b. b \<notin> insert a (fst ` set ds) \<longrightarrow> h' b = h b" by blast
      then show ?thesis using Remove_tail xs snoc c sess [of h' ll' ds _ "insert a (fst ` set ds)"] by auto
    qed
  next
    case (Remove d)
    show ?thesis
    proof (cases "d \<in> snd ` set cs")
      case True
      from remove_rep [OF rep True] obtain h' ll' cs' where
        "linked_list_remove h ll d = Some (h', ll')" "ll_rep h' ll' cs'"
        "map snd cs' = remove1 d (map snd cs)" "\<forall>b. b \<notin> fst ` set cs \<longrightarrow> h' b = h b" by blast
      then show ?thesis using Remove xs [symmetric] True sess [of h' ll' cs' _ "fst ` set cs"] by simp
    next
      case False
      then show ?thesis using Remove xs remove_missing [OF rep False] by auto
    qed
  qed
qed

lemma ll_run_refines:
  assumes "mf_fresh alloc" and "ll_session h ll xs"
  shows "case foldM deque_step (xs, out) ops of
           None \<Rightarrow> foldM (ll_step alloc) (h, ll, out) ops = None
         | Some (xs', out') \<Rightarrow> \<exists>h' ll'. foldM (ll_step alloc) (h, ll, out) ops = Some (h', ll', out') \<and>
             ll_session h' ll' xs'"
  using assms(2)
proof (induction ops arbitrary: h ll xs out)
  case (Cons op ops)
  note st = ll_step_refines [OF assms(1) Cons.prems, of out op]
  show ?case
  proof (cases "deque_step (xs, out) op")
    case None
    with st show ?thesis by simp
  next
    case (Some s)
    obtain xs' out' where s: "s = (xs', out')" by (cases s)
    with st Some obtain h' ll' where
      h': "ll_step alloc (h, ll, out) op = Some (h', ll', out')" "ll_session h' ll' xs'" by auto
    from Cons.IH [OF h'(2), of out'] Some s h'(1) show ?thesis
      by (cases "foldM deque_step (xs', out') ops") auto
  qed
qed (simp add: ll_session_def)

lemma ll_session_init: "ll_session Map.empty linked_list_init []"
  using ll_rep_init by (auto simp: ll_session_def)

subsection \<open>The queue contract\<close>

text \<open>
  What the packet queues and waiter queues rely on: a queue enqueued at one end and dequeued
  at the other. \<open>fresh s a\<close> says that \<open>a\<close> may be the address of a new link.
\<close>

locale fifo =
  fixes rep :: "'s \<Rightarrow> 'd list \<Rightarrow> bool"
    and fresh :: "'s \<Rightarrow> addr \<Rightarrow> bool"
    and enq :: "addr \<Rightarrow> 's \<Rightarrow> 'd \<Rightarrow> 's option"
    and deq :: "'s \<Rightarrow> ('s \<times> 'd option) option"
  assumes enq_law: "rep s xs \<Longrightarrow> fresh s a \<Longrightarrow> \<exists>s'. enq a s d = Some s' \<and> rep s' (xs @ [d])"
    and deq_law: "rep s (x # xs) \<Longrightarrow> \<exists>s'. deq s = Some (s', Some x) \<and> rep s' xs"
    and deq_empty: "rep s [] \<Longrightarrow> deq s = Some (s, None)"
begin

text \<open>Taking \<open>n\<close> data out of the queue.\<close>

fun drain :: "nat \<Rightarrow> 's \<Rightarrow> ('s \<times> 'd list) option" where
  "drain 0 s = Some (s, [])"
| "drain (Suc n) s =
     Option.bind (deq s) (\<lambda>(s1, r).
       case r of None \<Rightarrow> Some (s1, [])
               | Some x \<Rightarrow> map_option (\<lambda>(s2, ys). (s2, x # ys)) (drain n s1))"

lemma drain_law:
  assumes "rep s xs"
  shows "\<exists>s'. drain n s = Some (s', take n xs) \<and> rep s' (drop n xs)"
  using assms
proof (induction n arbitrary: s xs)
  case (Suc n)
  show ?case
  proof (cases xs)
    case Nil
    with Suc.prems deq_empty [of s] show ?thesis by auto
  next
    case (Cons x ys)
    from deq_law [of s x ys] Suc.prems Cons obtain s1 where s1: "deq s = Some (s1, Some x)" "rep s1 ys"
      by auto
    from Suc.IH [OF s1(2)] s1(1) Cons show ?thesis by auto
  qed
qed simp

end

definition llq_rep :: "'d ll_store \<times> LinkedList \<Rightarrow> 'd list \<Rightarrow> bool" where
  "llq_rep s xs \<longleftrightarrow> (\<exists>cs. ll_rep (fst s) (snd s) cs \<and> map snd cs = xs)"

definition llq_fresh :: "'d ll_store \<times> LinkedList \<Rightarrow> addr \<Rightarrow> bool" where
  "llq_fresh s a \<longleftrightarrow> a \<noteq> NULL \<and> fst s a = None"

definition llq_enq :: "addr \<Rightarrow> 'd ll_store \<times> LinkedList \<Rightarrow> 'd \<Rightarrow> ('d ll_store \<times> LinkedList) option" where
  "llq_enq a s d = linked_list_insert_tail a (fst s) (snd s) d"

definition llq_deq :: "'d ll_store \<times> LinkedList \<Rightarrow> (('d ll_store \<times> LinkedList) \<times> 'd option) option" where
  "llq_deq s = map_option (\<lambda>(h, ll, r). ((h, ll), r)) (linked_list_remove_head (fst s) (snd s))"

interpretation llq: fifo llq_rep llq_fresh llq_enq llq_deq
proof unfold_locales
  show "\<exists>s'. llq_enq a s d = Some s' \<and> llq_rep s' (xs @ [d])"
    if "llq_rep s xs" and "llq_fresh s a" for s :: "'d ll_store \<times> LinkedList" and xs a d
  proof -
    from that obtain cs where cs: "ll_rep (fst s) (snd s) cs" "map snd cs = xs" by (auto simp: llq_rep_def)
    with that(2) have "a \<noteq> NULL" "a \<notin> fst ` set cs"
      using dseg_mapped unfolding ll_rep_def llq_fresh_def by blast+
    from insert_tail_rep [OF cs(1) this, of d] cs(2) show ?thesis
      by (fastforce simp: llq_enq_def llq_rep_def)
  qed
  show "\<exists>s'. llq_deq s = Some (s', Some x) \<and> llq_rep s' xs"
    if "llq_rep s (x # xs)" for s :: "'d ll_store \<times> LinkedList" and x xs
  proof -
    from that obtain a cs where cs: "ll_rep (fst s) (snd s) ((a, x) # cs)" "map snd cs = xs"
      by (auto simp: llq_rep_def map_eq_Cons_conv)
    from remove_head_rep [OF cs(1)] cs(2) show ?thesis by (fastforce simp: llq_deq_def llq_rep_def)
  qed
  show "llq_deq s = Some (s, None)" if "llq_rep s []" for s :: "'d ll_store \<times> LinkedList"
    using that remove_head_empty [of "fst s" "snd s"] by (auto simp: llq_deq_def llq_rep_def)
qed

subsection \<open>Properties\<close>

text \<open>C40. Any sequence of insertions and removals on a linked list behaves as on a double-ended
  queue: the same data come out in the same order, the list stays well formed (forward and
  backward pointers agree, the count is the length), no dangling pointer is followed, and the
  only call that aborts is the removal of a datum that is not in the list.\<close>

theorem linked_list_session_refines:
  assumes "mf_fresh alloc"
  shows "case foldM deque_step ([], []) ops of
           None \<Rightarrow> foldM (ll_step alloc) (Map.empty, linked_list_init, []) ops = None
         | Some (xs, out) \<Rightarrow> \<exists>h ll. foldM (ll_step alloc) (Map.empty, linked_list_init, []) ops = Some (h, ll, out) \<and>
             ll_session h ll xs"
  by (rule ll_run_refines [OF assms ll_session_init])

lemma mf_fresh_Max: "mf_fresh (\<lambda>h. Suc (Max (insert 0 (dom h))))"
proof -
  have "Suc (Max (insert 0 (dom h))) \<notin> dom h" if "finite (dom h)" for h :: "'a ll_store"
    using Max_ge [of "insert 0 (dom h)" "Suc (Max (insert 0 (dom h)))"] that by (metis finite_insert insertI2 not_less_eq_eq order_refl)
  then show ?thesis by (auto simp: mf_fresh_def)
qed

theorem linked_list_session_refines_witness:
  "\<exists>h ll. foldM (ll_step (\<lambda>h. Suc (Max (insert 0 (dom h))))) (Map.empty, linked_list_init, [])
     [Insert_tail 1, Insert_tail 2, Insert_head (3 :: nat), Remove 1, Remove_head, Remove_tail, Remove_head] =
     Some (h, ll, [Some 3, Some 2, None]) \<and> ll_session h ll []"
  using linked_list_session_refines [OF mf_fresh_Max, of
    "[Insert_tail 1, Insert_tail 2, Insert_head (3 :: nat), Remove 1, Remove_head, Remove_tail, Remove_head]"]
  by simp

text \<open>Unlinking the link an iterator stands on keeps the rest of the list in order, frees that
  link, and leaves the iterator on the link that followed it, at the ends as in the middle.\<close>

theorem ll_remove_correct:
  assumes "ll_rep h ll (cs @ (a, d) # ds)"
  shows "\<exists>h' ll'. ll_remove h ll a = Some (h', ll', (case ds of [] \<Rightarrow> NULL | e # _ \<Rightarrow> fst e)) \<and>
           ll_rep h' ll' (cs @ ds)"
  by (rule ll_remove_rep [OF assms])

theorem ll_remove_correct_witness:
  "\<exists>h' ll'. ll_remove (Map.empty(4 \<mapsto> \<lparr>datum = True, link_next = 0, link_prev = 0\<rparr>))
       \<lparr>ll_head = 4, ll_tail = 4, ll_count = 1\<rparr> 4 = Some (h', ll', NULL) \<and> ll_rep h' ll' []"
  using ll_remove_correct [of "Map.empty(4 \<mapsto> \<lparr>datum = True, link_next = 0, link_prev = 0\<rparr>)"
      "\<lparr>ll_head = 4, ll_tail = 4, ll_count = 1\<rparr>" "[]" 4 True "[]"]
  by (simp add: ll_rep_def)

end
