(* ===== verification/HashTable.thy ===== *)
theory HashTable
  imports Prelude
begin

text \<open>
  The incrementally resized hash table of \<open>src/common/utils/hash_table.c\<close>. A table holds
  two subtables; inserts go to the new one, and every successful lookup or insert moves one
  entry out of the old one, so that the old one is empty when the next resize throws it
  away. A chain of links that hangs off a bucket head is the HOL list of its links, head
  first; a pointer to the link that precedes a match is the subtable, the bucket and the
  position of the match. The client's hash and compare functions are fields of the table.

  The counters are C ints; a table of \<open>2 ^ 31\<close> entries does not fit the 32-bit address
  space, so they are kept as HOL integers.
\<close>

subsection \<open>Data\<close>

abbreviation HLMAGIC0 :: u32 where
  "HLMAGIC0 \<equiv> 0x33445566"

abbreviation HLMAGIC1 :: u32 where
  "HLMAGIC1 \<equiv> 0x34563456"

abbreviation LOAD_FACTOR_LIMIT :: int where
  "LOAD_FACTOR_LIMIT \<equiv> 3"

record 'd HashLink =
  magic0 :: u32
  hl_datum :: 'd
  magic1 :: u32

record 'd Subtable =
  buckets :: "'d HashLink list list"
  num_buckets :: nat
  st_count :: int

record 'd HashTable =
  hash_func :: "'d \<Rightarrow> u32"
  cmp_func :: "'d \<Rightarrow> 'd \<Rightarrow> int"
  old_table :: "'d Subtable"
  next_old_bucket :: nat
  new_table :: "'d Subtable"
  ht_count :: int
  visiting :: nat

text \<open>Which subtable a link was found in (the \<open>in_table\<close> out parameter).\<close>

datatype which_table = InNew | InOld

subsection \<open>Subtables\<close>

definition subtable_init :: "nat \<Rightarrow> 'd Subtable" where
  "subtable_init n = \<lparr>buckets = replicate n [], num_buckets = n, st_count = 0\<rparr>"

definition subtable_free :: "'d Subtable \<Rightarrow> unit option" where
  "subtable_free st = lite_assert (list_all (\<lambda>i. buckets st ! i = []) [0..<num_buckets st])"

definition subtable_find_bucket :: "'d HashTable \<Rightarrow> 'd Subtable \<Rightarrow> 'd \<Rightarrow> nat" where
  "subtable_find_bucket ht st d = unat (hash_func ht d) mod num_buckets st"

fun chain_find :: "('d \<Rightarrow> 'd \<Rightarrow> int) \<Rightarrow> 'd \<Rightarrow> 'd HashLink list \<Rightarrow> nat option" where
  "chain_find cmp d [] = None"
| "chain_find cmp d (l # ls) =
     (if cmp d (hl_datum l) = 0 then Some 0 else map_option Suc (chain_find cmp d ls))"

definition subtable_find_preceding_link ::
    "'d HashTable \<Rightarrow> 'd Subtable \<Rightarrow> 'd \<Rightarrow> (nat \<times> nat) option" where
  "subtable_find_preceding_link ht st d =
     (let b = subtable_find_bucket ht st d
      in map_option (Pair b) (chain_find (cmp_func ht) d (buckets st ! b)))"

subsection \<open>The table\<close>

definition hash_table_init :: "('d \<Rightarrow> u32) \<Rightarrow> ('d \<Rightarrow> 'd \<Rightarrow> int) \<Rightarrow> 'd HashTable" where
  "hash_table_init hash cmp =
     \<lparr>hash_func = hash, cmp_func = cmp, old_table = subtable_init 1, next_old_bucket = 1,
      new_table = subtable_init 2, ht_count = 0, visiting = 0\<rparr>"

definition hash_table_free :: "'d HashTable \<Rightarrow> unit option" where
  "hash_table_free ht = do {
     lite_assert (ht_count ht = 0);
     subtable_free (old_table ht);
     subtable_free (new_table ht)
   }"

definition hash_table_grow :: "'d HashTable \<Rightarrow> 'd HashTable option" where
  "hash_table_grow ht = do {
     subtable_free (old_table ht);
     Some (ht\<lparr>old_table := new_table ht,
              new_table := subtable_init (num_buckets (new_table ht) * 2),
              next_old_bucket := 0\<rparr>)
   }"

definition hash_table_find_preceding_link ::
    "'d HashTable \<Rightarrow> 'd \<Rightarrow> (which_table \<times> nat \<times> nat) option" where
  "hash_table_find_preceding_link ht d =
     (case subtable_find_preceding_link ht (new_table ht) d of
        Some p \<Rightarrow> Some (InNew, p)
      | None \<Rightarrow> map_option (Pair InOld) (subtable_find_preceding_link ht (old_table ht) d))"

text \<open>The scan of \<open>_hash_table_shift_one\<close> for the first bucket of the old table in use.\<close>

function shift_scan :: "'d Subtable \<Rightarrow> nat \<Rightarrow> nat" where
  "shift_scan st i =
     (if i < num_buckets st \<and> buckets st ! i = [] then shift_scan st (Suc i) else i)"
  by pat_completeness auto
termination
  by (relation "measure (\<lambda>(st, i). num_buckets st - i)") auto

declare shift_scan.simps [simp del]

text \<open>\<open>push_link st b l\<close> makes \<open>l\<close> the first link of bucket \<open>b\<close>.\<close>

definition push_link :: "'d Subtable \<Rightarrow> nat \<Rightarrow> 'd HashLink \<Rightarrow> 'd Subtable" where
  "push_link st b l =
     st\<lparr>buckets := (buckets st)[b := l # buckets st ! b], st_count := st_count st + 1\<rparr>"

definition drop_link :: "'d Subtable \<Rightarrow> nat \<Rightarrow> nat \<Rightarrow> 'd Subtable" where
  "drop_link st b i =
     st\<lparr>buckets := (buckets st)[b := take i (buckets st ! b) @ drop (Suc i) (buckets st ! b)],
        st_count := st_count st - 1\<rparr>"

definition hash_table_shift_one :: "'d HashTable \<Rightarrow> 'd HashTable" where
  "hash_table_shift_one ht =
     (let i = shift_scan (old_table ht) (next_old_bucket ht);
          ht1 = ht\<lparr>next_old_bucket := i\<rparr>
      in if i < num_buckets (old_table ht)
         then let victim = hd (buckets (old_table ht) ! i);
                  b = subtable_find_bucket ht1 (new_table ht1) (hl_datum victim)
              in ht1\<lparr>old_table := drop_link (old_table ht1) i 0,
                     new_table := push_link (new_table ht1) b victim\<rparr>
         else ht1)"

definition hash_table_lookup :: "'d HashTable \<Rightarrow> 'd \<Rightarrow> 'd HashTable \<times> 'd option" where
  "hash_table_lookup ht key =
     (case hash_table_find_preceding_link ht key of
        None \<Rightarrow> (ht, None)
      | Some (w, b, i) \<Rightarrow>
          let st = (case w of InNew \<Rightarrow> new_table ht | InOld \<Rightarrow> old_table ht)
          in (hash_table_shift_one ht, Some (hl_datum (buckets st ! b ! i))))"

definition hash_table_insert_inner :: "'d HashTable \<Rightarrow> 'd \<Rightarrow> bool \<Rightarrow> 'd HashTable option" where
  "hash_table_insert_inner ht d assert_absent = do {
     lite_assert (visiting ht = 0);
     (case hash_table_lookup ht d of
        (ht0, Some _) \<Rightarrow> do { lite_assert (\<not> assert_absent); Some ht0 }
      | (ht0, None) \<Rightarrow>
          (let b = subtable_find_bucket ht0 (new_table ht0) d;
               l = \<lparr>magic0 = HLMAGIC0, hl_datum = d, magic1 = HLMAGIC1\<rparr>;
               ht1 = ht0\<lparr>new_table := push_link (new_table ht0) b l,
                         ht_count := ht_count ht0 + 1\<rparr>;
               load_factor = ht_count ht1 div int (num_buckets (new_table ht1))
           in do {
             ht2 \<leftarrow> (if load_factor > LOAD_FACTOR_LIMIT then hash_table_grow ht1 else Some ht1);
             Some (hash_table_shift_one ht2)
           }))
   }"

definition hash_table_insert :: "'d HashTable \<Rightarrow> 'd \<Rightarrow> 'd HashTable option" where
  "hash_table_insert ht d = hash_table_insert_inner ht d True"

definition hash_table_union :: "'d HashTable \<Rightarrow> 'd \<Rightarrow> 'd HashTable option" where
  "hash_table_union ht d = hash_table_insert_inner ht d False"

definition hash_table_remove :: "'d HashTable \<Rightarrow> 'd \<Rightarrow> 'd HashTable option" where
  "hash_table_remove ht key = do {
     lite_assert (visiting ht = 0);
     (w, b, i) \<leftarrow> hash_table_find_preceding_link ht key;
     let st = (case w of InNew \<Rightarrow> new_table ht | InOld \<Rightarrow> old_table ht);
     let link = buckets st ! b ! i;
     let ht1 = (case w of InNew \<Rightarrow> ht\<lparr>new_table := drop_link st b i\<rparr>
                        | InOld \<Rightarrow> ht\<lparr>old_table := drop_link st b i\<rparr>);
     lite_assert (magic0 link = HLMAGIC0);
     lite_assert (magic1 link = HLMAGIC1);
     Some (ht1\<lparr>ht_count := ht_count ht1 - 1\<rparr>)
   }"

text \<open>The links of a subtable in the order the visiting loops reach them.\<close>

definition st_links :: "'d Subtable \<Rightarrow> 'd HashLink list" where
  "st_links st = concat (take (num_buckets st) (buckets st))"

definition st_data :: "'d Subtable \<Rightarrow> 'd list" where
  "st_data st = map hl_datum (st_links st)"

text \<open>
  A callback \<open>ff(user_obj, datum)\<close> is a function from the user object to the user object
  it leaves behind; it may abort. The callback works on its own object and not on the table
  that is being visited.
\<close>

definition hash_table_visit_every ::
    "'d HashTable \<Rightarrow> ('u \<Rightarrow> 'd \<Rightarrow> 'u option) \<Rightarrow> 'u \<Rightarrow> ('d HashTable \<times> 'u) option" where
  "hash_table_visit_every ht ff u = do {
     let ht1 = ht\<lparr>visiting := visiting ht + 1\<rparr>;
     u1 \<leftarrow> foldM ff u (st_data (old_table ht1));
     u2 \<leftarrow> foldM ff u1 (st_data (new_table ht1));
     Some (ht1\<lparr>visiting := visiting ht1 - 1\<rparr>, u2)
   }"

fun remove_every_links ::
    "('u \<Rightarrow> 'd \<Rightarrow> 'u option) \<Rightarrow> 'd HashLink list \<Rightarrow> int \<times> int \<times> 'u \<Rightarrow> (int \<times> int \<times> 'u) option" where
  "remove_every_links ff [] s = Some s"
| "remove_every_links ff (l # ls) (st_c, ht_c, u) = do {
     u' \<leftarrow> ff u (hl_datum l);
     lite_assert (magic0 l = HLMAGIC0);
     lite_assert (magic1 l = HLMAGIC1);
     remove_every_links ff ls (st_c - 1, ht_c - 1, u')
   }"

definition hash_table_remove_every_inner ::
    "'d Subtable \<Rightarrow> int \<Rightarrow> ('u \<Rightarrow> 'd \<Rightarrow> 'u option) \<Rightarrow> 'u \<Rightarrow> ('d Subtable \<times> int \<times> 'u) option" where
  "hash_table_remove_every_inner st ht_c ff u = do {
     (st_c, ht_c', u') \<leftarrow> remove_every_links ff (st_links st) (st_count st, ht_c, u);
     Some (st\<lparr>buckets := replicate (num_buckets st) [] @ drop (num_buckets st) (buckets st),
              st_count := st_c\<rparr>, ht_c', u')
   }"

definition hash_table_remove_every ::
    "'d HashTable \<Rightarrow> ('u \<Rightarrow> 'd \<Rightarrow> 'u option) \<Rightarrow> 'u \<Rightarrow> ('d HashTable \<times> 'u) option" where
  "hash_table_remove_every ht ff u = do {
     (o', c1, u1) \<leftarrow> hash_table_remove_every_inner (old_table ht) (ht_count ht) ff u;
     (n', c2, u2) \<leftarrow> hash_table_remove_every_inner (new_table ht) c1 ff u1;
     lite_assert (c2 = 0);
     Some (ht\<lparr>old_table := o', new_table := n', ht_count := c2\<rparr>, u2)
   }"

definition hash_table_free_discard :: "'d HashTable \<Rightarrow> unit option" where
  "hash_table_free_discard ht = do {
     (ht1, _) \<leftarrow> hash_table_remove_every ht (\<lambda>u d. Some ()) ();
     hash_table_free ht1
   }"

definition hash_table_subtract_worker :: "'d HashTable \<Rightarrow> 'd \<Rightarrow> 'd HashTable option" where
  "hash_table_subtract_worker target d =
     (case hash_table_lookup target d of
        (target1, Some _) \<Rightarrow> hash_table_remove target1 d
      | (target1, None) \<Rightarrow> Some target1)"

definition hash_table_subtract ::
    "'d HashTable \<Rightarrow> 'd HashTable \<Rightarrow> ('d HashTable \<times> 'd HashTable) option" where
  "hash_table_subtract ht0 ht1 = do {
     lite_assert (hash_func ht0 = hash_func ht1);
     lite_assert (cmp_func ht0 = cmp_func ht1);
     (ht1', ht0') \<leftarrow> hash_table_visit_every ht1 hash_table_subtract_worker ht0;
     Some (ht0', ht1')
   }"

subsection \<open>Building hash functions\<close>

definition hash_buf :: "bytes \<Rightarrow> u32" where
  "hash_buf buf = foldl (\<lambda>v b. v * 131 + ucast b) 0 buf"

subsection \<open>The contract of the client's functions\<close>

text \<open>
  \<open>cmp_func\<close> returns 0 exactly on data with the same key, an equivalence, and data with
  the same key have the same hash.
\<close>

locale hash_keys =
  fixes hash :: "'d \<Rightarrow> u32" and cmp :: "'d \<Rightarrow> 'd \<Rightarrow> int"
  assumes cmp_refl: "cmp a a = 0"
    and cmp_sym: "cmp a b = 0 \<Longrightarrow> cmp b a = 0"
    and cmp_trans: "cmp a b = 0 \<Longrightarrow> cmp b c = 0 \<Longrightarrow> cmp a c = 0"
    and cmp_hash: "cmp a b = 0 \<Longrightarrow> hash a = hash b"

subsection \<open>The invariant\<close>

definition link_ok :: "'d HashLink \<Rightarrow> bool" where
  "link_ok l \<longleftrightarrow> magic0 l = HLMAGIC0 \<and> magic1 l = HLMAGIC1"

definition st_inv :: "('d \<Rightarrow> u32) \<Rightarrow> 'd Subtable \<Rightarrow> bool" where
  "st_inv hash st \<longleftrightarrow>
     0 < num_buckets st \<and> length (buckets st) = num_buckets st \<and>
     st_count st = int (length (st_links st)) \<and>
     (\<forall>i < num_buckets st. \<forall>l \<in> set (buckets st ! i).
        unat (hash (hl_datum l)) mod num_buckets st = i \<and> link_ok l)"

definition st_mset :: "'d Subtable \<Rightarrow> 'd multiset" where
  "st_mset st = mset (st_data st)"

definition ht_mset :: "'d HashTable \<Rightarrow> 'd multiset" where
  "ht_mset ht = st_mset (old_table ht) + st_mset (new_table ht)"

definition unique_keys :: "('d \<Rightarrow> 'd \<Rightarrow> int) \<Rightarrow> 'd multiset \<Rightarrow> bool" where
  "unique_keys cmp M \<longleftrightarrow> (\<forall>x \<in># M. filter_mset (\<lambda>y. cmp x y = 0) M = {#x#})"

text \<open>
  The last but one conjunct is the progress measure of the incremental resize: there is
  always room for as many inserts before the next resize as there are entries left to move.
\<close>

definition ht_inv :: "'d HashTable \<Rightarrow> bool" where
  "ht_inv ht \<longleftrightarrow>
     st_inv (hash_func ht) (old_table ht) \<and> st_inv (hash_func ht) (new_table ht) \<and>
     ht_count ht = st_count (old_table ht) + st_count (new_table ht) \<and>
     next_old_bucket ht \<le> num_buckets (old_table ht) \<and>
     (\<forall>i < next_old_bucket ht. buckets (old_table ht) ! i = []) \<and>
     num_buckets (new_table ht) = 2 * num_buckets (old_table ht) \<and>
     st_count (old_table ht) + ht_count ht < 4 * int (num_buckets (new_table ht)) \<and>
     unique_keys (cmp_func ht) (ht_mset ht)"

subsection \<open>Subtable lemmas\<close>

lemma st_inv_links: "st_inv h st \<Longrightarrow> st_links st = concat (buckets st)"
  by (simp add: st_inv_def st_links_def)

lemma st_inv_mset: "st_inv h st \<Longrightarrow> st_mset st = image_mset hl_datum (mset (concat (buckets st)))"
  by (simp add: st_mset_def st_data_def st_inv_links)

lemma st_inv_count: "st_inv h st \<Longrightarrow> st_count st = int (size (st_mset st))"
  by (simp add: st_inv_def st_mset_def st_data_def)

lemma subtable_init_inv: "0 < n \<Longrightarrow> st_inv h (subtable_init n)"
  by (auto simp: st_inv_def subtable_init_def st_links_def)

lemma subtable_init_mset [simp]: "st_mset (subtable_init n) = {#}"
  by (auto simp: st_mset_def st_data_def st_links_def subtable_init_def)

lemma subtable_init_sel [simp]:
  "num_buckets (subtable_init n) = n" "st_count (subtable_init n) = 0"
  "buckets (subtable_init n) = replicate n []"
  by (simp_all add: subtable_init_def)

lemma subtable_free_empty:
  assumes "st_inv h st" and "st_count st = 0"
  shows "subtable_free st = Some ()"
proof -
  from assms have "concat (buckets st) = []"
    using st_inv_links [OF assms(1)] by (simp add: st_inv_def)
  moreover from assms(1) have "length (buckets st) = num_buckets st" by (simp add: st_inv_def)
  ultimately show ?thesis by (auto simp: subtable_free_def list_all_iff)
qed

lemma push_link_mset:
  assumes "st_inv h st" and "b < num_buckets st"
  shows "mset (concat (buckets (push_link st b l))) = add_mset l (mset (concat (buckets st)))"
  using assms mset_concat_update [of b "buckets st" "l # buckets st ! b"]
  by (simp add: push_link_def st_inv_def)

lemma push_link_inv:
  assumes inv: "st_inv h st" and "link_ok l" and b: "b = unat (h (hl_datum l)) mod num_buckets st"
  shows "st_inv h (push_link st b l)"
    and "st_mset (push_link st b l) = add_mset (hl_datum l) (st_mset st)"
    and "num_buckets (push_link st b l) = num_buckets st"
    and "st_count (push_link st b l) = st_count st + 1"
proof -
  from inv b have lt: "b < num_buckets st" by (simp add: st_inv_def)
  have m: "mset (concat (buckets (push_link st b l))) = add_mset l (mset (concat (buckets st)))"
    by (rule push_link_mset [OF inv lt])
  have len: "length (buckets (push_link st b l)) = num_buckets st"
    using inv by (simp add: push_link_def st_inv_def)
  show nb: "num_buckets (push_link st b l) = num_buckets st"
    and c: "st_count (push_link st b l) = st_count st + 1"
    by (simp_all add: push_link_def)
  have "size (mset (concat (buckets (push_link st b l)))) = Suc (size (mset (concat (buckets st))))"
    by (simp only: m) simp
  then have "int (length (st_links (push_link st b l))) = st_count st + 1"
    using inv len nb by (simp add: st_links_def st_inv_def)
  moreover have "unat (h (hl_datum x)) mod num_buckets st = j \<and> link_ok x"
    if "j < num_buckets st" and "x \<in> set (buckets (push_link st b l) ! j)" for j x
  proof (cases "j = b")
    case True
    with that lt inv have "x = l \<or> x \<in> set (buckets st ! b)" by (auto simp: push_link_def st_inv_def)
    with True assms lt show ?thesis by (auto simp: st_inv_def)
  next
    case False
    with that have "x \<in> set (buckets st ! j)" by (simp add: push_link_def)
    with that(1) inv show ?thesis by (simp add: st_inv_def)
  qed
  ultimately show i: "st_inv h (push_link st b l)"
    using lt len nb c by (simp add: st_inv_def)
  show "st_mset (push_link st b l) = add_mset (hl_datum l) (st_mset st)"
    by (simp add: st_inv_mset [OF i] st_inv_mset [OF inv] m)
qed

lemma mset_take_drop_nth:
  "i < length xs \<Longrightarrow> add_mset (xs ! i) (mset (take i xs @ drop (Suc i) xs)) = mset xs"
  by (metis id_take_nth_drop mset.simps(2) mset_append union_mset_add_mset_right)

lemma drop_link_mset:
  assumes "st_inv h st" and "b < num_buckets st" and "i < length (buckets st ! b)"
  shows "add_mset (buckets st ! b ! i) (mset (concat (buckets (drop_link st b i)))) =
           mset (concat (buckets st))"
proof -
  let ?c = "buckets st ! b" and ?d = "take i (buckets st ! b) @ drop (Suc i) (buckets st ! b)"
  have "mset (concat ((buckets st)[b := ?d])) + mset ?c = mset (concat (buckets st)) + mset ?d"
    using assms by (intro mset_concat_update) (simp add: st_inv_def)
  moreover have "mset ?c = add_mset (?c ! i) (mset ?d)"
    using mset_take_drop_nth [OF assms(3)] by simp
  ultimately show ?thesis by (simp add: drop_link_def)
qed

lemma drop_link_inv:
  assumes inv: "st_inv h st" and lt: "b < num_buckets st" and i: "i < length (buckets st ! b)"
  shows "st_inv h (drop_link st b i)"
    and "st_mset st = add_mset (hl_datum (buckets st ! b ! i)) (st_mset (drop_link st b i))"
    and "num_buckets (drop_link st b i) = num_buckets st"
    and "st_count (drop_link st b i) = st_count st - 1"
proof -
  note m = drop_link_mset [OF assms]
  have len: "length (buckets (drop_link st b i)) = num_buckets st"
    using inv by (simp add: drop_link_def st_inv_def)
  show nb: "num_buckets (drop_link st b i) = num_buckets st"
    and c: "st_count (drop_link st b i) = st_count st - 1"
    by (simp_all add: drop_link_def)
  have "Suc (size (mset (concat (buckets (drop_link st b i))))) = size (mset (concat (buckets st)))"
    by (simp only: m [symmetric]) simp
  then have "int (length (st_links (drop_link st b i))) = st_count st - 1"
    using inv len nb by (simp add: st_links_def st_inv_def)
  moreover have "set (take i (buckets st ! b) @ drop (Suc i) (buckets st ! b)) \<subseteq> set (buckets st ! b)"
    by (auto dest: in_set_takeD in_set_dropD)
  ultimately show i: "st_inv h (drop_link st b i)"
    using inv lt len nb c
    by (auto simp: st_inv_def drop_link_def nth_list_update split: if_splits
        dest: in_set_takeD in_set_dropD)
  show "st_mset st = add_mset (hl_datum (buckets st ! b ! i)) (st_mset (drop_link st b i))"
    by (simp add: st_inv_mset [OF i] st_inv_mset [OF inv] m [symmetric])
qed

subsection \<open>Searching\<close>

lemma chain_find_Some:
  assumes "chain_find cmp d ls = Some i"
  shows "i < length ls \<and> cmp d (hl_datum (ls ! i)) = 0"
  using assms by (induction ls arbitrary: i) (auto split: if_splits)

lemma chain_find_None: "chain_find cmp d ls = None \<longleftrightarrow> (\<forall>l \<in> set ls. cmp d (hl_datum l) \<noteq> 0)"
  by (induction ls) auto

lemma subtable_find_Some:
  assumes "st_inv (hash_func ht) st" and "subtable_find_preceding_link ht st d = Some (b, i)"
  shows "b < num_buckets st \<and> i < length (buckets st ! b) \<and>
           cmp_func ht d (hl_datum (buckets st ! b ! i)) = 0"
  using assms
  by (auto simp: subtable_find_preceding_link_def subtable_find_bucket_def Let_def st_inv_def
      dest!: chain_find_Some)

context hash_keys
begin

lemma subtable_find_None:
  assumes inv: "st_inv hash st" and ht: "hash_func ht = hash" "cmp_func ht = cmp"
    and none: "subtable_find_preceding_link ht st d = None"
  shows "\<forall>x \<in># st_mset st. cmp d x \<noteq> 0"
proof (intro ballI notI)
  fix x
  assume "x \<in># st_mset st" and eq: "cmp d x = 0"
  then obtain l where l: "l \<in> set (concat (buckets st))" "x = hl_datum l"
    by (auto simp: st_inv_mset [OF inv])
  then obtain j where j: "j < num_buckets st" "l \<in> set (buckets st ! j)"
    using inv by (fastforce simp: st_inv_def in_set_conv_nth)
  with inv l(2) have "unat (hash x) mod num_buckets st = j" by (auto simp: st_inv_def)
  with cmp_hash [OF eq] have "subtable_find_bucket ht st d = j"
    by (simp add: subtable_find_bucket_def ht)
  with none j l(2) eq show False
    by (auto simp: subtable_find_preceding_link_def chain_find_None ht)
qed

lemma unique_keys_insert:
  assumes "unique_keys cmp M" and "\<forall>x \<in># M. cmp d x \<noteq> 0"
  shows "unique_keys cmp (add_mset d M)"
proof -
  have "filter_mset (\<lambda>y. cmp d y = 0) M = {#}" using assms(2) by (auto simp: filter_mset_eq_mempty_iff)
  moreover have "cmp x d \<noteq> 0" if "x \<in># M" for x using assms(2) that cmp_sym by blast
  ultimately show ?thesis using assms(1) by (auto simp: unique_keys_def cmp_refl)
qed

lemma unique_keys_drop:
  assumes "unique_keys cmp (add_mset d M)"
  shows "unique_keys cmp M" and "\<forall>x \<in># M. cmp d x \<noteq> 0"
proof -
  from assms have "filter_mset (\<lambda>y. cmp d y = 0) (add_mset d M) = {#d#}"
    unfolding unique_keys_def by auto
  then have "filter_mset (\<lambda>y. cmp d y = 0) M = {#}" by (simp add: cmp_refl)
  then show no: "\<forall>x \<in># M. cmp d x \<noteq> 0" by (auto simp: filter_mset_eq_mempty_iff)
  have "filter_mset (\<lambda>y. cmp x y = 0) M = {#x#}" if "x \<in># M" for x
  proof -
    from that no cmp_sym have "cmp x d \<noteq> 0" by blast
    moreover from assms that have "filter_mset (\<lambda>y. cmp x y = 0) (add_mset d M) = {#x#}"
      unfolding unique_keys_def by auto
    ultimately show ?thesis by simp
  qed
  then show "unique_keys cmp M" by (simp add: unique_keys_def)
qed

lemma unique_keys_same:
  assumes "unique_keys cmp M" and "x \<in># M" and "y \<in># M" and "cmp x y = 0"
  shows "y = x"
proof -
  from assms have "y \<in># filter_mset (\<lambda>z. cmp x z = 0) M" by simp
  also from assms have "filter_mset (\<lambda>z. cmp x z = 0) M = {#x#}" by (simp add: unique_keys_def)
  finally show ?thesis by simp
qed

end

subsection \<open>Moving one entry\<close>

lemma shift_scan_props:
  assumes "i \<le> num_buckets st"
  shows "i \<le> shift_scan st i \<and> shift_scan st i \<le> num_buckets st \<and>
           (\<forall>j. i \<le> j \<and> j < shift_scan st i \<longrightarrow> buckets st ! j = []) \<and>
           (shift_scan st i < num_buckets st \<longrightarrow> buckets st ! shift_scan st i \<noteq> [])"
  using assms
proof (induction st i rule: shift_scan.induct)
  case (1 st i)
  show ?case
  proof (cases "i < num_buckets st \<and> buckets st ! i = []")
    case True
    with 1 have ih: "Suc i \<le> shift_scan st (Suc i) \<and> shift_scan st (Suc i) \<le> num_buckets st \<and>
      (\<forall>j. Suc i \<le> j \<and> j < shift_scan st (Suc i) \<longrightarrow> buckets st ! j = []) \<and>
      (shift_scan st (Suc i) < num_buckets st \<longrightarrow> buckets st ! shift_scan st (Suc i) \<noteq> [])"
      by simp
    have eq: "shift_scan st i = shift_scan st (Suc i)"
      using True by (subst shift_scan.simps) simp
    have "buckets st ! j = []" if "i \<le> j" "j < shift_scan st (Suc i)" for j
      using ih True that by (cases "j = i") auto
    with ih show ?thesis unfolding eq by auto
  next
    case False
    then have "shift_scan st i = i" by (subst shift_scan.simps) auto
    with 1(2) False show ?thesis by auto
  qed
qed

text \<open>
  One step of the migration keeps every conjunct of the invariant apart from the progress
  measure, keeps the contents, and takes one entry off the old table unless it is empty.
\<close>

definition ht_core :: "'d HashTable \<Rightarrow> bool" where
  "ht_core ht \<longleftrightarrow>
     st_inv (hash_func ht) (old_table ht) \<and> st_inv (hash_func ht) (new_table ht) \<and>
     ht_count ht = st_count (old_table ht) + st_count (new_table ht) \<and>
     next_old_bucket ht \<le> num_buckets (old_table ht) \<and>
     (\<forall>i < next_old_bucket ht. buckets (old_table ht) ! i = []) \<and>
     num_buckets (new_table ht) = 2 * num_buckets (old_table ht)"

lemma ht_inv_core:
  "ht_inv ht \<longleftrightarrow>
     ht_core ht \<and> st_count (old_table ht) + ht_count ht < 4 * int (num_buckets (new_table ht)) \<and>
     unique_keys (cmp_func ht) (ht_mset ht)"
  by (auto simp: ht_inv_def ht_core_def)

lemma shift_one_frame [simp]:
  "hash_func (hash_table_shift_one ht) = hash_func ht"
  "cmp_func (hash_table_shift_one ht) = cmp_func ht"
  "visiting (hash_table_shift_one ht) = visiting ht"
  "ht_count (hash_table_shift_one ht) = ht_count ht"
  by (simp_all add: hash_table_shift_one_def Let_def)

lemma shift_one_core:
  assumes core: "ht_core ht"
  shows "ht_core (hash_table_shift_one ht)"
    and "ht_mset (hash_table_shift_one ht) = ht_mset ht"
    and "num_buckets (new_table (hash_table_shift_one ht)) = num_buckets (new_table ht)"
    and "st_count (old_table (hash_table_shift_one ht)) = max 0 (st_count (old_table ht) - 1)"
proof -
  let ?st = "old_table ht" and ?nt = "new_table ht" and ?h = "hash_func ht"
  let ?i = "shift_scan ?st (next_old_bucket ht)"
  from core have so: "st_inv ?h ?st" and sn: "st_inv ?h ?nt"
    and cnt: "ht_count ht = st_count ?st + st_count ?nt"
    and le: "next_old_bucket ht \<le> num_buckets ?st"
    and pre: "\<forall>i < next_old_bucket ht. buckets ?st ! i = []"
    and nb: "num_buckets ?nt = 2 * num_buckets ?st"
    by (auto simp: ht_core_def)
  from shift_scan_props [OF le] have sc: "next_old_bucket ht \<le> ?i" "?i \<le> num_buckets ?st"
    "\<forall>j. next_old_bucket ht \<le> j \<and> j < ?i \<longrightarrow> buckets ?st ! j = []"
    "?i < num_buckets ?st \<longrightarrow> buckets ?st ! ?i \<noteq> []" by auto
  have before: "\<forall>j < ?i. buckets ?st ! j = []" using pre sc(3) by (meson not_le)
  have "ht_core (hash_table_shift_one ht) \<and> ht_mset (hash_table_shift_one ht) = ht_mset ht \<and>
    num_buckets (new_table (hash_table_shift_one ht)) = num_buckets ?nt \<and>
    st_count (old_table (hash_table_shift_one ht)) = max 0 (st_count ?st - 1)"
  proof (cases "?i < num_buckets ?st")
    case False
    with sc(2) have "?i = num_buckets ?st" by simp
    with before so have "concat (buckets ?st) = []"
      by (auto simp: st_inv_def in_set_conv_nth)
    with so have "st_count ?st = 0" using st_inv_links [OF so] by (simp add: st_inv_def)
    with False core sc(2) before show ?thesis
      by (auto simp: hash_table_shift_one_def Let_def ht_core_def ht_mset_def)
  next
    case True
    let ?v = "hd (buckets ?st ! ?i)"
    let ?b = "unat (?h (hl_datum ?v)) mod num_buckets ?nt"
    let ?o = "drop_link ?st ?i 0" and ?n = "push_link ?nt ?b ?v"
    from sc(4) True have ne: "buckets ?st ! ?i \<noteq> []" by simp
    then have v: "buckets ?st ! ?i ! 0 = ?v" by (simp add: hd_conv_nth)
    from ne have z: "0 < length (buckets ?st ! ?i)" by simp
    note d = drop_link_inv [OF so True z]
    have "link_ok ?v" using so True ne by (auto simp: st_inv_def)
    note p = push_link_inv [OF sn this refl]
    have eq: "hash_table_shift_one ht = ht\<lparr>next_old_bucket := ?i, old_table := ?o, new_table := ?n\<rparr>"
      using True by (simp add: hash_table_shift_one_def Let_def subtable_find_bucket_def)
    have "\<forall>j < ?i. buckets ?o ! j = []" using before by (simp add: drop_link_def)
    moreover have "0 < size (st_mset ?st)" using d(2) by simp
    ultimately show ?thesis
      using d p cnt nb sc(2) v st_inv_count [OF so]
      by (simp add: eq ht_core_def ht_mset_def)
  qed
  then show "ht_core (hash_table_shift_one ht)"
    and "ht_mset (hash_table_shift_one ht) = ht_mset ht"
    and "num_buckets (new_table (hash_table_shift_one ht)) = num_buckets (new_table ht)"
    and "st_count (old_table (hash_table_shift_one ht)) = max 0 (st_count (old_table ht) - 1)"
    by auto
qed

subsection \<open>Lookup, insert, remove\<close>

abbreviation the_table :: "'d HashTable \<Rightarrow> which_table \<Rightarrow> 'd Subtable" where
  "the_table ht w \<equiv> (case w of InNew \<Rightarrow> new_table ht | InOld \<Rightarrow> old_table ht)"

lemma find_link_Some:
  assumes "ht_core ht" and "hash_table_find_preceding_link ht d = Some (w, b, i)"
  shows "b < num_buckets (the_table ht w) \<and> i < length (buckets (the_table ht w) ! b) \<and>
           cmp_func ht d (hl_datum (buckets (the_table ht w) ! b ! i)) = 0"
  using assms
  by (auto simp: hash_table_find_preceding_link_def ht_core_def split: option.splits
      dest: subtable_find_Some)

lemma link_in_mset:
  assumes "st_inv h st" and "b < num_buckets st" and "i < length (buckets st ! b)"
  shows "hl_datum (buckets st ! b ! i) \<in># st_mset st"
  using drop_link_inv(2) [OF assms] by simp

lemma the_table_mset:
  assumes "x \<in># st_mset (the_table ht w)"
  shows "x \<in># ht_mset ht"
  using assms by (cases w) (auto simp: ht_mset_def)

lemma the_table_inv: "ht_core ht \<Longrightarrow> st_inv (hash_func ht) (the_table ht w)"
  by (cases w) (auto simp: ht_core_def)

lemma shift_one_inv: "ht_inv ht \<Longrightarrow> ht_inv (hash_table_shift_one ht)"
proof -
  assume inv: "ht_inv ht"
  then have core: "ht_core ht" by (simp add: ht_inv_core)
  have "0 \<le> st_count (old_table ht)" using core by (auto simp: ht_core_def st_inv_def)
  then have "max 0 (st_count (old_table ht) - 1) \<le> st_count (old_table ht)" by simp
  with inv shift_one_core [OF core] show ?thesis by (auto simp: ht_inv_core)
qed

lemma init_inv: "ht_inv (hash_table_init hash cmp)" "ht_mset (hash_table_init hash cmp) = {#}"
  by (auto simp: ht_inv_def hash_table_init_def subtable_init_inv unique_keys_def ht_mset_def)

context hash_keys
begin

text \<open>Tables that use this key contract.\<close>

definition keyed :: "'d HashTable \<Rightarrow> bool" where
  "keyed ht \<longleftrightarrow> hash_func ht = hash \<and> cmp_func ht = cmp"

lemma find_link_None:
  assumes "ht_core ht" and "keyed ht" and "hash_table_find_preceding_link ht d = None"
  shows "\<forall>x \<in># ht_mset ht. cmp d x \<noteq> 0"
proof -
  from assms have "\<forall>x \<in># st_mset (new_table ht). cmp d x \<noteq> 0"
    by (intro subtable_find_None [of _ ht])
       (auto simp: ht_core_def keyed_def hash_table_find_preceding_link_def split: option.splits)
  moreover from assms have "\<forall>x \<in># st_mset (old_table ht). cmp d x \<noteq> 0"
    by (intro subtable_find_None [of _ ht])
       (auto simp: ht_core_def keyed_def hash_table_find_preceding_link_def split: option.splits)
  ultimately show ?thesis by (auto simp: ht_mset_def)
qed

lemma lookup_spec:
  assumes inv: "ht_inv ht" and k: "keyed ht" and "hash_table_lookup ht key = (ht', r)"
  shows "ht_inv ht' \<and> keyed ht' \<and> visiting ht' = visiting ht \<and> ht_mset ht' = ht_mset ht \<and>
           (case r of None \<Rightarrow> ht' = ht \<and> (\<forall>x \<in># ht_mset ht. cmp key x \<noteq> 0)
                    | Some x \<Rightarrow> x \<in># ht_mset ht \<and> cmp key x = 0)"
proof -
  from inv have core: "ht_core ht" by (simp add: ht_inv_core)
  show ?thesis
  proof (cases "hash_table_find_preceding_link ht key")
    case None
    with assms find_link_None [OF core k None] show ?thesis by (auto simp: hash_table_lookup_def)
  next
    case (Some p)
    obtain w b i where p: "p = (w, b, i)" by (cases p)
    note f = find_link_Some [OF core Some [unfolded p]]
    let ?x = "hl_datum (buckets (the_table ht w) ! b ! i)"
    from f have "?x \<in># ht_mset ht"
      by (intro the_table_mset [of _ _ w] link_in_mset [OF the_table_inv [OF core]]) simp_all
    moreover from f k have "cmp key ?x = 0" by (simp add: keyed_def)
    moreover from assms(3) Some p have "ht' = hash_table_shift_one ht" "r = Some ?x"
      by (auto simp: hash_table_lookup_def Let_def)
    ultimately show ?thesis
      using shift_one_inv [OF inv] shift_one_core(2) [OF core] k by (simp add: keyed_def)
  qed
qed

lemma insert_absent:
  assumes inv: "ht_inv ht" and k: "keyed ht" and vis: "visiting ht = 0"
    and absent: "\<forall>x \<in># ht_mset ht. cmp d x \<noteq> 0"
  shows "\<exists>ht'. hash_table_insert_inner ht d must_be_absent = Some ht' \<and> ht_inv ht' \<and> keyed ht' \<and>
           visiting ht' = 0 \<and> ht_mset ht' = add_mset d (ht_mset ht)"
proof -
  let ?l = "\<lparr>magic0 = HLMAGIC0, hl_datum = d, magic1 = HLMAGIC1\<rparr>"
  let ?N = "num_buckets (new_table ht)"
  let ?b = "unat (hash d) mod ?N"
  let ?n = "push_link (new_table ht) ?b ?l"
  let ?ht1 = "ht\<lparr>new_table := ?n, ht_count := ht_count ht + 1\<rparr>"
  from inv have core: "ht_core ht" by (simp add: ht_inv_core)
  have lk: "hash_table_lookup ht d = (ht, None)"
    using lookup_spec [OF inv k, of d] absent
    by (cases "hash_table_lookup ht d") (auto split: option.splits)
  have sn: "st_inv hash (new_table ht)" and so: "st_inv hash (old_table ht)"
    using core k by (auto simp: ht_core_def keyed_def)
  have pl: "st_inv hash ?n" "st_mset ?n = add_mset d (st_mset (new_table ht))"
    "num_buckets ?n = ?N" "st_count ?n = st_count (new_table ht) + 1"
    using push_link_inv [OF sn, of ?l ?b] by (simp_all add: link_ok_def)
  have core1: "ht_core ?ht1" using core k pl by (auto simp: ht_core_def keyed_def)
  have m1: "ht_mset ?ht1 = add_mset d (ht_mset ht)" using pl by (simp add: ht_mset_def)
  have u1: "unique_keys cmp (ht_mset ?ht1)"
    unfolding m1 using inv k absent
    by (intro unique_keys_insert) (auto simp: ht_inv_core keyed_def)
  have pos: "0 < ?N" using sn by (simp add: st_inv_def)
  have O: "0 \<le> st_count (old_table ht)" using so by (simp add: st_inv_def)
  have room: "st_count (old_table ht) + ht_count ht < 4 * int ?N" using inv by (simp add: ht_inv_core)
  have lf: "3 < (ht_count ht + 1) div int ?N \<longleftrightarrow> 4 * int ?N \<le> ht_count ht + 1"
    using le_div_int_iff [of "int ?N" 4 "ht_count ht + 1"] pos by linarith
  show ?thesis
  proof (cases "3 < (ht_count ht + 1) div int ?N")
    case False
    then have "hash_table_insert_inner ht d must_be_absent = Some (hash_table_shift_one ?ht1)"
      using lk vis k pl(3)
      by (simp add: hash_table_insert_inner_def Let_def subtable_find_bucket_def keyed_def)
    moreover have "ht_inv (hash_table_shift_one ?ht1)"
      using shift_one_core [OF core1] u1 False lf room O pl(3) k
      by (auto simp: ht_inv_core keyed_def)
    ultimately show ?thesis
      using shift_one_core(2) [OF core1] m1 k vis by (simp add: keyed_def)
  next
    case True
    let ?ht2 = "?ht1\<lparr>old_table := ?n, new_table := subtable_init (?N * 2), next_old_bucket := 0\<rparr>"
    from True lf room O have O0: "st_count (old_table ht) = 0" and C: "ht_count ht + 1 = 4 * int ?N"
      by auto
    have fr: "subtable_free (old_table ht) = Some ()" by (rule subtable_free_empty [OF so O0])
    have "st_mset (old_table ht) = {#}"
      using st_inv_count [OF so] O0 by simp
    then have m2: "ht_mset ?ht2 = ht_mset ?ht1" by (simp add: ht_mset_def)
    have core2: "ht_core ?ht2"
      using core k pl pos O0 by (auto simp: ht_core_def keyed_def subtable_init_inv)
    have "hash_table_insert_inner ht d must_be_absent = Some (hash_table_shift_one ?ht2)"
      using lk vis k pl(3) True fr
      by (simp add: hash_table_insert_inner_def Let_def subtable_find_bucket_def keyed_def
          hash_table_grow_def)
    moreover have "ht_inv (hash_table_shift_one ?ht2)"
      using shift_one_core [OF core2] u1 m2 C O0 pl pos k core
      by (auto simp: ht_inv_core keyed_def ht_core_def)
    ultimately show ?thesis
      using shift_one_core(2) [OF core2] m1 m2 k vis by (simp add: keyed_def)
  qed
qed

lemma insert_present:
  assumes "ht_inv ht" and "keyed ht" and "visiting ht = 0" and "x \<in># ht_mset ht" and "cmp d x = 0"
  shows "\<exists>ht'. hash_table_union ht d = Some ht' \<and> ht_inv ht' \<and> keyed ht' \<and>
           visiting ht' = 0 \<and> ht_mset ht' = ht_mset ht"
    and "hash_table_insert ht d = None"
proof -
  obtain ht' r where lk: "hash_table_lookup ht d = (ht', r)" by (cases "hash_table_lookup ht d")
  note sp = lookup_spec [OF assms(1,2) lk]
  with assms(4,5) obtain y where r: "r = Some y" by (cases r) auto
  from lk r sp assms(3) show "\<exists>ht'. hash_table_union ht d = Some ht' \<and> ht_inv ht' \<and> keyed ht' \<and>
      visiting ht' = 0 \<and> ht_mset ht' = ht_mset ht"
    and "hash_table_insert ht d = None"
    by (simp_all add: hash_table_union_def hash_table_insert_def hash_table_insert_inner_def)
qed

lemma remove_absent:
  assumes "ht_inv ht" and "keyed ht" and "\<forall>x \<in># ht_mset ht. cmp key x \<noteq> 0"
  shows "hash_table_remove ht key = None"
proof (cases "hash_table_find_preceding_link ht key")
  case (Some p)
  obtain w b i where p: "p = (w, b, i)" by (cases p)
  from assms have core: "ht_core ht" by (simp add: ht_inv_core)
  note f = find_link_Some [OF core Some [unfolded p]]
  from f have "hl_datum (buckets (the_table ht w) ! b ! i) \<in># ht_mset ht"
    by (intro the_table_mset [of _ _ w] link_in_mset [OF the_table_inv [OF core]]) simp_all
  with f assms show ?thesis by (simp add: keyed_def)
qed (simp add: hash_table_remove_def lite_assert_bind)

lemma remove_present:
  assumes inv: "ht_inv ht" and k: "keyed ht" and vis: "visiting ht = 0"
    and x: "x \<in># ht_mset ht" "cmp key x = 0"
  shows "\<exists>ht'. hash_table_remove ht key = Some ht' \<and> ht_inv ht' \<and> keyed ht' \<and>
           visiting ht' = 0 \<and> ht_mset ht = add_mset x (ht_mset ht')"
proof -
  from inv have core: "ht_core ht" by (simp add: ht_inv_core)
  from find_link_None [OF core k, of key] x obtain w b i
    where fl: "hash_table_find_preceding_link ht key = Some (w, b, i)"
    by (cases "hash_table_find_preceding_link ht key") auto
  let ?st = "the_table ht w"
  let ?l = "buckets ?st ! b ! i"
  let ?ht1 = "(case w of InNew \<Rightarrow> ht\<lparr>new_table := drop_link ?st b i\<rparr>
                       | InOld \<Rightarrow> ht\<lparr>old_table := drop_link ?st b i\<rparr>)\<lparr>ht_count := ht_count ht - 1\<rparr>"
  from find_link_Some [OF core fl] have b: "b < num_buckets ?st" and i: "i < length (buckets ?st ! b)"
    and c: "cmp key (hl_datum ?l) = 0" using k by (simp_all add: keyed_def)
  have si: "st_inv (hash_func ht) ?st" by (rule the_table_inv [OF core])
  note d = drop_link_inv [OF si b i]
  have "hl_datum ?l \<in># ht_mset ht" by (rule the_table_mset [OF link_in_mset [OF si b i]])
  moreover have "cmp x (hl_datum ?l) = 0" using cmp_trans [OF cmp_sym [OF x(2)] c] .
  ultimately have lx: "hl_datum ?l = x"
    using unique_keys_same [of "ht_mset ht" x] inv k x(1) by (simp add: ht_inv_core keyed_def)
  have m: "ht_mset ht = add_mset x (ht_mset ?ht1)"
    using d(2) lx by (cases w) (simp_all add: ht_mset_def)
  have "link_ok ?l" using si b i by (simp add: st_inv_def)
  then have "hash_table_remove ht key = Some ?ht1"
    using fl vis by (cases w) (simp_all add: hash_table_remove_def link_ok_def Let_def)
  moreover have "\<forall>j < next_old_bucket ht. buckets (drop_link ?st b i) ! j = []" if "w = InOld"
    using core that i
    by (cases "b < next_old_bucket ht") (auto simp: ht_core_def drop_link_def nth_list_update)
  then have "ht_core ?ht1" using core d by (cases w) (simp_all add: ht_core_def)
  moreover have "unique_keys cmp (ht_mset ?ht1)"
    using inv k m unique_keys_drop(1) [of x] by (simp add: ht_inv_core keyed_def)
  ultimately show ?thesis
    using inv k vis d m by (cases w) (simp_all add: ht_inv_core keyed_def)
qed

end

lemma remove_every_links_spec:
  assumes "\<forall>l \<in> set ls. link_ok l"
  shows "remove_every_links ff ls (c, t, u) =
           map_option (\<lambda>u'. (c - int (length ls), t - int (length ls), u'))
             (foldM ff u (map hl_datum ls))"
  using assms
proof (induction ls arbitrary: c t u)
  case (Cons l ls)
  then show ?case by (cases "ff u (hl_datum l)") (simp_all add: link_ok_def algebra_simps)
qed simp

lemma remove_every_inner_spec:
  assumes "st_inv h st"
  shows "hash_table_remove_every_inner st t ff u =
           map_option (\<lambda>u'. (subtable_init (num_buckets st), t - st_count st, u'))
             (foldM ff u (st_data st))"
proof -
  have "\<forall>l \<in> set (st_links st). link_ok l"
    using assms by (auto simp: st_inv_def st_links_def in_set_conv_nth [of _ "buckets st"])
  from remove_every_links_spec [OF this, of ff "st_count st" t u] assms show ?thesis
    by (cases "foldM ff u (st_data st)")
       (auto simp: hash_table_remove_every_inner_def st_data_def st_inv_def subtable_init_def)
qed

lemma remove_every_spec:
  assumes "ht_inv ht"
  shows "hash_table_remove_every ht ff u =
           map_option (\<lambda>u'. (ht\<lparr>old_table := subtable_init (num_buckets (old_table ht)),
                               new_table := subtable_init (num_buckets (new_table ht)),
                               ht_count := 0\<rparr>, u'))
             (foldM ff u (st_data (old_table ht) @ st_data (new_table ht)))"
proof -
  from assms have so: "st_inv (hash_func ht) (old_table ht)" and sn: "st_inv (hash_func ht) (new_table ht)"
    and c: "ht_count ht = st_count (old_table ht) + st_count (new_table ht)" by (auto simp: ht_inv_def)
  show ?thesis
  proof (cases "foldM ff u (st_data (old_table ht))")
    case (Some u1)
    then show ?thesis using c
      by (cases "foldM ff u1 (st_data (new_table ht))")
         (simp_all add: hash_table_remove_every_def remove_every_inner_spec [OF so]
           remove_every_inner_spec [OF sn] foldM_append)
  qed (simp add: hash_table_remove_every_def remove_every_inner_spec [OF so] foldM_append)
qed

lemma emptied_inv:
  assumes "ht_inv ht"
  shows "ht_inv (ht\<lparr>old_table := subtable_init (num_buckets (old_table ht)),
                    new_table := subtable_init (num_buckets (new_table ht)), ht_count := 0\<rparr>)"
  using assms by (auto simp: ht_inv_def st_inv_def unique_keys_def ht_mset_def st_links_def)

context hash_keys
begin

lemma subtract_worker_spec:
  assumes inv: "ht_inv t" and k: "keyed t" and vis: "visiting t = 0"
  shows "\<exists>t'. hash_table_subtract_worker t d = Some t' \<and> ht_inv t' \<and> keyed t' \<and> visiting t' = 0 \<and>
           ht_mset t' = filter_mset (\<lambda>x. cmp d x \<noteq> 0) (ht_mset t)"
proof -
  obtain t1 r where lk: "hash_table_lookup t d = (t1, r)" by (cases "hash_table_lookup t d")
  note sp = lookup_spec [OF inv k lk]
  show ?thesis
  proof (cases r)
    case None
    with sp have "filter_mset (\<lambda>x. cmp d x \<noteq> 0) (ht_mset t) = ht_mset t"
      by (simp add: filter_mset_eq_conv)
    with None sp lk inv k vis show ?thesis by (simp add: hash_table_subtract_worker_def)
  next
    case (Some x)
    with sp vis have "ht_inv t1" "keyed t1" "visiting t1 = 0" "x \<in># ht_mset t1" "cmp d x = 0" by auto
    from remove_present [OF this] obtain t' where t': "hash_table_remove t1 d = Some t'" "ht_inv t'"
      "keyed t'" "visiting t' = 0" "ht_mset t1 = add_mset x (ht_mset t')" by blast
    have "unique_keys cmp (add_mset x (ht_mset t'))"
      using inv k sp t'(5) by (simp add: ht_inv_core keyed_def)
    from unique_keys_drop(2) [OF this] have "\<forall>y \<in># ht_mset t'. cmp d y \<noteq> 0"
      using \<open>cmp d x = 0\<close> cmp_sym cmp_trans by blast
    then have "filter_mset (\<lambda>x. cmp d x \<noteq> 0) (add_mset x (ht_mset t')) = ht_mset t'"
      using \<open>cmp d x = 0\<close> by (simp add: filter_mset_eq_conv)
    with Some lk t' sp show ?thesis by (simp add: hash_table_subtract_worker_def)
  qed
qed

lemma subtract_fold:
  assumes "ht_inv t" and "keyed t" and "visiting t = 0"
  shows "\<exists>t'. foldM hash_table_subtract_worker t ds = Some t' \<and> ht_inv t' \<and> keyed t' \<and> visiting t' = 0 \<and>
           ht_mset t' = filter_mset (\<lambda>x. \<forall>d \<in> set ds. cmp d x \<noteq> 0) (ht_mset t)"
  using assms
proof (induction ds arbitrary: t)
  case (Cons d ds)
  from subtract_worker_spec [OF Cons.prems] obtain t1 where
    t1: "hash_table_subtract_worker t d = Some t1" "ht_inv t1" "keyed t1" "visiting t1 = 0"
    "ht_mset t1 = filter_mset (\<lambda>x. cmp d x \<noteq> 0) (ht_mset t)" by (metis (lifting))
  from Cons.IH [OF t1(2,3,4)] t1(1,5) show ?case
    by (auto simp: filter_filter_mset conj_commute)
qed simp

lemma subtract_spec:
  assumes i0: "ht_inv ht0" and k0: "keyed ht0" and v0: "visiting ht0 = 0"
    and i1: "ht_inv ht1" and k1: "keyed ht1"
  shows "\<exists>ht0'. hash_table_subtract ht0 ht1 = Some (ht0', ht1) \<and> ht_inv ht0' \<and>
           ht_mset ht0' = filter_mset (\<lambda>x. \<forall>y \<in># ht_mset ht1. cmp y x \<noteq> 0) (ht_mset ht0)"
proof -
  let ?ds = "st_data (old_table ht1) @ st_data (new_table ht1)"
  from subtract_fold [OF i0 k0 v0, of ?ds] obtain t where
    t: "foldM hash_table_subtract_worker ht0 ?ds = Some t" "ht_inv t"
    "ht_mset t = filter_mset (\<lambda>x. \<forall>d \<in> set ?ds. cmp d x \<noteq> 0) (ht_mset ht0)" by (metis (lifting))
  have "set_mset (ht_mset ht1) = set ?ds" by (simp add: ht_mset_def st_mset_def)
  moreover from t(1) have "hash_table_visit_every ht1 hash_table_subtract_worker ht0 = Some (ht1, t)"
    by (simp add: hash_table_visit_every_def foldM_append Option.bind_eq_Some_conv)
  ultimately show ?thesis using t k0 k1 by (simp add: hash_table_subtract_def keyed_def)
qed

end

subsection \<open>The contract the table's users rely on\<close>

text \<open>
  What a component that keeps its data in a table of unique keys relies on: \<open>ok\<close> is
  the invariant, \<open>contents\<close> the data stored. The users of the table (sets, two-way
  tables, stack tables) are verified against this contract and not against the buckets.
\<close>

locale keyed_set =
  fixes cmp :: "'d \<Rightarrow> 'd \<Rightarrow> int"
    and ok :: "'s \<Rightarrow> bool"
    and contents :: "'s \<Rightarrow> 'd multiset"
    and ins :: "'s \<Rightarrow> 'd \<Rightarrow> 's option"
    and uni :: "'s \<Rightarrow> 'd \<Rightarrow> 's option"
    and look :: "'s \<Rightarrow> 'd \<Rightarrow> 's \<times> 'd option"
    and rem :: "'s \<Rightarrow> 'd \<Rightarrow> 's option"
  assumes same_key: "cmp a a = 0" "cmp a b = 0 \<Longrightarrow> cmp b a = 0"
      "cmp a b = 0 \<Longrightarrow> cmp b c = 0 \<Longrightarrow> cmp a c = 0"
    and unique: "ok s \<Longrightarrow> unique_keys cmp (contents s)"
    and ins_new: "ok s \<Longrightarrow> \<forall>x \<in># contents s. cmp d x \<noteq> 0 \<Longrightarrow>
        \<exists>s'. ins s d = Some s' \<and> uni s d = Some s' \<and> ok s' \<and> contents s' = add_mset d (contents s)"
    and ins_old: "ok s \<Longrightarrow> x \<in># contents s \<Longrightarrow> cmp d x = 0 \<Longrightarrow> ins s d = None"
    and uni_old: "ok s \<Longrightarrow> x \<in># contents s \<Longrightarrow> cmp d x = 0 \<Longrightarrow>
        \<exists>s'. uni s d = Some s' \<and> ok s' \<and> contents s' = contents s"
    and look_law: "ok s \<Longrightarrow> look s d = (s', r) \<Longrightarrow> ok s' \<and> contents s' = contents s \<and>
        (case r of None \<Rightarrow> \<forall>x \<in># contents s. cmp d x \<noteq> 0 | Some x \<Rightarrow> x \<in># contents s \<and> cmp d x = 0)"
    and rem_old: "ok s \<Longrightarrow> x \<in># contents s \<Longrightarrow> cmp d x = 0 \<Longrightarrow>
        \<exists>s'. rem s d = Some s' \<and> ok s' \<and> contents s = add_mset x (contents s')"
    and rem_new: "ok s \<Longrightarrow> \<forall>x \<in># contents s. cmp d x \<noteq> 0 \<Longrightarrow> rem s d = None"
begin

lemma key_cases:
  obtains (absent) "\<forall>x \<in># contents s. cmp d x \<noteq> 0" | (present) x where "x \<in># contents s" "cmp d x = 0"
  by blast

lemma key_filter_absent:
  assumes "\<forall>x \<in># contents s. cmp d x \<noteq> 0"
  shows "filter_mset (\<lambda>x. cmp d x = 0) (contents s) = {#}"
  using assms by (auto simp: filter_mset_eq_mempty_iff)

lemma key_filter_present:
  assumes "ok s" and "x \<in># contents s" and "cmp d x = 0"
  shows "filter_mset (\<lambda>y. cmp d y = 0) (contents s) = {#x#}"
proof -
  have "cmp d y = 0 \<longleftrightarrow> cmp x y = 0" for y using assms(3) same_key(2,3) by blast
  then have "filter_mset (\<lambda>y. cmp d y = 0) (contents s) = filter_mset (\<lambda>y. cmp x y = 0) (contents s)"
    by simp
  then show ?thesis using unique [OF assms(1)] assms(2) by (simp add: unique_keys_def)
qed

lemma look_unique:
  assumes "ok s" and "x \<in># contents s" and "cmp d x = 0" and "look s d = (s', r)"
  shows "r = Some x"
proof -
  from look_law [OF assms(1,4)] assms(2,3) obtain y where y: "r = Some y" "y \<in># contents s" "cmp d y = 0"
    by (cases r) auto
  from key_filter_present [OF assms(1-3)] key_filter_present [OF assms(1) y(2,3)] y(1)
  show ?thesis by simp
qed

lemma look_after_rem:
  assumes "ok s" and "rem s d = Some s1" and "look s1 d = (s2, r)"
  shows "r = None"
proof (cases s d rule: key_cases)
  case absent
  with rem_new assms show ?thesis by fastforce
next
  case (present x)
  from rem_old [OF assms(1) present] assms(2) have s1: "ok s1" "contents s = add_mset x (contents s1)"
    by auto
  from key_filter_present [OF assms(1) present] s1(2) present(2)
  have "filter_mset (\<lambda>y. cmp d y = 0) (contents s1) = {#}" by simp
  with look_law [OF s1(1) assms(3)] show ?thesis
    by (cases r) (auto simp: filter_mset_eq_mempty_iff)
qed

end

context hash_keys
begin

definition ready :: "'d HashTable \<Rightarrow> bool" where
  "ready ht \<longleftrightarrow> ht_inv ht \<and> keyed ht \<and> visiting ht = 0"

end

sublocale hash_keys < table: keyed_set cmp ready ht_mset hash_table_insert hash_table_union
  hash_table_lookup hash_table_remove
proof unfold_locales
  show "cmp a b = 0 \<Longrightarrow> cmp b c = 0 \<Longrightarrow> cmp a c = 0" for a b c by (rule cmp_trans)
  show "ready s \<Longrightarrow> unique_keys cmp (ht_mset s)" for s
    by (auto simp: ready_def ht_inv_core keyed_def)
  show "\<exists>s'. hash_table_insert s d = Some s' \<and> hash_table_union s d = Some s' \<and> ready s' \<and>
      ht_mset s' = add_mset d (ht_mset s)" if "ready s" "\<forall>x \<in># ht_mset s. cmp d x \<noteq> 0" for s d
  proof -
    from that have r: "ht_inv s" "keyed s" "visiting s = 0" by (simp_all add: ready_def)
    have "hash_table_lookup s d = (s, None)"
      using lookup_spec [OF r(1,2), of d] that(2)
      by (cases "hash_table_lookup s d") (auto split: option.splits)
    then have "hash_table_union s d = hash_table_insert s d"
      by (simp add: hash_table_union_def hash_table_insert_def hash_table_insert_inner_def)
    with insert_absent [OF r that(2), of True] show ?thesis
      by (auto simp: hash_table_insert_def ready_def)
  qed
  show "hash_table_insert s d = None" if "ready s" "x \<in># ht_mset s" "cmp d x = 0" for s x d
    using that by (intro insert_present(2)) (auto simp: ready_def)
  show "\<exists>s'. hash_table_union s d = Some s' \<and> ready s' \<and> ht_mset s' = ht_mset s"
    if "ready s" "x \<in># ht_mset s" "cmp d x = 0" for s x d
    using insert_present(1) [of s x d] that by (auto simp: ready_def)
  show "ready s' \<and> ht_mset s' = ht_mset s \<and> (case r of None \<Rightarrow> \<forall>x \<in># ht_mset s. cmp d x \<noteq> 0
      | Some x \<Rightarrow> x \<in># ht_mset s \<and> cmp d x = 0)"
    if "ready s" "hash_table_lookup s d = (s', r)" for s d s' r
    using lookup_spec [of s d s' r] that by (auto simp: ready_def split: option.splits)
  show "\<exists>s'. hash_table_remove s d = Some s' \<and> ready s' \<and> ht_mset s = add_mset x (ht_mset s')"
    if "ready s" "x \<in># ht_mset s" "cmp d x = 0" for s x d
    using remove_present [of s x d] that by (auto simp: ready_def)
  show "hash_table_remove s d = None" if "ready s" "\<forall>x \<in># ht_mset s. cmp d x \<noteq> 0" for s d
    using remove_absent [of s d] that by (simp add: ready_def)
qed (rule cmp_refl, rule cmp_sym)

subsection \<open>Sequences of operations against a multiset\<close>

text \<open>
  A client's session is a list of calls. The specification is a multiset with unique keys:
  it knows nothing of buckets, of the two subtables, or of the entries that every call moves.
  The outcome of a lookup is the multiset of the data found, empty or a singleton.
\<close>

datatype 'd ht_op = Op_insert 'd | Op_union 'd | Op_lookup 'd | Op_remove 'd

fun ht_step :: "'d HashTable \<times> 'd multiset list \<Rightarrow> 'd ht_op \<Rightarrow> ('d HashTable \<times> 'd multiset list) option"
where
  "ht_step (ht, out) (Op_insert d) = map_option (\<lambda>h. (h, out)) (hash_table_insert ht d)"
| "ht_step (ht, out) (Op_union d) = map_option (\<lambda>h. (h, out)) (hash_table_union ht d)"
| "ht_step (ht, out) (Op_remove d) = map_option (\<lambda>h. (h, out)) (hash_table_remove ht d)"
| "ht_step (ht, out) (Op_lookup d) =
     (case hash_table_lookup ht d of
        (h, None) \<Rightarrow> Some (h, out @ [{#}]) | (h, Some x) \<Rightarrow> Some (h, out @ [{#x#}]))"

fun spec_step :: "('d \<Rightarrow> 'd \<Rightarrow> int) \<Rightarrow> 'd multiset \<times> 'd multiset list \<Rightarrow> 'd ht_op \<Rightarrow>
    ('d multiset \<times> 'd multiset list) option" where
  "spec_step cmp (M, out) (Op_insert d) =
     (if filter_mset (\<lambda>x. cmp d x = 0) M = {#} then Some (add_mset d M, out) else None)"
| "spec_step cmp (M, out) (Op_union d) =
     (if filter_mset (\<lambda>x. cmp d x = 0) M = {#} then Some (add_mset d M, out) else Some (M, out))"
| "spec_step cmp (M, out) (Op_remove d) =
     (if filter_mset (\<lambda>x. cmp d x = 0) M = {#} then None
      else Some (M - filter_mset (\<lambda>x. cmp d x = 0) M, out))"
| "spec_step cmp (M, out) (Op_lookup d) = Some (M, out @ [filter_mset (\<lambda>x. cmp d x = 0) M])"

context hash_keys
begin

lemma step_refines:
  assumes r: "ready ht"
  shows "map_option (\<lambda>(h, out). (ht_mset h, out)) (ht_step (ht, out) op) =
           spec_step cmp (ht_mset ht, out) op"
    and "ht_step (ht, out) op = Some (ht', out') \<Longrightarrow> ready ht'"
proof -
  obtain d where op: "op = Op_insert d \<or> op = Op_union d \<or> op = Op_lookup d \<or> op = Op_remove d"
    by (cases op) auto
  obtain l x where lk: "hash_table_lookup ht d = (l, x)" by (cases "hash_table_lookup ht d")
  note ll = table.look_law [OF r lk]
  have "map_option (\<lambda>(h, out). (ht_mset h, out)) (ht_step (ht, out) op) =
      spec_step cmp (ht_mset ht, out) op \<and> (ht_step (ht, out) op = Some (ht', out') \<longrightarrow> ready ht')"
  proof (cases ht d rule: table.key_cases)
    case absent
    with ll have "x = None" by (cases x) auto
    with absent op lk ll table.key_filter_absent [OF absent] table.ins_new [OF r absent]
      table.rem_new [OF r absent] show ?thesis by auto
  next
    case (present y)
    from table.look_unique [OF r present lk] have "x = Some y" .
    moreover obtain h where h: "hash_table_remove ht d = Some h" "ready h"
      "ht_mset ht = add_mset y (ht_mset h)" using table.rem_old [OF r present] by blast
    moreover have "filter_mset (\<lambda>y. cmp d y = 0) (ht_mset h) = {#}"
      using table.key_filter_present [OF r present] h(3) present(2) by simp
    ultimately show ?thesis
      using present op lk ll table.ins_old [OF r present] table.uni_old [OF r present]
      by (auto simp del: filter_mset_eq_mempty_iff)
  qed
  then show "map_option (\<lambda>(h, out). (ht_mset h, out)) (ht_step (ht, out) op) =
           spec_step cmp (ht_mset ht, out) op"
    and "ht_step (ht, out) op = Some (ht', out') \<Longrightarrow> ready ht'" by auto
qed

lemma run_refines:
  assumes "ready ht"
  shows "map_option (\<lambda>(h, out). (ht_mset h, out)) (foldM ht_step (ht, out) ops) =
           foldM (spec_step cmp) (ht_mset ht, out) ops"
  using assms
proof (induction ops arbitrary: ht out)
  case (Cons op ops)
  show ?case
  proof (cases "ht_step (ht, out) op")
    case None
    with step_refines(1) [OF Cons.prems, of out op] show ?thesis by simp
  next
    case (Some s)
    obtain h o' where s: "s = (h, o')" by (cases s)
    from step_refines(1) [OF Cons.prems, of out op] Some s
    have "spec_step cmp (ht_mset ht, out) op = Some (ht_mset h, o')" by simp
    with Some s Cons.IH [OF step_refines(2) [OF Cons.prems Some [unfolded s]], of o'] show ?thesis
      by simp
  qed
qed simp

lemma ready_init: "ready (hash_table_init hash cmp)"
  using init_inv [of hash cmp] by (simp add: ready_def keyed_def) (simp add: hash_table_init_def)

end

lemma free_empty:
  assumes "ht_inv ht" and "ht_count ht = 0"
  shows "hash_table_free ht = Some ()"
proof -
  from assms have inv: "st_inv (hash_func ht) (old_table ht)" "st_inv (hash_func ht) (new_table ht)"
    and sum: "st_count (old_table ht) + st_count (new_table ht) = 0" by (auto simp: ht_inv_def)
  from inv have "0 \<le> st_count (old_table ht)" "0 \<le> st_count (new_table ht)" by (simp_all add: st_inv_def)
  with sum have "st_count (old_table ht) = 0" "st_count (new_table ht) = 0" by linarith+
  with assms inv show ?thesis by (simp add: hash_table_free_def subtable_free_empty)
qed

lemma ht_inv_size: "ht_inv ht \<Longrightarrow> ht_count ht = int (size (ht_mset ht))"
  using st_inv_count [of "hash_func ht"] by (auto simp: ht_inv_def ht_mset_def)

lemma init_sel:
  "hash_func (hash_table_init hash cmp) = hash" "cmp_func (hash_table_init hash cmp) = cmp"
  "visiting (hash_table_init hash cmp) = 0" "ht_count (hash_table_init hash cmp) = 0"
  by (simp_all add: hash_table_init_def)

lemma foldM_const [simp]: "foldM (\<lambda>u d. Some ()) () xs = Some ()"
  by (induction xs) simp_all

text \<open>Identity of unsigned integers, the key functions of the tables keyed by a handle.\<close>

lemma hash_keys_word32: "hash_keys (\<lambda>x :: u32. x) (\<lambda>a b. sint (a - b))"
  by unfold_locales auto

subsection \<open>Properties\<close>

text \<open>C2. Whatever calls a client makes, the table answers as a multiset with unique keys
  would. A session that the specification allows never aborts, so in particular the assertion
  of a resize that the old subtable has been drained always holds, and a session that the
  specification forbids (an insert of a present key, a removal of an absent one) always aborts.\<close>

theorem hash_table_session_refines:
  assumes "hash_keys hash cmp"
  shows "map_option (\<lambda>(h, out). (ht_mset h, out)) (foldM ht_step (hash_table_init hash cmp, []) ops) =
           foldM (spec_step cmp) ({#}, []) ops"
  using hash_keys.run_refines [OF assms hash_keys.ready_init [OF assms], of "[]" ops] init_inv(2) [of hash cmp]
  by simp

theorem hash_table_session_refines_witness:
  "map_option (\<lambda>(h, out). (ht_mset h, out))
     (foldM ht_step (hash_table_init (\<lambda>x :: u32. x) (\<lambda>a b. sint (a - b)), [])
        [Op_insert 5, Op_insert 7, Op_lookup 7, Op_remove 5, Op_lookup 5]) =
   Some ({#7#}, [{#7#}, {#}])"
  by (subst hash_table_session_refines [OF hash_keys_word32]) simp

text \<open>Inserting a datum whose key is absent always returns: it adds exactly that datum, keeps
  the invariant (buckets hold the data that hash to them, the counts are the numbers of links,
  keys are unique, the drained prefix of the old subtable is empty) and the progress measure of
  the incremental resize, so that the next resize will again find the old subtable empty.\<close>

theorem hash_table_insert_invariant:
  assumes "hash_keys (hash_func ht) (cmp_func ht)" and "ht_inv ht" and "visiting ht = 0"
    and "\<forall>x \<in># ht_mset ht. cmp_func ht d x \<noteq> 0"
  shows "\<exists>ht'. hash_table_insert ht d = Some ht' \<and> ht_inv ht' \<and> ht_count ht' = ht_count ht + 1 \<and>
           ht_mset ht' = add_mset d (ht_mset ht) \<and>
           hash_func ht' = hash_func ht \<and> cmp_func ht' = cmp_func ht \<and> visiting ht' = 0"
proof -
  have "hash_keys.keyed (hash_func ht) (cmp_func ht) ht" by (simp add: hash_keys.keyed_def [OF assms(1)])
  from hash_keys.insert_absent [OF assms(1,2) this assms(3,4), of True] obtain ht' where
    "hash_table_insert ht d = Some ht'" "ht_inv ht'" "visiting ht' = 0"
    "ht_mset ht' = add_mset d (ht_mset ht)" "hash_func ht' = hash_func ht" "cmp_func ht' = cmp_func ht"
    by (auto simp: hash_table_insert_def hash_keys.keyed_def [OF assms(1)])
  with ht_inv_size [OF assms(2)] ht_inv_size [of ht'] show ?thesis by auto
qed

theorem hash_table_insert_invariant_witness:
  "\<exists>ht'. hash_table_insert (hash_table_init (\<lambda>x :: u32. x) (\<lambda>a b. sint (a - b))) 9 = Some ht' \<and>
     ht_inv ht' \<and> ht_count ht' = 1 \<and> ht_mset ht' = {#9#}"
  using hash_table_insert_invariant [of "hash_table_init (\<lambda>x :: u32. x) (\<lambda>a b. sint (a - b))" 9]
    hash_keys_word32 init_inv [of "\<lambda>x :: u32. x" "\<lambda>a b. sint (a - b)"]
  by (auto simp: init_sel)

text \<open>Subtracting a table from another removes exactly the data whose key the other table
  holds, leaves the other table as it was, and never aborts although it looks up and removes in
  the middle of a visit.\<close>

theorem hash_table_subtract_correct:
  assumes "hash_keys (hash_func ht0) (cmp_func ht0)"
    and "hash_func ht1 = hash_func ht0" and "cmp_func ht1 = cmp_func ht0"
    and "ht_inv ht0" and "visiting ht0 = 0" and "ht_inv ht1"
  shows "\<exists>ht0'. hash_table_subtract ht0 ht1 = Some (ht0', ht1) \<and> ht_inv ht0' \<and>
           ht_mset ht0' = filter_mset (\<lambda>x. \<forall>y \<in># ht_mset ht1. cmp_func ht0 y x \<noteq> 0) (ht_mset ht0)"
  using assms
  by (intro hash_keys.subtract_spec [OF assms(1)]) (simp_all add: hash_keys.keyed_def [OF assms(1)])

theorem hash_table_subtract_correct_witness:
  "\<exists>t. hash_table_subtract (hash_table_init (\<lambda>x :: u32. x) (\<lambda>a b. sint (a - b)))
       (hash_table_init (\<lambda>x :: u32. x) (\<lambda>a b. sint (a - b))) =
     Some (t, hash_table_init (\<lambda>x :: u32. x) (\<lambda>a b. sint (a - b))) \<and> ht_inv t \<and> ht_mset t = {#}"
  using hash_table_subtract_correct [of "hash_table_init (\<lambda>x :: u32. x) (\<lambda>a b. sint (a - b))"
      "hash_table_init (\<lambda>x :: u32. x) (\<lambda>a b. sint (a - b))"]
    hash_keys_word32 init_inv [of "\<lambda>x :: u32. x" "\<lambda>a b. sint (a - b)"]
  by (auto simp: init_sel)

text \<open>Discarding a table that satisfies the invariant visits every datum once, empties both
  subtables and satisfies every assertion on the way, down to the zero counts that
  \<open>subtable_free\<close> and \<open>hash_table_free\<close> check.\<close>

theorem hash_table_free_discard_returns:
  assumes "ht_inv ht"
  shows "hash_table_free_discard ht = Some () \<and>
           map_option snd (hash_table_remove_every ht (\<lambda>M d. Some (add_mset d M)) {#}) = Some (ht_mset ht)"
proof -
  have "foldM (\<lambda>M d. Some (add_mset d M)) M xs = Some (M + mset xs)" for M and xs :: "'a list"
    by (induction xs arbitrary: M) simp_all
  then show ?thesis
    using free_empty [OF emptied_inv [OF assms]]
    by (simp add: hash_table_free_discard_def remove_every_spec [OF assms] ht_mset_def st_mset_def)
qed

theorem hash_table_free_discard_returns_witness:
  "hash_table_free_discard (hash_table_init (\<lambda>x :: u32. x) (\<lambda>a b. sint (a - b))) = Some ()"
  using hash_table_free_discard_returns [OF init_inv(1)] by blast

end

