(* ===== verification/LiteLib.thy ===== *)
theory LiteLib
  imports Prelude "HOL-Library.Sublist"
begin

text \<open>
  The string and memory routines of \<open>src/common/utils/LiteLib.c\<close>. A pointer is a buffer
  with an offset; every byte read or written is checked against the buffer, so a routine that
  would leave it returns \<open>None\<close>. \<open>char\<close> is signed: comparisons subtract the signed
  values of the bytes. The lemmas give each routine's meaning on NUL-terminated strings
  (\<open>cstr\<close>) and say exactly when it leaves its buffer.
\<close>

subsection \<open>Copying\<close>

function lite_strcpy :: "bytes \<Rightarrow> nat \<Rightarrow> bytes \<Rightarrow> nat \<Rightarrow> bytes option" where
  "lite_strcpy dst dp src sp =
     (if sp < length src
      then if src ! sp \<noteq> 0
           then do { dst' \<leftarrow> wr dst dp (src ! sp); lite_strcpy dst' (dp + 1) src (sp + 1) }
           else wr dst dp 0
      else None)"
  by pat_completeness auto
termination
  by (relation "measure (\<lambda>(dst, dp, src, sp). length src - sp)") auto

text \<open>\<open>n\<close> is an \<open>int\<close>: a negative bound copies nothing.\<close>

function lite_strncpy :: "bytes \<Rightarrow> nat \<Rightarrow> bytes \<Rightarrow> nat \<Rightarrow> int \<Rightarrow> bytes option" where
  "lite_strncpy dst dp src sp n =
     (if sp < length src
      then if src ! sp \<noteq> 0 \<and> 0 < n
           then do { dst' \<leftarrow> wr dst dp (src ! sp); lite_strncpy dst' (dp + 1) src (sp + 1) (n - 1) }
           else wr dst dp 0
      else None)"
  by pat_completeness auto
termination
  by (relation "measure (\<lambda>(dst, dp, src, sp, n). length src - sp)") auto

function lite_strlen :: "bytes \<Rightarrow> nat \<Rightarrow> nat option" where
  "lite_strlen s p =
     (if p < length s
      then if s ! p \<noteq> 0 then map_option Suc (lite_strlen s (p + 1)) else Some 0
      else None)"
  by pat_completeness auto
termination
  by (relation "measure (\<lambda>(s, p). length s - p)") auto

function lite_strnlen :: "bytes \<Rightarrow> nat \<Rightarrow> nat \<Rightarrow> nat option" where
  "lite_strnlen s p mx =
     (if p < length s
      then if s ! p \<noteq> 0 \<and> 0 < mx then map_option Suc (lite_strnlen s (p + 1) (mx - 1)) else Some 0
      else None)"
  by pat_completeness auto
termination
  by (relation "measure (\<lambda>(s, p, mx). length s - p)") auto

definition lite_strcat :: "bytes \<Rightarrow> nat \<Rightarrow> bytes \<Rightarrow> nat \<Rightarrow> bytes option" where
  "lite_strcat dst dp src sp = do {
     l \<leftarrow> lite_strlen dst dp;
     lite_strcpy dst (dp + l) src sp
   }"

definition lite_strncat :: "bytes \<Rightarrow> nat \<Rightarrow> bytes \<Rightarrow> nat \<Rightarrow> int \<Rightarrow> bytes option" where
  "lite_strncat dst dp src sp mx = do {
     dstlen \<leftarrow> lite_strlen dst dp;
     lite_strncpy dst (dp + dstlen) src sp (mx - int dstlen)
   }"

fun lite_memcpy :: "bytes \<Rightarrow> nat \<Rightarrow> bytes \<Rightarrow> nat \<Rightarrow> nat \<Rightarrow> bytes option" where
  "lite_memcpy dst dp src sp 0 = Some dst"
| "lite_memcpy dst dp src sp (Suc n) = do {
     c \<leftarrow> rd src sp;
     dst' \<leftarrow> wr dst dp c;
     lite_memcpy dst' (dp + 1) src (sp + 1) n
   }"

fun lite_memset :: "bytes \<Rightarrow> nat \<Rightarrow> u8 \<Rightarrow> nat \<Rightarrow> bytes option" where
  "lite_memset b p v 0 = Some b"
| "lite_memset b p v (Suc n) = do { b' \<leftarrow> wr b p v; lite_memset b' (p + 1) v n }"

definition lite_bzero :: "bytes \<Rightarrow> nat \<Rightarrow> nat \<Rightarrow> bytes option" where
  "lite_bzero b p n = lite_memset b p 0 n"

subsection \<open>Searching and comparing\<close>

text \<open>The pointer found, as an offset.\<close>

function lite_strchrnul :: "bytes \<Rightarrow> nat \<Rightarrow> u8 \<Rightarrow> nat option" where
  "lite_strchrnul s p c =
     (if p < length s
      then if s ! p \<noteq> c \<and> s ! p \<noteq> 0 then lite_strchrnul s (p + 1) c else Some p
      else None)"
  by pat_completeness auto
termination
  by (relation "measure (\<lambda>(s, p, c). length s - p)") auto

function lite_strcmp :: "bytes \<Rightarrow> nat \<Rightarrow> bytes \<Rightarrow> nat \<Rightarrow> int option" where
  "lite_strcmp s1 p1 s2 p2 =
     (if p1 < length s1 \<and> p2 < length s2
      then let d = sint (s1 ! p1) - sint (s2 ! p2)
           in if s1 ! p1 \<noteq> 0 \<and> s2 ! p2 \<noteq> 0
              then if d \<noteq> 0 then Some d else lite_strcmp s1 (p1 + 1) s2 (p2 + 1)
              else Some d
      else None)"
  by pat_completeness auto
termination
  by (relation "measure (\<lambda>(s1, p1, s2, p2). length s1 - p1)") auto

text \<open>The inner option is the pointer returned, \<open>None\<close> for NULL.\<close>

function lite_index :: "bytes \<Rightarrow> nat \<Rightarrow> u8 \<Rightarrow> nat option option" where
  "lite_index s p c =
     (if p < length s
      then if s ! p = 0 then Some None
           else if s ! p = c then Some (Some p) else lite_index s (p + 1) c
      else None)"
  by pat_completeness auto
termination
  by (relation "measure (\<lambda>(s, p, c). length s - p)") auto

text \<open>\<open>k\<close> counts the characters from \<open>p\<close> up to the one the loop is at.\<close>

fun rindex_scan :: "bytes \<Rightarrow> nat \<Rightarrow> u8 \<Rightarrow> nat \<Rightarrow> nat option option" where
  "rindex_scan s p c 0 = Some None"
| "rindex_scan s p c (Suc k) = do {
     v \<leftarrow> rd s (p + k);
     if v = c then Some (Some (p + k)) else rindex_scan s p c k
   }"

definition lite_rindex :: "bytes \<Rightarrow> nat \<Rightarrow> u8 \<Rightarrow> nat option option" where
  "lite_rindex s p c = do { l \<leftarrow> lite_strlen s p; rindex_scan s p c l }"

text \<open>The difference is stored in a \<open>char\<close> before it is returned.\<close>

fun lite_memcmp :: "bytes \<Rightarrow> nat \<Rightarrow> bytes \<Rightarrow> nat \<Rightarrow> nat \<Rightarrow> int option" where
  "lite_memcmp s1 p1 s2 p2 0 = Some 0"
| "lite_memcmp s1 p1 s2 p2 (Suc n) = do {
     a \<leftarrow> rd s1 p1;
     b \<leftarrow> rd s2 p2;
     let v = a - b;
     if v \<noteq> 0 then Some (sint v) else lite_memcmp s1 (p1 + 1) s2 (p2 + 1) n
   }"

definition lite_starts_with :: "bytes \<Rightarrow> nat \<Rightarrow> bytes \<Rightarrow> nat \<Rightarrow> bool option" where
  "lite_starts_with pre pp str sp = do {
     prefixlen \<leftarrow> lite_strlen pre pp;
     l \<leftarrow> lite_strlen str sp;
     if l < prefixlen then Some False
     else do { r \<leftarrow> lite_memcmp str sp pre pp prefixlen; Some (r = 0) }
   }"

definition lite_ends_with :: "bytes \<Rightarrow> nat \<Rightarrow> bytes \<Rightarrow> nat \<Rightarrow> bool option" where
  "lite_ends_with suf pp str sp = do {
     suffixlen \<leftarrow> lite_strlen suf pp;
     str_len \<leftarrow> lite_strlen str sp;
     if str_len < suffixlen then Some False
     else do { r \<leftarrow> lite_memcmp str (sp + str_len - suffixlen) suf pp suffixlen; Some (r = 0) }
   }"

fun lite_memchr :: "bytes \<Rightarrow> nat \<Rightarrow> u8 \<Rightarrow> nat \<Rightarrow> nat option option" where
  "lite_memchr s p v 0 = Some None"
| "lite_memchr s p v (Suc n) = do {
     c \<leftarrow> rd s p;
     if c = v then Some (Some p) else lite_memchr s (p + 1) v n
   }"

fun lite_memequal :: "bytes \<Rightarrow> nat \<Rightarrow> u8 \<Rightarrow> nat \<Rightarrow> bool option" where
  "lite_memequal s p v 0 = Some True"
| "lite_memequal s p v (Suc n) = do {
     c \<leftarrow> rd s p;
     if c \<noteq> v then Some False else lite_memequal s (p + 1) v n
   }"

function lite_atoi_from :: "bytes \<Rightarrow> nat \<Rightarrow> u32 \<Rightarrow> u32 option" where
  "lite_atoi_from s p v =
     (if p < length s
      then if 48 \<le> s ! p \<and> s ! p \<le> 57 then lite_atoi_from s (p + 1) (v * 10 + ucast (s ! p - 48))
           else Some v
      else None)"
  by pat_completeness auto
termination
  by (relation "measure (\<lambda>(s, p, v). length s - p)") auto

definition lite_atoi :: "bytes \<Rightarrow> nat \<Rightarrow> u32 option" where
  "lite_atoi s p = lite_atoi_from s p 0"

lemmas lite_loops =
  lite_strcpy.simps lite_strncpy.simps lite_strlen.simps lite_strnlen.simps lite_strchrnul.simps
  lite_strcmp.simps lite_index.simps lite_atoi_from.simps

declare lite_loops [simp del]

subsection \<open>Meaning on strings\<close>

lemma strlen_cstr: "cstr s p cs \<Longrightarrow> lite_strlen s p = Some (length cs)"
  by (induction cs arbitrary: p) (auto simp: cstr_Cons lite_strlen.simps [of s])

lemma strlen_unterminated: "0 \<notin> set (drop p s) \<Longrightarrow> lite_strlen s p = None"
proof (induction "length s - p" arbitrary: p)
  case (Suc n)
  then have p: "p < length s" by simp
  then have "drop p s = s ! p # drop (Suc p) s" by (simp add: Cons_nth_drop_Suc)
  with Suc p show ?case by (auto simp: lite_strlen.simps [of s])
qed (simp add: lite_strlen.simps)

lemma strnlen_cstr: "cstr s p cs \<Longrightarrow> lite_strnlen s p mx = Some (min (length cs) mx)"
  by (induction cs arbitrary: p mx) (auto simp: cstr_Cons lite_strnlen.simps [of s] min_def)

lemma strcpy_cstr:
  assumes "cstr src sp cs"
  shows "lite_strcpy dst dp src sp =
           (if dp + length cs < length dst then Some (overwrite dst dp (cs @ [0])) else None)"
  using assms
proof (induction cs arbitrary: dst dp sp)
  case Nil
  then show ?case by (auto simp: lite_strcpy.simps [of dst] wr_def overwrite_single)
next
  case (Cons c cs)
  then have c: "sp < length src" "src ! sp = c" "c \<noteq> 0" "cstr src (Suc sp) cs" by (auto simp: cstr_Cons)
  from Cons.IH [OF c(4)] c(1-3) show ?case
    by (auto simp: lite_strcpy.simps [of dst] wr_def overwrite_Cons)
qed

lemma strncpy_cstr:
  assumes "cstr src sp cs"
  shows "lite_strncpy dst dp src sp n =
           (let cs' = take (nat n) cs
            in if dp + length cs' < length dst then Some (overwrite dst dp (cs' @ [0])) else None)"
  using assms
proof (induction cs arbitrary: dst dp sp n)
  case Nil
  then show ?case by (auto simp: lite_strncpy.simps [of dst] wr_def overwrite_single)
next
  case (Cons c cs)
  then have c: "sp < length src" "src ! sp = c" "c \<noteq> 0" "cstr src (Suc sp) cs" by (auto simp: cstr_Cons)
  show ?case
  proof (cases "0 < n")
    case True
    then have "nat n = Suc (nat (n - 1))" by simp
    with Cons.IH [OF c(4)] c(1-3) True show ?thesis
      by (auto simp: lite_strncpy.simps [of dst] wr_def overwrite_Cons Let_def)
  next
    case False
    with c(1-3) show ?thesis by (auto simp: lite_strncpy.simps [of dst] wr_def overwrite_single)
  qed
qed

lemma memcpy_spec:
  "sp + n \<le> length src \<Longrightarrow>
     lite_memcpy dst dp src sp n =
       (if n = 0 \<or> dp + n \<le> length dst then Some (overwrite dst dp (take n (drop sp src))) else None)"
proof (induction n arbitrary: dst dp sp)
  case (Suc n)
  then have "drop sp src = src ! sp # drop (Suc sp) src" by (simp add: Cons_nth_drop_Suc)
  with Suc show ?case by (auto simp: rd_def wr_def overwrite_Cons overwrite_single)
qed simp

lemma memset_spec:
  "lite_memset b p v n = (if n = 0 \<or> p + n \<le> length b then Some (overwrite b p (replicate n v)) else None)"
  by (induction n arbitrary: b p) (auto simp: wr_def overwrite_Cons overwrite_single)

lemma memcmp_eq_0:
  "p1 + n \<le> length s1 \<Longrightarrow> p2 + n \<le> length s2 \<Longrightarrow>
     \<exists>r. lite_memcmp s1 p1 s2 p2 n = Some r \<and> (r = 0 \<longleftrightarrow> take n (drop p1 s1) = take n (drop p2 s2))"
proof (induction n arbitrary: p1 p2)
  case (Suc n)
  then have "drop p1 s1 = s1 ! p1 # drop (Suc p1) s1" "drop p2 s2 = s2 ! p2 # drop (Suc p2) s2"
    by (simp_all add: Cons_nth_drop_Suc)
  with Suc show ?case by (auto simp: rd_def Let_def)
qed simp

lemma cstr_drop: "cstr s p cs \<Longrightarrow> k \<le> length cs \<Longrightarrow> cstr s (p + k) (drop k cs)"
proof (induction k arbitrary: p cs)
  case (Suc k)
  then obtain c ds where "cs = c # ds" by (cases cs) auto
  with Suc.IH [of "Suc p" ds] Suc.prems show ?case by (simp add: cstr_Cons)
qed simp

lemma cstr_take: "cstr s p cs \<Longrightarrow> take (length cs) (drop p s) = cs"
  by (simp add: cstr_def)

lemma cstr_bound: "cstr s p cs \<Longrightarrow> p + length cs < length s"
  by (simp add: cstr_def)

lemma strcmp_cstr:
  assumes "cstr s1 p1 cs" and "cstr s2 p2 ds"
  shows "\<exists>r. lite_strcmp s1 p1 s2 p2 = Some r \<and> (r = 0 \<longleftrightarrow> cs = ds)"
  using assms
proof (induction cs arbitrary: p1 p2 ds)
  case Nil
  then show ?case
    by (cases ds) (auto simp: cstr_Cons lite_strcmp.simps [of s1] Let_def)
next
  case (Cons c cs)
  then show ?case
  proof (cases ds)
    case Nil
    with Cons.prems show ?thesis by (auto simp: cstr_Cons lite_strcmp.simps [of s1] Let_def)
  next
    case (Cons d ds')
    note e = Cons
    from Cons.prems e have f: "p1 < length s1" "s1 ! p1 = c" "c \<noteq> 0" "cstr s1 (Suc p1) cs"
      "p2 < length s2" "s2 ! p2 = d" "d \<noteq> 0" "cstr s2 (Suc p2) ds'" by (auto simp: cstr_Cons)
    from Cons.IH [OF f(4,8)] f e show ?thesis
      by (subst lite_strcmp.simps) (auto simp: Let_def intro: signed_word_eqI)
  qed
qed

lemma strcat_cstr:
  assumes "cstr dst dp ds" and "cstr src sp cs"
  shows "lite_strcat dst dp src sp =
           (if dp + length ds + length cs < length dst
            then Some (overwrite dst (dp + length ds) (cs @ [0])) else None)"
  using strlen_cstr [OF assms(1)] strcpy_cstr [OF assms(2), of dst "dp + length ds"]
  by (simp add: lite_strcat_def)

lemma cstr_append_overwrite:
  assumes "cstr dst dp ds" and "dp + length ds + length cs < length dst" and "0 \<notin> set cs"
  shows "cstr (overwrite dst (dp + length ds) (cs @ [0])) dp (ds @ cs)"
  using assms(1,2)
proof (induction ds arbitrary: dp)
  case Nil
  then show ?case using cstr_overwrite [of dp cs dst] assms(3) by simp
next
  case (Cons d ds)
  from Cons.IH [of "Suc dp"] Cons.prems show ?case by (simp add: cstr_Cons nth_overwrite)
qed

lemma prefix_take_iff: "prefix xs ys \<longleftrightarrow> length xs \<le> length ys \<and> take (length xs) ys = xs"
  by (metis append_eq_conv_conj prefixE prefix_length_le take_is_prefix)

lemma suffix_drop_iff: "suffix xs ys \<longleftrightarrow> length xs \<le> length ys \<and> drop (length ys - length xs) ys = xs"
  by (metis append_take_drop_id diff_diff_cancel length_drop suffixE suffixI suffix_drop suffix_length_le
      append_eq_append_conv)

lemma starts_with_cstr:
  assumes "cstr pre pp ps" and "cstr str sp cs"
  shows "lite_starts_with pre pp str sp = Some (prefix ps cs)"
proof (cases "length cs < length ps")
  case False
  from memcmp_eq_0 [of sp "length ps" str pp pre] cstr_bound [OF assms(1)] cstr_bound [OF assms(2)] False
  obtain r where r: "lite_memcmp str sp pre pp (length ps) = Some r"
    "r = 0 \<longleftrightarrow> take (length ps) (drop sp str) = take (length ps) (drop pp pre)" by auto
  have "take (length ps) (drop sp str) = take (length ps) (take (length cs) (drop sp str))"
    using False by (simp add: min_def)
  then have "r = 0 \<longleftrightarrow> prefix ps cs"
    using r(2) cstr_take [OF assms(1)] cstr_take [OF assms(2)] False by (simp add: prefix_take_iff)
  with r(1) False show ?thesis
    by (simp add: lite_starts_with_def strlen_cstr [OF assms(1)] strlen_cstr [OF assms(2)])
qed (auto simp: lite_starts_with_def strlen_cstr [OF assms(1)] strlen_cstr [OF assms(2)] prefix_take_iff)

lemma ends_with_cstr:
  assumes "cstr suf pp ps" and "cstr str sp cs"
  shows "lite_ends_with suf pp str sp = Some (suffix ps cs)"
proof (cases "length cs < length ps")
  case False
  let ?k = "length cs - length ps"
  from cstr_drop [OF assms(2), of ?k] have d: "cstr str (sp + ?k) (drop ?k cs)" by simp
  from False have e: "sp + length cs - length ps = sp + ?k" by simp
  from memcmp_eq_0 [of "sp + ?k" "length ps" str pp suf] cstr_bound [OF assms(1)] cstr_bound [OF d] False
  obtain r where r: "lite_memcmp str (sp + ?k) suf pp (length ps) = Some r"
    "r = 0 \<longleftrightarrow> take (length ps) (drop (sp + ?k) str) = take (length ps) (drop pp suf)" by auto
  then have "r = 0 \<longleftrightarrow> suffix ps cs"
    using cstr_take [OF assms(1)] cstr_take [OF d] False by (simp add: suffix_drop_iff)
  with r(1) have "(do { r \<leftarrow> lite_memcmp str (sp + length cs - length ps) suf pp (length ps); Some (r = 0) }) =
      Some (suffix ps cs)" unfolding e by simp
  with False show ?thesis
    by (simp add: lite_ends_with_def strlen_cstr [OF assms(1)] strlen_cstr [OF assms(2)])
qed (auto simp: lite_ends_with_def strlen_cstr [OF assms(1)] strlen_cstr [OF assms(2)] suffix_drop_iff)

lemma strchrnul_cstr:
  "cstr s p cs \<Longrightarrow> lite_strchrnul s p c = Some (p + length (takeWhile (\<lambda>x. x \<noteq> c) cs))"
  by (induction cs arbitrary: p) (auto simp: cstr_Cons lite_strchrnul.simps [of s])

lemma index_cstr:
  "cstr s p cs \<Longrightarrow> lite_index s p c =
     Some (if c \<in> set cs then Some (p + length (takeWhile (\<lambda>x. x \<noteq> c) cs)) else None)"
  by (induction cs arbitrary: p) (auto simp: cstr_Cons lite_index.simps [of s])

lemma rindex_scan_spec:
  "p + k \<le> length s \<Longrightarrow> \<exists>r. rindex_scan s p c k = Some r \<and>
     (case r of None \<Rightarrow> \<forall>j < k. s ! (p + j) \<noteq> c
              | Some i \<Rightarrow> p \<le> i \<and> i < p + k \<and> s ! i = c \<and> (\<forall>j. i < j \<and> j < p + k \<longrightarrow> s ! j \<noteq> c))"
proof (induction k)
  case (Suc k)
  then obtain r where r: "rindex_scan s p c k = Some r"
     "case r of None \<Rightarrow> \<forall>j < k. s ! (p + j) \<noteq> c
              | Some i \<Rightarrow> p \<le> i \<and> i < p + k \<and> s ! i = c \<and> (\<forall>j. i < j \<and> j < p + k \<longrightarrow> s ! j \<noteq> c)" by auto
  show ?case
  proof (cases "s ! (p + k) = c")
    case True
    with Suc.prems show ?thesis by (auto simp: rd_def)
  next
    case False
    with Suc.prems r show ?thesis
      by (cases r) (auto simp: rd_def less_Suc_eq intro: le_neq_implies_less)
  qed
qed simp

lemma memchr_spec:
  "p + n \<le> length s \<Longrightarrow> lite_memchr s p v n =
     Some (if v \<in> set (take n (drop p s)) then Some (p + length (takeWhile (\<lambda>x. x \<noteq> v) (drop p s))) else None)"
proof (induction n arbitrary: p)
  case (Suc n)
  then have "drop p s = s ! p # drop (Suc p) s" by (simp add: Cons_nth_drop_Suc)
  with Suc show ?case by (auto simp: rd_def)
qed simp

lemma memequal_spec:
  "p + n \<le> length s \<Longrightarrow> lite_memequal s p v n = Some (\<forall>x \<in> set (take n (drop p s)). x = v)"
proof (induction n arbitrary: p)
  case (Suc n)
  then have "drop p s = s ! p # drop (Suc p) s" by (simp add: Cons_nth_drop_Suc)
  with Suc show ?case by (auto simp: rd_def)
qed simp

subsection \<open>Properties\<close>

text \<open>Appending a string: when the destination buffer has room for both strings and the
  terminator the result holds their concatenation, keeps its size and keeps every byte outside the
  part written; when it has no room the copy runs off the end of the buffer.\<close>

theorem lite_strcat_correct:
  assumes "cstr dst dp ds" and "cstr src sp cs"
  shows "if dp + length ds + length cs < length dst
         then \<exists>dst'. lite_strcat dst dp src sp = Some dst' \<and> cstr dst' dp (ds @ cs) \<and>
                length dst' = length dst \<and>
                (\<forall>i. i < dp \<or> dp + length ds + length cs < i \<longrightarrow> dst' ! i = dst ! i)
         else lite_strcat dst dp src sp = None"
  using strcat_cstr [OF assms] cstr_append_overwrite [OF assms(1), of cs] assms(2)
  by (auto simp: nth_overwrite cstr_def)

theorem lite_strcat_correct_witness:
  "\<exists>d. lite_strcat [104, 0, 7, 7] 0 [105, 0] 0 = Some d \<and> cstr d 0 [104, 105] \<and> d ! 3 = 7"
  using lite_strcat_correct [of "[104, 0, 7, 7]" 0 "[104]" "[105, 0]" 0 "[105]"]
  by (auto simp: cstr_Cons nth_Cons')

text \<open>On NUL-terminated strings \<open>lite_strcmp\<close> returns 0 exactly on equal strings and
  \<open>lite_starts_with\<close> and \<open>lite_ends_with\<close> decide prefix and suffix; none of the three
  reads outside its buffers.\<close>

theorem lite_string_tests_correct:
  assumes "cstr s1 p1 cs" and "cstr s2 p2 ds"
  shows "(\<exists>r. lite_strcmp s1 p1 s2 p2 = Some r \<and> (r = 0 \<longleftrightarrow> cs = ds)) \<and>
         lite_starts_with s1 p1 s2 p2 = Some (prefix cs ds) \<and>
         lite_ends_with s1 p1 s2 p2 = Some (suffix cs ds)"
  using strcmp_cstr [OF assms] starts_with_cstr [OF assms] ends_with_cstr [OF assms] by blast

theorem lite_string_tests_correct_witness:
  "(\<exists>r. lite_strcmp [104, 105, 0] 1 [104, 105, 0] 0 = Some r \<and> r \<noteq> 0) \<and>
   lite_starts_with [104, 105, 0] 1 [104, 105, 0] 0 = Some False \<and>
   lite_ends_with [104, 105, 0] 1 [104, 105, 0] 0 = Some True"
  using lite_string_tests_correct [of "[104, 105, 0]" 1 "[105]" "[104, 105, 0]" 0 "[104, 105]"]
  by (auto simp: cstr_Cons suffix_Cons)

end
