(* ===== verification/HashClients.thy ===== *)
theory HashClients
  imports HashTable LiteLib "HOL-Library.Numeral_Type"
begin

text \<open>
  Components that keep their data in a hash table, verified against the contract
  \<open>keyed_set\<close> of the table: the object set of \<open>src/common/utils/Set.cpp\<close>, the two-way
  table of \<open>src/common/utils/Table.cpp\<close>, the thread stack table of
  \<open>src/toolchains/linux_elf/elf_loader/xax_stack_table.c\<close> and the key-value server of
  \<open>src/toolchains/linux_elf/keyval_zoog/keyval_zoog.cpp\<close>. The virtual \<open>hash\<close> and
  \<open>cmp\<close> of a \<open>Hashable\<close> are the key functions of the table.
\<close>

subsection \<open>Object sets\<close>

definition Set_new :: "('d \<Rightarrow> u32) \<Rightarrow> ('d \<Rightarrow> 'd \<Rightarrow> int) \<Rightarrow> 'd HashTable" where
  "Set_new hash cmp = hash_table_init hash cmp"

definition Set_lookup :: "'d HashTable \<Rightarrow> 'd \<Rightarrow> 'd HashTable \<times> 'd option" where
  "Set_lookup s h = hash_table_lookup s h"

definition Set_contains :: "'d HashTable \<Rightarrow> 'd \<Rightarrow> 'd HashTable \<times> bool" where
  "Set_contains s h = (case Set_lookup s h of (s1, r) \<Rightarrow> (s1, r \<noteq> None))"

definition Set_insert :: "'d HashTable \<Rightarrow> 'd \<Rightarrow> 'd HashTable option" where
  "Set_insert s h =
     (case Set_contains s h of (s1, c) \<Rightarrow> do { lite_assert (\<not> c); hash_table_insert s1 h })"

definition Set_count :: "'d HashTable \<Rightarrow> u32" where
  "Set_count s = word_of_int (ht_count s)"

text \<open>The visitor's object: the other set, the set being built.\<close>

definition Intersect_visit ::
    "bool \<Rightarrow> 'd HashTable \<times> 'd HashTable \<Rightarrow> 'd \<Rightarrow> ('d HashTable \<times> 'd HashTable) option" where
  "Intersect_visit invert i h =
     (case i of (b, out) \<Rightarrow>
        case Set_contains b h of (b1, c) \<Rightarrow>
          let result = (if invert then \<not> c else c)
          in if result then map_option (Pair b1) (Set_insert out h) else Some (b1, out))"

definition Set_intersection ::
    "'d HashTable \<Rightarrow> 'd HashTable \<Rightarrow> ('d HashTable \<times> 'd HashTable \<times> 'd HashTable) option" where
  "Set_intersection s other = do {
     (s1, b, out) \<leftarrow> hash_table_visit_every s (Intersect_visit False)
        (other, Set_new (hash_func s) (cmp_func s));
     Some (s1, b, out)
   }"

definition Set_difference ::
    "'d HashTable \<Rightarrow> 'd HashTable \<Rightarrow> ('d HashTable \<times> 'd HashTable \<times> 'd HashTable) option" where
  "Set_difference s other = do {
     (s1, b, out) \<leftarrow> hash_table_visit_every s (Intersect_visit True)
        (other, Set_new (hash_func s) (cmp_func s));
     Some (s1, b, out)
   }"

definition Set_visit ::
    "'d HashTable \<Rightarrow> ('u \<Rightarrow> 'd \<Rightarrow> 'u option) \<Rightarrow> 'u \<Rightarrow> ('d HashTable \<times> 'u) option" where
  "Set_visit s ff user_obj = hash_table_visit_every s ff user_obj"

lemmas set_op_defs = Set_new_def Set_lookup_def Set_contains_def Set_insert_def Intersect_visit_def

context hash_keys
begin

lemma set_contains:
  assumes "ready s" and "Set_contains s h = (s', c)"
  shows "ready s' \<and> ht_mset s' = ht_mset s \<and> (c \<longleftrightarrow> (\<exists>x \<in># ht_mset s. cmp h x = 0))"
proof -
  obtain l r where lk: "hash_table_lookup s h = (l, r)" by (cases "hash_table_lookup s h")
  from table.look_law [OF assms(1) lk] assms(2) lk show ?thesis
    by (cases r) (auto simp: Set_contains_def Set_lookup_def)
qed

lemma set_insert:
  assumes "ready s" and "\<forall>x \<in># ht_mset s. cmp h x \<noteq> 0"
  shows "\<exists>s'. Set_insert s h = Some s' \<and> ready s' \<and> ht_mset s' = add_mset h (ht_mset s)"
proof -
  obtain s1 c where c: "Set_contains s h = (s1, c)" by (cases "Set_contains s h")
  from set_contains [OF assms(1) c] assms(2) have s1: "ready s1" "ht_mset s1 = ht_mset s" "\<not> c" by auto
  from table.ins_new [OF s1(1), of h] s1(2,3) assms(2) c show ?thesis by (auto simp: Set_insert_def)
qed

lemma set_insert_dup:
  assumes "ready s" and "x \<in># ht_mset s" and "cmp h x = 0"
  shows "Set_insert s h = None"
  using set_contains [OF assms(1), of h] assms(2,3)
  by (cases "Set_contains s h") (auto simp: Set_insert_def)

lemma intersect_fold:
  assumes "ready b" and "ready out" and "unique_keys cmp (mset ds + ht_mset out)"
  shows "\<exists>b' out'. foldM (Intersect_visit invert) (b, out) ds = Some (b', out') \<and> ready b' \<and> ready out' \<and>
           ht_mset b' = ht_mset b \<and>
           ht_mset out' = ht_mset out + filter_mset (\<lambda>x. (\<exists>y \<in># ht_mset b. cmp x y = 0) \<noteq> invert) (mset ds)"
  using assms
proof (induction ds arbitrary: b out)
  case (Cons d ds)
  obtain b1 c where c: "Set_contains b d = (b1, c)" by (cases "Set_contains b d")
  note sc = set_contains [OF Cons.prems(1) c]
  from Cons.prems(3) have u: "unique_keys cmp (add_mset d (mset ds + ht_mset out))" by simp
  from unique_keys_drop(2) [OF u] have "\<forall>x \<in># ht_mset out. cmp d x \<noteq> 0" by auto
  from set_insert [OF Cons.prems(2) this] obtain o1 where
    o1: "Set_insert out d = Some o1" "ready o1" "ht_mset o1 = add_mset d (ht_mset out)" by auto
  have step: "Intersect_visit invert (b, out) d = Some (if c \<noteq> invert then (b1, o1) else (b1, out))"
    using c o1(1) by (auto simp: Intersect_visit_def Let_def)
  show ?case
  proof (cases "c \<noteq> invert")
    case True
    from Cons.IH [of b1 o1] sc o1 u have
      "\<exists>b' out'. foldM (Intersect_visit invert) (b1, o1) ds = Some (b', out') \<and> ready b' \<and> ready out' \<and>
        ht_mset b' = ht_mset b \<and> ht_mset out' = add_mset d (ht_mset out) +
          filter_mset (\<lambda>x. (\<exists>y \<in># ht_mset b. cmp x y = 0) \<noteq> invert) (mset ds)" by auto
    with True step sc show ?thesis by auto
  next
    case False
    from unique_keys_drop(1) [OF u] Cons.IH [of b1 out] sc Cons.prems(2) have
      "\<exists>b' out'. foldM (Intersect_visit invert) (b1, out) ds = Some (b', out') \<and> ready b' \<and> ready out' \<and>
        ht_mset b' = ht_mset b \<and> ht_mset out' = ht_mset out +
          filter_mset (\<lambda>x. (\<exists>y \<in># ht_mset b. cmp x y = 0) \<noteq> invert) (mset ds)" by auto
    with False step sc show ?thesis by auto
  qed
qed simp

lemma intersect_visit_every:
  assumes "ready s" and "ready other"
  shows "\<exists>b out. hash_table_visit_every s (Intersect_visit invert) (other, Set_new (hash_func s) (cmp_func s))
             = Some (s, b, out) \<and> ready b \<and> ready out \<and> ht_mset b = ht_mset other \<and>
           ht_mset out = filter_mset (\<lambda>x. (\<exists>y \<in># ht_mset other. cmp x y = 0) \<noteq> invert) (ht_mset s)"
proof -
  let ?ds = "st_data (old_table s) @ st_data (new_table s)" and ?n = "Set_new (hash_func s) (cmp_func s)"
  have m: "mset ?ds = ht_mset s" by (simp add: ht_mset_def st_mset_def)
  have n: "ready ?n" "ht_mset ?n = {#}"
    using assms(1) ready_init init_inv(2) by (auto simp: Set_new_def ready_def keyed_def)
  from intersect_fold [OF assms(2) n(1), of ?ds invert, unfolded m n(2)] table.unique [OF assms(1)]
  obtain b out where f: "foldM (Intersect_visit invert) (other, ?n) ?ds = Some (b, out)" "ready b" "ready out"
    "ht_mset b = ht_mset other"
    "ht_mset out = filter_mset (\<lambda>x. (\<exists>y \<in># ht_mset other. cmp x y = 0) \<noteq> invert) (ht_mset s)" by auto
  from f(1) have "hash_table_visit_every s (Intersect_visit invert) (other, ?n) = Some (s, b, out)"
    by (simp add: hash_table_visit_every_def foldM_append Option.bind_eq_Some_conv)
  with f show ?thesis by blast
qed

end

subsection \<open>Two-way tables\<close>

text \<open>
  A component that is NULL in a search key is \<open>None\<close>. The tables only hold tuples with
  both components, and the table keyed by one side looks at that side only.
\<close>

record 'a Tuple =
  left_of :: "'a option"
  right_of :: "'a option"

definition Tuple_hash_left :: "('a \<Rightarrow> u32) \<Rightarrow> 'a Tuple \<Rightarrow> u32" where
  "Tuple_hash_left hash t = (case left_of t of Some l \<Rightarrow> hash l | None \<Rightarrow> 0)"

definition Tuple_hash_right :: "('a \<Rightarrow> u32) \<Rightarrow> 'a Tuple \<Rightarrow> u32" where
  "Tuple_hash_right hash t = (case right_of t of Some r \<Rightarrow> hash r | None \<Rightarrow> 0)"

definition cmp_opt :: "('a \<Rightarrow> 'a \<Rightarrow> int) \<Rightarrow> 'a option \<Rightarrow> 'a option \<Rightarrow> int" where
  "cmp_opt cmp a b =
     (case (a, b) of (Some x, Some y) \<Rightarrow> cmp x y | (None, None) \<Rightarrow> 0 | _ \<Rightarrow> 1)"

definition Tuple_cmp_lefts :: "('a \<Rightarrow> 'a \<Rightarrow> int) \<Rightarrow> 'a Tuple \<Rightarrow> 'a Tuple \<Rightarrow> int" where
  "Tuple_cmp_lefts cmp a b = cmp_opt cmp (left_of a) (left_of b)"

definition Tuple_cmp_rights :: "('a \<Rightarrow> 'a \<Rightarrow> int) \<Rightarrow> 'a Tuple \<Rightarrow> 'a Tuple \<Rightarrow> int" where
  "Tuple_cmp_rights cmp a b = cmp_opt cmp (right_of a) (right_of b)"

record 'a Table =
  l_to_r :: "'a Tuple HashTable"
  r_to_l :: "'a Tuple HashTable"

definition Table_new :: "('a \<Rightarrow> u32) \<Rightarrow> ('a \<Rightarrow> 'a \<Rightarrow> int) \<Rightarrow> 'a Table" where
  "Table_new hash cmp =
     \<lparr>l_to_r = hash_table_init (Tuple_hash_left hash) (Tuple_cmp_lefts cmp),
      r_to_l = hash_table_init (Tuple_hash_right hash) (Tuple_cmp_rights cmp)\<rparr>"

definition Table_insert :: "'a Table \<Rightarrow> 'a \<Rightarrow> 'a \<Rightarrow> 'a Table option" where
  "Table_insert t hl hr = do {
     let tuple = \<lparr>left_of = Some hl, right_of = Some hr\<rparr>;
     a \<leftarrow> hash_table_insert (l_to_r t) tuple;
     b \<leftarrow> hash_table_insert (r_to_l t) tuple;
     Some \<lparr>l_to_r = a, r_to_l = b\<rparr>
   }"

definition Table_lookup_left :: "'a Table \<Rightarrow> 'a \<Rightarrow> 'a Table \<times> 'a option" where
  "Table_lookup_left t hl =
     (case hash_table_lookup (l_to_r t) \<lparr>left_of = Some hl, right_of = None\<rparr> of
        (a, None) \<Rightarrow> (t\<lparr>l_to_r := a\<rparr>, None)
      | (a, Some tuple) \<Rightarrow> (t\<lparr>l_to_r := a\<rparr>, right_of tuple))"

definition Table_lookup_right :: "'a Table \<Rightarrow> 'a \<Rightarrow> 'a Table \<times> 'a option" where
  "Table_lookup_right t hr =
     (case hash_table_lookup (r_to_l t) \<lparr>left_of = None, right_of = Some hr\<rparr> of
        (b, None) \<Rightarrow> (t\<lparr>r_to_l := b\<rparr>, None)
      | (b, Some tuple) \<Rightarrow> (t\<lparr>r_to_l := b\<rparr>, left_of tuple))"

definition Table_remove_left :: "'a Table \<Rightarrow> 'a \<Rightarrow> 'a Table option" where
  "Table_remove_left t hl =
     (case hash_table_lookup (l_to_r t) \<lparr>left_of = Some hl, right_of = None\<rparr> of
        (a, None) \<Rightarrow> None
      | (a, Some tuple) \<Rightarrow> do {
          a' \<leftarrow> hash_table_remove a tuple;
          b' \<leftarrow> hash_table_remove (r_to_l t) tuple;
          Some \<lparr>l_to_r = a', r_to_l = b'\<rparr>
        })"

definition Table_remove_right :: "'a Table \<Rightarrow> 'a \<Rightarrow> 'a Table option" where
  "Table_remove_right t hr =
     (case hash_table_lookup (r_to_l t) \<lparr>left_of = None, right_of = Some hr\<rparr> of
        (b, None) \<Rightarrow> None
      | (b, Some tuple) \<Rightarrow> do {
          a' \<leftarrow> hash_table_remove (l_to_r t) tuple;
          b' \<leftarrow> hash_table_remove b tuple;
          Some \<lparr>l_to_r = a', r_to_l = b'\<rparr>
        })"

locale table_keys = hash_keys hash cmp
  for hash :: "'a \<Rightarrow> u32" and cmp :: "'a \<Rightarrow> 'a \<Rightarrow> int"
begin

lemma cmp_opt_refl: "cmp_opt cmp a a = 0"
  by (cases a) (simp_all add: cmp_opt_def cmp_refl)

lemma cmp_opt_sym: "cmp_opt cmp a b = 0 \<Longrightarrow> cmp_opt cmp b a = 0"
  by (cases a; cases b) (auto simp: cmp_opt_def dest: cmp_sym)

lemma cmp_opt_trans: "cmp_opt cmp a b = 0 \<Longrightarrow> cmp_opt cmp b c = 0 \<Longrightarrow> cmp_opt cmp a c = 0"
  by (cases a; cases b; cases c) (auto simp: cmp_opt_def dest: cmp_trans)

lemma cmp_opt_hash:
  "cmp_opt cmp a b = 0 \<Longrightarrow> (case a of Some x \<Rightarrow> hash x | None \<Rightarrow> 0) = (case b of Some x \<Rightarrow> hash x | None \<Rightarrow> 0)"
  by (cases a; cases b) (auto simp: cmp_opt_def dest: cmp_hash)

end

sublocale table_keys < lefts: hash_keys "Tuple_hash_left hash" "Tuple_cmp_lefts cmp"
  by unfold_locales
     (auto simp: Tuple_hash_left_def Tuple_cmp_lefts_def cmp_opt_refl intro: cmp_opt_sym cmp_opt_trans cmp_opt_hash)

sublocale table_keys < rights: hash_keys "Tuple_hash_right hash" "Tuple_cmp_rights cmp"
  by unfold_locales
     (auto simp: Tuple_hash_right_def Tuple_cmp_rights_def cmp_opt_refl intro: cmp_opt_sym cmp_opt_trans cmp_opt_hash)

definition tup :: "'a \<times> 'a \<Rightarrow> 'a Tuple" where
  "tup p = \<lparr>left_of = Some (fst p), right_of = Some (snd p)\<rparr>"

lemma tup_sel [simp]:
  "left_of (tup p) = Some (fst p)" "right_of (tup p) = Some (snd p)"
  "Tuple_cmp_lefts cmp (tup p) (tup q) = cmp (fst p) (fst q)"
  "Tuple_cmp_rights cmp (tup p) (tup q) = cmp (snd p) (snd q)"
  "Tuple_cmp_lefts cmp \<lparr>left_of = Some l, right_of = r\<rparr> (tup q) = cmp l (fst q)"
  "Tuple_cmp_rights cmp \<lparr>left_of = l', right_of = Some r'\<rparr> (tup q) = cmp r' (snd q)"
  by (simp_all add: tup_def Tuple_cmp_lefts_def Tuple_cmp_rights_def cmp_opt_def)

text \<open>The pairs a table holds.\<close>

definition table_pairs ::
    "('a \<Rightarrow> u32) \<Rightarrow> ('a \<Rightarrow> 'a \<Rightarrow> int) \<Rightarrow> 'a Table \<Rightarrow> ('a \<times> 'a) multiset \<Rightarrow> bool" where
  "table_pairs hash cmp t P \<longleftrightarrow>
     hash_keys.ready (Tuple_hash_left hash) (Tuple_cmp_lefts cmp) (l_to_r t) \<and>
     hash_keys.ready (Tuple_hash_right hash) (Tuple_cmp_rights cmp) (r_to_l t) \<and>
     ht_mset (l_to_r t) = image_mset tup P \<and> ht_mset (r_to_l t) = image_mset tup P"

context table_keys
begin

lemma pairs_sel:
  assumes "table_pairs hash cmp t P"
  shows "lefts.ready (l_to_r t)" "rights.ready (r_to_l t)"
    "ht_mset (l_to_r t) = image_mset tup P" "ht_mset (r_to_l t) = image_mset tup P"
  using assms by (auto simp: table_pairs_def)

lemma pairs_new: "table_pairs hash cmp (Table_new hash cmp) {#}"
  using lefts.ready_init rights.ready_init init_inv(2) by (auto simp: table_pairs_def Table_new_def)

lemma table_insert_ok:
  assumes t: "table_pairs hash cmp t P" and new: "\<forall>p \<in># P. cmp hl (fst p) \<noteq> 0 \<and> cmp hr (snd p) \<noteq> 0"
  shows "\<exists>t'. Table_insert t hl hr = Some t' \<and> table_pairs hash cmp t' (add_mset (hl, hr) P)"
proof -
  note ps = pairs_sel [OF t]
  let ?d = "tup (hl, hr)"
  have "\<forall>x \<in># ht_mset (l_to_r t). Tuple_cmp_lefts cmp ?d x \<noteq> 0" using new ps(3) by auto
  from lefts.table.ins_new [OF ps(1) this] obtain a where
    a: "hash_table_insert (l_to_r t) ?d = Some a" "lefts.ready a" "ht_mset a = add_mset ?d (ht_mset (l_to_r t))"
    by auto
  have "\<forall>x \<in># ht_mset (r_to_l t). Tuple_cmp_rights cmp ?d x \<noteq> 0" using new ps(4) by auto
  from rights.table.ins_new [OF ps(2) this] obtain b where
    b: "hash_table_insert (r_to_l t) ?d = Some b" "rights.ready b" "ht_mset b = add_mset ?d (ht_mset (r_to_l t))"
    by auto
  have d: "\<lparr>left_of = Some hl, right_of = Some hr\<rparr> = ?d" by (simp add: tup_def)
  from a b ps show ?thesis by (simp add: Table_insert_def d table_pairs_def)
qed

lemma table_insert_dup:
  assumes t: "table_pairs hash cmp t P" and p: "p \<in># P" "cmp hl (fst p) = 0 \<or> cmp hr (snd p) = 0"
  shows "Table_insert t hl hr = None"
proof -
  note ps = pairs_sel [OF t]
  let ?d = "tup (hl, hr)"
  have d: "\<lparr>left_of = Some hl, right_of = Some hr\<rparr> = ?d" by (simp add: tup_def)
  have m: "tup p \<in># ht_mset (l_to_r t)" "tup p \<in># ht_mset (r_to_l t)" using p(1) ps(3,4) by auto
  show ?thesis
  proof (cases "cmp hl (fst p) = 0")
    case True
    then show ?thesis using lefts.table.ins_old [OF ps(1) m(1), of ?d] by (simp add: Table_insert_def d)
  next
    case False
    with p(2) have "hash_table_insert (r_to_l t) ?d = None"
      using rights.table.ins_old [OF ps(2) m(2), of ?d] by simp
    then show ?thesis by (cases "hash_table_insert (l_to_r t) ?d") (simp_all add: Table_insert_def d)
  qed
qed

lemma lookup_left_ok:
  assumes t: "table_pairs hash cmp t P" and l: "Table_lookup_left t hl = (t', r)"
  shows "table_pairs hash cmp t' P" and "p \<in># P \<Longrightarrow> cmp hl (fst p) = 0 \<Longrightarrow> r = Some (snd p)"
    and "\<forall>p \<in># P. cmp hl (fst p) \<noteq> 0 \<Longrightarrow> r = None"
proof -
  note ps = pairs_sel [OF t]
  let ?k = "\<lparr>left_of = Some hl, right_of = None\<rparr>"
  obtain a x where lk: "hash_table_lookup (l_to_r t) ?k = (a, x)" by (cases "hash_table_lookup (l_to_r t) ?k")
  note law = lefts.table.look_law [OF ps(1) lk]
  show "table_pairs hash cmp t' P"
    using law l lk ps by (auto simp: Table_lookup_left_def table_pairs_def split: option.splits)
  show "r = Some (snd p)" if "p \<in># P" "cmp hl (fst p) = 0"
    using lefts.table.look_unique [OF ps(1) _ _ lk, of "tup p"] that ps(3) l lk
    by (simp add: Table_lookup_left_def)
  show "r = None" if "\<forall>p \<in># P. cmp hl (fst p) \<noteq> 0"
    using law that ps(3) l lk by (cases x) (auto simp: Table_lookup_left_def)
qed

lemma lookup_right_ok:
  assumes t: "table_pairs hash cmp t P" and l: "Table_lookup_right t hr = (t', r)"
  shows "table_pairs hash cmp t' P" and "p \<in># P \<Longrightarrow> cmp hr (snd p) = 0 \<Longrightarrow> r = Some (fst p)"
    and "\<forall>p \<in># P. cmp hr (snd p) \<noteq> 0 \<Longrightarrow> r = None"
proof -
  note ps = pairs_sel [OF t]
  let ?k = "\<lparr>left_of = None, right_of = Some hr\<rparr>"
  obtain a x where lk: "hash_table_lookup (r_to_l t) ?k = (a, x)" by (cases "hash_table_lookup (r_to_l t) ?k")
  note law = rights.table.look_law [OF ps(2) lk]
  show "table_pairs hash cmp t' P"
    using law l lk ps by (auto simp: Table_lookup_right_def table_pairs_def split: option.splits)
  show "r = Some (fst p)" if "p \<in># P" "cmp hr (snd p) = 0"
    using rights.table.look_unique [OF ps(2) _ _ lk, of "tup p"] that ps(4) l lk
    by (simp add: Table_lookup_right_def)
  show "r = None" if "\<forall>p \<in># P. cmp hr (snd p) \<noteq> 0"
    using law that ps(4) l lk by (cases x) (auto simp: Table_lookup_right_def)
qed

text \<open>Removing one stored tuple from both sides.\<close>

lemma remove_both:
  assumes "lefts.ready a" "rights.ready b" "ht_mset a = image_mset tup P" "ht_mset b = image_mset tup P" "p \<in># P"
  shows "\<exists>a' b'. hash_table_remove a (tup p) = Some a' \<and> hash_table_remove b (tup p) = Some b' \<and>
           table_pairs hash cmp \<lparr>l_to_r = a', r_to_l = b'\<rparr> (P - {#p#})"
proof -
  have m: "tup p \<in># ht_mset a" "tup p \<in># ht_mset b" using assms by auto
  have P: "image_mset tup P = add_mset (tup p) (image_mset tup (P - {#p#}))"
    using assms(5) by (metis image_mset_add_mset insert_DiffM)
  from lefts.table.rem_old [OF assms(1) m(1), of "tup p"] obtain a' where
    a': "hash_table_remove a (tup p) = Some a'" "lefts.ready a'" "ht_mset a = add_mset (tup p) (ht_mset a')"
    by (auto simp: cmp_refl)
  from rights.table.rem_old [OF assms(2) m(2), of "tup p"] obtain b' where
    b': "hash_table_remove b (tup p) = Some b'" "rights.ready b'" "ht_mset b = add_mset (tup p) (ht_mset b')"
    by (auto simp: cmp_refl)
  from a' b' P assms(3,4) show ?thesis by (simp add: table_pairs_def)
qed

lemma remove_left_ok:
  assumes t: "table_pairs hash cmp t P" and p: "p \<in># P" "cmp hl (fst p) = 0"
  shows "\<exists>t'. Table_remove_left t hl = Some t' \<and> table_pairs hash cmp t' (P - {#p#})"
proof -
  note ps = pairs_sel [OF t]
  let ?k = "\<lparr>left_of = Some hl, right_of = None\<rparr>"
  obtain a x where lk: "hash_table_lookup (l_to_r t) ?k = (a, x)" by (cases "hash_table_lookup (l_to_r t) ?k")
  have x: "x = Some (tup p)"
    using lefts.table.look_unique [OF ps(1) _ _ lk, of "tup p"] p ps(3) by simp
  from lefts.table.look_law [OF ps(1) lk] ps have "lefts.ready a" "ht_mset a = image_mset tup P" by auto
  from remove_both [OF this(1) ps(2) this(2) ps(4) p(1)] lk x show ?thesis
    by (auto simp: Table_remove_left_def)
qed

lemma remove_right_ok:
  assumes t: "table_pairs hash cmp t P" and p: "p \<in># P" "cmp hr (snd p) = 0"
  shows "\<exists>t'. Table_remove_right t hr = Some t' \<and> table_pairs hash cmp t' (P - {#p#})"
proof -
  note ps = pairs_sel [OF t]
  let ?k = "\<lparr>left_of = None, right_of = Some hr\<rparr>"
  obtain b x where lk: "hash_table_lookup (r_to_l t) ?k = (b, x)" by (cases "hash_table_lookup (r_to_l t) ?k")
  have x: "x = Some (tup p)"
    using rights.table.look_unique [OF ps(2) _ _ lk, of "tup p"] p ps(4) by simp
  from rights.table.look_law [OF ps(2) lk] ps have "rights.ready b" "ht_mset b = image_mset tup P" by auto
  from remove_both [OF ps(1) this(1) ps(3) this(2) p(1)] lk x show ?thesis
    by (auto simp: Table_remove_right_def)
qed

end

subsection \<open>Key functions over byte buffers\<close>

text \<open>\<open>hash_t\<close> is the 20-byte digest of \<open>src/common/crypto\<close>; byte \<open>i\<close> is bits
  \<open>8 i\<close> to \<open>8 i + 7\<close>.\<close>

type_synonym hash_t = "160 word"

definition hash_bytes :: "hash_t \<Rightarrow> bytes" where
  "hash_bytes h = map (\<lambda>i. ucast (drop_bit (8 * i) h)) [0..<20]"

definition cmp_bufs :: "bytes \<Rightarrow> int \<Rightarrow> bytes \<Rightarrow> int \<Rightarrow> u32 option" where
  "cmp_bufs buf0 len0 buf1 len1 = do {
     rc \<leftarrow> lite_memcmp buf0 0 buf1 0 (nat (min len0 len1));
     Some (if rc \<noteq> 0 then word_of_int rc else word_of_int (len0 - len1))
   }"

record HashableHash =
  hh_hash :: hash_t
  found_at_offset :: u32
  n_occurrences :: u32

definition HashableHash_new :: "hash_t \<Rightarrow> u32 \<Rightarrow> HashableHash" where
  "HashableHash_new h off = \<lparr>hh_hash = h, found_at_offset = off, n_occurrences = 1\<rparr>"

definition HashableHash_hash :: "HashableHash \<Rightarrow> u32" where
  "HashableHash_hash h = hash_buf (hash_bytes (hh_hash h))"

text \<open>\<open>sizeof(hash_t)\<close> bytes are compared, so the comparison stays inside both digests.\<close>

definition HashableHash_cmp :: "HashableHash \<Rightarrow> HashableHash \<Rightarrow> int" where
  "HashableHash_cmp a b =
     (case cmp_bufs (hash_bytes (hh_hash a)) 20 (hash_bytes (hh_hash b)) 20 of
        Some r \<Rightarrow> sint r | None \<Rightarrow> 1)"

definition HashableHash_increment :: "HashableHash \<Rightarrow> HashableHash" where
  "HashableHash_increment h = h\<lparr>n_occurrences := n_occurrences h + 1\<rparr>"

lemma length_hash_bytes [simp]: "length (hash_bytes h) = 20"
  by (simp add: hash_bytes_def)

lemma hash_bytes_inject [simp]: "hash_bytes a = hash_bytes b \<longleftrightarrow> a = b"
proof
  assume e: "hash_bytes a = hash_bytes b"
  have bytes: "ucast (drop_bit (8 * i) a) = (ucast (drop_bit (8 * i) b) :: u8)" if "i < 20" for i
    using arg_cong [OF e, of "\<lambda>l. l ! i"] that by (simp add: hash_bytes_def)
  show "a = b"
  proof (rule bit_word_eqI)
    fix n assume "n < LENGTH(160)"
    then have i: "n div 8 < 20" by simp
    have "8 * (n div 8) + n mod 8 = n" by simp
    moreover have "bit (ucast (drop_bit (8 * (n div 8)) w) :: u8) (n mod 8) \<longleftrightarrow>
        bit w (8 * (n div 8) + n mod 8)" for w :: hash_t
      by (simp add: bit_ucast_iff bit_drop_bit_eq)
    ultimately show "bit a n = bit b n" using bytes [OF i] by metis
  qed
qed simp

lemma memcmp_range: "lite_memcmp s1 p1 s2 p2 n = Some r \<Longrightarrow> -128 \<le> r \<and> r < 128"
proof (induction n arbitrary: p1 p2)
  case (Suc n)
  have "-128 \<le> sint v \<and> sint v < 128" for v :: u8
    using sint_greater_eq [of v] sint_less [of v] by simp
  with Suc show ?case by (auto simp: Option.bind_eq_Some_conv Let_def split: if_splits)
qed simp

lemma cmp_bufs_same_length:
  assumes "length b0 = n" and "length b1 = n"
  shows "\<exists>r. cmp_bufs b0 (int n) b1 (int n) = Some r \<and> (r = 0 \<longleftrightarrow> b0 = b1)"
proof -
  from memcmp_eq_0 [of 0 n b0 0 b1] assms obtain r where
    r: "lite_memcmp b0 0 b1 0 n = Some r" "r = 0 \<longleftrightarrow> b0 = b1" by auto
  have "(word_of_int r :: u32) = 0 \<longleftrightarrow> r = 0"
  proof -
    have "-128 \<le> r" "r < 128" using memcmp_range [OF r(1)] by auto
    then show ?thesis
      using dvd_imp_le_int [of r "4294967296"] by (auto simp: word_of_int_eq_0_iff)
  qed
  with r show ?thesis by (auto simp: cmp_bufs_def)
qed

interpretation hhash: table_keys HashableHash_hash HashableHash_cmp
proof -
  have "HashableHash_cmp a b = 0 \<longleftrightarrow> hh_hash a = hh_hash b" for a b
    using cmp_bufs_same_length [of "hash_bytes (hh_hash a)" 20 "hash_bytes (hh_hash b)"]
    by (auto simp: HashableHash_cmp_def)
  then show "table_keys HashableHash_hash HashableHash_cmp"
    by unfold_locales (auto simp: HashableHash_hash_def)
qed

subsection \<open>The thread stack table\<close>

record XaxStackTableEntry =
  gs_thread_handle :: u32
  stack_base :: u64
  tid :: int

definition xste_hash :: "XaxStackTableEntry \<Rightarrow> u32" where
  "xste_hash xste = gs_thread_handle xste"

definition xste_cmp :: "XaxStackTableEntry \<Rightarrow> XaxStackTableEntry \<Rightarrow> int" where
  "xste_cmp a b = sint (gs_thread_handle a - gs_thread_handle b)"

definition xst_init :: "XaxStackTableEntry HashTable" where
  "xst_init = hash_table_init xste_hash xste_cmp"

text \<open>The operations run between \<open>zmutex_lock\<close> and \<open>zmutex_unlock\<close> of the table's
  mutex; the log message of \<open>xst_insert\<close> does not touch the table.\<close>

definition xst_insert ::
    "XaxStackTableEntry HashTable \<Rightarrow> XaxStackTableEntry \<Rightarrow> XaxStackTableEntry HashTable option" where
  "xst_insert ht xte =
     (case hash_table_lookup ht xte of
        (ht1, found) \<Rightarrow> do { lite_assert (found = None); hash_table_insert ht1 xte })"

text \<open>The key on the stack: only its handle is set.\<close>

definition xst_key :: "u32 \<Rightarrow> XaxStackTableEntry" where
  "xst_key k = \<lparr>gs_thread_handle = k, stack_base = 0, tid = 0\<rparr>"

definition xst_peek ::
    "XaxStackTableEntry HashTable \<Rightarrow> u32 \<Rightarrow> XaxStackTableEntry HashTable \<times> XaxStackTableEntry option" where
  "xst_peek ht k = hash_table_lookup ht (xst_key k)"

definition xst_remove ::
    "XaxStackTableEntry HashTable \<Rightarrow> u32 \<Rightarrow> (XaxStackTableEntry HashTable \<times> XaxStackTableEntry) option" where
  "xst_remove ht k =
     (case hash_table_lookup ht (xst_key k) of
        (ht1, None) \<Rightarrow> None
      | (ht1, Some xte) \<Rightarrow> do { ht2 \<leftarrow> hash_table_remove ht1 (xst_key k); Some (ht2, xte) })"

interpretation xste: hash_keys xste_hash xste_cmp
  by unfold_locales (auto simp: xste_hash_def xste_cmp_def)

text \<open>The table implements a finite map from handles to entries.\<close>

definition xst_rep ::
    "XaxStackTableEntry HashTable \<Rightarrow> (u32 \<Rightarrow> XaxStackTableEntry option) \<Rightarrow> bool" where
  "xst_rep ht m \<longleftrightarrow>
     xste.ready ht \<and> (\<forall>k e. m k = Some e \<longleftrightarrow> e \<in># ht_mset ht \<and> gs_thread_handle e = k)"

lemma xste_cmp_0 [simp]: "xste_cmp a b = 0 \<longleftrightarrow> gs_thread_handle a = gs_thread_handle b"
  by (simp add: xste_cmp_def)

lemma xst_rep_lookup:
  assumes "xst_rep ht m" and "hash_table_lookup ht d = (ht', r)"
  shows "xst_rep ht' m \<and> r = m (gs_thread_handle d)"
proof -
  from assms(1) have rdy: "xste.ready ht" and
    m: "\<And>k e. m k = Some e \<longleftrightarrow> e \<in># ht_mset ht \<and> gs_thread_handle e = k" by (auto simp: xst_rep_def)
  note law = xste.table.look_law [OF rdy assms(2)]
  have "r = m (gs_thread_handle d)"
  proof (cases r)
    case None
    with law m show ?thesis by (cases "m (gs_thread_handle d)") auto
  next
    case (Some e)
    with law m [of "gs_thread_handle d" e] show ?thesis by simp
  qed
  with law m show ?thesis by (simp add: xst_rep_def)
qed

lemma xst_insert_rep:
  assumes "xst_rep ht m"
  shows "case m (gs_thread_handle e) of
           None \<Rightarrow> \<exists>ht'. xst_insert ht e = Some ht' \<and> xst_rep ht' (m(gs_thread_handle e \<mapsto> e))
         | Some _ \<Rightarrow> xst_insert ht e = None"
proof -
  obtain ht1 r where lk: "hash_table_lookup ht e = (ht1, r)" by (cases "hash_table_lookup ht e")
  from xst_rep_lookup [OF assms lk] have r: "xst_rep ht1 m" "r = m (gs_thread_handle e)" by auto
  show ?thesis
  proof (cases "m (gs_thread_handle e)")
    case None
    with r(1) have "\<forall>x \<in># ht_mset ht1. xste_cmp e x \<noteq> 0" "xste.ready ht1"
      by (auto simp: xst_rep_def) (metis option.distinct(1))
    from xste.table.ins_new [OF this(2,1)] obtain ht' where
      "hash_table_insert ht1 e = Some ht'" "xste.ready ht'" "ht_mset ht' = add_mset e (ht_mset ht1)" by auto
    moreover have "gs_thread_handle x \<noteq> gs_thread_handle e" if "x \<in># ht_mset ht1" for x
      using r(1) None that unfolding xst_rep_def by (metis option.distinct(1))
    ultimately show ?thesis using None r lk by (auto simp: xst_insert_def xst_rep_def)
  next
    case (Some x)
    with r lk show ?thesis by (simp add: xst_insert_def)
  qed
qed

lemma xst_remove_rep:
  assumes "xst_rep ht m"
  shows "case m k of
           None \<Rightarrow> xst_remove ht k = None
         | Some e \<Rightarrow> \<exists>ht'. xst_remove ht k = Some (ht', e) \<and> xst_rep ht' (m(k := None))"
proof -
  obtain ht1 r where lk: "hash_table_lookup ht (xst_key k) = (ht1, r)"
    by (cases "hash_table_lookup ht (xst_key k)")
  from xst_rep_lookup [OF assms lk] have r: "xst_rep ht1 m" "r = m k" by (auto simp: xst_key_def)
  show ?thesis
  proof (cases "m k")
    case None
    with r lk show ?thesis by (simp add: xst_remove_def)
  next
    case (Some e)
    with r(1) have e: "e \<in># ht_mset ht1" "gs_thread_handle e = k" "xste.ready ht1" by (auto simp: xst_rep_def)
    from xste.table.rem_old [OF e(3,1), of "xst_key k"] e(2) obtain ht' where
      h: "hash_table_remove ht1 (xst_key k) = Some ht'" "xste.ready ht'" "ht_mset ht1 = add_mset e (ht_mset ht')"
      by (auto simp: xst_key_def)
    have "unique_keys xste_cmp (add_mset e (ht_mset ht'))" using xste.table.unique [OF e(3)] h(3) by simp
    from xste.unique_keys_drop(2) [OF this] have "\<forall>x \<in># ht_mset ht'. gs_thread_handle x \<noteq> k"
      using e(2) by auto
    then have "xst_rep ht' (m(k := None))" using r(1) h e(2) by (auto simp: xst_rep_def)
    with h(1) Some r(2) lk show ?thesis by (simp add: xst_remove_def)
  qed
qed

subsection \<open>The key-value server\<close>

text \<open>
  A \<open>KeyVal\<close> with the address it is stored at. \<open>kv_hash\<close> runs over the bytes of the
  local variable \<open>key\<close>, a pointer to the key field, which is the first field of the record;
  addresses are 64 bits wide, \<open>sizeof(Key)\<close> is 8.
\<close>

record KeyVal =
  kv_at :: u64
  kv_key :: u64
  kv_val :: bytes

definition kv_hash :: "KeyVal \<Rightarrow> u32" where
  "kv_hash kv =
     foldl (\<lambda>h i. (push_bit 5 h + h) XOR ucast (ucast (drop_bit (8 * i) (kv_at kv)) :: u8)) 5381 [0..<8]"

definition kv_cmp :: "KeyVal \<Rightarrow> KeyVal \<Rightarrow> int" where
  "kv_cmp a b = (if kv_key a < kv_key b then -1 else if kv_key a = kv_key b then 0 else 1)"

definition KVServer_new :: "KeyVal HashTable" where
  "KVServer_new = hash_table_init kv_hash kv_cmp"

text \<open>The reply is the bytes of the value sent; the empty value when the key is not found.\<close>

definition KVServer_handle_lookup :: "KeyVal HashTable \<Rightarrow> KeyVal \<Rightarrow> KeyVal HashTable \<times> bytes" where
  "KVServer_handle_lookup db request =
     (case hash_table_lookup db request of
        (db1, None) \<Rightarrow> (db1, []) | (db1, Some kv) \<Rightarrow> (db1, kv_val kv))"

text \<open>\<open>clone_at\<close> is the address \<open>malloc\<close> returns in \<open>KV_clone\<close>; the reply is the
  hash of the value.\<close>

definition KV_clone :: "u64 \<Rightarrow> KeyVal \<Rightarrow> KeyVal" where
  "KV_clone clone_at kv = kv\<lparr>kv_at := clone_at\<rparr>"

definition KVServer_handle_insert ::
    "u64 \<Rightarrow> KeyVal HashTable \<Rightarrow> KeyVal \<Rightarrow> (KeyVal HashTable \<times> u32) option" where
  "KVServer_handle_insert clone_at db request = do {
     db1 \<leftarrow> (case hash_table_lookup db request of
               (db0, None) \<Rightarrow> Some db0 | (db0, Some old) \<Rightarrow> hash_table_remove db0 old);
     let new = KV_clone clone_at request;
     db2 \<leftarrow> hash_table_insert db1 new;
     Some (db2, hash_buf (kv_val new))
   }"

text \<open>
  The server's hash does not satisfy the contract of a hash table: two records with the same key
  at different addresses hash differently.
\<close>

lemma kv_hash_breaks_contract: "\<not> hash_keys kv_hash kv_cmp"
proof
  assume "hash_keys kv_hash kv_cmp"
  from hash_keys.cmp_hash [OF this, of "\<lparr>kv_at = 0, kv_key = 7, kv_val = []\<rparr>"
      "\<lparr>kv_at = 1, kv_key = 7, kv_val = []\<rparr>"]
  have "kv_hash \<lparr>kv_at = 0, kv_key = 7, kv_val = []\<rparr> = kv_hash \<lparr>kv_at = 1, kv_key = 7, kv_val = []\<rparr>"
    by (simp add: kv_cmp_def)
  moreover have "kv_hash \<lparr>kv_at = 0, kv_key = 7, kv_val = []\<rparr> \<noteq> kv_hash \<lparr>kv_at = 1, kv_key = 7, kv_val = []\<rparr>"
    by code_simp
  ultimately show False by contradiction
qed

lemma kv_hash_values:
  "kv_hash \<lparr>kv_at = 1, kv_key = 7, kv_val = [42]\<rparr> = 2406577444"
  "kv_hash \<lparr>kv_at = 4096, kv_key = 7, kv_val = [42]\<rparr> = 1263998485"
  by code_simp+

text \<open>As a result the key-value server loses data: after an accepted insert of a key, a lookup of the same
  key can answer with the empty value, because the stored copy and the request lie at different
  addresses.\<close>

theorem KVServer_loses_key:
  "\<exists>request clone_at db1 h. kv_val request \<noteq> [] \<and>
     KVServer_handle_insert clone_at KVServer_new request = Some (db1, h) \<and>
     snd (KVServer_handle_lookup db1 request) = []"
proof -
  let ?r = "\<lparr>kv_at = 1, kv_key = 7, kv_val = [42]\<rparr>"
  let ?c = "\<lparr>kv_at = 4096, kv_key = 7, kv_val = [42]\<rparr>"
  let ?l = "\<lparr>magic0 = HLMAGIC0, hl_datum = ?c, magic1 = HLMAGIC1\<rparr>"
  let ?db = "KVServer_new\<lparr>new_table := \<lparr>buckets = [[], [?l]], num_buckets = 2, st_count = 1\<rparr>, ht_count := 1\<rparr>"
  have r2: "replicate 2 x = [x, x]" for x :: "KeyVal HashLink list" by (simp add: numeral_2_eq_2)
  note eval = hash_table_find_preceding_link_def KVServer_new_def hash_table_init_def subtable_init_def
    subtable_find_preceding_link_def subtable_find_bucket_def Let_def kv_hash_values r2
  have "hash_table_find_preceding_link KVServer_new ?r = None" "hash_table_find_preceding_link KVServer_new ?c = None"
    by (simp_all add: eval)
  then have "KVServer_handle_insert 4096 KVServer_new ?r = Some (?db, 42)"
    by (simp add: KVServer_handle_insert_def hash_table_lookup_def KV_clone_def hash_table_insert_def
        hash_table_insert_inner_def hash_buf_def hash_table_shift_one_def push_link_def shift_scan.simps eval)
  moreover have "snd (KVServer_handle_lookup ?db ?r) = []"
    by (simp add: KVServer_handle_lookup_def hash_table_lookup_def eval)
  ultimately show ?thesis by force
qed
subsection \<open>Properties\<close>

text \<open>A two-way table keeps its two hash tables in step: it is a set of pairs in which no left
  and no right component occurs twice. An insert of two fresh components adds the pair and an
  insert of a component in use aborts; a lookup from either side finds the partner; a removal
  from either side removes the pair from both.\<close>

theorem Table_bijection:
  assumes k: "hash_keys hash cmp" and t: "table_pairs hash cmp t P"
  shows "(\<forall>hl hr. if \<exists>p \<in># P. cmp hl (fst p) = 0 \<or> cmp hr (snd p) = 0
            then Table_insert t hl hr = None
            else \<exists>t'. Table_insert t hl hr = Some t' \<and> table_pairs hash cmp t' (add_mset (hl, hr) P)) \<and>
         (\<forall>p \<in># P. snd (Table_lookup_left t (fst p)) = Some (snd p) \<and>
                    snd (Table_lookup_right t (snd p)) = Some (fst p)) \<and>
         (\<forall>p \<in># P. \<exists>t'. Table_remove_left t (fst p) = Some t' \<and> table_pairs hash cmp t' (P - {#p#})) \<and>
         (\<forall>p \<in># P. \<exists>t'. Table_remove_right t (snd p) = Some t' \<and> table_pairs hash cmp t' (P - {#p#}))"
proof -
  have tk: "table_keys hash cmp" using k by (simp add: table_keys_def)
  have refl: "cmp x x = 0" for x by (rule hash_keys.cmp_refl [OF k])
  show ?thesis
  proof (intro conjI allI ballI)
    fix hl hr
    show "if \<exists>p \<in># P. cmp hl (fst p) = 0 \<or> cmp hr (snd p) = 0
            then Table_insert t hl hr = None
            else \<exists>t'. Table_insert t hl hr = Some t' \<and> table_pairs hash cmp t' (add_mset (hl, hr) P)"
      using table_keys.table_insert_ok [OF tk t] table_keys.table_insert_dup [OF tk t] by auto
  next
    fix p assume p: "p \<in># P"
    show "snd (Table_lookup_left t (fst p)) = Some (snd p)"
      using table_keys.lookup_left_ok(2) [OF tk t _ p] refl by (metis prod.collapse)
    show "snd (Table_lookup_right t (snd p)) = Some (fst p)"
      using table_keys.lookup_right_ok(2) [OF tk t _ p] refl by (metis prod.collapse)
    show "\<exists>t'. Table_remove_left t (fst p) = Some t' \<and> table_pairs hash cmp t' (P - {#p#})"
      by (rule table_keys.remove_left_ok [OF tk t p refl])
    show "\<exists>t'. Table_remove_right t (snd p) = Some t' \<and> table_pairs hash cmp t' (P - {#p#})"
      by (rule table_keys.remove_right_ok [OF tk t p refl])
  qed
qed

theorem Table_bijection_witness:
  "\<exists>t'. Table_insert (Table_new HashableHash_hash HashableHash_cmp) (HashableHash_new 1 0) (HashableHash_new 2 0)
       = Some t' \<and>
     table_pairs HashableHash_hash HashableHash_cmp t' {#(HashableHash_new 1 0, HashableHash_new 2 0)#}"
  using Table_bijection [OF hhash.hash_keys_axioms hhash.pairs_new] by auto

text \<open>The intersection and the difference of two object sets hold exactly the members of the
  first whose key is, or is not, in the second, and leave both sets as they were; the insertions
  into the set being built never meet a duplicate.\<close>

theorem Set_intersection_difference:
  assumes "hash_keys hash cmp" and "hash_keys.ready hash cmp s" and "hash_keys.ready hash cmp other"
  shows "\<exists>b1 o1 b2 o2. Set_intersection s other = Some (s, b1, o1) \<and> ht_mset b1 = ht_mset other \<and>
           Set_difference s other = Some (s, b2, o2) \<and> ht_mset b2 = ht_mset other \<and>
           ht_mset o1 = filter_mset (\<lambda>x. \<exists>y \<in># ht_mset other. cmp x y = 0) (ht_mset s) \<and>
           ht_mset o2 = filter_mset (\<lambda>x. \<forall>y \<in># ht_mset other. cmp x y \<noteq> 0) (ht_mset s)"
  using hash_keys.intersect_visit_every [OF assms, of False] hash_keys.intersect_visit_every [OF assms, of True]
  by (auto simp: Set_intersection_def Set_difference_def)

theorem Set_intersection_difference_witness:
  "\<exists>b1 o1. Set_intersection (Set_new HashableHash_hash HashableHash_cmp) (Set_new HashableHash_hash HashableHash_cmp)
     = Some (Set_new HashableHash_hash HashableHash_cmp, b1, o1) \<and> ht_mset o1 = {#}"
  using Set_intersection_difference [OF hhash.hash_keys_axioms, of "Set_new HashableHash_hash HashableHash_cmp"
      "Set_new HashableHash_hash HashableHash_cmp"]
    hhash.ready_init init_inv(2) [of HashableHash_hash HashableHash_cmp] by (auto simp: Set_new_def)

text \<open>The thread stack table is a finite map from thread handles to entries: an insert of a new
  handle updates the map and one of a handle in use aborts; a peek returns what the map holds; a
  removal returns the entry and forgets the handle, and aborts on an unknown handle.\<close>

theorem xst_refines_map:
  assumes "xst_rep ht m"
  shows "(case m (gs_thread_handle e) of
            None \<Rightarrow> \<exists>ht'. xst_insert ht e = Some ht' \<and> xst_rep ht' (m(gs_thread_handle e \<mapsto> e))
          | Some _ \<Rightarrow> xst_insert ht e = None) \<and>
         (\<exists>ht'. xst_peek ht k = (ht', m k) \<and> xst_rep ht' m) \<and>
         (case m k of
            None \<Rightarrow> xst_remove ht k = None
          | Some x \<Rightarrow> \<exists>ht'. xst_remove ht k = Some (ht', x) \<and> xst_rep ht' (m(k := None)))"
proof -
  have "\<exists>ht'. xst_peek ht k = (ht', m k) \<and> xst_rep ht' m"
    using xst_rep_lookup [OF assms, of "xst_key k"]
    by (cases "hash_table_lookup ht (xst_key k)") (auto simp: xst_peek_def xst_key_def)
  with xst_insert_rep [OF assms, of e] xst_remove_rep [OF assms, of k] show ?thesis by blast
qed

theorem xst_refines_map_witness:
  "\<exists>ht'. xst_insert xst_init \<lparr>gs_thread_handle = 99, stack_base = 4096, tid = 3\<rparr> = Some ht' \<and>
     xst_rep ht' [99 \<mapsto> \<lparr>gs_thread_handle = 99, stack_base = 4096, tid = 3\<rparr>]"
proof -
  have "xst_rep xst_init Map.empty"
    using xste.ready_init by (simp add: xst_rep_def xst_init_def init_inv(2))
  from xst_refines_map [OF this, of "\<lparr>gs_thread_handle = 99, stack_base = 4096, tid = 3\<rparr>" 0]
  show ?thesis by simp
qed

end
