(* ===== verification/TreeMath.thy ===== *)
theory TreeMath
  imports Prelude
begin

text \<open>
  The arithmetic of the Merkle trees of the file transfer protocol: the inline functions of
  \<open>src/common/zftp_module/zftp_protocol.h\<close>, \<open>src/common/zftp_module/tree_math.c\<close> and
  the integer logarithm of \<open>src/common/utils/lite_log2.c\<close>. A tree is stored level by level
  in an array; a location is a 32-bit index into it. All arithmetic is on words of the width the
  code uses, and the lemmas say where it does not wrap around.
\<close>

abbreviation ZFTP_LG_BLOCK_SIZE :: nat where
  "ZFTP_LG_BLOCK_SIZE \<equiv> 16"

abbreviation ZFTP_BLOCK_SIZE :: u32 where
  "ZFTP_BLOCK_SIZE \<equiv> 65536"

subsection \<open>Logarithm\<close>

definition log2_step :: "u32 \<times> u32 \<Rightarrow> nat \<Rightarrow> u32 \<times> u32" where
  "log2_step s bits =
     (case s of (val, logval) \<Rightarrow>
        let scale = 2 ^ bits
        in if push_bit scale 1 \<le> val then (drop_bit scale val, logval + of_nat scale) else (val, logval))"

definition lite_log2 :: "u32 \<Rightarrow> int" where
  "lite_log2 len = (case foldl log2_step (len, 0) [4, 3, 2, 1, 0] of (val, logval) \<Rightarrow> uint (logval + 1))"

subsection \<open>Files, blocks and trees\<close>

definition compute_num_blocks :: "u32 \<Rightarrow> u32" where
  "compute_num_blocks file_len = drop_bit ZFTP_LG_BLOCK_SIZE (file_len + ZFTP_BLOCK_SIZE - 1)"

function lg2_loop :: "u32 \<Rightarrow> u16 \<Rightarrow> u16" where
  "lg2_loop n r = (if n \<noteq> 0 then lg2_loop (drop_bit 1 n) (r + 1) else r)"
  by pat_completeness auto
termination
proof (relation "measure (\<lambda>(n, r). unat n)")
  fix n :: u32 assume "n \<noteq> 0"
  then show "((drop_bit 1 n, r + 1), n, r) \<in> measure (\<lambda>(n, r). unat n)" for r :: u16
    using unat_gt_0 [of n] by (simp add: unat_drop_bit)
qed simp

declare lg2_loop.simps [simp del]

definition lg2 :: "u32 \<Rightarrow> u16" where
  "lg2 n = lg2_loop n (- 1)"

definition compute_tree_depth :: "u32 \<Rightarrow> u16" where
  "compute_tree_depth num_blocks = (if num_blocks = 0 then 0 else lg2 (num_blocks - 1) + 1)"

definition compute_tree_size :: "nat \<Rightarrow> u32" where
  "compute_tree_size depth = push_bit (depth + 1) 1 - 1"

definition compute_tree_location :: "int \<Rightarrow> int \<Rightarrow> u32 option" where
  "compute_tree_location level col = do {
     lite_assert (col < 2 ^ nat level);
     Some (if level = 0 then 0 else compute_tree_size (nat (level - 1)) + word_of_int col)
   }"

definition tree_index :: "int \<Rightarrow> int \<Rightarrow> u32 \<Rightarrow> u32 option" where
  "tree_index level col tree_size = do {
     index \<leftarrow> compute_tree_location level col;
     lite_assert (index < tree_size);
     Some index
   }"

definition tree_unindex :: "u32 \<Rightarrow> (int \<times> int) option" where
  "tree_unindex location = do {
     let level = lite_log2 (location + 1) - 1;
     let col = sint ((location + 1) AND (push_bit (nat level) 1 - 1));
     lite_assert (0 \<le> col);
     Some (level, col)
   }"

definition left_child :: "u32 \<Rightarrow> u32" where
  "left_child location = push_bit 1 (location + 1) - 1"

definition right_child :: "u32 \<Rightarrow> u32" where
  "right_child location = left_child location + 1"

definition sibling_location :: "u32 \<Rightarrow> u32 option" where
  "sibling_location location = do {
     lite_assert (location \<noteq> 0);
     Some (((location + 1) XOR 1) - 1)
   }"

definition parent_location :: "u32 \<Rightarrow> u32" where
  "parent_location location = drop_bit 1 (location + 1) - 1"

subsection \<open>The logarithm is the position of the top bit\<close>

lemma unat_push_bit_1: "k < 32 \<Longrightarrow> unat (push_bit k (1 :: u32)) = 2 ^ k"
  using power_strict_increasing [of k 32 "2 :: nat"] by (subst unat_push_bit) simp_all

lemma unat_two_power: "k < 32 \<Longrightarrow> unat (2 ^ k :: u32) = 2 ^ k"
  using unat_push_bit_1 [of k] by (simp add: push_bit_of_1)

lemma log2_step_inv:
  assumes "unat val = unat len div 2 ^ unat lg" and "unat val < 2 ^ (2 * 2 ^ b)" and "0 < val"
    and "b \<le> 4" and "unat lg + 2 ^ b < 32"
    and "log2_step (val, lg) b = (val', lg')"
  shows "unat val' = unat len div 2 ^ unat lg' \<and> unat val' < 2 ^ (2 ^ b) \<and> 0 < val' \<and>
         unat lg' \<le> unat lg + 2 ^ b"
proof -
  have s: "(2 :: nat) ^ b < 32" using assms(5) by linarith
  have p: "unat (push_bit (2 ^ b) (1 :: u32)) = 2 ^ 2 ^ b" using s by (rule unat_push_bit_1)
  show ?thesis
  proof (cases "push_bit (2 ^ b) 1 \<le> val")
    case False
    with p have "unat val < 2 ^ 2 ^ b" by (simp add: word_nat)
    with False assms show ?thesis by (auto simp: log2_step_def Let_def)
  next
    case True
    with p have ge: "2 ^ 2 ^ b \<le> unat val" by (simp add: word_nat)
    have v: "unat (drop_bit (2 ^ b) val) = unat val div 2 ^ 2 ^ b"
      by (rule unat_drop_bit)
    have "unat (2 ^ b :: u32) = 2 ^ b" using assms(4) by (intro unat_two_power) simp
    then have l: "unat (lg + of_nat (2 ^ b)) = unat lg + 2 ^ b"
      using assms(5) by (subst unat_add_small) simp_all
    have "unat val div 2 ^ 2 ^ b < 2 ^ 2 ^ b"
      using assms(2) by (intro less_mult_imp_div_less) (simp only: mult_2 power_add)
    moreover have "0 < unat val div 2 ^ 2 ^ b" using ge by (simp add: div_greater_zero_iff)
    ultimately have "unat (drop_bit (2 ^ b) val) < 2 ^ 2 ^ b" "0 < drop_bit (2 ^ b) val"
      using v by (simp_all add: word_nat)
    moreover have "unat val div 2 ^ 2 ^ b = unat len div 2 ^ (unat lg + 2 ^ b)"
      using assms(1) by (simp add: div_mult2_eq power_add)
    moreover have "val' = drop_bit (2 ^ b) val" "lg' = lg + of_nat (2 ^ b)"
      using True assms(6) by (auto simp: log2_step_def Let_def)
    ultimately show ?thesis using v l by simp
  qed
qed

lemma lite_log2_top_bit:
  assumes "0 < len"
  shows "1 \<le> lite_log2 len \<and> lite_log2 len \<le> 32 \<and>
         2 ^ nat (lite_log2 len - 1) \<le> unat len \<and> unat len < 2 ^ nat (lite_log2 len)"
proof -
  obtain v1 l1 where s1: "log2_step (len, 0) 4 = (v1, l1)" by fastforce
  obtain v2 l2 where s2: "log2_step (v1, l1) 3 = (v2, l2)" by fastforce
  obtain v3 l3 where s3: "log2_step (v2, l2) 2 = (v3, l3)" by fastforce
  obtain v4 l4 where s4: "log2_step (v3, l3) 1 = (v4, l4)" by fastforce
  obtain v5 l5 where s5: "log2_step (v4, l4) 0 = (v5, l5)" by fastforce
  have r: "lite_log2 len = uint (l5 + 1)" by (simp add: lite_log2_def s1 s2 s3 s4 [unfolded One_nat_def] s5)
  have "unat len < 2 ^ 32" using unsigned_less [of len] by simp
  note i1 = log2_step_inv [of len len 0 4, OF _ _ assms _ _ s1, simplified, OF this [simplified]]
  then have i1': "unat v1 = unat len div 2 ^ unat l1" "unat v1 < 2 ^ (2 * 2 ^ 3)" "0 < v1" "unat l1 \<le> 16" by auto
  note i2 = log2_step_inv [OF i1'(1,2,3) _ _ s2, simplified]
  have i2': "unat v2 = unat len div 2 ^ unat l2" "unat v2 < 2 ^ (2 * 2 ^ 2)" "0 < v2" "unat l2 \<le> 24"
    using i2 i1'(4) by auto
  note i3 = log2_step_inv [OF i2'(1,2,3) _ _ s3, simplified]
  have i3': "unat v3 = unat len div 2 ^ unat l3" "unat v3 < 2 ^ (2 * 2 ^ 1)" "0 < v3" "unat l3 \<le> 28"
    using i3 i2'(4) by auto
  note i4 = log2_step_inv [OF i3'(1,2,3) _ _ s4, simplified]
  have i4': "unat v4 = unat len div 2 ^ unat l4" "unat v4 < 2 ^ (2 * 2 ^ 0)" "0 < v4" "unat l4 \<le> 30"
    using i4 i3'(4) by auto
  note i5 = log2_step_inv [OF i4'(1,2,3) _ _ s5, simplified]
  have i5': "unat v5 = unat len div 2 ^ unat l5" "unat v5 < 2" "0 < v5" "unat l5 \<le> 31"
    using i5 i4'(4) by auto
  from i5'(3) have "0 < unat v5" by (simp add: word_nat)
  with i5'(1,2) have one: "unat len div 2 ^ unat l5 = 1" by simp
  have u: "unat (l5 + 1) = unat l5 + 1" using i5'(4) by (subst unat_add_small) simp_all
  have "uint (l5 + 1) = int (unat (l5 + 1))" by simp
  with r u have k: "lite_log2 len = int (unat l5) + 1" by (simp only: of_nat_add of_nat_1)
  have "unat len = 2 ^ unat l5 + unat len mod 2 ^ unat l5" "unat len mod 2 ^ unat l5 < 2 ^ unat l5"
    using one mult_div_mod_eq [of "2 ^ unat l5" "unat len"] by simp_all
  then have "2 ^ unat l5 \<le> unat len" "unat len < 2 ^ Suc (unat l5)" unfolding power_Suc by linarith+
  with k i5'(4) show ?thesis by (simp add: nat_add_distrib del: of_nat_unat)
qed

lemma top_bit_unique:
  fixes a b n :: nat
  assumes "2 ^ a \<le> n" and "n < 2 ^ Suc a" and "2 ^ b \<le> n" and "n < 2 ^ Suc b"
  shows "a = b"
proof -
  have "(2 :: nat) ^ a < 2 ^ Suc b" "(2 :: nat) ^ b < 2 ^ Suc a" using assms by linarith+
  then have "a < Suc b" "b < Suc a" by (simp_all only: power_strict_increasing_iff)
  then show ?thesis by simp
qed

lemma lite_log2_eq:
  assumes "2 ^ k \<le> unat len" and "unat len < 2 ^ Suc k"
  shows "lite_log2 len = int k + 1"
proof -
  have "0 < unat len" using assms(1) by (simp add: order_less_le_trans [of 0 "2 ^ k"])
  then have "0 < len" by (simp add: word_nat)
  note l = lite_log2_top_bit [OF this]
  define j where "j = nat (lite_log2 len - 1)"
  with l have j: "lite_log2 len = int j + 1" by simp
  with l have "2 ^ j \<le> unat len" "unat len < 2 ^ Suc j" by (simp_all add: nat_add_distrib)
  with assms j top_bit_unique [of k "unat len" j] show ?thesis by simp
qed

subsection \<open>Locations, levels and columns\<close>

lemma location_nat:
  assumes "l \<le> 31" and "c < 2 ^ l"
  shows "\<exists>loc. compute_tree_location (int l) (int c) = Some loc \<and> unat loc + 1 = 2 ^ l + c"
proof (cases l)
  case 0
  with assms show ?thesis by (simp add: compute_tree_location_def)
next
  case (Suc k)
  have p: "(2 :: nat) ^ l \<le> 2 ^ 31" using assms(1) by (intro power_increasing) simp_all
  have m: "unat (compute_tree_size k) = 2 ^ l - 1"
    using unat_push_bit_1 [of "k + 1"] assms(1) Suc unfolding compute_tree_size_def
    by (subst unat_sub_le) (simp_all only: unat_1 Suc_eq_plus1 one_le_numeral one_le_power)
  have c: "unat (word_of_int (int c) :: u32) = c"
    using assms(2) p by (simp add: unat_of_nat take_bit_nat_eq_self)
  have "unat (compute_tree_size k + word_of_int (int c)) = 2 ^ l - 1 + c"
    using m c assms(2) p by (subst unat_add_small) simp_all
  moreover have "int c < 2 ^ nat (int l)" using assms(2) by simp
  moreover have "int l \<noteq> 0" "nat (int l - 1) = k" using Suc by simp_all
  ultimately show ?thesis
    using assms(2) by (auto simp: compute_tree_location_def simp del: nat_int)
qed

lemma unindex_nat:
  assumes "unat loc + 1 = 2 ^ l + c" and "c < 2 ^ l" and "loc \<noteq> - 1"
  shows "tree_unindex loc = Some (int l, int c)"
proof -
  have n: "unat (loc + 1) = unat loc + 1"
    using assms(3) by (metis Suc_eq_plus1 add.commute add_eq_0_iff unatSuc)
  then have lg: "lite_log2 (loc + 1) = int l + 1" using assms(1,2) by (intro lite_log2_eq) simp_all
  have "2 ^ l < (2 :: nat) ^ 32" using n assms(1) unat_less_exp [of "loc + 1"] by simp
  then have l: "l < 32" by (simp only: power_strict_increasing_iff)
  have "(loc + 1) AND (push_bit l 1 - 1) = take_bit l (loc + 1)"
    by (simp add: take_bit_eq_mask mask_eq_exp_minus_1 push_bit_of_1)
  moreover have "unat (take_bit l (loc + 1)) = c"
    using n assms(1,2) by (subst unsigned_take_bit_eq) (simp add: take_bit_eq_mod)
  moreover have "c < 2 ^ 31" using assms(2) l power_increasing [of l 31 "2 :: nat"] by simp
  ultimately have "sint ((loc + 1) AND (push_bit l 1 - 1)) = int c" using sint_small_u32 by metis
  then show ?thesis using lg by (simp add: tree_unindex_def Let_def)
qed

lemma location_decompose:
  assumes "loc \<noteq> (- 1 :: u32)"
  obtains l c where "unat loc + 1 = 2 ^ l + c" and "c < 2 ^ l" and "l \<le> 31"
proof -
  have n: "unat (loc + 1) = unat loc + 1"
    using assms by (metis Suc_eq_plus1 add.commute add_eq_0_iff unatSuc)
  then have "0 < loc + 1" by (simp add: word_nat)
  note t = lite_log2_top_bit [OF this]
  define l where "l = nat (lite_log2 (loc + 1) - 1)"
  with t have e: "lite_log2 (loc + 1) = int l + 1" "l \<le> 31" by auto
  with t n have "2 ^ l \<le> unat loc + 1" "unat loc + 1 < 2 * 2 ^ l" by (simp_all add: nat_add_distrib)
  with e(2) show ?thesis by (intro that [of l "unat loc + 1 - 2 ^ l"]) simp_all
qed

lemma left_child_nat: "unat loc < 2 ^ 31 - 1 \<Longrightarrow> unat (left_child loc) = 2 * unat loc + 1"
proof -
  assume a: "unat loc < 2 ^ 31 - 1"
  then have n: "unat (loc + 1) = unat loc + 1" by (subst unat_add_small) simp_all
  with a have "unat (push_bit 1 (loc + 1)) = (unat loc + 1) * 2" by (subst unat_push_bit) simp_all
  then show ?thesis unfolding left_child_def by (subst unat_sub_le) simp_all
qed

lemma right_child_nat: "unat loc < 2 ^ 31 - 1 \<Longrightarrow> unat (right_child loc) = 2 * unat loc + 2"
  using left_child_nat [of loc] unfolding right_child_def by (subst unat_add_small) simp_all

lemma parent_location_nat:
  assumes "loc \<noteq> 0" and "loc \<noteq> - 1"
  shows "unat (parent_location loc) = (unat loc - 1) div 2"
proof -
  have n: "unat (loc + 1) = unat loc + 1"
    using assms(2) by (metis Suc_eq_plus1 add.commute add_eq_0_iff unatSuc)
  have "0 < unat loc" using assms(1) by (simp add: unat_gt_0)
  then have "1 \<le> (unat loc + 1) div 2" "(unat loc + 1) div 2 - 1 = (unat loc - 1) div 2" by presburger+
  then show ?thesis
    unfolding parent_location_def by (subst unat_sub_le) (simp_all add: unat_drop_bit n)
qed

lemma sibling_location_nat:
  assumes "loc \<noteq> 0" and "loc \<noteq> - 1"
  shows "\<exists>s. sibling_location loc = Some s \<and> unat s = (if even (unat loc) then unat loc - 1 else unat loc + 1)"
proof -
  have n: "unat (loc + 1) = unat loc + 1"
    using assms(2) by (metis Suc_eq_plus1 add.commute add_eq_0_iff unatSuc)
  have g: "0 < unat loc" using assms(1) by (simp add: unat_gt_0)
  have x: "unat ((loc + 1) XOR 1) = (if even (unat loc) then unat loc else unat loc + 2)"
    using n by (simp add: unsigned_xor_eq nat_xor_1 [simplified])
  then have "unat (((loc + 1) XOR 1) - 1) = (if even (unat loc) then unat loc - 1 else unat loc + 1)"
    using g by (subst unat_sub_le) auto
  with assms(1) show ?thesis by (simp add: sibling_location_def)
qed

subsection \<open>Blocks and depth\<close>

lemma lg2_loop_bits:
  "\<exists>k \<le> 32. unat n < 2 ^ k \<and> (0 < k \<longrightarrow> 2 ^ (k - 1) \<le> unat n) \<and> lg2_loop n r = r + of_nat k"
proof -
  have "\<exists>k. unat n < 2 ^ k \<and> (0 < k \<longrightarrow> 2 ^ (k - 1) \<le> unat n) \<and> lg2_loop n r = r + of_nat k"
  proof (induction n r rule: lg2_loop.induct)
    case (1 n r)
    show ?case
    proof (cases "n = 0")
      case True
      then show ?thesis by (intro exI [of _ 0]) (simp add: lg2_loop.simps)
    next
      case False
      from "1.IH" [OF False] obtain k where k: "unat n div 2 < 2 ^ k"
        "0 < k \<longrightarrow> 2 ^ (k - 1) \<le> unat n div 2" "lg2_loop (drop_bit 1 n) (r + 1) = r + 1 + of_nat k"
        by (auto simp: unat_drop_bit)
      have "0 < unat n" using False by (simp add: unat_gt_0)
      then have "2 ^ k \<le> unat n" using k(2) by (cases k) auto
      moreover have "unat n < 2 ^ Suc k" using k(1) by simp
      moreover have "lg2_loop n r = r + of_nat (Suc k)"
        using False k(3) by (subst lg2_loop.simps) (simp add: algebra_simps)
      ultimately show ?thesis by (intro exI [of _ "Suc k"]) simp
    qed
  qed
  then obtain k where k: "unat n < 2 ^ k" "0 < k \<longrightarrow> 2 ^ (k - 1) \<le> unat n" "lg2_loop n r = r + of_nat k"
    by blast
  have "k \<le> 32"
  proof (rule ccontr)
    assume "\<not> k \<le> 32"
    then have "(2 :: nat) ^ 32 \<le> 2 ^ (k - 1)" by (intro power_increasing) simp_all
    with k(2) \<open>\<not> k \<le> 32\<close> unat_less_exp [of n] show False by simp
  qed
  with k show ?thesis by blast
qed

lemma depth_least:
  assumes n0: "n \<noteq> 0"
  shows "unat n \<le> 2 ^ unat (compute_tree_depth n)" and "unat n \<le> 2 ^ d' \<Longrightarrow> unat (compute_tree_depth n) \<le> d'"
proof -
  have pos: "0 < unat n" using n0 by (simp add: unat_gt_0)
  then have m: "unat (n - 1) = unat n - 1" by (subst unat_sub_le) simp_all
  obtain k where k: "k \<le> 32" "unat (n - 1) < 2 ^ k" "0 < k \<longrightarrow> 2 ^ (k - 1) \<le> unat (n - 1)"
    "lg2_loop (n - 1) (- 1) = - 1 + of_nat k" using lg2_loop_bits [of "n - 1" "- 1"] by blast
  from k(4) n0 have "compute_tree_depth n = of_nat k" by (simp add: compute_tree_depth_def lg2_def)
  with k(1) have d: "unat (compute_tree_depth n) = k" by (simp add: unat_of_nat take_bit_nat_eq_self)
  with k(2) m show "unat n \<le> 2 ^ unat (compute_tree_depth n)" by simp
  assume le: "unat n \<le> 2 ^ d'"
  show "unat (compute_tree_depth n) \<le> d'"
  proof (cases k)
    case (Suc j)
    with k(3) m have "2 ^ j \<le> unat n - 1" by simp
    with pos le have "(2 :: nat) ^ j < 2 ^ d'" by linarith
    then have "j < d'" by (simp only: power_strict_increasing_iff)
    with Suc d show ?thesis by simp
  qed (simp add: d)
qed

lemma compute_num_blocks_nat:
  assumes "unat len \<le> 2 ^ 32 - 2 ^ 16"
  shows "unat (compute_num_blocks len) = (unat len + 65535) div 65536"
proof -
  have "unat (len + ZFTP_BLOCK_SIZE - 1) = unat len + 65535"
  proof -
    have "len + ZFTP_BLOCK_SIZE - 1 = len + 65535" by simp
    then show ?thesis using assms by (simp only:) (subst unat_add_small; simp)
  qed
  then show ?thesis by (simp add: compute_num_blocks_def unat_drop_bit)
qed

subsection \<open>Properties\<close>

text \<open>Levels and columns number the nodes of a tree without gap or overlap: every location but
  the last 32-bit value unindexes to a level of at most 31 and a column of that level, and the
  location computed for that level and column is the one started from.\<close>

theorem tree_location_roundtrip:
  assumes "loc \<noteq> - 1"
  shows "\<exists>l c. tree_unindex loc = Some (int l, int c) \<and> l \<le> 31 \<and> c < 2 ^ l \<and>
           compute_tree_location (int l) (int c) = Some loc"
proof -
  from assms obtain l c where d: "unat loc + 1 = 2 ^ l + c" "c < 2 ^ l" "l \<le> 31"
    by (rule location_decompose)
  from location_nat [OF d(3,2)] obtain loc' where
    "compute_tree_location (int l) (int c) = Some loc'" "unat loc' + 1 = 2 ^ l + c" by auto
  with d(1) have "compute_tree_location (int l) (int c) = Some loc" by (simp add: unat_eq_iff)
  with d unindex_nat [OF d(1,2) assms] show ?thesis by blast
qed

theorem tree_location_roundtrip_witness:
  "\<exists>l c. tree_unindex 12 = Some (int l, int c) \<and> c < 2 ^ l \<and> compute_tree_location (int l) (int c) = Some 12"
  using tree_location_roundtrip [of 12] by auto

text \<open>Navigation agrees with levels and columns: the children of the node at column c are at
  columns 2c and 2c+1 of the next level, they are each other's siblings, and the node is the parent
  of both, for every node whose children have a 32-bit location.\<close>

theorem tree_navigation:
  assumes "unat loc < 2 ^ 31 - 1" and "tree_unindex loc = Some (int l, int c)" and "c < 2 ^ l"
  shows "tree_unindex (left_child loc) = Some (int l + 1, 2 * int c) \<and>
         tree_unindex (right_child loc) = Some (int l + 1, 2 * int c + 1) \<and>
         parent_location (left_child loc) = loc \<and> parent_location (right_child loc) = loc \<and>
         sibling_location (left_child loc) = Some (right_child loc) \<and>
         sibling_location (right_child loc) = Some (left_child loc)"
proof -
  have ne: "loc \<noteq> - 1" using assms(1) by auto
  then obtain l' c' where d: "unat loc + 1 = 2 ^ l' + c'" "c' < 2 ^ l'" "l' \<le> 31" by (rule location_decompose)
  from unindex_nat [OF d(1,2) ne] assms(2) have e: "l' = l" "c' = c" by simp_all
  note L = left_child_nat [OF assms(1)] and R = right_child_nat [OF assms(1)]
  have n: "left_child loc \<noteq> 0" "right_child loc \<noteq> 0" "left_child loc \<noteq> - 1" "right_child loc \<noteq> - 1"
    using L R assms(1) by auto
  have "tree_unindex (left_child loc) = Some (int (Suc l), int (2 * c))"
    using L d e by (intro unindex_nat n) simp_all
  moreover have "tree_unindex (right_child loc) = Some (int (Suc l), int (2 * c + 1))"
    using R d e by (intro unindex_nat n) simp_all
  moreover have "parent_location (left_child loc) = loc" "parent_location (right_child loc) = loc"
    using parent_location_nat [OF n(1,3)] parent_location_nat [OF n(2,4)] L R by (simp_all add: unat_eq_iff)
  moreover have "sibling_location (left_child loc) = Some (right_child loc)"
    "sibling_location (right_child loc) = Some (left_child loc)"
    using sibling_location_nat [OF n(1,3)] sibling_location_nat [OF n(2,4)] L R by (auto simp: unat_eq_iff)
  ultimately show ?thesis by (simp add: algebra_simps)
qed

theorem tree_navigation_witness:
  "tree_unindex (left_child 4) = Some (3, 2) \<and> parent_location (right_child 4) = 4 \<and>
   sibling_location (left_child 4) = Some (right_child 4)"
  using tree_navigation [of 4 2 1] unindex_nat [of 4 2 1] by simp

text \<open>The tree depth computed for a file is the least depth whose bottom level has a leaf for
  every block, and for files of at most 2^32 - 2^16 bytes the number of blocks is the file length
  divided by the block size, rounded up.\<close>

theorem compute_tree_depth_least:
  assumes "unat file_len \<le> 2 ^ 32 - 2 ^ 16" and "file_len \<noteq> 0"
  shows "let n = compute_num_blocks file_len; d = unat (compute_tree_depth n)
         in unat file_len \<le> unat n * 65536 \<and> (unat n - 1) * 65536 < unat file_len \<and>
            unat n \<le> 2 ^ d \<and> (\<forall>d'. unat n \<le> 2 ^ d' \<longrightarrow> d \<le> d')"
proof -
  let ?n = "compute_num_blocks file_len"
  have g: "0 < unat file_len" using assms(2) by (simp add: unat_gt_0)
  have b: "unat ?n = (unat file_len + 65535) div 65536" by (rule compute_num_blocks_nat [OF assms(1)])
  have n: "unat file_len \<le> unat ?n * 65536" "(unat ?n - 1) * 65536 < unat file_len" "0 < unat ?n"
    using g by (simp_all only: b)
  then have "?n \<noteq> 0" by auto
  from depth_least [OF this] n show ?thesis by (simp add: Let_def)
qed

theorem compute_tree_depth_least_witness:
  "let n = compute_num_blocks 200000; d = unat (compute_tree_depth n)
   in 200000 \<le> unat n * 65536 \<and> unat n \<le> 2 ^ d"
  using compute_tree_depth_least [of 200000] by (simp add: Let_def)

end
