(* ===== verification/NetOrder.thy ===== *)
theory NetOrder
  imports Prelude
begin

text \<open>
  Byte order conversions of \<open>src/common/utils/zoog_network_order.h\<close> for a little-endian host, and
  the bytes of an integer in memory.
\<close>

definition z_htonw :: "u64 \<Rightarrow> u64" where
  "z_htonw input =
     push_bit 56 (input AND 0x00000000000000ff) OR push_bit 40 (input AND 0x000000000000ff00) OR
     push_bit 24 (input AND 0x0000000000ff0000) OR push_bit 8 (input AND 0x00000000ff000000) OR
     drop_bit 8 (input AND 0x000000ff00000000) OR drop_bit 24 (input AND 0x0000ff0000000000) OR
     drop_bit 40 (input AND 0x00ff000000000000) OR drop_bit 56 (input AND 0xff00000000000000)"

definition z_ntohw :: "u64 \<Rightarrow> u64" where
  "z_ntohw input = z_htonw input"

definition z_htonl :: "u32 \<Rightarrow> u32" where
  "z_htonl input =
     push_bit 24 input OR push_bit 8 (input AND 0xff00) OR drop_bit 8 (input AND 0xff0000) OR drop_bit 24 input"

definition z_ntohl :: "u32 \<Rightarrow> u32" where
  "z_ntohl input = z_htonl input"

definition z_htons :: "u16 \<Rightarrow> u16" where
  "z_htons input = push_bit 8 input OR drop_bit 8 input"

definition z_ntohs :: "u16 \<Rightarrow> u16" where
  "z_ntohs input = z_htons input"

definition z_ntohg :: "u32 \<Rightarrow> nat \<Rightarrow> u32 option" where
  "z_ntohg input sz =
     (if sz = 4 then Some (z_ntohl input)
      else if sz = 2 then Some (ucast (z_ntohs (ucast input)))
      else if sz = 1 then Some input
      else None)"

text \<open>Memory order: the least significant byte first.\<close>

definition bytes_of_u16 :: "u16 \<Rightarrow> bytes" where
  "bytes_of_u16 w = map (\<lambda>i. ucast (drop_bit (8 * i) w)) [0..<2]"

definition bytes_of_u32 :: "u32 \<Rightarrow> bytes" where
  "bytes_of_u32 w = map (\<lambda>i. ucast (drop_bit (8 * i) w)) [0..<4]"

lemma bytes_of_simps:
  "bytes_of_u16 w = [ucast w, ucast (drop_bit 8 w)]"
  "bytes_of_u32 v = [ucast v, ucast (drop_bit 8 v), ucast (drop_bit 16 v), ucast (drop_bit 24 v)]"
  by (simp_all add: bytes_of_u16_def bytes_of_u32_def upt_rec)

lemma less_cases_8:
  "n < 8 \<Longrightarrow> P 0 \<Longrightarrow> P 1 \<Longrightarrow> P 2 \<Longrightarrow> P 3 \<Longrightarrow> P 4 \<Longrightarrow> P 5 \<Longrightarrow> P 6 \<Longrightarrow> P 7 \<Longrightarrow> P (n :: nat)"
  by (simp add: less_Suc_eq numeral_eq_Suc) blast

lemma less_cases_32: "n < 32 \<Longrightarrow> P 0 \<Longrightarrow> P 1 \<Longrightarrow> P 2 \<Longrightarrow> P 3 \<Longrightarrow> P 4 \<Longrightarrow> P 5 \<Longrightarrow> P 6 \<Longrightarrow> P 7 \<Longrightarrow>
  P 8 \<Longrightarrow> P 9 \<Longrightarrow> P 10 \<Longrightarrow> P 11 \<Longrightarrow> P 12 \<Longrightarrow> P 13 \<Longrightarrow> P 14 \<Longrightarrow> P 15 \<Longrightarrow>
  P 16 \<Longrightarrow> P 17 \<Longrightarrow> P 18 \<Longrightarrow> P 19 \<Longrightarrow> P 20 \<Longrightarrow> P 21 \<Longrightarrow> P 22 \<Longrightarrow> P 23 \<Longrightarrow>
  P 24 \<Longrightarrow> P 25 \<Longrightarrow> P 26 \<Longrightarrow> P 27 \<Longrightarrow> P 28 \<Longrightarrow> P 29 \<Longrightarrow> P 30 \<Longrightarrow> P 31 \<Longrightarrow> P (n :: nat)"
  by (simp add: less_Suc_eq numeral_eq_Suc) blast

lemma not_bit_32: "32 \<le> k \<Longrightarrow> \<not> bit (w :: u32) k"
  using bit_imp_le_length [of w k] by auto

lemma not_bit_16: "16 \<le> k \<Longrightarrow> \<not> bit (w :: u16) k"
  using bit_imp_le_length [of w k] by auto

lemma not_bit_64: "64 \<le> k \<Longrightarrow> \<not> bit (w :: u64) k"
  using bit_imp_le_length [of w k] by auto

lemma z_htonl_involution [simp]: "z_htonl (z_htonl w) = w"
proof (rule bit_word_eqI)
  fix n assume "n < LENGTH(32)"
  then have "n < 32" by simp
  then show "bit (z_htonl (z_htonl w)) n = bit w n"
    by (rule less_cases_32) (simp_all add: z_htonl_def bit_simps not_bit_32)
qed

lemma z_htons_involution [simp]: "z_htons (z_htons w) = w"
proof (rule bit_word_eqI)
  fix n assume "n < LENGTH(16)"
  then have "n < 32" by simp
  then show "bit (z_htons (z_htons w)) n = bit w n"
    by (rule less_cases_32) (simp_all add: z_htons_def bit_simps not_bit_16)
qed

text \<open>Bit \<open>n\<close> comes from the same bit of the opposite byte.\<close>

lemma bit_z_htonw:
  assumes "n < 64"
  shows "bit (z_htonw w) n = bit w (56 - 8 * (n div 8) + n mod 8)"
proof -
  have "n < 32 \<or> (n = 32 + (n - 32) \<and> n - 32 < 32)" using assms by linarith
  then consider (lo) "n < 32" | (hi) m where "n = 32 + m" "m < 32" by blast
  then show ?thesis
  proof cases
    case lo
    then show ?thesis by (rule less_cases_32) (simp_all add: z_htonw_def bit_simps not_bit_64 flip: numeral_2_eq_2)
  next
    case hi
    from hi(2) have "bit (z_htonw w) (32 + m) = bit w (56 - 8 * ((32 + m) div 8) + (32 + m) mod 8)"
      by (rule less_cases_32) (simp_all add: z_htonw_def bit_simps not_bit_64 flip: numeral_2_eq_2)
    with hi(1) show ?thesis by simp
  qed
qed

lemma z_htonw_involution [simp]: "z_htonw (z_htonw w) = w"
proof (rule bit_word_eqI)
  fix n assume "n < LENGTH(64)"
  then have n: "n div 8 < 8" "n mod 8 < 8" and eq: "8 * (n div 8) + n mod 8 = n" and lt: "n < 64" by simp_all
  define q r where "q = n div 8" and "r = n mod 8"
  with n eq have qr: "q < 8" "r < 8" "n = 8 * q + r" by auto
  have f: "56 - 8 * (n div 8) + n mod 8 = 8 * (7 - q) + r"
    unfolding q_def [symmetric] r_def [symmetric] by (simp add: diff_mult_distrib2)
  have lt': "8 * (7 - q) + r < 64" using qr by linarith
  have "bit (z_htonw (z_htonw w)) n = bit (z_htonw w) (8 * (7 - q) + r)" using bit_z_htonw [OF lt] f by simp
  also have "\<dots> = bit w (8 * (7 - (7 - q)) + r)"
  proof -
    have "(8 * (7 - q) + r) div 8 = 7 - q" "(8 * (7 - q) + r) mod 8 = r" using qr(2) by simp_all
    with bit_z_htonw [OF lt', of w] show ?thesis by (simp only: diff_mult_distrib2) simp
  qed
  also have "7 - (7 - q) = q" using qr(1) by simp
  finally show "bit (z_htonw (z_htonw w)) n = bit w n" using qr(3) by simp
qed

subsection \<open>Properties\<close>

text \<open>Converting to network order and back is the identity at 16, 32 and 64 bits, and the bytes
  of a converted integer lie in memory most significant first.\<close>

theorem network_order_roundtrip:
  "z_ntohs (z_htons s) = s \<and> z_ntohl (z_htonl l) = l \<and> z_ntohw (z_htonw w) = w \<and>
   bytes_of_u16 (z_htons s) = rev (bytes_of_u16 s) \<and> bytes_of_u32 (z_htonl l) = rev (bytes_of_u32 l)"
proof -
  have "bytes_of_u16 (z_htons s) = rev (bytes_of_u16 s)"
    by (auto simp: bytes_of_simps z_htons_def intro!: bit_word_eqI simp: bit_simps not_bit_16)
  moreover have "bytes_of_u32 (z_htonl l) = rev (bytes_of_u32 l)"
  proof -
    have "ucast (z_htonl l) = (ucast (drop_bit 24 l) :: u8)" "ucast (drop_bit 8 (z_htonl l)) = (ucast (drop_bit 16 l) :: u8)"
      "ucast (drop_bit 16 (z_htonl l)) = (ucast (drop_bit 8 l) :: u8)" "ucast (drop_bit 24 (z_htonl l)) = (ucast l :: u8)"
      by (rule bit_word_eqI, simp, erule less_cases_8; simp add: z_htonl_def bit_simps not_bit_32)+
    then show ?thesis by (simp add: bytes_of_simps)
  qed
  ultimately show ?thesis by (simp add: z_ntohs_def z_ntohl_def z_ntohw_def)
qed

end
