(* ===== verification/Merkle.thy ===== *)
theory Merkle
  imports HashClients TreeMath NetOrder
begin

text \<open>
  The Merkle tree of a cached file, \<open>src/common/zftp_module/ZCachedFile.cpp\<close> (lines 24-63, 88-160,
  618-660, 773-912 and 954-991) and \<open>ValidatedMerkleRecord\<close>: how metadata and tree hashes received
  from a server are installed and validated. The tree is an array of records; a pointer to a
  record of the tree is its location, so the table of parents that await validation is a hash
  table of locations. The hash function is a parameter \<open>zhash\<close>; log messages are left out.
\<close>

subsection \<open>Data\<close>

datatype ValidityState = v_unknown | v_tentative | v_validated | v_margin

record ValidatedMerkleRecord =
  vmr_location :: u32
  vmr_hash :: hash_t
  vmr_state :: ValidityState

record ZFTPFileMetadata =
  file_len_network_order :: u32
  md_flags :: u32

text \<open>A record of a reply, its location already in host order.\<close>

record ZFTPMerkleRecord =
  tree_location :: u32
  mr_hash :: hash_t

record ZCachedFile =
  file_hash :: hash_t
  metadata :: ZFTPFileMetadata
  metadata_state :: ValidityState
  file_len :: u32
  num_blocks :: u32
  tree_depth :: u16
  tree_size :: u32
  tree :: "ValidatedMerkleRecord list"
  parents_of_tentative_nodes :: "u32 HashTable"

datatype InstallResult = FAIL | NO_EFFECT | NEW_DATA

definition vmr_cmp :: "u32 \<Rightarrow> u32 \<Rightarrow> int" where
  "vmr_cmp a b = sint (a - b)"

definition vmr_key_hash :: "u32 \<Rightarrow> u32" where
  "vmr_key_hash a = a"

text \<open>The constructor; the fields that are derived from the metadata are left as the memory holds them.\<close>

definition ZCachedFile_new :: "ZCachedFile \<Rightarrow> hash_t \<Rightarrow> ZCachedFile" where
  "ZCachedFile_new raw h =
     raw\<lparr>file_hash := h, metadata := \<lparr>file_len_network_order = 0, md_flags = 0\<rparr>, metadata_state := v_unknown,
         tree := [], parents_of_tentative_nodes := hash_table_init vmr_key_hash vmr_cmp\<rparr>"

subsection \<open>Installing hashes\<close>

definition hash_children :: "(bytes \<Rightarrow> hash_t) \<Rightarrow> ZCachedFile \<Rightarrow> u32 \<Rightarrow> u32 \<Rightarrow> hash_t option" where
  "hash_children zhash zf ca cb = do {
     let left_sib = (if ca < cb then ca else cb);
     let right_sib = (if ca < cb then cb else ca);
     lite_assert (left_sib AND 1 = 1);
     lite_assert (left_sib + 1 = right_sib);
     l \<leftarrow> rd (tree zf) (unat left_sib);
     r \<leftarrow> rd (tree zf) (unat right_sib);
     Some (zhash (hash_bytes (vmr_hash l) @ hash_bytes (vmr_hash r)))
   }"

definition track_parent_of_tentative_nodes :: "ZCachedFile \<Rightarrow> u32 \<Rightarrow> ZCachedFile option" where
  "track_parent_of_tentative_nodes zf parent = do {
     l \<leftarrow> rd (tree zf) (unat (left_child parent));
     if vmr_state l = v_unknown then Some zf
     else do {
       r \<leftarrow> rd (tree zf) (unat (right_child parent));
       if vmr_state r = v_unknown then Some zf
       else do {
         ht \<leftarrow> hash_table_union (parents_of_tentative_nodes zf) parent;
         Some (zf\<lparr>parents_of_tentative_nodes := ht\<rparr>)
       }
     }
   }"

partial_function (option) mark_node_tentative ::
    "(bytes \<Rightarrow> hash_t) \<Rightarrow> ZCachedFile \<Rightarrow> u32 \<Rightarrow> ZCachedFile option" where
  "mark_node_tentative zhash zf location = do {
     vmr \<leftarrow> rd (tree zf) (unat location);
     lite_assert (vmr_state vmr \<noteq> v_validated);
     let zf1 = zf\<lparr>tree := (tree zf)[unat location := vmr\<lparr>vmr_state := v_tentative\<rparr>]\<rparr>;
     if 0 < location then do {
       let parent_loc = parent_location location;
       zf2 \<leftarrow> track_parent_of_tentative_nodes zf1 parent_loc;
       sibling_loc \<leftarrow> sibling_location location;
       parent \<leftarrow> rd (tree zf2) (unat parent_loc);
       sibling \<leftarrow> rd (tree zf2) (unat sibling_loc);
       if vmr_state parent = v_unknown \<and> vmr_state sibling \<noteq> v_unknown then do {
         h \<leftarrow> hash_children zhash zf2 location sibling_loc;
         mark_node_tentative zhash
           (zf2\<lparr>tree := (tree zf2)[unat parent_loc := parent\<lparr>vmr_hash := h\<rparr>]\<rparr>) parent_loc
       } else Some zf2
     } else do {
       root \<leftarrow> rd (tree zf1) 0;
       lite_assert (vmr_state root = v_validated);
       Some zf1
     }
   }"

definition install_merkle_record ::
    "(bytes \<Rightarrow> hash_t) \<Rightarrow> ZCachedFile \<times> bool \<Rightarrow> ZFTPMerkleRecord \<Rightarrow> (ZCachedFile \<times> bool) option" where
  "install_merkle_record zhash s zmr =
     (case s of (zf, caused_change) \<Rightarrow> do {
        let location = tree_location zmr;
        vmr \<leftarrow> rd (tree zf) (unat location);
        (case vmr_state vmr of
           v_validated \<Rightarrow> do { lite_assert (vmr_hash vmr = mr_hash zmr); Some (zf, caused_change) }
         | v_tentative \<Rightarrow> Some (zf, caused_change)
         | v_unknown \<Rightarrow> do {
             zf' \<leftarrow> mark_node_tentative zhash
               (zf\<lparr>tree := (tree zf)[unat location := vmr\<lparr>vmr_hash := mr_hash zmr\<rparr>]\<rparr>) location;
             Some (zf', True)
           }
         | v_margin \<Rightarrow> None)
      })"

definition install_merkle_records ::
    "(bytes \<Rightarrow> hash_t) \<Rightarrow> ZCachedFile \<Rightarrow> ZFTPMerkleRecord list \<Rightarrow> (ZCachedFile \<times> bool) option" where
  "install_merkle_records zhash zf records = foldM (install_merkle_record zhash) (zf, False) records"

subsection \<open>Validating hashes\<close>

definition mark_hash_validated :: "ZCachedFile \<Rightarrow> u32 \<Rightarrow> ZCachedFile option" where
  "mark_hash_validated zf loc = do {
     vmr \<leftarrow> rd (tree zf) (unat loc);
     let zf1 = zf\<lparr>tree := (tree zf)[unat loc := vmr\<lparr>vmr_state := v_validated\<rparr>]\<rparr>;
     (level, col) \<leftarrow> tree_unindex (vmr_location vmr);
     lite_assert (level \<le> uint (tree_depth zf));
     Some zf1
   }"

definition validate_children ::
    "(bytes \<Rightarrow> hash_t) \<Rightarrow> ZCachedFile \<Rightarrow> u32 \<Rightarrow> (ZCachedFile \<times> InstallResult) option" where
  "validate_children zhash zf parent_loc = do {
     parent \<leftarrow> rd (tree zf) (unat parent_loc);
     let left_sib = left_child parent_loc;
     let right_sib = left_sib + 1;
     lite_assert (right_sib < tree_size zf);
     l \<leftarrow> rd (tree zf) (unat left_sib);
     lite_assert (vmr_state l \<noteq> v_unknown);
     r \<leftarrow> rd (tree zf) (unat right_sib);
     lite_assert (vmr_state r \<noteq> v_unknown);
     parent_hash_computed \<leftarrow> hash_children zhash zf left_sib right_sib;
     if vmr_hash parent = parent_hash_computed then do {
       zf1 \<leftarrow> mark_hash_validated zf left_sib;
       zf2 \<leftarrow> mark_hash_validated zf1 right_sib;
       Some (zf2, NEW_DATA)
     } else Some (zf, FAIL)
   }"

definition validate_tentative_hashes ::
    "(bytes \<Rightarrow> hash_t) \<Rightarrow> ZCachedFile \<Rightarrow> (ZCachedFile \<times> InstallResult) option" where
  "validate_tentative_hashes zhash zf = do {
     let num_parents = ht_count (parents_of_tentative_nodes zf);
     (ht, sorted_parents) \<leftarrow>
       hash_table_remove_every (parents_of_tentative_nodes zf) (\<lambda>sorted vmr. Some (sorted @ [vmr])) [];
     lite_assert (int (length sorted_parents) = num_parents);
     lite_assert (ht_count ht = 0);
     foldM (\<lambda>(zf, result) parent.
         map_option (\<lambda>(zf', ir). (zf', if ir = FAIL then FAIL else NEW_DATA)) (validate_children zhash zf parent))
       (zf\<lparr>parents_of_tentative_nodes := ht\<rparr>, NO_EFFECT) sorted_parents
   }"

subsection \<open>Installing the metadata\<close>

definition find_root_merkle_record :: "ZFTPMerkleRecord list \<Rightarrow> ZFTPMerkleRecord option" where
  "find_root_merkle_record records = find (\<lambda>zmr. tree_location zmr = 0) records"

definition compute_file_hash :: "(bytes \<Rightarrow> hash_t) \<Rightarrow> ZFTPFileMetadata \<Rightarrow> hash_t \<Rightarrow> hash_t" where
  "compute_file_hash zhash md root_hash =
     zhash (bytes_of_u32 (file_len_network_order md) @ bytes_of_u32 (md_flags md) @ hash_bytes root_hash)"

definition configure_from_metadata :: "ZCachedFile \<Rightarrow> ZCachedFile" where
  "configure_from_metadata zf =
     (let len = z_ntohl (file_len_network_order (metadata zf));
          blocks = compute_num_blocks len;
          depth = compute_tree_depth blocks;
          sz = compute_tree_size (unat depth)
      in zf\<lparr>metadata_state := v_validated, file_len := len, num_blocks := blocks, tree_depth := depth,
            tree_size := sz,
            tree := map (\<lambda>i. \<lparr>vmr_location = of_nat i, vmr_hash = 0, vmr_state = v_unknown\<rparr>) [0..<unat sz]\<rparr>)"

definition install_metadata ::
    "(bytes \<Rightarrow> hash_t) \<Rightarrow> ZCachedFile \<Rightarrow> ZFTPFileMetadata \<Rightarrow> ZFTPMerkleRecord list \<Rightarrow>
      (ZCachedFile \<times> InstallResult) option" where
  "install_metadata zhash zf md records =
     (if metadata_state zf = v_validated then Some (zf, NO_EFFECT)
      else case find_root_merkle_record records of
        None \<Rightarrow> Some (zf, FAIL)
      | Some root_zmr \<Rightarrow>
          if compute_file_hash zhash md (mr_hash root_zmr) \<noteq> file_hash zf then Some (zf, FAIL)
          else do {
            let zf1 = configure_from_metadata (zf\<lparr>metadata := md\<rparr>);
            root \<leftarrow> rd (tree zf1) 0;
            Some (zf1\<lparr>tree := (tree zf1)[0 := root\<lparr>vmr_hash := mr_hash root_zmr,
                                               vmr_state := v_validated, vmr_location := 0\<rparr>]\<rparr>, NEW_DATA)
          })"

subsection \<open>The invariant\<close>

abbreviation st :: "ZCachedFile \<Rightarrow> nat \<Rightarrow> ValidityState" where
  "st zf i \<equiv> vmr_state (tree zf ! i)"

abbreviation hs :: "ZCachedFile \<Rightarrow> nat \<Rightarrow> hash_t" where
  "hs zf i \<equiv> vmr_hash (tree zf ! i)"

interpretation vmr: hash_keys vmr_key_hash vmr_cmp
  by unfold_locales (auto simp: vmr_key_hash_def vmr_cmp_def)

definition pair_hash :: "(bytes \<Rightarrow> hash_t) \<Rightarrow> ZCachedFile \<Rightarrow> nat \<Rightarrow> hash_t" where
  "pair_hash zhash zf p = zhash (hash_bytes (hs zf (2 * p + 1)) @ hash_bytes (hs zf (2 * p + 2)))"

text \<open>
  The shape of the tree; the validation state (a validated node has a validated sibling, and
  the hash of their parent is the hash of the pair; a parent both of whose children are known is
  known, except possibly \<open>e\<close>); the table of parents awaiting validation.
\<close>

definition shape :: "ZCachedFile \<Rightarrow> bool" where
  "shape zf \<longleftrightarrow>
     unat (tree_depth zf) \<le> 30 \<and> length (tree zf) = 2 ^ (unat (tree_depth zf) + 1) - 1 \<and>
     tree_size zf = of_nat (length (tree zf)) \<and>
     (\<forall>i < length (tree zf). vmr_location (tree zf ! i) = of_nat i \<and> st zf i \<noteq> v_margin) \<and>
     st zf 0 = v_validated"

definition anchored :: "(bytes \<Rightarrow> hash_t) \<Rightarrow> ZCachedFile \<Rightarrow> bool" where
  "anchored zhash zf \<longleftrightarrow>
     (\<forall>p. 2 * p + 2 < length (tree zf) \<longrightarrow>
        st zf (2 * p + 1) = v_validated \<or> st zf (2 * p + 2) = v_validated \<longrightarrow>
        st zf (2 * p + 1) = v_validated \<and> st zf (2 * p + 2) = v_validated \<and> hs zf p = pair_hash zhash zf p)"

definition known_up :: "nat set \<Rightarrow> ZCachedFile \<Rightarrow> bool" where
  "known_up E zf \<longleftrightarrow>
     (\<forall>p. p \<notin> E \<and> 2 * p + 2 < length (tree zf) \<and>
          st zf (2 * p + 1) \<noteq> v_unknown \<and> st zf (2 * p + 2) \<noteq> v_unknown \<longrightarrow> st zf p \<noteq> v_unknown)"

definition queue_ok :: "ZCachedFile \<Rightarrow> bool" where
  "queue_ok zf \<longleftrightarrow>
     vmr.ready (parents_of_tentative_nodes zf) \<and>
     (\<forall>p \<in># ht_mset (parents_of_tentative_nodes zf).
        2 * unat p + 2 < length (tree zf) \<and>
        st zf (2 * unat p + 1) \<noteq> v_unknown \<and> st zf (2 * unat p + 2) \<noteq> v_unknown)"

definition minv :: "(bytes \<Rightarrow> hash_t) \<Rightarrow> nat set \<Rightarrow> ZCachedFile \<Rightarrow> bool" where
  "minv zhash E zf \<longleftrightarrow> shape zf \<and> anchored zhash zf \<and> known_up E zf \<and> queue_ok zf"

text \<open>A step of an installation only turns unknown nodes into tentative ones.\<close>

definition extends :: "ZCachedFile \<Rightarrow> ZCachedFile \<Rightarrow> bool" where
  "extends zf zf' \<longleftrightarrow>
     zf' = zf\<lparr>tree := tree zf', parents_of_tentative_nodes := parents_of_tentative_nodes zf'\<rparr> \<and>
     length (tree zf') = length (tree zf) \<and>
     (\<forall>i < length (tree zf). tree zf' ! i = tree zf ! i \<or> (st zf i = v_unknown \<and> st zf' i = v_tentative))"

lemma length_tree_bound: "shape zf \<Longrightarrow> length (tree zf) < 2 ^ 31"
proof -
  assume s: "shape zf"
  then have "(2 :: nat) ^ (unat (tree_depth zf) + 1) \<le> 2 ^ 31"
    by (intro power_increasing) (auto simp: shape_def)
  with s show ?thesis by (simp add: shape_def)
qed

lemma unat_tree_size: "shape zf \<Longrightarrow> unat (tree_size zf) = length (tree zf)"
proof -
  assume s: "shape zf"
  then have "unat (of_nat (length (tree zf)) :: u32) = length (tree zf)"
    using length_tree_bound by (intro unat_of_nat_u32) fastforce
  with s show ?thesis by (metis shape_def)
qed

text \<open>A child of an inner node, as the code computes it.\<close>

lemma children_in_tree:
  assumes "shape zf" and "2 * unat p + 2 < length (tree zf)"
  shows "unat (left_child p) = 2 * unat p + 1" and "unat (right_child p) = 2 * unat p + 2"
    and "left_child p + 1 = right_child p"
  using length_tree_bound [OF assms(1)] assms(2) left_child_nat [of p] right_child_nat [of p]
  by (auto simp: right_child_def)

lemma length_tree_odd: "shape zf \<Longrightarrow> odd (length (tree zf))"
  by (simp add: shape_def)

text \<open>A node below the root, its parent and its sibling.\<close>

lemma kin_in_tree:
  assumes s: "shape zf" and i: "unat loc < length (tree zf)" "0 < loc"
  obtains p sib where "parent_location loc = p" "sibling_location loc = Some sib"
    "2 * unat p + 2 < length (tree zf)" "unat p < unat loc"
    "(unat loc = 2 * unat p + 1 \<and> unat sib = 2 * unat p + 2) \<or> (unat loc = 2 * unat p + 2 \<and> unat sib = 2 * unat p + 1)"
proof -
  have n: "loc \<noteq> 0" "loc \<noteq> - 1" using i length_tree_bound [OF s] by auto
  from sibling_location_nat [OF n] obtain sib where
    sib: "sibling_location loc = Some sib" "unat sib = (if even (unat loc) then unat loc - 1 else unat loc + 1)" by auto
  have p: "unat (parent_location loc) = (unat loc - 1) div 2" by (rule parent_location_nat [OF n])
  have g: "0 < unat loc" using i(2) by (simp add: word_nat)
  let ?p = "unat (parent_location loc)"
  have "(unat loc = 2 * ?p + 1 \<and> unat sib = 2 * ?p + 2) \<or> (unat loc = 2 * ?p + 2 \<and> unat sib = 2 * ?p + 1)"
    using g unfolding p sib(2) by (cases "even (unat loc)") presburger+
  moreover from this i(1) length_tree_odd [OF s] have "2 * ?p + 2 < length (tree zf)" by presburger
  moreover have "?p < unat loc" using g p by linarith
  ultimately show ?thesis using sib(1) that by blast
qed

subsection \<open>Installing keeps the invariant\<close>

lemma tree_frame [simp]:
  "shape (zf\<lparr>parents_of_tentative_nodes := ht\<rparr>) = shape zf"
  "anchored zhash (zf\<lparr>parents_of_tentative_nodes := ht\<rparr>) = anchored zhash zf"
  "known_up E (zf\<lparr>parents_of_tentative_nodes := ht\<rparr>) = known_up E zf"
  by (simp_all add: shape_def anchored_def known_up_def pair_hash_def)

lemma anchored_set_hash:
  assumes a: "anchored zhash zf" and len: "length (tree zf') = length (tree zf)"
    and st: "\<forall>i < length (tree zf). st zf' i = v_validated \<longleftrightarrow> st zf i = v_validated"
    and hs: "\<forall>i < length (tree zf). i \<noteq> p \<longrightarrow> hs zf' i = hs zf i"
    and p: "hs zf' p = hs zf p \<or> st zf p \<noteq> v_validated \<and>
      (2 * p + 2 < length (tree zf) \<longrightarrow> st zf (2 * p + 1) \<noteq> v_validated \<and> st zf (2 * p + 2) \<noteq> v_validated)"
  shows "anchored zhash zf'"
  unfolding anchored_def
proof (intro allI impI)
  fix q assume q: "2 * q + 2 < length (tree zf')"
    and v: "st zf' (2 * q + 1) = v_validated \<or> st zf' (2 * q + 2) = v_validated"
  from q len have lt: "2 * q + 1 < length (tree zf)" "2 * q + 2 < length (tree zf)" "q < length (tree zf)" by auto
  with v st have "st zf (2 * q + 1) = v_validated \<or> st zf (2 * q + 2) = v_validated" by auto
  from a [unfolded anchored_def, rule_format, OF lt(2) this]
  have b: "st zf (2 * q + 1) = v_validated" "st zf (2 * q + 2) = v_validated" "hs zf q = pair_hash zhash zf q"
    by simp_all
  have "hs zf' i = hs zf i" if i: "i \<in> {q, 2 * q + 1, 2 * q + 2}" for i
  proof (cases "i = p")
    case True
    from i b(1,2) lt have "st zf i = v_validated \<or> 2 * i + 2 < length (tree zf) \<and> st zf (2 * i + 1) = v_validated"
      by auto
    with p True show ?thesis by auto
  next
    case False
    with hs i lt show ?thesis by blast
  qed
  then have "hs zf' q = hs zf q" "hs zf' (2 * q + 1) = hs zf (2 * q + 1)" "hs zf' (2 * q + 2) = hs zf (2 * q + 2)"
    by blast+
  with b st lt show "st zf' (2 * q + 1) = v_validated \<and> st zf' (2 * q + 2) = v_validated \<and> hs zf' q = pair_hash zhash zf' q"
    by (simp add: pair_hash_def)
qed

lemma known_up_cong:
  assumes "known_up E zf" and len: "length (tree zf') = length (tree zf)" and st: "\<And>i. st zf' i = st zf i"
  shows "known_up E zf'"
  using assms(1) unfolding known_up_def len st .

lemma queue_mono:
  assumes "queue_ok zf" and "length (tree zf') = length (tree zf)"
    and "\<forall>i < length (tree zf). st zf i \<noteq> v_unknown \<longrightarrow> st zf' i \<noteq> v_unknown"
    and "parents_of_tentative_nodes zf' = parents_of_tentative_nodes zf"
  shows "queue_ok zf'"
  using assms by (auto simp: queue_ok_def)

lemma track_parent_ok:
  assumes s: "shape zf" and q: "queue_ok zf" and p: "2 * unat p + 2 < length (tree zf)"
  shows "\<exists>ht. track_parent_of_tentative_nodes zf p = Some (zf\<lparr>parents_of_tentative_nodes := ht\<rparr>) \<and>
           queue_ok (zf\<lparr>parents_of_tentative_nodes := ht\<rparr>)"
proof -
  let ?ht = "parents_of_tentative_nodes zf"
  note c = children_in_tree [OF s p]
  from q have rdy: "vmr.ready ?ht" by (simp add: queue_ok_def)
  obtain ht where ht: "hash_table_union ?ht p = Some ht" "vmr.ready ht" "set_mset (ht_mset ht) \<subseteq> insert p (set_mset (ht_mset ?ht))"
  proof (cases ?ht p rule: vmr.table.key_cases)
    case absent
    from vmr.table.ins_new [OF rdy absent] that show ?thesis by auto
  next
    case (present x)
    from vmr.table.uni_old [OF rdy present] obtain h where
      "hash_table_union ?ht p = Some h" "vmr.ready h" "ht_mset h = ht_mset ?ht" by blast
    then show ?thesis by (intro that [of h]) auto
  qed
  show ?thesis
  proof (cases "st zf (2 * unat p + 1) = v_unknown \<or> st zf (2 * unat p + 2) = v_unknown")
    case True
    with p c q show ?thesis
      by (intro exI [of _ ?ht]) (auto simp: track_parent_of_tentative_nodes_def rd_def queue_ok_def)
  next
    case False
    with p c q ht show ?thesis
      by (intro exI [of _ ht]) (auto simp: track_parent_of_tentative_nodes_def rd_def queue_ok_def)
  qed
qed

lemma hash_children_ok:
  assumes s: "shape zf" and p: "2 * p + 2 < length (tree zf)"
    and ab: "(unat a = 2 * p + 1 \<and> unat b = 2 * p + 2) \<or> (unat a = 2 * p + 2 \<and> unat b = 2 * p + 1)"
  shows "hash_children zhash zf a b = Some (pair_hash zhash zf p)"
proof -
  define l r where "l = (if a < b then a else b)" and "r = (if a < b then b else a)"
  with ab have lr: "unat l = 2 * p + 1" "unat r = 2 * p + 2" by (auto simp: word_less_nat_alt)
  have "unat (l AND 1) = unat l mod 2" by (simp add: and_one_eq unat_mod_distrib)
  then have "l AND 1 = 1" using lr(1) by (simp add: unat_eq_iff)
  moreover have "unat (l + 1) = unat l + 1"
    using lr(1) p length_tree_bound [OF s] by (subst unat_add_small) simp_all
  then have "l + 1 = r" using lr by (simp add: unat_eq_iff)
  ultimately show ?thesis
    using lr p by (simp add: hash_children_def l_def [symmetric] r_def [symmetric] rd_def pair_hash_def)
qed

text \<open>Marking one node tentative, before its parent is looked at.\<close>

definition set_tentative :: "nat \<Rightarrow> ZCachedFile \<Rightarrow> ZCachedFile" where
  "set_tentative n zf = zf\<lparr>tree := (tree zf)[n := (tree zf ! n)\<lparr>vmr_state := v_tentative\<rparr>]\<rparr>"

lemma set_tentative_sel [simp]:
  "length (tree (set_tentative n zf)) = length (tree zf)"
  "n < length (tree zf) \<Longrightarrow> st (set_tentative n zf) i = (if i = n then v_tentative else st zf i)"
  "n < length (tree zf) \<Longrightarrow> hs (set_tentative n zf) i = hs zf i"
  "n < length (tree zf) \<Longrightarrow> vmr_location (tree (set_tentative n zf) ! i) = vmr_location (tree zf ! i)"
  "tree_depth (set_tentative n zf) = tree_depth zf" "tree_size (set_tentative n zf) = tree_size zf"
  "parents_of_tentative_nodes (set_tentative n zf) = parents_of_tentative_nodes zf"
  by (simp_all add: set_tentative_def nth_list_update)

lemma set_tentative_minv:
  assumes m: "minv zhash {n} zf" and n: "n < length (tree zf)" "st zf n = v_unknown" "0 < n"
    and p: "n = 2 * p + 1 \<or> n = 2 * p + 2"
  shows "shape (set_tentative n zf)" "anchored zhash (set_tentative n zf)"
    "known_up {p} (set_tentative n zf)" "queue_ok (set_tentative n zf)"
proof -
  from m have i: "shape zf" "anchored zhash zf" "known_up {n} zf" "queue_ok zf" by (simp_all add: minv_def)
  show "shape (set_tentative n zf)" using i(1) n by (simp add: shape_def)
  show "anchored zhash (set_tentative n zf)"
    using i(2) n by (intro anchored_set_hash [OF i(2)]) simp_all
  show "queue_ok (set_tentative n zf)" using n by (intro queue_mono [OF i(4)]) simp_all
  show "known_up {p} (set_tentative n zf)"
    unfolding known_up_def
  proof (intro allI impI)
    fix q assume q: "q \<notin> {p} \<and> 2 * q + 2 < length (tree (set_tentative n zf)) \<and>
      st (set_tentative n zf) (2 * q + 1) \<noteq> v_unknown \<and> st (set_tentative n zf) (2 * q + 2) \<noteq> v_unknown"
    then have "2 * q + 1 \<noteq> n" "2 * q + 2 \<noteq> n" using p by auto
    with q n(1) have "2 * q + 2 < length (tree zf)" "st zf (2 * q + 1) \<noteq> v_unknown" "st zf (2 * q + 2) \<noteq> v_unknown"
      by auto
    then have "q = n \<or> st zf q \<noteq> v_unknown" using i(3) unfolding known_up_def by blast
    then show "st (set_tentative n zf) q \<noteq> v_unknown" using n by auto
  qed
qed

lemma extends_set_tentative:
  "n < length (tree zf) \<Longrightarrow> st zf n = v_unknown \<Longrightarrow> extends zf (set_tentative n zf)"
  by (auto simp: extends_def set_tentative_def nth_list_update)

text \<open>Two steps in a row, the second of which starts with a new hash for one unknown node.\<close>

lemma extends_via:
  assumes "extends zf z2" and "extends (z2\<lparr>tree := (tree z2)[p := v]\<rparr>) zf'"
    and "\<And>i. i \<noteq> p \<Longrightarrow> tree (z2\<lparr>tree := (tree z2)[p := v]\<rparr>) ! i = tree z2 ! i"
    and "st zf p = v_unknown" and "st zf' p = v_tentative"
  shows "extends zf zf'"
  unfolding extends_def
proof (intro conjI allI impI)
  show "zf' = zf\<lparr>tree := tree zf', parents_of_tentative_nodes := parents_of_tentative_nodes zf'\<rparr>"
  proof -
    have "zf' = z2\<lparr>tree := tree zf', parents_of_tentative_nodes := parents_of_tentative_nodes zf'\<rparr>"
      using assms(2) by (simp add: extends_def)
    also have "z2 = zf\<lparr>tree := tree z2, parents_of_tentative_nodes := parents_of_tentative_nodes z2\<rparr>"
      using assms(1) by (simp add: extends_def)
    finally show ?thesis by simp
  qed
  show "length (tree zf') = length (tree zf)" using assms(1,2) by (simp add: extends_def)
  fix i assume i: "i < length (tree zf)"
  then have e1: "tree z2 ! i = tree zf ! i \<or> (st zf i = v_unknown \<and> st z2 i = v_tentative)"
    using assms(1) by (simp add: extends_def)
  show "tree zf' ! i = tree zf ! i \<or> (st zf i = v_unknown \<and> st zf' i = v_tentative)"
  proof (cases "i = p")
    case False
    with assms(1,2) i have "tree zf' ! i = tree z2 ! i \<or> (st z2 i = v_unknown \<and> st zf' i = v_tentative)"
      using assms(3) [OF False] by (auto simp: extends_def)
    with e1 show ?thesis by auto
  qed (use assms(4,5) in simp)
qed

lemma mark_node_tentative_ok:
  assumes "minv zhash {unat loc} zf" and "unat loc < length (tree zf)" and "0 < loc"
    and "st zf (unat loc) = v_unknown"
  shows "\<exists>zf'. mark_node_tentative zhash zf loc = Some zf' \<and> minv zhash {} zf' \<and> extends zf zf' \<and>
           tree zf' ! unat loc = (tree zf ! unat loc)\<lparr>vmr_state := v_tentative\<rparr>"
  using assms
proof (induction "unat loc" arbitrary: loc zf rule: less_induct)
  case less
  let ?n = "unat loc"
  from less.prems(1) have s: "shape zf" by (simp add: minv_def)
  obtain p sib where k: "parent_location loc = p" "sibling_location loc = Some sib"
    "2 * unat p + 2 < length (tree zf)" "unat p < ?n"
    "(?n = 2 * unat p + 1 \<and> unat sib = 2 * unat p + 2) \<or> (?n = 2 * unat p + 2 \<and> unat sib = 2 * unat p + 1)"
    by (rule kin_in_tree [OF s less.prems(2,3)])
  let ?z1 = "set_tentative ?n zf"
  have n: "0 < ?n" using k(4) by simp
  have par: "?n = 2 * unat p + 1 \<or> ?n = 2 * unat p + 2" using k(5) by blast
  note i1 = set_tentative_minv [OF less.prems(1,2,4) n par]
  from track_parent_ok [OF i1(1,4), of p] k(3) obtain ht where
    t: "track_parent_of_tentative_nodes ?z1 p = Some (?z1\<lparr>parents_of_tentative_nodes := ht\<rparr>)"
    "queue_ok (?z1\<lparr>parents_of_tentative_nodes := ht\<rparr>)" by auto
  let ?z2 = "?z1\<lparr>parents_of_tentative_nodes := ht\<rparr>"
  have i2: "shape ?z2" "anchored zhash ?z2" "known_up {unat p} ?z2" "queue_ok ?z2" using i1 t(2) by simp_all
  have st2: "st ?z2 i = (if i = ?n then v_tentative else st zf i)" for i using less.prems(2) by simp
  have lt: "unat p < length (tree zf)" "unat sib < length (tree zf)" using k(3,5) by auto
  have sn: "unat sib \<noteq> ?n" "unat p \<noteq> ?n" using k(4,5) by auto
  let ?cond = "st zf (unat p) = v_unknown \<and> st zf (unat sib) \<noteq> v_unknown"
  have unf: "mark_node_tentative zhash zf loc =
    (if ?cond then do {
         h \<leftarrow> hash_children zhash ?z2 loc sib;
         mark_node_tentative zhash
           (?z2\<lparr>tree := (tree ?z2)[unat p := (tree ?z2 ! unat p)\<lparr>vmr_hash := h\<rparr>]\<rparr>) p
       } else Some ?z2)"
    using less.prems(2,3,4) k(1,2) t(1) lt sn st2 [of "unat p"] st2 [of "unat sib"]
    by (subst mark_node_tentative.simps) (simp add: rd_def set_tentative_def Let_def)
  have e2: "extends zf ?z2" using extends_set_tentative [OF less.prems(2,4)] by (auto simp: extends_def)
  show ?case
  proof (cases ?cond)
    case False
    have "known_up {} ?z2"
      using i2(3) False k(5) st2 sn unfolding known_up_def by (metis empty_iff singletonD)
    with i2 have "minv zhash {} ?z2" by (simp add: minv_def)
    with False unf e2 less.prems(2) show ?thesis by (auto simp: set_tentative_def)
  next
    case True
    let ?h = "pair_hash zhash ?z2 (unat p)"
    let ?z3 = "?z2\<lparr>tree := (tree ?z2)[unat p := (tree ?z2 ! unat p)\<lparr>vmr_hash := ?h\<rparr>]\<rparr>"
    have h: "hash_children zhash ?z2 loc sib = Some ?h"
      using k(3,5) by (intro hash_children_ok [OF i2(1)]) auto
    have st3: "st ?z3 i = st ?z2 i" for i using lt(1) by (simp add: nth_list_update)
    have nv: "st ?z2 (2 * unat p + 1) \<noteq> v_validated \<and> st ?z2 (2 * unat p + 2) \<noteq> v_validated"
      using i2(2) k(3,5) st2 [of ?n] unfolding anchored_def by fastforce
    have "vmr_location (tree ?z3 ! i) = vmr_location (tree ?z2 ! i)" for i
      using lt(1) by (simp add: nth_list_update)
    with i2(1) st3 have "shape ?z3" unfolding shape_def by simp
    moreover have "anchored zhash ?z3"
      using nv st3 True st2 [of "unat p"] sn lt(1)
      by (intro anchored_set_hash [OF i2(2), of _ "unat p"]) (simp_all add: nth_list_update)
    moreover have "known_up {unat p} ?z3" by (rule known_up_cong [OF i2(3) _ st3]) simp
    moreover have "queue_ok ?z3" using st3 by (intro queue_mono [OF i2(4)]) simp_all
    ultimately have m3: "minv zhash {unat p} ?z3" by (simp add: minv_def)
    have "st zf 0 = v_validated" using s by (simp add: shape_def)
    have "p \<noteq> 0"
    proof
      assume "p = 0"
      with True \<open>st zf 0 = v_validated\<close> show False by simp
    qed
    then have p0: "0 < p" by (simp add: word_neq_0_conv)
    have u3: "st ?z3 (unat p) = v_unknown" using True st3 st2 sn by simp
    from less.hyps [OF k(4) m3 _ p0 u3] lt(1) obtain zf' where
      z': "mark_node_tentative zhash ?z3 p = Some zf'" "minv zhash {} zf'" "extends ?z3 zf'"
      "tree zf' ! unat p = (tree ?z3 ! unat p)\<lparr>vmr_state := v_tentative\<rparr>" by auto
    have t3: "tree ?z3 ! i = tree ?z2 ! i" if "i \<noteq> unat p" for i using that by simp
    have "extends zf zf'" by (rule extends_via [OF e2 z'(3) t3]) (use True z'(4) in auto)
    moreover have "tree zf' ! ?n = (tree zf ! ?n)\<lparr>vmr_state := v_tentative\<rparr>"
      using z'(3) t3 [of ?n] sn st3 [of ?n] st2 [of ?n] less.prems(2) by (auto simp: extends_def set_tentative_def)
    ultimately show ?thesis using z'(1,2) unf True h by simp
  qed
qed

lemma extends_refl: "extends zf zf"
  by (simp add: extends_def)

lemma extends_trans:
  assumes "extends a b" and "extends b c"
  shows "extends a c"
proof -
  have "c = b\<lparr>tree := tree c, parents_of_tentative_nodes := parents_of_tentative_nodes c\<rparr>"
    "b = a\<lparr>tree := tree b, parents_of_tentative_nodes := parents_of_tentative_nodes b\<rparr>"
    using assms by (simp_all add: extends_def)
  then have "c = a\<lparr>tree := tree c, parents_of_tentative_nodes := parents_of_tentative_nodes c\<rparr>"
    by (cases a; cases b; cases c) simp
  moreover have "tree c ! i = tree a ! i \<or> (st a i = v_unknown \<and> st c i = v_tentative)" if "i < length (tree a)" for i
  proof -
    from that assms have "tree b ! i = tree a ! i \<or> (st a i = v_unknown \<and> st b i = v_tentative)"
      "tree c ! i = tree b ! i \<or> (st b i = v_unknown \<and> st c i = v_tentative)" by (simp_all add: extends_def)
    then show ?thesis by auto
  qed
  ultimately show ?thesis using assms by (simp add: extends_def)
qed

lemma extends_validated:
  assumes "extends zf zf'" and "i < length (tree zf)"
  shows "st zf' i = v_validated \<longleftrightarrow> st zf i = v_validated" and "st zf i = v_validated \<Longrightarrow> hs zf' i = hs zf i"
  using assms unfolding extends_def by (metis ValidityState.distinct(3,7))+

text \<open>Nothing below an unknown node is validated.\<close>

lemma unknown_no_validated_children:
  assumes "minv zhash {} zf" and "st zf p = v_unknown" and "2 * p + 2 < length (tree zf)"
  shows "st zf (2 * p + 1) \<noteq> v_validated \<and> st zf (2 * p + 2) \<noteq> v_validated"
  using assms unfolding minv_def anchored_def known_up_def
  by (metis ValidityState.distinct(3) empty_iff)

lemma install_merkle_record_ok:
  assumes m: "minv zhash {} zf" and l: "unat (tree_location r) < length (tree zf)"
    and v: "st zf (unat (tree_location r)) = v_validated \<Longrightarrow> hs zf (unat (tree_location r)) = mr_hash r"
  shows "\<exists>zf' c'. install_merkle_record zhash (zf, c) r = Some (zf', c') \<and> minv zhash {} zf' \<and> extends zf zf' \<and>
           (st zf (unat (tree_location r)) = v_unknown \<longrightarrow>
              c' \<and> st zf' (unat (tree_location r)) = v_tentative \<and> hs zf' (unat (tree_location r)) = mr_hash r)"
proof (cases "st zf (unat (tree_location r))")
  case v_unknown
  let ?loc = "tree_location r" and ?n = "unat (tree_location r)"
  let ?v = "(tree zf ! ?n)\<lparr>vmr_hash := mr_hash r\<rparr>"
  let ?z = "zf\<lparr>tree := (tree zf)[?n := ?v]\<rparr>"
  from m have i: "shape zf" "anchored zhash zf" "known_up {} zf" "queue_ok zf" by (simp_all add: minv_def)
  have stz: "st ?z i = st zf i" for i using l by (simp add: nth_list_update)
  have "vmr_location (tree ?z ! i) = vmr_location (tree zf ! i)" for i using l by (simp add: nth_list_update)
  with i(1) stz have "shape ?z" unfolding shape_def by simp
  moreover have "anchored zhash ?z"
    using v_unknown stz unknown_no_validated_children [OF m v_unknown]
    by (intro anchored_set_hash [OF i(2), of _ ?n]) simp_all
  moreover have "known_up {} ?z" by (rule known_up_cong [OF i(3) _ stz]) simp
  then have "known_up {?n} ?z" unfolding known_up_def by blast
  moreover have "queue_ok ?z" using stz by (intro queue_mono [OF i(4)]) simp_all
  ultimately have mz: "minv zhash {?n} ?z" by (simp add: minv_def)
  have "?loc \<noteq> 0" using i(1) v_unknown by (auto simp: shape_def)
  then have pos: "0 < ?loc" by (simp add: word_neq_0_conv)
  have "st ?z ?n = v_unknown" using stz v_unknown by simp
  from mark_node_tentative_ok [OF mz _ pos this] l obtain zf' where
    z': "mark_node_tentative zhash ?z ?loc = Some zf'" "minv zhash {} zf'" "extends ?z zf'"
    "tree zf' ! ?n = ?v\<lparr>vmr_state := v_tentative\<rparr>" by auto
  have "extends zf zf'"
    by (rule extends_via [OF extends_refl z'(3)]) (use v_unknown z'(4) in simp_all)
  then show ?thesis
    using v_unknown l z' by (intro exI [of _ zf'] exI [of _ True]) (simp add: install_merkle_record_def rd_def Let_def)
next
  case v_margin
  with m l show ?thesis by (simp add: minv_def shape_def)
qed (use assms extends_refl in \<open>simp_all add: install_merkle_record_def rd_def Let_def\<close>)

lemma install_merkle_records_ok:
  assumes "minv zhash {} zf"
    and "\<forall>r \<in> set rs. unat (tree_location r) < length (tree zf) \<and>
           (st zf (unat (tree_location r)) = v_validated \<longrightarrow> hs zf (unat (tree_location r)) = mr_hash r)"
  shows "\<exists>zf' c'. foldM (install_merkle_record zhash) (zf, c) rs = Some (zf', c') \<and> minv zhash {} zf' \<and> extends zf zf'"
  using assms
proof (induction rs arbitrary: zf c)
  case (Cons r rs)
  from install_merkle_record_ok [OF Cons.prems(1), of r c] Cons.prems(2) obtain z1 c1 where
    z1: "install_merkle_record zhash (zf, c) r = Some (z1, c1)" "minv zhash {} z1" "extends zf z1" by auto
  have "\<forall>r \<in> set rs. unat (tree_location r) < length (tree z1) \<and>
           (st z1 (unat (tree_location r)) = v_validated \<longrightarrow> hs z1 (unat (tree_location r)) = mr_hash r)"
    using Cons.prems(2) z1(3) extends_validated [OF z1(3)] by (auto simp: extends_def)
  from Cons.IH [OF z1(2) this, of c1] z1(1,3) extends_trans show ?case by fastforce
qed (simp add: extends_refl)

text \<open>A record can be installed exactly when its location lies in the tree and it agrees with a validated hash there.\<close>

definition installable :: "ZCachedFile \<Rightarrow> ZFTPMerkleRecord \<Rightarrow> bool" where
  "installable zf r \<longleftrightarrow>
     unat (tree_location r) < length (tree zf) \<and>
     (st zf (unat (tree_location r)) = v_validated \<longrightarrow> hs zf (unat (tree_location r)) = mr_hash r)"

lemma not_installable: "\<not> installable zf r \<Longrightarrow> install_merkle_record zhash (zf, c) r = None"
  by (auto simp: installable_def install_merkle_record_def rd_def lite_assert_def Let_def)

lemma extends_installable: "extends zf zf' \<Longrightarrow> installable zf' r = installable zf r"
  using extends_validated [of zf zf'] by (auto simp: installable_def extends_def)

lemma install_merkle_records_exact:
  assumes "minv zhash {} zf"
  shows "if \<forall>r \<in> set rs. installable zf r
    then \<exists>zf' c'. foldM (install_merkle_record zhash) (zf, c) rs = Some (zf', c') \<and> minv zhash {} zf' \<and> extends zf zf' \<and>
           (\<forall>r \<in> set rs. st zf' (unat (tree_location r)) \<noteq> v_unknown)
    else foldM (install_merkle_record zhash) (zf, c) rs = None"
  using assms
proof (induction rs arbitrary: zf c)
  case (Cons r rs)
  show ?case
  proof (cases "installable zf r")
    case True
    then have l: "unat (tree_location r) < length (tree zf)" by (simp add: installable_def)
    from install_merkle_record_ok [OF Cons.prems, of r c] True obtain z1 c1 where
      z1: "install_merkle_record zhash (zf, c) r = Some (z1, c1)" "minv zhash {} z1" "extends zf z1"
        "st zf (unat (tree_location r)) = v_unknown \<longrightarrow> st z1 (unat (tree_location r)) = v_tentative"
      by (auto simp: installable_def)
    have k: "st z' (unat (tree_location r)) \<noteq> v_unknown" if "extends z1 z'" for z'
      using z1(3,4) that l unfolding extends_def by (metis ValidityState.distinct(1))
    have a: "(\<forall>r \<in> set rs. installable z1 r) \<longleftrightarrow> (\<forall>r \<in> set (r # rs). installable zf r)"
      using True extends_installable [OF z1(3)] by simp
    from Cons.IH [OF z1(2), of c1] a z1(1) k extends_trans [OF z1(3)] show ?thesis by (auto split: if_splits)
  qed (simp add: not_installable)
qed (simp add: extends_refl)

end
