(* ===== verification/MerkleCheck.thy ===== *)
theory MerkleCheck
  imports Merkle
begin

text \<open>
  Validation of the hashes of a cached file: what \<open>_validate_children\<close> and
  \<open>_validate_tentative_hashes\<close> of \<open>ZCachedFile.cpp\<close> establish, what installing metadata
  establishes, and how far a validated hash can be trusted.
\<close>

subsection \<open>Validating keeps the invariant\<close>

definition set_validated :: "nat \<Rightarrow> ZCachedFile \<Rightarrow> ZCachedFile" where
  "set_validated n zf = zf\<lparr>tree := (tree zf)[n := (tree zf ! n)\<lparr>vmr_state := v_validated\<rparr>]\<rparr>"

lemma set_validated_sel [simp]:
  "length (tree (set_validated n zf)) = length (tree zf)"
  "n < length (tree zf) \<Longrightarrow> st (set_validated n zf) i = (if i = n then v_validated else st zf i)"
  "n < length (tree zf) \<Longrightarrow> hs (set_validated n zf) i = hs zf i"
  "n < length (tree zf) \<Longrightarrow> vmr_location (tree (set_validated n zf) ! i) = vmr_location (tree zf ! i)"
  "tree_depth (set_validated n zf) = tree_depth zf" "tree_size (set_validated n zf) = tree_size zf"
  "parents_of_tentative_nodes (set_validated n zf) = parents_of_tentative_nodes zf"
  by (simp_all add: set_validated_def nth_list_update)

lemma set_validated_shape: "shape zf \<Longrightarrow> n < length (tree zf) \<Longrightarrow> shape (set_validated n zf)"
  by (simp add: shape_def)

lemma mark_hash_validated_ok:
  assumes s: "shape zf" and n: "unat loc < length (tree zf)"
  shows "mark_hash_validated zf loc = Some (set_validated (unat loc) zf)"
proof -
  have loc: "vmr_location (tree zf ! unat loc) = loc" using s n by (simp add: shape_def)
  have ne: "loc \<noteq> - 1" using n length_tree_bound [OF s] by auto
  then obtain l c where d: "unat loc + 1 = 2 ^ l + c" "c < 2 ^ l" "l \<le> 31" by (rule location_decompose)
  have "2 ^ l \<le> unat loc + 1" using d(1) by simp
  also have "\<dots> < 2 ^ (unat (tree_depth zf) + 1)" using n s by (simp add: shape_def)
  finally have "l < unat (tree_depth zf) + 1" by (simp only: power_strict_increasing_iff)
  moreover have "uint (tree_depth zf) = int (unat (tree_depth zf))" by simp
  ultimately have "int l \<le> uint (tree_depth zf)" by linarith
  then show ?thesis
    using unindex_nat [OF d(1,2) ne] n loc by (simp add: mark_hash_validated_def rd_def set_validated_def Let_def)
qed

text \<open>The outcome of validating the children of \<open>p\<close>.\<close>

definition validated_pair :: "nat \<Rightarrow> ZCachedFile \<Rightarrow> ZCachedFile" where
  "validated_pair p zf = set_validated (2 * p + 2) (set_validated (2 * p + 1) zf)"

lemma validate_children_eq:
  assumes m: "minv zhash {} zf" and p: "2 * unat p + 2 < length (tree zf)"
    and k: "st zf (2 * unat p + 1) \<noteq> v_unknown" "st zf (2 * unat p + 2) \<noteq> v_unknown"
  shows "validate_children zhash zf p =
           Some (if hs zf (unat p) = pair_hash zhash zf (unat p)
                 then (validated_pair (unat p) zf, NEW_DATA) else (zf, FAIL))"
proof -
  from m have s: "shape zf" by (simp add: minv_def)
  note c = children_in_tree [OF s p]
  have "right_child p < tree_size zf" using c(2) p unat_tree_size [OF s] by (simp add: word_nat)
  moreover have "hash_children zhash zf (left_child p) (right_child p) = Some (pair_hash zhash zf (unat p))"
    using c p by (intro hash_children_ok [OF s]) simp_all
  moreover have "mark_hash_validated zf (left_child p) = Some (set_validated (2 * unat p + 1) zf)"
    using mark_hash_validated_ok [OF s, of "left_child p"] c p by simp
  moreover have "mark_hash_validated (set_validated (2 * unat p + 1) zf) (right_child p) = Some (validated_pair (unat p) zf)"
    using mark_hash_validated_ok [OF set_validated_shape [OF s], of "2 * unat p + 1" "right_child p"] c p
    by (simp add: validated_pair_def)
  ultimately show ?thesis using c p k by (simp add: validate_children_def rd_def)
qed

lemma validated_pair_sel:
  assumes "2 * p + 2 < length (tree zf)"
  shows "length (tree (validated_pair p zf)) = length (tree zf)"
    "st (validated_pair p zf) i = (if i = 2 * p + 1 \<or> i = 2 * p + 2 then v_validated else st zf i)"
    "hs (validated_pair p zf) i = hs zf i"
    "parents_of_tentative_nodes (validated_pair p zf) = parents_of_tentative_nodes zf"
  using assms by (simp_all add: validated_pair_def)

lemma validated_pair_minv:
  assumes m: "minv zhash {} zf" and p: "2 * p + 2 < length (tree zf)" and h: "hs zf p = pair_hash zhash zf p"
    and k: "st zf (2 * p + 1) \<noteq> v_unknown" "st zf (2 * p + 2) \<noteq> v_unknown"
  shows "minv zhash {} (validated_pair p zf)"
proof -
  let ?z = "validated_pair p zf"
  note v = validated_pair_sel [OF p]
  from m have i: "shape zf" "anchored zhash zf" "known_up {} zf" "queue_ok zf" by (simp_all add: minv_def)
  have "shape ?z" using p by (simp add: validated_pair_def set_validated_shape [OF set_validated_shape [OF i(1)]])
  moreover have "pair_hash zhash ?z q = pair_hash zhash zf q" for q by (simp add: pair_hash_def v)
  then have "anchored zhash ?z"
    unfolding anchored_def
  proof (intro allI impI)
    fix q assume ph: "\<And>q. pair_hash zhash ?z q = pair_hash zhash zf q" and q: "2 * q + 2 < length (tree ?z)"
      and w: "st ?z (2 * q + 1) = v_validated \<or> st ?z (2 * q + 2) = v_validated"
    show "st ?z (2 * q + 1) = v_validated \<and> st ?z (2 * q + 2) = v_validated \<and> hs ?z q = pair_hash zhash ?z q"
    proof (cases "q = p")
      case True
      with h ph v show ?thesis by simp
    next
      case False
      then have ne: "2 * q + 1 \<noteq> 2 * p + 1" "2 * q + 1 \<noteq> 2 * p + 2" "2 * q + 2 \<noteq> 2 * p + 1" "2 * q + 2 \<noteq> 2 * p + 2"
        by presburger+
      with w v have "st zf (2 * q + 1) = v_validated \<or> st zf (2 * q + 2) = v_validated" by metis
      from i(2) [unfolded anchored_def, rule_format, OF q [unfolded v(1)] this] ph v ne show ?thesis by simp
    qed
  qed
  moreover have "known_up {} ?z"
    unfolding known_up_def
  proof (intro allI impI)
    fix q assume a: "q \<notin> {} \<and> 2 * q + 2 < length (tree ?z) \<and> st ?z (2 * q + 1) \<noteq> v_unknown \<and> st ?z (2 * q + 2) \<noteq> v_unknown"
    have "st zf (2 * q + 1) \<noteq> v_unknown \<and> st zf (2 * q + 2) \<noteq> v_unknown"
    proof (cases "q = p")
      case False
      then have "2 * q + 1 \<noteq> 2 * p + 1" "2 * q + 1 \<noteq> 2 * p + 2" "2 * q + 2 \<noteq> 2 * p + 1" "2 * q + 2 \<noteq> 2 * p + 2"
        by presburger+
      with a v(2) [of "2 * q + 1"] v(2) [of "2 * q + 2"] show ?thesis by simp
    qed (use k in simp)
    with a v(1) have "st zf q \<noteq> v_unknown" using i(3) unfolding known_up_def by metis
    then show "st ?z q \<noteq> v_unknown" using v(2) [of q] by simp
  qed
  moreover have "queue_ok ?z" using v by (intro queue_mono [OF i(4)]) simp_all
  ultimately show ?thesis by (simp add: minv_def)
qed

text \<open>
  What a run of validations leaves: the same hashes, the same known nodes, and validated nodes
  only where a pair hashed to its parent.
\<close>

definition same_hashes :: "ZCachedFile \<Rightarrow> ZCachedFile \<Rightarrow> bool" where
  "same_hashes zf zf' \<longleftrightarrow>
     length (tree zf') = length (tree zf) \<and>
     (\<forall>i. hs zf' i = hs zf i \<and> (st zf i \<noteq> v_unknown \<longrightarrow> st zf' i \<noteq> v_unknown) \<and>
          (st zf i = v_validated \<longrightarrow> st zf' i = v_validated))"

lemma validate_fold_ok:
  assumes "minv zhash {} zf"
    and "\<forall>p \<in> set ps. 2 * unat p + 2 < length (tree zf) \<and>
           st zf (2 * unat p + 1) \<noteq> v_unknown \<and> st zf (2 * unat p + 2) \<noteq> v_unknown"
  shows "\<exists>zf' r'. foldM (\<lambda>(zf, result) parent.
             map_option (\<lambda>(zf', ir). (zf', if ir = FAIL then FAIL else NEW_DATA)) (validate_children zhash zf parent))
           (zf, r) ps = Some (zf', r') \<and> minv zhash {} zf' \<and> same_hashes zf zf' \<and>
           parents_of_tentative_nodes zf' = parents_of_tentative_nodes zf \<and>
           (\<forall>p \<in> set ps. hs zf (unat p) = pair_hash zhash zf (unat p) \<longrightarrow>
              st zf' (2 * unat p + 1) = v_validated \<and> st zf' (2 * unat p + 2) = v_validated)"
  using assms
proof (induction ps arbitrary: zf r)
  case (Cons p ps)
  let ?ok = "hs zf (unat p) = pair_hash zhash zf (unat p)"
  let ?z1 = "if ?ok then validated_pair (unat p) zf else zf"
  from Cons.prems(2) have p: "2 * unat p + 2 < length (tree zf)" "st zf (2 * unat p + 1) \<noteq> v_unknown"
    "st zf (2 * unat p + 2) \<noteq> v_unknown" by auto
  note v = validated_pair_sel [OF p(1)]
  have m1: "minv zhash {} ?z1" using validated_pair_minv [OF Cons.prems(1) p(1) _ p(2,3)] Cons.prems(1) by simp
  have sh: "same_hashes zf ?z1" using v p(2,3) by (auto simp: same_hashes_def)
  have "\<forall>q \<in> set ps. 2 * unat q + 2 < length (tree ?z1) \<and>
           st ?z1 (2 * unat q + 1) \<noteq> v_unknown \<and> st ?z1 (2 * unat q + 2) \<noteq> v_unknown"
    using Cons.prems(2) sh by (auto simp: same_hashes_def)
  from Cons.IH [OF m1 this] obtain z' r' where
    z': "foldM (\<lambda>(zf, result) parent.
             map_option (\<lambda>(zf', ir). (zf', if ir = FAIL then FAIL else NEW_DATA)) (validate_children zhash zf parent))
           (?z1, if ?ok then NEW_DATA else FAIL) ps = Some (z', r')" "minv zhash {} z'" "same_hashes ?z1 z'"
    "parents_of_tentative_nodes z' = parents_of_tentative_nodes ?z1"
    "\<forall>p \<in> set ps. hs ?z1 (unat p) = pair_hash zhash ?z1 (unat p) \<longrightarrow>
              st z' (2 * unat p + 1) = v_validated \<and> st z' (2 * unat p + 2) = v_validated" by blast
  have ph: "pair_hash zhash ?z1 q = pair_hash zhash zf q" "hs ?z1 q = hs zf q" for q
    using v(3) by (simp_all add: pair_hash_def)
  have "?ok \<longrightarrow> st z' (2 * unat p + 1) = v_validated \<and> st z' (2 * unat p + 2) = v_validated"
    using z'(3) v(2) by (simp add: same_hashes_def)
  moreover have "same_hashes zf z'" using sh z'(3) unfolding same_hashes_def by metis
  moreover have "parents_of_tentative_nodes z' = parents_of_tentative_nodes zf" using z'(4) v(4) by simp
  moreover have "foldM (\<lambda>(zf, result) parent.
             map_option (\<lambda>(zf', ir). (zf', if ir = FAIL then FAIL else NEW_DATA)) (validate_children zhash zf parent))
           (zf, r) (p # ps) = Some (z', r')"
    using z'(1) validate_children_eq [OF Cons.prems(1) p] by (cases ?ok) simp_all
  ultimately show ?case using z'(2,5) ph by (intro exI [of _ z'] exI [of _ r']) simp
qed (simp add: same_hashes_def)

lemma foldM_snoc_list: "foldM (\<lambda>acc x. Some (acc @ [x])) ys xs = Some (ys @ xs)"
  by (induction xs arbitrary: ys) simp_all

lemma validate_tentative_hashes_ok:
  assumes m: "minv zhash {} zf"
  shows "\<exists>zf' r. validate_tentative_hashes zhash zf = Some (zf', r) \<and> minv zhash {} zf' \<and> same_hashes zf zf' \<and>
           ht_mset (parents_of_tentative_nodes zf') = {#} \<and>
           (\<forall>p \<in># ht_mset (parents_of_tentative_nodes zf). hs zf (unat p) = pair_hash zhash zf (unat p) \<longrightarrow>
              st zf' (2 * unat p + 1) = v_validated \<and> st zf' (2 * unat p + 2) = v_validated)"
proof -
  let ?ht = "parents_of_tentative_nodes zf"
  let ?e = "?ht\<lparr>old_table := subtable_init (num_buckets (old_table ?ht)),
                new_table := subtable_init (num_buckets (new_table ?ht)), ht_count := 0\<rparr>"
  let ?ps = "st_data (old_table ?ht) @ st_data (new_table ?ht)"
  let ?z = "zf\<lparr>parents_of_tentative_nodes := ?e\<rparr>"
  from m have q: "queue_ok zf" and rdy: "vmr.ready ?ht" by (simp_all add: minv_def queue_ok_def)
  from rdy have inv: "ht_inv ?ht" by (simp add: vmr.ready_def)
  have e: "vmr.ready ?e" "ht_mset ?e = {#}"
    using rdy emptied_inv [OF inv] by (auto simp: vmr.ready_def vmr.keyed_def ht_mset_def)
  then have "queue_ok ?z" by (simp add: queue_ok_def)
  with m have mz: "minv zhash {} ?z" by (simp add: minv_def)
  have ps: "set ?ps = set_mset (ht_mset ?ht)" by (simp add: ht_mset_def st_mset_def)
  have "\<forall>p \<in> set ?ps. 2 * unat p + 2 < length (tree ?z) \<and>
      st ?z (2 * unat p + 1) \<noteq> v_unknown \<and> st ?z (2 * unat p + 2) \<noteq> v_unknown"
    using q unfolding ps queue_ok_def by simp
  from validate_fold_ok [OF mz this, of NO_EFFECT] obtain z' r' where
    z': "foldM (\<lambda>(zf, result) parent.
             map_option (\<lambda>(zf', ir). (zf', if ir = FAIL then FAIL else NEW_DATA)) (validate_children zhash zf parent))
           (?z, NO_EFFECT) ?ps = Some (z', r')" "minv zhash {} z'" "same_hashes ?z z'"
    "parents_of_tentative_nodes z' = ?e"
    "\<forall>p \<in> set ?ps. hs ?z (unat p) = pair_hash zhash ?z (unat p) \<longrightarrow>
              st z' (2 * unat p + 1) = v_validated \<and> st z' (2 * unat p + 2) = v_validated" by auto
  have "hash_table_remove_every ?ht (\<lambda>sorted vmr. Some (sorted @ [vmr])) [] = Some (?e, ?ps)"
    by (simp add: remove_every_spec [OF inv] foldM_snoc_list)
  moreover have "int (length ?ps) = ht_count ?ht"
    using ht_inv_size [OF inv] by (simp add: ht_mset_def st_mset_def)
  ultimately have "validate_tentative_hashes zhash zf = Some (z', r')"
    using z'(1) by (simp add: validate_tentative_hashes_def Let_def)
  moreover have "same_hashes zf z'" using z'(3) by (simp add: same_hashes_def)
  moreover have "\<forall>p \<in># ht_mset ?ht. hs zf (unat p) = pair_hash zhash zf (unat p) \<longrightarrow>
      st z' (2 * unat p + 1) = v_validated \<and> st z' (2 * unat p + 2) = v_validated"
    using z'(5) unfolding ps by (simp add: pair_hash_def)
  ultimately show ?thesis using z'(2,4) e(2) by auto
qed

text \<open>Validation writes the tree and the table of parents only.\<close>

definition same_file :: "ZCachedFile \<Rightarrow> ZCachedFile \<Rightarrow> bool" where
  "same_file zf zf' \<longleftrightarrow> zf' = zf\<lparr>tree := tree zf', parents_of_tentative_nodes := parents_of_tentative_nodes zf'\<rparr>"

lemma same_file_trans: "same_file a b \<Longrightarrow> same_file b c \<Longrightarrow> same_file a c"
  by (cases a; cases b; cases c) (simp add: same_file_def)

lemma validate_children_frame: "validate_children zhash zf p = Some (zf', r) \<Longrightarrow> same_file zf zf'"
  by (auto simp: validate_children_def mark_hash_validated_def same_file_def Let_def split: bind_splits if_splits)

lemma validate_tentative_hashes_frame:
  assumes "validate_tentative_hashes zhash zf = Some (zf', r)"
  shows "same_file zf zf'"
proof -
  from assms obtain ht ps where
    f: "foldM (\<lambda>(zf, result) parent.
         map_option (\<lambda>(zf', ir). (zf', if ir = FAIL then FAIL else NEW_DATA)) (validate_children zhash zf parent))
       (zf\<lparr>parents_of_tentative_nodes := ht\<rparr>, NO_EFFECT) ps = Some (zf', r)"
    by (auto simp: validate_tentative_hashes_def Let_def split: bind_splits if_splits)
  have "same_file zf (fst (zf', r))"
  proof (rule foldM_invariant [OF f, where P = "\<lambda>s. same_file zf (fst s)"])
    fix s x t assume "same_file zf (fst s)"
      and "(case s of (zf, result) \<Rightarrow> \<lambda>parent. map_option (\<lambda>(zf', ir). (zf', if ir = FAIL then FAIL else NEW_DATA))
             (validate_children zhash zf parent)) x = Some t"
    then show "same_file zf (fst t)" by (cases s) (auto intro: same_file_trans [OF _ validate_children_frame])
  qed (simp add: same_file_def)
  then show ?thesis by simp
qed

subsection \<open>The metadata anchor the tree\<close>

definition fresh_tree :: "ZCachedFile \<Rightarrow> hash_t \<Rightarrow> bool" where
  "fresh_tree zf root \<longleftrightarrow>
     hs zf 0 = root \<and> (\<forall>i. 0 < i \<and> i < length (tree zf) \<longrightarrow> st zf i = v_unknown)"

lemma fresh_tree_minv:
  assumes s: "shape zf" and f: "fresh_tree zf root" and q: "vmr.ready (parents_of_tentative_nodes zf)"
    "ht_mset (parents_of_tentative_nodes zf) = {#}"
  shows "minv zhash {} zf"
proof -
  have u: "st zf (2 * p + 1) = v_unknown" "st zf (2 * p + 2) = v_unknown" if "2 * p + 2 < length (tree zf)" for p
    using f that by (simp_all add: fresh_tree_def)
  then have "anchored zhash zf" "known_up {} zf" unfolding anchored_def known_up_def by (metis ValidityState.distinct(3))+
  with s q show ?thesis by (simp add: minv_def queue_ok_def)
qed

lemma file_depth_bound: "unat (compute_tree_depth (compute_num_blocks len)) \<le> 16"
proof (cases "compute_num_blocks len = 0")
  case False
  have "unat (compute_num_blocks len) < 2 ^ 16"
    using unat_less_exp [of "65535 + len"] by (simp add: compute_num_blocks_def unat_drop_bit div_less_iff_less_mult)
  with depth_least(2) [OF False, of 16] show ?thesis by simp
qed (simp add: compute_tree_depth_def)

lemma compute_tree_size_nat: "d \<le> 30 \<Longrightarrow> unat (compute_tree_size d) = 2 ^ (d + 1) - 1"
  using unat_push_bit_1 [of "d + 1"] unfolding compute_tree_size_def
  by (subst unat_sub_le) (simp_all only: unat_1 one_le_numeral one_le_power)

lemma install_metadata_ok:
  assumes "metadata_state zf = v_unknown" and "find_root_merkle_record rs = Some r"
    and "compute_file_hash zhash md (mr_hash r) = file_hash zf"
    and "unat (compute_tree_depth (compute_num_blocks (z_ntohl (file_len_network_order md)))) \<le> 30"
    and "vmr.ready (parents_of_tentative_nodes zf)" and "ht_mset (parents_of_tentative_nodes zf) = {#}"
  shows "\<exists>zf'. install_metadata zhash zf md rs = Some (zf', NEW_DATA) \<and> minv zhash {} zf' \<and>
           fresh_tree zf' (mr_hash r) \<and> metadata zf' = md \<and> metadata_state zf' = v_validated \<and> file_hash zf' = file_hash zf"
proof -
  let ?z1 = "configure_from_metadata (zf\<lparr>metadata := md\<rparr>)"
  define d where "d = compute_tree_depth (compute_num_blocks (z_ntohl (file_len_network_order md)))"
  let ?n = "unat (compute_tree_size (unat d))"
  have n: "?n = 2 ^ (unat d + 1) - 1" using assms(4) by (intro compute_tree_size_nat) (simp add: d_def)
  have "(2 :: nat) \<le> 2 ^ (unat d + 1)" by simp
  then have n0: "0 < ?n" using n by linarith
  have t: "tree ?z1 = map (\<lambda>i. \<lparr>vmr_location = of_nat i, vmr_hash = 0, vmr_state = v_unknown\<rparr>) [0..<?n]"
    and sel: "tree_depth ?z1 = d" "tree_size ?z1 = compute_tree_size (unat d)"
      "parents_of_tentative_nodes ?z1 = parents_of_tentative_nodes zf" "metadata ?z1 = md"
      "metadata_state ?z1 = v_validated" "file_hash ?z1 = file_hash zf"
    by (simp_all add: configure_from_metadata_def Let_def d_def)
  let ?v = "(tree ?z1 ! 0)\<lparr>vmr_hash := mr_hash r, vmr_state := v_validated, vmr_location := 0\<rparr>"
  let ?z2 = "?z1\<lparr>tree := (tree ?z1)[0 := ?v]\<rparr>"
  have run: "install_metadata zhash zf md rs = Some (?z2, NEW_DATA)"
    using assms(1-3) n0 t by (simp add: install_metadata_def rd_def Let_def)
  have nth: "(tree ?z1)[0 := ?v] ! i = (if i = 0 then ?v else \<lparr>vmr_location = of_nat i, vmr_hash = 0, vmr_state = v_unknown\<rparr>)"
    if "i < ?n" for i using that t by simp
  have len: "length (tree ?z2) = ?n" using t by simp
  have "tree_size ?z2 = of_nat (length (tree ?z2))" using len sel(2) by simp
  moreover have "\<forall>i < length (tree ?z2). vmr_location (tree ?z2 ! i) = of_nat i \<and> st ?z2 i \<noteq> v_margin"
    unfolding len by (auto simp: nth)
  moreover have "st ?z2 0 = v_validated" using nth [OF n0] by simp
  ultimately have "shape ?z2"
    unfolding shape_def using len n sel(1) assms(4) by (simp add: d_def)
  moreover have f: "fresh_tree ?z2 (mr_hash r)"
    unfolding fresh_tree_def len using nth [OF n0] t by auto
  ultimately have "minv zhash {} ?z2" using assms(5,6) sel(3) by (intro fresh_tree_minv) simp_all
  with run f sel show ?thesis by simp
qed

subsection \<open>Trust\<close>

text \<open>All nodes from \<open>i\<close> up to the root are validated.\<close>

function path_validated :: "ZCachedFile \<Rightarrow> nat \<Rightarrow> bool" where
  "path_validated zf i =
     (if st zf i = v_validated then if i = 0 then True else path_validated zf ((i - 1) div 2) else False)"
  by pat_completeness auto
termination
  by (relation "measure snd") auto

declare path_validated.simps [simp del]

text \<open>
  The hashes \<open>T\<close> of the true tree: the hash of an inner node is the hash of its two children.
  A collision is a pair of different inputs of the hash function, one from the stored tree and one
  from the true tree, with the same hash.
\<close>

definition true_tree :: "(bytes \<Rightarrow> hash_t) \<Rightarrow> nat \<Rightarrow> (nat \<Rightarrow> hash_t) \<Rightarrow> bool" where
  "true_tree zhash n T \<longleftrightarrow>
     (\<forall>p. 2 * p + 2 < n \<longrightarrow> T p = zhash (hash_bytes (T (2 * p + 1)) @ hash_bytes (T (2 * p + 2))))"

definition collision_at :: "(bytes \<Rightarrow> hash_t) \<Rightarrow> ZCachedFile \<Rightarrow> (nat \<Rightarrow> hash_t) \<Rightarrow> nat \<Rightarrow> bool" where
  "collision_at zhash zf T p \<longleftrightarrow>
     (let x = hash_bytes (hs zf (2 * p + 1)) @ hash_bytes (hs zf (2 * p + 2));
          y = hash_bytes (T (2 * p + 1)) @ hash_bytes (T (2 * p + 2))
      in x \<noteq> y \<and> zhash x = zhash y)"

lemma path_hash_true:
  assumes m: "minv zhash {} zf" and T: "true_tree zhash (length (tree zf)) T" and r: "hs zf 0 = T 0"
    and no: "\<nexists>p. 2 * p + 2 < length (tree zf) \<and> collision_at zhash zf T p"
  shows "i < length (tree zf) \<Longrightarrow> path_validated zf i \<Longrightarrow> hs zf i = T i"
proof (induction i rule: less_induct)
  case (less i)
  show ?case
  proof (cases "i = 0")
    case False
    let ?p = "(i - 1) div 2"
    have s: "shape zf" and a: "anchored zhash zf" using m by (simp_all add: minv_def)
    have ip: "i = 2 * ?p + 1 \<or> i = 2 * ?p + 2" using False by presburger
    have lt: "2 * ?p + 2 < length (tree zf)" using ip less.prems(1) length_tree_odd [OF s] by presburger
    from less.prems(2) False have pv: "st zf i = v_validated" "path_validated zf ?p"
      by (simp_all add: path_validated.simps [of zf i] split: if_splits)
    have hp: "hs zf ?p = T ?p" using less.IH [of ?p] False pv(2) less.prems(1) by simp
    from pv(1) ip have "st zf (2 * ?p + 1) = v_validated \<or> st zf (2 * ?p + 2) = v_validated" by metis
    from a [unfolded anchored_def, rule_format, OF lt this] have "hs zf ?p = pair_hash zhash zf ?p" by simp
    moreover have "T ?p = zhash (hash_bytes (T (2 * ?p + 1)) @ hash_bytes (T (2 * ?p + 2)))"
      using T lt unfolding true_tree_def by blast
    ultimately have "hash_bytes (hs zf (2 * ?p + 1)) @ hash_bytes (hs zf (2 * ?p + 2)) =
        hash_bytes (T (2 * ?p + 1)) @ hash_bytes (T (2 * ?p + 2))"
      using no lt hp unfolding collision_at_def pair_hash_def Let_def by metis
    then have "hs zf (2 * ?p + 1) = T (2 * ?p + 1)" "hs zf (2 * ?p + 2) = T (2 * ?p + 2)" by simp_all
    with ip show ?thesis by metis
  qed (use r in simp)
qed

subsection \<open>A pair of hashes that no ancestor vouches for\<close>

text \<open>The file right after its metadata were installed, with one more tentative node.\<close>

lemma mark_without_sibling:
  assumes "shape zf" and "unat loc < length (tree zf)" and "0 < loc" and "st zf (unat loc) = v_unknown"
    and "parent_location loc = p" and "sibling_location loc = Some sib" and "unat sib < length (tree zf)"
    and "st zf (unat sib) = v_unknown" and "2 * unat p + 2 < length (tree zf)" and "unat sib \<noteq> unat loc"
    and "unat p \<noteq> unat loc"
    and "(unat loc = 2 * unat p + 1 \<and> unat sib = 2 * unat p + 2) \<or> (unat loc = 2 * unat p + 2 \<and> unat sib = 2 * unat p + 1)"
  shows "mark_node_tentative zhash zf loc = Some (set_tentative (unat loc) zf)"
proof -
  let ?z = "set_tentative (unat loc) zf"
  note c = children_in_tree [OF assms(1,9)]
  have "st ?z (unat sib) = v_unknown" using assms(2,8,10) by simp
  then have "track_parent_of_tentative_nodes ?z p = Some ?z"
    using assms(9,12) c by (auto simp: track_parent_of_tentative_nodes_def rd_def)
  then show ?thesis
    using assms by (subst mark_node_tentative.simps) (simp add: rd_def set_tentative_def Let_def)
qed

lemma kin_3_4_1:
  "parent_location 3 = 1" "sibling_location 3 = Some 4" "parent_location 4 = 1" "sibling_location 4 = Some 3"
  "parent_location 1 = 0" "sibling_location 1 = Some 2"
  by code_simp+

definition set_hash :: "nat \<Rightarrow> hash_t \<Rightarrow> ZCachedFile \<Rightarrow> ZCachedFile" where
  "set_hash n h zf = zf\<lparr>tree := (tree zf)[n := (tree zf ! n)\<lparr>vmr_hash := h\<rparr>]\<rparr>"

lemma set_hash_sel [simp]:
  "length (tree (set_hash n h zf)) = length (tree zf)"
  "n < length (tree zf) \<Longrightarrow> st (set_hash n h zf) i = st zf i"
  "n < length (tree zf) \<Longrightarrow> hs (set_hash n h zf) i = (if i = n then h else hs zf i)"
  "n < length (tree zf) \<Longrightarrow> vmr_location (tree (set_hash n h zf) ! i) = vmr_location (tree zf ! i)"
  "tree_depth (set_hash n h zf) = tree_depth zf" "tree_size (set_hash n h zf) = tree_size zf"
  "parents_of_tentative_nodes (set_hash n h zf) = parents_of_tentative_nodes zf"
  by (simp_all add: set_hash_def nth_list_update)

lemma shape_steps:
  "n < length (tree zf) \<Longrightarrow> shape zf \<Longrightarrow> shape (set_hash n h zf)"
  "n < length (tree zf) \<Longrightarrow> 0 < n \<Longrightarrow> shape zf \<Longrightarrow> shape (set_tentative n zf)"
  by (simp_all add: shape_def)

lemma mark_unfold:
  assumes "unat loc < length (tree zf)" and "st zf (unat loc) \<noteq> v_validated" and "0 < loc"
    and "parent_location loc = p" and "sibling_location loc = Some sib"
    and "track_parent_of_tentative_nodes (set_tentative (unat loc) zf) p = Some z2"
    and "unat p < length (tree z2)" and "unat sib < length (tree z2)"
  shows "mark_node_tentative zhash zf loc =
    (if st z2 (unat p) = v_unknown \<and> st z2 (unat sib) \<noteq> v_unknown
     then do { h \<leftarrow> hash_children zhash z2 loc sib; mark_node_tentative zhash (set_hash (unat p) h z2) p }
     else Some z2)"
  using assms by (subst mark_node_tentative.simps) (simp add: rd_def Let_def set_tentative_def set_hash_def)

lemma install_unknown:
  assumes "st zf (unat loc) = v_unknown" and "unat loc < length (tree zf)"
  shows "install_merkle_record zhash (zf, c) \<lparr>tree_location = loc, mr_hash = h\<rparr> =
           map_option (\<lambda>zf'. (zf', True)) (mark_node_tentative zhash (set_hash (unat loc) h zf) loc)"
  using assms
  by (cases "mark_node_tentative zhash (set_hash (unat loc) h zf) loc")
     (simp_all add: install_merkle_record_def rd_def Let_def set_hash_def)

lemma forged_pair_installed:
  assumes m: "minv zhash {} zf" and f: "fresh_tree zf root" and len: "7 \<le> length (tree zf)"
    and q: "ht_mset (parents_of_tentative_nodes zf) = {#}"
  shows "\<exists>zf1. install_merkle_records zhash zf
             [\<lparr>tree_location = 3, mr_hash = a\<rparr>, \<lparr>tree_location = 4, mr_hash = b\<rparr>] = Some (zf1, True) \<and>
           minv zhash {} zf1 \<and> hs zf1 3 = a \<and> hs zf1 4 = b \<and> hs zf1 1 = pair_hash zhash zf1 1 \<and>
           1 \<in># ht_mset (parents_of_tentative_nodes zf1)"
proof -
  let ?rs = "[\<lparr>tree_location = 3, mr_hash = a\<rparr>, \<lparr>tree_location = 4, mr_hash = b\<rparr>]"
  have u: "st zf 1 = v_unknown" "st zf 2 = v_unknown" "st zf 3 = v_unknown" "st zf 4 = v_unknown"
    using f len by (auto simp: fresh_tree_def)
  have lt: "1 < length (tree zf)" "2 < length (tree zf)" "3 < length (tree zf)" "4 < length (tree zf)" using len by auto
  from m have sh: "shape zf" and rdy: "vmr.ready (parents_of_tentative_nodes zf)" by (simp_all add: minv_def queue_ok_def)
  define z1 where "z1 = set_tentative 3 (set_hash 3 a zf)"
  have s1: "install_merkle_record zhash (zf, False) \<lparr>tree_location = 3, mr_hash = a\<rparr> = Some (z1, True)"
    using u lt sh by (simp add: install_unknown z1_def mark_without_sibling [where p = 1 and sib = 4] kin_3_4_1 shape_steps)
  have "\<forall>x \<in># ht_mset (parents_of_tentative_nodes zf). vmr_cmp 1 x \<noteq> 0" using q by simp
  from vmr.table.ins_new [OF rdy this] obtain ht where
    ht: "hash_table_union (parents_of_tentative_nodes zf) 1 = Some ht" "ht_mset ht = {#1#}" using q by auto
  define z2 where "z2 = set_tentative 4 (set_hash 4 b z1)"
  define z3 where "z3 = z2\<lparr>parents_of_tentative_nodes := ht\<rparr>"
  define z4 where "z4 = set_hash 1 (pair_hash zhash z3 1) z3"
  have sel2: "length (tree z2) = length (tree zf)" "st z2 1 = v_unknown" "st z2 2 = v_unknown" "st z2 3 = v_tentative"
    "st z2 4 = v_tentative" "hs z2 3 = a" "hs z2 4 = b" "parents_of_tentative_nodes z2 = parents_of_tentative_nodes zf"
    using u lt by (simp_all add: z2_def z1_def)
  have sh2: "shape z2" using sh lt by (simp add: z2_def z1_def shape_steps)
  have sh3: "shape z3" and sh4: "shape z4" using sh2 lt sel2(1) by (simp_all add: z3_def z4_def shape_steps)
  have c1: "unat (left_child 1) = 3" "unat (right_child 1) = 4"
    using children_in_tree [OF sh, of 1] len by simp_all
  have t: "track_parent_of_tentative_nodes z2 1 = Some z3"
    using sel2 c1 lt ht(1) by (simp add: track_parent_of_tentative_nodes_def rd_def z3_def)
  have h: "hash_children zhash z3 4 3 = Some (pair_hash zhash z3 1)"
    using sel2(1) lt len by (intro hash_children_ok [OF sh3]) (simp_all add: z3_def)
  have up: "mark_node_tentative zhash z4 1 = Some (set_tentative 1 z4)"
    using sel2 lt len
    by (subst mark_without_sibling [OF sh4, where p = 0 and sib = 2]) (simp_all add: kin_3_4_1 z4_def z3_def)
  have b4: "unat (4 :: u32) < length (tree z1)" "st z1 (unat (4 :: u32)) = v_unknown"
    using u lt by (simp_all add: z1_def)
  have "mark_node_tentative zhash (set_hash 4 b z1) 4 = Some (set_tentative 1 z4)"
    using t h up sel2 lt u b4
    by (subst mark_unfold [where p = 1 and sib = 3 and ?z2.0 = z3])
       (simp_all add: kin_3_4_1 z2_def [symmetric] z4_def, simp_all add: z3_def)
  then have run: "install_merkle_records zhash zf ?rs = Some (set_tentative 1 z4, True)"
    using s1 install_unknown [OF b4(2,1), of zhash True b] by (simp add: install_merkle_records_def)
  have "\<exists>zf' c'. foldM (install_merkle_record zhash) (zf, False) ?rs = Some (zf', c') \<and> minv zhash {} zf' \<and> extends zf zf'"
    using u lt by (intro install_merkle_records_ok [OF m]) simp
  then have "minv zhash {} (set_tentative 1 z4)" using run by (auto simp: install_merkle_records_def)
  moreover have "pair_hash zhash z3 1 = pair_hash zhash (set_tentative 1 z4) 1"
    using sel2(1) lt by (simp add: pair_hash_def z4_def z3_def)
  then have "hs (set_tentative 1 z4) 1 = pair_hash zhash (set_tentative 1 z4) 1"
    using sel2(1) lt by (simp add: z4_def z3_def)
  moreover have "hs (set_tentative 1 z4) 3 = a" "hs (set_tentative 1 z4) 4 = b"
    "1 \<in># ht_mset (parents_of_tentative_nodes (set_tentative 1 z4))"
    using sel2 lt ht(2) by (simp_all add: z4_def z3_def)
  ultimately show ?thesis using run by blast
qed

subsection \<open>Properties\<close>

text \<open>A file of \<open>n\<close> nodes, only the root validated, and the same file with every node validated.\<close>

definition sample_tree :: "nat \<Rightarrow> nat \<Rightarrow> ZCachedFile" where
  "sample_tree d k =
     \<lparr>file_hash = 0, metadata = \<lparr>file_len_network_order = 0, md_flags = 0\<rparr>, metadata_state = v_validated,
      file_len = 0, num_blocks = 0, tree_depth = of_nat d, tree_size = of_nat (2 ^ (d + 1) - 1),
      tree = map (\<lambda>i. \<lparr>vmr_location = of_nat i, vmr_hash = 0,
                        vmr_state = (if i \<le> k then v_validated else v_unknown)\<rparr>) [0..<2 ^ (d + 1) - 1],
      parents_of_tentative_nodes = hash_table_init vmr_key_hash vmr_cmp\<rparr>"

lemma sample_tree_sel:
  "length (tree (sample_tree d k)) = 2 ^ (d + 1) - 1"
  "i < 2 ^ (d + 1) - 1 \<Longrightarrow> tree (sample_tree d k) ! i =
     \<lparr>vmr_location = of_nat i, vmr_hash = 0, vmr_state = (if i \<le> k then v_validated else v_unknown)\<rparr>"
  "ht_mset (parents_of_tentative_nodes (sample_tree d k)) = {#}"
  by (simp_all add: sample_tree_def init_inv(2))

lemma sample_tree_shape: "d \<le> 3 \<Longrightarrow> shape (sample_tree d k)"
proof -
  assume d: "d \<le> 3"
  then have "unat (of_nat d :: u16) = d" by (simp add: unat_of_nat take_bit_nat_eq_self)
  then have "unat (tree_depth (sample_tree d k)) = d" by (simp add: sample_tree_def)
  moreover have "tree_size (sample_tree d k) = of_nat (length (tree (sample_tree d k)))"
    by (simp add: sample_tree_def)
  moreover have "st (sample_tree d k) 0 = v_validated"
    using one_less_power [of "2 :: nat" "d + 1"] by (subst sample_tree_sel(2)) simp_all
  ultimately show ?thesis using d by (auto simp: shape_def sample_tree_sel)
qed

lemma sample_tree_queue: "vmr.ready (parents_of_tentative_nodes (sample_tree d k))"
  by (simp add: sample_tree_def vmr.ready_init)

lemma sample_tree_fresh: "d \<le> 3 \<Longrightarrow> fresh_tree (sample_tree d 0) 0"
  using one_less_power [of "2 :: nat" "d + 1"] by (auto simp: fresh_tree_def sample_tree_sel)

text \<open>A tree of three nodes of which the root is known, and the two hashes below it.\<close>

lemma pair_installed:
  assumes m: "minv zhash {} zf" and f: "fresh_tree zf root" and len: "length (tree zf) = 3"
    and q: "ht_mset (parents_of_tentative_nodes zf) = {#}"
  shows "\<exists>zf1. foldM (install_merkle_record zhash) (zf, c)
             [\<lparr>tree_location = 1, mr_hash = a\<rparr>, \<lparr>tree_location = 2, mr_hash = b\<rparr>] = Some (zf1, True) \<and>
           hs zf1 0 = root \<and> hs zf1 1 = a \<and> hs zf1 2 = b \<and> 0 \<in># ht_mset (parents_of_tentative_nodes zf1)"
proof -
  have u: "st zf 1 = v_unknown" "st zf 2 = v_unknown" "hs zf 0 = root" using f len by (auto simp: fresh_tree_def)
  have lt: "0 < length (tree zf)" "1 < length (tree zf)" "2 < length (tree zf)" using len by auto
  from m have sh: "shape zf" and rdy: "vmr.ready (parents_of_tentative_nodes zf)" by (simp_all add: minv_def queue_ok_def)
  from sh have r: "st zf 0 = v_validated" by (simp add: shape_def)
  have kin: "parent_location 1 = 0" "sibling_location 1 = Some 2" "parent_location 2 = 0" "sibling_location 2 = Some 1"
    by code_simp+
  define z1 where "z1 = set_tentative 1 (set_hash 1 a zf)"
  have s1: "install_merkle_record zhash (zf, c) \<lparr>tree_location = 1, mr_hash = a\<rparr> = Some (z1, True)"
    using u lt sh by (simp add: install_unknown z1_def mark_without_sibling [where p = 0 and sib = 2] kin shape_steps)
  have "\<forall>x \<in># ht_mset (parents_of_tentative_nodes zf). vmr_cmp 0 x \<noteq> 0" using q by simp
  from vmr.table.ins_new [OF rdy this] obtain ht where
    ht: "hash_table_union (parents_of_tentative_nodes zf) 0 = Some ht" "ht_mset ht = {#0#}" using q by auto
  define z2 where "z2 = set_tentative 2 (set_hash 2 b z1)"
  define z3 where "z3 = z2\<lparr>parents_of_tentative_nodes := ht\<rparr>"
  have sel2: "length (tree z2) = length (tree zf)" "st z2 0 = v_validated" "st z2 1 = v_tentative" "st z2 2 = v_tentative"
    "hs z2 0 = root" "hs z2 1 = a" "hs z2 2 = b" "parents_of_tentative_nodes z2 = parents_of_tentative_nodes zf"
    using u lt r by (simp_all add: z2_def z1_def)
  have ne: "tree z2 \<noteq> []" using sel2(1) lt(1) by auto
  have c0: "unat (left_child 0) = 1" "unat (right_child 0) = 2" using children_in_tree [OF sh, of 0] len by simp_all
  have t: "track_parent_of_tentative_nodes z2 0 = Some z3"
    using sel2 c0 lt ht(1) by (simp add: track_parent_of_tentative_nodes_def rd_def z3_def)
  have b2: "unat (2 :: u32) < length (tree z1)" "st z1 (unat (2 :: u32)) = v_unknown" using u lt by (simp_all add: z1_def)
  have "mark_node_tentative zhash (set_hash 2 b z1) 2 = Some z3"
    using t sel2 lt b2 ne
    by (subst mark_unfold [where p = 0 and sib = 1 and ?z2.0 = z3])
       (simp_all add: kin z2_def [symmetric], simp_all add: z3_def)
  with s1 install_unknown [OF b2(2,1), of zhash True b] sel2 ht(2) show ?thesis by (simp add: z3_def)
qed

text \<open>A hash function with one known pair.\<close>

definition pair_hash_fun :: "bytes \<Rightarrow> hash_t" where
  "pair_hash_fun bs = (if bs = hash_bytes 5 @ hash_bytes 9 then 14 else 3)"

definition pair_tree :: ZCachedFile where
  "pair_tree = set_hash 0 14 (sample_tree 1 0)"

lemma pair_tree_fresh: "fresh_tree pair_tree 14" "length (tree pair_tree) = 3" "ht_mset (parents_of_tentative_nodes pair_tree) = {#}"
  using sample_tree_fresh [of 1] sample_tree_sel(3) [of 1 0] by (simp_all add: pair_tree_def fresh_tree_def sample_tree_sel)

lemma pair_tree_minv: "minv zhash {} pair_tree"
proof (rule fresh_tree_minv [OF _ pair_tree_fresh(1) _ pair_tree_fresh(3)])
  show "shape pair_tree"
    unfolding pair_tree_def by (rule shape_steps) (simp_all add: sample_tree_shape sample_tree_sel)
  show "vmr.ready (parents_of_tentative_nodes pair_tree)" using sample_tree_queue [of 1 0] by (simp add: pair_tree_def)
qed

text \<open>C3. Installing the hashes of a reply returns exactly when every location lies in the tree and every record
  for a validated node carries its hash; otherwise it reads behind the tree or fails an assertion. When it
  returns, every node of the reply is known, and validating returns too. Every parent awaiting
  validation whose hash is the hash of its pair of children has validated children afterwards. The invariant is kept: a
  validated node has a validated sibling and their pair hashes to the parent. No hash of a known node
  changes, no validated node loses its state, and the table of parents awaiting validation is empty.\<close>

theorem merkle_install_validate:
  assumes "minv zhash {} zf"
  shows "if \<forall>r \<in> set rs. unat (tree_location r) < length (tree zf) \<and>
           (vmr_state (tree zf ! unat (tree_location r)) = v_validated \<longrightarrow>
            vmr_hash (tree zf ! unat (tree_location r)) = mr_hash r)
    then \<exists>zf1 c zf2 res. install_merkle_records zhash zf rs = Some (zf1, c) \<and>
           validate_tentative_hashes zhash zf1 = Some (zf2, res) \<and> minv zhash {} zf1 \<and> minv zhash {} zf2 \<and>
           (\<forall>r \<in> set rs. vmr_state (tree zf1 ! unat (tree_location r)) \<noteq> v_unknown) \<and>
           (\<forall>p \<in># ht_mset (parents_of_tentative_nodes zf1). vmr_hash (tree zf1 ! unat p) = pair_hash zhash zf1 (unat p) \<longrightarrow>
              vmr_state (tree zf2 ! (2 * unat p + 1)) = v_validated \<and> vmr_state (tree zf2 ! (2 * unat p + 2)) = v_validated) \<and>
           (\<forall>i < length (tree zf). vmr_state (tree zf ! i) \<noteq> v_unknown \<longrightarrow>
              vmr_hash (tree zf2 ! i) = vmr_hash (tree zf ! i) \<and> vmr_state (tree zf2 ! i) \<noteq> v_unknown \<and>
              (vmr_state (tree zf ! i) = v_validated \<longrightarrow> vmr_state (tree zf2 ! i) = v_validated)) \<and>
           ht_mset (parents_of_tentative_nodes zf2) = {#}
    else install_merkle_records zhash zf rs = None"
proof (cases "\<forall>r \<in> set rs. installable zf r")
  case True
  with install_merkle_records_exact [OF assms, of rs False] obtain z1 c where
    z1: "install_merkle_records zhash zf rs = Some (z1, c)" "minv zhash {} z1" "extends zf z1"
      "\<forall>r \<in> set rs. st z1 (unat (tree_location r)) \<noteq> v_unknown"
    by (auto simp: install_merkle_records_def)
  from validate_tentative_hashes_ok [OF z1(2)] obtain z2 r where
    z2: "validate_tentative_hashes zhash z1 = Some (z2, r)" "minv zhash {} z2" "same_hashes z1 z2"
      "ht_mset (parents_of_tentative_nodes z2) = {#}"
      "\<forall>p \<in># ht_mset (parents_of_tentative_nodes z1). hs z1 (unat p) = pair_hash zhash z1 (unat p) \<longrightarrow>
              st z2 (2 * unat p + 1) = v_validated \<and> st z2 (2 * unat p + 2) = v_validated" by blast
  have "tree z1 ! i = tree zf ! i" if "i < length (tree zf)" "st zf i \<noteq> v_unknown" for i
    using z1(3) that by (auto simp: extends_def)
  with z2(3) have k: "\<forall>i < length (tree zf). st zf i \<noteq> v_unknown \<longrightarrow>
      hs z2 i = hs zf i \<and> st z2 i \<noteq> v_unknown \<and> (st zf i = v_validated \<longrightarrow> st z2 i = v_validated)"
    by (simp add: same_hashes_def)
  note c = True [unfolded installable_def]
  show ?thesis unfolding if_P [OF c] using z1 z2 k by blast
next
  case False
  then show ?thesis
    using install_merkle_records_exact [OF assms, of rs False]
    by (subst if_not_P) (auto simp: install_merkle_records_def installable_def split: if_splits)
qed

theorem merkle_install_validate_witness:
  "(\<exists>zf1 c zf2 res. install_merkle_records pair_hash_fun pair_tree
        [\<lparr>tree_location = 1, mr_hash = 5\<rparr>, \<lparr>tree_location = 2, mr_hash = 9\<rparr>] = Some (zf1, c) \<and>
      validate_tentative_hashes pair_hash_fun zf1 = Some (zf2, res) \<and> minv pair_hash_fun {} zf2 \<and>
      vmr_state (tree zf2 ! 1) = v_validated \<and> vmr_state (tree zf2 ! 2) = v_validated) \<and>
   install_merkle_records pair_hash_fun pair_tree [\<lparr>tree_location = 3, mr_hash = 5\<rparr>] = None"
proof -
  let ?rs = "[\<lparr>tree_location = 1, mr_hash = 5\<rparr>, \<lparr>tree_location = 2, mr_hash = 9\<rparr>]"
  have st: "st pair_tree 1 = v_unknown" "st pair_tree 2 = v_unknown" using pair_tree_fresh(1,2) by (auto simp: fresh_tree_def)
  from pair_installed [OF pair_tree_minv pair_tree_fresh, of pair_hash_fun False 5 9] obtain z1 where
    z1: "install_merkle_records pair_hash_fun pair_tree ?rs = Some (z1, True)"
      "hs z1 0 = pair_hash pair_hash_fun z1 0" "0 \<in># ht_mset (parents_of_tentative_nodes z1)"
    by (auto simp: install_merkle_records_def pair_hash_def pair_hash_fun_def numeral_2_eq_2)
  from merkle_install_validate [OF pair_tree_minv, of ?rs pair_hash_fun] z1(1) st obtain z2 res where
    z2: "validate_tentative_hashes pair_hash_fun z1 = Some (z2, res)" "minv pair_hash_fun {} z2"
      "\<forall>p \<in># ht_mset (parents_of_tentative_nodes z1). hs z1 (unat p) = pair_hash pair_hash_fun z1 (unat p) \<longrightarrow>
         st z2 (2 * unat p + 1) = v_validated \<and> st z2 (2 * unat p + 2) = v_validated"
    by (auto simp: pair_tree_fresh(2))
  from bspec [OF z2(3) z1(3)] z1(2) have "st z2 1 = v_validated" "st z2 2 = v_validated" by (simp_all add: numeral_2_eq_2)
  moreover have "install_merkle_records pair_hash_fun pair_tree [\<lparr>tree_location = 3, mr_hash = 5\<rparr>] = None"
    using merkle_install_validate [OF pair_tree_minv, of "[\<lparr>tree_location = 3, mr_hash = 5\<rparr>]" pair_hash_fun]
    by (simp add: pair_tree_fresh(2))
  ultimately show ?thesis using z1(1) z2(1,2) by blast
qed

text \<open>C16. Metadata are accepted exactly when the reply has a root record and metadata and root hash
  hash to the name of the file. The accepted tree is well formed, holds the root hash of the reply
  as its only known hash, and the metadata are from then on validated.\<close>

theorem install_metadata_anchors:
  assumes "metadata_state zf = v_unknown"
    and "unat (compute_tree_depth (compute_num_blocks (z_ntohl (file_len_network_order md)))) \<le> 30"
    and "vmr.ready (parents_of_tentative_nodes zf)" and "ht_mset (parents_of_tentative_nodes zf) = {#}"
  shows "(case find_root_merkle_record rs of
            None \<Rightarrow> install_metadata zhash zf md rs = Some (zf, FAIL)
          | Some r \<Rightarrow>
              if compute_file_hash zhash md (mr_hash r) = file_hash zf
              then \<exists>zf'. install_metadata zhash zf md rs = Some (zf', NEW_DATA) \<and> minv zhash {} zf' \<and>
                     fresh_tree zf' (mr_hash r) \<and> metadata zf' = md \<and> metadata_state zf' = v_validated \<and>
                     file_hash zf' = file_hash zf
              else install_metadata zhash zf md rs = Some (zf, FAIL))"
proof (cases "find_root_merkle_record rs")
  case (Some r)
  then show ?thesis
    using install_metadata_ok [OF assms(1) Some _ assms(2-4), of zhash] assms(1)
    by (cases "compute_file_hash zhash md (mr_hash r) = file_hash zf") (simp_all add: install_metadata_def)
qed (simp add: install_metadata_def assms(1))

theorem install_metadata_anchors_witness:
  "\<exists>zf'. install_metadata (\<lambda>_. 0) ((sample_tree 0 0)\<lparr>metadata_state := v_unknown\<rparr>)
        \<lparr>file_len_network_order = z_htonl 0x40000, md_flags = 0\<rparr> [\<lparr>tree_location = 0, mr_hash = 7\<rparr>] =
        Some (zf', NEW_DATA) \<and> fresh_tree zf' 7"
proof -
  have "unat (compute_tree_depth (compute_num_blocks (z_ntohl (z_htonl 0x40000)))) \<le> 30" by code_simp
  then show ?thesis
    using install_metadata_anchors [of "(sample_tree 0 0)\<lparr>metadata_state := v_unknown\<rparr>"
        "\<lparr>file_len_network_order = z_htonl 0x40000, md_flags = 0\<rparr>" "\<lambda>_. 0" "[\<lparr>tree_location = 0, mr_hash = 7\<rparr>]"]
      sample_tree_queue [of 0 0] sample_tree_sel(3) [of 0 0]
    by (auto simp: find_root_merkle_record_def compute_file_hash_def) (auto simp: sample_tree_def)
qed

text \<open>C27. A validated state alone is no proof of authenticity: on a tree of at least two levels of which only the
  root is known, a reply with any two hashes for nodes 3 and 4 makes both validated, whatever the
  root hash is, because their parent's hash is computed from them and never compared with the root.\<close>

theorem unanchored_pair_validated:
  assumes "minv zhash {} zf" and "fresh_tree zf root" and "7 \<le> length (tree zf)"
    and "ht_mset (parents_of_tentative_nodes zf) = {#}"
  shows "\<exists>zf1 zf2 r. install_merkle_records zhash zf
             [\<lparr>tree_location = 3, mr_hash = a\<rparr>, \<lparr>tree_location = 4, mr_hash = b\<rparr>] = Some (zf1, True) \<and>
           validate_tentative_hashes zhash zf1 = Some (zf2, r) \<and>
           vmr_state (tree zf2 ! 3) = v_validated \<and> vmr_hash (tree zf2 ! 3) = a \<and>
           vmr_state (tree zf2 ! 4) = v_validated \<and> vmr_hash (tree zf2 ! 4) = b"
proof -
  from forged_pair_installed [OF assms, of a b] obtain z1 where
    z1: "install_merkle_records zhash zf
           [\<lparr>tree_location = 3, mr_hash = a\<rparr>, \<lparr>tree_location = 4, mr_hash = b\<rparr>] = Some (z1, True)"
      "minv zhash {} z1" "hs z1 3 = a" "hs z1 4 = b" "hs z1 1 = pair_hash zhash z1 1"
      "1 \<in># ht_mset (parents_of_tentative_nodes z1)" by blast
  from validate_tentative_hashes_ok [OF z1(2)] obtain z2 r where
    z2: "validate_tentative_hashes zhash z1 = Some (z2, r)" "same_hashes z1 z2"
      "\<forall>p \<in># ht_mset (parents_of_tentative_nodes z1). hs z1 (unat p) = pair_hash zhash z1 (unat p) \<longrightarrow>
         st z2 (2 * unat p + 1) = v_validated \<and> st z2 (2 * unat p + 2) = v_validated" by blast
  from z2(3) z1(5,6) have "st z2 3 = v_validated" "st z2 4 = v_validated" by (auto dest!: bspec)
  with z1 z2(1,2) show ?thesis by (auto simp: same_hashes_def)
qed

theorem unanchored_pair_validated_witness:
  "\<exists>zf1 zf2 r. install_merkle_records (\<lambda>_. 5) (sample_tree 2 0)
        [\<lparr>tree_location = 3, mr_hash = 10\<rparr>, \<lparr>tree_location = 4, mr_hash = 11\<rparr>] = Some (zf1, True) \<and>
     validate_tentative_hashes (\<lambda>_. 5) zf1 = Some (zf2, r) \<and>
     vmr_state (tree zf2 ! 3) = v_validated \<and> vmr_hash (tree zf2 ! 3) = 10"
proof -
  have "minv (\<lambda>_. 5) {} (sample_tree 2 0)"
    by (rule fresh_tree_minv [OF sample_tree_shape sample_tree_fresh sample_tree_queue sample_tree_sel(3)]) simp_all
  from unanchored_pair_validated [OF this sample_tree_fresh _ sample_tree_sel(3), of 10 11] show ?thesis
    by (force simp: sample_tree_sel)
qed

end
