(* ===== verification/DataRange.thy ===== *)
theory DataRange
  imports Prelude
begin

text \<open>
  Byte ranges of a file, \<open>src/common/zftp_module/DataRange.cpp\<close> and \<open>DataRange.h\<close>: half-open
  intervals of 32-bit offsets. A range denotes the set of offsets between its bounds; the lemmas
  relate the operations to the set operations.
\<close>

record DataRange =
  dr_start :: u32
  dr_end :: u32

definition DataRange_new :: DataRange where
  "DataRange_new = \<lparr>dr_start = 0, dr_end = 0\<rparr>"

definition DataRange_of :: "u32 \<Rightarrow> u32 \<Rightarrow> DataRange" where
  "DataRange_of s e = \<lparr>dr_start = s, dr_end = e\<rparr>"

definition DataRange_size :: "DataRange \<Rightarrow> u32" where
  "DataRange_size r = dr_end r - dr_start r"

definition DataRange_is_empty :: "DataRange \<Rightarrow> bool" where
  "DataRange_is_empty r \<longleftrightarrow> dr_start r = dr_end r"

definition DataRange_maybe_accumulate :: "DataRange \<Rightarrow> u32 \<Rightarrow> u32 \<Rightarrow> DataRange \<times> bool" where
  "DataRange_maybe_accumulate r s e =
     (if DataRange_is_empty r then (\<lparr>dr_start = s, dr_end = e\<rparr>, True)
      else if e = dr_start r then (r\<lparr>dr_start := s\<rparr>, True)
      else if s = dr_end r then (r\<lparr>dr_end := e\<rparr>, True)
      else if dr_start r \<le> s \<and> e \<le> dr_end r then (r, True)
      else (r, False))"

definition DataRange_accumulate :: "DataRange \<Rightarrow> u32 \<Rightarrow> u32 \<Rightarrow> DataRange option" where
  "DataRange_accumulate r s e =
     (case DataRange_maybe_accumulate r s e of (r', worked) \<Rightarrow> do { lite_assert worked; Some r' })"

definition DataRange_intersect :: "DataRange \<Rightarrow> DataRange \<Rightarrow> DataRange" where
  "DataRange_intersect r other =
     (if \<not> (DataRange_is_empty r \<or> DataRange_is_empty other)
      then let s = max (dr_start r) (dr_start other); e = min (dr_end r) (dr_end other)
           in if s > e then \<lparr>dr_start = 0, dr_end = 0\<rparr> else \<lparr>dr_start = s, dr_end = e\<rparr>
      else DataRange_new)"

definition DataRange_equals :: "DataRange \<Rightarrow> DataRange \<Rightarrow> bool" where
  "DataRange_equals r other \<longleftrightarrow> dr_start r = dr_start other \<and> dr_end r = dr_end other"

subsection \<open>Ranges as sets of offsets\<close>

definition dr_wf :: "DataRange \<Rightarrow> bool" where
  "dr_wf r \<longleftrightarrow> dr_start r \<le> dr_end r"

definition dr_bytes :: "DataRange \<Rightarrow> u32 set" where
  "dr_bytes r = {i. dr_start r \<le> i \<and> i < dr_end r}"

lemma empty_bytes: "dr_wf r \<Longrightarrow> DataRange_is_empty r \<longleftrightarrow> dr_bytes r = {}"
  unfolding dr_wf_def dr_bytes_def DataRange_is_empty_def
  by (metis (mono_tags, lifting) Collect_empty_eq antisym_conv1 leD order_refl)

lemma intersect_bytes: "dr_bytes (DataRange_intersect r s) = dr_bytes r \<inter> dr_bytes s"
proof -
  have "dr_bytes DataRange_new = {}" by (simp add: dr_bytes_def DataRange_new_def)
  moreover have "dr_bytes r = {} \<or> dr_bytes s = {}" if "DataRange_is_empty r \<or> DataRange_is_empty s"
    using that by (auto simp: dr_bytes_def DataRange_is_empty_def)
  moreover have "dr_bytes r \<inter> dr_bytes s = {}" if "max (dr_start r) (dr_start s) > min (dr_end r) (dr_end s)"
    using that by (auto simp: dr_bytes_def max_def min_def split: if_splits)
  ultimately show ?thesis
    by (auto simp: DataRange_intersect_def Let_def dr_bytes_def)
qed

lemma intersect_wf: "dr_wf (DataRange_intersect r s)"
  by (auto simp: DataRange_intersect_def Let_def dr_wf_def DataRange_new_def not_less)

lemma accumulate_bytes:
  assumes "dr_wf r" and "s \<le> e" and "DataRange_maybe_accumulate r s e = (r', True)"
  shows "dr_wf r'" and "dr_bytes r' = dr_bytes r \<union> dr_bytes (DataRange_of s e)"
proof -
  show "dr_wf r'" using assms
    by (auto simp: DataRange_maybe_accumulate_def dr_wf_def split: if_splits intro: order_trans)
  show "dr_bytes r' = dr_bytes r \<union> dr_bytes (DataRange_of s e)"
    using assms
    by (auto simp: DataRange_maybe_accumulate_def dr_wf_def dr_bytes_def DataRange_of_def DataRange_is_empty_def
        split: if_splits)
qed

lemma accumulate_refused:
  assumes "DataRange_maybe_accumulate r s e = (r', False)"
  shows "r' = r" and "e \<noteq> dr_start r" and "s \<noteq> dr_end r" and "s < dr_start r \<or> dr_end r < e"
  using assms by (auto simp: DataRange_maybe_accumulate_def split: if_splits)

subsection \<open>Properties\<close>

text \<open>Accumulating and intersecting byte ranges are union and intersection of the sets of
  offsets: an accumulation that succeeds covers exactly the bytes of both ranges, one that is
  refused leaves the range alone, and an intersection holds exactly the common bytes.\<close>

theorem DataRange_set_operations:
  assumes "dr_wf r" and "s \<le> e" and "DataRange_maybe_accumulate r s e = (r', worked)"
  shows "(worked \<longrightarrow> dr_wf r' \<and> dr_bytes r' = dr_bytes r \<union> dr_bytes (DataRange_of s e)) \<and>
         (\<not> worked \<longrightarrow> r' = r \<and> (s < e \<longrightarrow> \<not> dr_bytes (DataRange_of s e) \<subseteq> dr_bytes r)) \<and>
         dr_bytes (DataRange_intersect r (DataRange_of s e)) = dr_bytes r \<inter> dr_bytes (DataRange_of s e)"
proof (cases worked)
  case True
  with assms(3) have "DataRange_maybe_accumulate r s e = (r', True)" by simp
  from accumulate_bytes [OF assms(1,2) this] True show ?thesis by (simp add: intersect_bytes)
next
  case False
  with assms(3) have "DataRange_maybe_accumulate r s e = (r', False)" by simp
  note r = accumulate_refused(1,4) [OF this]
  have "\<not> dr_bytes (DataRange_of s e) \<subseteq> dr_bytes r" if "s < e"
  proof (cases "s < dr_start r \<or> dr_end r \<le> s")
    case True
    with that have "s \<in> dr_bytes (DataRange_of s e)" "s \<notin> dr_bytes r"
      by (auto simp: dr_bytes_def DataRange_of_def)
    then show ?thesis by blast
  next
    case False
    with r(2) have "dr_end r \<in> dr_bytes (DataRange_of s e)" "dr_end r \<notin> dr_bytes r"
      by (auto simp: dr_bytes_def DataRange_of_def)
    then show ?thesis by blast
  qed
  with False r(1) show ?thesis by (simp add: intersect_bytes)
qed

theorem DataRange_set_operations_witness:
  "dr_bytes (fst (DataRange_maybe_accumulate (DataRange_of 10 20) 20 30)) =
     dr_bytes (DataRange_of 10 20) \<union> dr_bytes (DataRange_of 20 30)"
  using DataRange_set_operations [of "DataRange_of 10 20" 20 30 "DataRange_of 10 30" True]
  by (simp add: dr_wf_def DataRange_of_def DataRange_maybe_accumulate_def DataRange_is_empty_def)

end
