(* ===== verification/Blocks.thy ===== *)
theory Blocks
  imports Merkle LiteLib DataRange
begin

text \<open>
  The block cache, \<open>src/common/zftp_module/ZBlockCacheRecord.cpp\<close>, \<open>ZBlockCache.cpp\<close> and the
  block store of \<open>ZCache.cpp\<close> and \<open>ZBlockDB.cpp\<close>. A block is named by the hash of its
  65536 bytes; its data arrive in order and are checked against the name when the last byte is
  there. A pointer to a block of the cache is the name of the block, so the hash table of the
  cache is a table of names beside the contents of the records. The block database, where one is
  configured, is a map from names to contents; the bytes of a fresh buffer are a parameter
  \<open>mem\<close>.
\<close>

subsection \<open>Block records\<close>

record ZBlockCacheRecord =
  zb_hash :: hash_t
  zb_data :: bytes
  next_gap :: u32
  zb_valid :: bool

type_synonym block_db = "(hash_t \<Rightarrow> bytes option) option"

text \<open>The constructors for an expected hash, for given data, and for a record of the database.\<close>

definition ZBlockCacheRecord_new :: "bytes \<Rightarrow> hash_t \<Rightarrow> ZBlockCacheRecord" where
  "ZBlockCacheRecord_new mem expected_hash =
     \<lparr>zb_hash = expected_hash, zb_data = mem, next_gap = 0, zb_valid = False\<rparr>"

definition load_data_internal :: "ZBlockCacheRecord \<Rightarrow> bytes \<Rightarrow> nat \<Rightarrow> u32 \<Rightarrow> u32 \<Rightarrow> ZBlockCacheRecord option" where
  "load_data_internal b data_source offset physical_size logical_size = do {
     b1 \<leftarrow> (if 0 < physical_size then do {
             lite_assert (next_gap b + physical_size \<le> ZFTP_BLOCK_SIZE);
             d \<leftarrow> lite_memcpy (zb_data b) (unat (next_gap b)) data_source offset (unat physical_size);
             Some (b\<lparr>zb_data := d\<rparr>)
           } else Some b);
     let b2 = b1\<lparr>next_gap := next_gap b1 + physical_size\<rparr>;
     let zero_len = logical_size - physical_size;
     b3 \<leftarrow> (if 0 < zero_len then do {
             lite_assert (next_gap b2 + zero_len \<le> ZFTP_BLOCK_SIZE);
             d \<leftarrow> lite_memset (zb_data b2) (unat (next_gap b2)) 0 (unat zero_len);
             Some (b2\<lparr>zb_data := d\<rparr>)
           } else Some b2);
     Some (b3\<lparr>next_gap := next_gap b3 + zero_len\<rparr>)
   }"

definition ZBlockCacheRecord_of_data ::
    "(bytes \<Rightarrow> hash_t) \<Rightarrow> bytes \<Rightarrow> bytes \<Rightarrow> u32 \<Rightarrow> ZBlockCacheRecord option" where
  "ZBlockCacheRecord_of_data zhash mem in_data valid_data_len = do {
     b \<leftarrow> load_data_internal (ZBlockCacheRecord_new mem 0) in_data 0 valid_data_len ZFTP_BLOCK_SIZE;
     Some (b\<lparr>zb_hash := zhash (zb_data b), zb_valid := True\<rparr>)
   }"

definition ZBlockCacheRecord_of_db :: "hash_t \<Rightarrow> bytes \<Rightarrow> ZBlockCacheRecord" where
  "ZBlockCacheRecord_of_db h v = \<lparr>zb_hash = h, zb_data = v, next_gap = 0, zb_valid = True\<rparr>"

definition peek_data :: "ZBlockCacheRecord \<Rightarrow> bytes option" where
  "peek_data b = do { lite_assert (zb_valid b); Some (zb_data b) }"

text \<open>The store of \<open>ZCache::store_block\<close> and \<open>ZBlockDB::insert\<close>.\<close>

definition store_block :: "block_db \<Rightarrow> ZBlockCacheRecord \<Rightarrow> block_db option" where
  "store_block db b =
     (case db of
        None \<Rightarrow> Some None
      | Some m \<Rightarrow> do { d \<leftarrow> peek_data b; Some (Some (m(zb_hash b \<mapsto> d))) })"

definition retrieve_block :: "block_db \<Rightarrow> hash_t \<Rightarrow> ZBlockCacheRecord option" where
  "retrieve_block db h =
     (case db of None \<Rightarrow> None | Some m \<Rightarrow> map_option (ZBlockCacheRecord_of_db h) (m h))"

definition validate_block ::
    "(bytes \<Rightarrow> hash_t) \<Rightarrow> block_db \<Rightarrow> ZBlockCacheRecord \<Rightarrow> (ZBlockCacheRecord \<times> block_db) option" where
  "validate_block zhash db b = do {
     lite_assert (\<not> zb_valid b);
     if next_gap b < ZFTP_BLOCK_SIZE then Some (b, db)
     else do {
       lite_assert (next_gap b = ZFTP_BLOCK_SIZE);
       lite_assert (zhash (zb_data b) = zb_hash b);
       db' \<leftarrow> store_block db (b\<lparr>zb_valid := True\<rparr>);
       Some (b\<lparr>zb_valid := True\<rparr>, db')
     }
   }"

text \<open>
  \<open>payload\<close> is the payload of the reply, \<open>offset\<close> the place of this block's data in it.
  The difference of payload length and offset is taken in 32 bits.
\<close>

definition receive_data ::
    "(bytes \<Rightarrow> hash_t) \<Rightarrow> block_db \<Rightarrow> ZBlockCacheRecord \<Rightarrow> u32 \<Rightarrow> u32 \<Rightarrow> bytes \<Rightarrow> u32 \<Rightarrow>
      (ZBlockCacheRecord \<times> block_db \<times> bool) option" where
  "receive_data zhash db b start stop payload offset =
     (if start < next_gap b then do { lite_assert (stop \<le> next_gap b); Some (b, db, False) }
      else do {
        lite_assert (next_gap b = start);
        let physical_data_available = min (of_nat (length payload) - offset) (stop - start);
        b1 \<leftarrow> load_data_internal b payload (unat offset) physical_data_available (stop - start);
        (b2, db') \<leftarrow> validate_block zhash db b1;
        Some (b2, db', True)
      })"

definition complete_with_zeros ::
    "(bytes \<Rightarrow> hash_t) \<Rightarrow> block_db \<Rightarrow> ZBlockCacheRecord \<Rightarrow> (ZBlockCacheRecord \<times> block_db) option" where
  "complete_with_zeros zhash db b =
     (if next_gap b < ZFTP_BLOCK_SIZE then do {
        b1 \<leftarrow> load_data_internal b [] 0 0 (ZFTP_BLOCK_SIZE - next_gap b);
        validate_block zhash db b1
      } else Some (b, db))"

definition get_first_gap :: "ZBlockCacheRecord \<Rightarrow> (u32 \<times> u32) option" where
  "get_first_gap b = do { lite_assert (\<not> zb_valid b); Some (next_gap b, ZFTP_BLOCK_SIZE - next_gap b) }"

definition get_missing_range :: "ZBlockCacheRecord \<Rightarrow> DataRange" where
  "get_missing_range b = (if zb_valid b then DataRange_new else DataRange_of (next_gap b) ZFTP_BLOCK_SIZE)"

definition zb_read :: "ZBlockCacheRecord \<Rightarrow> bytes \<Rightarrow> nat \<Rightarrow> u32 \<Rightarrow> u32 \<Rightarrow> bytes option" where
  "zb_read b out_buf p off len = do {
     lite_assert (zb_valid b);
     lite_assert (off + len \<le> ZFTP_BLOCK_SIZE);
     lite_memcpy out_buf p (zb_data b) (unat off) (unat len)
   }"

subsection \<open>The cache\<close>

text \<open>The comparison of the C library: the order of the first bytes that differ.\<close>

fun memcmp :: "bytes \<Rightarrow> bytes \<Rightarrow> int" where
  "memcmp (x # xs) (y # ys) = (if x = y then memcmp xs ys else if x < y then -1 else 1)"
| "memcmp _ _ = 0"

definition cmp_hash :: "hash_t \<Rightarrow> hash_t \<Rightarrow> int" where
  "cmp_hash h0 h1 = memcmp (hash_bytes h0) (hash_bytes h1)"

definition zb_key_hash :: "hash_t \<Rightarrow> u32" where
  "zb_key_hash h = ucast h"

definition zb_cmp :: "hash_t \<Rightarrow> hash_t \<Rightarrow> int" where
  "zb_cmp a b = cmp_hash a b"

record ZBlockCache =
  bc_ht :: "hash_t HashTable"
  bc_blocks :: "hash_t \<Rightarrow> ZBlockCacheRecord option"
  bc_db :: block_db

definition ZBlockCache_new :: "block_db \<Rightarrow> ZBlockCache" where
  "ZBlockCache_new db = \<lparr>bc_ht = hash_table_init zb_key_hash zb_cmp, bc_blocks = Map.empty, bc_db = db\<rparr>"

text \<open>The pointer found, as the name of the block.\<close>

definition bc_lookup :: "ZBlockCache \<Rightarrow> hash_t \<Rightarrow> (ZBlockCache \<times> hash_t option) option" where
  "bc_lookup bc h =
     (case hash_table_lookup (bc_ht bc) h of
        (ht, Some p) \<Rightarrow> Some (bc\<lparr>bc_ht := ht\<rparr>, Some p)
      | (ht, None) \<Rightarrow>
          (case retrieve_block (bc_db bc) h of
             None \<Rightarrow> Some (bc\<lparr>bc_ht := ht\<rparr>, None)
           | Some result \<Rightarrow> do {
               ht1 \<leftarrow> hash_table_insert ht (zb_hash result);
               (let (ht2, result_again) = hash_table_lookup ht1 h in do {
                 lite_assert (result_again = Some (zb_hash result));
                 Some (bc\<lparr>bc_ht := ht2, bc_blocks := (bc_blocks bc)(zb_hash result \<mapsto> result)\<rparr>, Some (zb_hash result))
               })
             }))"

definition bc_insert :: "ZBlockCache \<Rightarrow> ZBlockCacheRecord \<Rightarrow> (ZBlockCache \<times> bool) option" where
  "bc_insert bc block = do {
     (bc1, found) \<leftarrow> bc_lookup bc (zb_hash block);
     (case found of
        None \<Rightarrow> do {
          ht \<leftarrow> hash_table_insert (bc_ht bc1) (zb_hash block);
          db \<leftarrow> store_block (bc_db bc1) block;
          Some (bc1\<lparr>bc_ht := ht, bc_blocks := (bc_blocks bc1)(zb_hash block \<mapsto> block), bc_db := db\<rparr>, True)
        }
      | Some _ \<Rightarrow> Some (bc1, False))
   }"

subsection \<open>Loading data into a block\<close>

definition zb_ok :: "(bytes \<Rightarrow> hash_t) \<Rightarrow> ZBlockCacheRecord \<Rightarrow> bool" where
  "zb_ok zhash b \<longleftrightarrow>
     length (zb_data b) = 65536 \<and> next_gap b \<le> ZFTP_BLOCK_SIZE \<and>
     (if zb_valid b then zhash (zb_data b) = zb_hash b else next_gap b < ZFTP_BLOCK_SIZE)"

definition db_ok :: "(bytes \<Rightarrow> hash_t) \<Rightarrow> block_db \<Rightarrow> bool" where
  "db_ok zhash db \<longleftrightarrow> (\<forall>m h d. db = Some m \<and> m h = Some d \<longrightarrow> length d = 65536 \<and> zhash d = h)"

text \<open>What \<open>n\<close> logical bytes at an offset of a payload are: the payload, then zeros.\<close>

definition piece :: "bytes \<Rightarrow> nat \<Rightarrow> nat \<Rightarrow> bytes" where
  "piece payload off n = take n (drop off payload @ replicate n 0)"

lemma length_piece [simp]: "length (piece payload off n) = n"
  by (simp add: piece_def)

lemma overwrite_overwrite:
  "i + length xs + length ys \<le> length b \<Longrightarrow>
     overwrite (overwrite b i xs) (i + length xs) ys = overwrite b i (xs @ ys)"
  by (rule nth_equalityI) (auto simp: nth_overwrite nth_append)

lemma load_spec:
  assumes len: "length (zb_data b) = 65536" and fit: "unat (next_gap b) + unat logical \<le> 65536"
    and le: "unat physical \<le> unat logical" and src: "unat physical = 0 \<or> off + unat physical \<le> length src"
  shows "load_data_internal b src off physical logical =
    Some (b\<lparr>zb_data := overwrite (zb_data b) (unat (next_gap b))
              (take (unat physical) (drop off src) @ replicate (unat logical - unat physical) 0),
            next_gap := next_gap b + logical\<rparr>)"
proof -
  let ?g = "unat (next_gap b)" and ?p = "unat physical" and ?l = "unat logical"
  have g1: "unat (next_gap b + physical) = ?g + ?p" using fit le by (intro unat_add_small) simp
  have z: "unat (logical - physical) = ?l - ?p" by (rule unat_sub_le [OF le])
  have g2: "unat (next_gap b + physical + (logical - physical)) = ?g + ?l"
    using g1 z fit le by (subst unat_add_small) simp_all
  have a: "next_gap b + physical \<le> ZFTP_BLOCK_SIZE" "next_gap b + physical + (logical - physical) \<le> ZFTP_BLOCK_SIZE"
    using g1 g2 fit le by (simp_all add: word_nat)
  let ?x = "take ?p (drop off src)"
  have x: "length ?x = ?p" using src by auto
  have c: "?p \<noteq> 0 \<Longrightarrow> lite_memcpy (zb_data b) ?g src off ?p = Some (overwrite (zb_data b) ?g ?x)"
    using src len fit le by (subst memcpy_spec) auto
  have m: "lite_memset (overwrite (zb_data b) ?g ?x) (?g + ?p) 0 (?l - ?p) =
      Some (overwrite (zb_data b) ?g (?x @ replicate (?l - ?p) 0))"
    using overwrite_overwrite [of ?g ?x "replicate (?l - ?p) 0" "zb_data b"] x len fit le
    by (subst memset_spec) auto
  have zero: "0 < physical \<longleftrightarrow> ?p \<noteq> 0" "0 < logical - physical \<longleftrightarrow> ?l - ?p \<noteq> 0"
    using z by (auto simp: word_less_nat_alt simp del: word_neq_0_conv unat_gt_0)
  show ?thesis
  proof (cases "?p = 0")
    case True
    then have "physical = 0" by (simp add: unat_eq_0)
    with m zero(2) z a x show ?thesis by (auto simp: load_data_internal_def)
  next
    case False
    with c m zero z a g1 show ?thesis by (auto simp: load_data_internal_def)
  qed
qed

lemma piece_eq:
  "off \<le> length payload \<Longrightarrow> k = min (length payload - off) n \<Longrightarrow>
     take k (drop off payload) @ replicate (n - k) 0 = piece payload off n"
  by (auto simp: piece_def min_def)

lemma bind_pair_map: "x \<bind> (\<lambda>(a, b). Some (f a b)) = map_option (\<lambda>(a, b). f a b) x"
  by (cases x) auto

lemma receive_next:
  assumes len: "length (zb_data b) = 65536" and v: "\<not> zb_valid b"
    and fit: "unat (next_gap b) + n \<le> 65536" and off: "unat off \<le> length payload" "length payload < 2 ^ 32"
  shows "receive_data zhash db b (next_gap b) (next_gap b + of_nat n) payload off =
     map_option (\<lambda>(b', db'). (b', db', True))
       (validate_block zhash db
         (b\<lparr>zb_data := overwrite (zb_data b) (unat (next_gap b)) (piece payload (unat off) n),
            next_gap := next_gap b + of_nat n\<rparr>))"
proof -
  let ?k = "min (of_nat (length payload) - off) (of_nat n :: u32)"
  have n: "unat (of_nat n :: u32) = n" using fit by (intro unat_of_nat_u32) simp
  have "unat (of_nat (length payload) :: u32) = length payload" using off(2) by (rule unat_of_nat_u32)
  with off(1) have "unat (of_nat (length payload) - off) = length payload - unat off" by (subst unat_sub_le) simp_all
  with n have k: "unat ?k = min (length payload - unat off) n"
    by (auto simp: min_def word_le_nat_alt)
  then have "unat ?k \<le> unat (of_nat n :: u32)" "unat off + unat ?k \<le> length payload" using n off(1) by auto
  from load_spec [OF len _ this(1), of "unat off" payload] this(2) fit n k piece_eq [OF off(1) k]
  have "load_data_internal b payload (unat off) ?k (of_nat n) =
      Some (b\<lparr>zb_data := overwrite (zb_data b) (unat (next_gap b)) (piece payload (unat off) n),
            next_gap := next_gap b + of_nat n\<rparr>)" by simp
  then show ?thesis
    by (simp add: receive_data_def Let_def bind_pair_map)
qed

lemma receive_duplicate:
  "start < next_gap b \<Longrightarrow> stop \<le> next_gap b \<Longrightarrow> receive_data zhash db b start stop payload off = Some (b, db, False)"
  by (simp add: receive_data_def)

subsection \<open>A block that arrives in pieces\<close>

text \<open>
  One step of a delivery: a payload, the offset of the data in it and their logical length. The
  database after the block is complete.
\<close>

definition deliver ::
    "(bytes \<Rightarrow> hash_t) \<Rightarrow> ZBlockCacheRecord \<times> block_db \<Rightarrow> bytes \<times> u32 \<times> nat \<Rightarrow> (ZBlockCacheRecord \<times> block_db) option" where
  "deliver zhash s p =
     (case (s, p) of ((b, db), (payload, off, n)) \<Rightarrow>
        map_option (\<lambda>(b', db', c). (b', db'))
          (receive_data zhash db b (next_gap b) (next_gap b + of_nat n) payload off))"

abbreviation delivered :: "(bytes \<times> u32 \<times> nat) list \<Rightarrow> bytes" where
  "delivered ps \<equiv> concat (map (\<lambda>(payload, off, n). piece payload (unat off) n) ps)"

definition db_with :: "block_db \<Rightarrow> hash_t \<Rightarrow> bytes \<Rightarrow> block_db" where
  "db_with db h d = map_option (\<lambda>m. m(h \<mapsto> d)) db"

definition piece_ok :: "bytes \<times> u32 \<times> nat \<Rightarrow> bool" where
  "piece_ok p \<longleftrightarrow> (case p of (payload, off, n) \<Rightarrow> 0 < n \<and> unat off \<le> length payload \<and> length payload < 2 ^ 32)"

lemma take_overwrite: "i + length xs \<le> length b \<Longrightarrow> take (i + length xs) (overwrite b i xs) = take i b @ xs"
  by (simp add: overwrite_def)

lemma deliver_ok:
  assumes "length (zb_data b) = 65536" and "\<not> zb_valid b" and "\<forall>p \<in> set ps. piece_ok p"
    and "unat (next_gap b) + length (delivered ps) = 65536" and "ps \<noteq> []"
  shows "foldM (deliver zhash) (b, db) ps =
    (let D = take (unat (next_gap b)) (zb_data b) @ delivered ps
     in if zhash D = zb_hash b
        then Some (\<lparr>zb_hash = zb_hash b, zb_data = D, next_gap = ZFTP_BLOCK_SIZE, zb_valid = True\<rparr>,
                   db_with db (zb_hash b) D)
        else None)"
  using assms
proof (induction ps arbitrary: b)
  case (Cons p ps)
  obtain payload off n where p: "p = (payload, off, n)" by (cases p)
  with Cons.prems(3) have ok: "0 < n" "unat off \<le> length payload" "length payload < 2 ^ 32" by (simp_all add: piece_ok_def)
  let ?g = "unat (next_gap b)" and ?x = "piece payload (unat off) n"
  let ?b = "b\<lparr>zb_data := overwrite (zb_data b) ?g ?x, next_gap := next_gap b + of_nat n\<rparr>"
  have fit: "?g + n \<le> 65536" using Cons.prems(4) p by simp
  have n: "unat (of_nat n :: u32) = n" using fit by (intro unat_of_nat_u32) simp
  have g: "unat (next_gap b + of_nat n) = ?g + n" using fit n by (subst unat_add_small) simp_all
  have tk: "take (?g + n) (overwrite (zb_data b) ?g ?x) = take ?g (zb_data b) @ ?x"
    using take_overwrite [of ?g ?x "zb_data b"] fit Cons.prems(1) by simp
  have d: "deliver zhash (b, db) p = validate_block zhash db ?b"
    using receive_next [OF Cons.prems(1,2) fit ok(2,3), of zhash db] p
    by (cases "validate_block zhash db ?b") (auto simp: deliver_def)
  show ?case
  proof (cases "ps = []")
    case True
    with Cons.prems(4) p have full: "?g + n = 65536" by simp
    with g have e: "next_gap b + of_nat n = ZFTP_BLOCK_SIZE" by (simp add: unat_eq_iff)
    from full tk Cons.prems(1) have "overwrite (zb_data b) ?g ?x = take ?g (zb_data b) @ ?x" by simp
    with True d p e Cons.prems(2) show ?thesis
      by (cases b) (auto simp: validate_block_def store_block_def peek_data_def db_with_def Let_def split: option.splits)
  next
    case False
    then obtain q qs where "ps = q # qs" by (cases ps) auto
    moreover obtain pl o' m where "q = (pl, o', m)" by (cases q)
    ultimately have "0 < length (delivered ps)" using Cons.prems(3) by (simp add: piece_ok_def)
    moreover have "?g + (n + length (delivered ps)) = 65536" using Cons.prems(4) p by simp
    ultimately have "?g + n < 65536" by linarith
    with g have lt: "next_gap b + of_nat n < ZFTP_BLOCK_SIZE" by (simp add: word_nat)
    then have d': "deliver zhash (b, db) p = Some (?b, db)" using d Cons.prems(2) by (simp add: validate_block_def)
    have "foldM (deliver zhash) (?b, db) ps =
      (let D = take (unat (next_gap ?b)) (zb_data ?b) @ delivered ps
       in if zhash D = zb_hash ?b
          then Some (\<lparr>zb_hash = zb_hash ?b, zb_data = D, next_gap = ZFTP_BLOCK_SIZE, zb_valid = True\<rparr>,
                     db_with db (zb_hash ?b) D)
          else None)"
      using Cons.prems fit g p False by (intro Cons.IH) simp_all
    then show ?thesis using d' g tk p by (simp add: Let_def)
  qed
qed simp

subsection \<open>The cache is a map from names to blocks\<close>

lemma memcmp_0: "length xs = length ys \<Longrightarrow> memcmp xs ys = 0 \<longleftrightarrow> xs = ys"
  by (induction xs ys rule: list_induct2) auto

lemma cmp_hash_0 [simp]: "cmp_hash a b = 0 \<longleftrightarrow> a = b"
  by (simp add: cmp_hash_def memcmp_0)

interpretation zbc: hash_keys zb_key_hash zb_cmp
  by unfold_locales (auto simp: zb_cmp_def)

definition bc_ok :: "(bytes \<Rightarrow> hash_t) \<Rightarrow> ZBlockCache \<Rightarrow> bool" where
  "bc_ok zhash bc \<longleftrightarrow>
     zbc.ready (bc_ht bc) \<and> (\<forall>h. h \<in># ht_mset (bc_ht bc) \<longleftrightarrow> bc_blocks bc h \<noteq> None) \<and>
     (\<forall>h b. bc_blocks bc h = Some b \<longrightarrow> zb_ok zhash b \<and> zb_hash b = h) \<and> db_ok zhash (bc_db bc)"

lemma bc_new_ok: "db_ok zhash db \<Longrightarrow> bc_ok zhash (ZBlockCache_new db)"
  by (simp add: bc_ok_def ZBlockCache_new_def zbc.ready_init init_inv(2))

text \<open>The blocks after a lookup: a block of the database is taken into the cache.\<close>

definition blocks_after :: "ZBlockCache \<Rightarrow> hash_t \<Rightarrow> hash_t \<Rightarrow> ZBlockCacheRecord option" where
  "blocks_after bc h =
     (if bc_blocks bc h = None
      then (case retrieve_block (bc_db bc) h of None \<Rightarrow> bc_blocks bc | Some b \<Rightarrow> (bc_blocks bc)(h \<mapsto> b))
      else bc_blocks bc)"

lemma retrieve_ok:
  assumes "db_ok zhash db" and "retrieve_block db h = Some b"
  shows "zb_ok zhash b" and "zb_hash b = h" and "zb_valid b"
  using assms by (auto simp: retrieve_block_def db_ok_def ZBlockCacheRecord_of_db_def zb_ok_def split: option.splits)

lemma zbc_insert_new:
  assumes "zbc.ready ht" and "h \<notin># ht_mset ht"
  shows "\<exists>ht'. hash_table_insert ht h = Some ht' \<and> zbc.ready ht' \<and> ht_mset ht' = add_mset h (ht_mset ht)"
  using zbc.table.ins_new [OF assms(1), of h] assms(2) by (auto simp: zb_cmp_def)

lemma zbc_lookup:
  assumes "zbc.ready ht"
  shows "\<exists>ht'. hash_table_lookup ht h = (ht', if h \<in># ht_mset ht then Some h else None) \<and>
           zbc.ready ht' \<and> ht_mset ht' = ht_mset ht"
  using zbc.table.look_law [OF assms, of h]
  by (cases "hash_table_lookup ht h") (force simp: zb_cmp_def split: option.splits)

lemma bc_lookup_ok:
  assumes ok: "bc_ok zhash bc"
  shows "\<exists>bc'. bc_lookup bc h = Some (bc', if blocks_after bc h h = None then None else Some h) \<and>
           bc_ok zhash bc' \<and> bc_blocks bc' = blocks_after bc h \<and> bc_db bc' = bc_db bc"
proof -
  from ok have r: "zbc.ready (bc_ht bc)" and m: "\<And>x. x \<in># ht_mset (bc_ht bc) \<longleftrightarrow> bc_blocks bc x \<noteq> None"
    and db: "db_ok zhash (bc_db bc)" by (auto simp: bc_ok_def)
  from zbc_lookup [OF r, of h] obtain ht where
    ht: "hash_table_lookup (bc_ht bc) h = (ht, if h \<in># ht_mset (bc_ht bc) then Some h else None)"
      "zbc.ready ht" "ht_mset ht = ht_mset (bc_ht bc)" by blast
  show ?thesis
  proof (cases "bc_blocks bc h = None \<and> retrieve_block (bc_db bc) h \<noteq> None")
    case False
    with ht m ok show ?thesis by (auto simp: bc_lookup_def blocks_after_def bc_ok_def)
  next
    case True
    then obtain b where b: "retrieve_block (bc_db bc) h = Some b" by auto
    note bo = retrieve_ok [OF db b]
    from True m have "h \<notin># ht_mset ht" using ht(3) by auto
    from zbc_insert_new [OF ht(2) this] obtain ht1 where
      h1: "hash_table_insert ht h = Some ht1" "zbc.ready ht1" "ht_mset ht1 = add_mset h (ht_mset ht)" by blast
    from zbc_lookup [OF h1(2), of h] h1(3) obtain ht2 where
      h2: "hash_table_lookup ht1 h = (ht2, Some h)" "zbc.ready ht2" "ht_mset ht2 = ht_mset ht1" by auto
    have "bc_lookup bc h = Some (bc\<lparr>bc_ht := ht2, bc_blocks := (bc_blocks bc)(h \<mapsto> b)\<rparr>, Some h)"
      using True ht(1) m [of h] b bo(2) h1(1) h2(1) by (auto simp: bc_lookup_def)
    moreover have "bc_ok zhash (bc\<lparr>bc_ht := ht2, bc_blocks := (bc_blocks bc)(h \<mapsto> b)\<rparr>)"
      using ok h2 h1(3) ht(3) bo(1,2) by (auto simp: bc_ok_def)
    ultimately show ?thesis using True b by (auto simp: blocks_after_def)
  qed
qed

lemma bc_insert_ok:
  assumes ok: "bc_ok zhash bc" and b: "zb_ok zhash b"
  shows "if blocks_after bc (zb_hash b) (zb_hash b) = None \<and> bc_db bc \<noteq> None \<and> \<not> zb_valid b
         then bc_insert bc b = None
         else \<exists>bc'. bc_insert bc b = Some (bc', blocks_after bc (zb_hash b) (zb_hash b) = None) \<and> bc_ok zhash bc' \<and>
           bc_blocks bc' = (if blocks_after bc (zb_hash b) (zb_hash b) = None then (bc_blocks bc)(zb_hash b \<mapsto> b)
                            else blocks_after bc (zb_hash b)) \<and> (bc_db bc = None \<longrightarrow> bc_db bc' = None)"
proof -
  let ?h = "zb_hash b"
  from bc_lookup_ok [OF ok, of ?h] obtain bc1 where
    l: "bc_lookup bc ?h = Some (bc1, if blocks_after bc ?h ?h = None then None else Some ?h)" "bc_ok zhash bc1"
      "bc_blocks bc1 = blocks_after bc ?h" "bc_db bc1 = bc_db bc" by blast
  show ?thesis
  proof (cases "blocks_after bc ?h ?h = None")
    case True
    then have e: "blocks_after bc ?h = bc_blocks bc" by (auto simp: blocks_after_def split: option.splits if_splits)
    have "zbc.ready (bc_ht bc1)" "?h \<notin># ht_mset (bc_ht bc1)" using l(2,3) True by (auto simp: bc_ok_def)
    from zbc_insert_new [OF this] obtain ht where
      ht: "hash_table_insert (bc_ht bc1) ?h = Some ht" "zbc.ready ht" "ht_mset ht = add_mset ?h (ht_mset (bc_ht bc1))" by blast
    show ?thesis
    proof (cases "bc_db bc \<noteq> None \<and> \<not> zb_valid b")
      case c: True
      then show ?thesis using True l ht by (auto simp: bc_insert_def store_block_def peek_data_def)
    next
      case c: False
      let ?db = "db_with (bc_db bc) ?h (zb_data b)"
      have s: "store_block (bc_db bc1) b = Some ?db"
        using c l(4) by (auto simp: store_block_def peek_data_def db_with_def split: option.splits)
      have "db_ok zhash ?db"
        using c l(2,4) b by (auto simp: bc_ok_def db_ok_def db_with_def zb_ok_def split: if_splits)
      then have "bc_ok zhash (bc1\<lparr>bc_ht := ht, bc_blocks := (bc_blocks bc1)(?h \<mapsto> b), bc_db := ?db\<rparr>)"
        using l(2) ht(2,3) b by (auto simp: bc_ok_def)
      then show ?thesis using True c l(1,3) ht(1) s e by (auto simp: bc_insert_def db_with_def)
    qed
  next
    case False
    with l show ?thesis by (auto simp: bc_insert_def)
  qed
qed

subsection \<open>Every block that is valid has the data of its name\<close>

lemma memcpy_Some:
  "lite_memcpy dst dp src sp n = Some d \<Longrightarrow>
     length d = length dst \<and> (n = 0 \<or> dp + n \<le> length dst \<and> sp + n \<le> length src)"
  by (induction n arbitrary: dst dp sp) (force simp: rd_def wr_def split: if_splits bind_splits)+

lemma memset_Some: "lite_memset b p v n = Some d \<Longrightarrow> length d = length b \<and> (n = 0 \<or> p + n \<le> length b)"
  by (auto simp: memset_spec split: if_splits)

lemma load_Some:
  assumes "load_data_internal b src off physical logical = Some b'" and "length (zb_data b) = 65536"
    and "next_gap b \<le> ZFTP_BLOCK_SIZE"
  shows "length (zb_data b') = 65536 \<and> next_gap b' \<le> ZFTP_BLOCK_SIZE \<and> zb_hash b' = zb_hash b \<and> zb_valid b' = zb_valid b"
proof -
  obtain b1 where b1: "(if 0 < physical then do {
             lite_assert (next_gap b + physical \<le> ZFTP_BLOCK_SIZE);
             d \<leftarrow> lite_memcpy (zb_data b) (unat (next_gap b)) src off (unat physical);
             Some (b\<lparr>zb_data := d\<rparr>)
           } else Some b) = Some b1"
    using assms(1) unfolding load_data_internal_def by (auto split: bind_splits)
  then have k: "length (zb_data b1) = 65536" "next_gap b1 + physical \<le> ZFTP_BLOCK_SIZE" "zb_hash b1 = zb_hash b" "zb_valid b1 = zb_valid b"
    using assms(2,3) by (auto simp: word_gt_0 split: if_splits bind_splits dest!: memcpy_Some)
  show ?thesis
    using assms(1) b1 k unfolding load_data_internal_def
    by (auto simp: Let_def word_gt_0 split: if_splits bind_splits dest!: memset_Some)
qed

lemma validate_Some:
  assumes "validate_block zhash db b = Some (b', db')" and "length (zb_data b) = 65536" and "next_gap b \<le> ZFTP_BLOCK_SIZE"
  shows "zb_ok zhash b' \<and> zb_hash b' = zb_hash b \<and> (db_ok zhash db \<longrightarrow> db_ok zhash db') \<and> (db = None \<longleftrightarrow> db' = None)"
  using assms
  by (auto simp: validate_block_def zb_ok_def store_block_def peek_data_def db_ok_def split: if_splits bind_splits option.splits)

lemma receive_Some:
  assumes "receive_data zhash db b start stop payload off = Some (b', db', c)" and "zb_ok zhash b"
  shows "zb_ok zhash b' \<and> zb_hash b' = zb_hash b \<and> (db_ok zhash db \<longrightarrow> db_ok zhash db') \<and> (db = None \<longleftrightarrow> db' = None) \<and>
    (zb_valid b \<longrightarrow> b' = b)"
proof (cases "start < next_gap b")
  case False
  with assms(1) obtain b1 where
    "load_data_internal b payload (unat off) (min (of_nat (length payload) - off) (stop - start)) (stop - start) = Some b1"
    "validate_block zhash db b1 = Some (b', db')"
    by (auto simp: receive_data_def Let_def split: if_splits bind_splits)
  with load_Some [OF this(1)] validate_Some [OF this(2)] assms(2) show ?thesis
    by (auto simp: zb_ok_def validate_block_def split: if_splits bind_splits)
qed (use assms in \<open>auto simp: receive_data_def split: if_splits\<close>)

lemma complete_Some:
  assumes "complete_with_zeros zhash db b = Some (b', db')" and "zb_ok zhash b"
  shows "zb_ok zhash b' \<and> zb_hash b' = zb_hash b \<and> (db_ok zhash db \<longrightarrow> db_ok zhash db') \<and> (db = None \<longleftrightarrow> db' = None)"
proof (cases "next_gap b < ZFTP_BLOCK_SIZE")
  case True
  with assms(1) obtain b1 where
    "load_data_internal b [] 0 0 (ZFTP_BLOCK_SIZE - next_gap b) = Some b1" "validate_block zhash db b1 = Some (b', db')"
    by (auto simp: complete_with_zeros_def split: bind_splits)
  with load_Some [OF this(1)] validate_Some [OF this(2)] assms(2) show ?thesis by (auto simp: zb_ok_def)
qed (use assms in \<open>auto simp: complete_with_zeros_def split: if_splits\<close>)

text \<open>A block record changed in place.\<close>

definition bc_update :: "ZBlockCache \<Rightarrow> ZBlockCacheRecord \<Rightarrow> block_db \<Rightarrow> ZBlockCache" where
  "bc_update bc b db = bc\<lparr>bc_blocks := (bc_blocks bc)(zb_hash b \<mapsto> b), bc_db := db\<rparr>"

lemma bc_update_ok:
  "bc_ok zhash bc \<Longrightarrow> bc_blocks bc (zb_hash b) \<noteq> None \<Longrightarrow> zb_ok zhash b \<Longrightarrow> db_ok zhash db \<Longrightarrow> bc_ok zhash (bc_update bc b db)"
  by (auto simp: bc_ok_def bc_update_def)

subsection \<open>Properties\<close>

text \<open>C14. A block whose data arrive in order, in any number of non-empty pieces (a piece shorter
  than its logical length is filled with zeros), becomes valid when the last piece arrives exactly
  if the data hash to its name; its data are then the pieces one after the other and the database,
  where there is one, holds them. Otherwise the run aborts.\<close>

theorem block_delivery:
  assumes "length mem = 65536" and "\<forall>p \<in> set ps. piece_ok p" and "length (delivered ps) = 65536"
  shows "foldM (deliver zhash) (ZBlockCacheRecord_new mem h, db) ps =
    (if zhash (delivered ps) = h
     then Some (\<lparr>zb_hash = h, zb_data = delivered ps, next_gap = ZFTP_BLOCK_SIZE, zb_valid = True\<rparr>,
                db_with db h (delivered ps))
     else None)"
proof -
  have "ps \<noteq> []" using assms(3) by auto
  with deliver_ok [of "ZBlockCacheRecord_new mem h" ps zhash db] assms show ?thesis
    by (simp add: ZBlockCacheRecord_new_def Let_def)
qed

theorem block_delivery_witness:
  "foldM (deliver (\<lambda>d. if d = replicate 65536 0 then 1 else 0)) (ZBlockCacheRecord_new (replicate 65536 7) 1, None)
     [([], 0, 1000), ([1, 0], 2, 64536)] =
   Some (\<lparr>zb_hash = 1, zb_data = replicate 65536 0, next_gap = ZFTP_BLOCK_SIZE, zb_valid = True\<rparr>, None)"
proof -
  let ?ps = "[([], 0, 1000), ([1, 0], 2, 64536)]"
  have "delivered ?ps = replicate (1000 + 64536) 0" unfolding replicate_add by (simp add: piece_def)
  then have d: "delivered ?ps = replicate 65536 0" by (simp)
  have "length (delivered ?ps) = 65536" unfolding d by (rule length_replicate)
  then show ?thesis
    using block_delivery [of "replicate 65536 7" ?ps "\<lambda>d. if d = replicate 65536 0 then 1 else 0" 1 None, unfolded d]
    by (simp add: piece_ok_def db_with_def)
qed

text \<open>Whatever a server sends: receiving data or completing a block with zeros either aborts or leaves a
  block of 65536 bytes with the same name, which if valid hashes to its name; a block that was
  valid is not changed by received data.\<close>

theorem block_always_authentic:
  assumes "zb_ok zhash b"
  shows "(case receive_data zhash db b start stop payload off of
            None \<Rightarrow> True
          | Some (b', db', c) \<Rightarrow> zb_ok zhash b' \<and> zb_hash b' = zb_hash b \<and> (zb_valid b \<longrightarrow> b' = b)) \<and>
         (case complete_with_zeros zhash db b of
            None \<Rightarrow> True
          | Some (b', db') \<Rightarrow> zb_ok zhash b' \<and> zb_hash b' = zb_hash b)"
proof (rule conjI, goal_cases)
  case 1
  then show ?case
    using receive_Some [OF _ assms, of db start stop payload off]
    by (cases "receive_data zhash db b start stop payload off") auto
next
  case 2
  then show ?case
    using complete_Some [OF _ assms, of db] by (cases "complete_with_zeros zhash db b") auto
qed

theorem block_always_authentic_witness:
  "case receive_data (\<lambda>_. 1) None (ZBlockCacheRecord_new (replicate 65536 0) 1) 0 2 [5, 6] 0 of
     None \<Rightarrow> True | Some (b', db', c) \<Rightarrow> zb_ok (\<lambda>_. 1) b' \<and> zb_hash b' = 1"
proof -
  have "zb_ok (\<lambda>_. 1) (ZBlockCacheRecord_new (replicate 65536 0) 1)"
    by (simp add: zb_ok_def ZBlockCacheRecord_new_def)
  moreover have "zb_hash (ZBlockCacheRecord_new (replicate 65536 0) 1) = 1" by (simp add: ZBlockCacheRecord_new_def)
  ultimately show ?thesis
    using block_always_authentic [of "\<lambda>_. 1" "ZBlockCacheRecord_new (replicate 65536 0) 1" None 0 2 "[5, 6]" 0, THEN conjunct1]
    by (simp split: option.splits) auto
qed

text \<open>The block cache implements a map from names to blocks. A lookup finds the block of a name
  in the cache or else in the database, which is then taken into the cache. An insertion of a block whose name is taken leaves
  everything as it is; one of a new name adds it, except that with a database configured the insertion of a block
  that is not complete yet aborts.\<close>

theorem block_cache_refines_map:
  assumes "bc_ok zhash bc" and "zb_ok zhash b"
  shows "(\<exists>bc'. bc_lookup bc h = Some (bc', if blocks_after bc h h = None then None else Some h) \<and>
            bc_ok zhash bc' \<and> bc_blocks bc' = blocks_after bc h) \<and>
    (if blocks_after bc (zb_hash b) (zb_hash b) = None \<and> bc_db bc \<noteq> None \<and> \<not> zb_valid b
     then bc_insert bc b = None
     else \<exists>bc'. bc_insert bc b = Some (bc', blocks_after bc (zb_hash b) (zb_hash b) = None) \<and> bc_ok zhash bc' \<and>
       bc_blocks bc' = (if blocks_after bc (zb_hash b) (zb_hash b) = None then (bc_blocks bc)(zb_hash b \<mapsto> b)
                        else blocks_after bc (zb_hash b)))"
  using bc_lookup_ok [OF assms(1), of h] bc_insert_ok [OF assms] by (auto split: if_splits)

theorem block_cache_refines_map_witness:
  "bc_insert (ZBlockCache_new (Some Map.empty)) (ZBlockCacheRecord_new (replicate 65536 0) 9) = None"
proof -
  have "bc_ok (\<lambda>_. 1) (ZBlockCache_new (Some Map.empty))" by (rule bc_new_ok) (simp add: db_ok_def)
  moreover have "zb_ok (\<lambda>_. 1) (ZBlockCacheRecord_new (replicate 65536 0) 9)"
    by (simp add: zb_ok_def ZBlockCacheRecord_new_def)
  ultimately show ?thesis
    using block_cache_refines_map [of "\<lambda>_. 1" "ZBlockCache_new (Some Map.empty)" "ZBlockCacheRecord_new (replicate 65536 0) 9" 0]
    by (simp add: blocks_after_def ZBlockCache_new_def ZBlockCacheRecord_new_def retrieve_block_def)
qed

end
