(* ===== verification/CachedFile.thy ===== *)
theory CachedFile
  imports MerkleCheck Blocks
begin

text \<open>
  Serving a cached file, \<open>src/common/zftp_module/ZCachedFile.cpp\<close> (lines 224-331, 386-528 and
  914-952): which bytes of a request are missing, reading bytes out of the block cache, and
  installing the data of a reply. The file and the block cache of its \<open>zcache\<close> are separate
  parts of the state; \<open>mem\<close> gives the bytes of the fresh buffer of a new block. Requests that wait
  for data (\<open>_consider_request_nolock\<close>, \<open>_issue_server_request\<close>, \<open>_signal_waiters\<close>), the status of the
  stored copy (\<open>_update_status\<close>) and images from the disk (\<open>_install_image\<close>) are not modelled.
\<close>

subsection \<open>Blocks of a file\<close>

fun validity_rank :: "ValidityState \<Rightarrow> nat" where
  "validity_rank v_unknown = 0"
| "validity_rank v_tentative = 1"
| "validity_rank v_validated = 2"
| "validity_rank v_margin = 3"

definition find_block_hash :: "ZCachedFile \<Rightarrow> u32 \<Rightarrow> ValidityState \<Rightarrow> hash_t option option" where
  "find_block_hash zf block_num required_validity = do {
     leaf_loc \<leftarrow> tree_index (uint (tree_depth zf)) (sint block_num) (tree_size zf);
     vmr \<leftarrow> rd (tree zf) (unat leaf_loc);
     Some (if validity_rank (vmr_state vmr) < validity_rank required_validity then None else Some (vmr_hash vmr))
   }"

definition lookup_block ::
    "(hash_t \<Rightarrow> bytes) \<Rightarrow> ZCachedFile \<Rightarrow> ZBlockCache \<Rightarrow> u32 \<Rightarrow> ValidityState \<Rightarrow> (ZBlockCache \<times> hash_t option) option" where
  "lookup_block mem zf bc block_num required_validity = do {
     block_hash \<leftarrow> find_block_hash zf block_num required_validity;
     (case block_hash of
        None \<Rightarrow> Some (bc, None)
      | Some h \<Rightarrow> do {
          (bc1, block) \<leftarrow> bc_lookup bc h;
          (case block of
             Some p \<Rightarrow> Some (bc1, Some p)
           | None \<Rightarrow> do {
               (bc2, inserted) \<leftarrow> bc_insert bc1 (ZBlockCacheRecord_new (mem h) h);
               lite_assert inserted;
               Some (bc2, Some h)
             })
        })
   }"

definition get_filelen :: "ZCachedFile \<Rightarrow> u32" where
  "get_filelen zf = z_ntohl (file_len_network_order (metadata zf))"

definition get_file_data_range :: "ZCachedFile \<Rightarrow> DataRange option" where
  "get_file_data_range zf = do {
     lite_assert (metadata_state zf = v_validated);
     Some (DataRange_of 0 (get_filelen zf))
   }"

definition get_validated_merkle_record :: "ZCachedFile \<Rightarrow> u32 \<Rightarrow> ValidatedMerkleRecord option" where
  "get_validated_merkle_record zf location = do {
     vmr \<leftarrow> rd (tree zf) (unat location);
     lite_assert (vmr_state vmr = v_validated);
     Some vmr
   }"

subsection \<open>Reading\<close>

text \<open>
  The virtual methods of a \<open>Buf\<close>, and its implementation over plain memory. \<open>read\<close> also casts every
  \<open>Buf\<close> to \<open>ValidatedZCB\<close> and calls \<open>resetDebugStats\<close> of that class, which clears two counters. A \<open>MemBuf\<close>
  has no counters: the call writes behind the object, an access out of bounds.
\<close>

record 's Buf =
  Buf_read :: "'s \<Rightarrow> ZBlockCacheRecord \<Rightarrow> u32 \<Rightarrow> u32 \<Rightarrow> u32 \<Rightarrow> 's option"
  set_debug_offset :: "'s \<Rightarrow> u32 \<Rightarrow> 's"
  cast_resetDebugStats :: "'s \<Rightarrow> 's option"

definition MemBuf_read :: "bytes \<Rightarrow> ZBlockCacheRecord \<Rightarrow> u32 \<Rightarrow> u32 \<Rightarrow> u32 \<Rightarrow> bytes option" where
  "MemBuf_read buffer block buf_offset block_offset len = zb_read block buffer (unat buf_offset) block_offset len"

definition MemBuf :: "bytes Buf" where
  "MemBuf = \<lparr>Buf_read = MemBuf_read, set_debug_offset = (\<lambda>buffer offset. buffer), cast_resetDebugStats = (\<lambda>buffer. None)\<rparr>"

text \<open>The loop of \<open>read\<close>.\<close>

partial_function (option) read_loop ::
    "'s Buf \<Rightarrow> (hash_t \<Rightarrow> bytes) \<Rightarrow> ZCachedFile \<Rightarrow> u32 \<Rightarrow> u32 \<Rightarrow> u32 \<Rightarrow>
      ZBlockCache \<Rightarrow> 's \<Rightarrow> u32 \<Rightarrow> u32 \<Rightarrow> u32 \<Rightarrow> (ZBlockCache \<times> 's \<times> u32) option" where
  "read_loop cls mem zf buf_offset file_offset sz bc buf blk buf_off last_ended =
     (if buf_off < sz then do {
        (bc1, found) \<leftarrow> lookup_block mem zf bc blk v_validated;
        p \<leftarrow> found;
        block \<leftarrow> bc_blocks bc1 p;
        lite_assert (zb_valid block);
        let blk_start = push_bit ZFTP_LG_BLOCK_SIZE blk;
        let blk_off = (if blk_start < file_offset then file_offset - blk_start else 0);
        let blk_end_request = file_offset + sz - blk_start;
        let blk_len = min (blk_end_request - blk_off) (ZFTP_BLOCK_SIZE - blk_off);
        buf1 \<leftarrow> Buf_read cls buf block (buf_off + buf_offset) blk_off blk_len;
        lite_assert (blk_start + blk_off = last_ended);
        read_loop cls mem zf buf_offset file_offset sz bc1 buf1 (blk + 1) (buf_off + blk_len) (blk_start + blk_off + blk_len)
      } else Some (bc, buf, last_ended))"

definition zf_read ::
    "'s Buf \<Rightarrow> (hash_t \<Rightarrow> bytes) \<Rightarrow> ZCachedFile \<Rightarrow> ZBlockCache \<Rightarrow> 's \<Rightarrow> u32 \<Rightarrow> u32 \<Rightarrow> u32 \<Rightarrow> (ZBlockCache \<times> 's) option" where
  "zf_read cls mem zf bc buf buf_offset offset sz = do {
     lite_assert (offset + sz \<le> get_filelen zf);
     let first_block = drop_bit ZFTP_LG_BLOCK_SIZE offset;
     buf0 \<leftarrow> cast_resetDebugStats cls (set_debug_offset cls buf buf_offset);
     (bc', buf', last_ended) \<leftarrow> read_loop cls mem zf buf_offset offset sz bc buf0 first_block 0 offset;
     lite_assert (last_ended = offset + sz);
     Some (bc', buf')
   }"

subsection \<open>What is missing\<close>

definition round_up_to_block :: "u32 \<Rightarrow> u32" where
  "round_up_to_block pos =
     (let down = (pos - 1) AND NOT (ZFTP_BLOCK_SIZE - 1)
      in if down + ZFTP_BLOCK_SIZE < down then down else down + ZFTP_BLOCK_SIZE)"

definition eligible_set :: "ZCachedFile \<Rightarrow> DataRange \<Rightarrow> DataRange option" where
  "eligible_set zf requested_range = do {
     let rounded_set = DataRange_of (dr_start requested_range AND NOT (ZFTP_BLOCK_SIZE - 1))
                                    (round_up_to_block (dr_end requested_range));
     file_range \<leftarrow> get_file_data_range zf;
     Some (DataRange_intersect rounded_set file_range)
   }"

text \<open>How one block of the range adds to the missing set; the flag is false when it cannot be added.\<close>

definition account_block ::
    "DataRange \<Rightarrow> ZBlockCache \<Rightarrow> DataRange \<Rightarrow> u32 \<Rightarrow> u32 \<Rightarrow> u32 \<Rightarrow> hash_t option \<Rightarrow> (DataRange \<times> bool) option" where
  "account_block el bc missing start stop start_blk found =
     (case found of
        None \<Rightarrow> Some (DataRange_maybe_accumulate missing start stop)
      | Some p \<Rightarrow> do {
          block \<leftarrow> bc_blocks bc p;
          if \<not> zb_valid block then do {
            let blk_range = get_missing_range block;
            let shifted_range = DataRange_of (start_blk + dr_start blk_range) (start_blk + dr_end blk_range);
            let pruned_range = DataRange_intersect shifted_range el;
            Some (DataRange_maybe_accumulate missing (dr_start pruned_range) (dr_end pruned_range))
          } else Some (missing, True)
        })"

text \<open>The loop over the blocks. A Merkle record of a packet is 24 bytes.\<close>

partial_function (option) missing_loop ::
    "(hash_t \<Rightarrow> bytes) \<Rightarrow> ZCachedFile \<Rightarrow> bool \<Rightarrow> u32 \<Rightarrow> DataRange \<Rightarrow>
      ZBlockCache \<Rightarrow> DataRange \<Rightarrow> u32 \<Rightarrow> (ZBlockCache \<times> DataRange) option" where
  "missing_loop mem zf requesting_data_mode max_payload el bc missing start =
     (if start < dr_end el then do {
        let blk = drop_bit ZFTP_LG_BLOCK_SIZE start;
        let start_blk = push_bit ZFTP_LG_BLOCK_SIZE blk;
        let end_blk = push_bit ZFTP_LG_BLOCK_SIZE (blk + 1);
        let stop = min end_blk (dr_end el);
        if num_blocks zf \<le> blk then Some (bc, missing)
        else do {
          (bc1, found) \<leftarrow> lookup_block mem zf bc blk v_validated;
          (missing1, worked) \<leftarrow> account_block el bc1 missing start stop start_blk found;
          if \<not> worked then Some (bc1, missing1)
          else do {
            let approx_payload_size =
              (if requesting_data_mode then DataRange_size missing1
               else drop_bit ZFTP_LG_BLOCK_SIZE (DataRange_size missing1) * 24);
            if max_payload \<le> approx_payload_size then Some (bc1, missing1)
            else missing_loop mem zf requesting_data_mode max_payload el bc1 missing1 end_blk
          }
        }
      } else Some (bc, missing))"

text \<open>\<open>max_payload\<close> is the payload limit of the file client, 1 without a client.\<close>

definition compute_missing_set ::
    "(hash_t \<Rightarrow> bytes) \<Rightarrow> ZCachedFile \<Rightarrow> bool \<Rightarrow> u32 \<Rightarrow> ZBlockCache \<Rightarrow> DataRange \<Rightarrow> (ZBlockCache \<times> DataRange) option" where
  "compute_missing_set mem zf requesting_data_mode max_payload bc requested_range = do {
     el \<leftarrow> eligible_set zf requested_range;
     missing_loop mem zf requesting_data_mode max_payload el bc DataRange_new (dr_start el)
   }"

subsection \<open>Installing a reply\<close>

record ZFileReply =
  reply_metadata :: ZFTPFileMetadata
  reply_records :: "ZFTPMerkleRecord list"
  data_start :: u32
  data_end :: u32
  reply_payload :: bytes

definition install_block ::
    "(bytes \<Rightarrow> hash_t) \<Rightarrow> (hash_t \<Rightarrow> bytes) \<Rightarrow> ZCachedFile \<Rightarrow> ZFileReply \<Rightarrow> ZBlockCache \<Rightarrow> u32 \<Rightarrow> u32 \<Rightarrow>
      (ZBlockCache \<times> bool) option" where
  "install_block zhash mem zf reply bc next_start_byte next_end_byte = do {
     let next_start_block = drop_bit ZFTP_LG_BLOCK_SIZE next_start_byte;
     let block_start_byte = push_bit ZFTP_LG_BLOCK_SIZE next_start_block;
     lite_assert (\<not> num_blocks zf \<le> next_start_block);
     (bc1, found) \<leftarrow> lookup_block mem zf bc next_start_block v_tentative;
     p \<leftarrow> found;
     block_record \<leftarrow> bc_blocks bc1 p;
     (b1, db1, changed) \<leftarrow> receive_data zhash (bc_db bc1) block_record (next_start_byte - block_start_byte)
        (next_end_byte - block_start_byte) (reply_payload reply) (next_start_byte - data_start reply);
     if next_start_block = num_blocks zf - 1 \<and> next_end_byte = get_filelen zf
     then do {
       (b2, db2) \<leftarrow> complete_with_zeros zhash db1 b1;
       Some (bc_update bc1 b2 db2, changed)
     }
     else Some (bc_update bc1 b1 db1, changed)
   }"

partial_function (option) install_data_loop ::
    "(bytes \<Rightarrow> hash_t) \<Rightarrow> (hash_t \<Rightarrow> bytes) \<Rightarrow> ZCachedFile \<Rightarrow> ZFileReply \<Rightarrow> ZBlockCache \<Rightarrow> bool \<Rightarrow> u32 \<Rightarrow>
      (ZBlockCache \<times> bool) option" where
  "install_data_loop zhash mem zf reply bc caused_change next_start_byte =
     (if next_start_byte < data_end reply then do {
        let block_start_byte = push_bit ZFTP_LG_BLOCK_SIZE (drop_bit ZFTP_LG_BLOCK_SIZE next_start_byte);
        let next_end_byte = min (block_start_byte + ZFTP_BLOCK_SIZE) (data_end reply);
        (bc1, changed) \<leftarrow> install_block zhash mem zf reply bc next_start_byte next_end_byte;
        install_data_loop zhash mem zf reply bc1 (caused_change \<or> changed) next_end_byte
      } else Some (bc, caused_change))"

definition install_data ::
    "(bytes \<Rightarrow> hash_t) \<Rightarrow> (hash_t \<Rightarrow> bytes) \<Rightarrow> ZCachedFile \<Rightarrow> ZFileReply \<Rightarrow> ZBlockCache \<Rightarrow> (ZBlockCache \<times> bool) option" where
  "install_data zhash mem zf reply bc = install_data_loop zhash mem zf reply bc False (data_start reply)"

subsection \<open>The blocks of a configured file\<close>

text \<open>What \<open>_configure_from_metadata\<close> establishes for a file whose size does not wrap around.\<close>

definition configured :: "ZCachedFile \<Rightarrow> bool" where
  "configured zf \<longleftrightarrow>
     shape zf \<and> metadata_state zf = v_validated \<and> unat (get_filelen zf) \<le> 2 ^ 32 - 2 ^ 16 \<and>
     num_blocks zf = compute_num_blocks (get_filelen zf) \<and> tree_depth zf = compute_tree_depth (num_blocks zf)"

abbreviation file_len_nat :: "ZCachedFile \<Rightarrow> nat" where
  "file_len_nat zf \<equiv> unat (get_filelen zf)"

definition leaf :: "ZCachedFile \<Rightarrow> nat \<Rightarrow> nat" where
  "leaf zf k = 2 ^ unat (tree_depth zf) - 1 + k"

lemma num_blocks_nat:
  assumes "configured zf"
  shows "unat (num_blocks zf) = (file_len_nat zf + 65535) div 65536" and "unat (num_blocks zf) \<le> 65535"
proof -
  have n: "unat (num_blocks zf) = (file_len_nat zf + 65535) div 65536" and l: "file_len_nat zf \<le> 2 ^ 32 - 2 ^ 16"
    using assms compute_num_blocks_nat [of "get_filelen zf"] by (simp_all add: configured_def)
  have "(file_len_nat zf + 65535) div 65536 \<le> (2 ^ 32 - 1) div 65536" using l by (intro div_le_mono) simp
  with n show "unat (num_blocks zf) = (file_len_nat zf + 65535) div 65536" "unat (num_blocks zf) \<le> 65535" by simp_all
qed

lemma leaf_in_tree:
  assumes c: "configured zf" and k: "k < unat (num_blocks zf)"
  shows "\<exists>loc. tree_index (uint (tree_depth zf)) (int k) (tree_size zf) = Some loc \<and> unat loc = leaf zf k \<and>
           leaf zf k < length (tree zf)"
proof -
  let ?d = "unat (tree_depth zf)"
  from c have s: "shape zf" and td: "tree_depth zf = compute_tree_depth (num_blocks zf)" by (simp_all add: configured_def)
  from k have "num_blocks zf \<noteq> 0" by auto
  from depth_least(1) [OF this] have kd: "k < 2 ^ ?d" using k td by simp
  have d: "?d \<le> 30" "length (tree zf) = 2 ^ (?d + 1) - 1" using s by (simp_all add: shape_def)
  from location_nat [OF _ kd] d(1) obtain loc where
    loc: "compute_tree_location (int ?d) (int k) = Some loc" "unat loc + 1 = 2 ^ ?d + k" by auto
  have lt: "unat loc < length (tree zf)" using loc(2) kd d(2) by simp
  then have "loc < tree_size zf" using unat_tree_size [OF s] by (simp add: word_nat)
  moreover have "uint (tree_depth zf) = int ?d" by simp
  ultimately have "tree_index (uint (tree_depth zf)) (int k) (tree_size zf) = Some loc"
    using loc(1) by (simp only: tree_index_def) simp
  moreover have "unat loc = leaf zf k" using loc(2) by (simp add: leaf_def)
  ultimately show ?thesis using lt by auto
qed

lemma find_block_hash_ok:
  assumes c: "configured zf" and k: "unat blk < unat (num_blocks zf)"
  shows "find_block_hash zf blk v =
    Some (if validity_rank (st zf (leaf zf (unat blk))) < validity_rank v then None else Some (hs zf (leaf zf (unat blk))))"
proof -
  have "sint blk = int (unat blk)" using num_blocks_nat(2) [OF c] k by (intro sint_small_u32) simp
  with leaf_in_tree [OF c k] show ?thesis by (auto simp: find_block_hash_def rd_def)
qed

text \<open>The name of a block, once its leaf is known, and the records the cache holds after looking it up.\<close>

definition known_block :: "ZCachedFile \<Rightarrow> ValidityState \<Rightarrow> nat \<Rightarrow> hash_t option" where
  "known_block zf v k =
     (if validity_rank (st zf (leaf zf k)) < validity_rank v then None else Some (hs zf (leaf zf k)))"

definition with_block :: "(hash_t \<Rightarrow> bytes) \<Rightarrow> ZBlockCache \<Rightarrow> hash_t option \<Rightarrow> hash_t \<Rightarrow> ZBlockCacheRecord option" where
  "with_block mem bc name =
     (case name of
        Some h \<Rightarrow> if bc_blocks bc h = None then (bc_blocks bc)(h \<mapsto> ZBlockCacheRecord_new (mem h) h) else bc_blocks bc
      | None \<Rightarrow> bc_blocks bc)"

text \<open>
  A well-formed cache with no database behind it: with one, the lookup of a block that is not cached inserts an
  incomplete block, which the database refuses by an assertion.
\<close>

definition cache_ok :: "(bytes \<Rightarrow> hash_t) \<Rightarrow> (hash_t \<Rightarrow> bytes) \<Rightarrow> ZBlockCache \<Rightarrow> bool" where
  "cache_ok zhash mem bc \<longleftrightarrow> bc_ok zhash bc \<and> bc_db bc = None \<and> (\<forall>h. length (mem h) = 65536)"

lemma lookup_block_ok:
  assumes c: "configured zf" and k: "unat blk < unat (num_blocks zf)" and ok: "cache_ok zhash mem bc"
  shows "\<exists>bc'. lookup_block mem zf bc blk v = Some (bc', known_block zf v (unat blk)) \<and> cache_ok zhash mem bc' \<and>
           bc_blocks bc' = with_block mem bc (known_block zf v (unat blk))"
proof (cases "known_block zf v (unat blk)")
  case None
  then show ?thesis
    using find_block_hash_ok [OF c k, of v] ok by (auto simp: lookup_block_def known_block_def with_block_def split: if_splits)
next
  case (Some h)
  then have f: "find_block_hash zf blk v = Some (Some h)"
    using find_block_hash_ok [OF c k, of v] by (simp add: known_block_def)
  from ok have b: "bc_ok zhash bc" "bc_db bc = None" "length (mem h) = 65536" by (simp_all add: cache_ok_def)
  have a: "blocks_after bc' h = bc_blocks bc'" if "bc_db bc' = None" for bc'
    using that by (auto simp: blocks_after_def retrieve_block_def)
  from bc_lookup_ok [OF b(1), of h] obtain bc1 where
    l: "bc_lookup bc h = Some (bc1, if bc_blocks bc h = None then None else Some h)" "bc_ok zhash bc1"
      "bc_blocks bc1 = bc_blocks bc" "bc_db bc1 = None" using a [OF b(2)] b(2) by auto
  show ?thesis
  proof (cases "bc_blocks bc h")
    case None
    let ?new = "ZBlockCacheRecord_new (mem h) h"
    have "zb_ok zhash ?new" using b(3) by (simp add: zb_ok_def ZBlockCacheRecord_new_def)
    from bc_insert_ok [OF l(2) this] l(3,4) None a [OF l(4)] obtain bc2 where
      "bc_insert bc1 ?new = Some (bc2, True)" "bc_ok zhash bc2" "bc_blocks bc2 = (bc_blocks bc)(h \<mapsto> ?new)" "bc_db bc2 = None"
      by (auto simp: ZBlockCacheRecord_new_def)
    with f l None Some ok show ?thesis by (auto simp: lookup_block_def with_block_def cache_ok_def)
  next
    case h: (Some b')
    with f l Some ok show ?thesis by (auto simp: lookup_block_def with_block_def cache_ok_def)
  qed
qed

subsection \<open>Reading returns the bytes of the file\<close>

definition avail :: "ZCachedFile \<Rightarrow> ZBlockCache \<Rightarrow> nat \<Rightarrow> bool" where
  "avail zf bc k \<longleftrightarrow>
     (case known_block zf v_validated k of
        None \<Rightarrow> False
      | Some h \<Rightarrow> (case bc_blocks bc h of None \<Rightarrow> False | Some b \<Rightarrow> zb_valid b))"

definition block_data :: "ZCachedFile \<Rightarrow> ZBlockCache \<Rightarrow> nat \<Rightarrow> bytes" where
  "block_data zf bc k = (case bc_blocks bc (hs zf (leaf zf k)) of None \<Rightarrow> [] | Some b \<Rightarrow> zb_data b)"

definition file_byte :: "ZCachedFile \<Rightarrow> ZBlockCache \<Rightarrow> nat \<Rightarrow> u8" where
  "file_byte zf bc i = block_data zf bc (i div 65536) ! (i mod 65536)"

lemma availE:
  assumes "avail zf bc k"
  obtains h b where "known_block zf v_validated k = Some h" "h = hs zf (leaf zf k)" "bc_blocks bc h = Some b"
    "zb_valid b" "block_data zf bc k = zb_data b"
  using assms by (auto simp: avail_def known_block_def block_data_def split: option.splits if_splits)

lemma slice_of_block:
  assumes "length d = 65536" and "block_data zf bc k = d" and "off + n \<le> 65536"
  shows "take n (drop off d) = map (file_byte zf bc) [k * 65536 + off..<k * 65536 + off + n]"
proof (rule nth_equalityI)
  fix i assume "i < length (take n (drop off d))"
  then have i: "i < n" "off + i < 65536" using assms(1,3) by auto
  then have "(k * 65536 + off + i) div 65536 = k" "(k * 65536 + off + i) mod 65536 = off + i"
    by (simp_all add: add.assoc)
  with i assms show "take n (drop off d) ! i = map (file_byte zf bc) [k * 65536 + off..<k * 65536 + off + n] ! i"
    by (simp add: file_byte_def)
qed (use assms in simp)

lemma unat_block_start: "unat blk \<le> 65535 \<Longrightarrow> unat (push_bit 16 (blk :: u32)) = unat blk * 65536"
  using unat_push_bit [of blk 16] by simp

lemma zb_read_ok:
  assumes "length (zb_data b) = 65536" and "zb_valid b" and "unat off + unat n \<le> 65536" and "p + unat n \<le> length buf"
  shows "zb_read b buf p off n = Some (overwrite buf p (take (unat n) (drop (unat off) (zb_data b))))"
proof -
  have "unat (off + n) = unat off + unat n" using assms(3) by (intro unat_add_small) simp
  then have "off + n \<le> ZFTP_BLOCK_SIZE" using assms(3) by (simp add: word_nat)
  with assms show ?thesis by (simp add: zb_read_def memcpy_spec)
qed

lemma with_block_same:
  "known_block zf v_validated k = Some h \<Longrightarrow> bc_blocks bc h = Some b \<Longrightarrow>
     with_block mem bc (known_block zf v_validated k) = bc_blocks bc"
  by (simp add: with_block_def)

lemma block_data_cong: "bc_blocks bc' = bc_blocks bc \<Longrightarrow> block_data zf bc' = block_data zf bc"
  by (simp add: block_data_def fun_eq_iff)

lemma file_byte_cong: "bc_blocks bc' = bc_blocks bc \<Longrightarrow> file_byte zf bc' = file_byte zf bc"
  using block_data_cong [of bc' bc zf] by (simp add: file_byte_def fun_eq_iff)

lemma avail_cong: "bc_blocks bc' = bc_blocks bc \<Longrightarrow> avail zf bc' = avail zf bc"
  by (rule ext) (auto simp: avail_def split: option.splits)

text \<open>One round of the loop, in natural numbers.\<close>

definition read_pos_ok :: "ZCachedFile \<Rightarrow> u32 \<Rightarrow> u32 \<Rightarrow> u32 \<Rightarrow> u32 \<Rightarrow> u32 \<Rightarrow> bool" where
  "read_pos_ok zf offset sz blk buf_off ended \<longleftrightarrow>
     unat offset + unat sz \<le> file_len_nat zf \<and> unat buf_off \<le> unat sz \<and> unat ended = unat offset + unat buf_off \<and>
     (unat buf_off < unat sz \<longrightarrow> unat blk = (unat offset + unat buf_off) div 65536) \<and>
     (unat buf_off = 0 \<or> unat buf_off = unat sz \<or> (unat offset + unat buf_off) mod 65536 = 0)"

definition blocks_ready :: "ZCachedFile \<Rightarrow> ZBlockCache \<Rightarrow> nat \<Rightarrow> nat \<Rightarrow> bool" where
  "blocks_ready zf bc a b \<longleftrightarrow> (\<forall>k. a < (k + 1) * 65536 \<and> k * 65536 < b \<longrightarrow> avail zf bc k)"

lemma read_end_nat:
  fixes offset sz :: u32
  shows "configured zf \<Longrightarrow> unat offset + unat sz \<le> file_len_nat zf \<Longrightarrow> unat (offset + sz) = unat offset + unat sz"
  using unat_less_exp [of "get_filelen zf"] by (intro unat_add_small) simp

lemma read_block_nat:
  assumes c: "configured zf" and p: "read_pos_ok zf offset sz blk buf_off ended" and lt: "unat buf_off < unat sz"
  defines "start \<equiv> push_bit 16 blk"
  defines "off \<equiv> if start < offset then offset - start else 0"
  defines "n \<equiv> min (offset + sz - start - off) (ZFTP_BLOCK_SIZE - off)"
  shows "unat blk < unat (num_blocks zf)" and "unat blk * 65536 + unat off = unat offset + unat buf_off"
    and "unat off + unat n \<le> 65536" and "0 < unat n" and "unat buf_off + unat n \<le> unat sz" and "start + off = ended"
    and "read_pos_ok zf offset sz (blk + 1) (buf_off + n) (start + off + n)" and "unat (buf_off + n) = unat buf_off + unat n"
    and "unat off = (unat offset + unat buf_off) mod 65536" and "unat n = min (unat sz - unat buf_off) (65536 - unat off)"
proof -
  let ?O = "unat offset" and ?S = "unat sz" and ?B = "unat buf_off" and ?K = "unat blk"
  from p lt have fit: "?O + ?S \<le> file_len_nat zf" and K: "?K = (?O + ?B) div 65536" and e: "unat ended = ?O + ?B"
    and al: "?B = 0 \<or> (?O + ?B) mod 65536 = 0" by (simp_all add: read_pos_ok_def)
  have Kb: "?K * 65536 \<le> ?O + ?B" "?O + ?B < (?K + 1) * 65536" unfolding K by simp_all
  have K2: "?B = 0 \<or> ?O + ?B = ?K * 65536" using al unfolding K by (auto simp: minus_mod_eq_div_mult [symmetric])
  have "?K * 65536 < file_len_nat zf" using Kb(1) lt fit by linarith
  then show Kn: "?K < unat (num_blocks zf)" unfolding num_blocks_nat(1) [OF c] by linarith
  then have K3: "?K \<le> 65534" using num_blocks_nat(2) [OF c] by simp
  note os = read_end_nat [OF c fit]
  have st: "unat start = ?K * 65536" using unat_block_start [of blk] K3 by (simp add: start_def)
  have ofs: "unat off = ?O + ?B - ?K * 65536"
    using st K2 Kb(1) by (auto simp: off_def word_less_nat_alt unat_sub_le)
  then show eq: "?K * 65536 + unat off = ?O + ?B" using Kb(1) by simp
  have "unat (offset + sz - start) = ?O + ?S - ?K * 65536" using os st Kb(1) lt by (subst unat_sub_le) simp_all
  then have "unat (offset + sz - start - off) = ?S - ?B" using ofs Kb(1) lt by (subst unat_sub_le) simp_all
  moreover have "unat (ZFTP_BLOCK_SIZE - off) = 65536 - unat off" using ofs Kb by (subst unat_sub_le) simp_all
  ultimately have n: "unat n = min (?S - ?B) (65536 - unat off)" by (auto simp: n_def min_def word_le_nat_alt)
  then show "unat off + unat n \<le> 65536" "0 < unat n" using ofs Kb lt by auto
  show nS: "?B + unat n \<le> ?S" using n lt by simp
  have sl: "?S < 2 ^ 32" using unat_less_exp [of sz] by simp
  show B': "unat (buf_off + n) = ?B + unat n" using nS sl by (subst unat_add_small) simp_all
  show la: "start + off = ended"
    using eq st e fit lt unat_less_exp [of "get_filelen zf"] by (simp add: unat_eq_iff) (subst unat_add_small; simp)
  have l': "unat (start + off + n) = ?O + (?B + unat n)"
    using la e nS fit unat_less_exp [of "get_filelen zf"] by (subst unat_add_small) simp_all
  have nx: "?O + (?B + unat n) = (?K + 1) * 65536" if "?B + unat n < ?S"
    using that n ofs Kb by (simp add: min_def split: if_splits)
  show "unat off = (?O + ?B) mod 65536" using ofs unfolding K by (simp add: minus_div_mult_eq_mod)
  show "unat n = min (?S - ?B) (65536 - unat off)" by (rule n)
  have "unat (blk + 1) = ?K + 1" using K3 by (subst unat_add_small) simp_all
  then show "read_pos_ok zf offset sz (blk + 1) (buf_off + n) (start + off + n)"
    unfolding read_pos_ok_def B' l' using fit nS nx by (cases "?B + unat n < ?S") simp_all
qed

text \<open>One round of the loop: the block at the position is read into the buffer.\<close>

lemma read_round:
  assumes c: "configured zf" and ok: "cache_ok zhash mem bc"
    and rdy: "blocks_ready zf bc (unat offset) (unat offset + unat sz)"
    and pos: "read_pos_ok zf offset sz blk buf_off ended" and BS: "unat buf_off < unat sz"
  obtains bc1 h b off n where
    "read_loop cls mem zf buf_offset offset sz bc buf blk buf_off ended =
       Buf_read cls buf b (buf_off + buf_offset) off n \<bind>
       (\<lambda>buf1. read_loop cls mem zf buf_offset offset sz bc1 buf1 (blk + 1) (buf_off + n) (ended + n))"
    "bc_blocks bc h = Some b" "zb_valid b" "length (zb_data b) = 65536"
    "take (unat n) (drop (unat off) (zb_data b)) = map (file_byte zf bc) [unat offset + unat buf_off..<unat offset + unat buf_off + unat n]"
    "cache_ok zhash mem bc1" "bc_blocks bc1 = bc_blocks bc"
    "read_pos_ok zf offset sz (blk + 1) (buf_off + n) (ended + n)"
    "unat off = (unat offset + unat buf_off) mod 65536" "unat n = min (unat sz - unat buf_off) (65536 - unat off)"
    "unat (buf_off + n) = unat buf_off + unat n"
proof -
  let ?O = "unat offset" and ?B = "unat buf_off" and ?K = "unat blk"
  define start where "start = push_bit 16 blk"
  define off where "off = (if start < offset then offset - start else 0)"
  define n where "n = min (offset + sz - start - off) (ZFTP_BLOCK_SIZE - off)"
  note r = read_block_nat [OF c pos BS, folded start_def, folded off_def, folded n_def]
  have "avail zf bc ?K" using rdy r(2-5) by (simp add: blocks_ready_def)
  then obtain h b where hb: "known_block zf v_validated ?K = Some h" "bc_blocks bc h = Some b" "zb_valid b"
    "block_data zf bc ?K = zb_data b" by (rule availE)
  from lookup_block_ok [OF c r(1) ok, of v_validated] obtain bc1 where
    l: "lookup_block mem zf bc blk v_validated = Some (bc1, Some h)" "cache_ok zhash mem bc1" "bc_blocks bc1 = bc_blocks bc"
    using with_block_same [OF hb(1,2), of mem] hb(1) by auto
  have len: "length (zb_data b) = 65536" using ok hb(2) by (auto simp: cache_ok_def bc_ok_def zb_ok_def)
  have "buf_off < sz" using BS by (simp add: word_nat)
  then have "read_loop cls mem zf buf_offset offset sz bc buf blk buf_off ended =
       Buf_read cls buf b (buf_off + buf_offset) off n \<bind>
       (\<lambda>buf1. read_loop cls mem zf buf_offset offset sz bc1 buf1 (blk + 1) (buf_off + n) (ended + n))"
    using l(1) l(3) hb(2,3) r(6)
    by (subst read_loop.simps) (simp add: Let_def start_def [symmetric] off_def [symmetric] n_def [symmetric])
  note step = this
  have sl: "take (unat n) (drop (unat off) (zb_data b)) = map (file_byte zf bc) [?O + ?B..<?O + ?B + unat n]"
    using slice_of_block [OF len hb(4) r(3)] unfolding r(2) .
  show ?thesis by (rule that [OF step hb(2,3) len sl l(2,3) r(7) [unfolded r(6)] r(9,10,8)])
qed

text \<open>
  What a read relies on of a buffer: a block can be read into it where it is \<open>ready\<close>, after a whole block
  it is ready for the next one, and clearing its counters changes neither its contents nor its readiness.
\<close>

locale file_buffer =
  fixes cls :: "'s Buf"
    and contents :: "'s \<Rightarrow> bytes"
    and ready :: "'s \<Rightarrow> u32 \<Rightarrow> bool"
    and usable :: "ZBlockCacheRecord \<Rightarrow> bool"
  assumes read_block: "ready s pos \<Longrightarrow> usable b \<Longrightarrow> zb_valid b \<Longrightarrow> length (zb_data b) = 65536 \<Longrightarrow>
      unat off + unat n \<le> 65536 \<Longrightarrow> unat pos + unat n \<le> length (contents s) \<Longrightarrow>
      \<exists>s'. Buf_read cls s b pos off n = Some s' \<and>
        contents s' = overwrite (contents s) (unat pos) (take (unat n) (drop (unat off) (zb_data b))) \<and>
        (unat n = 65536 \<longrightarrow> ready s' (pos + n))"
    and reset_stats: "\<exists>s'. cast_resetDebugStats cls s = Some s' \<and> contents s' = contents s \<and> (\<forall>pos. ready s pos \<longrightarrow> ready s' pos)"
begin

definition steady :: "u32 \<Rightarrow> bool" where
  "steady offset \<longleftrightarrow> unat offset mod 65536 = 0 \<or> (\<forall>s q. ready s q)"

definition all_usable :: "ZBlockCache \<Rightarrow> bool" where
  "all_usable bc \<longleftrightarrow> (\<forall>h b. bc_blocks bc h = Some b \<longrightarrow> usable b)"

lemma read_loop_ok:
  assumes c: "configured zf" and buf_fit: "unat buf_offset + unat sz < 2 ^ 32" and st: "steady offset"
  shows "cache_ok zhash mem bc \<Longrightarrow> unat buf_offset + unat sz \<le> length (contents buf) \<Longrightarrow> all_usable bc \<Longrightarrow>
    (buf_off < sz \<longrightarrow> ready buf (buf_off + buf_offset)) \<Longrightarrow>
    blocks_ready zf bc (unat offset) (unat offset + unat sz) \<Longrightarrow> read_pos_ok zf offset sz blk buf_off ended \<Longrightarrow>
    \<exists>bc' buf'. read_loop cls mem zf buf_offset offset sz bc buf blk buf_off ended = Some (bc', buf', offset + sz) \<and>
      contents buf' = overwrite (contents buf) (unat buf_offset + unat buf_off)
                   (map (file_byte zf bc) [unat offset + unat buf_off..<unat offset + unat sz]) \<and>
      cache_ok zhash mem bc' \<and> bc_blocks bc' = bc_blocks bc"
proof (induction "unat sz - unat buf_off" arbitrary: bc buf blk buf_off ended rule: less_induct)
  case less
  let ?O = "unat offset" and ?S = "unat sz" and ?B = "unat buf_off" and ?P = "unat buf_offset" and ?K = "unat blk"
  let ?f = "file_byte zf bc"
  show ?case
  proof (cases "buf_off < sz")
    case False
    from less.prems(6) have e: "?O + ?S \<le> file_len_nat zf" "?B \<le> ?S" "unat ended = ?O + ?B" by (simp_all add: read_pos_ok_def)
    with False have "?B = ?S" by (simp add: word_nat)
    moreover from this e read_end_nat [OF c e(1)] have "ended = offset + sz" by (simp add: unat_eq_iff)
    ultimately show ?thesis using False less.prems(1) by (subst read_loop.simps) simp
  next
    case True
    then have BS: "?B < ?S" by (simp add: word_nat)
    from read_round [OF c less.prems(1,5,6) BS, of cls buf_offset buf] obtain bc1 h b off n where
      step: "read_loop cls mem zf buf_offset offset sz bc buf blk buf_off ended =
        Buf_read cls buf b (buf_off + buf_offset) off n \<bind>
        (\<lambda>buf1. read_loop cls mem zf buf_offset offset sz bc1 buf1 (blk + 1) (buf_off + n) (ended + n))"
      and hb: "bc_blocks bc h = Some b" "zb_valid b" and len: "length (zb_data b) = 65536"
      and sl: "take (unat n) (drop (unat off) (zb_data b)) = map ?f [?O + ?B..<?O + ?B + unat n]"
      and l: "cache_ok zhash mem bc1" "bc_blocks bc1 = bc_blocks bc" and p: "read_pos_ok zf offset sz (blk + 1) (buf_off + n) (ended + n)"
      and o: "unat off = (?O + ?B) mod 65536" and n: "unat n = min (?S - ?B) (65536 - unat off)"
      and B': "unat (buf_off + n) = ?B + unat n" .
    have "unat off < 65536" unfolding o by simp
    then have n1: "0 < unat n" "?B + unat n \<le> ?S" "unat off + unat n \<le> 65536" using n BS by (auto simp: min_def)
    have bb: "unat (buf_off + buf_offset) = ?P + ?B" using buf_fit BS by (subst unat_add_small) simp_all
    let ?x = "map ?f [?O + ?B..<?O + ?B + unat n]" and ?y = "map ?f [?O + ?B + unat n..<?O + ?S]"
    have "usable b" using less.prems(3) hb(1) by (auto simp: all_usable_def)
    from read_block [OF _ this hb(2) len n1(3), of buf "buf_off + buf_offset"] True less.prems(2,4) bb n1(2) sl
    obtain buf1 where b1: "Buf_read cls buf b (buf_off + buf_offset) off n = Some buf1"
      "contents buf1 = overwrite (contents buf) (?P + ?B) ?x" "unat n = 65536 \<longrightarrow> ready buf1 (buf_off + buf_offset + n)"
      by auto
    have "?O mod 65536 = 0 \<Longrightarrow> ?B + unat n < ?S \<Longrightarrow> unat n = 65536"
      using less.prems(6) BS o n by (auto simp: read_pos_ok_def mod_add_left_eq [symmetric])
    with st b1(3) B' have rn: "buf_off + n < sz \<longrightarrow> ready buf1 (buf_off + n + buf_offset)"
      by (auto simp: steady_def word_less_nat_alt add_ac)
    have "\<exists>bc' buf'. read_loop cls mem zf buf_offset offset sz bc1 buf1 (blk + 1) (buf_off + n) (ended + n) = Some (bc', buf', offset + sz) \<and>
      contents buf' = overwrite (contents buf1) (?P + unat (buf_off + n)) (map (file_byte zf bc1) [?O + unat (buf_off + n)..<?O + ?S]) \<and>
      cache_ok zhash mem bc' \<and> bc_blocks bc' = bc_blocks bc1"
    proof (rule less.hyps)
      show "?S - unat (buf_off + n) < ?S - ?B" using n1 BS unfolding B' by linarith
      show "?P + ?S \<le> length (contents buf1)" using less.prems(2) n1(2) b1(2) by simp
      show "blocks_ready zf bc1 ?O (?O + ?S)" using less.prems(5) unfolding blocks_ready_def avail_cong [OF l(2)] .
      show "all_usable bc1" using less.prems(3) l(2) by (simp add: all_usable_def)
    qed (rule l(1), rule rn, rule p)
    moreover have "?x @ ?y = map ?f [?O + ?B..<?O + ?S]"
      using upt_add_eq_append [of "?O + ?B" "?O + ?B + unat n" "?S - ?B - unat n"] n1(2) by (simp flip: map_append)
    moreover have "overwrite (contents buf1) (?P + ?B + length ?x) ?y = overwrite (contents buf) (?P + ?B) (?x @ ?y)"
      using less.prems(2) n1(2) unfolding b1(2) by (intro overwrite_overwrite) simp
    ultimately show ?thesis using step b1(1) l(2) file_byte_cong [OF l(2)] by (auto simp: B' add.assoc)
  qed
qed

lemma zf_read_ok:
  assumes "configured zf" and "cache_ok zhash mem bc" and "unat offset + unat sz \<le> unat (get_filelen zf)"
    and "blocks_ready zf bc (unat offset) (unat offset + unat sz)" and "all_usable bc" and "steady offset"
    and "unat buf_offset + unat sz \<le> length (contents buf)" and "length (contents buf) < 2 ^ 32"
    and "contents (set_debug_offset cls buf buf_offset) = contents buf" and "ready (set_debug_offset cls buf buf_offset) buf_offset"
  shows "\<exists>bc' buf'. zf_read cls mem zf bc buf buf_offset offset sz = Some (bc', buf') \<and>
           contents buf' = overwrite (contents buf) (unat buf_offset) (map (file_byte zf bc) [unat offset..<unat offset + unat sz]) \<and>
         cache_ok zhash mem bc' \<and> bc_blocks bc' = bc_blocks bc"
proof -
  have e: "unat (offset + sz) = unat offset + unat sz" by (rule read_end_nat [OF assms(1,3)])
  then have "offset + sz \<le> get_filelen zf" using assms(3) by (simp add: word_nat)
  moreover have pos: "read_pos_ok zf offset sz (drop_bit 16 offset) 0 offset"
    using assms(3) by (simp add: read_pos_ok_def unat_drop_bit)
  from reset_stats [of "set_debug_offset cls buf buf_offset"] obtain buf0 where
    r: "cast_resetDebugStats cls (set_debug_offset cls buf buf_offset) = Some buf0" "contents buf0 = contents buf" "ready buf0 buf_offset"
    using assms(9,10) by auto
  from read_loop_ok [OF assms(1) _ assms(6,2) _ assms(5) _ assms(4) pos, of buf_offset buf0] assms(7,8) r(2,3)
  obtain bc' buf' where
    "read_loop cls mem zf buf_offset offset sz bc buf0 (drop_bit 16 offset) 0 offset = Some (bc', buf', offset + sz)"
    "contents buf' = overwrite (contents buf) (unat buf_offset) (map (file_byte zf bc) [unat offset..<unat offset + unat sz])"
    "cache_ok zhash mem bc'" "bc_blocks bc' = bc_blocks bc" by auto
  ultimately show ?thesis using r(1) by (simp add: zf_read_def Let_def)
qed

end

subsection \<open>A small file\<close>

text \<open>A file of five bytes, whose only block has the name 0, and a cache that holds that block.\<close>

definition sample_file :: ZCachedFile where
  "sample_file = (sample_tree 0 0)\<lparr>metadata := \<lparr>file_len_network_order = z_htonl 5, md_flags = 0\<rparr>, file_len := 5, num_blocks := 1\<rparr>"

definition sample_mem :: "hash_t \<Rightarrow> bytes" where
  "sample_mem h = replicate 65536 0"

lemma sample_file_configured: "configured sample_file"
proof -
  have "shape sample_file" using sample_tree_shape [of 0 0] by (simp add: sample_file_def shape_def)
  moreover have "get_filelen sample_file = 5" unfolding sample_file_def get_filelen_def by (simp add: z_ntohl_def)
  moreover have "compute_num_blocks 5 = 1" "compute_tree_depth 1 = 0" by code_simp+
  ultimately show ?thesis by (simp add: configured_def) (simp add: sample_file_def sample_tree_def)
qed

lemma sample_file_sel: "get_filelen sample_file = 5" "num_blocks sample_file = 1" "leaf sample_file 0 = 0"
    "st sample_file 0 = v_validated" "hs sample_file 0 = 0"
  by (simp_all add: sample_file_def get_filelen_def leaf_def sample_tree_def z_ntohl_def)

lemma sample_cache_ok: "cache_ok zhash sample_mem (ZBlockCache_new None)"
  using bc_new_ok [of zhash None] by (simp add: cache_ok_def db_ok_def sample_mem_def) (simp add: ZBlockCache_new_def)

lemma sample_cache_with:
  assumes "zb_ok zhash b"
  obtains bc where "cache_ok zhash sample_mem bc" "bc_blocks bc = [zb_hash b \<mapsto> b]"
proof -
  have "bc_ok zhash (ZBlockCache_new None)" by (rule bc_new_ok) (simp add: db_ok_def)
  from bc_insert_ok [OF this assms] show ?thesis
    using that sample_cache_ok [of zhash]
    by (auto simp: cache_ok_def blocks_after_def retrieve_block_def ZBlockCache_new_def)
qed

subsection \<open>Reading into plain memory\<close>

text \<open>A read into a \<open>MemBuf\<close> leaves the object: the counters it clears are not there. \<open>ZFetch.cpp\<close> (line 67) and
  \<open>ZLCVFS.cpp\<close> (line 85) read that way.\<close>

theorem MemBuf_read_aborts: "zf_read MemBuf mem zf bc buf buf_offset offset sz = None"
  by (simp add: zf_read_def MemBuf_def Let_def lite_assert_def)

end
