(* ===== verification/MissingSet.thy ===== *)
theory MissingSet
  imports CachedFile
begin

text \<open>
  What \<open>_compute_missing_set\<close> and \<open>round_up_to_block\<close> of \<open>ZCachedFile.cpp\<close> compute: the set is
  empty exactly when no block of the requested range lacks a byte of the file.
\<close>

subsection \<open>Rounding\<close>

lemma and_not_block: "(w :: u32) AND NOT (ZFTP_BLOCK_SIZE - 1) = push_bit 16 (drop_bit 16 w)"
proof -
  have e: "ZFTP_BLOCK_SIZE - 1 = mask 16" by (simp add: mask_eq_exp_minus_1)
  show ?thesis unfolding e by (rule bit_word_eqI) (auto simp: bit_simps)
qed

lemma unat_and_not_block: "unat ((w :: u32) AND NOT (ZFTP_BLOCK_SIZE - 1)) = unat w div 65536 * 65536"
proof -
  have "unat (drop_bit 16 w) = unat w div 65536" by (simp add: unat_drop_bit)
  moreover have "unat w div 65536 \<le> 65535" using unat_less_exp [of w] by (simp add: less_Suc_eq_le [symmetric] div_less_iff_less_mult)
  ultimately show ?thesis using unat_block_start [of "drop_bit 16 w"] unfolding and_not_block by simp
qed

lemma unat_and_neg_block [simp]: "unat ((w :: u32) AND - 65536) = unat w div 65536 * 65536"
  using unat_and_not_block [of w] by simp

lemma round_up_nat:
  "unat (round_up_to_block pos) =
     (if pos = 0 \<or> 2 ^ 32 - 2 ^ 16 < unat pos then 2 ^ 32 - 2 ^ 16 else (unat pos + 65535) div 65536 * 65536)"
proof -
  let ?d = "(pos - 1) AND NOT (ZFTP_BLOCK_SIZE - 1)"
  have d: "unat ?d = unat (pos - 1) div 65536 * 65536" by (rule unat_and_not_block)
  have lt: "unat (pos - 1) < 2 ^ 32" using unat_less_exp [of "pos - 1"] by simp
  show ?thesis
  proof (cases "unat (pos - 1) div 65536 = 65535")
    case True
    have "unat (?d + ZFTP_BLOCK_SIZE) = 0" using d True by (simp add: unat_word_ariths)
    then have "?d + ZFTP_BLOCK_SIZE < ?d" using d True by (simp add: word_nat)
    moreover have "pos = 0 \<or> 2 ^ 32 - 2 ^ 16 < unat pos"
      using True by (cases "pos = 0") (auto simp: unat_sub_if' Suc_le_eq unat_gt_0 split: if_splits)
    ultimately show ?thesis using d True by (simp add: round_up_to_block_def Let_def)
  next
    case False
    then have q: "unat (pos - 1) div 65536 < 65535" using lt by (simp add: div_less_iff_less_mult less_Suc_eq_le [symmetric])
    then have u: "unat (?d + ZFTP_BLOCK_SIZE) = unat (pos - 1) div 65536 * 65536 + 65536" using d by (subst unat_add_small) simp_all
    then have "\<not> ?d + ZFTP_BLOCK_SIZE < ?d" using d by (simp add: word_nat)
    moreover have p: "pos \<noteq> 0" using q by auto
    then have m: "unat (pos - 1) = unat pos - 1" and g: "0 < unat pos" by (auto simp: unat_sub_if' Suc_le_eq unat_gt_0)
    have "unat pos - 1 < 65535 * 65536" using q unfolding m by (simp add: div_less_iff_less_mult)
    then have "\<not> 2 ^ 32 - 2 ^ 16 < unat pos" using g by simp
    moreover have "unat pos + 65535 = (unat pos - 1) + 65536" using g by simp
    then have "(unat pos + 65535) div 65536 = (unat pos - 1) div 65536 + 1" by simp
    ultimately show ?thesis using u m p by (simp add: round_up_to_block_def Let_def)
  qed
qed

subsection \<open>The missing set\<close>

text \<open>
  Block \<open>k\<close> needs nothing more of the bytes below \<open>e\<close>: it is valid, or all that it
  lacks lies beyond.
\<close>

definition fine :: "ZCachedFile \<Rightarrow> ZBlockCache \<Rightarrow> nat \<Rightarrow> nat \<Rightarrow> bool" where
  "fine zf bc e k \<longleftrightarrow>
     (case known_block zf v_validated k of
        None \<Rightarrow> False
      | Some h \<Rightarrow> (case bc_blocks bc h of None \<Rightarrow> False | Some b \<Rightarrow> zb_valid b \<or> e \<le> k * 65536 + unat (next_gap b)))"

lemma fine_with_block:
  assumes "k * 65536 < e" and "bc_blocks bc' = with_block mem bc name"
  shows "fine zf bc' e k = fine zf bc e k"
  using assms
  by (auto simp: fine_def with_block_def ZBlockCacheRecord_new_def split: option.splits if_splits)

lemma accumulate_cases:
  assumes "dr_wf r" and "s \<le> e"
  obtains r' where "DataRange_maybe_accumulate r s e = (r', True)" "dr_wf r'" "dr_bytes r' = dr_bytes r \<union> dr_bytes (DataRange_of s e)"
  | "DataRange_maybe_accumulate r s e = (r, False)" "dr_bytes r \<noteq> {}"
proof (cases "DataRange_maybe_accumulate r s e")
  case (Pair r' w)
  show ?thesis
  proof (cases w)
    case True
    with Pair accumulate_bytes [OF assms, of r'] that(1) show ?thesis by auto
  next
    case False
    with Pair have "DataRange_maybe_accumulate r s e = (r, False)" using accumulate_refused(1) [of r s e r'] by simp
    moreover from this have "\<not> DataRange_is_empty r" by (auto simp: DataRange_maybe_accumulate_def split: if_splits)
    ultimately show ?thesis using empty_bytes [OF assms(1)] that(2) by blast
  qed
qed

lemma bytes_nat: "x \<in> dr_bytes r \<longleftrightarrow> unat (dr_start r) \<le> unat x \<and> unat x < unat (dr_end r)"
  by (simp add: dr_bytes_def word_le_nat_alt word_less_nat_alt)

lemma bytes_of_nat:
  "x \<in> dr_bytes (DataRange_of s e) \<longleftrightarrow> unat s \<le> unat x \<and> unat x < unat e"
  by (simp add: dr_bytes_def DataRange_of_def word_le_nat_alt word_less_nat_alt)

lemma range_eta: "DataRange_of (dr_start r) (dr_end r) = r"
  by (simp add: DataRange_of_def)

lemma cache_ok_block: "cache_ok zhash mem bc \<Longrightarrow> bc_blocks bc h = Some b \<Longrightarrow> zb_ok zhash b"
  by (auto simp: cache_ok_def bc_ok_def)

text \<open>Accounting for a block adds what the block lacks, or stops with a set that is not empty.\<close>

lemma account_block_ok:
  assumes ok: "cache_ok zhash mem bc" and el: "unat (dr_end el) \<le> 2 ^ 32 - 2 ^ 16" "unat (dr_start el) \<le> K * 65536"
    and K: "unat start = K * 65536" "K * 65536 < unat (dr_end el)" and stop: "unat stop = min (K * 65536 + 65536) (unat (dr_end el))"
    and wf: "dr_wf ms" and known: "\<forall>h. known_block zf v_validated K = Some h \<longrightarrow> bc_blocks bc h \<noteq> None"
  shows "\<exists>ms' w. account_block el bc ms start stop start (known_block zf v_validated K) = Some (ms', w) \<and> dr_wf ms' \<and>
    (\<exists>R \<subseteq> dr_bytes el. (R = {} \<longleftrightarrow> fine zf bc (unat (dr_end el)) K) \<and>
       (if w then dr_bytes ms' = dr_bytes ms \<union> R else ms' = ms \<and> dr_bytes ms \<noteq> {}))"
proof -
  have main: "\<exists>ms' w. Some (DataRange_maybe_accumulate ms (dr_start R) (dr_end R)) = Some (ms', w) \<and> dr_wf ms' \<and>
      (\<exists>R' \<subseteq> dr_bytes el. (R' = {} \<longleftrightarrow> fine zf bc (unat (dr_end el)) K) \<and>
         (if w then dr_bytes ms' = dr_bytes ms \<union> R' else ms' = ms \<and> dr_bytes ms \<noteq> {}))"
    if "dr_wf R" "dr_bytes R \<subseteq> dr_bytes el" "dr_bytes R = {} \<longleftrightarrow> fine zf bc (unat (dr_end el)) K" for R
  proof -
    from that(1) have "dr_start R \<le> dr_end R" by (simp add: dr_wf_def)
    from accumulate_cases [OF wf this] show ?thesis
    proof cases
      case (1 r')
      with that show ?thesis by (intro exI [of _ r'] exI [of _ True]) (auto simp: range_eta intro!: exI [of _ "dr_bytes R"])
    next
      case 2
      with that wf show ?thesis by (intro exI [of _ ms] exI [of _ False]) (auto intro!: exI [of _ "dr_bytes R"])
    qed
  qed
  show ?thesis
  proof (cases "known_block zf v_validated K")
    case None
    have "start \<in> dr_bytes (DataRange_of start stop)" using K stop by (simp add: bytes_of_nat)
    then have "dr_bytes (DataRange_of start stop) \<noteq> {}" by blast
    moreover have "dr_wf (DataRange_of start stop)" using K stop by (simp add: dr_wf_def DataRange_of_def word_le_nat_alt)
    moreover have "dr_bytes (DataRange_of start stop) \<subseteq> dr_bytes el"
      using K stop el(2) by (auto simp: bytes_nat DataRange_of_def)
    ultimately show ?thesis
      using main [of "DataRange_of start stop"] None by (simp add: account_block_def fine_def DataRange_of_def)
  next
    case (Some h)
    with known obtain b where b: "bc_blocks bc h = Some b" by auto
    show ?thesis
    proof (cases "zb_valid b")
      case True
      with Some b wf show ?thesis by (auto simp: account_block_def fine_def intro!: exI [of _ "{}"])
    next
      case False
      let ?sh = "DataRange_of (start + next_gap b) (start + ZFTP_BLOCK_SIZE)"
      let ?R = "DataRange_intersect ?sh el"
      have g: "unat (next_gap b) < 65536"
        using cache_ok_block [OF ok b] False by (simp add: zb_ok_def word_less_nat_alt)
      have sh: "unat (start + next_gap b) = K * 65536 + unat (next_gap b)" "unat (start + ZFTP_BLOCK_SIZE) = K * 65536 + 65536"
        using K el(1) g by (subst unat_add_small; simp)+
      have R: "x \<in> dr_bytes ?R \<longleftrightarrow> K * 65536 + unat (next_gap b) \<le> unat x \<and> unat x < min (K * 65536 + 65536) (unat (dr_end el))" for x
        using sh el(2) unfolding intersect_bytes by (auto simp: bytes_nat DataRange_of_def)
      have "dr_bytes ?R = {} \<longleftrightarrow> unat (dr_end el) \<le> K * 65536 + unat (next_gap b)"
      proof
        assume "dr_bytes ?R = {}"
        with R [of "start + next_gap b"] sh(1) g show "unat (dr_end el) \<le> K * 65536 + unat (next_gap b)" by simp
      next
        assume "unat (dr_end el) \<le> K * 65536 + unat (next_gap b)"
        then have "x \<notin> dr_bytes ?R" for x unfolding R by linarith
        then show "dr_bytes ?R = {}" by blast
      qed
      then have "dr_bytes ?R = {} \<longleftrightarrow> fine zf bc (unat (dr_end el)) K" using Some b False by (simp add: fine_def)
      moreover have "dr_bytes ?R \<subseteq> dr_bytes el" using intersect_bytes by auto
      ultimately show ?thesis
        using main [OF intersect_wf, of ?sh el] Some b False
        by (simp add: account_block_def get_missing_range_def Let_def DataRange_of_def)
    qed
  qed
qed

text \<open>The blocks of the eligible range from \<open>K\<close> on.\<close>

definition all_fine :: "ZCachedFile \<Rightarrow> ZBlockCache \<Rightarrow> DataRange \<Rightarrow> nat \<Rightarrow> bool" where
  "all_fine zf bc el K \<longleftrightarrow> (\<forall>k. K \<le> k \<and> k * 65536 < unat (dr_end el) \<longrightarrow> fine zf bc (unat (dr_end el)) k)"

lemma all_fine_step:
  "K * 65536 < unat (dr_end el) \<Longrightarrow>
     all_fine zf bc el K \<longleftrightarrow> fine zf bc (unat (dr_end el)) K \<and> all_fine zf bc el (K + 1)"
  unfolding all_fine_def by (metis Suc_eq_plus1 Suc_leD le_neq_implies_less less_eq_Suc_le order_refl)

lemma all_fine_with_block: "bc_blocks bc' = with_block mem bc name \<Longrightarrow> all_fine zf bc' el K = all_fine zf bc el K"
  using fine_with_block [of _ "unat (dr_end el)" bc' mem bc name zf] by (auto simp: all_fine_def)

definition cache_extends :: "ZBlockCache \<Rightarrow> ZBlockCache \<Rightarrow> bool" where
  "cache_extends bc bc' \<longleftrightarrow> (\<forall>h b. bc_blocks bc h = Some b \<longrightarrow> bc_blocks bc' h = Some b)"

lemma extends_with_block: "bc_blocks bc1 = with_block mem bc name \<Longrightarrow> cache_extends bc1 bc' \<Longrightarrow> cache_extends bc bc'"
  by (auto simp: cache_extends_def with_block_def split: option.splits if_splits)

lemma missing_loop_ok:
  assumes c: "configured zf" and mp: "0 < max_payload" and el: "unat (dr_end el) \<le> file_len_nat zf"
  shows "cache_ok zhash mem bc \<Longrightarrow> dr_wf ms \<Longrightarrow> dr_bytes ms \<subseteq> dr_bytes el \<Longrightarrow> unat (dr_start el) \<le> K * 65536 \<Longrightarrow>
    unat start = K * 65536 \<Longrightarrow>
    \<exists>bc' ms'. missing_loop mem zf mode max_payload el bc ms start = Some (bc', ms') \<and> cache_ok zhash mem bc' \<and>
      cache_extends bc bc' \<and> dr_wf ms' \<and> dr_bytes ms' \<subseteq> dr_bytes el \<and> (dr_bytes ms' = {} \<longleftrightarrow> dr_bytes ms = {} \<and> all_fine zf bc el K)"
proof (induction "unat (dr_end el) - K * 65536" arbitrary: bc ms K start rule: less_induct)
  case less
  show ?case
  proof (cases "start < dr_end el")
    case False
    then have "all_fine zf bc el K" using less.prems(5) by (auto simp: all_fine_def word_less_nat_alt)
    with False less.prems show ?thesis by (subst missing_loop.simps) (auto simp: cache_extends_def)
  next
    case True
    then have lt: "K * 65536 < unat (dr_end el)" using less.prems(5) by (simp add: word_nat)
    have e: "unat (dr_end el) \<le> 2 ^ 32 - 2 ^ 16" using c el by (simp add: configured_def)
    have Kn: "K < unat (num_blocks zf)" using lt el unfolding num_blocks_nat(1) [OF c] by linarith
    have K3: "K \<le> 65534" using Kn num_blocks_nat(2) [OF c] by simp
    let ?blk = "drop_bit 16 start"
    have blk: "unat ?blk = K" using less.prems(5) by (simp add: unat_drop_bit)
    have "unat (push_bit 16 ?blk) = unat start" using unat_block_start [of ?blk] blk K3 less.prems(5) by simp
    then have sb: "push_bit 16 ?blk = start" by (simp add: unat_eq_iff)
    have b1: "unat (?blk + 1) = K + 1" using blk K3 by (subst unat_add_small) simp_all
    then have eb: "unat (push_bit 16 (?blk + 1)) = (K + 1) * 65536" using unat_block_start [of "?blk + 1"] K3 by simp
    let ?stop = "min (push_bit 16 (?blk + 1)) (dr_end el)"
    have stop: "unat ?stop = min (K * 65536 + 65536) (unat (dr_end el))" using eb by (auto simp: min_def word_le_nat_alt)
    have nb: "\<not> num_blocks zf \<le> ?blk" using Kn blk by (simp add: word_nat)
    from lookup_block_ok [OF c _ less.prems(1), of ?blk v_validated] Kn blk obtain bc1 where
      l: "lookup_block mem zf bc ?blk v_validated = Some (bc1, known_block zf v_validated K)" "cache_ok zhash mem bc1"
        "bc_blocks bc1 = with_block mem bc (known_block zf v_validated K)" by auto
    have "\<forall>h. known_block zf v_validated K = Some h \<longrightarrow> bc_blocks bc1 h \<noteq> None" using l(3) by (auto simp: with_block_def)
    from account_block_ok [OF l(2) e less.prems(4,5) lt stop less.prems(2) this] obtain ms1 w R where
      a: "account_block el bc1 ms start ?stop start (known_block zf v_validated K) = Some (ms1, w)" "dr_wf ms1"
        "R \<subseteq> dr_bytes el" "R = {} \<longleftrightarrow> fine zf bc (unat (dr_end el)) K"
        "if w then dr_bytes ms1 = dr_bytes ms \<union> R else ms1 = ms \<and> dr_bytes ms \<noteq> {}"
      unfolding fine_with_block [OF lt l(3)] by blast
    note af = all_fine_step [OF lt, of zf bc]
    have x1: "cache_extends bc bc1" using extends_with_block [OF l(3), of bc1] by (simp add: cache_extends_def)
    define approx where "approx = (if mode then DataRange_size ms1 else drop_bit 16 (DataRange_size ms1) * 24)"
    have step: "missing_loop mem zf mode max_payload el bc ms start =
        (if \<not> w \<or> max_payload \<le> approx then Some (bc1, ms1)
         else missing_loop mem zf mode max_payload el bc1 ms1 (push_bit 16 (?blk + 1)))"
      using True nb l(1) a(1) sb by (subst missing_loop.simps) (simp add: Let_def approx_def)
    have sub1: "dr_bytes ms1 \<subseteq> dr_bytes el" using a(3,5) less.prems(3) by (auto split: if_splits)
    show ?thesis
    proof (cases "\<not> w \<or> max_payload \<le> approx")
      case T: True
      have "dr_bytes ms1 \<noteq> {}"
      proof (cases w)
        case True
        with T mp have "approx \<noteq> 0" by auto
        then have "\<not> DataRange_is_empty ms1" by (auto simp: approx_def DataRange_size_def DataRange_is_empty_def split: if_splits)
        then show ?thesis using empty_bytes [OF a(2)] by blast
      qed (use a(5) in auto)
      moreover have "\<not> (dr_bytes ms = {} \<and> all_fine zf bc el K)" using calculation a(4,5) af by (auto split: if_splits)
      ultimately show ?thesis using step T l(2) x1 a(2) sub1 by auto
    next
      case F: False
      have "\<exists>bc' ms'. missing_loop mem zf mode max_payload el bc1 ms1 (push_bit 16 (?blk + 1)) = Some (bc', ms') \<and>
          cache_ok zhash mem bc' \<and> cache_extends bc1 bc' \<and> dr_wf ms' \<and> dr_bytes ms' \<subseteq> dr_bytes el \<and>
          (dr_bytes ms' = {} \<longleftrightarrow> dr_bytes ms1 = {} \<and> all_fine zf bc1 el (K + 1))"
        using less.prems(4) lt eb by (intro less.hyps) (use l(2) a(2) sub1 in auto)
      then show ?thesis
        using step F a(4,5) af all_fine_with_block [OF l(3), of zf el "K + 1"] extends_with_block [OF l(3)] by auto
    qed
  qed
qed

lemma eligible_ok:
  assumes c: "configured zf" and wf: "dr_wf r"
  shows "\<exists>el. eligible_set zf r = Some el \<and> dr_wf el \<and> unat (dr_end el) \<le> file_len_nat zf \<and>
    (\<exists>K. unat (dr_start el) = K * 65536) \<and> (\<forall>x \<in> dr_bytes r. x < get_filelen zf \<longrightarrow> x \<in> dr_bytes el)"
proof -
  let ?ro = "DataRange_of (dr_start r AND NOT (ZFTP_BLOCK_SIZE - 1)) (round_up_to_block (dr_end r))"
  let ?fi = "DataRange_of 0 (get_filelen zf)"
  let ?el = "DataRange_intersect ?ro ?fi"
  have e: "eligible_set zf r = Some ?el"
    using c unfolding eligible_set_def get_file_data_range_def configured_def by simp
  have "x \<in> dr_bytes ?el" if "x \<in> dr_bytes r" "x < get_filelen zf" for x
  proof -
    from that have x: "unat (dr_start r) \<le> unat x" "unat x < unat (dr_end r)" "unat x < file_len_nat zf"
      by (simp_all add: bytes_nat word_less_nat_alt)
    then have d: "dr_end r \<noteq> 0" by auto
    have "unat x < unat (round_up_to_block (dr_end r))"
      using x c d unfolding round_up_nat configured_def by auto
    moreover have "unat (dr_start r) div 65536 * 65536 \<le> unat x" using x(1) div_times_less_eq_dividend order_trans by blast
    ultimately show ?thesis using x(3) unfolding intersect_bytes by (simp add: bytes_of_nat)
  qed
  moreover have "unat (dr_end ?el) \<le> file_len_nat zf"
    by (auto simp: DataRange_intersect_def DataRange_of_def DataRange_new_def Let_def min_def word_le_nat_alt)
  moreover have "dr_start ?el = 0 \<or> dr_start ?el = dr_start r AND NOT (ZFTP_BLOCK_SIZE - 1)"
    by (simp add: DataRange_intersect_def DataRange_of_def DataRange_new_def Let_def)
  then have "\<exists>K. unat (dr_start ?el) = K * 65536"
  proof
    assume "dr_start ?el = 0"
    then show ?thesis by (intro exI [of _ 0]) simp
  next
    assume "dr_start ?el = dr_start r AND NOT (ZFTP_BLOCK_SIZE - 1)"
    then show ?thesis using unat_and_not_block [of "dr_start r"] by metis
  qed
  ultimately show ?thesis using e intersect_wf [of ?ro ?fi] by blast
qed

lemma compute_missing_ok:
  assumes c: "configured zf" and ok: "cache_ok zhash mem bc" and mp: "0 < max_payload" and wf: "dr_wf r"
    and el: "eligible_set zf r = Some el"
  shows "\<exists>bc' ms. compute_missing_set mem zf mode max_payload bc r = Some (bc', ms) \<and> cache_ok zhash mem bc' \<and>
    cache_extends bc bc' \<and> dr_wf ms \<and> dr_bytes ms \<subseteq> dr_bytes el \<and>
    (DataRange_is_empty ms \<longleftrightarrow> all_fine zf bc el (unat (dr_start el) div 65536))"
proof -
  from eligible_ok [OF c wf] el obtain K where K: "unat (dr_start el) = K * 65536" "unat (dr_end el) \<le> file_len_nat zf" by auto
  from missing_loop_ok [OF c mp K(2) ok, of DataRange_new K "dr_start el" mode] K(1) obtain bc' ms where
    "missing_loop mem zf mode max_payload el bc DataRange_new (dr_start el) = Some (bc', ms)" "cache_ok zhash mem bc'"
    "cache_extends bc bc'" "dr_wf ms" "dr_bytes ms \<subseteq> dr_bytes el" "dr_bytes ms = {} \<longleftrightarrow> all_fine zf bc el K"
    by (auto simp: dr_wf_def dr_bytes_def DataRange_new_def)
  then show ?thesis using el K(1) empty_bytes [of ms] by (simp add: compute_missing_set_def)
qed

subsection \<open>Properties\<close>

text \<open>Rounding an end of range up to a block gives the next multiple of 65536 for the ends from 1
  to 2^32 - 2^16, and 2^32 - 2^16 for the ends beyond; an end of 0 also gives 2^32 - 2^16, not 0.\<close>

theorem round_up_to_block_exact:
  "unat (round_up_to_block pos) =
     (if pos = 0 \<or> 2 ^ 32 - 2 ^ 16 < unat pos then 2 ^ 32 - 2 ^ 16 else (unat pos + 65535) div 65536 * 65536)"
  by (rule round_up_nat)

text \<open>C38. With no database behind the cache and a positive payload limit, computing what is missing for a requested range
  returns a range inside the eligible set, which covers every requested byte of the file. The range is empty exactly when every block of the eligible
  set has a validated name, is in the cache and lacks no byte before the end of the eligible set.
  No block of the cache is lost or changed.\<close>

theorem missing_set_exact:
  assumes "configured zf" and "cache_ok zhash mem bc" and "0 < max_payload" and "dr_wf r"
  shows "\<exists>el bc' ms. eligible_set zf r = Some el \<and> (\<forall>x \<in> dr_bytes r. x < get_filelen zf \<longrightarrow> x \<in> dr_bytes el) \<and>
    compute_missing_set mem zf mode max_payload bc r = Some (bc', ms) \<and> cache_ok zhash mem bc' \<and> cache_extends bc bc' \<and>
    dr_bytes ms \<subseteq> dr_bytes el \<and>
    (DataRange_is_empty ms \<longleftrightarrow>
       (\<forall>k. unat (dr_start el) div 65536 \<le> k \<and> k * 65536 < unat (dr_end el) \<longrightarrow> fine zf bc (unat (dr_end el)) k))"
proof -
  from eligible_ok [OF assms(1,4)] obtain el where
    el: "eligible_set zf r = Some el" "\<forall>x \<in> dr_bytes r. x < get_filelen zf \<longrightarrow> x \<in> dr_bytes el" by blast
  from compute_missing_ok [OF assms el(1), of mode] el show ?thesis unfolding all_fine_def by blast
qed

theorem missing_set_exact_witness:
  "\<exists>el bc' ms. eligible_set sample_file (DataRange_of 1 3) = Some el \<and>
     compute_missing_set sample_mem sample_file True 1000 (ZBlockCache_new None) (DataRange_of 1 3) = Some (bc', ms) \<and>
     dr_bytes ms \<subseteq> dr_bytes el"
proof -
  have "dr_wf (DataRange_of 1 3)" by (simp add: dr_wf_def DataRange_of_def)
  from missing_set_exact [OF sample_file_configured sample_cache_ok [of "\<lambda>_. 0"] _ this, of 1000 True] show ?thesis
    by simp blast
qed

text \<open>When nothing is missing for a request and no incomplete block of the eligible set has
  its first gap beyond the end of that set, every block that a read inside the requested range and the file
  needs is ready.\<close>

lemma nothing_missing_ready:
  assumes "configured zf" and "cache_ok zhash mem bc" and "0 < max_payload" and "dr_wf r"
    and "compute_missing_set mem zf mode max_payload bc r = Some (bc', ms)" and "DataRange_is_empty ms"
    and "eligible_set zf r = Some el"
    and "\<forall>k h b. known_block zf v_validated k = Some h \<and> bc_blocks bc h = Some b \<and> \<not> zb_valid b \<longrightarrow>
           k * 65536 + unat (next_gap b) < unat (dr_end el)"
    and "unat (dr_start r) \<le> unat offset" and "unat offset + unat sz \<le> unat (dr_end r)" and "0 < sz"
    and "unat offset + unat sz \<le> unat (get_filelen zf)"
  shows "cache_ok zhash mem bc'" and "blocks_ready zf bc' (unat offset) (unat offset + unat sz)"
proof -
  let ?O = "unat offset" and ?S = "unat sz"
  from compute_missing_ok [OF assms(1-4,7), of mode] assms(5,6) have
    b': "cache_ok zhash mem bc'" "cache_extends bc bc'" "all_fine zf bc el (unat (dr_start el) div 65536)" by auto
  from eligible_ok [OF assms(1,4)] assms(7) have
    cover: "\<forall>x \<in> dr_bytes r. x < get_filelen zf \<longrightarrow> x \<in> dr_bytes el" by auto
  have S: "0 < ?S" using assms(11) by (simp add: word_nat)
  have in_el: "unat (dr_start el) \<le> i \<and> i < unat (dr_end el)" if "?O \<le> i" "i < ?O + ?S" for i
  proof -
    have "i < 2 ^ 32" using that assms(12) unat_less_exp [of "get_filelen zf"] by simp
    then have u: "unat (of_nat i :: u32) = i" by (rule unat_of_nat_u32)
    with that assms(9,10,12) have "of_nat i \<in> dr_bytes r" "of_nat i < get_filelen zf"
      by (simp_all add: bytes_nat word_less_nat_alt)
    with cover u show ?thesis by (auto simp: bytes_nat)
  qed
  have "avail zf bc' k" if k: "?O < (k + 1) * 65536" "k * 65536 < ?O + ?S" for k
  proof -
    have o: "unat (dr_start el) \<le> ?O" "?O < unat (dr_end el)" using in_el [of ?O] S by simp_all
    have "k * 65536 < unat (dr_end el)" using in_el [of "k * 65536"] k(2) o(2) by (cases "?O \<le> k * 65536") auto
    moreover have "unat (dr_start el) div 65536 < k + 1" using o(1) k(1) by (subst div_less_iff_less_mult) simp_all
    then have "unat (dr_start el) div 65536 \<le> k" by simp
    ultimately have "fine zf bc (unat (dr_end el)) k" using b'(3) by (simp add: all_fine_def)
    then obtain h b where "known_block zf v_validated k = Some h" "bc_blocks bc h = Some b"
      "zb_valid b \<or> unat (dr_end el) \<le> k * 65536 + unat (next_gap b)" by (auto simp: fine_def split: option.splits)
    with assms(8) b'(2) show ?thesis by (force simp: avail_def cache_extends_def)
  qed
  then show "blocks_ready zf bc' ?O (?O + ?S)" by (simp add: blocks_ready_def)
  show "cache_ok zhash mem bc'" by (rule b'(1))
qed

text \<open>The corner left out above is real: when the only block of a file shorter than a block has all bytes of the
  file but is not complete, nothing is missing, and yet reading aborts, whatever the class of the buffer.\<close>

theorem tail_gap_read_aborts:
  assumes "configured zf" and "cache_ok zhash mem bc" and "0 < max_payload"
    and "0 < get_filelen zf" and "unat (get_filelen zf) \<le> unat (next_gap b)"
    and "known_block zf v_validated 0 = Some h" and "bc_blocks bc h = Some b" and "\<not> zb_valid b" and "0 < sz"
    and "sz \<le> get_filelen zf"
  shows "\<exists>bc' ms. compute_missing_set mem zf mode max_payload bc (DataRange_of 0 (get_filelen zf)) = Some (bc', ms) \<and>
    DataRange_is_empty ms \<and> (\<forall>cls buf. zf_read cls mem zf bc' (buf :: 's) 0 0 sz = None)"
proof -
  have wf: "dr_wf (DataRange_of 0 (get_filelen zf))" by (simp add: dr_wf_def DataRange_of_def)
  from eligible_ok [OF assms(1) wf] obtain el where
    el: "eligible_set zf (DataRange_of 0 (get_filelen zf)) = Some el" "unat (dr_end el) \<le> file_len_nat zf" by blast
  have "zb_ok zhash b" by (rule cache_ok_block [OF assms(2,7)])
  with assms(8) have "unat (next_gap b) < 65536" by (simp add: zb_ok_def word_less_nat_alt)
  then have len: "file_len_nat zf < 65536" using assms(5) by simp
  have "fine zf bc (unat (dr_end el)) k" if "k * 65536 < unat (dr_end el)" for k
  proof -
    have "k = 0" using that el(2) len by (cases k) auto
    with assms(5-7) el(2) show ?thesis by (simp add: fine_def)
  qed
  then have "all_fine zf bc el (unat (dr_start el) div 65536)" by (simp add: all_fine_def)
  with compute_missing_ok [OF assms(1-3) wf el(1), of mode] obtain bc' ms where
    m: "compute_missing_set mem zf mode max_payload bc (DataRange_of 0 (get_filelen zf)) = Some (bc', ms)"
      "cache_ok zhash mem bc'" "cache_extends bc bc'" "DataRange_is_empty ms" by blast
  have "unat (num_blocks zf) = (file_len_nat zf + 65535) div 65536" by (rule num_blocks_nat(1) [OF assms(1)])
  then have nb: "unat (0 :: u32) < unat (num_blocks zf)" using assms(4) by (simp add: word_nat)
  have bh: "bc_blocks bc' h = Some b" using m(3) assms(7) by (simp add: cache_extends_def)
  from lookup_block_ok [OF assms(1) nb m(2), of v_validated] assms(6) bh obtain bc1 where
    "lookup_block mem zf bc' 0 v_validated = Some (bc1, Some h)" "bc_blocks bc1 h = Some b" by (auto simp: with_block_def)
  then have "read_loop cls mem zf 0 0 sz bc' buf 0 0 0 = None" for cls and buf :: 's
    using assms(8,9) by (subst read_loop.simps) simp
  then have "zf_read cls mem zf bc' buf 0 0 sz = None" for cls and buf :: 's
    by (cases "cast_resetDebugStats cls (set_debug_offset cls buf 0)") (simp_all add: zf_read_def lite_assert_def)
  with m show ?thesis by blast
qed

theorem tail_gap_read_aborts_witness:
  "\<exists>bc bc' ms. compute_missing_set sample_mem sample_file True 1000 bc (DataRange_of 0 5) = Some (bc', ms) \<and>
     DataRange_is_empty ms \<and> (\<forall>cls buf. zf_read cls sample_mem sample_file bc' (buf :: bytes) 0 0 2 = None)"
proof -
  let ?b = "\<lparr>zb_hash = 0, zb_data = replicate 65536 0, next_gap = 5, zb_valid = False\<rparr>"
  have "zb_ok (\<lambda>_. 0) ?b" by (simp add: zb_ok_def)
  then obtain bc where bc: "cache_ok (\<lambda>_. 0) sample_mem bc" "bc_blocks bc = [0 \<mapsto> ?b]" by (rule sample_cache_with) simp
  have "known_block sample_file v_validated 0 = Some 0" using sample_file_sel by (simp add: known_block_def)
  from tail_gap_read_aborts [OF sample_file_configured bc(1) _ _ _ this, of 1000 ?b 2 True] bc(2) sample_file_sel(1)
  show ?thesis by auto
qed

end
