(* ===== verification/Install.thy ===== *)
theory Install
  imports MissingSet
begin

text \<open>
  What \<open>install_data\<close> of \<open>ZCachedFile.cpp\<close> does with the data of a reply: it cuts them at the
  block boundaries and hands each piece to its block.
\<close>

subsection \<open>The pieces of a reply\<close>

function data_pieces :: "nat \<Rightarrow> nat \<Rightarrow> (nat \<times> nat) list" where
  "data_pieces a b =
     (if a < b then (a, min ((a div 65536 + 1) * 65536) b) # data_pieces (min ((a div 65536 + 1) * 65536) b) b else [])"
  by pat_completeness auto
termination
proof (relation "measure (\<lambda>(a, b). b - a)")
  fix a b :: nat assume "a < b"
  moreover have "a < (a div 65536 + 1) * 65536" by simp
  ultimately show "((min ((a div 65536 + 1) * 65536) b, b), a, b) \<in> measure (\<lambda>(a, b). b - a)" by (auto simp: min_def)
qed simp

declare data_pieces.simps [simp del]

definition install_piece ::
    "(bytes \<Rightarrow> hash_t) \<Rightarrow> (hash_t \<Rightarrow> bytes) \<Rightarrow> ZCachedFile \<Rightarrow> ZFileReply \<Rightarrow> ZBlockCache \<times> bool \<Rightarrow> nat \<times> nat \<Rightarrow>
      (ZBlockCache \<times> bool) option" where
  "install_piece zhash mem zf reply s p =
     (case (s, p) of ((bc, c), (a, b)) \<Rightarrow>
        map_option (\<lambda>(bc', c'). (bc', c \<or> c')) (install_block zhash mem zf reply bc (of_nat a) (of_nat b)))"

lemma install_piece_eq:
  "install_piece zhash mem zf reply (bc, c) (a, b) =
     map_option (\<lambda>(bc', c'). (bc', c \<or> c')) (install_block zhash mem zf reply bc (of_nat a) (of_nat b))"
  by (simp add: install_piece_def)

lemma data_pieces_cover:
  "a \<le> b \<Longrightarrow> concat (map (\<lambda>(x, y). [x..<y]) (data_pieces a b)) = [a..<b] \<and>
     (\<forall>(x, y) \<in> set (data_pieces a b). x < y \<and> y \<le> (x div 65536 + 1) * 65536)"
proof (induction a b rule: data_pieces.induct)
  case (1 a b)
  show ?case
  proof (cases "a < b")
    case True
    let ?m = "min ((a div 65536 + 1) * 65536) b"
    have m: "a < ?m" "?m \<le> b" using True by (auto simp: min_def)
    from "1.IH" [OF True m(2)] have
      "concat (map (\<lambda>(x, y). [x..<y]) (data_pieces ?m b)) = [?m..<b]"
      "\<forall>(x, y) \<in> set (data_pieces ?m b). x < y \<and> y \<le> (x div 65536 + 1) * 65536" by simp_all
    moreover have "[a..<?m] @ [?m..<b] = [a..<b]" using m upt_add_eq_append [of a ?m "b - ?m"] by simp
    ultimately show ?thesis using True m(1) by (subst (1 2) data_pieces.simps) simp
  qed (subst (1 2) data_pieces.simps; simp)
qed

lemma install_data_loop_fold:
  assumes c: "configured zf"
  shows "install_data_loop zhash mem zf reply bc ch start =
    foldM (install_piece zhash mem zf reply) (bc, ch) (data_pieces (unat start) (unat (data_end reply)))"
proof (induction "unat (data_end reply) - unat start" arbitrary: bc ch start rule: less_induct)
  case less
  show ?case
  proof (cases "start < data_end reply")
    case False
    then show ?thesis
      by (subst install_data_loop.simps, subst data_pieces.simps) (simp add: word_nat)
  next
    case True
    then have lt: "unat start < unat (data_end reply)" by (simp add: word_nat)
    let ?blk = "drop_bit 16 start" and ?K = "unat start div 65536"
    let ?m = "min ((?K + 1) * 65536) (unat (data_end reply))"
    let ?stop = "min (push_bit 16 ?blk + ZFTP_BLOCK_SIZE) (data_end reply)"
    have blk: "unat ?blk = ?K" by (simp add: unat_drop_bit)
    show ?thesis
    proof (cases "num_blocks zf \<le> ?blk")
      case T: True
      then have "install_block zhash mem zf reply bc start e = None" for e by (simp add: install_block_def Let_def)
      with True lt show ?thesis
        by (subst install_data_loop.simps, subst data_pieces.simps) (simp add: Let_def install_piece_def)
    next
      case False
      then have K: "?K \<le> 65534" using blk num_blocks_nat(2) [OF c] by (simp add: word_nat)
      then have "unat (push_bit 16 ?blk + ZFTP_BLOCK_SIZE) = (?K + 1) * 65536"
        using unat_block_start [of ?blk] blk by (subst unat_add_small) simp_all
      then have st: "unat ?stop = ?m" by (auto simp: min_def word_le_nat_alt)
      have so: "of_nat ?m = ?stop" unfolding st [symmetric] by simp
      have "unat start < ?m" using lt by (auto simp: min_def)
      then have d: "unat (data_end reply) - unat ?stop < unat (data_end reply) - unat start" using lt st by linarith
      have "install_data_loop zhash mem zf reply bc ch start =
          install_block zhash mem zf reply bc start ?stop \<bind>
            (\<lambda>(bc1, c1). install_data_loop zhash mem zf reply bc1 (ch \<or> c1) ?stop)"
        using True by (subst install_data_loop.simps) (simp add: Let_def)
      also have "\<dots> = install_block zhash mem zf reply bc start ?stop \<bind>
            (\<lambda>(bc1, c1). foldM (install_piece zhash mem zf reply) (bc1, ch \<or> c1) (data_pieces ?m (unat (data_end reply))))"
        using less.hyps [OF d] st by simp
      also have "\<dots> = foldM (install_piece zhash mem zf reply) (bc, ch) ((unat start, ?m) # data_pieces ?m (unat (data_end reply)))"
        using so by (cases "install_block zhash mem zf reply bc start ?stop") (auto simp: install_piece_def)
      also have "\<dots> = foldM (install_piece zhash mem zf reply) (bc, ch) (data_pieces (unat start) (unat (data_end reply)))"
        using lt by (subst (2) data_pieces.simps) simp
      finally show ?thesis .
    qed
  qed
qed

subsection \<open>No reply breaks the cache\<close>

definition keeps_valid :: "ZBlockCache \<Rightarrow> ZBlockCache \<Rightarrow> bool" where
  "keeps_valid bc bc' \<longleftrightarrow> (\<forall>h b. bc_blocks bc h = Some b \<and> zb_valid b \<longrightarrow> bc_blocks bc' h = Some b)"

lemma install_block_Some:
  assumes c: "configured zf" and ok: "cache_ok zhash mem bc"
    and i: "install_block zhash mem zf reply bc a b = Some (bc', ch)"
  shows "cache_ok zhash mem bc' \<and> keeps_valid bc bc'"
proof -
  let ?k = "drop_bit ZFTP_LG_BLOCK_SIZE a"
  from i have k: "unat ?k < unat (num_blocks zf)"
    by (auto simp: install_block_def Let_def word_le_nat_alt split: if_splits bind_splits)
  from lookup_block_ok [OF c k ok, of v_tentative] obtain bc1 where
    l: "lookup_block mem zf bc ?k v_tentative = Some (bc1, known_block zf v_tentative (unat ?k))" "cache_ok zhash mem bc1"
      "bc_blocks bc1 = with_block mem bc (known_block zf v_tentative (unat ?k))" by blast
  from i l(1) obtain h r r1 db1 r2 db2 where
    h: "bc_blocks bc1 h = Some r"
      "\<exists>st sp off. receive_data zhash (bc_db bc1) r st sp (reply_payload reply) off = Some (r1, db1, ch)"
      "(r2, db2) = (r1, db1) \<or> complete_with_zeros zhash db1 r1 = Some (r2, db2)" "bc' = bc_update bc1 r2 db2"
    by (auto simp: install_block_def Let_def split: if_splits bind_splits) blast+
  from l(2) have db: "bc_db bc1 = None" "bc_ok zhash bc1" and r: "zb_ok zhash r" "zb_hash r = h"
    using h(1) by (auto simp: cache_ok_def bc_ok_def)
  from h(2) obtain sta sto off where "receive_data zhash (bc_db bc1) r sta sto (reply_payload reply) off = Some (r1, db1, ch)" by blast
  from receive_Some [OF this r(1)] r(2) db(1)
  have r1: "zb_ok zhash r1" "zb_hash r1 = h" "db1 = None" "zb_valid r \<longrightarrow> r1 = r" by simp_all
  have "complete_with_zeros zhash db1 r1 = Some (r2, db2) \<Longrightarrow> zb_valid r1 \<longrightarrow> r2 = r1"
    using load_Some [of r1 "[]" 0 0 "ZFTP_BLOCK_SIZE - next_gap r1"] r1(1)
    by (auto simp: complete_with_zeros_def validate_block_def zb_ok_def split: if_splits bind_splits)
  with h(3) complete_Some [OF _ r1(1), of db1 r2 db2] r1
  have r2: "zb_ok zhash r2" "zb_hash r2 = h" "db2 = None" "zb_valid r \<longrightarrow> r2 = r" by auto
  have "bc_ok zhash (bc_update bc1 r2 db2)" using db(2) h(1) r2 by (intro bc_update_ok) (simp_all add: db_ok_def)
  then have "cache_ok zhash mem bc'" using h(4) r2(3) l(2) by (simp add: cache_ok_def bc_update_def)
  moreover have "keeps_valid bc bc'"
    using h(1,4) r2 l(3) by (auto simp: keeps_valid_def bc_update_def with_block_def split: option.splits if_splits)
  ultimately show ?thesis by blast
qed

lemma install_pieces_Some:
  assumes c: "configured zf" and ok: "cache_ok zhash mem bc"
    and i: "foldM (install_piece zhash mem zf reply) (bc, ch) ps = Some (bc', ch')"
  shows "cache_ok zhash mem bc' \<and> keeps_valid bc bc'"
  using ok i
proof (induction ps arbitrary: bc ch)
  case (Cons p ps)
  obtain a b where p: "p = (a, b)" by (cases p)
  with Cons.prems(2) obtain bc1 c1 where
    s: "install_block zhash mem zf reply bc (of_nat a) (of_nat b) = Some (bc1, c1)"
      "foldM (install_piece zhash mem zf reply) (bc1, ch \<or> c1) ps = Some (bc', ch')"
    by (auto simp: install_piece_eq split: bind_splits)
  from install_block_Some [OF c Cons.prems(1) s(1)] Cons.IH [OF _ s(2)] show ?case by (simp add: keeps_valid_def)
qed (auto simp: keeps_valid_def)

lemma install_data_Some:
  assumes "configured zf" and "cache_ok zhash mem bc" and "install_data zhash mem zf reply bc = Some (bc', ch)"
  shows "cache_ok zhash mem bc' \<and> keeps_valid bc bc'"
  using install_pieces_Some [OF assms(1,2)] assms(3) unfolding install_data_def install_data_loop_fold [OF assms(1)] by blast

subsection \<open>A reply with a whole block\<close>

lemma piece_extend: "length payload \<le> n \<Longrightarrow> n \<le> m \<Longrightarrow> piece payload 0 n @ replicate (m - n) 0 = piece payload 0 m"
  by (simp add: piece_def replicate_add [symmetric])

lemma overwrite_all: "length xs = length b \<Longrightarrow> overwrite b 0 xs = xs"
  by (simp add: overwrite_def)

lemma complete_fresh:
  assumes len: "length (zb_data b) = 65536" and v: "\<not> zb_valid b" and n: "unat (next_gap b) < 65536"
    and d: "D = take (unat (next_gap b)) (zb_data b) @ replicate (65536 - unat (next_gap b)) 0" and h: "zhash D = zb_hash b"
  shows "complete_with_zeros zhash None b =
    Some (b\<lparr>zb_data := D, next_gap := ZFTP_BLOCK_SIZE, zb_valid := True\<rparr>, None)"
proof -
  let ?g = "unat (next_gap b)"
  have z: "unat (ZFTP_BLOCK_SIZE - next_gap b) = 65536 - ?g" using n by (subst unat_sub_le) simp_all
  have "overwrite (zb_data b) ?g (replicate (65536 - ?g) 0) = D" using len n d by (simp add: overwrite_def)
  with load_spec [OF len, of "ZFTP_BLOCK_SIZE - next_gap b" 0 0 "[]"] z n
  have "load_data_internal b [] 0 0 (ZFTP_BLOCK_SIZE - next_gap b) = Some (b\<lparr>zb_data := D, next_gap := ZFTP_BLOCK_SIZE\<rparr>)" by simp
  moreover have "next_gap b < ZFTP_BLOCK_SIZE" using n by (simp add: word_nat)
  ultimately show ?thesis
    using v h by (simp add: complete_with_zeros_def validate_block_def store_block_def)
qed

lemma receive_fresh:
  assumes len: "length (zb_data b) = 65536" and v: "\<not> zb_valid b" "next_gap b = 0" and n: "0 < n" "n \<le> 65536"
    and p: "length payload \<le> n" and h: "zhash (piece payload 0 65536) = zb_hash b"
  shows "\<exists>b1. receive_data zhash None b 0 (of_nat n) payload 0 = Some (b1, None, True) \<and>
    (if n = 65536 then b1 = \<lparr>zb_hash = zb_hash b, zb_data = piece payload 0 65536, next_gap = ZFTP_BLOCK_SIZE, zb_valid = True\<rparr>
     else complete_with_zeros zhash None b1 =
       Some (\<lparr>zb_hash = zb_hash b, zb_data = piece payload 0 65536, next_gap = ZFTP_BLOCK_SIZE, zb_valid = True\<rparr>, None))"
proof -
  let ?b = "b\<lparr>zb_data := overwrite (zb_data b) 0 (piece payload 0 n), next_gap := of_nat n\<rparr>"
  have un: "unat (of_nat n :: u32) = n" using n by (intro unat_of_nat_u32) simp
  have rc: "receive_data zhash None b 0 (of_nat n) payload 0 =
      map_option (\<lambda>(b', db'). (b', db', True)) (validate_block zhash None ?b)"
    using receive_next [OF len v(1), of n 0 payload zhash None] v(2) n p by simp
  show ?thesis
  proof (cases "n = 65536")
    case True
    then have "overwrite (zb_data b) 0 (piece payload 0 n) = piece payload 0 65536" using len by (simp add: overwrite_all)
    with rc True v h show ?thesis by (cases b) (simp add: validate_block_def store_block_def)
  next
    case False
    then have lt: "n < 65536" using n by simp
    then have "of_nat n < ZFTP_BLOCK_SIZE" using un by (simp add: word_nat)
    then have "validate_block zhash None ?b = Some (?b, None)" using v by (simp add: validate_block_def)
    moreover have "take n (overwrite (zb_data b) 0 (piece payload 0 n)) = piece payload 0 n" by (simp add: overwrite_def)
    then have "complete_with_zeros zhash None ?b =
        Some (?b\<lparr>zb_data := piece payload 0 65536, next_gap := ZFTP_BLOCK_SIZE, zb_valid := True\<rparr>, None)"
      using len v lt un h piece_extend [OF p, of 65536] by (intro complete_fresh) simp_all
    ultimately show ?thesis using rc False by (cases b) simp
  qed
qed

lemma install_whole_block:
  assumes c: "configured zf" and ok: "cache_ok zhash mem bc" and k: "k < unat (num_blocks zf)"
    and h: "known_block zf v_tentative k = Some h" and fresh: "\<forall>b. bc_blocks bc h = Some b \<longrightarrow> \<not> zb_valid b \<and> next_gap b = 0"
    and s: "unat (data_start reply) = k * 65536" and e: "unat (data_end reply) = min ((k + 1) * 65536) (file_len_nat zf)"
    and p: "length (reply_payload reply) \<le> unat (data_end reply) - unat (data_start reply)"
    and z: "zhash (piece (reply_payload reply) 0 65536) = h"
  shows "\<exists>bc'. install_data zhash mem zf reply bc = Some (bc', True) \<and> cache_ok zhash mem bc' \<and>
    bc_blocks bc' h = Some \<lparr>zb_hash = h, zb_data = piece (reply_payload reply) 0 65536, next_gap = ZFTP_BLOCK_SIZE, zb_valid = True\<rparr>"
proof -
  let ?a = "data_start reply" and ?b = "data_end reply" and ?K = "drop_bit 16 (data_start reply)"
  let ?done = "\<lparr>zb_hash = h, zb_data = piece (reply_payload reply) 0 65536, next_gap = ZFTP_BLOCK_SIZE, zb_valid = True\<rparr>"
  have kl: "k * 65536 < file_len_nat zf" using k unfolding num_blocks_nat(1) [OF c] by linarith
  have K: "unat ?K = k" using s by (simp add: unat_drop_bit)
  have ab: "unat ?a < unat ?b" using s e kl by simp
  have pieces: "data_pieces (unat ?a) (unat ?b) = [(unat ?a, unat ?b)]"
    using ab s e by (subst data_pieces.simps) (simp add: data_pieces.simps)
  from lookup_block_ok [OF c _ ok, of ?K v_tentative] k K h obtain bc1 where
    l: "lookup_block mem zf bc ?K v_tentative = Some (bc1, Some h)" "cache_ok zhash mem bc1" "bc_blocks bc1 = with_block mem bc (Some h)" by auto
  obtain r where r: "bc_blocks bc1 h = Some r" using l(3) by (cases "bc_blocks bc h") (auto simp: with_block_def)
  have rf: "\<not> zb_valid r" "next_gap r = 0"
    using r l(3) fresh by (auto simp: with_block_def ZBlockCacheRecord_new_def split: if_splits)
  have ro: "length (zb_data r) = 65536" "zb_hash r = h" "bc_db bc1 = None" "bc_ok zhash bc1"
    using l(2) r by (auto simp: cache_ok_def bc_ok_def zb_ok_def)
  let ?n = "unat ?b - unat ?a"
  have sb: "push_bit 16 ?K = ?a" using unat_block_start [of ?K] K s k num_blocks_nat(2) [OF c] by (simp add: unat_eq_iff)
  have un: "unat (?b - ?a) = ?n" using ab by (simp add: unat_sub_le)
  have n: "?b - ?a = of_nat ?n" unfolding un [symmetric] by simp
  have n0: "0 < ?n" "?n \<le> 65536" using ab s e by auto
  from z ro(2) have "zhash (piece (reply_payload reply) 0 65536) = zb_hash r" by simp
  from receive_fresh [where zhash = zhash, OF ro(1) rf n0 p this] obtain b1 where
    b1: "receive_data zhash None r 0 (of_nat ?n) (reply_payload reply) 0 = Some (b1, None, True)"
      "if ?n = 65536 then b1 = ?done else complete_with_zeros zhash None b1 = Some (?done, None)" unfolding ro(2) by blast
  have nb: "\<not> num_blocks zf \<le> ?K" using k K by (simp add: word_nat)
  have fin: "complete_with_zeros zhash None ?done = Some (?done, None)" by (simp add: complete_with_zeros_def)
  have "?K = num_blocks zf - 1 \<and> ?b = get_filelen zf" if "?n \<noteq> 65536"
  proof -
    have lt: "file_len_nat zf < (k + 1) * 65536" using that s e by (simp add: min_def split: if_splits)
    then have "unat (num_blocks zf) = k + 1" using kl unfolding num_blocks_nat(1) [OF c] by (intro div_nat_eqI) simp_all
    then show ?thesis using K lt e by (simp add: unat_eq_iff unat_sub_le)
  qed
  then have "install_block zhash mem zf reply bc ?a ?b = Some (bc_update bc1 ?done None, True)"
    using nb l(1) r ro(3) sb n b1 fin by (cases "?n = 65536") (auto simp: install_block_def Let_def)
  moreover have "bc_ok zhash (bc_update bc1 ?done None)"
    using ro(4) r z by (intro bc_update_ok) (simp_all add: zb_ok_def db_ok_def)
  ultimately show ?thesis
    using l(2) pieces unfolding install_data_def install_data_loop_fold [OF c]
    by (auto simp: install_piece_eq cache_ok_def bc_update_def)
qed

subsection \<open>Properties\<close>

text \<open>Installing the data of a reply ends for every reply: it is the fold of \<open>install_block\<close> over the
  pieces into which the data range is cut at block boundaries, in order, without gap or overlap.\<close>

theorem install_data_in_pieces:
  assumes "configured zf"
  shows "install_data zhash mem zf reply bc =
           foldM (install_piece zhash mem zf reply) (bc, False) (data_pieces (unat (data_start reply)) (unat (data_end reply))) \<and>
         (data_start reply \<le> data_end reply \<longrightarrow>
           concat (map (\<lambda>(x, y). [x..<y]) (data_pieces (unat (data_start reply)) (unat (data_end reply)))) =
             [unat (data_start reply)..<unat (data_end reply)] \<and>
           (\<forall>(x, y) \<in> set (data_pieces (unat (data_start reply)) (unat (data_end reply))).
              x < y \<and> y \<le> (x div 65536 + 1) * 65536))"
  using data_pieces_cover [of "unat (data_start reply)" "unat (data_end reply)"]
  unfolding install_data_def install_data_loop_fold [OF assms] by (simp add: word_nat)

theorem install_data_in_pieces_witness:
  "install_data (\<lambda>_. 0) sample_mem sample_file
     \<lparr>reply_metadata = metadata sample_file, reply_records = [], data_start = 7, data_end = 3, reply_payload = []\<rparr> (ZBlockCache_new None) =
   Some (ZBlockCache_new None, False)"
  using install_data_in_pieces [OF sample_file_configured, of "\<lambda>_. 0" sample_mem
      "\<lparr>reply_metadata = metadata sample_file, reply_records = [], data_start = 7, data_end = 3, reply_payload = []\<rparr>" "ZBlockCache_new None"]
  by (simp add: data_pieces.simps)

text \<open>C37. Whatever data a reply carries: with no database behind the cache, installing them aborts or leaves a well-formed cache in which
  every valid block hashes to its name, and no block that was valid is changed.\<close>

theorem install_data_safe:
  assumes "configured zf" and "cache_ok zhash mem bc"
  shows "case install_data zhash mem zf reply bc of
           None \<Rightarrow> True | Some (bc', changed) \<Rightarrow> cache_ok zhash mem bc' \<and> keeps_valid bc bc'"
  using install_data_Some [OF assms, of reply] by (cases "install_data zhash mem zf reply bc") auto

theorem install_data_safe_witness:
  "case install_data (\<lambda>_. 0) sample_mem sample_file
       \<lparr>reply_metadata = metadata sample_file, reply_records = [], data_start = 0, data_end = 5, reply_payload = [1, 2]\<rparr>
       (ZBlockCache_new None) of
     None \<Rightarrow> True | Some (bc', changed) \<Rightarrow> cache_ok (\<lambda>_. 0) sample_mem bc'"
  using install_data_safe [OF sample_file_configured sample_cache_ok [of "\<lambda>_. 0"],
      of "\<lparr>reply_metadata = metadata sample_file, reply_records = [], data_start = 0, data_end = 5, reply_payload = [1, 2]\<rparr>"]
  by (auto split: option.splits)

text \<open>A reply with the bytes of one block (trailing zeros may be left out) is installed: when the name of
  the block is known, none of its data has arrived before, and the bytes filled up with zeros hash to the
  name, the block is complete and valid afterwards with exactly these bytes.\<close>

theorem install_block_completes:
  assumes "configured zf" and "cache_ok zhash mem bc" and "k < unat (num_blocks zf)"
    and "known_block zf v_tentative k = Some h"
    and "\<forall>b. bc_blocks bc h = Some b \<longrightarrow> \<not> zb_valid b \<and> next_gap b = 0"
    and "unat (data_start reply) = k * 65536" and "unat (data_end reply) = min ((k + 1) * 65536) (unat (get_filelen zf))"
    and "length (reply_payload reply) \<le> unat (data_end reply) - unat (data_start reply)"
    and "zhash (piece (reply_payload reply) 0 65536) = h"
  shows "\<exists>bc'. install_data zhash mem zf reply bc = Some (bc', True) \<and> cache_ok zhash mem bc' \<and>
    bc_blocks bc' h = Some \<lparr>zb_hash = h, zb_data = piece (reply_payload reply) 0 65536, next_gap = ZFTP_BLOCK_SIZE, zb_valid = True\<rparr>"
  using install_whole_block [OF assms] .

theorem install_block_completes_witness:
  "\<exists>bc'. install_data (\<lambda>_. 0) sample_mem sample_file
       \<lparr>reply_metadata = metadata sample_file, reply_records = [], data_start = 0, data_end = 5, reply_payload = [1, 2]\<rparr>
       (ZBlockCache_new None) = Some (bc', True)"
proof -
  have "known_block sample_file v_tentative 0 = Some 0" using sample_file_sel by (simp add: known_block_def)
  moreover have "bc_blocks (ZBlockCache_new None) 0 = None" by (simp add: ZBlockCache_new_def)
  ultimately show ?thesis
    using install_block_completes [OF sample_file_configured sample_cache_ok [of "\<lambda>_. 0"], of 0 0
        "\<lparr>reply_metadata = metadata sample_file, reply_records = [], data_start = 0, data_end = 5, reply_payload = [1, 2]\<rparr>"]
      sample_file_sel by auto
qed

end
