(* ===== verification/InstallReply.thy ===== *)
theory InstallReply
  imports Install
begin

text \<open>
  A reply as a whole, \<open>install_reply\<close> of \<open>src/common/zftp_module/ZCachedFile.cpp\<close> (lines 992-1051), and what a
  client can rely on after any sequence of replies, whoever wrote them: the metadata and the hashes
  that are validated up to the root are those of the file with the name asked for, and so are the
  complete blocks below them, or two explicit inputs of the hash function collide. The result of
  \<open>install_reply\<close> says whether it counts the progress, wakes the waiting requests and stores the file
  (lines 1038-1043), which are not modelled; the statistics are left out.
\<close>

definition install_reply ::
    "(bytes \<Rightarrow> hash_t) \<Rightarrow> (hash_t \<Rightarrow> bytes) \<Rightarrow> ZCachedFile \<Rightarrow> ZBlockCache \<Rightarrow> ZFileReply \<Rightarrow>
      (ZCachedFile \<times> ZBlockCache \<times> bool) option" where
  "install_reply zhash mem zf bc reply = do {
     (zf1, ir) \<leftarrow> install_metadata zhash zf (reply_metadata reply) (reply_records reply);
     if ir = FAIL then Some (zf1, bc, False)
     else do {
       (zf2, c1) \<leftarrow> install_merkle_records zhash zf1 (reply_records reply);
       (bc1, c2) \<leftarrow> install_data zhash mem zf2 reply bc;
       (zf3, ir2) \<leftarrow> validate_tentative_hashes zhash zf2;
       let caused_change = (ir = NEW_DATA \<or> c1 \<or> c2);
       lite_assert (ir2 = NEW_DATA \<longrightarrow> caused_change);
       Some (zf3, bc1, caused_change)
     }
   }"

fun install_replies ::
    "(bytes \<Rightarrow> hash_t) \<Rightarrow> (hash_t \<Rightarrow> bytes) \<Rightarrow> ZCachedFile \<times> ZBlockCache \<Rightarrow> ZFileReply list \<Rightarrow> (ZCachedFile \<times> ZBlockCache) option" where
  "install_replies zhash mem s [] = Some s"
| "install_replies zhash mem (zf, bc) (r # rs) = do {
     (zf', bc', c) \<leftarrow> install_reply zhash mem zf bc r;
     install_replies zhash mem (zf', bc') rs
   }"

subsection \<open>The invariant of a file between two replies\<close>

abbreviation file_depth :: "ZFTPFileMetadata \<Rightarrow> u16" where
  "file_depth md \<equiv> compute_tree_depth (compute_num_blocks (z_ntohl (file_len_network_order md)))"

definition anchored_file :: "(bytes \<Rightarrow> hash_t) \<Rightarrow> hash_t \<Rightarrow> ZCachedFile \<Rightarrow> bool" where
  "anchored_file zhash h zf \<longleftrightarrow>
     minv zhash {} zf \<and> compute_file_hash zhash (metadata zf) (hs zf 0) = h \<and>
     num_blocks zf = compute_num_blocks (get_filelen zf) \<and> tree_depth zf = file_depth (metadata zf)"

definition fits_u32 :: "ZCachedFile \<Rightarrow> bool" where
  "fits_u32 zf \<longleftrightarrow> unat (get_filelen zf) \<le> 2 ^ 32 - 2 ^ 16"

definition session_inv :: "(bytes \<Rightarrow> hash_t) \<Rightarrow> (hash_t \<Rightarrow> bytes) \<Rightarrow> hash_t \<Rightarrow> ZCachedFile \<times> ZBlockCache \<Rightarrow> bool" where
  "session_inv zhash mem h s \<longleftrightarrow>
     (case s of (zf, bc) \<Rightarrow>
        if metadata_state zf = v_validated
        then anchored_file zhash h zf \<and> (fits_u32 zf \<longrightarrow> cache_ok zhash mem bc)
        else metadata_state zf = v_unknown \<and> file_hash zf = h \<and> vmr.ready (parents_of_tentative_nodes zf) \<and>
          ht_mset (parents_of_tentative_nodes zf) = {#} \<and> cache_ok zhash mem bc)"

lemma new_file_inv: "cache_ok zhash mem bc \<Longrightarrow> session_inv zhash mem h (ZCachedFile_new raw h, bc)"
  using vmr.ready_init by (simp add: session_inv_def ZCachedFile_new_def init_inv(2))

lemma anchored_file_configured:
  "anchored_file zhash h zf \<Longrightarrow> metadata_state zf = v_validated \<Longrightarrow> fits_u32 zf \<Longrightarrow> configured zf"
  by (simp add: anchored_file_def fits_u32_def configured_def minv_def get_filelen_def)

text \<open>Steps that write the tree and the table of parents only.\<close>

lemma anchored_file_step:
  assumes "anchored_file zhash h zf" and "same_file zf zf'" and "minv zhash {} zf'" and "hs zf' 0 = hs zf 0"
  shows "anchored_file zhash h zf'" and "metadata_state zf' = metadata_state zf" and "fits_u32 zf' = fits_u32 zf"
    and "metadata zf' = metadata zf"
proof -
  note eq = assms(2) [unfolded same_file_def]
  have e: "metadata zf' = metadata zf" "num_blocks zf' = num_blocks zf" "tree_depth zf' = tree_depth zf"
    "metadata_state zf' = metadata_state zf"
    using arg_cong [OF eq, of metadata] arg_cong [OF eq, of num_blocks] arg_cong [OF eq, of tree_depth]
      arg_cong [OF eq, of metadata_state] by simp_all
  with assms show "anchored_file zhash h zf'" "metadata_state zf' = metadata_state zf" "fits_u32 zf' = fits_u32 zf"
    "metadata zf' = metadata zf"
    by (simp_all add: anchored_file_def fits_u32_def get_filelen_def)
qed

lemma install_metadata_step:
  assumes "session_inv zhash mem h (zf, bc)" and "install_metadata zhash zf md rs = Some (zf1, ir)" and "ir \<noteq> FAIL"
  shows "session_inv zhash mem h (zf1, bc)" and "metadata_state zf1 = v_validated"
proof -
  have "session_inv zhash mem h (zf1, bc) \<and> metadata_state zf1 = v_validated"
  proof (cases "metadata_state zf = v_validated")
    case True
    with assms show ?thesis by (simp add: install_metadata_def)
  next
    case False
    with assms(1) have u: "metadata_state zf = v_unknown" "file_hash zf = h" "vmr.ready (parents_of_tentative_nodes zf)"
      "ht_mset (parents_of_tentative_nodes zf) = {#}" "cache_ok zhash mem bc" by (simp_all add: session_inv_def)
    from assms(2,3) u(1) obtain r where r: "find_root_merkle_record rs = Some r"
      "compute_file_hash zhash md (mr_hash r) = file_hash zf"
      by (auto simp: install_metadata_def split: option.splits if_splits)
    have d: "unat (file_depth md) \<le> 30" using file_depth_bound [of "z_ntohl (file_len_network_order md)"] by simp
    from install_metadata_ok [OF u(1) r d u(3,4)] assms(2) have
      z: "minv zhash {} zf1" "fresh_tree zf1 (mr_hash r)" "metadata zf1 = md" "metadata_state zf1 = v_validated" by auto
    have "num_blocks zf1 = compute_num_blocks (get_filelen zf1) \<and> tree_depth zf1 = file_depth (metadata zf1)"
      using assms(2) u(1) r by (auto simp: install_metadata_def configure_from_metadata_def get_filelen_def Let_def split: bind_splits)
    with z u r(2) show ?thesis by (simp add: session_inv_def anchored_file_def fresh_tree_def)
  qed
  then show "session_inv zhash mem h (zf1, bc)" "metadata_state zf1 = v_validated" by simp_all
qed

lemma install_reply_step:
  assumes inv: "session_inv zhash mem h (zf, bc)" and run: "install_reply zhash mem zf bc reply = Some (zf', bc', c)"
  shows "session_inv zhash mem h (zf', bc')"
proof -
  let ?rs = "reply_records reply"
  from run obtain zf1 ir where m: "install_metadata zhash zf (reply_metadata reply) ?rs = Some (zf1, ir)"
    by (auto simp: install_reply_def split: bind_splits)
  show ?thesis
  proof (cases "ir = FAIL")
    case True
    with m have "zf1 = zf" by (auto simp: install_metadata_def Let_def split: option.splits if_splits bind_splits)
    with True m run inv show ?thesis by (simp add: install_reply_def)
  next
    case False
    note s1 = install_metadata_step [OF inv m False]
    from s1 have a1: "anchored_file zhash h zf1" "fits_u32 zf1 \<longrightarrow> cache_ok zhash mem bc" by (simp_all add: session_inv_def)
    then have m1: "minv zhash {} zf1" by (simp add: anchored_file_def)
    from run m False obtain zf2 c1 c2 ir2 where
      z2: "install_merkle_records zhash zf1 ?rs = Some (zf2, c1)" "install_data zhash mem zf2 reply bc = Some (bc', c2)"
        "validate_tentative_hashes zhash zf2 = Some (zf', ir2)"
      by (auto simp: install_reply_def Let_def split: bind_splits if_splits)
    from install_merkle_records_exact [OF m1, of ?rs False] z2(1) have
      e: "minv zhash {} zf2" "extends zf1 zf2" by (auto simp: install_merkle_records_def split: if_splits)
    have "shape zf1" using m1 by (simp add: minv_def)
    then have r: "0 < length (tree zf1)" "st zf1 0 = v_validated"
      using odd_pos [OF length_tree_odd] by (blast, simp add: shape_def)
    have h2: "hs zf2 0 = hs zf1 0" using extends_validated(2) [OF e(2) r] .
    have f2: "same_file zf1 zf2" using e(2) by (simp add: extends_def same_file_def)
    note a2 = anchored_file_step [OF a1(1) f2 e(1) h2]
    from validate_tentative_hashes_ok [OF e(1)] z2(3) have z3: "minv zhash {} zf'" "same_hashes zf2 zf'" by auto
    then have h3: "hs zf' 0 = hs zf2 0" by (simp add: same_hashes_def)
    note a3 = anchored_file_step [OF a2(1) validate_tentative_hashes_frame [OF z2(3)] z3(1) h3]
    have "cache_ok zhash mem bc'" if "fits_u32 zf2"
      using install_data_Some [OF anchored_file_configured [OF a2(1) _ that] _ z2(2)] a1(2) a2(2,3) s1(2) that by simp
    with a2 a3 s1(2) show ?thesis by (simp add: session_inv_def)
  qed
qed

lemma install_replies_inv:
  "session_inv zhash mem h s \<Longrightarrow> install_replies zhash mem s rs = Some s' \<Longrightarrow> session_inv zhash mem h s'"
  by (induction zhash mem s rs rule: install_replies.induct) (auto dest: install_reply_step split: bind_splits)

subsection \<open>The true file\<close>

text \<open>A block of the contents, the last one filled up with zeros.\<close>

definition true_block :: "bytes \<Rightarrow> nat \<Rightarrow> bytes" where
  "true_block contents k = (let d = take 65536 (drop (k * 65536) contents) in d @ replicate (65536 - length d) 0)"

text \<open>
  The file with the name \<open>h\<close>: its metadata, the hashes \<open>T\<close> of its tree and its contents.
\<close>

definition true_file :: "(bytes \<Rightarrow> hash_t) \<Rightarrow> hash_t \<Rightarrow> ZFTPFileMetadata \<Rightarrow> (nat \<Rightarrow> hash_t) \<Rightarrow> bytes \<Rightarrow> bool" where
  "true_file zhash h md T contents \<longleftrightarrow>
     compute_file_hash zhash md (T 0) = h \<and> length contents = unat (z_ntohl (file_len_network_order md)) \<and>
     length contents \<le> 2 ^ 32 - 2 ^ 16 \<and> true_tree zhash (2 ^ (unat (file_depth md) + 1) - 1) T \<and>
     (\<forall>k. k * 65536 < length contents \<longrightarrow> T (2 ^ unat (file_depth md) - 1 + k) = zhash (true_block contents k))"

definition header_bytes :: "ZFTPFileMetadata \<Rightarrow> hash_t \<Rightarrow> bytes" where
  "header_bytes md root = bytes_of_u32 (file_len_network_order md) @ bytes_of_u32 (md_flags md) @ hash_bytes root"

text \<open>
  The collisions an adversary can exploit, each between bytes that the client holds and the bytes of the true file at the
  same place: metadata with the root hash, a pair of hashes of the tree, or a block.
\<close>

definition header_collision :: "(bytes \<Rightarrow> hash_t) \<Rightarrow> ZCachedFile \<Rightarrow> ZFTPFileMetadata \<Rightarrow> (nat \<Rightarrow> hash_t) \<Rightarrow> bool" where
  "header_collision zhash zf md T \<longleftrightarrow>
     header_bytes (metadata zf) (hs zf 0) \<noteq> header_bytes md (T 0) \<and>
     zhash (header_bytes (metadata zf) (hs zf 0)) = zhash (header_bytes md (T 0))"

definition block_collision :: "(bytes \<Rightarrow> hash_t) \<Rightarrow> ZCachedFile \<Rightarrow> ZBlockCache \<Rightarrow> bytes \<Rightarrow> nat \<Rightarrow> bool" where
  "block_collision zhash zf bc contents k \<longleftrightarrow>
     (case bc_blocks bc (hs zf (leaf zf k)) of None \<Rightarrow> False
      | Some b \<Rightarrow> zb_data b \<noteq> true_block contents k \<and> zhash (zb_data b) = zhash (true_block contents k))"

lemma bytes_of_u32_inject: "bytes_of_u32 a = bytes_of_u32 b \<longleftrightarrow> a = b"
proof
  assume e: "bytes_of_u32 a = bytes_of_u32 b"
  have bytes: "ucast (drop_bit (8 * i) a) = (ucast (drop_bit (8 * i) b) :: u8)" if "i < 4" for i
    using arg_cong [OF e, of "\<lambda>l. l ! i"] that by (simp add: bytes_of_u32_def)
  show "a = b"
  proof (rule bit_word_eqI)
    fix n assume "n < LENGTH(32)"
    then have i: "n div 8 < 4" by simp
    have "8 * (n div 8) + n mod 8 = n" by simp
    moreover have "bit (ucast (drop_bit (8 * (n div 8)) w) :: u8) (n mod 8) \<longleftrightarrow> bit w (8 * (n div 8) + n mod 8)" for w :: u32
      by (simp add: bit_ucast_iff bit_drop_bit_eq)
    ultimately show "bit a n = bit b n" using bytes [OF i] by metis
  qed
qed simp

lemma header_bytes_inject: "header_bytes a r = header_bytes b s \<longleftrightarrow> a = b \<and> r = s"
proof -
  have "length (bytes_of_u32 w) = 4" for w by (simp add: bytes_of_u32_def)
  then show ?thesis by (cases a; cases b) (auto simp: header_bytes_def bytes_of_u32_inject)
qed

text \<open>What the invariant gives for the true file.\<close>

lemma configured_leaf:
  assumes "configured zf" and "k * 65536 < unat (get_filelen zf)"
  shows "leaf zf k < length (tree zf)"
proof -
  have "k < unat (num_blocks zf)" unfolding num_blocks_nat(1) [OF assms(1)] using assms(2) by linarith
  from leaf_in_tree [OF assms(1) this] show ?thesis by blast
qed

lemma anchored_file_authentic:
  assumes a: "anchored_file zhash h zf" and t: "true_file zhash h md T contents"
    and no: "\<not> header_collision zhash zf md T" "\<nexists>p. 2 * p + 2 < length (tree zf) \<and> collision_at zhash zf T p"
  shows "metadata zf = md" and "fits_u32 zf" and "leaf zf k = 2 ^ unat (file_depth md) - 1 + k"
    and "i < length (tree zf) \<Longrightarrow> path_validated zf i \<Longrightarrow> hs zf i = T i"
proof -
  from a have m: "minv zhash {} zf" and "shape zf" by (simp_all add: anchored_file_def minv_def)
  have "zhash (header_bytes (metadata zf) (hs zf 0)) = zhash (header_bytes md (T 0))"
    using a t by (simp add: anchored_file_def true_file_def compute_file_hash_def header_bytes_def)
  with no(1) have "header_bytes (metadata zf) (hs zf 0) = header_bytes md (T 0)" by (auto simp: header_collision_def)
  then have r: "hs zf 0 = T 0" and md: "metadata zf = md" by (simp_all add: header_bytes_inject)
  from md show "metadata zf = md" .
  with t show "fits_u32 zf" by (simp add: fits_u32_def true_file_def get_filelen_def)
  have d: "tree_depth zf = file_depth md" using a md by (simp add: anchored_file_def)
  then show "leaf zf k = 2 ^ unat (file_depth md) - 1 + k" by (simp add: leaf_def)
  have "true_tree zhash (length (tree zf)) T" using t d \<open>shape zf\<close> by (simp add: true_file_def shape_def)
  from path_hash_true [OF m this r no(2)] show "i < length (tree zf) \<Longrightarrow> path_validated zf i \<Longrightarrow> hs zf i = T i" .
qed

subsection \<open>A file of two blocks\<close>

definition toy_hash :: "bytes \<Rightarrow> hash_t" where
  "toy_hash bs =
     (if bs = hash_bytes 5 @ hash_bytes 9 then 14 else if length bs = 65536 then if hd bs = 0 then 5 else 9 else 77)"

definition toy_metadata :: ZFTPFileMetadata where
  "toy_metadata = \<lparr>file_len_network_order = z_htonl 131072, md_flags = 0\<rparr>"

definition toy_reply :: ZFileReply where
  "toy_reply = \<lparr>reply_metadata = toy_metadata,
     reply_records = [\<lparr>tree_location = 0, mr_hash = 14\<rparr>, \<lparr>tree_location = 1, mr_hash = 5\<rparr>, \<lparr>tree_location = 2, mr_hash = 9\<rparr>],
     data_start = 0, data_end = 0, reply_payload = []\<rparr>"

abbreviation toy_tree :: "nat \<Rightarrow> hash_t" where
  "toy_tree i \<equiv> [14, 5, 9] ! i"

abbreviation toy_contents :: bytes where
  "toy_contents \<equiv> replicate 65536 0 @ replicate 65536 1"

lemma toy_depth: "file_depth toy_metadata = 1" "z_ntohl (file_len_network_order toy_metadata) = 131072"
    "compute_tree_depth (compute_num_blocks 131072) = 1"
  unfolding toy_metadata_def by code_simp+

lemma toy_header: "compute_file_hash toy_hash toy_metadata 14 = 77"
proof -
  have l: "length (header_bytes toy_metadata 14) = 28" by (simp add: header_bytes_def bytes_of_u32_def)
  moreover from l have "header_bytes toy_metadata 14 \<noteq> hash_bytes 5 @ hash_bytes 9" by (intro notI) simp
  ultimately show ?thesis unfolding compute_file_hash_def header_bytes_def [symmetric] by (simp add: toy_hash_def)
qed

lemma toy_file: "true_file toy_hash 77 toy_metadata toy_tree toy_contents"
proof -
  have "true_tree toy_hash 3 toy_tree" by (auto simp: true_tree_def toy_hash_def numeral_2_eq_2)
  moreover have "[14, 5, 9] ! (1 + k) = toy_hash (true_block toy_contents k)" if "k * 65536 < 131072" for k
  proof -
    have "k = 0 \<or> k = 1" using that by auto
    moreover have "toy_hash (replicate 65536 x) = (if x = 0 then 5 else 9)" for x
    proof -
      have "replicate 65536 x \<noteq> hash_bytes 5 @ hash_bytes 9" by (rule notI, drule arg_cong [of _ _ length]) simp
      then show ?thesis by (simp add: toy_hash_def)
    qed
    ultimately show ?thesis by (auto simp: true_block_def)
  qed
  ultimately show ?thesis using toy_header by (simp add: true_file_def toy_depth)
qed

lemma toy_session:
  "\<exists>zf bc'. install_replies toy_hash sample_mem (ZCachedFile_new (sample_tree 0 0) 77, ZBlockCache_new None) [toy_reply] = Some (zf, bc') \<and>
     metadata_state zf = v_validated \<and> length (tree zf) = 3 \<and> path_validated zf 2"
proof -
  let ?zf = "ZCachedFile_new (sample_tree 0 0) 77" and ?rs = "reply_records toy_reply"
  have n: "metadata_state ?zf = v_unknown" "file_hash ?zf = 77" "vmr.ready (parents_of_tentative_nodes ?zf)"
    "ht_mset (parents_of_tentative_nodes ?zf) = {#}"
    by (simp_all add: ZCachedFile_new_def vmr.ready_init init_inv(2))
  have r: "find_root_merkle_record ?rs = Some \<lparr>tree_location = 0, mr_hash = 14\<rparr>" by (simp add: find_root_merkle_record_def toy_reply_def)
  from install_metadata_ok [OF n(1) r _ _ n(3,4), of toy_hash toy_metadata] n(2) toy_header toy_depth obtain z where
    z: "install_metadata toy_hash ?zf toy_metadata ?rs = Some (z, NEW_DATA)" "minv toy_hash {} z" "fresh_tree z 14"
      "metadata_state z = v_validated" by auto
  from z(1) n(1,2) r toy_header toy_depth have td: "tree_depth z = 1" and q: "ht_mset (parents_of_tentative_nodes z) = {#}"
    using n(4) by (auto simp: install_metadata_def configure_from_metadata_def Let_def split: bind_splits)
  have sh: "shape z" and v: "st z 0 = v_validated" "hs z 0 = 14" using z(2,3) by (auto simp: minv_def shape_def fresh_tree_def)
  then have len: "length (tree z) = 3" using td by (simp add: shape_def)
  have "install_merkle_record toy_hash (z, False) \<lparr>tree_location = 0, mr_hash = 14\<rparr> = Some (z, False)"
    using v len by (cases "tree z") (simp_all add: install_merkle_record_def rd_def)
  with pair_installed [OF z(2,3) len q, of False 5 9] obtain z1 where
    z1: "install_merkle_records toy_hash z ?rs = Some (z1, True)" "hs z1 0 = 14" "hs z1 1 = 5" "hs z1 2 = 9"
      "0 \<in># ht_mset (parents_of_tentative_nodes z1)" by (auto simp: install_merkle_records_def toy_reply_def)
  from install_merkle_records_exact [OF z(2), of ?rs False] z1(1) have e: "minv toy_hash {} z1" "extends z z1"
    by (auto simp: install_merkle_records_def split: if_splits)
  from validate_tentative_hashes_ok [OF e(1)] obtain z2 ir where
    z2: "validate_tentative_hashes toy_hash z1 = Some (z2, ir)" "minv toy_hash {} z2" "same_hashes z1 z2"
      "\<forall>p \<in># ht_mset (parents_of_tentative_nodes z1). hs z1 (unat p) = pair_hash toy_hash z1 (unat p) \<longrightarrow>
              st z2 (2 * unat p + 1) = v_validated \<and> st z2 (2 * unat p + 2) = v_validated" by blast
  have "hs z1 0 = pair_hash toy_hash z1 0" using z1(2-4) by (simp add: pair_hash_def toy_hash_def numeral_2_eq_2)
  with bspec [OF z2(4) z1(5)] have "st z2 2 = v_validated" by (simp add: numeral_2_eq_2)
  moreover have "st z2 0 = v_validated" using z2(2) by (simp add: minv_def shape_def)
  ultimately have "path_validated z2 2" by (simp add: path_validated.simps [of z2 2] path_validated.simps [of z2 0])
  moreover have "length (tree z2) = 3" using z2(3) e(2) len by (simp add: same_hashes_def extends_def)
  moreover have "metadata_state z2 = v_validated"
  proof -
    have "same_file z z1" using e(2) by (simp add: extends_def same_file_def)
    from arg_cong [OF this [unfolded same_file_def], of metadata_state] have "metadata_state z1 = metadata_state z" by simp
    moreover have "metadata_state z2 = metadata_state z1"
      using arg_cong [OF validate_tentative_hashes_frame [OF z2(1), unfolded same_file_def], of metadata_state] by simp
    ultimately show ?thesis using z(4) by simp
  qed
  moreover have "install_data toy_hash sample_mem z1 toy_reply (ZBlockCache_new None) = Some (ZBlockCache_new None, False)"
    by (simp add: install_data_def toy_reply_def install_data_loop.simps)
  moreover have "reply_metadata toy_reply = toy_metadata" by (simp add: toy_reply_def)
  ultimately show ?thesis using z(1) z1(1) z2(1) by (simp add: install_reply_def)
qed

subsection \<open>Properties\<close>

text \<open>C1. Authenticity against any server. Take a new cached file for the name \<open>h\<close> and let it install any replies, with
  metadata, hashes and data of the sender's choice. If metadata have been accepted, they are those of the true
  file with that name, every hash that is validated together with all its ancestors is the hash of the true tree at
  that place, and every complete block under such a leaf holds the bytes of the true file; or else the
  client holds bytes that collide with those of the true file at the same place. The cache starts without
  wrong blocks and without a database, and the true file has at most 2^32 - 2^16 bytes.\<close>

theorem replies_authentic:
  assumes "cache_ok zhash mem bc" and "true_file zhash h md T contents"
    and "install_replies zhash mem (ZCachedFile_new raw h, bc) replies = Some (zf, bc')"
    and "metadata_state zf = v_validated"
  shows "(metadata zf = md \<and>
      (\<forall>i < length (tree zf). path_validated zf i \<longrightarrow> vmr_hash (tree zf ! i) = T i) \<and>
      (\<forall>k b. k * 65536 < length contents \<and> path_validated zf (leaf zf k) \<and>
         bc_blocks bc' (vmr_hash (tree zf ! leaf zf k)) = Some b \<and> zb_valid b \<longrightarrow> zb_data b = true_block contents k))
    \<or> header_collision zhash zf md T
    \<or> (\<exists>p. 2 * p + 2 < length (tree zf) \<and> collision_at zhash zf T p)
    \<or> (\<exists>k. k * 65536 < length contents \<and> block_collision zhash zf bc' contents k)"
proof -
  from install_replies_inv [OF new_file_inv [OF assms(1)] assms(3)] assms(4) have
    a: "anchored_file zhash h zf" and c: "fits_u32 zf \<longrightarrow> cache_ok zhash mem bc'" by (simp_all add: session_inv_def)
  show ?thesis
  proof (cases "header_collision zhash zf md T \<or> (\<exists>p. 2 * p + 2 < length (tree zf) \<and> collision_at zhash zf T p)")
    case False
    then have n: "\<not> header_collision zhash zf md T" "\<nexists>p. 2 * p + 2 < length (tree zf) \<and> collision_at zhash zf T p" by auto
    note f = anchored_file_authentic [OF a assms(2) n]
    from configured_leaf [OF anchored_file_configured [OF a assms(4) f(2)]] assms(2) f(1)
    have l: "leaf zf k < length (tree zf)" if "k * 65536 < length contents" for k
      using that by (simp add: true_file_def get_filelen_def)
    have "zb_data b = true_block contents k \<or> block_collision zhash zf bc' contents k"
      if k: "k * 65536 < length contents" "path_validated zf (leaf zf k)" "bc_blocks bc' (hs zf (leaf zf k)) = Some b" "zb_valid b" for k b
    proof -
      have "zhash (zb_data b) = hs zf (leaf zf k)"
        using c f(2) k(3,4) by (auto simp: cache_ok_def bc_ok_def zb_ok_def)
      also have "\<dots> = zhash (true_block contents k)"
        using f(4) [OF l [OF k(1)] k(2)] assms(2) k(1) by (simp add: f(3) true_file_def)
      finally show ?thesis using k(3) by (auto simp: block_collision_def)
    qed
    with f show ?thesis by blast
  qed blast
qed

theorem replies_authentic_witness:
  "\<exists>zf bc'. install_replies toy_hash sample_mem (ZCachedFile_new (sample_tree 0 0) 77, ZBlockCache_new None) [toy_reply] = Some (zf, bc') \<and>
     path_validated zf 2 \<and>
     (vmr_hash (tree zf ! 2) = 9 \<or> header_collision toy_hash zf toy_metadata toy_tree \<or>
      (\<exists>p. 2 * p + 2 < length (tree zf) \<and> collision_at toy_hash zf toy_tree p) \<or>
      (\<exists>k. k * 65536 < length toy_contents \<and> block_collision toy_hash zf bc' toy_contents k))"
proof -
  obtain zf bc' where z: "install_replies toy_hash sample_mem (ZCachedFile_new (sample_tree 0 0) 77, ZBlockCache_new None) [toy_reply] = Some (zf, bc')"
    "metadata_state zf = v_validated" "length (tree zf) = 3" "path_validated zf 2" using toy_session by blast
  from replies_authentic [OF sample_cache_ok toy_file z(1,2)] z show ?thesis by (auto simp: numeral_2_eq_2)
qed

end
