(* ===== verification/AvlTree.thy ===== *)
theory AvlTree
  imports Prelude
begin

text \<open>
  The AVL tree template, \<open>src/common/utils/avl2.h\<close> and \<open>avl2logic.h\<close>. A node carries its balance
  and its two subtrees. The code has parent pointers; here a pointer to a node is the subtree below it together
  with the path of parents up to the root, so that the operations that climb the tree recurse
  on the path. Elements are of any type, with a key of a linear order. The
  recursive mutex around every operation and the memory of the nodes are left out.
\<close>

subsection \<open>Trees and paths\<close>

datatype AVLBalance = AVLNew | AVLLeft | AVLBalanced | AVLRight

datatype 'e node = Null | Node AVLBalance "'e node" 'e "'e node"

text \<open>A parent of the node at hand: the node is its left child, or its right child.\<close>

datatype 'e parent = LeftOf AVLBalance 'e "'e node" | RightOf AVLBalance "'e node" 'e

record 'e AVLTree =
  root :: "'e node"
  insertions :: u32
  deletions :: u32
  singleRotations :: u32
  doubleRotations :: u32

fun plug :: "'e parent list \<Rightarrow> 'e node \<Rightarrow> 'e node" where
  "plug [] t = t"
| "plug (LeftOf b e r # p) t = plug p (Node b t e r)"
| "plug (RightOf b l e # p) t = plug p (Node b l e t)"

definition AVLTree_new :: "'e AVLTree" where
  "AVLTree_new = \<lparr>root = Null, insertions = 0, deletions = 0, singleRotations = 0, doubleRotations = 0\<rparr>"

subsection \<open>Rotations\<close>

fun singleRotate :: "'e node \<Rightarrow> AVLBalance \<Rightarrow> 'e node option" where
  "singleRotate (Node b l e (Node cb cl c cr)) AVLRight = Some (Node AVLBalanced (Node AVLBalanced l e cl) c cr)"
| "singleRotate (Node b (Node cb cl c cr) e r) AVLLeft = Some (Node AVLBalanced cl c (Node AVLBalanced cr e r))"
| "singleRotate _ _ = None"

text \<open>The new balances of the node and of its child after a double rotation.\<close>

fun rotated_balances :: "AVLBalance \<Rightarrow> AVLBalance \<Rightarrow> (AVLBalance \<times> AVLBalance) option" where
  "rotated_balances AVLLeft whichSide =
     Some (if whichSide = AVLRight then (AVLBalanced, AVLRight) else (AVLRight, AVLBalanced))"
| "rotated_balances AVLBalanced whichSide = Some (AVLBalanced, AVLBalanced)"
| "rotated_balances AVLRight whichSide =
     Some (if whichSide = AVLRight then (AVLLeft, AVLBalanced) else (AVLBalanced, AVLLeft))"
| "rotated_balances AVLNew whichSide = None"

fun doubleRotate :: "'e node \<Rightarrow> AVLBalance \<Rightarrow> 'e node option" where
  "doubleRotate (Node b l e (Node cb (Node gb beta g gamma) c delta)) AVLRight = do {
     lite_assert (cb = AVLLeft);
     (self_balance, child_balance) \<leftarrow> rotated_balances gb AVLRight;
     Some (Node AVLBalanced (Node self_balance l e beta) g (Node child_balance gamma c delta))
   }"
| "doubleRotate (Node b (Node cb alpha c (Node gb gamma g beta)) e r) AVLLeft = do {
     lite_assert (cb = AVLRight);
     (self_balance, child_balance) \<leftarrow> rotated_balances gb AVLLeft;
     Some (Node AVLBalanced (Node child_balance alpha c gamma) g (Node self_balance beta e r))
   }"
| "doubleRotate _ _ = None"

definition put_single :: "'e AVLTree \<Rightarrow> 'e parent list \<Rightarrow> 'e node \<Rightarrow> 'e AVLTree" where
  "put_single tr path t = tr\<lparr>root := plug path t, singleRotations := singleRotations tr + 1\<rparr>"

definition put_double :: "'e AVLTree \<Rightarrow> 'e parent list \<Rightarrow> 'e node \<Rightarrow> 'e AVLTree" where
  "put_double tr path t = tr\<lparr>root := plug path t, doubleRotations := doubleRotations tr + 1\<rparr>"

subsection \<open>Insertion\<close>

fun rightAdded :: "'e node \<Rightarrow> 'e parent list \<Rightarrow> 'e AVLTree \<Rightarrow> 'e AVLTree option"
  and leftAdded :: "'e node \<Rightarrow> 'e parent list \<Rightarrow> 'e AVLTree \<Rightarrow> 'e AVLTree option" where
  "rightAdded (Node b l e r) path tr =
     (case b of
        AVLNew \<Rightarrow> None
      | AVLLeft \<Rightarrow> Some (tr\<lparr>root := plug path (Node AVLBalanced l e r)\<rparr>)
      | AVLBalanced \<Rightarrow>
          (case path of
             [] \<Rightarrow> Some (tr\<lparr>root := Node AVLRight l e r\<rparr>)
           | RightOf pb pl pe # p \<Rightarrow> rightAdded (Node pb pl pe (Node AVLRight l e r)) p tr
           | LeftOf pb pe pr # p \<Rightarrow> leftAdded (Node pb (Node AVLRight l e r) pe pr) p tr)
      | AVLRight \<Rightarrow>
          (case r of
             Null \<Rightarrow> None
           | Node rb rl re rr \<Rightarrow>
               if rb = AVLRight then map_option (put_single tr path) (singleRotate (Node b l e r) AVLRight)
               else do {
                 lite_assert (rb = AVLLeft);
                 map_option (put_double tr path) (doubleRotate (Node b l e r) AVLRight)
               }))"
| "rightAdded Null path tr = None"
| "leftAdded (Node b l e r) path tr =
     (case b of
        AVLNew \<Rightarrow> None
      | AVLRight \<Rightarrow> Some (tr\<lparr>root := plug path (Node AVLBalanced l e r)\<rparr>)
      | AVLBalanced \<Rightarrow>
          (case path of
             [] \<Rightarrow> Some (tr\<lparr>root := Node AVLLeft l e r\<rparr>)
           | RightOf pb pl pe # p \<Rightarrow> rightAdded (Node pb pl pe (Node AVLLeft l e r)) p tr
           | LeftOf pb pe pr # p \<Rightarrow> leftAdded (Node pb (Node AVLLeft l e r) pe pr) p tr)
      | AVLLeft \<Rightarrow>
          (case l of
             Null \<Rightarrow> None
           | Node lb ll le lr \<Rightarrow>
               if lb = AVLLeft then map_option (put_single tr path) (singleRotate (Node b l e r) AVLLeft)
               else do {
                 lite_assert (lb = AVLRight);
                 map_option (put_double tr path) (doubleRotate (Node b l e r) AVLLeft)
               }))"
| "leftAdded Null path tr = None"

text \<open>The way down to the place of a new element, as the path of its parents.\<close>

fun insertion_path :: "('e \<Rightarrow> 'k :: linorder) \<Rightarrow> 'k \<Rightarrow> 'e node \<Rightarrow> 'e parent list \<Rightarrow> 'e parent list option" where
  "insertion_path getKey k Null path = Some path"
| "insertion_path getKey k (Node b l e r) path =
     (if getKey e < k then insertion_path getKey k r (RightOf b l e # path)
      else do {
        lite_assert (getKey e > k);
        insertion_path getKey k l (LeftOf b e r # path)
      })"

definition AVLTree_insert :: "('e \<Rightarrow> 'k :: linorder) \<Rightarrow> 'e AVLTree \<Rightarrow> 'e \<Rightarrow> 'e AVLTree option" where
  "AVLTree_insert getKey intoTree element = do {
     let tr = intoTree\<lparr>insertions := insertions intoTree + 1\<rparr>;
     let self = Node AVLBalanced Null element Null;
     if root tr = Null then Some (tr\<lparr>root := self\<rparr>)
     else do {
       path \<leftarrow> insertion_path getKey (getKey element) (root tr) [];
       (case path of
          [] \<Rightarrow> None
        | RightOf pb pl pe # p \<Rightarrow> rightAdded (Node pb pl pe self) p tr
        | LeftOf pb pe pr # p \<Rightarrow> leftAdded (Node pb self pe pr) p tr)
     }
   }"

subsection \<open>Searching\<close>

fun findFirstLessThan :: "('e \<Rightarrow> 'k :: linorder) \<Rightarrow> 'k \<Rightarrow> 'e node \<Rightarrow> 'e option" where
  "findFirstLessThan getKey k Null = None"
| "findFirstLessThan getKey k (Node b l e r) =
     (if getKey e < k then (case findFirstLessThan getKey k r of None \<Rightarrow> Some e | Some x \<Rightarrow> Some x)
      else findFirstLessThan getKey k l)"

text \<open>The node found, with its path: \<open>remove\<close> goes on from there.\<close>

fun findNodeLessThanOrEqualTo ::
    "('e \<Rightarrow> 'k :: linorder) \<Rightarrow> 'k \<Rightarrow> 'e node \<Rightarrow> 'e parent list \<Rightarrow> (AVLBalance \<times> 'e node \<times> 'e \<times> 'e node \<times> 'e parent list) option" where
  "findNodeLessThanOrEqualTo getKey k Null path = None"
| "findNodeLessThanOrEqualTo getKey k (Node b l e r) path =
     (if getKey e = k then Some (b, l, e, r, path)
      else if getKey e < k then
        (case findNodeLessThanOrEqualTo getKey k r (RightOf b l e # path) of
           None \<Rightarrow> Some (b, l, e, r, path)
         | Some x \<Rightarrow> Some x)
      else findNodeLessThanOrEqualTo getKey k l (LeftOf b e r # path))"

definition findFirstLessThanOrEqualTo :: "('e \<Rightarrow> 'k :: linorder) \<Rightarrow> 'k \<Rightarrow> 'e node \<Rightarrow> 'e option" where
  "findFirstLessThanOrEqualTo getKey k t =
     map_option (\<lambda>(b, l, e, r, path). e) (findNodeLessThanOrEqualTo getKey k t [])"

fun findFirstGreaterThan :: "('e \<Rightarrow> 'k :: linorder) \<Rightarrow> 'k \<Rightarrow> 'e node \<Rightarrow> 'e option" where
  "findFirstGreaterThan getKey k Null = None"
| "findFirstGreaterThan getKey k (Node b l e r) =
     (if getKey e > k then (case findFirstGreaterThan getKey k l of None \<Rightarrow> Some e | Some x \<Rightarrow> Some x)
      else findFirstGreaterThan getKey k r)"

fun findFirstGreaterThanOrEqualTo :: "('e \<Rightarrow> 'k :: linorder) \<Rightarrow> 'k \<Rightarrow> 'e node \<Rightarrow> 'e option" where
  "findFirstGreaterThanOrEqualTo getKey k Null = None"
| "findFirstGreaterThanOrEqualTo getKey k (Node b l e r) =
     (if getKey e = k then Some e
      else if getKey e > k then (case findFirstGreaterThanOrEqualTo getKey k l of None \<Rightarrow> Some e | Some x \<Rightarrow> Some x)
      else findFirstGreaterThanOrEqualTo getKey k r)"

text \<open>The operations of the tree over the searches of its nodes.\<close>

definition AVLTree_findFirstLessThan :: "('e \<Rightarrow> 'k :: linorder) \<Rightarrow> 'e AVLTree \<Rightarrow> 'k \<Rightarrow> 'e option" where
  "AVLTree_findFirstLessThan getKey tr k = (if root tr = Null then None else findFirstLessThan getKey k (root tr))"

definition AVLTree_findFirstLessThanOrEqualTo :: "('e \<Rightarrow> 'k :: linorder) \<Rightarrow> 'e AVLTree \<Rightarrow> 'k \<Rightarrow> 'e option" where
  "AVLTree_findFirstLessThanOrEqualTo getKey tr k = (if root tr = Null then None else findFirstLessThanOrEqualTo getKey k (root tr))"

definition AVLTree_findFirstGreaterThan :: "('e \<Rightarrow> 'k :: linorder) \<Rightarrow> 'e AVLTree \<Rightarrow> 'k \<Rightarrow> 'e option" where
  "AVLTree_findFirstGreaterThan getKey tr k = (if root tr = Null then None else findFirstGreaterThan getKey k (root tr))"

definition AVLTree_findFirstGreaterThanOrEqualTo :: "('e \<Rightarrow> 'k :: linorder) \<Rightarrow> 'e AVLTree \<Rightarrow> 'k \<Rightarrow> 'e option" where
  "AVLTree_findFirstGreaterThanOrEqualTo getKey tr k = (if root tr = Null then None else findFirstGreaterThanOrEqualTo getKey k (root tr))"

definition AVLTree_lookup :: "('e \<Rightarrow> 'k :: linorder) \<Rightarrow> 'e AVLTree \<Rightarrow> 'k \<Rightarrow> 'e option" where
  "AVLTree_lookup getKey tr k =
     (case AVLTree_findFirstLessThanOrEqualTo getKey tr k of
        None \<Rightarrow> None
      | Some e \<Rightarrow> if getKey e = k then Some e else None)"

text \<open>The outer option is a failed assertion, the inner one the null pointer of the empty tree.\<close>

fun leftmost_from :: "('e \<Rightarrow> 'k :: linorder) \<Rightarrow> 'e node \<Rightarrow> 'e option option" where
  "leftmost_from getKey Null = Some None"
| "leftmost_from getKey (Node b Null e r) = Some (Some e)"
| "leftmost_from getKey (Node b (Node lb ll le lr) e r) = do {
     lite_assert (getKey le \<le> getKey e);
     leftmost_from getKey (Node lb ll le lr)
   }"

fun rightmost_from :: "('e \<Rightarrow> 'k :: linorder) \<Rightarrow> 'e node \<Rightarrow> 'e option option" where
  "rightmost_from getKey Null = Some None"
| "rightmost_from getKey (Node b l e Null) = Some (Some e)"
| "rightmost_from getKey (Node b l e (Node rb rl re rr)) = do {
     lite_assert (getKey re \<ge> getKey e);
     rightmost_from getKey (Node rb rl re rr)
   }"

definition findMin :: "('e \<Rightarrow> 'k :: linorder) \<Rightarrow> 'e AVLTree \<Rightarrow> 'e option option" where
  "findMin getKey tr = leftmost_from getKey (root tr)"

definition findMax :: "('e \<Rightarrow> 'k :: linorder) \<Rightarrow> 'e AVLTree \<Rightarrow> 'e option option" where
  "findMax getKey tr = rightmost_from getKey (root tr)"

text \<open>The elements \<open>foreach\<close> visits: from the smallest, always the first greater one.\<close>

partial_function (option) foreach_from :: "('e \<Rightarrow> 'k :: linorder) \<Rightarrow> 'e AVLTree \<Rightarrow> 'e option \<Rightarrow> 'e list option" where
  "foreach_from getKey tr element =
     (case element of
        None \<Rightarrow> Some []
      | Some e \<Rightarrow> do {
          es \<leftarrow> foreach_from getKey tr (AVLTree_findFirstGreaterThan getKey tr (getKey e));
          Some (e # es)
        })"

definition foreach_visits :: "('e \<Rightarrow> 'k :: linorder) \<Rightarrow> 'e AVLTree \<Rightarrow> 'e list option" where
  "foreach_visits getKey tr = do { e \<leftarrow> findMin getKey tr; foreach_from getKey tr e }"

text \<open>\<open>firstthat\<close> stops at the first element its callback accepts; the inner None is the null pointer.\<close>

partial_function (option) firstthat_from ::
    "('e \<Rightarrow> 'k :: linorder) \<Rightarrow> ('e \<Rightarrow> bool) \<Rightarrow> 'e AVLTree \<Rightarrow> 'e option \<Rightarrow> 'e option option" where
  "firstthat_from getKey func tr element =
     (case element of
        None \<Rightarrow> Some None
      | Some e \<Rightarrow> if func e then Some (Some e)
                  else firstthat_from getKey func tr (AVLTree_findFirstGreaterThan getKey tr (getKey e)))"

definition firstthat :: "('e \<Rightarrow> 'k :: linorder) \<Rightarrow> ('e \<Rightarrow> bool) \<Rightarrow> 'e AVLTree \<Rightarrow> 'e option option" where
  "firstthat getKey func tr = do { e \<leftarrow> findMin getKey tr; firstthat_from getKey func tr e }"

definition AVLTree_empty :: "'e AVLTree \<Rightarrow> bool option" where
  "AVLTree_empty tr = do {
     lite_assert ((root tr = Null) = (insertions tr = deletions tr));
     Some (root tr = Null)
   }"

definition AVLTree_size :: "'e AVLTree \<Rightarrow> u32 option" where
  "AVLTree_size tr = do {
     lite_assert (insertions tr \<ge> deletions tr);
     lite_assert ((root tr = Null) = (insertions tr = deletions tr));
     Some (insertions tr - deletions tr)
   }"

subsection \<open>Removal\<close>

text \<open>The balances after the single rotation of a heavy child that was balanced.\<close>

fun reset_balances :: "AVLBalance \<Rightarrow> AVLBalance \<Rightarrow> 'e node \<Rightarrow> 'e node option" where
  "reset_balances AVLRight whichSide (Node cb (Node sb l e cl) c cr) = Some (Node whichSide (Node AVLRight l e cl) c cr)"
| "reset_balances AVLLeft whichSide (Node cb cl c (Node sb cr e r)) = Some (Node whichSide cl c (Node AVLLeft cr e r))"
| "reset_balances _ _ _ = None"

fun gotOneShorter :: "'e node \<Rightarrow> 'e parent list \<Rightarrow> 'e AVLTree \<Rightarrow> AVLBalance \<Rightarrow> 'e AVLTree option" where
  "gotOneShorter Null path tr whichSide = None"
| "gotOneShorter (Node b l e r) path tr whichSide = do {
     lite_assert (whichSide = AVLLeft \<or> whichSide = AVLRight);
     if b = AVLBalanced then
       Some (tr\<lparr>root := plug path (Node (if whichSide = AVLRight then AVLLeft else AVLRight) l e r)\<rparr>)
     else if b = whichSide then
       (case path of
          [] \<Rightarrow> Some (tr\<lparr>root := Node AVLBalanced l e r\<rparr>)
        | RightOf pb pl pe # p \<Rightarrow> gotOneShorter (Node pb pl pe (Node AVLBalanced l e r)) p tr AVLRight
        | LeftOf pb pe pr # p \<Rightarrow> gotOneShorter (Node pb (Node AVLBalanced l e r) pe pr) p tr AVLLeft)
     else do {
       let heavySide = (if whichSide = AVLRight then AVLLeft else AVLRight);
       let heavyChild = (if whichSide = AVLRight then l else r);
       (case heavyChild of
          Null \<Rightarrow> None
        | Node hb hl he hr \<Rightarrow>
            if hb = heavySide \<or> hb = whichSide then do {
              replacement \<leftarrow> (if hb = heavySide then singleRotate (Node b l e r) heavySide
                              else doubleRotate (Node b l e r) heavySide);
              let tr' = (if hb = heavySide then tr\<lparr>singleRotations := singleRotations tr + 1\<rparr>
                         else tr\<lparr>doubleRotations := doubleRotations tr + 1\<rparr>);
              (case path of
                 [] \<Rightarrow> Some (tr'\<lparr>root := replacement\<rparr>)
               | RightOf pb pl pe # p \<Rightarrow> gotOneShorter (Node pb pl pe replacement) p tr' AVLRight
               | LeftOf pb pe pr # p \<Rightarrow> gotOneShorter (Node pb replacement pe pr) p tr' AVLLeft)
            } else do {
              lite_assert (hb = AVLBalanced);
              rotated \<leftarrow> singleRotate (Node b l e r) heavySide;
              t \<leftarrow> reset_balances heavySide whichSide rotated;
              Some (put_single tr path t)
            })
     }
   }"

text \<open>A child takes the place of the node.\<close>

definition promote :: "'e node \<Rightarrow> 'e parent list \<Rightarrow> 'e AVLTree \<Rightarrow> 'e AVLTree option" where
  "promote child path tr =
     (case path of
        [] \<Rightarrow> Some (tr\<lparr>root := child\<rparr>)
      | RightOf pb pl pe # p \<Rightarrow> gotOneShorter (Node pb pl pe child) p tr AVLRight
      | LeftOf pb pe pr # p \<Rightarrow> gotOneShorter (Node pb child pe pr) p tr AVLLeft)"

text \<open>The symmetric successor: its element, its right subtree and its path below the start.\<close>

fun successor :: "'e node \<Rightarrow> 'e parent list \<Rightarrow> ('e \<times> 'e node \<times> 'e parent list) option" where
  "successor Null path = None"
| "successor (Node b l e r) path = (if l = Null then Some (e, r, path) else successor l (LeftOf b e r # path))"

definition remove_node :: "AVLBalance \<times> 'e node \<times> 'e \<times> 'e node \<times> 'e parent list \<Rightarrow> 'e AVLTree \<Rightarrow> 'e AVLTree option" where
  "remove_node self fromTree =
     (case self of (b, l, e, r, path) \<Rightarrow> do {
        lite_assert (b \<noteq> AVLNew);
        let tr = fromTree\<lparr>deletions := deletions fromTree + 1\<rparr>;
        if l = Null then do {
          lite_assert (r = Null \<and> b = AVLBalanced \<or>
            b = AVLRight \<and> (case r of Node AVLBalanced Null x Null \<Rightarrow> True | _ \<Rightarrow> False));
          promote r path tr
        } else if r = Null then do {
          lite_assert (b = AVLLeft \<and> (case l of Node AVLBalanced Null x Null \<Rightarrow> True | _ \<Rightarrow> False));
          promote l path tr
        } else do {
          (s, sr, q) \<leftarrow> successor r [];
          (case q of
             [] \<Rightarrow> gotOneShorter (Node b l s sr) path tr AVLRight
           | LeftOf pb pe pr # q' \<Rightarrow> gotOneShorter (Node pb sr pe pr) (q' @ RightOf b l s # path) tr AVLLeft
           | RightOf pb pl pe # q' \<Rightarrow> None)
        }
      })"

definition AVLTree_remove :: "('e \<Rightarrow> 'k :: linorder) \<Rightarrow> 'e AVLTree \<Rightarrow> 'e \<Rightarrow> 'e AVLTree option" where
  "AVLTree_remove getKey tr element = do {
     lite_assert (root tr \<noteq> Null);
     candidate \<leftarrow> findNodeLessThanOrEqualTo getKey (getKey element) (root tr) [];
     lite_assert (case candidate of (b, l, e, r, path) \<Rightarrow> getKey e = getKey element);
     remove_node candidate tr
   }"

definition AVLTree_remove_key :: "('e \<Rightarrow> 'k :: linorder) \<Rightarrow> 'e AVLTree \<Rightarrow> 'k \<Rightarrow> ('e AVLTree \<times> 'e option) option" where
  "AVLTree_remove_key getKey tr k =
     (case findNodeLessThanOrEqualTo getKey k (root tr) [] of
        None \<Rightarrow> Some (tr, None)
      | Some (b, l, e, r, path) \<Rightarrow>
          if getKey e = k then map_option (\<lambda>tr'. (tr', Some e)) (remove_node (b, l, e, r, path) tr)
          else Some (tr, None))"

subsection \<open>The consistency check\<close>

fun checkAndReturnDepth :: "('e \<Rightarrow> 'k :: linorder) \<Rightarrow> 'e node \<Rightarrow> (nat \<times> nat) option" where
  "checkAndReturnDepth getKey Null = Some (0, 0)"
| "checkAndReturnDepth getKey (Node b l e r) = do {
     lite_assert (b \<noteq> AVLNew);
     lite_assert (case r of Null \<Rightarrow> True | Node rb rl re rr \<Rightarrow> getKey e < getKey re);
     lite_assert (case l of Null \<Rightarrow> True | Node lb ll le lr \<Rightarrow> getKey e > getKey le);
     (leftDepth, lc) \<leftarrow> checkAndReturnDepth getKey l;
     (rightDepth, rc) \<leftarrow> checkAndReturnDepth getKey r;
     if leftDepth = rightDepth then do { lite_assert (b = AVLBalanced); Some (leftDepth + 1, lc + rc + 1) }
     else if leftDepth = rightDepth + 1 then do { lite_assert (b = AVLLeft); Some (leftDepth + 1, lc + rc + 1) }
     else if leftDepth + 1 = rightDepth then do { lite_assert (b = AVLRight); Some (rightDepth + 1, lc + rc + 1) }
     else None
   }"

text \<open>The walk over all nodes that tests the order of every node and its children.\<close>

fun check_order :: "('e \<Rightarrow> 'k :: linorder) \<Rightarrow> 'e node \<Rightarrow> bool" where
  "check_order getKey Null = True"
| "check_order getKey (Node b l e r) =
     ((case l of Null \<Rightarrow> True | Node lb ll le lr \<Rightarrow> getKey le < getKey e) \<and>
      (case r of Null \<Rightarrow> True | Node rb rl re rr \<Rightarrow> getKey re > getKey e) \<and>
      check_order getKey l \<and> check_order getKey r)"

definition AVLTree_check :: "('e \<Rightarrow> 'k :: linorder) \<Rightarrow> 'e AVLTree \<Rightarrow> unit option" where
  "AVLTree_check getKey tr = do {
     (overallDepth, countedElements) \<leftarrow> checkAndReturnDepth getKey (root tr);
     lite_assert (insertions tr - deletions tr = of_nat countedElements);
     lite_assert (check_order getKey (root tr))
   }"

end
