(* ===== verification/AvlSet.thy ===== *)
theory AvlSet
  imports AvlTree
begin

text \<open>
  Correctness of the AVL tree: every operation keeps the tree ordered and balanced, so that none of
  its assertions fails, and acts on the list of elements in order as the operation of an ordered
  set. The clients of the tree use it through the interface \<open>ordered_set\<close>.
\<close>

subsection \<open>Balance and order\<close>

fun ht :: "'e node \<Rightarrow> nat" where
  "ht Null = 0"
| "ht (Node b l e r) = max (ht l) (ht r) + 1"

fun inorder :: "'e node \<Rightarrow> 'e list" where
  "inorder Null = []"
| "inorder (Node b l e r) = inorder l @ e # inorder r"

fun bal_ok :: "AVLBalance \<Rightarrow> nat \<Rightarrow> nat \<Rightarrow> bool" where
  "bal_ok AVLNew hl hr = False"
| "bal_ok AVLLeft hl hr = (hl = hr + 1)"
| "bal_ok AVLBalanced hl hr = (hl = hr)"
| "bal_ok AVLRight hl hr = (hr = hl + 1)"

fun avl :: "'e node \<Rightarrow> bool" where
  "avl Null = True"
| "avl (Node b l e r) = (avl l \<and> avl r \<and> bal_ok b (ht l) (ht r))"

text \<open>A path into which a subtree of height \<open>h\<close> fits, and the elements before and after the subtree.\<close>

fun fits :: "'e parent list \<Rightarrow> nat \<Rightarrow> bool" where
  "fits [] h = True"
| "fits (LeftOf b e r # p) h = (avl r \<and> bal_ok b h (ht r) \<and> fits p (max h (ht r) + 1))"
| "fits (RightOf b l e # p) h = (avl l \<and> bal_ok b (ht l) h \<and> fits p (max (ht l) h + 1))"

fun before :: "'e parent list \<Rightarrow> 'e list" where
  "before [] = []"
| "before (LeftOf b e r # p) = before p"
| "before (RightOf b l e # p) = before p @ inorder l @ [e]"

fun after :: "'e parent list \<Rightarrow> 'e list" where
  "after [] = []"
| "after (LeftOf b e r # p) = e # inorder r @ after p"
| "after (RightOf b l e # p) = after p"

lemma inorder_plug [simp]: "inorder (plug p t) = before p @ inorder t @ after p"
  by (induction p t rule: plug.induct) simp_all

lemma avl_plug [simp]: "avl (plug p t) \<longleftrightarrow> avl t \<and> fits p (ht t)"
  by (induction p t rule: plug.induct) auto

lemma ht_0 [simp]: "ht t = 0 \<longleftrightarrow> t = Null"
  by (cases t) simp_all

lemma inorder_Nil [simp]: "inorder t = [] \<longleftrightarrow> t = Null"
  by (cases t) simp_all

text \<open>An operation on a tree that ends with a balanced tree of the given elements.\<close>

definition yields :: "'e AVLTree option \<Rightarrow> 'e AVLTree \<Rightarrow> 'e list \<Rightarrow> bool" where
  "yields x tr es \<longleftrightarrow>
     (\<exists>tr'. x = Some tr' \<and> avl (root tr') \<and> inorder (root tr') = es \<and>
            insertions tr' = insertions tr \<and> deletions tr' = deletions tr)"

lemma yields_put [simp]:
  "yields (Some (tr\<lparr>root := t\<rparr>)) tr es \<longleftrightarrow> avl t \<and> inorder t = es"
  "yields (Some (put_single tr p t)) tr es \<longleftrightarrow> avl (plug p t) \<and> inorder (plug p t) = es"
  "yields (Some (put_double tr p t)) tr es \<longleftrightarrow> avl (plug p t) \<and> inorder (plug p t) = es"
  by (auto simp: yields_def put_single_def put_double_def)

subsection \<open>Rotations\<close>

definition balanced_as :: "'e node option \<Rightarrow> nat \<Rightarrow> 'e list \<Rightarrow> bool" where
  "balanced_as x h es \<longleftrightarrow> (\<exists>t. x = Some t \<and> avl t \<and> ht t = h \<and> inorder t = es)"

lemma rotate_right_heavy:
  assumes "avl l" and "avl r" and "ht r = ht l + 2" and "r = Node rb rl re rr"
  shows "rb = AVLRight \<Longrightarrow> balanced_as (singleRotate (Node b l e r) AVLRight) (ht l + 2) (inorder l @ e # inorder r)"
    and "rb = AVLLeft \<Longrightarrow> balanced_as (doubleRotate (Node b l e r) AVLRight) (ht l + 2) (inorder l @ e # inorder r)"
    and "rb = AVLBalanced \<Longrightarrow>
      balanced_as (singleRotate (Node b l e r) AVLRight \<bind> reset_balances AVLRight AVLLeft) (ht l + 3) (inorder l @ e # inorder r)"
proof -
  show "rb = AVLRight \<Longrightarrow> balanced_as (singleRotate (Node b l e r) AVLRight) (ht l + 2) (inorder l @ e # inorder r)"
    using assms by (simp add: balanced_as_def)
  show "rb = AVLBalanced \<Longrightarrow>
      balanced_as (singleRotate (Node b l e r) AVLRight \<bind> reset_balances AVLRight AVLLeft) (ht l + 3) (inorder l @ e # inorder r)"
    using assms by (simp add: balanced_as_def)
  assume L: "rb = AVLLeft"
  with assms obtain gb gl g gr where rl: "rl = Node gb gl g gr" by (cases rl) auto
  show "balanced_as (doubleRotate (Node b l e r) AVLRight) (ht l + 2) (inorder l @ e # inorder r)"
    using assms L unfolding rl by (cases gb) (auto simp: balanced_as_def)
qed

lemma rotate_left_heavy:
  assumes "avl l" and "avl r" and "ht l = ht r + 2" and "l = Node lb ll le lr"
  shows "lb = AVLLeft \<Longrightarrow> balanced_as (singleRotate (Node b l e r) AVLLeft) (ht r + 2) (inorder l @ e # inorder r)"
    and "lb = AVLRight \<Longrightarrow> balanced_as (doubleRotate (Node b l e r) AVLLeft) (ht r + 2) (inorder l @ e # inorder r)"
    and "lb = AVLBalanced \<Longrightarrow>
      balanced_as (singleRotate (Node b l e r) AVLLeft \<bind> reset_balances AVLLeft AVLRight) (ht r + 3) (inorder l @ e # inorder r)"
proof -
  have rs: "singleRotate (Node b (Node lb ll le lr) e r) AVLLeft = Some (Node AVLBalanced ll le (Node AVLBalanced lr e r))"
    by (cases r) simp_all
  show "lb = AVLLeft \<Longrightarrow> balanced_as (singleRotate (Node b l e r) AVLLeft) (ht r + 2) (inorder l @ e # inorder r)"
    using assms rs by (simp add: balanced_as_def)
  show "lb = AVLBalanced \<Longrightarrow>
      balanced_as (singleRotate (Node b l e r) AVLLeft \<bind> reset_balances AVLLeft AVLRight) (ht r + 3) (inorder l @ e # inorder r)"
    using assms rs by (simp add: balanced_as_def)
  assume L: "lb = AVLRight"
  with assms obtain gb gl g gr where lr: "lr = Node gb gl g gr" by (cases lr) auto
  have "doubleRotate (Node b (Node AVLRight ll le (Node gb gl g gr)) e r) AVLLeft =
      map_option (\<lambda>(sb, cb). Node AVLBalanced (Node cb ll le gl) g (Node sb gr e r)) (rotated_balances gb AVLLeft)"
    by (cases r; cases gb) simp_all
  then show "balanced_as (doubleRotate (Node b l e r) AVLLeft) (ht r + 2) (inorder l @ e # inorder r)"
    using assms L unfolding lr by (cases gb) (auto simp: balanced_as_def)
qed

lemma yields_rotated:
  assumes "balanced_as x h es" and "fits p h"
  shows "yields (map_option (put_single tr p) x) tr (before p @ es @ after p)"
    and "yields (map_option (put_double tr p) x) tr (before p @ es @ after p)"
  using assms by (auto simp: balanced_as_def)

subsection \<open>Insertion\<close>

text \<open>A subtree that has just grown by one level leans to a side, unless it is the new leaf.\<close>

definition grown :: "'e node \<Rightarrow> bool" where
  "grown t \<longleftrightarrow> (case t of Null \<Rightarrow> False | Node b l e r \<Rightarrow> avl t \<and> (b = AVLBalanced \<longrightarrow> ht t = 1))"

lemma grownE:
  assumes "grown t" obtains b l e r where "t = Node b l e r" "avl t" "b = AVLBalanced \<longrightarrow> ht t = 1"
  using assms by (cases t) (auto simp: grown_def)

lemma grown_lean:
  "avl l \<Longrightarrow> grown r \<Longrightarrow> ht l = ht r - 1 \<Longrightarrow> grown (Node AVLRight l e r)"
  "avl r \<Longrightarrow> grown l \<Longrightarrow> ht r = ht l - 1 \<Longrightarrow> grown (Node AVLLeft l e r)"
  by (auto simp: grown_def split: node.splits)

lemma grown_pos: "grown t \<Longrightarrow> max (ht t - 1) (ht t) = ht t" "grown t \<Longrightarrow> max (ht t) (ht t - 1) = ht t" "grown t \<Longrightarrow> ht t \<noteq> 0"
  by (auto simp: grown_def)

lemma rightAdded_heavy:
  assumes l: "avl l" and r: "grown r" and h: "ht r - 1 = ht l + 1" and p: "fits p (ht l + 2)"
  shows "yields (rightAdded (Node AVLRight l e r) p tr) tr (before p @ inorder (Node AVLRight l e r) @ after p)"
proof -
  from r obtain rb rl re rr where rn: "r = Node rb rl re rr" and a: "avl r" and b: "rb = AVLBalanced \<longrightarrow> ht r = 1"
    by (rule grownE)
  from h have h2: "ht r = ht l + 2" by simp
  note rot = rotate_right_heavy(1) [OF l a h2 rn, THEN yields_rotated(1), OF _ p]
    rotate_right_heavy(2) [OF l a h2 rn, THEN yields_rotated(2), OF _ p]
  have "rb = AVLRight \<Longrightarrow> rightAdded (Node AVLRight l e r) p tr = map_option (put_single tr p) (singleRotate (Node AVLRight l e r) AVLRight)"
    "rb = AVLLeft \<Longrightarrow> rightAdded (Node AVLRight l e r) p tr = map_option (put_double tr p) (doubleRotate (Node AVLRight l e r) AVLRight)"
    by (simp_all add: rn del: singleRotate.simps doubleRotate.simps)
  moreover from a b h2 rn have "rb = AVLRight \<or> rb = AVLLeft" by (cases rb) simp_all
  ultimately show ?thesis using rot [of tr AVLRight e] by (metis inorder.simps(2))
qed

lemma leftAdded_heavy:
  assumes r: "avl r" and l: "grown l" and h: "ht l - 1 = ht r + 1" and p: "fits p (ht r + 2)"
  shows "yields (leftAdded (Node AVLLeft l e r) p tr) tr (before p @ inorder (Node AVLLeft l e r) @ after p)"
proof -
  from l obtain lb ll le lr where ln: "l = Node lb ll le lr" and a: "avl l" and b: "lb = AVLBalanced \<longrightarrow> ht l = 1"
    by (rule grownE)
  from h have h2: "ht l = ht r + 2" by simp
  note rot = rotate_left_heavy(1) [OF a r h2 ln, THEN yields_rotated(1), OF _ p]
    rotate_left_heavy(2) [OF a r h2 ln, THEN yields_rotated(2), OF _ p]
  have "lb = AVLLeft \<Longrightarrow> leftAdded (Node AVLLeft l e r) p tr = map_option (put_single tr p) (singleRotate (Node AVLLeft l e r) AVLLeft)"
    "lb = AVLRight \<Longrightarrow> leftAdded (Node AVLLeft l e r) p tr = map_option (put_double tr p) (doubleRotate (Node AVLLeft l e r) AVLLeft)"
    by (simp_all add: ln del: singleRotate.simps doubleRotate.simps)
  moreover from a b h2 ln have "lb = AVLLeft \<or> lb = AVLRight" by (cases lb) simp_all
  ultimately show ?thesis using rot [of tr AVLLeft e] by (metis inorder.simps(2))
qed

lemma added_climbs:
  "rightAdded (Node AVLBalanced l e r) (RightOf pb pl pe # p) tr = rightAdded (Node pb pl pe (Node AVLRight l e r)) p tr"
  "rightAdded (Node AVLBalanced l e r) (LeftOf pb pe pr # p) tr = leftAdded (Node pb (Node AVLRight l e r) pe pr) p tr"
  "leftAdded (Node AVLBalanced l e r) (RightOf pb pl pe # p) tr = rightAdded (Node pb pl pe (Node AVLLeft l e r)) p tr"
  "leftAdded (Node AVLBalanced l e r) (LeftOf pb pe pr # p) tr = leftAdded (Node pb (Node AVLLeft l e r) pe pr) p tr"
  by simp_all

lemma added_ok:
  "avl l \<Longrightarrow> grown r \<Longrightarrow> bal_ok b (ht l) (ht r - 1) \<Longrightarrow> fits p (max (ht l) (ht r - 1) + 1) \<Longrightarrow>
     yields (rightAdded (Node b l e r) p tr) tr (before p @ inorder (Node b l e r) @ after p)"
  "avl r \<Longrightarrow> grown l \<Longrightarrow> bal_ok b (ht l - 1) (ht r) \<Longrightarrow> fits p (max (ht l - 1) (ht r) + 1) \<Longrightarrow>
     yields (leftAdded (Node b l e r) p tr) tr (before p @ inorder (Node b l e r) @ after p)"
proof (induction p arbitrary: b l e r)
  case Nil
  { case 1
    then show ?case
      using rightAdded_heavy [of l r "[]" e tr] by (cases b) (auto simp: grown_def split: node.splits)
  next
    case 2
    then show ?case
      using leftAdded_heavy [of r l "[]" e tr] by (cases b) (auto simp: grown_def split: node.splits) }
next
  case (Cons q p)
  { case 1
    show ?case
    proof (cases "b = AVLBalanced")
      case True
      with 1 have g: "grown (Node AVLRight l e r)" by (simp add: grown_lean)
      from 1 obtain h where h: "ht r = Suc h" by (auto elim: grownE)
      show ?thesis
      proof (cases q)
        case (LeftOf pb pe pr)
        with 1 True g h show ?thesis
          using Cons.IH(2) [of pr "Node AVLRight l e r" pb pe] by (simp add: added_climbs del: rightAdded.simps leftAdded.simps)
      next
        case (RightOf pb pl pe)
        with 1 True g h show ?thesis
          using Cons.IH(1) [of pl "Node AVLRight l e r" pb pe] by (simp add: added_climbs del: rightAdded.simps leftAdded.simps)
      qed
    next
      case False
      with 1 show ?thesis using rightAdded_heavy [of l r "q # p" e tr] by (cases b) (auto simp: grown_def split: node.splits)
    qed
  next
    case 2
    show ?case
    proof (cases "b = AVLBalanced")
      case True
      with 2 have g: "grown (Node AVLLeft l e r)" by (simp add: grown_lean)
      from 2 obtain h where h: "ht l = Suc h" by (auto elim: grownE)
      show ?thesis
      proof (cases q)
        case (LeftOf pb pe pr)
        with 2 True g h show ?thesis
          using Cons.IH(2) [of pr "Node AVLLeft l e r" pb pe] by (simp add: added_climbs del: rightAdded.simps leftAdded.simps)
      next
        case (RightOf pb pl pe)
        with 2 True g h show ?thesis
          using Cons.IH(1) [of pl "Node AVLLeft l e r" pb pe] by (simp add: added_climbs del: rightAdded.simps leftAdded.simps)
      qed
    next
      case False
      with 2 show ?thesis using leftAdded_heavy [of r l "q # p" e tr] by (cases b) (auto simp: grown_def split: node.splits)
    qed }
qed

text \<open>The order of the elements, and splitting an ordered list at a key.\<close>

definition ordered :: "('e \<Rightarrow> 'k :: linorder) \<Rightarrow> 'e list \<Rightarrow> bool" where
  "ordered getKey es \<longleftrightarrow> sorted_wrt (<) (map getKey es)"

definition below :: "('e \<Rightarrow> 'k :: linorder) \<Rightarrow> 'k \<Rightarrow> 'e list \<Rightarrow> 'e list" where
  "below getKey k es = filter (\<lambda>x. getKey x < k) es"

definition beyond :: "('e \<Rightarrow> 'k :: linorder) \<Rightarrow> 'k \<Rightarrow> 'e list \<Rightarrow> 'e list" where
  "beyond getKey k es = filter (\<lambda>x. k < getKey x) es"

lemma ordered_simps [simp]:
  "ordered getKey []"
  "ordered getKey (x # xs) \<longleftrightarrow> (\<forall>y\<in>set xs. getKey x < getKey y) \<and> ordered getKey xs"
  "ordered getKey (xs @ ys) \<longleftrightarrow>
     ordered getKey xs \<and> ordered getKey ys \<and> (\<forall>x\<in>set xs. \<forall>y\<in>set ys. getKey x < getKey y)"
  by (auto simp: ordered_def sorted_wrt_append)

lemma below_beyond_simps [simp]:
  "below getKey k [] = []" "beyond getKey k [] = []"
  "below getKey k (xs @ ys) = below getKey k xs @ below getKey k ys"
  "beyond getKey k (xs @ ys) = beyond getKey k xs @ beyond getKey k ys"
  "below getKey k (x # xs) = (if getKey x < k then x # below getKey k xs else below getKey k xs)"
  "beyond getKey k (x # xs) = (if k < getKey x then x # beyond getKey k xs else beyond getKey k xs)"
  "set (below getKey k xs) = {x \<in> set xs. getKey x < k}"
  "set (beyond getKey k xs) = {x \<in> set xs. k < getKey x}"
  by (auto simp: below_def beyond_def)

lemma below_beyond_all:
  "\<forall>x\<in>set xs. getKey x < k \<Longrightarrow> below getKey k xs = xs \<and> beyond getKey k xs = []"
  "\<forall>x\<in>set xs. k < getKey x \<Longrightarrow> below getKey k xs = [] \<and> beyond getKey k xs = xs"
  unfolding below_def beyond_def by (auto simp: filter_empty_conv)

lemma ordered_below_beyond:
  "ordered getKey xs \<Longrightarrow> ordered getKey (below getKey k xs)"
  "ordered getKey xs \<Longrightarrow> ordered getKey (beyond getKey k xs)"
  by (induction xs) auto

text \<open>The effect of an insertion and of a removal on the elements in order.\<close>

definition put_in :: "('e \<Rightarrow> 'k :: linorder) \<Rightarrow> 'e \<Rightarrow> 'e list \<Rightarrow> 'e list" where
  "put_in getKey e es = below getKey (getKey e) es @ e # beyond getKey (getKey e) es"

definition take_out :: "('e \<Rightarrow> 'k :: linorder) \<Rightarrow> 'k \<Rightarrow> 'e list \<Rightarrow> 'e list" where
  "take_out getKey k es = below getKey k es @ beyond getKey k es"

lemma insertion_path_ok:
  assumes "ordered getKey (inorder t)" and "\<forall>x\<in>set (inorder t). getKey x \<noteq> k"
  shows "\<exists>q. insertion_path getKey k t p = Some q \<and> plug q Null = plug p t \<and>
           before q = before p @ below getKey k (inorder t) \<and> after q = beyond getKey k (inorder t) @ after p"
  using assms
proof (induction t arbitrary: p)
  case (Node b l e r)
  show ?case
  proof (cases "getKey e < k")
    case True
    with Node.prems have "\<forall>x\<in>set (inorder l). getKey x < k" by auto
    with True Node.prems show ?thesis using Node.IH(2) [of "RightOf b l e # p"] by (auto simp: below_beyond_all)
  next
    case False
    with Node.prems have k: "k < getKey e" by auto
    with Node.prems have "\<forall>x\<in>set (inorder r). k < getKey x" by auto
    with k Node.prems show ?thesis using Node.IH(1) [of "LeftOf b e r # p"] by (auto simp: below_beyond_all)
  qed
qed simp

definition tree_ok :: "('e \<Rightarrow> 'k :: linorder) \<Rightarrow> 'e AVLTree \<Rightarrow> bool" where
  "tree_ok getKey tr \<longleftrightarrow>
     avl (root tr) \<and> ordered getKey (inorder (root tr)) \<and>
     insertions tr - deletions tr = of_nat (length (inorder (root tr)))"

lemma leaf_added:
  assumes "fits (x # p) 0"
  shows "yields (case x of RightOf b l a \<Rightarrow> rightAdded (Node b l a (Node AVLBalanced Null e Null)) p tr
                | LeftOf b a r \<Rightarrow> leftAdded (Node b (Node AVLBalanced Null e Null) a r) p tr) tr
           (before (x # p) @ e # after (x # p))"
proof -
  let ?self = "Node AVLBalanced Null e Null"
  have g: "grown ?self" by (simp add: grown_def)
  show ?thesis
  proof (cases x)
    case (LeftOf b a r)
    with assms g show ?thesis using added_ok(2) [of r ?self b p a tr] by (simp del: leftAdded.simps)
  next
    case (RightOf b l a)
    with assms g show ?thesis using added_ok(1) [of l ?self b p a tr] by (simp del: rightAdded.simps)
  qed
qed

lemma insert_yields:
  assumes "tree_ok getKey tr" and "\<forall>x\<in>set (inorder (root tr)). getKey x \<noteq> getKey e"
  shows "yields (AVLTree_insert getKey tr e) (tr\<lparr>insertions := insertions tr + 1\<rparr>) (put_in getKey e (inorder (root tr)))"
proof (cases "root tr = Null")
  case True
  then show ?thesis by (simp add: AVLTree_insert_def put_in_def)
next
  case False
  from insertion_path_ok [OF _ assms(2), of "[]"] assms(1) obtain q where
    q: "insertion_path getKey (getKey e) (root tr) [] = Some q" and pl: "plug q Null = root tr" and
    ba: "before q = below getKey (getKey e) (inorder (root tr))" "after q = beyond getKey (getKey e) (inorder (root tr))"
    by (auto simp: tree_ok_def)
  from assms(1) pl have f: "fits q 0" by (metis avl_plug ht.simps(1) tree_ok_def)
  show ?thesis
  proof (cases q)
    case Nil
    with pl False show ?thesis by simp
  next
    case (Cons x p)
    with f have "fits (x # p) 0" by simp
    from leaf_added [OF this, of e "tr\<lparr>insertions := insertions tr + 1\<rparr>"] Cons False q ba
    show ?thesis by (simp add: AVLTree_insert_def put_in_def Let_def del: rightAdded.simps leftAdded.simps)
  qed
qed

subsection \<open>Removal\<close>

lemma yields_counts [simp]:
  "yields x (tr\<lparr>singleRotations := n\<rparr>) es = yields x tr es"
  "yields x (tr\<lparr>doubleRotations := n\<rparr>) es = yields x tr es"
  by (simp_all add: yields_def)

text \<open>A child that got shorter fits into its path again; the parent may then be the shorter one.\<close>

definition refits :: "'e parent list \<Rightarrow> bool" where
  "refits p \<longleftrightarrow> (\<forall>t tr. avl t \<longrightarrow> fits p (ht t + 1) \<longrightarrow> yields (promote t p tr) tr (before p @ inorder t @ after p))"

lemma refitsD: "refits p \<Longrightarrow> balanced_as (Some t) h es \<Longrightarrow> fits p (h + 1) \<Longrightarrow> yields (promote t p tr) tr (before p @ es @ after p)"
  by (auto simp: refits_def balanced_as_def)

lemma gotOneShorter_right:
  "gotOneShorter (Node AVLBalanced l e r) p tr AVLRight = Some (tr\<lparr>root := plug p (Node AVLLeft l e r)\<rparr>)"
  "gotOneShorter (Node AVLRight l e r) p tr AVLRight = promote (Node AVLBalanced l e r) p tr"
  "l = Node AVLLeft ll le lr \<Longrightarrow> gotOneShorter (Node AVLLeft l e r) p tr AVLRight =
     singleRotate (Node AVLLeft l e r) AVLLeft \<bind> (\<lambda>t. promote t p (tr\<lparr>singleRotations := singleRotations tr + 1\<rparr>))"
  "l = Node AVLRight ll le lr \<Longrightarrow> gotOneShorter (Node AVLLeft l e r) p tr AVLRight =
     doubleRotate (Node AVLLeft l e r) AVLLeft \<bind> (\<lambda>t. promote t p (tr\<lparr>doubleRotations := doubleRotations tr + 1\<rparr>))"
  "l = Node AVLBalanced ll le lr \<Longrightarrow> gotOneShorter (Node AVLLeft l e r) p tr AVLRight =
     map_option (put_single tr p) (singleRotate (Node AVLLeft l e r) AVLLeft \<bind> reset_balances AVLLeft AVLRight)"
  by (simp_all add: promote_def map_conv_bind_option comp_def Let_def del: singleRotate.simps doubleRotate.simps)

lemma gotOneShorter_left:
  "gotOneShorter (Node AVLBalanced l e r) p tr AVLLeft = Some (tr\<lparr>root := plug p (Node AVLRight l e r)\<rparr>)"
  "gotOneShorter (Node AVLLeft l e r) p tr AVLLeft = promote (Node AVLBalanced l e r) p tr"
  "r = Node AVLRight rl re rr \<Longrightarrow> gotOneShorter (Node AVLRight l e r) p tr AVLLeft =
     singleRotate (Node AVLRight l e r) AVLRight \<bind> (\<lambda>t. promote t p (tr\<lparr>singleRotations := singleRotations tr + 1\<rparr>))"
  "r = Node AVLLeft rl re rr \<Longrightarrow> gotOneShorter (Node AVLRight l e r) p tr AVLLeft =
     doubleRotate (Node AVLRight l e r) AVLRight \<bind> (\<lambda>t. promote t p (tr\<lparr>doubleRotations := doubleRotations tr + 1\<rparr>))"
  "r = Node AVLBalanced rl re rr \<Longrightarrow> gotOneShorter (Node AVLRight l e r) p tr AVLLeft =
     map_option (put_single tr p) (singleRotate (Node AVLRight l e r) AVLRight \<bind> reset_balances AVLRight AVLLeft)"
  by (simp_all add: promote_def map_conv_bind_option comp_def Let_def del: singleRotate.simps doubleRotate.simps)

lemma refit_rotated:
  assumes "refits p" and "balanced_as x h es" and "fits p (h + 1)"
  shows "yields (x \<bind> (\<lambda>t. promote t p (tr\<lparr>singleRotations := n\<rparr>))) tr (before p @ es @ after p)"
    and "yields (x \<bind> (\<lambda>t. promote t p (tr\<lparr>doubleRotations := n\<rparr>))) tr (before p @ es @ after p)"
proof -
  from assms(2) obtain t where t: "x = Some t" and b: "balanced_as (Some t) h es" by (auto simp: balanced_as_def)
  note y = refitsD [OF assms(1) b assms(3)]
  from y [of "tr\<lparr>singleRotations := n\<rparr>"] y [of "tr\<lparr>doubleRotations := n\<rparr>"]
  show "yields (x \<bind> (\<lambda>t. promote t p (tr\<lparr>singleRotations := n\<rparr>))) tr (before p @ es @ after p)"
    and "yields (x \<bind> (\<lambda>t. promote t p (tr\<lparr>doubleRotations := n\<rparr>))) tr (before p @ es @ after p)"
    by (simp_all add: t)
qed

lemma shorter_right:
  assumes p: "refits p" and a: "avl l" "avl r" and b: "bal_ok b (ht l) (ht r + 1)" and f: "fits p (max (ht l) (ht r + 1) + 1)"
  shows "yields (gotOneShorter (Node b l e r) p tr AVLRight) tr (before p @ inorder (Node b l e r) @ after p)"
proof (cases b)
  case AVLLeft
  with b f have h: "ht l = ht r + 2" and f3: "fits p (ht r + 3)" by (simp_all add: numeral_3_eq_3)
  then have f2: "fits p (ht r + 2 + 1)" by (simp add: numeral_3_eq_3)
  from h obtain lb ll le lr where l: "l = Node lb ll le lr" by (cases l) auto
  note rot = rotate_left_heavy [OF a h l]
  note y = refit_rotated [OF p rot(1) f2] refit_rotated [OF p rot(2) f2] yields_rotated(1) [OF rot(3) f3]
  have "lb \<noteq> AVLNew" using a l by auto
  then show ?thesis
    unfolding AVLLeft inorder.simps
    using y gotOneShorter_right(3-5) [of l ll le lr e r p tr] l by (cases lb) (simp_all only: simp_thms)
next
  case AVLBalanced
  with a b f show ?thesis by (simp add: gotOneShorter_right)
next
  case AVLRight
  with a b f refitsD [OF p, of "Node AVLBalanced l e r" "ht l + 1" "inorder (Node AVLBalanced l e r)"]
  show ?thesis by (simp add: gotOneShorter_right balanced_as_def del: gotOneShorter.simps)
qed (use b in simp)

lemma shorter_left:
  assumes p: "refits p" and a: "avl l" "avl r" and b: "bal_ok b (ht l + 1) (ht r)" and f: "fits p (max (ht l + 1) (ht r) + 1)"
  shows "yields (gotOneShorter (Node b l e r) p tr AVLLeft) tr (before p @ inorder (Node b l e r) @ after p)"
proof (cases b)
  case AVLRight
  with b f have h: "ht r = ht l + 2" and f3: "fits p (ht l + 3)" by (simp_all add: numeral_3_eq_3)
  then have f2: "fits p (ht l + 2 + 1)" by (simp add: numeral_3_eq_3)
  from h obtain rb rl re rr where r: "r = Node rb rl re rr" by (cases r) auto
  note rot = rotate_right_heavy [OF a h r]
  note y = refit_rotated [OF p rot(1) f2] refit_rotated [OF p rot(2) f2] yields_rotated(1) [OF rot(3) f3]
  have "rb \<noteq> AVLNew" using a r by auto
  then show ?thesis
    unfolding AVLRight inorder.simps
    using y gotOneShorter_left(3-5) [of r rl re rr l e p tr] r by (cases rb) (simp_all only: simp_thms)
next
  case AVLBalanced
  with a b f show ?thesis by (simp add: gotOneShorter_left)
next
  case AVLLeft
  with a b f refitsD [OF p, of "Node AVLBalanced l e r" "ht r + 1" "inorder (Node AVLBalanced l e r)"]
  show ?thesis by (simp add: gotOneShorter_left balanced_as_def del: gotOneShorter.simps)
qed (use b in simp)

lemma refits_any: "refits p"
proof (induction p)
  case Nil
  then show ?case by (simp add: refits_def promote_def)
next
  case (Cons q p)
  show ?case
  proof (cases q)
    case (LeftOf b e r)
    then show ?thesis
      using shorter_left [OF Cons, of _ r b e] by (simp add: refits_def promote_def del: gotOneShorter.simps)
  next
    case (RightOf b l e)
    then show ?thesis
      using shorter_right [OF Cons, of l _ b e] by (simp add: refits_def promote_def del: gotOneShorter.simps)
  qed
qed

lemma successor_append: "successor t (p @ p') = map_option (\<lambda>(s, sr, q). (s, sr, q @ p')) (successor t p)"
  by (induction t p rule: successor.induct) (simp_all del: append_Cons add: append_Cons [symmetric])

lemma successor_ok:
  assumes "t \<noteq> Null"
  shows "\<exists>s sr q. successor t p = Some (s, sr, q) \<and> before q = before p \<and> s # inorder sr @ after q = inorder t @ after p \<and>
           (avl t \<longrightarrow> fits p (ht t) \<longrightarrow> avl sr \<and> fits q (ht sr + 1)) \<and> (q = p \<or> (\<exists>b a r q'. q = LeftOf b a r # q'))"
  using assms
proof (induction t arbitrary: p)
  case (Node b l e r)
  show ?case
  proof (cases "l = Null")
    case False
    then show ?thesis using Node.IH(1) [of "LeftOf b e r # p"] by auto
  qed simp
qed simp

lemma leaf_of_height_1: "avl t \<Longrightarrow> ht t = 1 \<Longrightarrow> \<exists>x. t = Node AVLBalanced Null x Null"
proof (cases t)
  case (Node b l e r)
  assume "avl t" "ht t = 1"
  with Node show ?thesis by (cases b) auto
qed simp

lemma promote_ok: "avl t \<Longrightarrow> fits p (ht t + 1) \<Longrightarrow> yields (promote t p tr) tr (before p @ inorder t @ after p)"
  using refits_any [of p] by (simp add: refits_def)

lemma remove_inner:
  assumes a: "avl (Node b l e r)" and f: "fits path (ht (Node b l e r))" and n: "l \<noteq> Null" "r \<noteq> Null"
  shows "yields (remove_node (b, l, e, r, path) tr) (tr\<lparr>deletions := deletions tr + 1\<rparr>)
           (before path @ inorder l @ inorder r @ after path)"
proof -
  let ?tr = "tr\<lparr>deletions := deletions tr + 1\<rparr>"
  from successor_ok [OF n(2), of "[]"] obtain s sr q where
    q: "successor r [] = Some (s, sr, q)" and shape: "q = [] \<or> (\<exists>pb pe pr q'. q = LeftOf pb pe pr # q')" by auto
  let ?q = "q @ RightOf b l s # path"
  from q have "successor r (RightOf b l s # path) = Some (s, sr, ?q)"
    using successor_append [of r "[]" "RightOf b l s # path"] by simp
  with successor_ok [OF n(2), of "RightOf b l s # path"] a f have
    sq: "before ?q = before path @ inorder l @ [s]" "s # inorder sr @ after ?q = inorder r @ after path" "avl sr" "fits ?q (ht sr + 1)"
    by auto
  have "remove_node (b, l, e, r, path) tr = promote sr ?q ?tr"
    using a n q shape by (cases b) (auto simp: remove_node_def promote_def Let_def simp del: gotOneShorter.simps)
  moreover have "before path @ inorder l @ inorder r @ after path = before ?q @ inorder sr @ after ?q"
    using sq(1,2) by simp
  ultimately show ?thesis using promote_ok [OF sq(3,4), of ?tr] by simp
qed

lemma remove_node_ok:
  assumes a: "avl (Node b l e r)" and f: "fits path (ht (Node b l e r))"
  shows "yields (remove_node (b, l, e, r, path) tr) (tr\<lparr>deletions := deletions tr + 1\<rparr>)
           (before path @ inorder l @ inorder r @ after path)"
proof -
  let ?tr = "tr\<lparr>deletions := deletions tr + 1\<rparr>"
  consider "l = Null" | "l \<noteq> Null" "r = Null" | "l \<noteq> Null" "r \<noteq> Null" by blast
  then show ?thesis
  proof cases
    case 1
    then have "remove_node (b, l, e, r, path) tr = promote r path ?tr"
      using a leaf_of_height_1 [of r] by (cases b) (auto simp: remove_node_def)
    with 1 a f promote_ok [of r path ?tr] show ?thesis by simp
  next
    case 2
    then have "remove_node (b, l, e, r, path) tr = promote l path ?tr"
      using a leaf_of_height_1 [of l] by (cases b) (auto simp: remove_node_def)
    with 2 a f promote_ok [of l path ?tr] show ?thesis by simp
  next
    case 3
    with remove_inner [OF a f] show ?thesis by blast
  qed
qed

subsection \<open>Searches\<close>

lemma find_append: "find P (xs @ ys) = (case find P xs of None \<Rightarrow> find P ys | Some x \<Rightarrow> Some x)"
  by (induction xs) auto

lemma find_none: "\<forall>x\<in>set xs. \<not> P x \<Longrightarrow> find P xs = None"
  by (simp add: find_None_iff)

text \<open>In an ordered list the search for a bound looks at one side of every element only.\<close>

lemma find_sides:
  assumes "ordered getKey (xs @ e # ys)"
  shows "\<not> getKey e < k \<Longrightarrow> find (\<lambda>x. getKey x < k) (rev ys) = None"
    and "getKey e > k \<Longrightarrow> find (\<lambda>x. getKey x \<le> k) (rev ys) = None"
    and "getKey e = k \<Longrightarrow> find (\<lambda>x. getKey x \<le> k) (rev ys) = None"
    and "\<not> getKey e > k \<Longrightarrow> find (\<lambda>x. getKey x > k) xs = None"
    and "getKey e < k \<Longrightarrow> find (\<lambda>x. getKey x \<ge> k) xs = None"
    and "getKey e = k \<Longrightarrow> find (\<lambda>x. getKey x \<ge> k) xs = None"
proof -
  from assms have "\<forall>x\<in>set xs. getKey x < getKey e" "\<forall>y\<in>set (rev ys). getKey e < getKey y" by auto
  then show "\<not> getKey e < k \<Longrightarrow> find (\<lambda>x. getKey x < k) (rev ys) = None"
    and "getKey e > k \<Longrightarrow> find (\<lambda>x. getKey x \<le> k) (rev ys) = None"
    and "getKey e = k \<Longrightarrow> find (\<lambda>x. getKey x \<le> k) (rev ys) = None"
    and "\<not> getKey e > k \<Longrightarrow> find (\<lambda>x. getKey x > k) xs = None"
    and "getKey e < k \<Longrightarrow> find (\<lambda>x. getKey x \<ge> k) xs = None"
    and "getKey e = k \<Longrightarrow> find (\<lambda>x. getKey x \<ge> k) xs = None"
    by (intro find_none; fastforce)+
qed

lemma find_less: "ordered getKey (inorder t) \<Longrightarrow> findFirstLessThan getKey k t = find (\<lambda>x. getKey x < k) (rev (inorder t))"
proof (induction t)
  case (Node b l e r)
  from Node.prems have "ordered getKey (inorder l @ e # inorder r)" by simp
  from find_sides(1) [OF this, of k] Node show ?case by (auto simp: find_append split: option.splits)
qed simp

lemma find_greater: "ordered getKey (inorder t) \<Longrightarrow> findFirstGreaterThan getKey k t = find (\<lambda>x. getKey x > k) (inorder t)"
proof (induction t)
  case (Node b l e r)
  from Node.prems have "ordered getKey (inorder l @ e # inorder r)" by simp
  from find_sides(4) [OF this, of k] Node show ?case by (auto simp: find_append split: option.splits)
qed simp

lemma find_greater_equal:
  "ordered getKey (inorder t) \<Longrightarrow> findFirstGreaterThanOrEqualTo getKey k t = find (\<lambda>x. getKey x \<ge> k) (inorder t)"
proof (induction t)
  case (Node b l e r)
  from Node.prems have "ordered getKey (inorder l @ e # inorder r)" by simp
  from find_sides(5,6) [OF this, of k] Node show ?case by (auto simp: find_append split: option.splits)
qed simp

lemma findNode_element:
  "ordered getKey (inorder t) \<Longrightarrow>
     map_option (\<lambda>(b, l, e, r, q). e) (findNodeLessThanOrEqualTo getKey k t p) = find (\<lambda>x. getKey x \<le> k) (rev (inorder t))"
proof (induction t arbitrary: p)
  case (Node b l e r)
  from Node.prems have "ordered getKey (inorder l @ e # inorder r)" by simp
  from find_sides(2,3) [OF this, of k] Node.prems
    Node.IH(1) [of "LeftOf b e r # p"] Node.IH(2) [of "RightOf b l e # p"]
  show ?case by (auto simp: find_append split: option.splits)
qed simp

lemma findNode_place:
  "findNodeLessThanOrEqualTo getKey k t p = Some (b, l, e, r, q) \<Longrightarrow> plug q (Node b l e r) = plug p t"
  by (induction getKey k t p rule: findNodeLessThanOrEqualTo.induct) (auto split: if_splits option.splits)

lemma find_less_equal:
  "ordered getKey (inorder t) \<Longrightarrow> findFirstLessThanOrEqualTo getKey k t = find (\<lambda>x. getKey x \<le> k) (rev (inorder t))"
  by (simp add: findFirstLessThanOrEqualTo_def findNode_element)

end
