(* ===== verification/OrderedSet.thy ===== *)
theory OrderedSet
  imports AvlSet
begin

text \<open>
  The contract of the AVL tree as an ordered set, and the tree as an implementation of it. The
  interface \<open>ordered_set\<close> states what the clients of the tree rely on: insertion of a new key,
  removal and lookup, over the list of elements in the order of their keys.
\<close>

subsection \<open>The interface\<close>

text \<open>The operations a client calls, as a sequence of requests to the set.\<close>

datatype ('e, 'k) set_op = Insert 'e | Remove 'e | RemoveKey 'k

text \<open>The same requests to a map from keys to elements; None where the code asserts.\<close>

fun map_op :: "('e \<Rightarrow> 'k :: linorder) \<Rightarrow> ('k \<Rightarrow> 'e option) \<Rightarrow> ('e, 'k) set_op \<Rightarrow> ('k \<Rightarrow> 'e option) option" where
  "map_op getKey m (Insert e) = (if m (getKey e) = None then Some (m(getKey e := Some e)) else None)"
| "map_op getKey m (Remove e) = (if m (getKey e) = None then None else Some (m(getKey e := None)))"
| "map_op getKey m (RemoveKey k) = Some (m(k := None))"

fun set_step ::
    "('s \<Rightarrow> 'e \<Rightarrow> 's option) \<Rightarrow> ('s \<Rightarrow> 'e \<Rightarrow> 's option) \<Rightarrow> ('s \<Rightarrow> 'k \<Rightarrow> ('s \<times> 'e option) option) \<Rightarrow> 's \<Rightarrow> ('e, 'k) set_op \<Rightarrow> 's option" where
  "set_step ins rem rem_key s (Insert e) = ins s e"
| "set_step ins rem rem_key s (Remove e) = rem s e"
| "set_step ins rem rem_key s (RemoveKey k) = map_option fst (rem_key s k)"

fun run_ops :: "('s \<Rightarrow> 'o \<Rightarrow> 's option) \<Rightarrow> 's \<Rightarrow> 'o list \<Rightarrow> 's option" where
  "run_ops f s [] = Some s"
| "run_ops f s (x # xs) = f s x \<bind> (\<lambda>s'. run_ops f s' xs)"

definition contents :: "('e \<Rightarrow> 'k :: linorder) \<Rightarrow> 'e list \<Rightarrow> 'k \<Rightarrow> 'e option" where
  "contents getKey es k = find (\<lambda>x. getKey x = k) es"

lemma contents_iff:
  assumes "ordered getKey es"
  shows "contents getKey es k = Some e \<longleftrightarrow> e \<in> set es \<and> getKey e = k"
  using assms by (induction es) (auto simp: contents_def)

lemma contents_None: "contents getKey es k = None \<longleftrightarrow> (\<forall>e\<in>set es. getKey e \<noteq> k)"
  by (auto simp: contents_def find_None_iff)

lemma ordered_put_in: "ordered getKey es \<Longrightarrow> ordered getKey (put_in getKey e es)"
  by (auto simp: put_in_def ordered_below_beyond)

lemma ordered_take_out: "ordered getKey es \<Longrightarrow> ordered getKey (take_out getKey k es)"
  by (auto simp: take_out_def ordered_below_beyond)

lemma option_ext: "(\<And>v. x = Some v \<longleftrightarrow> y = Some v) \<Longrightarrow> x = y"
  by (cases x; cases y) auto

lemma contents_put_in:
  assumes "ordered getKey es"
  shows "contents getKey (put_in getKey e es) = (contents getKey es)(getKey e := Some e)"
  using contents_iff [OF assms] contents_iff [OF ordered_put_in [OF assms], of e]
  by (intro ext option_ext) (auto simp: put_in_def)

lemma contents_take_out:
  assumes "ordered getKey es"
  shows "contents getKey (take_out getKey k es) = (contents getKey es)(k := None)"
  using contents_iff [OF assms] contents_iff [OF ordered_take_out [OF assms], of k]
  by (intro ext option_ext) (auto simp: take_out_def)

locale ordered_set =
  fixes getKey :: "'e \<Rightarrow> 'k :: linorder"
    and ok :: "'s \<Rightarrow> bool"
    and elements :: "'s \<Rightarrow> 'e list"
    and insert_element :: "'s \<Rightarrow> 'e \<Rightarrow> 's option"
    and remove_element :: "'s \<Rightarrow> 'e \<Rightarrow> 's option"
    and remove_key :: "'s \<Rightarrow> 'k \<Rightarrow> ('s \<times> 'e option) option"
  assumes in_order: "ok s \<Longrightarrow> ordered getKey (elements s)"
    and insert_new: "ok s \<Longrightarrow> contents getKey (elements s) (getKey e) = None \<Longrightarrow>
      \<exists>s'. insert_element s e = Some s' \<and> ok s' \<and> elements s' = put_in getKey e (elements s)"
    and insert_present: "ok s \<Longrightarrow> contents getKey (elements s) (getKey e) \<noteq> None \<Longrightarrow> insert_element s e = None"
    and remove_present: "ok s \<Longrightarrow> contents getKey (elements s) (getKey e) \<noteq> None \<Longrightarrow>
      \<exists>s'. remove_element s e = Some s' \<and> ok s' \<and> elements s' = take_out getKey (getKey e) (elements s)"
    and remove_absent: "ok s \<Longrightarrow> contents getKey (elements s) (getKey e) = None \<Longrightarrow> remove_element s e = None"
    and remove_by_key: "ok s \<Longrightarrow>
      \<exists>s'. remove_key s k = Some (s', contents getKey (elements s) k) \<and> ok s' \<and> elements s' = take_out getKey k (elements s)"
begin

abbreviation "op_step \<equiv> set_step insert_element remove_element remove_key"

lemma step_refines:
  assumes "ok s"
  shows "map_op getKey (contents getKey (elements s)) x = map_option (\<lambda>s'. contents getKey (elements s')) (op_step s x) \<and>
           (\<forall>s'. op_step s x = Some s' \<longrightarrow> ok s')"
proof (cases x)
  case (Insert e)
  then show ?thesis
    using insert_new [OF assms, of e] insert_present [OF assms, of e] in_order [OF assms]
    by (cases "contents getKey (elements s) (getKey e) = None") (auto simp: contents_put_in)
next
  case (Remove e)
  then show ?thesis
    using remove_present [OF assms, of e] remove_absent [OF assms, of e] in_order [OF assms]
    by (cases "contents getKey (elements s) (getKey e) = None") (auto simp: contents_take_out)
next
  case (RemoveKey k)
  then show ?thesis
    using remove_by_key [OF assms, of k] in_order [OF assms] by (auto simp: contents_take_out)
qed

lemma run_refines:
  "ok s \<Longrightarrow> run_ops (map_op getKey) (contents getKey (elements s)) xs =
     map_option (\<lambda>s'. contents getKey (elements s')) (run_ops op_step s xs) \<and>
     (\<forall>s'. run_ops op_step s xs = Some s' \<longrightarrow> ok s')"
proof (induction xs arbitrary: s)
  case (Cons x xs)
  then show ?case using step_refines [OF Cons.prems, of x] by (cases "op_step s x") auto
qed simp

end

subsection \<open>The tree implements it\<close>

lemma insertion_aborts:
  "ordered getKey (inorder t) \<Longrightarrow> \<exists>x\<in>set (inorder t). getKey x = k \<Longrightarrow> insertion_path getKey k t p = None"
proof (induction t arbitrary: p)
  case (Node b l e r)
  then show ?case by (cases "getKey e < k"; cases "k < getKey e") (auto dest: bspec)
qed simp

lemma yields_ok:
  assumes "yields x (tr\<lparr>insertions := i, deletions := d\<rparr>) es" and "ordered getKey es" and "i - d = of_nat (length es)"
  shows "\<exists>tr'. x = Some tr' \<and> tree_ok getKey tr' \<and> inorder (root tr') = es"
  using assms by (auto simp: yields_def tree_ok_def)

lemma length_put_in:
  assumes "ordered getKey es" and "\<forall>x\<in>set es. getKey x \<noteq> getKey e"
  shows "length (put_in getKey e es) = length es + 1"
  using assms by (induction es) (auto simp: put_in_def below_beyond_all)

lemma length_take_out:
  assumes "ordered getKey es" and "x \<in> set es" and "getKey x = k"
  shows "length (take_out getKey k es) + 1 = length es"
  using assms
proof (induction es)
  case (Cons y es)
  show ?case
  proof (cases "getKey y = k")
    case True
    with Cons.prems have "\<forall>z\<in>set es. k < getKey z" by auto
    with True show ?thesis by (simp add: take_out_def below_beyond_all)
  next
    case False
    with Cons show ?thesis by (auto simp: take_out_def)
  qed
qed simp

lemma AVLTree_insert_new:
  assumes "tree_ok getKey tr" and "contents getKey (inorder (root tr)) (getKey e) = None"
  shows "\<exists>tr'. AVLTree_insert getKey tr e = Some tr' \<and> tree_ok getKey tr' \<and> inorder (root tr') = put_in getKey e (inorder (root tr))"
proof -
  from assms have o: "ordered getKey (inorder (root tr))" and n: "\<forall>x\<in>set (inorder (root tr)). getKey x \<noteq> getKey e"
    by (auto simp: tree_ok_def contents_None)
  have "yields (AVLTree_insert getKey tr e) (tr\<lparr>insertions := insertions tr + 1, deletions := deletions tr\<rparr>) (put_in getKey e (inorder (root tr)))"
    using insert_yields [OF assms(1) n] by simp
  then show ?thesis
    by (rule yields_ok) (use o assms(1) in \<open>simp_all add: ordered_put_in length_put_in [OF o n] tree_ok_def algebra_simps\<close>)
qed

lemma AVLTree_insert_present:
  assumes "tree_ok getKey tr" and "contents getKey (inorder (root tr)) (getKey e) \<noteq> None"
  shows "AVLTree_insert getKey tr e = None"
  using assms insertion_aborts [of getKey "root tr" "getKey e" "[]"]
  by (auto simp: AVLTree_insert_def tree_ok_def contents_None Let_def)

text \<open>The node found carries the key exactly when the key is in the tree.\<close>

lemma find_rev_greatest:
  "ordered getKey xs \<Longrightarrow> find P (rev xs) = Some e \<Longrightarrow> e \<in> set xs \<and> P e \<and> (\<forall>x\<in>set xs. P x \<longrightarrow> getKey x \<le> getKey e)"
  by (induction xs rule: rev_induct) (auto split: if_splits)

lemma greatest_contents:
  assumes o: "ordered getKey xs" and f: "find (\<lambda>x. getKey x \<le> k) (rev xs) = found"
  shows "contents getKey xs k = (case found of None \<Rightarrow> None | Some e \<Rightarrow> if getKey e = k then Some e else None)"
proof (cases found)
  case None
  with f show ?thesis by (auto simp: contents_None find_None_iff)
next
  case (Some e)
  with find_rev_greatest [OF o] f have e: "e \<in> set xs" "getKey e \<le> k" "\<forall>x\<in>set xs. getKey x \<le> k \<longrightarrow> getKey x \<le> getKey e" by blast+
  then show ?thesis using Some by (cases "getKey e = k") (auto simp: contents_iff [OF o] contents_None)
qed

lemma findNode_key:
  assumes "tree_ok getKey tr"
  shows "contents getKey (inorder (root tr)) k =
           (case findNodeLessThanOrEqualTo getKey k (root tr) [] of
              None \<Rightarrow> None | Some (b, l, e, r, q) \<Rightarrow> if getKey e = k then Some e else None)"
proof -
  from assms have "ordered getKey (inorder (root tr))" by (simp add: tree_ok_def)
  from greatest_contents [OF this findNode_element [OF this, of k "[]", symmetric]] show ?thesis
    by (cases "findNodeLessThanOrEqualTo getKey k (root tr) []") auto
qed

lemma remove_node_found:
  assumes ok: "tree_ok getKey tr" and pl: "plug q (Node b l e r) = root tr"
  shows "\<exists>tr'. remove_node (b, l, e, r, q) tr = Some tr' \<and> tree_ok getKey tr' \<and>
           inorder (root tr') = take_out getKey (getKey e) (inorder (root tr))"
proof -
  from pl have es: "inorder (root tr) = before q @ inorder l @ e # inorder r @ after q"
    by (metis append_Cons append_assoc inorder.simps(2) inorder_plug)
  with ok have o: "ordered getKey (before q @ inorder l @ e # inorder r @ after q)" by (simp add: tree_ok_def)
  from o have b: "\<forall>x\<in>set (before q @ inorder l). getKey x < getKey e" and a: "\<forall>x\<in>set (inorder r @ after q). getKey e < getKey x" by auto
  from below_beyond_all(1) [OF b] below_beyond_all(2) [OF a]
  have t: "take_out getKey (getKey e) (inorder (root tr)) = before q @ inorder l @ inorder r @ after q"
    by (simp add: take_out_def es)
  from ok pl have "avl (plug q (Node b l e r))" by (simp add: tree_ok_def)
  then have a: "avl (Node b l e r)" and f: "fits q (ht (Node b l e r))" unfolding avl_plug by blast+
  from remove_node_ok [OF a f, of tr]
  have "yields (remove_node (b, l, e, r, q) tr) (tr\<lparr>insertions := insertions tr, deletions := deletions tr + 1\<rparr>)
     (take_out getKey (getKey e) (inorder (root tr)))" by (simp add: t)
  then show ?thesis
  proof (rule yields_ok)
    show "ordered getKey (take_out getKey (getKey e) (inorder (root tr)))" using ok by (simp add: tree_ok_def ordered_take_out)
    have "length (take_out getKey (getKey e) (inorder (root tr))) + 1 = length (inorder (root tr))"
      using ok es by (intro length_take_out) (auto simp: tree_ok_def)
    with ok show "insertions tr - (deletions tr + 1) = of_nat (length (take_out getKey (getKey e) (inorder (root tr))))"
      by (simp add: tree_ok_def algebra_simps flip: of_nat_Suc)
  qed
qed

lemma remove_found:
  assumes ok: "tree_ok getKey tr" and f: "findNodeLessThanOrEqualTo getKey k (root tr) [] = Some (b, l, e, r, q)" and "getKey e = k"
  shows "\<exists>tr'. remove_node (b, l, e, r, q) tr = Some tr' \<and> tree_ok getKey tr' \<and> inorder (root tr') = take_out getKey k (inorder (root tr))"
  using remove_node_found [OF ok] findNode_place [OF f] assms(3) by fastforce

lemma take_out_absent: "ordered getKey es \<Longrightarrow> contents getKey es k = None \<Longrightarrow> take_out getKey k es = es"
  unfolding contents_None take_out_def
proof (induction es)
  case (Cons y es)
  then have "getKey y > k \<Longrightarrow> \<forall>z\<in>set es. k < getKey z" by auto
  with Cons show ?case by (cases "getKey y < k") (auto simp: below_beyond_all)
qed simp

interpretation avl_set: ordered_set getKey "tree_ok getKey" "\<lambda>tr. inorder (root tr)"
    "AVLTree_insert getKey" "AVLTree_remove getKey" "AVLTree_remove_key getKey"
  for getKey :: "'e \<Rightarrow> 'k :: linorder"
proof unfold_locales
  fix tr :: "'e AVLTree" and e and k
  assume ok: "tree_ok getKey tr"
  show "ordered getKey (inorder (root tr))" using ok by (simp add: tree_ok_def)
  show "contents getKey (inorder (root tr)) (getKey e) \<noteq> None \<Longrightarrow>
      \<exists>s'. AVLTree_remove getKey tr e = Some s' \<and> tree_ok getKey s' \<and> inorder (root s') = take_out getKey (getKey e) (inorder (root tr))"
    using findNode_key [OF ok, of "getKey e"] remove_found [OF ok, of "getKey e"]
    by (auto simp: AVLTree_remove_def dest: findNode_place split: option.splits if_splits)
  show "contents getKey (inorder (root tr)) (getKey e) = None \<Longrightarrow> AVLTree_remove getKey tr e = None"
    using findNode_key [OF ok, of "getKey e"]
    by (auto simp: AVLTree_remove_def split: option.splits if_splits)
  show "\<exists>s'. AVLTree_remove_key getKey tr k = Some (s', contents getKey (inorder (root tr)) k) \<and> tree_ok getKey s' \<and>
      inorder (root s') = take_out getKey k (inorder (root tr))"
    using ok findNode_key [OF ok, of k] remove_found [OF ok, of k] take_out_absent [of getKey _ k]
    by (auto simp: AVLTree_remove_key_def tree_ok_def dest: findNode_place split: option.splits if_splits)
qed (simp_all add: AVLTree_insert_new AVLTree_insert_present)

subsection \<open>Trees reached by sequences of operations\<close>

definition avl_step :: "('e \<Rightarrow> 'k :: linorder) \<Rightarrow> 'e AVLTree \<Rightarrow> ('e, 'k) set_op \<Rightarrow> 'e AVLTree option" where
  "avl_step getKey = set_step (AVLTree_insert getKey) (AVLTree_remove getKey) (AVLTree_remove_key getKey)"

definition avl_after :: "('e \<Rightarrow> 'k :: linorder) \<Rightarrow> ('e, 'k) set_op list \<Rightarrow> 'e AVLTree option" where
  "avl_after getKey xs = run_ops (avl_step getKey) AVLTree_new xs"

lemma new_ok [simp]: "tree_ok getKey AVLTree_new" "inorder (root AVLTree_new) = []"
  by (simp_all add: tree_ok_def AVLTree_new_def)

lemma avl_after_ok: "avl_after getKey xs = Some tr \<Longrightarrow> tree_ok getKey tr"
  using avl_set.run_refines [of getKey AVLTree_new xs] by (auto simp: avl_after_def avl_step_def)

lemma tree_searches [simp]:
  "AVLTree_findFirstLessThan getKey tr k = findFirstLessThan getKey k (root tr)"
  "AVLTree_findFirstLessThanOrEqualTo getKey tr k = findFirstLessThanOrEqualTo getKey k (root tr)"
  "AVLTree_findFirstGreaterThan getKey tr k = findFirstGreaterThan getKey k (root tr)"
  "AVLTree_findFirstGreaterThanOrEqualTo getKey tr k = findFirstGreaterThanOrEqualTo getKey k (root tr)"
  by (auto simp: AVLTree_findFirstLessThan_def AVLTree_findFirstLessThanOrEqualTo_def findFirstLessThanOrEqualTo_def
      AVLTree_findFirstGreaterThan_def AVLTree_findFirstGreaterThanOrEqualTo_def)

lemma lookup_contents:
  assumes "tree_ok getKey tr"
  shows "AVLTree_lookup getKey tr k = contents getKey (inorder (root tr)) k"
  using findNode_key [OF assms, of k]
  by (auto simp: AVLTree_lookup_def findFirstLessThanOrEqualTo_def split: option.splits)

text \<open>The smallest and the greatest element.\<close>

lemma leftmost_ok: "ordered getKey (inorder t) \<Longrightarrow> leftmost_from getKey t = Some (if t = Null then None else Some (hd (inorder t)))"
  by (induction getKey t rule: leftmost_from.induct) (auto simp: hd_append)

lemma rightmost_ok: "ordered getKey (inorder t) \<Longrightarrow> rightmost_from getKey t = Some (if t = Null then None else Some (last (inorder t)))"
  by (induction getKey t rule: rightmost_from.induct) (auto simp: last_append)

lemma following_element:
  assumes "ordered getKey (inorder (root tr))" and es: "inorder (root tr) = xs @ e # ys"
  shows "findFirstGreaterThan getKey (getKey e) (root tr) = (case ys of [] \<Rightarrow> None | y # _ \<Rightarrow> Some y)"
proof -
  from assms have "find (\<lambda>x. getKey x > getKey e) xs = None" by (intro find_none) auto
  with assms show ?thesis by (cases ys) (simp_all add: find_greater find_append)
qed

lemma foreach_from_ok:
  "ordered getKey (inorder (root tr)) \<Longrightarrow> inorder (root tr) = xs @ e # ys \<Longrightarrow> foreach_from getKey tr (Some e) = Some (e # ys)"
proof (induction ys arbitrary: xs e)
  case Nil
  from following_element [OF Nil.prems] show ?case
    by (simp add: foreach_from.simps [of _ _ "Some _"] foreach_from.simps [of _ _ None])
next
  case (Cons y ys)
  from following_element [OF Cons.prems] Cons.IH [of "xs @ [e]" y] Cons.prems show ?case
    by (simp add: foreach_from.simps [of _ _ "Some e"])
qed

lemma foreach_ok: "ordered getKey (inorder (root tr)) \<Longrightarrow> foreach_visits getKey tr = Some (inorder (root tr))"
  using foreach_from_ok [of getKey tr "[]" "hd (inorder (root tr))" "tl (inorder (root tr))"]
  by (cases "root tr = Null") (auto simp: foreach_visits_def findMin_def leftmost_ok foreach_from.simps [of _ _ None])

lemma firstthat_from_ok:
  "ordered getKey (inorder (root tr)) \<Longrightarrow> inorder (root tr) = xs @ e # ys \<Longrightarrow>
     firstthat_from getKey func tr (Some e) = Some (find func (e # ys))"
proof (induction ys arbitrary: xs e)
  case Nil
  from following_element [OF Nil.prems] show ?case
    by (simp add: firstthat_from.simps [of _ _ _ "Some _"] firstthat_from.simps [of _ _ _ None])
next
  case (Cons y ys)
  from following_element [OF Cons.prems] Cons.IH [of "xs @ [e]" y] Cons.prems show ?case
    by (simp add: firstthat_from.simps [of _ _ _ "Some e"])
qed

lemma firstthat_ok: "ordered getKey (inorder (root tr)) \<Longrightarrow> firstthat getKey func tr = Some (find func (inorder (root tr)))"
  using firstthat_from_ok [of getKey tr "[]" "hd (inorder (root tr))" "tl (inorder (root tr))" func]
  by (cases "root tr = Null"; cases "inorder (root tr)")
    (auto simp: firstthat_def findMin_def leftmost_ok firstthat_from.simps [of _ _ _ None])

lemma check_depth_ok:
  "avl t \<Longrightarrow> ordered getKey (inorder t) \<Longrightarrow> checkAndReturnDepth getKey t = Some (ht t, length (inorder t))"
proof (induction t)
  case (Node b l e r)
  then show ?case by (cases b) (auto split: node.splits)
qed simp

lemma check_order_ok: "ordered getKey (inorder t) \<Longrightarrow> check_order getKey t"
  by (induction t) (auto split: node.splits)

lemma check_ok: "tree_ok getKey tr \<Longrightarrow> AVLTree_check getKey tr = Some ()"
  by (simp add: AVLTree_check_def tree_ok_def check_depth_ok check_order_ok)

lemma avl_height: "avl t \<Longrightarrow> 2 ^ (ht t div 2) \<le> length (inorder t) + 1"
proof (induction t)
  case (Node b l e r)
  let ?m = "min (ht l) (ht r)"
  from Node.prems have m: "ht (Node b l e r) div 2 \<le> ?m div 2 + 1" by (cases b) auto
  have "(2::nat) ^ (ht (Node b l e r) div 2) \<le> 2 ^ (?m div 2 + 1)" by (rule power_increasing [OF m]) simp
  also have "\<dots> \<le> 2 ^ (ht l div 2) + 2 ^ (ht r div 2)"
    by (simp add: min_def add_mono power_increasing div_le_mono)
  also have "\<dots> \<le> length (inorder (Node b l e r)) + 1" using Node by simp
  finally show ?case .
qed simp

subsection \<open>The counters\<close>

text \<open>The counters while fewer than \<open>2^32\<close> elements were ever inserted.\<close>

definition counted :: "nat \<Rightarrow> 'e AVLTree \<Rightarrow> bool" where
  "counted n tr \<longleftrightarrow> unat (insertions tr) \<le> n \<and> unat (insertions tr) = unat (deletions tr) + length (inorder (root tr))"

lemma insert_counters:
  assumes "tree_ok getKey tr" and "AVLTree_insert getKey tr e = Some tr'"
  shows "insertions tr' = insertions tr + 1 \<and> deletions tr' = deletions tr \<and> length (inorder (root tr')) = length (inorder (root tr)) + 1"
proof -
  have n: "\<forall>x\<in>set (inorder (root tr)). getKey x \<noteq> getKey e"
    using assms AVLTree_insert_present [of getKey tr e] by (auto simp: contents_None)
  from insert_yields [OF assms(1) n] assms length_put_in [OF _ n] show ?thesis by (auto simp: yields_def tree_ok_def)
qed

lemma remove_counters:
  assumes ok: "tree_ok getKey tr" and f: "findNodeLessThanOrEqualTo getKey k (root tr) [] = Some (b, l, e, r, q)"
    and rm: "remove_node (b, l, e, r, q) tr = Some tr'"
  shows "insertions tr' = insertions tr \<and> deletions tr' = deletions tr + 1 \<and> length (inorder (root tr)) = length (inorder (root tr')) + 1"
proof -
  have pl: "plug q (Node b l e r) = root tr" using findNode_place [OF f] by simp
  with ok have "avl (plug q (Node b l e r))" by (simp add: tree_ok_def)
  then have a: "avl (Node b l e r)" and ft: "fits q (ht (Node b l e r))" unfolding avl_plug by blast+
  from remove_node_ok [OF a ft, of tr] rm inorder_plug [of q "Node b l e r"] show ?thesis unfolding pl by (auto simp: yields_def)
qed

lemma step_counted:
  assumes ok: "tree_ok getKey tr" and st: "avl_step getKey tr x = Some tr'" and c: "counted n tr" and n: "Suc n < 2 ^ 32"
  shows "counted (Suc n) tr'"
proof -
  have removed: "counted (Suc n) tr'" if "insertions tr' = insertions tr" "deletions tr' = deletions tr + 1"
      "length (inorder (root tr)) = length (inorder (root tr')) + 1"
  proof -
    have "unat (deletions tr + 1) = unat (deletions tr) + 1"
      using that c n by (auto simp: counted_def unat_word_ariths)
    with that c show ?thesis by (simp add: counted_def)
  qed
  show ?thesis
  proof (cases x)
    case (Insert e)
    with st have "AVLTree_insert getKey tr e = Some tr'" by (simp add: avl_step_def)
    from insert_counters [OF ok this] c n show ?thesis
      by (auto simp: counted_def unat_word_ariths)
  next
    case (Remove e)
    with st ok removed show ?thesis by (auto simp: avl_step_def AVLTree_remove_def dest!: remove_counters split: bind_splits if_splits)
  next
    case (RemoveKey k)
    with st ok removed c show ?thesis
      by (auto simp: avl_step_def AVLTree_remove_key_def counted_def dest!: remove_counters split: option.splits if_splits)
  qed
qed

lemma run_ops_snoc: "run_ops f s (xs @ [x]) = run_ops f s xs \<bind> (\<lambda>s'. f s' x)"
  by (induction f s xs rule: run_ops.induct) (auto split: bind_splits)

lemma avl_after_counted:
  "avl_after getKey xs = Some tr \<Longrightarrow> length xs < 2 ^ 32 \<Longrightarrow> counted (length xs) tr"
proof (induction xs arbitrary: tr rule: rev_induct)
  case Nil
  then show ?case by (auto simp: avl_after_def counted_def AVLTree_new_def)
next
  case (snoc x xs)
  from snoc.prems(1) obtain tr0 where tr0: "avl_after getKey xs = Some tr0" "avl_step getKey tr0 x = Some tr"
    by (auto simp: avl_after_def run_ops_snoc bind_eq_Some_conv)
  with snoc step_counted [OF avl_after_ok [OF tr0(1)] tr0(2), of "length xs"] show ?case by simp
qed

lemma counted_size:
  assumes "counted n tr"
  shows "AVLTree_size tr = Some (of_nat (length (inorder (root tr))))" and "AVLTree_empty tr = Some (root tr = Null)"
proof -
  from assms have u: "unat (insertions tr) = unat (deletions tr) + length (inorder (root tr))" by (simp add: counted_def)
  then have le: "deletions tr \<le> insertions tr" by (simp add: word_nat)
  from u have e: "(root tr = Null) = (insertions tr = deletions tr)" by (simp add: word_unat_eq_iff flip: inorder_Nil length_0_conv)
  from u le have d: "unat (insertions tr - deletions tr) = length (inorder (root tr))" by (simp add: unat_sub)
  have "insertions tr - deletions tr = of_nat (length (inorder (root tr)))" unfolding d [symmetric] by simp
  with le e show "AVLTree_size tr = Some (of_nat (length (inorder (root tr))))" and "AVLTree_empty tr = Some (root tr = Null)"
    by (simp_all add: AVLTree_size_def AVLTree_empty_def)
qed

subsection \<open>Properties\<close>

text \<open>C39. The tree is a map from keys to elements. Whatever sequence of insertions and
  removals is run on a new tree, it aborts exactly when a map would refuse one of them (an
  insertion of a key that is there, a removal of an element that is not), and otherwise the
  final tree looks every key up as the map does: no rotation loses, duplicates or
  misplaces an element, and no other assertion of the code fails on the way.
\<close>

theorem avl_refines_map:
  "map_option (AVLTree_lookup getKey) (avl_after getKey xs) = run_ops (map_op getKey) (\<lambda>_. None) xs"
proof -
  have "contents getKey [] = (\<lambda>_. None)" by (simp add: fun_eq_iff contents_def)
  with avl_set.run_refines [of getKey AVLTree_new xs, OF new_ok(1)] show ?thesis
    by (cases "avl_after getKey xs") (auto simp: avl_after_def avl_step_def fun_eq_iff lookup_contents)
qed

text \<open>After any such sequence of fewer than \<open>2^32\<close> operations the tree passes its own consistency
  check, its counters give its size, \<open>findMin\<close> and \<open>findMax\<close> run without a failed assertion, and
  \<open>foreach\<close> ends after having visited every element once, in the order of the keys.
\<close>

theorem avl_consistent:
  assumes "avl_after getKey xs = Some tr" and "length xs < 2 ^ 32"
  shows "AVLTree_check getKey tr = Some () \<and>
         AVLTree_size tr = Some (of_nat (length (inorder (root tr)))) \<and>
         AVLTree_empty tr = Some (root tr = Null) \<and>
         (\<exists>a. findMin getKey tr = Some a) \<and> (\<exists>a. findMax getKey tr = Some a) \<and>
         foreach_visits getKey tr = Some (inorder (root tr)) \<and> sorted_wrt (<) (map getKey (inorder (root tr)))"
proof -
  from assms(1) have ok: "tree_ok getKey tr" by (rule avl_after_ok)
  then have o: "ordered getKey (inorder (root tr))" by (simp add: tree_ok_def)
  with ok counted_size [OF avl_after_counted [OF assms]] show ?thesis
    by (simp add: check_ok foreach_ok findMin_def findMax_def leftmost_ok rightmost_ok flip: ordered_def)
qed

text \<open>A run with rotations of every kind, and the tree it ends with.\<close>

definition sample_ops :: "(nat, nat) set_op list" where
  "sample_ops = [Insert 50, Insert 60, Insert 70, Insert 20, Insert 10, Insert 40, Insert 30, Insert 80, RemoveKey 50, Remove 70, RemoveKey 5]"

definition sample_avl :: "nat AVLTree" where
  "sample_avl = \<lparr>root = Node AVLBalanced
       (Node AVLBalanced (Node AVLBalanced Null 10 Null) 20 (Node AVLBalanced Null 30 Null)) 40
       (Node AVLRight Null 60 (Node AVLBalanced Null 80 Null)),
     insertions = 8, deletions = 2, singleRotations = 3, doubleRotations = 2\<rparr>"

lemma sample_run: "avl_after (\<lambda>x. x) sample_ops = Some sample_avl"
  by code_simp

theorem avl_consistent_witness:
  "avl_after (\<lambda>x. x) sample_ops = Some sample_avl \<and> length sample_ops < 2 ^ 32 \<and>
   AVLTree_check (\<lambda>x. x) sample_avl = Some () \<and> foreach_visits (\<lambda>x. x) sample_avl = Some [10, 20, 30, 40, 60, 80]"
  using avl_consistent [OF sample_run] sample_run by (simp add: sample_ops_def sample_avl_def)

text \<open>The searches find the neighbours of a key: the greatest element below it, or not above it, and
  the least element above it, or not below it; \<open>firstthat\<close> ends with the first element in order that its callback accepts.
\<close>

theorem avl_searches:
  assumes "avl_after getKey xs = Some tr"
  shows "AVLTree_findFirstLessThan getKey tr k = find (\<lambda>x. getKey x < k) (rev (inorder (root tr))) \<and>
         AVLTree_findFirstLessThanOrEqualTo getKey tr k = find (\<lambda>x. getKey x \<le> k) (rev (inorder (root tr))) \<and>
         AVLTree_findFirstGreaterThan getKey tr k = find (\<lambda>x. getKey x > k) (inorder (root tr)) \<and>
         AVLTree_findFirstGreaterThanOrEqualTo getKey tr k = find (\<lambda>x. getKey x \<ge> k) (inorder (root tr)) \<and>
         firstthat getKey func tr = Some (find func (inorder (root tr))) \<and>
         ordered getKey (inorder (root tr))"
  using avl_after_ok [OF assms]
  by (simp add: tree_ok_def find_less find_less_equal find_greater find_greater_equal firstthat_ok)

theorem avl_searches_witness:
  "avl_after (\<lambda>x. x) sample_ops = Some sample_avl \<and> AVLTree_findFirstLessThan (\<lambda>x. x) sample_avl 40 = Some 30 \<and>
   AVLTree_findFirstGreaterThanOrEqualTo (\<lambda>x. x) sample_avl 41 = Some 60 \<and> firstthat (\<lambda>x. x) (\<lambda>x. x mod 3 = 0) sample_avl = Some (Some 30)"
  using avl_searches [OF sample_run, of 40 "\<lambda>x. x mod 3 = 0"] avl_searches [OF sample_run, of 41 "\<lambda>x. True"] sample_run
  by (simp add: sample_avl_def)

text \<open>The tree stays shallow: a tree of height \<open>h\<close> has at least \<open>2^(h div 2) - 1\<close> elements, so that a
  search visits at most about \<open>2 * log2 n\<close> nodes.
\<close>

theorem avl_shallow:
  assumes "avl_after getKey xs = Some tr"
  shows "2 ^ (ht (root tr) div 2) \<le> length (inorder (root tr)) + 1"
  using avl_height [of "root tr"] avl_after_ok [OF assms] by (simp add: tree_ok_def)

theorem avl_shallow_witness:
  "avl_after (\<lambda>x. x) sample_ops = Some sample_avl \<and> 2 ^ (ht (root sample_avl) div 2) \<le> (7 :: nat)"
  using avl_shallow [OF sample_run] sample_run by (simp add: sample_avl_def)

text \<open>The insertion counter wraps: the \<open>2^32\<close>-th insertion into a tree from which some element was once removed
  succeeds, but from then on \<open>size\<close> fails its assertion although the tree is sound.
\<close>

theorem avl_size_wraps:
  assumes "tree_ok getKey tr" and "insertions tr = 4294967295" and "deletions tr \<noteq> 0"
    and "AVLTree_lookup getKey tr (getKey e) = None"
  shows "\<exists>tr'. AVLTree_insert getKey tr e = Some tr' \<and> AVLTree_check getKey tr' = Some () \<and> AVLTree_size tr' = None"
proof -
  from assms AVLTree_insert_new [of getKey tr e] obtain tr' where
    i: "AVLTree_insert getKey tr e = Some tr'" and ok: "tree_ok getKey tr'" by (auto simp: lookup_contents)
  from insert_counters [OF assms(1) i] assms have "insertions tr' = 0" "deletions tr' \<noteq> 0" by simp_all
  then have "AVLTree_size tr' = None" by (simp add: AVLTree_size_def)
  with i ok show ?thesis by (blast intro: check_ok)
qed

theorem avl_size_wraps_witness:
  "\<exists>tr'. AVLTree_insert (\<lambda>x :: nat. x)
     \<lparr>root = Node AVLBalanced Null 1 Null, insertions = 4294967295, deletions = 4294967294, singleRotations = 0, doubleRotations = 0\<rparr> 2 = Some tr' \<and>
     AVLTree_size tr' = None"
  using avl_size_wraps [of "\<lambda>x :: nat. x"
     "\<lparr>root = Node AVLBalanced Null 1 Null, insertions = 4294967295, deletions = 4294967294, singleRotations = 0, doubleRotations = 0\<rparr>" 2]
  by (auto simp: tree_ok_def AVLTree_lookup_def findFirstLessThanOrEqualTo_def)

end
