(* ===== verification/Samples.thy ===== *)
theory Samples
  imports CachedFile
begin

text \<open>
  Small files on which the theorems are exercised: every node of the tree has the hash 1, and the states
  of the nodes are given. All blocks of such a file are one block of the cache.
\<close>

definition test_file :: "nat \<Rightarrow> u32 \<Rightarrow> (nat \<Rightarrow> ValidityState) \<Rightarrow> ZCachedFile" where
  "test_file d len f =
     (sample_tree d 0)\<lparr>metadata := \<lparr>file_len_network_order = z_htonl len, md_flags = 0\<rparr>, file_len := len,
       num_blocks := compute_num_blocks len,
       tree := map (\<lambda>i. \<lparr>vmr_location = of_nat i, vmr_hash = 1, vmr_state = f i\<rparr>) [0..<2 ^ (d + 1) - 1]\<rparr>"

lemma test_file_sel:
  "length (tree (test_file d len f)) = 2 ^ (d + 1) - 1"
  "i < 2 ^ (d + 1) - 1 \<Longrightarrow> tree (test_file d len f) ! i = \<lparr>vmr_location = of_nat i, vmr_hash = 1, vmr_state = f i\<rparr>"
  "get_filelen (test_file d len f) = len" "num_blocks (test_file d len f) = compute_num_blocks len"
  "tree_depth (test_file d len f) = of_nat d" "tree_size (test_file d len f) = of_nat (2 ^ (d + 1) - 1)"
  "metadata_state (test_file d len f) = v_validated" "file_hash (test_file d len f) = 0"
  by (simp_all add: test_file_def get_filelen_def z_ntohl_def sample_tree_def)

lemma unat_of_nat_u16: "d \<le> 3 \<Longrightarrow> unat (of_nat d :: u16) = d"
  by (simp add: unat_of_nat take_bit_nat_eq_self)

lemma test_file_configured:
  assumes "d \<le> 3" and "f 0 = v_validated" and "\<forall>i. f i \<noteq> v_margin" and "unat len \<le> 2 ^ 32 - 2 ^ 16"
    and "compute_tree_depth (compute_num_blocks len) = of_nat d"
  shows "configured (test_file d len f)"
proof -
  have "(0 :: nat) < 2 ^ (d + 1) - 1" using one_less_power [of "2 :: nat" "d + 1"] by simp
  then have "shape (test_file d len f)"
    using assms(1-3) by (auto simp: shape_def test_file_sel unat_of_nat_u16)
  with assms show ?thesis by (simp add: configured_def test_file_sel)
qed

lemma test_leaf: "d \<le> 3 \<Longrightarrow> leaf (test_file d len f) k = 2 ^ d - 1 + k"
  by (simp add: leaf_def test_file_sel unat_of_nat_u16)

definition test_block :: ZBlockCacheRecord where
  "test_block = \<lparr>zb_hash = 1, zb_data = replicate 65536 7, next_gap = 65536, zb_valid = True\<rparr>"

lemma test_cache:
  obtains bc where "cache_ok (\<lambda>_. 1) sample_mem bc" "bc_blocks bc = [1 \<mapsto> test_block]"
proof -
  have "zb_ok (\<lambda>_. 1) test_block" by (simp add: zb_ok_def test_block_def)
  then obtain bc where "cache_ok (\<lambda>_. 1) sample_mem bc" "bc_blocks bc = [zb_hash test_block \<mapsto> test_block]" by (rule sample_cache_with)
  moreover have "zb_hash test_block = 1" by (simp add: test_block_def)
  ultimately show ?thesis using that by simp
qed

lemma test_ready:
  assumes "d \<le> 3" and "bc_blocks bc = [1 \<mapsto> test_block]" and "b \<le> 2 ^ d * 65536" and "\<forall>i. 2 ^ d - 1 \<le> i \<longrightarrow> f i = v_validated"
  shows "blocks_ready (test_file d len f) bc a b"
proof -
  have "avail (test_file d len f) bc k" if "k * 65536 < b" for k
  proof -
    have "k < 2 ^ d" using that assms(3) by (meson mult_less_cancel2 order_less_le_trans)
    then have "2 ^ d - 1 + k < (2 :: nat) ^ (d + 1) - 1" by simp
    with assms show ?thesis by (simp add: avail_def known_block_def test_leaf test_file_sel test_block_def)
  qed
  then show ?thesis by (simp add: blocks_ready_def)
qed

lemma test_byte:
  assumes "d \<le> 3" and "bc_blocks bc = [1 \<mapsto> test_block]" and "i < 2 ^ d * 65536"
  shows "file_byte (test_file d len f) bc i = 7"
proof -
  have "i div 65536 < 2 ^ d" using assms(3) by (simp add: div_less_iff_less_mult)
  then have "2 ^ d - 1 + i div 65536 < (2 :: nat) ^ (d + 1) - 1" by simp
  with assms show ?thesis by (simp add: file_byte_def block_data_def test_leaf test_file_sel test_block_def)
qed

end
