(* ===== verification/ZcbBuf.thy ===== *)
theory ZcbBuf
  imports Samples MissingSet
begin

text \<open>
  The network buffer of a reply, \<open>src/common/zftp_module/ValidatedZCB.cpp\<close>. It remembers
  for every block-sized slot the hash of the block last copied there, to save copying the block
  again when the buffer is reused, and counts hits and misses. The constructor leaves the counters and the
  debug offset uninitialised; they are written before they are read.
\<close>

record ValidatedZCB =
  zcb_data :: bytes
  zcb_hashes :: "hash_t list"
  debug_offset :: u32
  cache_hits :: u32
  cache_misses :: u32

definition ValidatedZCB_new :: "bytes \<Rightarrow> ValidatedZCB" where
  "ValidatedZCB_new buffer =
     (let num_hashes = (of_nat (length buffer) :: u32) div ZFTP_BLOCK_SIZE - 1 + 1
      in \<lparr>zcb_data = buffer, zcb_hashes = replicate (unat num_hashes) 0, debug_offset = 0, cache_hits = 0, cache_misses = 0\<rparr>)"

definition ValidatedZCB_read :: "ValidatedZCB \<Rightarrow> ZBlockCacheRecord \<Rightarrow> u32 \<Rightarrow> u32 \<Rightarrow> u32 \<Rightarrow> ValidatedZCB option" where
  "ValidatedZCB_read zcb block buf_offset block_offset len =
     (if len = ZFTP_BLOCK_SIZE then do {
        lite_assert (block_offset = 0);
        lite_assert ((buf_offset - debug_offset zcb) AND (ZFTP_BLOCK_SIZE - 1) = 0);
        let blk_index = drop_bit ZFTP_LG_BLOCK_SIZE buf_offset;
        h \<leftarrow> rd (zcb_hashes zcb) (unat blk_index);
        if cmp_hash (zb_hash block) h = 0 then Some (zcb\<lparr>cache_hits := cache_hits zcb + 1\<rparr>)
        else do {
          data \<leftarrow> zb_read block (zcb_data zcb) (unat buf_offset) block_offset len;
          hs \<leftarrow> wr (zcb_hashes zcb) (unat blk_index) (zb_hash block);
          Some (zcb\<lparr>zcb_data := data, zcb_hashes := hs, cache_misses := cache_misses zcb + 1\<rparr>)
        }
      } else do {
        data \<leftarrow> zb_read block (zcb_data zcb) (unat buf_offset) block_offset len;
        Some (zcb\<lparr>zcb_data := data\<rparr>)
      })"

definition resetDebugStats :: "ValidatedZCB \<Rightarrow> ValidatedZCB" where
  "resetDebugStats zcb = zcb\<lparr>cache_hits := 0, cache_misses := 0\<rparr>"

definition ValidatedZCB_Buf :: "ValidatedZCB Buf" where
  "ValidatedZCB_Buf =
     \<lparr>Buf_read = ValidatedZCB_read, set_debug_offset = (\<lambda>zcb offset. zcb\<lparr>debug_offset := offset\<rparr>),
      cast_resetDebugStats = (\<lambda>zcb. Some (resetDebugStats zcb))\<rparr>"

subsection \<open>A buffer that holds no block yet\<close>

definition no_block_from :: "ValidatedZCB \<Rightarrow> u32 \<Rightarrow> bool" where
  "no_block_from zcb pos \<longleftrightarrow>
     length (zcb_data zcb) < 2 ^ 32 \<and> length (zcb_hashes zcb) = length (zcb_data zcb) div 65536 \<and>
     (\<forall>i < length (zcb_hashes zcb). unat pos div 65536 \<le> i \<longrightarrow> zcb_hashes zcb ! i = 0) \<and>
     (unat pos - unat (debug_offset zcb)) mod 65536 = 0 \<and> unat (debug_offset zcb) \<le> unat pos"

lemma and_block_mask: "(w :: u32) AND (ZFTP_BLOCK_SIZE - 1) = 0 \<longleftrightarrow> unat w mod 65536 = 0"
proof -
  have e: "ZFTP_BLOCK_SIZE - 1 = (mask 16 :: u32)" by (simp add: mask_eq_exp_minus_1)
  have "w AND (ZFTP_BLOCK_SIZE - 1) = take_bit 16 w" unfolding e by (simp add: take_bit_eq_mask)
  then have "unat (w AND (ZFTP_BLOCK_SIZE - 1)) = unat w mod 65536" by (simp only: unsigned_take_bit_eq) (simp add: take_bit_eq_mod)
  then show ?thesis by (simp only: unat_eq_iff) simp
qed

lemma slot_in_range:
  assumes "p + 65536 \<le> (n :: nat)" shows "p div 65536 < n div 65536"
proof -
  have "(p + 65536) div 65536 \<le> n div 65536" using assms by (rule div_le_mono)
  then show ?thesis by simp
qed

interpretation zcb: file_buffer ValidatedZCB_Buf zcb_data no_block_from "\<lambda>b. zb_hash b \<noteq> 0"
proof unfold_locales
  fix s :: ValidatedZCB and pos :: u32 and b :: ZBlockCacheRecord and off n :: u32
  assume r: "no_block_from s pos" and h: "zb_hash b \<noteq> 0" and b: "zb_valid b" "length (zb_data b) = 65536"
    and f: "unat off + unat n \<le> 65536" "unat pos + unat n \<le> length (zcb_data s)"
  let ?data = "overwrite (zcb_data s) (unat pos) (take (unat n) (drop (unat off) (zb_data b)))"
  have rd: "zb_read b (zcb_data s) (unat pos) off n = Some ?data" using b f by (simp add: zb_read_ok)
  show "\<exists>s'. Buf_read ValidatedZCB_Buf s b pos off n = Some s' \<and> zcb_data s' = ?data \<and> (unat n = 65536 \<longrightarrow> no_block_from s' (pos + n))"
  proof (cases "unat n = 65536")
    case True
    then have n: "n = ZFTP_BLOCK_SIZE" and o: "off = 0" using f(1) by (simp_all add: unat_eq_iff)
    let ?i = "unat pos div 65536"
    have i: "?i < length (zcb_hashes s)" using r f(2) True slot_in_range by (simp add: no_block_from_def)
    have np: "unat (pos + n) = unat pos + 65536" using f(2) r True by (subst unat_add_small) (simp_all add: no_block_from_def)
    have al: "(pos - debug_offset s) AND (ZFTP_BLOCK_SIZE - 1) = 0"
      unfolding and_block_mask using r by (simp add: no_block_from_def unat_sub_le)
    from r i have z: "zcb_hashes s ! ?i = 0" by (simp add: no_block_from_def)
    let ?s = "s\<lparr>zcb_data := ?data, zcb_hashes := (zcb_hashes s)[?i := zb_hash b], cache_misses := cache_misses s + 1\<rparr>"
    have "Buf_read ValidatedZCB_Buf s b pos off n = Some ?s"
      using rd al i h z by (simp add: ValidatedZCB_Buf_def ValidatedZCB_read_def n o rd_def wr_def unat_drop_bit)
    moreover have "no_block_from ?s (pos + n)"
    proof -
      have le: "unat (debug_offset s) \<le> unat pos" and m: "(unat pos - unat (debug_offset s)) mod 65536 = 0"
        using r by (simp_all add: no_block_from_def)
      from le have sh: "unat pos + 65536 - unat (debug_offset s) = unat pos - unat (debug_offset s) + 65536" by simp
      have "(unat (pos + n) - unat (debug_offset s)) mod 65536 = 0" unfolding np sh mod_add_self2 by (rule m)
      moreover have "length ?data = length (zcb_data s)" using b f by simp
      moreover have "(zcb_hashes s)[?i := zb_hash b] ! j = 0" if "unat (pos + n) div 65536 \<le> j" "j < length (zcb_hashes s)" for j
      proof -
        have "unat (pos + n) div 65536 = ?i + 1" unfolding np by simp
        with that r show ?thesis by (simp add: no_block_from_def)
      qed
      moreover have "unat (debug_offset s) \<le> unat (pos + n)" using le np by simp
      ultimately show ?thesis using r unfolding no_block_from_def by simp
    qed
    ultimately show ?thesis by auto
  next
    case False
    then have "n \<noteq> ZFTP_BLOCK_SIZE" by auto
    with False rd show ?thesis by (auto simp: ValidatedZCB_Buf_def ValidatedZCB_read_def)
  qed
qed (simp add: ValidatedZCB_Buf_def resetDebugStats_def no_block_from_def)

lemma ValidatedZCB_new_ok:
  assumes "length buffer < 2 ^ 32"
  shows "length data = length buffer \<Longrightarrow> no_block_from ((ValidatedZCB_new buffer)\<lparr>zcb_data := data, debug_offset := pos\<rparr>) pos"
    and "no_block_from ((ValidatedZCB_new buffer)\<lparr>debug_offset := pos\<rparr>) pos" and "zcb_data (ValidatedZCB_new buffer) = buffer"
proof -
  have "(of_nat (length buffer) :: u32) div ZFTP_BLOCK_SIZE = of_nat (length buffer div 65536)"
    using assms by (simp add: unat_eq_iff unat_div unat_of_nat_u32)
  then have "unat ((of_nat (length buffer) :: u32) div ZFTP_BLOCK_SIZE) = length buffer div 65536"
    using assms by (simp add: unat_of_nat_u32)
  with assms show "length data = length buffer \<Longrightarrow> no_block_from ((ValidatedZCB_new buffer)\<lparr>zcb_data := data, debug_offset := pos\<rparr>) pos"
    and "no_block_from ((ValidatedZCB_new buffer)\<lparr>debug_offset := pos\<rparr>) pos" and "zcb_data (ValidatedZCB_new buffer) = buffer"
    by (simp_all add: no_block_from_def ValidatedZCB_new_def)
qed

subsection \<open>Properties\<close>

text \<open>C15. Reading a range inside the file that starts on a block boundary, all of whose blocks are validated and
  complete, into a new network buffer with room for it returns. The buffer then holds exactly those bytes of the
  file at the given place and is otherwise unchanged, and so are the blocks of the cache. No block of the cache
  may have the zero hash, and the cache has no database behind it.\<close>

theorem zcb_read_returns_file:
  assumes "configured zf" and "cache_ok zhash mem bc" and "unat offset + unat sz \<le> unat (get_filelen zf)"
    and "blocks_ready zf bc (unat offset) (unat offset + unat sz)" and "\<forall>h b. bc_blocks bc h = Some b \<longrightarrow> zb_hash b \<noteq> 0"
    and "unat offset mod 65536 = 0" and "unat buf_offset + unat sz \<le> length buffer" and "length buffer < 2 ^ 32"
  shows "\<exists>bc' zcb'. zf_read ValidatedZCB_Buf mem zf bc (ValidatedZCB_new buffer) buf_offset offset sz = Some (bc', zcb') \<and>
           zcb_data zcb' = overwrite buffer (unat buf_offset) (map (file_byte zf bc) [unat offset..<unat offset + unat sz]) \<and>
           cache_ok zhash mem bc' \<and> bc_blocks bc' = bc_blocks bc"
  using zcb.zf_read_ok [OF assms(1-4), of buf_offset "ValidatedZCB_new buffer"] assms(5-8)
    ValidatedZCB_new_ok [OF assms(8)]
  by (auto simp: zcb.all_usable_def zcb.steady_def ValidatedZCB_Buf_def)

theorem zcb_read_returns_file_witness:
  "\<exists>bc bc' zcb'. zf_read ValidatedZCB_Buf sample_mem (test_file 1 131072 (\<lambda>_. v_validated)) bc (ValidatedZCB_new (replicate 60 0)) 49 65536 2 =
     Some (bc', zcb') \<and> zcb_data zcb' ! 50 = 7"
proof -
  obtain bc where bc: "cache_ok (\<lambda>_. 1) sample_mem bc" "bc_blocks bc = [1 \<mapsto> test_block]" by (rule test_cache)
  let ?zf = "test_file 1 131072 (\<lambda>_. v_validated)"
  have "compute_tree_depth (compute_num_blocks 131072) = 1" by code_simp
  then have c: "configured ?zf" by (intro test_file_configured) simp_all
  have "blocks_ready ?zf bc 65536 65538" by (rule test_ready) (simp_all add: bc(2))
  then have r: "blocks_ready ?zf bc (unat (65536 :: u32)) (unat (65536 :: u32) + unat (2 :: u32))" by simp
  have nz: "\<forall>h b. bc_blocks bc h = Some b \<longrightarrow> zb_hash b \<noteq> 0" by (simp add: bc(2) test_block_def)
  have f: "unat (65536 :: u32) + unat (2 :: u32) \<le> unat (get_filelen ?zf)" by (simp add: test_file_sel)
  from zcb_read_returns_file [OF c bc(1) f r nz, of 49 "replicate 60 0"] obtain bc' zcb' where
    z: "zf_read ValidatedZCB_Buf sample_mem ?zf bc (ValidatedZCB_new (replicate 60 0)) 49 65536 2 = Some (bc', zcb')"
      "zcb_data zcb' = overwrite (replicate 60 0) 49 (map (file_byte ?zf bc) [65536..<65538])" by auto
  have "file_byte ?zf bc 65537 = 7" by (rule test_byte) (simp_all add: bc(2))
  then have "zcb_data zcb' ! 50 = 7" unfolding z(2) by (simp add: nth_overwrite)
  with z(1) show ?thesis by blast
qed

text \<open>When nothing is missing for a request, the reply to it can be read: every read inside the requested range that
  starts on a block boundary returns the bytes of the file, unless an incomplete block of the eligible set has
  its first gap beyond the end of that set.\<close>

theorem nothing_missing_readable:
  assumes "configured zf" and "cache_ok zhash mem bc" and "0 < max_payload" and "dr_wf r"
    and "compute_missing_set mem zf mode max_payload bc r = Some (bc', ms)" and "DataRange_is_empty ms"
    and "eligible_set zf r = Some el"
    and "\<forall>k h b. known_block zf v_validated k = Some h \<and> bc_blocks bc h = Some b \<and> \<not> zb_valid b \<longrightarrow>
           k * 65536 + unat (next_gap b) < unat (dr_end el)"
    and "unat (dr_start r) \<le> unat offset" and "unat offset + unat sz \<le> unat (dr_end r)" and "0 < sz"
    and "unat offset + unat sz \<le> unat (get_filelen zf)"
    and "\<forall>h b. bc_blocks bc' h = Some b \<longrightarrow> zb_hash b \<noteq> 0" and "unat offset mod 65536 = 0" and "length buffer = unat sz"
  shows "\<exists>bc'' zcb'. zf_read ValidatedZCB_Buf mem zf bc' (ValidatedZCB_new buffer) 0 offset sz = Some (bc'', zcb') \<and>
    zcb_data zcb' = map (file_byte zf bc') [unat offset..<unat offset + unat sz]"
proof -
  note r = nothing_missing_ready [OF assms(1-12)]
  have "length buffer < 2 ^ 32" using assms(15) unat_less_exp [of sz] by simp
  with zcb.zf_read_ok [OF assms(1) r(1) assms(12) r(2), of 0 "ValidatedZCB_new buffer"] assms(13-15)
    ValidatedZCB_new_ok [of buffer]
  show ?thesis by (auto simp: zcb.all_usable_def zcb.steady_def ValidatedZCB_Buf_def overwrite_def)
qed

text \<open>A range that does not start on a block boundary and covers a later block entirely cannot be read into a
  network buffer: the second round of the loop fails the alignment assertion. The start of the range is the
  client's choice, so one request stops the server.\<close>

theorem zcb_unaligned_read_aborts:
  assumes c: "configured zf" and ok: "cache_ok zhash mem bc" and fit: "unat offset + unat sz \<le> unat (get_filelen zf)"
    and rdy: "blocks_ready zf bc (unat offset) (unat offset + unat sz)"
    and un: "unat offset mod 65536 \<noteq> 0" and whole: "(unat offset div 65536 + 2) * 65536 \<le> unat offset + unat sz"
    and buf: "unat buf_offset + unat sz \<le> length buffer" and len: "length buffer < 2 ^ 32"
  shows "zf_read ValidatedZCB_Buf mem zf bc (ValidatedZCB_new buffer) buf_offset offset sz = None"
proof -
  let ?O = "unat offset" and ?S = "unat sz" and ?z = "resetDebugStats ((ValidatedZCB_new buffer)\<lparr>debug_offset := buf_offset\<rparr>)"
  have "q * 65536 + r = ?O \<Longrightarrow> (q + 2) * 65536 \<le> ?O + ?S \<Longrightarrow> r < 65536 \<Longrightarrow> 65536 - r + 65536 \<le> ?S" for q r by simp
  from this [OF div_mult_mod_eq whole] have S: "65536 - ?O mod 65536 + 65536 \<le> ?S" by simp
  have p0: "read_pos_ok zf offset sz (drop_bit 16 offset) 0 offset" using fit by (simp add: read_pos_ok_def unat_drop_bit)
  have lt0: "unat (0 :: u32) < ?S" using S by simp
  obtain bc1 h b off n where
    s1: "read_loop ValidatedZCB_Buf mem zf buf_offset offset sz bc ?z (drop_bit 16 offset) 0 offset =
      Buf_read ValidatedZCB_Buf ?z b (0 + buf_offset) off n \<bind>
      (\<lambda>buf1. read_loop ValidatedZCB_Buf mem zf buf_offset offset sz bc1 buf1 (drop_bit 16 offset + 1) (0 + n) (offset + n))"
    and b1: "cache_ok zhash mem bc1" "bc_blocks bc1 = bc_blocks bc"
    and p1: "read_pos_ok zf offset sz (drop_bit 16 offset + 1) (0 + n) (offset + n)"
    and o1: "unat off = (?O + unat (0 :: u32)) mod 65536" and n1: "unat n = min (?S - unat (0 :: u32)) (65536 - unat off)"
    by (rule read_round [OF c ok rdy p0 lt0, of ValidatedZCB_Buf buf_offset ?z])
  have n: "unat n = 65536 - ?O mod 65536" using n1 o1 S by (simp add: min_def)
  then have lt1: "unat (0 + n) < ?S" and nb: "n \<noteq> ZFTP_BLOCK_SIZE" using S un by auto
  have rdy1: "blocks_ready zf bc1 ?O (?O + ?S)" using rdy unfolding blocks_ready_def avail_cong [OF b1(2)] .
  have "read_loop ValidatedZCB_Buf mem zf buf_offset offset sz bc1 z1 (drop_bit 16 offset + 1) (0 + n) (offset + n) = None"
    if z1: "debug_offset z1 = buf_offset" for z1
  proof -
    obtain bc2 h2 b2 off2 n2 where
      s2: "read_loop ValidatedZCB_Buf mem zf buf_offset offset sz bc1 z1 (drop_bit 16 offset + 1) (0 + n) (offset + n) =
        Buf_read ValidatedZCB_Buf z1 b2 (0 + n + buf_offset) off2 n2 \<bind>
        (\<lambda>buf1. read_loop ValidatedZCB_Buf mem zf buf_offset offset sz bc2 buf1 (drop_bit 16 offset + 1 + 1) (0 + n + n2) (offset + n + n2))"
      and o2: "unat off2 = (?O + unat (0 + n)) mod 65536" and n2: "unat n2 = min (?S - unat (0 + n)) (65536 - unat off2)"
      by (rule read_round [OF c b1(1) rdy1 p1 lt1, of ValidatedZCB_Buf buf_offset z1])
    have "q * 65536 + r = ?O \<Longrightarrow> r < 65536 \<Longrightarrow> ?O + (65536 - r) = (q + 1) * 65536" for q r by simp
    from this [OF div_mult_mod_eq] have "?O + unat (0 + n) = (?O div 65536 + 1) * 65536" using n by simp
    then have "unat off2 = 0" unfolding o2 by simp
    moreover have "65536 \<le> ?S - unat (0 + n)" using n S by simp
    ultimately have "n2 = ZFTP_BLOCK_SIZE" using n2 by (simp add: unat_eq_iff)
    moreover have "(n + buf_offset - debug_offset z1) AND (ZFTP_BLOCK_SIZE - 1) \<noteq> 0"
      unfolding and_block_mask z1 using n un by simp
    ultimately show ?thesis unfolding s2 by (simp add: ValidatedZCB_Buf_def ValidatedZCB_read_def)
  qed
  then have "read_loop ValidatedZCB_Buf mem zf buf_offset offset sz bc ?z (drop_bit 16 offset) 0 offset = None"
    unfolding s1 using nb by (auto simp: ValidatedZCB_Buf_def ValidatedZCB_read_def resetDebugStats_def split: bind_splits)
  then show ?thesis by (simp add: zf_read_def ValidatedZCB_Buf_def)
qed

theorem zcb_unaligned_read_aborts_witness:
  "\<exists>bc. cache_ok (\<lambda>_. 1) sample_mem bc \<and>
     zf_read ValidatedZCB_Buf sample_mem (test_file 1 131072 (\<lambda>_. v_validated)) bc (ValidatedZCB_new (replicate 131200 0)) 49 1 131071 = None"
proof -
  obtain bc where bc: "cache_ok (\<lambda>_. 1) sample_mem bc" "bc_blocks bc = [1 \<mapsto> test_block]" by (rule test_cache)
  let ?zf = "test_file 1 131072 (\<lambda>_. v_validated)"
  have "compute_tree_depth (compute_num_blocks 131072) = 1" by code_simp
  then have c: "configured ?zf" by (intro test_file_configured) simp_all
  have "blocks_ready ?zf bc 1 131072" by (rule test_ready) (simp_all add: bc(2))
  with zcb_unaligned_read_aborts [OF c bc(1), of 1 131071 49 "replicate 131200 0"] bc(1)
  show ?thesis by (auto simp: test_file_sel)
qed

text \<open>A reused network buffer can keep stale bytes: a block that was copied to one place of a slot is taken to be in
  place when it is due at another place of the same slot, and is not copied. That happens when two replies
  have a different number of hash records before their data.\<close>

theorem zcb_reuse_is_stale:
  assumes b: "zb_valid b" "length (zb_data b) = 65536" "zb_hash b \<noteq> 0"
    and len: "length buffer < 2 ^ 32" "unat p + 65536 \<le> length buffer" "unat q + 65536 \<le> length buffer"
    and slot: "unat p div 65536 = unat q div 65536"
  shows "\<exists>z1. ValidatedZCB_read ((ValidatedZCB_new buffer)\<lparr>debug_offset := p\<rparr>) b p 0 ZFTP_BLOCK_SIZE = Some z1 \<and>
           ValidatedZCB_read (z1\<lparr>debug_offset := q\<rparr>) b q 0 ZFTP_BLOCK_SIZE = Some (z1\<lparr>debug_offset := q, cache_hits := cache_hits z1 + 1\<rparr>) \<and>
           zcb_data z1 = overwrite buffer (unat p) (zb_data b)"
proof -
  let ?i = "unat p div 65536" and ?z = "(ValidatedZCB_new buffer)\<lparr>debug_offset := p\<rparr>"
  from ValidatedZCB_new_ok(2) [OF len(1), of p] ValidatedZCB_new_ok(3) [OF len(1)] have r: "no_block_from ?z p" and d: "zcb_data ?z = buffer" by simp_all
  have i: "?i < length (zcb_hashes ?z)" and z: "zcb_hashes ?z ! ?i = 0"
    using r len(2) d slot_in_range [OF len(2)] by (auto simp: no_block_from_def)
  have rd: "zb_read b buffer (unat p) 0 ZFTP_BLOCK_SIZE = Some (overwrite buffer (unat p) (zb_data b))"
    using zb_read_ok [OF b(2,1), of 0 ZFTP_BLOCK_SIZE "unat p" buffer] len(2) b(2) by simp
  let ?z1 = "?z\<lparr>zcb_data := overwrite buffer (unat p) (zb_data b), zcb_hashes := (zcb_hashes ?z)[?i := zb_hash b], cache_misses := cache_misses ?z + 1\<rparr>"
  have "ValidatedZCB_read ?z b p 0 ZFTP_BLOCK_SIZE = Some ?z1"
    using i z rd d b(3) by (simp add: ValidatedZCB_read_def rd_def wr_def unat_drop_bit)
  moreover have "ValidatedZCB_read (?z1\<lparr>debug_offset := q\<rparr>) b q 0 ZFTP_BLOCK_SIZE =
      Some (?z1\<lparr>debug_offset := q, cache_hits := cache_hits ?z1 + 1\<rparr>)"
    using i slot by (simp add: ValidatedZCB_read_def rd_def unat_drop_bit)
  ultimately show ?thesis by (intro exI [of _ ?z1]) simp
qed

text \<open>With 24 bytes more before the data in the first reply, the second one starts with bytes that are not of the block.\<close>

theorem zcb_reuse_is_stale_witness:
  "\<exists>b z1. zb_data b = replicate 65536 1 \<and>
     ValidatedZCB_read ((ValidatedZCB_new (replicate 65609 0))\<lparr>debug_offset := 73\<rparr>) b 73 0 ZFTP_BLOCK_SIZE = Some z1 \<and>
     ValidatedZCB_read (z1\<lparr>debug_offset := 49\<rparr>) b 49 0 ZFTP_BLOCK_SIZE = Some (z1\<lparr>debug_offset := 49, cache_hits := cache_hits z1 + 1\<rparr>) \<and> zcb_data z1 ! 49 = 0"
proof -
  let ?b = "\<lparr>zb_hash = 1, zb_data = replicate 65536 1, next_gap = 65536, zb_valid = True\<rparr>"
  from zcb_reuse_is_stale [of ?b "replicate 65609 0" 73 49] obtain z1 where
    "ValidatedZCB_read ((ValidatedZCB_new (replicate 65609 0))\<lparr>debug_offset := 73\<rparr>) ?b 73 0 ZFTP_BLOCK_SIZE = Some z1"
    "ValidatedZCB_read (z1\<lparr>debug_offset := 49\<rparr>) ?b 49 0 ZFTP_BLOCK_SIZE = Some (z1\<lparr>debug_offset := 49, cache_hits := cache_hits z1 + 1\<rparr>)"
    "zcb_data z1 = overwrite (replicate 65609 0) 73 (replicate 65536 1)" by auto
  then show ?thesis by (intro exI [of _ ?b] exI [of _ z1]) (simp add: nth_overwrite)
qed

end
