(* ===== verification/Wire.thy ===== *)
theory Wire
  imports CachedFile
begin

text \<open>
  The packets of the ZFTP protocol, \<open>src/common/zftp_module/zftp_protocol.h\<close>: how a client
  writes a request (\<open>OutboundRequest.cpp\<close>) and how a server reads it (\<open>ZFileRequest.cpp\<close>), how a client
  reads a reply (\<open>ZFileReplyFromServer.cpp\<close>). Packets are buffers of bytes with packed little structures
  in network order; sizes and offsets are 32-bit numbers that wrap around, as on the 32-bit
  machines the code runs on. \<open>raw\<close> gives the contents of fresh memory.
\<close>

subsection \<open>Fields\<close>

definition wr_bytes :: "bytes \<Rightarrow> nat \<Rightarrow> bytes \<Rightarrow> bytes option" where
  "wr_bytes b i xs = (if i + length xs \<le> length b then Some (overwrite b i xs) else None)"

definition rd_bytes :: "bytes \<Rightarrow> nat \<Rightarrow> nat \<Rightarrow> bytes option" where
  "rd_bytes b i n = (if i + n \<le> length b then Some (take n (drop i b)) else None)"

definition u16_of_bytes :: "bytes \<Rightarrow> u16" where
  "u16_of_bytes xs = ucast (xs ! 0) OR push_bit 8 (ucast (xs ! 1))"

definition u32_of_bytes :: "bytes \<Rightarrow> u32" where
  "u32_of_bytes xs =
     ucast (xs ! 0) OR push_bit 8 (ucast (xs ! 1)) OR push_bit 16 (ucast (xs ! 2)) OR push_bit 24 (ucast (xs ! 3))"

text \<open>Storing \<open>z_htong(v, sizeof field)\<close> in a field and reading it back with \<open>Z_NTOHG\<close>.\<close>

definition put16 :: "bytes \<Rightarrow> nat \<Rightarrow> u32 \<Rightarrow> bytes option" where
  "put16 b i v = do { w \<leftarrow> z_ntohg v 2; wr_bytes b i (bytes_of_u16 (ucast w)) }"

definition put32 :: "bytes \<Rightarrow> nat \<Rightarrow> u32 \<Rightarrow> bytes option" where
  "put32 b i v = do { w \<leftarrow> z_ntohg v 4; wr_bytes b i (bytes_of_u32 w) }"

definition get16 :: "bytes \<Rightarrow> nat \<Rightarrow> u32 option" where
  "get16 b i = do { xs \<leftarrow> rd_bytes b i 2; z_ntohg (ucast (u16_of_bytes xs)) 2 }"

definition get32 :: "bytes \<Rightarrow> nat \<Rightarrow> u32 option" where
  "get32 b i = do { xs \<leftarrow> rd_bytes b i 4; z_ntohg (u32_of_bytes xs) 4 }"

definition hash_of_bytes :: "bytes \<Rightarrow> hash_t" where
  "hash_of_bytes xs = foldr (\<lambda>x h. ucast x OR push_bit 8 h) xs 0"

definition get_hash :: "bytes \<Rightarrow> nat \<Rightarrow> hash_t option" where
  "get_hash b i = do { xs \<leftarrow> rd_bytes b i 20; Some (hash_of_bytes xs) }"

subsection \<open>Requests\<close>

record OutboundRequest =
  obr_zrp :: bytes
  obr_len :: u32
  dbg_locations_remaining :: u32

text \<open>\<open>url_hint\<close> is the string without its final NUL, None for the null pointer.\<close>

definition OutboundRequest_new ::
    "(u32 \<Rightarrow> bytes) \<Rightarrow> hash_t \<Rightarrow> bytes option \<Rightarrow> u32 \<Rightarrow> u32 \<Rightarrow> DataRange \<Rightarrow> OutboundRequest option" where
  "OutboundRequest_new raw fhash url_hint num_tree_locations padding_request data_range = do {
     let url_hint_len = (case url_hint of None \<Rightarrow> 0 | Some u \<Rightarrow> of_nat (length u) + 1);
     let len = 40 + 4 * num_tree_locations + url_hint_len;
     let zrp = raw len;
     zrp \<leftarrow> put16 zrp 0 20;
     zrp \<leftarrow> put16 zrp 2 url_hint_len;
     zrp \<leftarrow> wr_bytes zrp 4 (hash_bytes fhash);
     zrp \<leftarrow> put32 zrp 24 num_tree_locations;
     zrp \<leftarrow> put32 zrp 28 padding_request;
     zrp \<leftarrow> put32 zrp 32 (dr_start data_range);
     zrp \<leftarrow> put32 zrp 36 (dr_end data_range);
     zrp \<leftarrow> (case url_hint of None \<Rightarrow> Some zrp
             | Some u \<Rightarrow> wr_bytes zrp (unat (40 + 4 * num_tree_locations)) (u @ [0]));
     Some \<lparr>obr_zrp = zrp, obr_len = len, dbg_locations_remaining = num_tree_locations\<rparr>
   }"

definition set_location :: "OutboundRequest \<Rightarrow> u32 \<Rightarrow> u32 \<Rightarrow> OutboundRequest option" where
  "set_location obr i location = do {
     zrp \<leftarrow> put32 (obr_zrp obr) (unat (40 + 4 * i)) location;
     Some (obr\<lparr>obr_zrp := zrp, dbg_locations_remaining := dbg_locations_remaining obr - 1\<rparr>)
   }"

definition get_zrp :: "OutboundRequest \<Rightarrow> bytes option" where
  "get_zrp obr = do { lite_assert (dbg_locations_remaining obr = 0); Some (obr_zrp obr) }"

record ZFileRequest =
  zrp_bytes :: bytes
  req_hash :: hash_t
  num_tree_locations :: u32
  padding_request :: u32
  req_data_range :: DataRange
  req_url_hint :: "u32 option"

text \<open>The outer option is an access outside the packet, the inner one a rejected packet. The hint is the
  offset of the string in the packet.\<close>

definition ZFileRequest_parse :: "bytes \<Rightarrow> ZFileRequest option option" where
  "ZFileRequest_parse b = do {
     let len = (of_nat (length b) :: u32);
     if \<not> 40 \<le> len then Some None
     else do {
       hash_len \<leftarrow> get16 b 0;
       if hash_len \<noteq> 20 then Some None
       else do {
         url_hint_len \<leftarrow> get16 b 2;
         num \<leftarrow> get32 b 24;
         if \<not> 40 + 4 * num + url_hint_len \<le> len then Some None
         else do {
           padding \<leftarrow> get32 b 28;
           start \<leftarrow> get32 b 32;
           stop \<leftarrow> get32 b 36;
           h \<leftarrow> get_hash b 4;
           let req = \<lparr>zrp_bytes = b, req_hash = h, num_tree_locations = num, padding_request = padding,
                      req_data_range = DataRange_of start stop, req_url_hint = None\<rparr>;
           if 0 < url_hint_len then do {
             let url_hint = 40 + 4 * num;
             c \<leftarrow> rd b (unat (url_hint + (url_hint_len - 1)));
             Some (if c \<noteq> 0 then None else Some (req\<lparr>req_url_hint := Some url_hint\<rparr>))
           } else Some (Some req)
         }
       }
     }
   }"

definition get_tree_location :: "ZFileRequest \<Rightarrow> u32 \<Rightarrow> u32 option" where
  "get_tree_location req idx = get32 (zrp_bytes req) (unat (40 + 4 * idx))"

text \<open>\<open>is_semantically_equivalent\<close>: the loop over the locations, then the whole test.\<close>

fun same_locations :: "ZFileRequest \<Rightarrow> ZFileRequest \<Rightarrow> u32 list \<Rightarrow> bool option" where
  "same_locations a b [] = Some True"
| "same_locations a b (i # is) = do {
     x \<leftarrow> get_tree_location a i;
     y \<leftarrow> get_tree_location b i;
     if x \<noteq> y then Some False else same_locations a b is
   }"

definition is_semantically_equivalent :: "ZFileRequest \<Rightarrow> ZFileRequest \<Rightarrow> bool option" where
  "is_semantically_equivalent a b =
     (if cmp_hash (req_hash a) (req_hash b) \<noteq> 0 then Some False
      else if num_tree_locations a \<noteq> num_tree_locations b then Some False
      else do {
        same \<leftarrow> same_locations a b (map of_nat [0..<unat (num_tree_locations a)]);
        Some (same \<and> padding_request a = padding_request b \<and> DataRange_equals (req_data_range a) (req_data_range b))
      })"

subsection \<open>Reading what was written\<close>

definition field :: "bytes \<Rightarrow> nat \<Rightarrow> bytes \<Rightarrow> bool" where
  "field b i xs \<longleftrightarrow> i + length xs \<le> length b \<and> take (length xs) (drop i b) = xs"

lemma field_iff_nth: "field b i xs \<longleftrightarrow> i + length xs \<le> length b \<and> (\<forall>k < length xs. b ! (i + k) = xs ! k)"
  by (auto simp: field_def list_eq_iff_nth_eq)

lemma field_snoc: "field b i (u @ [x]) \<Longrightarrow> b ! (i + length u) = x"
  by (simp add: field_iff_nth nth_append)

lemma field_same [simp]: "i + length xs \<le> length b \<Longrightarrow> field (overwrite b i xs) i xs"
  by (simp add: field_def overwrite_def)

lemma field_other [simp]:
  assumes "i + length xs \<le> length b" and "j + length ys \<le> i \<or> i + length xs \<le> j"
  shows "field (overwrite b i xs) j ys \<longleftrightarrow> field b j ys"
proof -
  have "overwrite b i xs ! (j + k) = b ! (j + k)" if "k < length ys" for k
    using assms that by (subst nth_overwrite) auto
  with assms(1) show ?thesis by (simp add: field_iff_nth)
qed

lemma u16_of_bytes_of [simp]: "u16_of_bytes (bytes_of_u16 w) = w"
proof (rule bit_word_eqI)
  fix n assume "n < LENGTH(16)"
  then have "n < 32" by simp
  then show "bit (u16_of_bytes (bytes_of_u16 w)) n = bit w n"
    by (rule less_cases_32) (simp_all add: u16_of_bytes_def bytes_of_simps bit_simps not_bit_16)
qed

lemma u32_of_bytes_of [simp]: "u32_of_bytes (bytes_of_u32 w) = w"
proof (rule bit_word_eqI)
  fix n assume "n < LENGTH(32)"
  then have "n < 32" by simp
  then show "bit (u32_of_bytes (bytes_of_u32 w)) n = bit w n"
    by (rule less_cases_32) (simp_all add: u32_of_bytes_def bytes_of_simps bit_simps)
qed

lemma length_bytes_of [simp]: "length (bytes_of_u16 w) = 2" "length (bytes_of_u32 v) = 4"
  by (simp_all add: bytes_of_u16_def bytes_of_u32_def)

lemma bit_hash_of_bytes:
  "n < 160 \<Longrightarrow> bit (hash_of_bytes xs) n \<longleftrightarrow> n div 8 < length xs \<and> bit (xs ! (n div 8)) (n mod 8)"
proof (induction xs arbitrary: n)
  case (Cons x xs)
  have c: "hash_of_bytes (x # xs) = ucast x OR push_bit 8 (hash_of_bytes xs)" by (simp add: hash_of_bytes_def)
  show ?case
  proof (cases "n < 8")
    case True
    then show ?thesis by (simp add: c bit_simps)
  next
    case False
    then have "n div 8 = Suc ((n - 8) div 8)" "(n - 8) mod 8 = n mod 8" by (simp_all add: le_div_geq le_mod_geq)
    with Cons.IH [of "n - 8"] Cons.prems False show ?thesis by (auto simp: c bit_simps dest: bit_imp_le_length)
  qed
qed (simp add: hash_of_bytes_def)

lemma hash_of_bytes_of [simp]: "hash_of_bytes (hash_bytes h) = h"
proof (rule bit_word_eqI)
  fix n assume "n < LENGTH(160)"
  then have n: "n < 160" by simp
  then have "n div 8 < 20" by (simp add: div_less_iff_less_mult)
  moreover have "8 * (n div 8) + n mod 8 = n" by simp
  ultimately show "bit (hash_of_bytes (hash_bytes h)) n = bit h n"
    by (simp add: bit_hash_of_bytes n) (simp add: hash_bytes_def bit_simps)
qed

lemma ucast_u16_u32 [simp]: "ucast (ucast (w :: u16) :: u32) = w"
  by (rule bit_word_eqI) (simp add: bit_simps)

abbreviation "f16 v \<equiv> bytes_of_u16 (z_htons (ucast (v :: u32)))"
abbreviation "f32 v \<equiv> bytes_of_u32 (z_htonl v)"

lemma put_ok:
  "i + 2 \<le> length b \<Longrightarrow> put16 b i v = Some (overwrite b i (f16 v))"
  "i + 4 \<le> length b \<Longrightarrow> put32 b i v = Some (overwrite b i (f32 v))"
  by (simp_all add: put16_def put32_def z_ntohg_def wr_bytes_def z_ntohs_def z_ntohl_def)

lemma get_ok:
  "field b i (f16 v) \<Longrightarrow> get16 b i = Some (ucast (ucast v :: u16))"
  "field b i (f32 v) \<Longrightarrow> get32 b i = Some v"
  "field b i (hash_bytes h) \<Longrightarrow> get_hash b i = Some h"
  by (simp_all add: get16_def get32_def get_hash_def z_ntohg_def rd_bytes_def field_def z_ntohs_def z_ntohl_def)

subsection \<open>A request on the wire\<close>

definition request_header :: "bytes \<Rightarrow> hash_t \<Rightarrow> u32 \<Rightarrow> u32 \<Rightarrow> u32 \<Rightarrow> DataRange \<Rightarrow> bool" where
  "request_header b fhash ulen num pad r \<longleftrightarrow>
     field b 0 (f16 20) \<and> field b 2 (f16 ulen) \<and> field b 4 (hash_bytes fhash) \<and> field b 24 (f32 num) \<and>
     field b 28 (f32 pad) \<and> field b 32 (f32 (dr_start r)) \<and> field b 36 (f32 (dr_end r))"

lemma request_header_kept:
  "40 \<le> i \<Longrightarrow> i + length xs \<le> length b \<Longrightarrow> request_header (overwrite b i xs) h u n p r = request_header b h u n p r"
  by (simp add: request_header_def)

definition hint_len :: "bytes option \<Rightarrow> nat" where
  "hint_len url_hint = (case url_hint of None \<Rightarrow> 0 | Some u \<Rightarrow> length u + 1)"

lemma OutboundRequest_new_ok:
  assumes raw: "\<forall>n. length (raw n) = unat n" and fit: "40 + 4 * unat num + hint_len url_hint < 2 ^ 32"
  shows "\<exists>obr. OutboundRequest_new raw fhash url_hint num pad r = Some obr \<and>
           length (obr_zrp obr) = 40 + 4 * unat num + hint_len url_hint \<and> dbg_locations_remaining obr = num \<and>
           request_header (obr_zrp obr) fhash (of_nat (hint_len url_hint)) num pad r \<and>
           (\<forall>u. url_hint = Some u \<longrightarrow> field (obr_zrp obr) (40 + 4 * unat num) (u @ [0]))"
proof -
  have n4: "unat (4 * num) = 4 * unat num" using fit by (simp add: unat_word_ariths)
  have off: "unat (40 + 4 * num) = 40 + 4 * unat num" using fit n4 by (subst unat_add_small) simp_all
  have "unat (of_nat (hint_len url_hint) :: u32) = hint_len url_hint" using fit by (intro unat_of_nat_u32) simp
  then have "unat (40 + 4 * num + of_nat (hint_len url_hint)) = 40 + 4 * unat num + hint_len url_hint"
    using fit off by (subst unat_add_small) simp_all
  then have len: "length (raw (40 + 4 * num + of_nat (hint_len url_hint))) = 40 + 4 * unat num + hint_len url_hint" using raw by simp
  show ?thesis
  proof (cases url_hint)
    case None
    with len show ?thesis by (simp add: OutboundRequest_new_def Let_def put_ok wr_bytes_def request_header_def hint_len_def)
  next
    case (Some u)
    have c: "of_nat (length u) + 1 = (1 + of_nat (length u) :: u32)" by (rule add.commute)
    from Some len off show ?thesis by (simp add: OutboundRequest_new_def Let_def put_ok wr_bytes_def request_header_def hint_len_def c)
  qed
qed

text \<open>Setting the locations one after another.\<close>

fun set_locations :: "OutboundRequest \<Rightarrow> u32 \<Rightarrow> u32 list \<Rightarrow> OutboundRequest option" where
  "set_locations obr i [] = Some obr"
| "set_locations obr i (l # ls) = do { obr' \<leftarrow> set_location obr i l; set_locations obr' (i + 1) ls }"

lemma set_location_ok:
  assumes "40 + 4 * unat i + 4 \<le> length (obr_zrp obr)" and "length (obr_zrp obr) < 2 ^ 32"
  shows "set_location obr i l = Some (obr\<lparr>obr_zrp := overwrite (obr_zrp obr) (40 + 4 * unat i) (f32 l),
           dbg_locations_remaining := dbg_locations_remaining obr - 1\<rparr>)"
proof -
  have "unat (4 * i) = 4 * unat i" using assms by (simp add: unat_word_ariths)
  then have "unat (40 + 4 * i) = 40 + 4 * unat i" using assms by (subst unat_add_small) simp_all
  with assms show ?thesis by (simp add: set_location_def put_ok)
qed

lemma set_locations_ok:
  assumes "40 + 4 * (unat i + length ls) \<le> length (obr_zrp obr)" and "length (obr_zrp obr) < 2 ^ 32"
  shows "\<exists>obr'. set_locations obr i ls = Some obr' \<and> length (obr_zrp obr') = length (obr_zrp obr) \<and>
           dbg_locations_remaining obr' = dbg_locations_remaining obr - of_nat (length ls) \<and>
           (\<forall>j < length ls. field (obr_zrp obr') (40 + 4 * (unat i + j)) (f32 (ls ! j))) \<and>
           (\<forall>k xs. k + length xs \<le> 40 + 4 * unat i \<or> 40 + 4 * (unat i + length ls) \<le> k \<longrightarrow>
              field (obr_zrp obr') k xs = field (obr_zrp obr) k xs)"
  using assms
proof (induction ls arbitrary: obr i)
  case (Cons l ls)
  let ?obr = "obr\<lparr>obr_zrp := overwrite (obr_zrp obr) (40 + 4 * unat i) (f32 l), dbg_locations_remaining := dbg_locations_remaining obr - 1\<rparr>"
  have i1: "unat (i + 1) = unat i + 1" using Cons.prems by (subst unat_add_small) simp_all
  have s: "set_location obr i l = Some ?obr" using Cons.prems by (intro set_location_ok) simp_all
  from Cons.IH [of "i + 1" ?obr] Cons.prems i1 obtain obr' where
    o: "set_locations ?obr (i + 1) ls = Some obr'" "length (obr_zrp obr') = length (obr_zrp obr)"
      "dbg_locations_remaining obr' = dbg_locations_remaining obr - 1 - of_nat (length ls)"
      "\<forall>j < length ls. field (obr_zrp obr') (40 + 4 * (unat i + 1 + j)) (f32 (ls ! j))"
      "\<forall>k xs. k + length xs \<le> 40 + 4 * (unat i + 1) \<or> 40 + 4 * (unat i + 1 + length ls) \<le> k \<longrightarrow>
         field (obr_zrp obr') k xs = field (obr_zrp ?obr) k xs" by auto
  have "field (obr_zrp obr') (40 + 4 * (unat i + j)) (f32 ((l # ls) ! j))" if "j < length (l # ls)" for j
  proof (cases j)
    case 0
    with o(5) [rule_format, of "40 + 4 * unat i" "f32 l"] Cons.prems show ?thesis by simp
  next
    case (Suc m)
    with that o(4) show ?thesis by simp
  qed
  moreover have "field (obr_zrp obr') k xs = field (obr_zrp obr) k xs"
    if "k + length xs \<le> 40 + 4 * unat i \<or> 40 + 4 * (unat i + length (l # ls)) \<le> k" for k xs
    using o(5) [rule_format, of k xs] that Cons.prems by auto
  ultimately show ?case using s o(1-3) by (intro exI [of _ obr']) (simp add: algebra_simps)
qed simp

lemma ucast_u16_small: "n < 2 ^ 16 \<Longrightarrow> ucast (ucast (of_nat n :: u32) :: u16) = (of_nat n :: u32)"
  by (simp add: unat_eq_iff unsigned_ucast_eq unsigned_take_bit_eq unat_of_nat take_bit_nat_eq_self)

lemma parse_ok:
  assumes h: "request_header b fhash (of_nat ulen) num pad r" and len: "length b = 40 + 4 * unat num + ulen"
    and fit: "length b < 2 ^ 32" "ulen < 2 ^ 16" and nul: "0 < ulen \<Longrightarrow> b ! (40 + 4 * unat num + (ulen - 1)) = 0"
  shows "ZFileRequest_parse b = Some (Some
           \<lparr>zrp_bytes = b, req_hash = fhash, num_tree_locations = num, padding_request = pad, req_data_range = r,
            req_url_hint = (if ulen = 0 then None else Some (40 + 4 * num))\<rparr>)"
proof -
  have g: "get16 b 0 = Some 20" "get16 b 2 = Some (of_nat ulen)" "get32 b 24 = Some num" "get32 b 28 = Some pad"
    "get32 b 32 = Some (dr_start r)" "get32 b 36 = Some (dr_end r)" "get_hash b 4 = Some fhash"
    using h fit(2) ucast_u16_small [of ulen] get_ok(1) [of b 0 20] get_ok(1) [of b 2 "of_nat ulen"]
    by (simp_all add: request_header_def get_ok(2,3))
  have n4: "unat (4 * num) = 4 * unat num" using len fit(1) by (simp add: unat_word_ariths)
  have off: "unat (40 + 4 * num) = 40 + 4 * unat num" using len fit(1) n4 by (subst unat_add_small) simp_all
  have u: "unat (of_nat ulen :: u32) = ulen" using fit(2) by (intro unat_of_nat_u32) simp
  have l: "unat (of_nat (length b) :: u32) = length b" using fit(1) by (rule unat_of_nat_u32)
  have "unat (40 + 4 * num + of_nat ulen) = 40 + 4 * unat num + ulen" using fit(1) len off u by (subst unat_add_small) simp_all
  then have c: "40 \<le> (of_nat (length b) :: u32)" "40 + 4 * num + of_nat ulen \<le> (of_nat (length b) :: u32)"
    using len l by (simp_all add: word_nat)
  have r: "DataRange_of (dr_start r) (dr_end r) = r" by (simp add: DataRange_of_def)
  show ?thesis
  proof (cases "ulen = 0")
    case True
    with g c r show ?thesis by (simp add: ZFileRequest_parse_def)
  next
    case False
    then have "unat (of_nat ulen - 1 :: u32) = ulen - 1" using u by (simp add: unat_sub_le)
    then have p: "unat (40 + 4 * num + (of_nat ulen - 1)) = 40 + 4 * unat num + (ulen - 1)"
      using fit(1) len off False by (subst unat_add_small) simp_all
    have "0 < (of_nat ulen :: u32)" using u False by (simp add: word_nat)
    with False g c r p nul len show ?thesis by (simp add: ZFileRequest_parse_def rd_def Let_def)
  qed
qed

lemma written_request:
  assumes raw: "\<forall>n. length (raw n) = unat n" and fit: "40 + 4 * length locs + hint_len url_hint < 2 ^ 32"
    and hint: "hint_len url_hint < 2 ^ 16"
  shows "\<exists>obr zrp req. OutboundRequest_new raw fhash url_hint (of_nat (length locs)) pad r \<bind> (\<lambda>obr. set_locations obr 0 locs) = Some obr \<and>
           get_zrp obr = Some zrp \<and> ZFileRequest_parse zrp = Some (Some req) \<and>
           req_hash req = fhash \<and> num_tree_locations req = of_nat (length locs) \<and> padding_request req = pad \<and> req_data_range req = r \<and>
           (\<forall>j < length locs. get_tree_location req (of_nat j) = Some (locs ! j)) \<and>
           (case url_hint of None \<Rightarrow> req_url_hint req = None
            | Some u \<Rightarrow> \<exists>off. req_url_hint req = Some off \<and> field zrp (unat off) (u @ [0]))"
proof -
  let ?n = "length locs"
  have n: "unat (of_nat ?n :: u32) = ?n" using fit by (intro unat_of_nat_u32) simp
  obtain obr where o: "OutboundRequest_new raw fhash url_hint (of_nat ?n) pad r = Some obr"
    "length (obr_zrp obr) = 40 + 4 * ?n + hint_len url_hint" "dbg_locations_remaining obr = of_nat ?n"
    "request_header (obr_zrp obr) fhash (of_nat (hint_len url_hint)) (of_nat ?n) pad r"
    "\<forall>u. url_hint = Some u \<longrightarrow> field (obr_zrp obr) (40 + 4 * ?n) (u @ [0])"
    using OutboundRequest_new_ok [OF raw, of "of_nat ?n" url_hint fhash pad r] fit n by auto
  obtain obr' where o': "set_locations obr 0 locs = Some obr'" "length (obr_zrp obr') = length (obr_zrp obr)"
    "dbg_locations_remaining obr' = 0" "\<forall>j < ?n. field (obr_zrp obr') (40 + 4 * j) (f32 (locs ! j))"
    "\<forall>k xs. k + length xs \<le> 40 \<or> 40 + 4 * ?n \<le> k \<longrightarrow> field (obr_zrp obr') k xs = field (obr_zrp obr) k xs"
    using set_locations_ok [of 0 locs obr] o(2,3) fit by auto
  let ?b = "obr_zrp obr'"
  have h: "request_header ?b fhash (of_nat (hint_len url_hint)) (of_nat ?n) pad r"
    using o(4) o'(5) by (simp add: request_header_def)
  have u: "\<forall>u. url_hint = Some u \<longrightarrow> field ?b (40 + 4 * ?n) (u @ [0])" using o(5) o'(5) by simp
  then have "0 < hint_len url_hint \<Longrightarrow> ?b ! (40 + 4 * unat (of_nat ?n :: u32) + (hint_len url_hint - 1)) = 0"
    using n by (auto simp: hint_len_def add.assoc dest: field_snoc split: option.splits)
  note parsed = parse_ok [OF h _ _ hint this]
  define req where "req = \<lparr>zrp_bytes = ?b, req_hash = fhash, num_tree_locations = of_nat ?n, padding_request = pad, req_data_range = r,
     req_url_hint = (if hint_len url_hint = 0 then None else Some (40 + 4 * of_nat ?n))\<rparr>"
  have req: "ZFileRequest_parse ?b = Some (Some req)" "zrp_bytes req = ?b" "req_hash req = fhash" "num_tree_locations req = of_nat ?n"
      "padding_request req = pad" "req_data_range req = r" "req_url_hint req = (if hint_len url_hint = 0 then None else Some (40 + 4 * of_nat ?n))"
    using parsed o(2) o'(2) fit n by (simp_all add: req_def)
  have "get_tree_location req (of_nat j) = Some (locs ! j)" if "j < ?n" for j
  proof -
    have j: "unat (of_nat j :: u32) = j" using that fit by (intro unat_of_nat_u32) simp
    then have "unat (4 * of_nat j :: u32) = 4 * j" using that fit by (simp add: unat_word_ariths)
    then have "unat (40 + 4 * of_nat j :: u32) = 40 + 4 * j" using that fit by (subst unat_add_small) simp_all
    with o'(4) that req(2) show ?thesis by (simp add: get_tree_location_def get_ok)
  qed
  moreover have "unat (4 * of_nat ?n :: u32) = 4 * ?n" using n fit by (simp add: unat_word_ariths)
  then have "unat (40 + 4 * of_nat ?n :: u32) = 40 + 4 * ?n" using fit by (subst unat_add_small) simp_all
  ultimately show ?thesis using o(1) o'(1,3) req u
    by (intro exI [of _ obr'] exI [of _ ?b] exI [of _ req]) (auto simp: get_zrp_def hint_len_def split: option.splits)
qed

subsection \<open>Properties\<close>

text \<open>C33. The server reads a request as the client wrote it, if the hint is shorter than \<open>2^16\<close> bytes and the packet shorter
  than \<open>2^32\<close>: the file, the tree locations in their order, the padding, the
  data range and the hint arrive unchanged.\<close>

theorem request_roundtrip:
  assumes raw: "\<forall>n. length (raw n) = unat n" and fit: "40 + 4 * length locs + hint_len url_hint < 2 ^ 32"
    and hint: "hint_len url_hint < 2 ^ 16"
  shows "\<exists>obr zrp req. OutboundRequest_new raw fhash url_hint (of_nat (length locs)) pad r \<bind> (\<lambda>obr. set_locations obr 0 locs) = Some obr \<and>
           get_zrp obr = Some zrp \<and> ZFileRequest_parse zrp = Some (Some req) \<and>
           req_hash req = fhash \<and> num_tree_locations req = of_nat (length locs) \<and> padding_request req = pad \<and> req_data_range req = r \<and>
           (\<forall>j < length locs. get_tree_location req (of_nat j) = Some (locs ! j)) \<and>
           (case url_hint of None \<Rightarrow> req_url_hint req = None
            | Some u \<Rightarrow> \<exists>off. req_url_hint req = Some off \<and> field zrp (unat off) (u @ [0]))"
  using assms by (rule written_request)

theorem request_roundtrip_witness:
  "\<exists>obr zrp req. OutboundRequest_new (\<lambda>n. replicate (unat n) 0) 5 (Some [104, 105]) 2 0 (DataRange_of 65536 70000) \<bind>
       (\<lambda>obr. set_locations obr 0 [3, 4]) = Some obr \<and>
     get_zrp obr = Some zrp \<and> ZFileRequest_parse zrp = Some (Some req) \<and> req_hash req = 5 \<and> get_tree_location req 1 = Some 4"
proof -
  let ?obr = "OutboundRequest_new (\<lambda>n. replicate (unat n) 0) 5 (Some [104, 105]) 2 0 (DataRange_of 65536 70000) \<bind> (\<lambda>obr. set_locations obr 0 [3, 4])"
  have "40 + 4 * length [3 :: u32, 4] + hint_len (Some [104, 105]) < 2 ^ 32" "hint_len (Some [104, 105]) < 2 ^ 16" by (simp_all add: hint_len_def)
  from request_roundtrip [OF _ this, of "\<lambda>n. replicate (unat n) 0" 5 0 "DataRange_of 65536 70000"] obtain obr zrp req where
    r: "?obr = Some obr" "get_zrp obr = Some zrp" "ZFileRequest_parse zrp = Some (Some req)" "req_hash req = 5"
      "\<forall>j < length [3 :: u32, 4]. get_tree_location req (of_nat j) = Some ([3, 4] ! j)" by auto
  from r(5) [rule_format, of 1] r(1-4) show ?thesis by (intro exI [of _ obr] exI [of _ zrp] exI [of _ req]) simp
qed

text \<open>The length check of a request wraps around: a packet of 40 bytes that announces \<open>2^30\<close> locations is accepted, and the
  first of these locations is outside the packet.\<close>

theorem request_count_wraps:
  assumes "\<forall>n. length (raw n) = unat n"
  shows "\<exists>obr req. OutboundRequest_new raw fhash None 0x40000000 pad r = Some obr \<and>
           ZFileRequest_parse (obr_zrp obr) = Some (Some req) \<and> num_tree_locations req = 0x40000000 \<and> get_tree_location req 0 = None"
proof -
  have w: "4 * 0x40000000 = (0 :: u32)" by simp
  have e: "(4294967336 :: u32) = 40" by simp
  have "length (raw 40) = 40" using assms by simp
  then obtain obr where o: "OutboundRequest_new raw fhash None 0x40000000 pad r = Some obr" "length (obr_zrp obr) = 40"
    "request_header (obr_zrp obr) fhash 0 0x40000000 pad r"
    by (simp add: OutboundRequest_new_def Let_def put_ok wr_bytes_def request_header_def e)
  let ?b = "obr_zrp obr"
  have g: "get16 ?b 0 = Some 20" "get16 ?b 2 = Some 0" "get32 ?b 24 = Some 0x40000000" "get32 ?b 28 = Some pad"
    "get32 ?b 32 = Some (dr_start r)" "get32 ?b 36 = Some (dr_end r)" "get_hash ?b 4 = Some fhash"
    using o(3) get_ok(1) [of ?b 0 20] get_ok(1) [of ?b 2 0] by (simp_all add: request_header_def get_ok(2,3))
  let ?req = "\<lparr>zrp_bytes = ?b, req_hash = fhash, num_tree_locations = 0x40000000, padding_request = pad, req_data_range = r, req_url_hint = None\<rparr>"
  have "ZFileRequest_parse ?b = Some (Some ?req)"
    using g o(2) by (simp add: ZFileRequest_parse_def w DataRange_of_def)
  moreover have "get_tree_location ?req 0 = None" using o(2) by (simp add: get_tree_location_def get32_def rd_bytes_def)
  ultimately show ?thesis using o(1) by (intro exI [of _ obr] exI [of _ ?req]) simp
qed

theorem request_count_wraps_witness:
  "\<exists>obr req. OutboundRequest_new (\<lambda>n. replicate (unat n) 0) 5 None 0x40000000 0 DataRange_new = Some obr \<and>
     ZFileRequest_parse (obr_zrp obr) = Some (Some req) \<and> num_tree_locations req = 0x40000000 \<and> get_tree_location req 0 = None"
  by (rule request_count_wraps) simp

end
