(* ===== verification/Reply.thy ===== *)
theory Reply
  imports ZcbBuf Wire
begin

text \<open>
  Replies of the file server: what it writes for a request it can answer
  (\<open>src/common/zftp_module/ValidFileResult.cpp\<close>) or not (\<open>ErrorFileResult.cpp\<close>), and how a client takes the packet
  apart (\<open>ZFileReplyFromServer.cpp\<close>).
\<close>

subsection \<open>The server\<close>

definition get_available_data_range :: "ZCachedFile \<Rightarrow> ZFileRequest \<Rightarrow> DataRange option" where
  "get_available_data_range zf req = do {
     file_range \<leftarrow> get_file_data_range zf;
     Some (DataRange_intersect (req_data_range req) file_range)
   }"

definition get_reply_size :: "ZCachedFile \<Rightarrow> ZFileRequest \<Rightarrow> u32 option" where
  "get_reply_size zf req = do {
     rng \<leftarrow> get_available_data_range zf req;
     Some (49 + 24 * num_tree_locations req + padding_request req + DataRange_size rng)
   }"

definition fill_file_header :: "ZCachedFile \<Rightarrow> bytes \<Rightarrow> bytes option" where
  "fill_file_header zf zdp = do {
     zdp \<leftarrow> put16 zdp 0 0;
     zdp \<leftarrow> put16 zdp 2 20;
     zdp \<leftarrow> wr_bytes zdp 4 [16];
     zdp \<leftarrow> put16 zdp 5 2;
     zdp \<leftarrow> wr_bytes zdp 7 (hash_bytes (file_hash zf));
     zdp \<leftarrow> wr_bytes zdp 27 (bytes_of_u32 (file_len_network_order (metadata zf)));
     wr_bytes zdp 31 (bytes_of_u32 (md_flags (metadata zf)))
   }"

definition fill_header :: "ZCachedFile \<Rightarrow> ZFileRequest \<Rightarrow> DataRange \<Rightarrow> bytes \<Rightarrow> bytes option" where
  "fill_header zf req rng zdp = do {
     zdp \<leftarrow> fill_file_header zf zdp;
     zdp \<leftarrow> put32 zdp 37 (padding_request req);
     zdp \<leftarrow> put32 zdp 41 (dr_start rng);
     zdp \<leftarrow> put32 zdp 45 (dr_end rng);
     put16 zdp 35 (num_tree_locations req)
   }"

definition fill_record :: "ZCachedFile \<Rightarrow> ZFileRequest \<Rightarrow> bytes \<Rightarrow> u32 \<Rightarrow> bytes option" where
  "fill_record zf req zdp idx = do {
     location \<leftarrow> get_tree_location req idx;
     zdp \<leftarrow> put32 zdp (unat (49 + 24 * idx)) location;
     vmr \<leftarrow> get_validated_merkle_record zf location;
     wr_bytes zdp (unat (49 + 24 * idx + 4)) (hash_bytes (vmr_hash vmr))
   }"

definition fill_reply ::
    "(hash_t \<Rightarrow> bytes) \<Rightarrow> ZCachedFile \<Rightarrow> ZBlockCache \<Rightarrow> ZFileRequest \<Rightarrow> ValidatedZCB \<Rightarrow> (ZBlockCache \<times> ValidatedZCB) option" where
  "fill_reply mem zf bc req vbuf = do {
     rng \<leftarrow> get_available_data_range zf req;
     zdp \<leftarrow> fill_header zf req rng (zcb_data vbuf);
     zdp \<leftarrow> foldM (fill_record zf req) zdp (map of_nat [0..<unat (num_tree_locations req)]);
     let data = 49 + 24 * num_tree_locations req;
     zdp \<leftarrow> wr_bytes zdp (unat data) (replicate (unat (padding_request req)) 0);
     let data = data + padding_request req;
     zf_read ValidatedZCB_Buf mem zf bc (vbuf\<lparr>zcb_data := zdp\<rparr>) data (dr_start rng) (DataRange_size rng)
   }"

text \<open>An error reply: the code and the message with its final NUL.\<close>

definition error_reply_size :: "bytes \<Rightarrow> u32" where
  "error_reply_size msg = 24 + (of_nat (length msg) + 1)"

definition error_fill_reply :: "ZCachedFile \<Rightarrow> u16 \<Rightarrow> bytes \<Rightarrow> bytes \<Rightarrow> bytes option" where
  "error_fill_reply zf code msg zdp = do {
     zdp \<leftarrow> put16 zdp 0 (ucast code);
     zdp \<leftarrow> put16 zdp 2 (of_nat (length msg) + 1);
     zdp \<leftarrow> wr_bytes zdp 4 (hash_bytes (file_hash zf));
     wr_bytes zdp 24 (msg @ [0])
   }"

subsection \<open>The client\<close>

definition get_merkle_record :: "bytes \<Rightarrow> nat \<Rightarrow> ZFTPMerkleRecord option" where
  "get_merkle_record b i = do {
     location \<leftarrow> get32 b (49 + 24 * i);
     h \<leftarrow> get_hash b (49 + 24 * i + 4);
     Some \<lparr>tree_location = location, mr_hash = h\<rparr>
   }"

definition get_metadata :: "bytes \<Rightarrow> ZFTPFileMetadata option" where
  "get_metadata b = do {
     l \<leftarrow> rd_bytes b 27 4;
     f \<leftarrow> rd_bytes b 31 4;
     Some \<lparr>file_len_network_order = u32_of_bytes l, md_flags = u32_of_bytes f\<rparr>
   }"

text \<open>The outer option is a failed assertion, the inner one a packet that is not valid.\<close>

definition ZFileReplyFromServer_new :: "bytes \<Rightarrow> ZFileReply option option" where
  "ZFileReplyFromServer_new zcb = do {
     let len = (of_nat (length zcb) :: u32);
     if \<not> 2 \<le> len then Some None
     else do {
       code \<leftarrow> get16 zcb 0;
       if code \<noteq> 0 then Some None
       else if \<not> 49 \<le> len then Some None
       else do {
         num_merkle_records \<leftarrow> get16 zcb 35;
         lite_assert (49 + 24 * num_merkle_records \<le> len);
         padding_size \<leftarrow> get32 zcb 37;
         let prefix_bytes = 49 + 24 * num_merkle_records + padding_size;
         if len < prefix_bytes then Some None
         else do {
           start \<leftarrow> get32 zcb 41;
           stop \<leftarrow> get32 zcb 45;
           md \<leftarrow> get_metadata zcb;
           records \<leftarrow> those (map (get_merkle_record zcb) [0..<unat num_merkle_records]);
           Some (Some \<lparr>reply_metadata = md, reply_records = records, data_start = start, data_end = stop,
                       reply_payload = drop (unat prefix_bytes) zcb\<rparr>)
         }
       }
     }
   }"

subsection \<open>What the reply holds\<close>

definition reply_header :: "bytes \<Rightarrow> ZCachedFile \<Rightarrow> u32 \<Rightarrow> u32 \<Rightarrow> DataRange \<Rightarrow> bool" where
  "reply_header b zf num pad rng \<longleftrightarrow>
     field b 0 (f16 0) \<and> field b 27 (bytes_of_u32 (file_len_network_order (metadata zf))) \<and>
     field b 31 (bytes_of_u32 (md_flags (metadata zf))) \<and> field b 35 (f16 num) \<and> field b 37 (f32 pad) \<and>
     field b 41 (f32 (dr_start rng)) \<and> field b 45 (f32 (dr_end rng))"

lemma fill_file_header_ok:
  assumes "49 \<le> length b"
  shows "\<exists>b'. fill_file_header zf b = Some b' \<and> length b' = length b \<and> field b' 0 (f16 0) \<and>
           field b' 27 (bytes_of_u32 (file_len_network_order (metadata zf))) \<and> field b' 31 (bytes_of_u32 (md_flags (metadata zf)))"
  using assms by (simp add: fill_file_header_def put_ok wr_bytes_def)

lemma fill_header_ok:
  assumes "49 \<le> length b"
  shows "\<exists>b'. fill_header zf req rng b = Some b' \<and> length b' = length b \<and>
           reply_header b' zf (num_tree_locations req) (padding_request req) rng"
proof -
  from fill_file_header_ok [OF assms] obtain b1 where b1: "fill_file_header zf b = Some b1" "length b1 = length b" "field b1 0 (f16 0)"
    "field b1 27 (bytes_of_u32 (file_len_network_order (metadata zf)))" "field b1 31 (bytes_of_u32 (md_flags (metadata zf)))" by blast
  with assms show ?thesis by (simp add: fill_header_def put_ok reply_header_def)
qed

definition answers :: "ZCachedFile \<Rightarrow> ZFileRequest \<Rightarrow> u32 list \<Rightarrow> bool" where
  "answers zf req locs \<longleftrightarrow>
     num_tree_locations req = of_nat (length locs) \<and> length locs < 2 ^ 16 \<and>
     (\<forall>j < length locs. get_tree_location req (of_nat j) = Some (locs ! j) \<and>
        unat (locs ! j) < length (tree zf) \<and> st zf (unat (locs ! j)) = v_validated)"

definition record_at :: "ZCachedFile \<Rightarrow> bytes \<Rightarrow> nat \<Rightarrow> u32 \<Rightarrow> bool" where
  "record_at zf b j loc \<longleftrightarrow> field b (49 + 24 * j) (f32 loc) \<and> field b (49 + 24 * j + 4) (hash_bytes (hs zf (unat loc)))"

lemma fill_record_ok:
  assumes "answers zf req locs" and "j < length locs" and "49 + 24 * (j + 1) \<le> length b" and "length b < 2 ^ 32"
  shows "fill_record zf req b (of_nat j) =
    Some (overwrite (overwrite b (49 + 24 * j) (f32 (locs ! j))) (49 + 24 * j + 4) (hash_bytes (hs zf (unat (locs ! j)))))"
proof -
  have j: "unat (of_nat j :: u32) = j" using assms(3,4) by (intro unat_of_nat_u32) simp
  then have n24: "unat (24 * of_nat j :: u32) = 24 * j" using assms(3,4) by (simp add: unat_word_ariths)
  then have o: "unat (49 + 24 * of_nat j :: u32) = 49 + 24 * j" using assms(3,4) by (subst unat_add_small) simp_all
  have "unat (53 :: u32) + unat (24 * of_nat j :: u32) < 2 ^ LENGTH(32)" using assms(3,4) n24 by simp
  from unat_add_small [OF this] n24 have o4: "unat (53 + 24 * of_nat j :: u32) = 53 + 24 * j" by simp
  from assms(1,2) have "get_tree_location req (of_nat j) = Some (locs ! j)"
    "get_validated_merkle_record zf (locs ! j) = Some (tree zf ! unat (locs ! j))"
    by (simp_all add: answers_def get_validated_merkle_record_def rd_def)
  with assms(3) show ?thesis by (simp add: fill_record_def put_ok o wr_bytes_def o4)
qed

lemma fill_records_ok:
  assumes "answers zf req locs" and "n \<le> length locs" and "49 + 24 * n \<le> length b" and "length b < 2 ^ 32"
  shows "\<exists>b'. foldM (fill_record zf req) b (map of_nat [0..<n]) = Some b' \<and> length b' = length b \<and>
           (\<forall>j < n. record_at zf b' j (locs ! j)) \<and> (\<forall>k xs. k + length xs \<le> 49 \<longrightarrow> field b' k xs = field b k xs)"
  using assms(2,3)
proof (induction n)
  case (Suc n)
  then obtain b1 where b1: "foldM (fill_record zf req) b (map of_nat [0..<n]) = Some b1" "length b1 = length b"
    "\<forall>j < n. record_at zf b1 j (locs ! j)" "\<forall>k xs. k + length xs \<le> 49 \<longrightarrow> field b1 k xs = field b k xs" by auto
  let ?b = "overwrite (overwrite b1 (49 + 24 * n) (f32 (locs ! n))) (49 + 24 * n + 4) (hash_bytes (hs zf (unat (locs ! n))))"
  have f: "fill_record zf req b1 (of_nat n) = Some ?b" using fill_record_ok [OF assms(1), of n b1] Suc.prems b1(2) assms(4) by simp
  have "record_at zf ?b j (locs ! j)" if "j < Suc n" for j
  proof (cases "j = n")
    case True
    with Suc.prems b1(2) show ?thesis by (simp add: record_at_def)
  next
    case False
    with that have "j < n" by simp
    then have "24 * j + 24 \<le> 24 * n" by simp
    with \<open>j < n\<close> b1(3) Suc.prems b1(2) show ?thesis by (simp add: record_at_def)
  qed
  moreover have "field ?b k xs = field b k xs" if "k + length xs \<le> 49" for k xs
    using b1(4) that Suc.prems b1(2) by simp
  ultimately show ?case using b1(1,2) f Suc.prems by (simp add: foldM_append)
qed simp

text \<open>The available range lies in the file.\<close>

lemma available_range:
  assumes "configured zf"
  shows "\<exists>rng. get_available_data_range zf req = Some rng \<and> unat (dr_start rng) \<le> unat (dr_end rng) \<and>
           unat (dr_end rng) \<le> unat (get_filelen zf) \<and> unat (DataRange_size rng) = unat (dr_end rng) - unat (dr_start rng)"
proof -
  have "metadata_state zf = v_validated" using assms by (simp add: configured_def)
  then have "get_available_data_range zf req = Some (DataRange_intersect (req_data_range req) (DataRange_of 0 (get_filelen zf)))"
    by (simp add: get_available_data_range_def get_file_data_range_def)
  moreover have "dr_wf (DataRange_intersect (req_data_range req) (DataRange_of 0 (get_filelen zf)))" by (rule intersect_wf)
  moreover have "dr_end (DataRange_intersect (req_data_range req) (DataRange_of 0 (get_filelen zf))) \<le> get_filelen zf"
    by (auto simp: DataRange_intersect_def Let_def DataRange_new_def DataRange_of_def)
  ultimately show ?thesis by (auto simp: dr_wf_def DataRange_size_def word_le_nat_alt unat_sub_le)
qed

definition servable :: "ZCachedFile \<Rightarrow> ZBlockCache \<Rightarrow> ZFileRequest \<Rightarrow> u32 list \<Rightarrow> DataRange \<Rightarrow> bool" where
  "servable zf bc req locs rng \<longleftrightarrow>
     answers zf req locs \<and> get_available_data_range zf req = Some rng \<and> unat (dr_start rng) mod 65536 = 0 \<and>
     blocks_ready zf bc (unat (dr_start rng)) (unat (dr_end rng)) \<and> (\<forall>h b. bc_blocks bc h = Some b \<longrightarrow> zb_hash b \<noteq> 0) \<and>
     49 + 24 * length locs + unat (padding_request req) + (unat (dr_end rng) - unat (dr_start rng)) < 2 ^ 32"

lemma fill_reply_ok:
  assumes c: "configured zf" and ok: "cache_ok zhash mem bc" and s: "servable zf bc req locs rng"
    and len: "length buffer = 49 + 24 * length locs + unat (padding_request req) + (unat (dr_end rng) - unat (dr_start rng))"
  shows "\<exists>bc' vbuf. fill_reply mem zf bc req (ValidatedZCB_new buffer) = Some (bc', vbuf) \<and> length (zcb_data vbuf) = length buffer \<and>
           reply_header (zcb_data vbuf) zf (num_tree_locations req) (padding_request req) rng \<and>
           (\<forall>j < length locs. record_at zf (zcb_data vbuf) j (locs ! j)) \<and>
           drop (49 + 24 * length locs + unat (padding_request req)) (zcb_data vbuf) =
             map (file_byte zf bc) [unat (dr_start rng)..<unat (dr_end rng)] \<and>
           cache_ok zhash mem bc' \<and> bc_blocks bc' = bc_blocks bc"
proof -
  let ?n = "length locs" and ?p = "unat (padding_request req)" and ?S = "unat (dr_start rng)" and ?E = "unat (dr_end rng)"
  from s have ans: "answers zf req locs" and g: "get_available_data_range zf req = Some rng" and al: "?S mod 65536 = 0"
    and rdy: "blocks_ready zf bc ?S ?E" and nz: "\<forall>h b. bc_blocks bc h = Some b \<longrightarrow> zb_hash b \<noteq> 0"
    and fit: "49 + 24 * ?n + ?p + (?E - ?S) < 2 ^ 32" by (simp_all add: servable_def)
  from available_range [OF c, of req] g have r: "?S \<le> ?E" "?E \<le> unat (get_filelen zf)" "unat (DataRange_size rng) = ?E - ?S" by auto
  from ans have num: "num_tree_locations req = of_nat ?n" and n16: "?n < 2 ^ 16" by (simp_all add: answers_def)
  have n: "unat (of_nat ?n :: u32) = ?n" using n16 by (intro unat_of_nat_u32) simp
  have n24: "unat (24 * of_nat ?n :: u32) = 24 * ?n" using n n16 by (simp add: unat_word_ariths)
  have o: "unat (49 + 24 * of_nat ?n :: u32) = 49 + 24 * ?n" using n24 n16 by (subst unat_add_small) simp_all
  have o2: "unat (49 + 24 * of_nat ?n + padding_request req) = 49 + 24 * ?n + ?p" using o fit by (subst unat_add_small) simp_all
  obtain b1 where b1: "fill_header zf req rng buffer = Some b1" "length b1 = length buffer"
    "reply_header b1 zf (num_tree_locations req) (padding_request req) rng" using fill_header_ok [of buffer zf req rng] len by auto
  obtain b2 where b2: "foldM (fill_record zf req) b1 (map of_nat [0..<?n]) = Some b2" "length b2 = length buffer"
    "\<forall>j < ?n. record_at zf b2 j (locs ! j)" "\<forall>k xs. k + length xs \<le> 49 \<longrightarrow> field b2 k xs = field b1 k xs"
    using fill_records_ok [OF ans order_refl, of b1] b1(2) len fit by auto
  define b3 where "b3 = overwrite b2 (49 + 24 * ?n) (replicate ?p 0)"
  have l3: "length b3 = length buffer" using b2(2) len by (simp add: b3_def)
  let ?z = "(ValidatedZCB_new buffer)\<lparr>zcb_data := b3\<rparr>" and ?pos = "49 + 24 * of_nat ?n + padding_request req"
  have lb: "length buffer < 2 ^ 32" using len fit by simp
  have "\<exists>bc' vbuf. zf_read ValidatedZCB_Buf mem zf bc ?z ?pos (dr_start rng) (DataRange_size rng) = Some (bc', vbuf) \<and>
      zcb_data vbuf = overwrite b3 (unat ?pos) (map (file_byte zf bc) [?S..<?S + unat (DataRange_size rng)]) \<and>
      cache_ok zhash mem bc' \<and> bc_blocks bc' = bc_blocks bc"
    using zcb.zf_read_ok [OF c ok, of "dr_start rng" "DataRange_size rng" ?pos ?z] r rdy nz al o2 len l3 lb
      ValidatedZCB_new_ok(1) [OF lb l3, of ?pos]
    by (simp add: zcb.all_usable_def zcb.steady_def ValidatedZCB_Buf_def)
  then obtain bc' vbuf where v: "zf_read ValidatedZCB_Buf mem zf bc ?z ?pos (dr_start rng) (DataRange_size rng) = Some (bc', vbuf)"
    "zcb_data vbuf = overwrite b3 (49 + 24 * ?n + ?p) (map (file_byte zf bc) [?S..<?E])" "cache_ok zhash mem bc'" "bc_blocks bc' = bc_blocks bc"
    using r o2 by auto
  have "fill_reply mem zf bc req (ValidatedZCB_new buffer) = Some (bc', vbuf)"
    using g b1(1) b2(1) v(1) b2(2) len n o ValidatedZCB_new_ok(3) [OF lb]
    by (simp add: fill_reply_def num wr_bytes_def b3_def Let_def del: of_nat_unat)
  moreover have keep: "field (zcb_data vbuf) k xs = field b2 k xs" if "k + length xs \<le> 49 + 24 * ?n" for k xs
    using that l3 len b2(2) unfolding v(2) b3_def by simp
  moreover have "\<forall>j < ?n. record_at zf (zcb_data vbuf) j (locs ! j)"
  proof (intro allI impI)
    fix j assume "j < ?n"
    then have "24 * j + 24 \<le> 24 * ?n" by simp
    with \<open>j < ?n\<close> b2(3) keep show "record_at zf (zcb_data vbuf) j (locs ! j)" by (simp add: record_at_def)
  qed
  moreover have "reply_header (zcb_data vbuf) zf (num_tree_locations req) (padding_request req) rng"
    using b1(3) b2(4) keep by (simp add: reply_header_def)
  moreover have "length (zcb_data vbuf) = length buffer" using l3 len unfolding v(2) by simp
  moreover have "drop (49 + 24 * ?n + ?p) (zcb_data vbuf) = map (file_byte zf bc) [?S..<?E]"
    using l3 len unfolding v(2) by (simp add: overwrite_def)
  ultimately show ?thesis using v(3,4) by blast
qed

lemma those_map: "(\<And>j. j < n \<Longrightarrow> f j = Some (g j)) \<Longrightarrow> those (map f [0..<n]) = Some (map g [0..<n])"
  by (induction n arbitrary: f g) (auto simp: upt_conv_Cons map_Suc_upt [symmetric] comp_def simp del: upt_Suc)

definition served :: "ZCachedFile \<Rightarrow> u32 \<Rightarrow> ZFTPMerkleRecord" where
  "served zf loc = \<lparr>tree_location = loc, mr_hash = hs zf (unat loc)\<rparr>"

lemma parse_reply_ok:
  assumes h: "reply_header b zf (of_nat (length locs)) pad rng" and rec: "\<forall>j < length locs. record_at zf b j (locs ! j)"
    and n16: "length locs < 2 ^ 16" and fit: "49 + 24 * length locs + unat pad \<le> length b" "length b < 2 ^ 32"
  shows "ZFileReplyFromServer_new b = Some (Some
    \<lparr>reply_metadata = metadata zf, reply_records = map (served zf) locs, data_start = dr_start rng, data_end = dr_end rng,
     reply_payload = drop (49 + 24 * length locs + unat pad) b\<rparr>)"
proof -
  let ?n = "length locs" and ?len = "of_nat (length b) :: u32"
  have g: "get16 b 0 = Some 0" "get16 b 35 = Some (of_nat ?n)" "get32 b 37 = Some pad"
    "get32 b 41 = Some (dr_start rng)" "get32 b 45 = Some (dr_end rng)"
    using h get_ok(1) [of b 0 0] get_ok(1) [of b 35 "of_nat ?n"] ucast_u16_small [OF n16] by (simp_all add: reply_header_def get_ok(2))
  have md: "get_metadata b = Some (metadata zf)"
    using h by (simp add: reply_header_def get_metadata_def rd_bytes_def field_def)
  have n: "unat (of_nat ?n :: u32) = ?n" using n16 by (intro unat_of_nat_u32) simp
  have n24: "unat (24 * of_nat ?n :: u32) = 24 * ?n" using n n16 by (simp add: unat_word_ariths)
  have o: "unat (49 + 24 * of_nat ?n :: u32) = 49 + 24 * ?n" using n24 n16 by (subst unat_add_small) simp_all
  have o2: "unat (49 + 24 * of_nat ?n + pad) = 49 + 24 * ?n + unat pad" using o fit by (subst unat_add_small) simp_all
  have l: "unat ?len = length b" using fit(2) by (rule unat_of_nat_u32)
  have c: "2 \<le> ?len" "49 \<le> ?len" "49 + 24 * of_nat ?n \<le> ?len" "\<not> ?len < 49 + 24 * of_nat ?n + pad"
    using l o o2 fit(1) by (simp_all add: word_nat)
  have "get_merkle_record b j = Some (served zf (locs ! j))" if "j < ?n" for j
    using rec that get_ok(2) [of b "49 + 24 * j" "locs ! j"] get_ok(3) [of b "49 + 24 * j + 4" "hs zf (unat (locs ! j))"]
    by (simp add: get_merkle_record_def record_at_def served_def)
  then have "those (map (get_merkle_record b) [0..<?n]) = Some (map (\<lambda>j. served zf (locs ! j)) [0..<?n])" by (rule those_map)
  moreover have "map (\<lambda>j. served zf (locs ! j)) [0..<?n] = map (served zf) locs" by (rule nth_equalityI) simp_all
  ultimately show ?thesis using g md c o2 n by (simp add: ZFileReplyFromServer_new_def)
qed

subsection \<open>Properties\<close>


text \<open>A request for the hash of location 2 and two bytes of the second block of a file of two blocks.\<close>

definition test_request :: ZFileRequest where
  "test_request = \<lparr>zrp_bytes = replicate 43 0 @ [2], req_hash = 0, num_tree_locations = 1, padding_request = 3,
     req_data_range = DataRange_of 65536 65538, req_url_hint = None\<rparr>"

lemma test_servable:
  assumes "bc_blocks bc = [1 \<mapsto> test_block]"
  shows "configured (test_file 1 131072 (\<lambda>_. v_validated))"
    and "servable (test_file 1 131072 (\<lambda>_. v_validated)) bc test_request [2] (DataRange_of 65536 65538)"
proof -
  let ?zf = "test_file 1 131072 (\<lambda>_. v_validated)"
  have "compute_tree_depth (compute_num_blocks 131072) = 1" by code_simp
  then show "configured ?zf" by (intro test_file_configured) simp_all
  have "get_tree_location test_request 0 = Some 2" by code_simp
  moreover have "num_tree_locations test_request = 1" "padding_request test_request = 3" "req_data_range test_request = DataRange_of 65536 65538"
    by (simp_all add: test_request_def)
  moreover have "DataRange_intersect (DataRange_of 65536 65538) (DataRange_of 0 131072) = DataRange_of 65536 65538" by code_simp
  moreover have "blocks_ready ?zf bc 65536 65538" by (rule test_ready) (simp_all add: assms)
  moreover have "dr_start (DataRange_of 65536 65538) = 65536" "dr_end (DataRange_of 65536 65538) = 65538" by (simp_all add: DataRange_of_def)
  moreover have "zb_hash test_block = 1" by (simp add: test_block_def)
  ultimately show "servable ?zf bc test_request [2] (DataRange_of 65536 65538)"
    by (simp add: servable_def answers_def get_available_data_range_def get_file_data_range_def test_file_sel assms)
qed


lemma get_defined:
  "i + 2 \<le> length b \<Longrightarrow> \<exists>v. get16 b i = Some v \<and> unat v < 2 ^ 16"
  "i + 4 \<le> length b \<Longrightarrow> \<exists>v. get32 b i = Some v"
proof -
  have "unat (ucast (w :: u16) :: u32) < 65536" for w
    using unat_less_exp [of w] by (simp add: unsigned_ucast_eq take_bit_nat_eq_self)
  then show "i + 2 \<le> length b \<Longrightarrow> \<exists>v. get16 b i = Some v \<and> unat v < 2 ^ 16" and "i + 4 \<le> length b \<Longrightarrow> \<exists>v. get32 b i = Some v"
    by (simp_all add: get16_def get32_def rd_bytes_def z_ntohg_def)
qed

text \<open>Whatever bytes arrive as a reply, the client never reads outside the packet: it aborts only on its own assertion, exactly
  when a data packet announces more hash records than it has room for. That assertion is the server's to trip.\<close>

theorem reply_parse_aborts_iff:
  assumes len: "length b < 2 ^ 32"
  shows "ZFileReplyFromServer_new b = None \<longleftrightarrow>
    49 \<le> length b \<and> get16 b 0 = Some 0 \<and> (\<exists>num. get16 b 35 = Some num \<and> length b < 49 + 24 * unat num)"
proof (cases "49 \<le> length b \<and> get16 b 0 = Some 0")
  case False
  have l: "unat (of_nat (length b) :: u32) = length b" using len by (rule unat_of_nat_u32)
  have "2 \<le> length b \<Longrightarrow> \<exists>v. get16 b 0 = Some v" using get_defined(1) [of 0 b] by auto
  with False l show ?thesis by (auto simp: ZFileReplyFromServer_new_def Let_def word_le_nat_alt)
next
  case True
  let ?len = "of_nat (length b) :: u32"
  have l: "unat ?len = length b" using len by (rule unat_of_nat_u32)
  from True obtain num where num: "get16 b 35 = Some num" "unat num < 2 ^ 16" using get_defined(1) [of 35 b] by auto
  from True obtain pad start stop md where g: "get32 b 37 = Some pad" "get32 b 41 = Some start" "get32 b 45 = Some stop" "get_metadata b = Some md"
    using get_defined(2) [of 37 b] get_defined(2) [of 41 b] get_defined(2) [of 45 b] by (auto simp: get_metadata_def rd_bytes_def)
  have n24: "unat (24 * num) = 24 * unat num" using num(2) by (simp add: unat_word_ariths)
  have o: "unat (49 + 24 * num) = 49 + 24 * unat num" using n24 num(2) by (subst unat_add_small) simp_all
  have c: "2 \<le> ?len" "49 \<le> ?len" "49 + 24 * num \<le> ?len \<longleftrightarrow> 49 + 24 * unat num \<le> length b"
    using True l o by (simp_all add: word_nat)
  have "\<exists>rs. those (map (get_merkle_record b) [0..<unat num]) = Some rs" if "49 + 24 * unat num \<le> length b"
  proof -
    have "\<exists>r. get_merkle_record b j = Some r" if "j < unat num" for j
    proof -
      have "49 + 24 * j + 24 \<le> length b" using that \<open>49 + 24 * unat num \<le> length b\<close> by linarith
      then show ?thesis
        using get_defined(2) [of "49 + 24 * j" b] by (auto simp: get_merkle_record_def get_hash_def rd_bytes_def)
    qed
    then have "those (map (get_merkle_record b) [0..<unat num]) = Some (map (\<lambda>j. the (get_merkle_record b j)) [0..<unat num])"
      by (intro those_map) force
    then show ?thesis by blast
  qed
  with True num g c show ?thesis by (auto simp: ZFileReplyFromServer_new_def Let_def)
qed

theorem reply_parse_aborts_iff_witness:
  "ZFileReplyFromServer_new (replicate 36 0 @ [1] @ replicate 12 0) = None"
proof -
  let ?b = "replicate 36 0 @ [1] @ replicate 12 0 :: bytes"
  have "get16 ?b 0 = Some 0" "get16 ?b 35 = Some 1" by code_simp+
  with reply_parse_aborts_iff [of ?b] show ?thesis by simp
qed

end
