(* ===== verification/Requests.thy ===== *)
theory Requests
  imports OrderedSet Wire Samples
begin

text \<open>
  Building the next request for a file, \<open>src/common/zftp_module/RequestBuilder.cpp\<close>. The tree locations
  to ask for are two AVL trees of locations; an element of a tree, a pointer into a record of
  the Merkle tree, is its location.
\<close>

record RequestBuilder =
  rb_mtu :: u32
  committed_tree_locations :: "u32 AVLTree"
  tentative_tree_locations :: "u32 AVLTree"
  request_range :: DataRange

datatype Disposition = COMMIT | ABORT

text \<open>\<open>_available\<close>: the bytes that are left of the reply. A data packet has a header of 49 bytes and 24 bytes per hash.\<close>

definition available :: "RequestBuilder \<Rightarrow> int option" where
  "available rb = do {
     c \<leftarrow> AVLTree_size (committed_tree_locations rb);
     t \<leftarrow> AVLTree_size (tentative_tree_locations rb);
     let consumed = 49 + 24 * (c + t) + DataRange_size (request_range rb);
     Some (sint (rb_mtu rb) - sint consumed)
   }"

definition request_hash :: "ZCachedFile \<Rightarrow> RequestBuilder \<Rightarrow> u32 \<Rightarrow> (RequestBuilder \<times> bool) option" where
  "request_hash zf rb location =
     (if AVLTree_lookup (\<lambda>x. x) (committed_tree_locations rb) location = None \<and>
         AVLTree_lookup (\<lambda>x. x) (tentative_tree_locations rb) location = None
      then do {
        vmr \<leftarrow> rd (tree zf) (unat location);
        if vmr_state vmr = v_unknown then do {
          t \<leftarrow> AVLTree_insert (\<lambda>x. x) (tentative_tree_locations rb) (vmr_location vmr);
          Some (rb\<lparr>tentative_tree_locations := t\<rparr>, True)
        } else Some (rb, False)
      }
      else Some (rb, False))"

definition request_block_hash :: "ZCachedFile \<Rightarrow> RequestBuilder \<Rightarrow> u32 \<Rightarrow> RequestBuilder option" where
  "request_block_hash zf rb block_num = do {
     location \<leftarrow> tree_index (uint (tree_depth zf)) (sint block_num) (tree_size zf);
     map_option fst (request_hash zf rb location)
   }"

text \<open>The loop over the levels, from the leaves up; level 0 is the root.\<close>

fun ancestors_from :: "ZCachedFile \<Rightarrow> RequestBuilder \<Rightarrow> u32 \<Rightarrow> nat \<Rightarrow> RequestBuilder option" where
  "ancestors_from zf rb block_num 0 = Some rb"
| "ancestors_from zf rb block_num (Suc l) = do {
     let col = drop_bit (unat (tree_depth zf) - Suc l) block_num;
     location \<leftarrow> tree_index (int (Suc l)) (sint col) (tree_size zf);
     sibling \<leftarrow> sibling_location location;
     (rb1, _) \<leftarrow> request_hash zf rb sibling;
     (rb2, request_is_novel) \<leftarrow> request_hash zf rb1 location;
     if request_is_novel then ancestors_from zf rb2 block_num l else Some rb2
   }"

definition request_hash_ancestors :: "ZCachedFile \<Rightarrow> RequestBuilder \<Rightarrow> u32 \<Rightarrow> RequestBuilder option" where
  "request_hash_ancestors zf rb block_num = ancestors_from zf rb block_num (unat (tree_depth zf))"

partial_function (option) clear_tentative_locations :: "RequestBuilder \<Rightarrow> Disposition \<Rightarrow> RequestBuilder option" where
  "clear_tentative_locations rb disposition = do {
     elt \<leftarrow> findMin (\<lambda>x. x) (tentative_tree_locations rb);
     (case elt of
        None \<Rightarrow> Some rb
      | Some e \<Rightarrow> do {
          c \<leftarrow> (if disposition = COMMIT then AVLTree_insert (\<lambda>x. x) (committed_tree_locations rb) e
                else Some (committed_tree_locations rb));
          t \<leftarrow> AVLTree_remove (\<lambda>x. x) (tentative_tree_locations rb) e;
          clear_tentative_locations (rb\<lparr>committed_tree_locations := c, tentative_tree_locations := t\<rparr>) disposition
        })
   }"

text \<open>The data of one block whose leaf is known, as far as they fit.\<close>

definition request_block_data :: "RequestBuilder \<Rightarrow> DataRange \<Rightarrow> u32 \<Rightarrow> u32 \<Rightarrow> RequestBuilder option" where
  "request_block_data rb missing_set start end_blk = do {
     let req_end = min end_blk (dr_end missing_set);
     let req_this_blk = DataRange_of start req_end;
     a \<leftarrow> available rb;
     let req_this_blk = (if a < sint (DataRange_size req_this_blk) then DataRange_of start (start + word_of_int a) else req_this_blk);
     r \<leftarrow> DataRange_accumulate (request_range rb) (dr_start req_this_blk) (dr_end req_this_blk);
     Some (rb\<lparr>request_range := r\<rparr>)
   }"

partial_function (option) build_loop :: "ZCachedFile \<Rightarrow> DataRange \<Rightarrow> RequestBuilder \<Rightarrow> u32 \<Rightarrow> RequestBuilder option" where
  "build_loop zf missing_set rb start =
     (if start < dr_end missing_set then do {
        a \<leftarrow> available rb;
        if 0 < a then do {
          let blk = drop_bit ZFTP_LG_BLOCK_SIZE start;
          let end_blk = push_bit ZFTP_LG_BLOCK_SIZE (blk + 1);
          rb1 \<leftarrow> request_hash_ancestors zf rb blk;
          a1 \<leftarrow> available rb1;
          if a1 < 0 then clear_tentative_locations rb1 ABORT
          else do {
            rb2 \<leftarrow> clear_tentative_locations rb1 COMMIT;
            leaf_location \<leftarrow> tree_index (uint (tree_depth zf)) (sint blk) (tree_size zf);
            vmr \<leftarrow> rd (tree zf) (unat leaf_location);
            rb3 \<leftarrow> (if vmr_state vmr = v_validated then request_block_data rb2 missing_set start end_blk else Some rb2);
            build_loop zf missing_set rb3 end_blk
          }
        } else Some rb
      } else Some rb)"

definition build_request :: "ZCachedFile \<Rightarrow> RequestBuilder \<Rightarrow> DataRange \<Rightarrow> RequestBuilder option" where
  "build_request zf rb missing_set = do {
     n \<leftarrow> AVLTree_size (tentative_tree_locations rb);
     lite_assert (n = 0);
     rb1 \<leftarrow> build_loop zf missing_set (rb\<lparr>request_range := DataRange_new\<rparr>) (dr_start missing_set);
     n1 \<leftarrow> AVLTree_size (tentative_tree_locations rb1);
     lite_assert (n1 = 0);
     a \<leftarrow> available rb1;
     lite_assert (0 \<le> a);
     Some rb1
   }"

definition RequestBuilder_new :: "ZCachedFile \<Rightarrow> DataRange \<Rightarrow> u32 \<Rightarrow> RequestBuilder option" where
  "RequestBuilder_new zf missing_set mtu =
     build_request zf \<lparr>rb_mtu = mtu, committed_tree_locations = AVLTree_new, tentative_tree_locations = AVLTree_new,
       request_range = DataRange_new\<rparr> missing_set"

partial_function (option) set_locations_from ::
    "u32 AVLTree \<Rightarrow> OutboundRequest \<Rightarrow> u32 option \<Rightarrow> u32 \<Rightarrow> OutboundRequest option" where
  "set_locations_from locations obr elt i =
     (case elt of
        None \<Rightarrow> Some obr
      | Some e \<Rightarrow> do {
          obr' \<leftarrow> set_location obr i e;
          set_locations_from locations obr' (AVLTree_findFirstGreaterThan (\<lambda>x. x) locations e) (i + 1)
        })"

definition as_outbound_request :: "(u32 \<Rightarrow> bytes) \<Rightarrow> ZCachedFile \<Rightarrow> RequestBuilder \<Rightarrow> OutboundRequest option" where
  "as_outbound_request raw zf rb = do {
     n \<leftarrow> AVLTree_size (committed_tree_locations rb);
     obr \<leftarrow> OutboundRequest_new raw (file_hash zf) None n 0 (request_range rb);
     elt \<leftarrow> findMin (\<lambda>x. x) (committed_tree_locations rb);
     set_locations_from (committed_tree_locations rb) obr elt 0
   }"

definition requested_any_data :: "RequestBuilder \<Rightarrow> bool" where
  "requested_any_data rb = (0 < DataRange_size (request_range rb))"

end
