(* ===== verification/RequestFits.thy ===== *)
theory RequestFits
  imports Requests
begin

text \<open>
  What a request asks for: its reply fits into the payload limit, its locations are unknown ones and
  its data are missing ones; when building it fails, and when it asks for nothing.
\<close>

subsection \<open>Sets of locations\<close>

abbreviation locs :: "u32 AVLTree \<Rightarrow> u32 list" where
  "locs t \<equiv> inorder (root t)"

text \<open>A tree of locations after at most \<open>n\<close> operations.\<close>

definition good :: "nat \<Rightarrow> u32 AVLTree \<Rightarrow> bool" where
  "good n t \<longleftrightarrow> tree_ok (\<lambda>x. x) t \<and> counted n t"

lemma good_mono: "good n t \<Longrightarrow> n \<le> m \<Longrightarrow> good m t"
  by (auto simp: good_def counted_def)

lemma good_new: "good 0 AVLTree_new" "locs AVLTree_new = []"
  by (simp_all add: good_def counted_def) (simp add: AVLTree_new_def)

lemma good_length: "good n t \<Longrightarrow> length (locs t) \<le> n"
  by (auto simp: good_def counted_def)

lemma good_size: "good n t \<Longrightarrow> AVLTree_size t = Some (of_nat (length (locs t)))"
  by (auto simp: good_def counted_size(1))

lemma good_ordered: "good n t \<Longrightarrow> ordered (\<lambda>x. x) (locs t)"
  by (simp add: good_def tree_ok_def)

lemma ordered_distinct: "ordered (\<lambda>x. x) xs \<Longrightarrow> distinct xs"
  by (induction xs) auto

lemma ordered_sorted: "ordered (\<lambda>x. x) xs \<Longrightarrow> sorted xs"
  by (induction xs) auto

lemma contents_id: "contents (\<lambda>x. x) xs x = None \<longleftrightarrow> x \<notin> set xs"
  by (auto simp: contents_None)

lemma good_lookup: "good n t \<Longrightarrow> AVLTree_lookup (\<lambda>x. x) t x = None \<longleftrightarrow> x \<notin> set (locs t)"
  by (simp add: good_def lookup_contents contents_id)

lemma good_findMin: "good n t \<Longrightarrow> findMin (\<lambda>x. x) t = Some (case locs t of [] \<Rightarrow> None | x # _ \<Rightarrow> Some x)"
  using leftmost_ok [OF good_ordered, of n t] by (cases "locs t") (auto simp: findMin_def)

lemma good_insert:
  assumes "good n t" and "x \<notin> set (locs t)" and "Suc n < 2 ^ 32"
  obtains t' where "AVLTree_insert (\<lambda>x. x) t x = Some t'" "good (Suc n) t'" "set (locs t') = insert x (set (locs t))"
    "length (locs t') = length (locs t) + 1"
proof -
  have ok: "tree_ok (\<lambda>x. x) t" "counted n t" using assms(1) by (simp_all add: good_def)
  from AVLTree_insert_new [OF ok(1), of x] assms(2) obtain t' where
    t': "AVLTree_insert (\<lambda>x. x) t x = Some t'" "tree_ok (\<lambda>x. x) t'" "locs t' = put_in (\<lambda>x. x) x (locs t)" by (auto simp: contents_id)
  from t'(1) have "avl_step (\<lambda>x. x) t (Insert x) = Some t'" by (simp add: avl_step_def)
  from step_counted [OF ok(1) this ok(2) assms(3)] t'(2) have "good (Suc n) t'" by (simp add: good_def)
  moreover have "set (locs t') = insert x (set (locs t))" using assms(2) unfolding t'(3) by (auto simp: put_in_def)
  ultimately show ?thesis using t'(1) insert_counters [OF ok(1) t'(1)] by (intro that [of t']) simp_all
qed

lemma good_remove_first:
  assumes "good n t" and "locs t = x # xs" and "Suc n < 2 ^ 32"
  obtains t' where "AVLTree_remove (\<lambda>x. x) t x = Some t'" "good (Suc n) t'" "locs t' = xs"
proof -
  have ok: "tree_ok (\<lambda>x. x) t" "counted n t" using assms(1) by (simp_all add: good_def)
  from avl_set.remove_present [OF ok(1), of x] assms(2) obtain t' where
    t': "AVLTree_remove (\<lambda>x. x) t x = Some t'" "tree_ok (\<lambda>x. x) t'" "locs t' = take_out (\<lambda>x. x) x (locs t)" by (auto simp: contents_id)
  from t'(1) have "avl_step (\<lambda>x. x) t (Remove x) = Some t'" by (simp add: avl_step_def)
  from step_counted [OF ok(1) this ok(2) assms(3)] t'(2) have "good (Suc n) t'" by (simp add: good_def)
  moreover have "locs t' = xs"
    using good_ordered [OF assms(1)] below_beyond_all(2) [of xs x "\<lambda>x. x"] unfolding t'(3) assms(2) by (simp add: take_out_def)
  ultimately show ?thesis using t'(1) by (intro that) simp_all
qed

subsection \<open>The state of the builder\<close>

definition rb_inv :: "ZCachedFile \<Rightarrow> nat \<Rightarrow> RequestBuilder \<Rightarrow> bool" where
  "rb_inv zf n rb \<longleftrightarrow>
     good n (committed_tree_locations rb) \<and> good n (tentative_tree_locations rb) \<and>
     set (locs (committed_tree_locations rb)) \<inter> set (locs (tentative_tree_locations rb)) = {} \<and>
     (\<forall>x \<in> set (locs (committed_tree_locations rb)) \<union> set (locs (tentative_tree_locations rb)).
        unat x < length (tree zf) \<and> st zf (unat x) = v_unknown)"

abbreviation committed :: "RequestBuilder \<Rightarrow> u32 list" where
  "committed rb \<equiv> locs (committed_tree_locations rb)"

abbreviation tentative :: "RequestBuilder \<Rightarrow> u32 list" where
  "tentative rb \<equiv> locs (tentative_tree_locations rb)"

text \<open>A step that only adds tentative locations, at most \<open>k\<close> of them.\<close>

definition adds :: "nat \<Rightarrow> RequestBuilder \<Rightarrow> RequestBuilder \<Rightarrow> bool" where
  "adds k rb rb' \<longleftrightarrow>
     rb' = rb\<lparr>tentative_tree_locations := tentative_tree_locations rb'\<rparr> \<and>
     set (tentative rb) \<subseteq> set (tentative rb') \<and> length (tentative rb') \<le> length (tentative rb) + k"

lemma adds_refl [simp]: "adds k rb rb"
  by (simp add: adds_def)

lemma adds_trans: "adds j a b \<Longrightarrow> adds k b c \<Longrightarrow> adds (j + k) a c"
  by (cases a; cases b; cases c) (auto simp: adds_def)

lemma adds_mono: "adds j a b \<Longrightarrow> j \<le> k \<Longrightarrow> adds k a b"
  by (auto simp: adds_def)

lemma adds_sets: "adds k rb rb' \<Longrightarrow> committed rb' = committed rb \<and> set (tentative rb) \<subseteq> set (tentative rb')"
  by (cases rb; cases rb') (auto simp: adds_def)

lemma rb_inv_mono: "rb_inv zf n rb \<Longrightarrow> n \<le> m \<Longrightarrow> rb_inv zf m rb"
  by (auto simp: rb_inv_def intro: good_mono)

lemma request_hash_ok:
  assumes s: "shape zf" and i: "rb_inv zf n rb" and l: "unat loc < length (tree zf)" and n: "Suc n < 2 ^ 32"
  shows "\<exists>rb' novel. request_hash zf rb loc = Some (rb', novel) \<and> rb_inv zf (Suc n) rb' \<and> adds 1 rb rb' \<and>
           (novel \<longleftrightarrow> st zf (unat loc) = v_unknown \<and> loc \<notin> set (committed rb) \<union> set (tentative rb)) \<and>
           (st zf (unat loc) = v_unknown \<longrightarrow> loc \<in> set (committed rb') \<union> set (tentative rb'))"
proof (cases "loc \<notin> set (committed rb) \<union> set (tentative rb) \<and> st zf (unat loc) = v_unknown")
  case False
  have "request_hash zf rb loc = Some (rb, False)"
    using i l False by (auto simp: request_hash_def rb_inv_def good_lookup rd_def)
  moreover have "rb_inv zf (Suc n) rb" using i by (rule rb_inv_mono) simp
  ultimately show ?thesis using False by auto
next
  case True
  from i have g: "good n (tentative_tree_locations rb)" by (simp add: rb_inv_def)
  from True obtain t' where t': "AVLTree_insert (\<lambda>x. x) (tentative_tree_locations rb) loc = Some t'" "good (Suc n) t'"
    "set (locs t') = insert loc (set (tentative rb))" "length (locs t') = length (tentative rb) + 1"
    using good_insert [OF g _ n, of loc] by auto
  have "vmr_location (tree zf ! unat loc) = loc" using s l by (simp add: shape_def)
  then have "request_hash zf rb loc = Some (rb\<lparr>tentative_tree_locations := t'\<rparr>, True)"
    using True t'(1) l good_lookup [OF g, of loc] good_lookup [OF conjunct1 [OF i [unfolded rb_inv_def]], of loc]
    by (simp add: request_hash_def rd_def)
  moreover have "rb_inv zf (Suc n) (rb\<lparr>tentative_tree_locations := t'\<rparr>)"
    using i t'(2,3) True l by (auto simp: rb_inv_def intro: good_mono)
  moreover have "adds 1 rb (rb\<lparr>tentative_tree_locations := t'\<rparr>)" using t'(3,4) by (auto simp: adds_def)
  ultimately show ?thesis using True t'(3) by auto
qed

lemma available_ok:
  assumes "rb_inv zf n rb" and "n \<le> 2 ^ 24" and "unat (rb_mtu rb) \<le> 2 ^ 30" and "unat (DataRange_size (request_range rb)) \<le> 2 ^ 30"
  shows "available rb = Some (int (unat (rb_mtu rb)) -
    int (49 + 24 * (length (committed rb) + length (tentative rb)) + unat (DataRange_size (request_range rb))))"
proof -
  let ?c = "length (committed rb)" and ?t = "length (tentative rb)" and ?s = "DataRange_size (request_range rb)"
  have g: "good n (committed_tree_locations rb)" "good n (tentative_tree_locations rb)" using assms(1) by (simp_all add: rb_inv_def)
  then have le: "?c \<le> 2 ^ 24" "?t \<le> 2 ^ 24" using assms(2) good_length [OF g(1)] good_length [OF g(2)] by simp_all
  have "unat (of_nat (?c + ?t) :: u32) = ?c + ?t" using le by (intro unat_of_nat_u32) simp
  then have "unat (24 * of_nat (?c + ?t) :: u32) = 24 * (?c + ?t)" using le by (simp add: unat_mult_lem [THEN iffD1] del: of_nat_add)
  then have "unat (49 + 24 * of_nat (?c + ?t) :: u32) = 49 + 24 * (?c + ?t)" using le by (subst unat_add_small) simp_all
  then have u: "unat (49 + 24 * of_nat (?c + ?t) + ?s) = 49 + 24 * (?c + ?t) + unat ?s" using le assms(4) by (subst unat_add_small) simp_all
  then have "sint (49 + 24 * of_nat (?c + ?t) + ?s) = int (49 + 24 * (?c + ?t) + unat ?s)" using le assms(4) by (subst sint_small_u32) simp_all
  moreover have "sint (rb_mtu rb) = int (unat (rb_mtu rb))" using assms(3) by (intro sint_small_u32) simp
  ultimately show ?thesis by (simp add: available_def good_size [OF g(1)] good_size [OF g(2)])
qed

subsection \<open>The hashes on the way to the root\<close>

lemma location_and_sibling:
  assumes s: "shape zf" and l: "0 < l" "l \<le> unat (tree_depth zf)" and c: "c < 2 ^ l"
  shows "\<exists>loc sib. tree_index (int l) (int c) (tree_size zf) = Some loc \<and> unat loc + 1 = 2 ^ l + c \<and> unat loc < length (tree zf) \<and>
    sibling_location loc = Some sib \<and> unat sib < length (tree zf)"
proof -
  let ?d = "unat (tree_depth zf)"
  from s have d: "?d \<le> 30" "length (tree zf) = 2 ^ (?d + 1) - 1" by (simp_all add: shape_def)
  from location_nat [OF _ c] d(1) l(2) obtain loc where
    loc: "compute_tree_location (int l) (int c) = Some loc" "unat loc + 1 = 2 ^ l + c" by auto
  have "(2 :: nat) ^ (l + 1) \<le> 2 ^ (?d + 1)" "(2 :: nat) ^ (l + 1) \<le> 2 ^ 31" using l(2) d(1) by (intro power_increasing; simp)+
  then have p: "2 * 2 ^ l \<le> (2 :: nat) ^ (?d + 1)" "2 * 2 ^ l \<le> (2 :: nat) ^ 31" by simp_all
  have e: "even ((2 :: nat) ^ l)" "(2 :: nat) \<le> 2 ^ l" using l(1) self_le_power [of "2 :: nat" l] by simp_all
  have lt: "unat loc < length (tree zf)" using loc(2) c d(2) p(1) by linarith
  then have "loc < tree_size zf" using unat_tree_size [OF s] by (simp add: word_nat)
  then have t: "tree_index (int l) (int c) (tree_size zf) = Some loc" using loc(1) by (simp add: tree_index_def)
  have "loc \<noteq> 0" using loc(2) e(2) by auto
  moreover have "loc \<noteq> - 1" using loc(2) c p(2) by auto
  ultimately obtain sib where sib: "sibling_location loc = Some sib" "unat sib = (if even (unat loc) then unat loc - 1 else unat loc + 1)"
    using sibling_location_nat by blast
  have "unat loc + 1 < length (tree zf)" if "odd (unat loc)"
  proof -
    have "even c" using that loc(2) e(1) by presburger
    then have "c + 1 < 2 ^ l" using c e(1) by presburger
    then show ?thesis using loc(2) d(2) p(1) by linarith
  qed
  with sib(2) lt have "unat sib < length (tree zf)" by auto
  with t loc(2) lt sib(1) show ?thesis by blast
qed

lemma ancestors_from_ok:
  assumes "shape zf" and "unat blk < 2 ^ unat (tree_depth zf)"
  shows "l \<le> unat (tree_depth zf) \<Longrightarrow> rb_inv zf n rb \<Longrightarrow> n + 2 * l < 2 ^ 32 \<Longrightarrow>
    \<exists>rb'. ancestors_from zf rb blk l = Some rb' \<and> rb_inv zf (n + 2 * l) rb' \<and> adds (2 * l) rb rb' \<and>
      (0 < l \<and> st zf (2 ^ l - 1 + unat blk div 2 ^ (unat (tree_depth zf) - l)) = v_unknown \<longrightarrow> set (committed rb') \<union> set (tentative rb') \<noteq> {})"
proof (induction l arbitrary: rb n)
  case 0
  then show ?case by simp
next
  case (Suc l)
  let ?d = "unat (tree_depth zf)"
  let ?col = "drop_bit (?d - Suc l) blk"
  have c: "unat ?col < 2 ^ Suc l"
  proof -
    have "unat blk < 2 ^ Suc l * 2 ^ (?d - Suc l)" using assms(2) Suc.prems(1) by (simp only: power_add [symmetric] le_add_diff_inverse)
    then show ?thesis by (simp add: unat_drop_bit div_less_iff_less_mult)
  qed
  have "(2 :: nat) ^ Suc l \<le> 2 ^ 30" using assms(1) Suc.prems(1) by (intro power_increasing) (auto simp: shape_def)
  then have sc: "sint ?col = int (unat ?col)" using c by (intro sint_small_u32) simp
  from location_and_sibling [OF assms(1) _ Suc.prems(1) c] obtain loc sib where
    ix: "tree_index (int (Suc l)) (int (unat ?col)) (tree_size zf) = Some loc" "sibling_location loc = Some sib"
    "unat loc < length (tree zf)" "unat sib < length (tree zf)" "unat loc + 1 = 2 ^ Suc l + unat ?col" by auto
  from request_hash_ok [OF assms(1) Suc.prems(2) ix(4)] Suc.prems(3) obtain rb1 w1 where
    r1: "request_hash zf rb sib = Some (rb1, w1)" "rb_inv zf (Suc n) rb1" "adds 1 rb rb1" by auto
  from request_hash_ok [OF assms(1) r1(2) ix(3)] Suc.prems(3) obtain rb2 w2 where
    r2: "request_hash zf rb1 loc = Some (rb2, w2)" "rb_inv zf (Suc (Suc n)) rb2" "adds 1 rb1 rb2"
    "st zf (unat loc) = v_unknown \<longrightarrow> loc \<in> set (committed rb2) \<union> set (tentative rb2)" by auto
  have ask: "st zf (2 ^ Suc l - 1 + unat blk div 2 ^ (?d - Suc l)) = v_unknown \<longrightarrow> set (committed rb2) \<union> set (tentative rb2) \<noteq> {}"
  proof -
    have "2 ^ Suc l - 1 + unat blk div 2 ^ (?d - Suc l) = unat loc" using ix(5) by (simp add: unat_drop_bit)
    with r2(4) show ?thesis by auto
  qed
  from adds_trans [OF r1(3) r2(3)] have a2: "adds 2 rb rb2" by (simp add: numeral_2_eq_2)
  have step: "ancestors_from zf rb blk (Suc l) = (if w2 then ancestors_from zf rb2 blk l else Some rb2)"
    using r1(1) r2(1) ix(1,2) sc by (simp add: Let_def del: of_nat_Suc)
  show ?case
  proof (cases w2)
    case True
    from Suc.IH [OF _ r2(2)] Suc.prems(1,3) obtain rb' where
      r': "ancestors_from zf rb2 blk l = Some rb'" "rb_inv zf (Suc (Suc n) + 2 * l) rb'" "adds (2 * l) rb2 rb'" by auto
    moreover have "set (committed rb2) \<union> set (tentative rb2) \<subseteq> set (committed rb') \<union> set (tentative rb')"
      using adds_sets [OF r'(3)] by auto
    ultimately show ?thesis using adds_trans [OF a2 r'(3)] True step ask by auto
  next
    case False
    with step r2(2) a2 ask show ?thesis by (auto intro: rb_inv_mono adds_mono)
  qed
qed

subsection \<open>Committing and dropping\<close>

lemma clear_tentative_ok:
  "rb_inv zf n rb \<Longrightarrow> n + length (tentative rb) < 2 ^ 32 \<Longrightarrow>
    \<exists>rb'. clear_tentative_locations rb d = Some rb' \<and> rb_inv zf (n + length (tentative rb)) rb' \<and> tentative rb' = [] \<and>
      rb_mtu rb' = rb_mtu rb \<and> request_range rb' = request_range rb \<and>
      set (committed rb') = set (committed rb) \<union> (if d = COMMIT then set (tentative rb) else {}) \<and>
      length (committed rb') = length (committed rb) + (if d = COMMIT then length (tentative rb) else 0)"
proof (induction "tentative rb" arbitrary: rb n)
  case Nil
  then have "good n (tentative_tree_locations rb)" by (simp add: rb_inv_def)
  from good_findMin [OF this] Nil(1) have "findMin (\<lambda>x. x) (tentative_tree_locations rb) = Some None"
    by (simp add: Nil(1) [symmetric])
  then have "clear_tentative_locations rb d = Some rb" by (simp add: clear_tentative_locations.simps)
  moreover have "tentative rb = []" using Nil(1) by simp
  ultimately show ?case using Nil(2) by simp
next
  case (Cons x xs)
  have g: "good n (tentative_tree_locations rb)" "good n (committed_tree_locations rb)" and x: "x \<notin> set (committed rb)"
    using Cons.prems(1) Cons.hyps(2) [symmetric] by (auto simp: rb_inv_def)
  have n: "Suc n < 2 ^ 32" using Cons.prems(2) by (simp flip: Cons.hyps(2))
  from good_remove_first [OF g(1) Cons.hyps(2) [symmetric] n] obtain t where
    t: "AVLTree_remove (\<lambda>x. x) (tentative_tree_locations rb) x = Some t" "good (Suc n) t" "locs t = xs" .
  from good_insert [OF g(2) x n] obtain c where
    c: "AVLTree_insert (\<lambda>x. x) (committed_tree_locations rb) x = Some c" "good (Suc n) c"
    "set (locs c) = insert x (set (committed rb))" "length (locs c) = length (committed rb) + 1" .
  let ?c = "if d = COMMIT then c else committed_tree_locations rb"
  let ?rb = "rb\<lparr>committed_tree_locations := ?c, tentative_tree_locations := t\<rparr>"
  have "findMin (\<lambda>x. x) (tentative_tree_locations rb) = Some (Some x)" using good_findMin [OF g(1)] by (simp flip: Cons.hyps(2))
  then have step: "clear_tentative_locations rb d = clear_tentative_locations ?rb d"
    using t(1) c(1) by (subst clear_tentative_locations.simps) simp
  have "distinct (x # xs)" using ordered_distinct [OF good_ordered [OF g(1)]] by (simp flip: Cons.hyps(2))
  then have "rb_inv zf (Suc n) ?rb"
    using Cons.prems(1) t(2,3) c(2,3) by (auto simp: rb_inv_def simp flip: Cons.hyps(2) intro: good_mono)
  from Cons.hyps(1) [of ?rb, OF _ this] t(3) Cons.prems(2) obtain rb' where
    "clear_tentative_locations ?rb d = Some rb'" "rb_inv zf (Suc n + length xs) rb'" "tentative rb' = []"
    "rb_mtu rb' = rb_mtu rb" "request_range rb' = request_range rb"
    "set (committed rb') = set (locs ?c) \<union> (if d = COMMIT then set xs else {})"
    "length (committed rb') = length (locs ?c) + (if d = COMMIT then length xs else 0)"
    by (auto simp flip: Cons.hyps(2))
  with step c(3,4) show ?case by (auto simp flip: Cons.hyps(2))
qed

subsection \<open>One round\<close>

abbreviation leaf_known :: "ZCachedFile \<Rightarrow> nat \<Rightarrow> bool" where
  "leaf_known zf k \<equiv> st zf (leaf zf k) = v_validated"

text \<open>What the reply to the request takes, header included.\<close>

definition reply_bytes :: "RequestBuilder \<Rightarrow> nat" where
  "reply_bytes rb = 49 + 24 * length (committed rb) + unat (DataRange_size (request_range rb))"

definition building :: "ZCachedFile \<Rightarrow> DataRange \<Rightarrow> u32 \<Rightarrow> nat \<Rightarrow> RequestBuilder \<Rightarrow> bool" where
  "building zf ms mtu K rb \<longleftrightarrow>
     rb_inv zf (64 * K) rb \<and> tentative rb = [] \<and> rb_mtu rb = mtu \<and> reply_bytes rb \<le> unat mtu \<and> dr_wf (request_range rb) \<and>
     (\<forall>x \<in> dr_bytes (request_range rb). x \<in> dr_bytes ms \<and> leaf_known zf (unat x div 65536))"

definition grows :: "RequestBuilder \<Rightarrow> RequestBuilder \<Rightarrow> bool" where
  "grows rb rb' \<longleftrightarrow> set (committed rb) \<subseteq> set (committed rb') \<and> dr_bytes (request_range rb) \<subseteq> dr_bytes (request_range rb')"

lemma grows_refl [simp]: "grows rb rb"
  by (simp add: grows_def)

lemma grows_trans: "grows a b \<Longrightarrow> grows b c \<Longrightarrow> grows a c"
  by (auto simp: grows_def)

lemma depth_small:
  assumes "configured zf" and "K < unat (num_blocks zf)"
  shows "unat (tree_depth zf) \<le> 16" and "K < 2 ^ unat (tree_depth zf)"
proof -
  from assms(2) have n: "num_blocks zf \<noteq> 0" by auto
  have td: "tree_depth zf = compute_tree_depth (num_blocks zf)" using assms(1) by (simp add: configured_def)
  show "unat (tree_depth zf) \<le> 16" using depth_least(2) [OF n, of 16] num_blocks_nat(2) [OF assms(1)] td by simp
  show "K < 2 ^ unat (tree_depth zf)" using depth_least(1) [OF n] assms(2) td by simp
qed

lemma building_available:
  assumes "building zf ms mtu K rb" and "K \<le> 65536" and "unat mtu \<le> 2 ^ 30"
  shows "available rb = Some (int (unat mtu) - int (reply_bytes rb))"
proof -
  have b: "rb_inv zf (64 * K) rb" "tentative rb = []" "rb_mtu rb = mtu" "reply_bytes rb \<le> unat mtu"
    using assms(1) by (simp_all add: building_def)
  have "unat (DataRange_size (request_range rb)) \<le> 2 ^ 30" using b(4) assms(3) unfolding reply_bytes_def by linarith
  then have "available rb = Some (int (unat (rb_mtu rb)) -
    int (49 + 24 * (length (committed rb) + length (tentative rb)) + unat (DataRange_size (request_range rb))))"
    using assms(2,3) b(3) by (intro available_ok [OF b(1)]) simp_all
  then show ?thesis using b(2,3) by (simp add: reply_bytes_def)
qed

lemma hashes_round:
  assumes c: "configured zf" and b: "building zf ms mtu K rb" and K: "unat blk = K" "K < unat (num_blocks zf)" and m: "unat mtu \<le> 2 ^ 30"
  obtains rb1 a where "request_hash_ancestors zf rb blk = Some rb1" "available rb1 = Some a"
    "a = int (unat mtu) - int (reply_bytes rb + 24 * length (tentative rb1))" "adds 32 rb rb1"
    "st zf (leaf zf K) = v_unknown \<longrightarrow> set (committed rb) \<union> set (tentative rb1) \<noteq> {}"
    "\<forall>d. d = COMMIT \<and> 0 \<le> a \<or> d = ABORT \<longrightarrow> (\<exists>rb2. clear_tentative_locations rb1 d = Some rb2 \<and> building zf ms mtu (K + 1) rb2 \<and>
       request_range rb2 = request_range rb \<and> set (committed rb2) = set (committed rb) \<union> (if d = COMMIT then set (tentative rb1) else {}) \<and>
       reply_bytes rb2 = reply_bytes rb + (if d = COMMIT then 24 * length (tentative rb1) else 0))"
proof -
  let ?d = "unat (tree_depth zf)" and ?n = "64 * K + 2 * unat (tree_depth zf)"
  have bb: "rb_inv zf (64 * K) rb" "tentative rb = []" "rb_mtu rb = mtu" "reply_bytes rb \<le> unat mtu" "dr_wf (request_range rb)"
    "\<forall>x \<in> dr_bytes (request_range rb). x \<in> dr_bytes ms \<and> leaf_known zf (unat x div 65536)"
    using b by (simp_all add: building_def)
  have s: "shape zf" using c by (simp add: configured_def)
  note d = depth_small [OF c K(2)]
  have K1: "K \<le> 65535" using K(2) num_blocks_nat(2) [OF c] by simp
  from ancestors_from_ok [OF s _ order_refl bb(1), of blk] d K K1 obtain rb1 where
    r: "request_hash_ancestors zf rb blk = Some rb1" "rb_inv zf ?n rb1" "adds (2 * ?d) rb rb1"
    "0 < ?d \<and> st zf (leaf zf K) = v_unknown \<longrightarrow> set (committed rb1) \<union> set (tentative rb1) \<noteq> {}"
    by (auto simp: request_hash_ancestors_def leaf_def)
  have "st zf (leaf zf K) \<noteq> v_unknown" if "?d = 0" using that d(2) s by (simp add: leaf_def shape_def)
  then have ask: "st zf (leaf zf K) = v_unknown \<longrightarrow> set (committed rb) \<union> set (tentative rb1) \<noteq> {}"
    using r(4) adds_sets [OF r(3)] by auto
  from r(3) have f: "committed rb1 = committed rb" "request_range rb1 = request_range rb" "rb_mtu rb1 = mtu" "length (tentative rb1) \<le> 2 * ?d"
    using bb(2,3) by (auto simp: adds_def) (metis RequestBuilder.select_convs RequestBuilder.surjective RequestBuilder.update_convs(3))+
  have sz: "unat (DataRange_size (request_range rb)) \<le> 2 ^ 30" using bb(4) m unfolding reply_bytes_def by linarith
  have "available rb1 = Some (int (unat (rb_mtu rb1)) -
    int (49 + 24 * (length (committed rb1) + length (tentative rb1)) + unat (DataRange_size (request_range rb1))))"
    using K1 d(1) m sz f by (intro available_ok [OF r(2)]) simp_all
  then have a: "available rb1 = Some (int (unat mtu) - int (reply_bytes rb + 24 * length (tentative rb1)))"
    using f by (simp add: reply_bytes_def algebra_simps)
  have nn: "?n + length (tentative rb1) \<le> 64 * (K + 1)" using f(4) d(1) by simp
  then have nl: "?n + length (tentative rb1) < 2 ^ 32" using K1 by simp
  have "\<exists>rb2. clear_tentative_locations rb1 d = Some rb2 \<and> building zf ms mtu (K + 1) rb2 \<and>
      request_range rb2 = request_range rb \<and> set (committed rb2) = set (committed rb) \<union> (if d = COMMIT then set (tentative rb1) else {}) \<and>
      reply_bytes rb2 = reply_bytes rb + (if d = COMMIT then 24 * length (tentative rb1) else 0)"
    if fits: "d = COMMIT \<and> 0 \<le> int (unat mtu) - int (reply_bytes rb + 24 * length (tentative rb1)) \<or> d = ABORT" for d
  proof -
    from clear_tentative_ok [OF r(2) nl, of d] obtain rb2 where
      r2: "clear_tentative_locations rb1 d = Some rb2" "rb_inv zf (?n + length (tentative rb1)) rb2" "tentative rb2 = []"
      "rb_mtu rb2 = mtu" "request_range rb2 = request_range rb"
      "set (committed rb2) = set (committed rb) \<union> (if d = COMMIT then set (tentative rb1) else {})"
      "length (committed rb2) = length (committed rb) + (if d = COMMIT then length (tentative rb1) else 0)"
      unfolding f by blast
    have rep: "reply_bytes rb2 = reply_bytes rb + (if d = COMMIT then 24 * length (tentative rb1) else 0)"
      using r2(5,7) by (simp add: reply_bytes_def)
    have "d = COMMIT \<longrightarrow> reply_bytes rb + 24 * length (tentative rb1) \<le> unat mtu"
      using fits by (metis Disposition.distinct(1) diff_ge_0_iff_ge of_nat_le_iff)
    then have "reply_bytes rb2 \<le> unat mtu" using rep bb(4) by simp
    then show ?thesis using rep r2(1,3-6) bb(5,6) rb_inv_mono [OF r2(2) nn] by (simp add: building_def)
  qed
  moreover have "adds 32 rb rb1" using r(3) d(1) by (auto intro: adds_mono)
  ultimately show ?thesis using ask by (intro that [OF r(1) a refl]) auto
qed

text \<open>Appending a range at its end.\<close>

lemma accumulate_at_end:
  assumes "dr_wf r" and "DataRange_is_empty r \<or> dr_end r = s" and "s \<le> e"
  obtains r' where "DataRange_accumulate r s e = Some r'" "dr_wf r'" "dr_end r' = e"
    "dr_bytes r' = dr_bytes r \<union> dr_bytes (DataRange_of s e)"
    "unat (DataRange_size r') = unat (DataRange_size r) + (unat e - unat s)"
proof -
  let ?r = "if DataRange_is_empty r then DataRange_of s e else r\<lparr>dr_end := e\<rparr>"
  have acc: "DataRange_maybe_accumulate r s e = (?r, True)"
  proof (cases "DataRange_is_empty r")
    case False
    then have "dr_start r \<noteq> e" using assms by (auto simp: DataRange_is_empty_def dr_wf_def)
    with False assms(2) show ?thesis by (auto simp: DataRange_maybe_accumulate_def)
  qed (simp add: DataRange_maybe_accumulate_def DataRange_of_def)
  have "unat (DataRange_size ?r) = unat (DataRange_size r) + (unat e - unat s)"
    using assms by (auto simp: DataRange_size_def DataRange_of_def DataRange_is_empty_def dr_wf_def word_le_nat_alt unat_sub_le)
  moreover have "DataRange_accumulate r s e = Some ?r" using acc by (simp add: DataRange_accumulate_def)
  moreover have "dr_end ?r = e" by (simp add: DataRange_of_def)
  ultimately show ?thesis using accumulate_bytes [OF assms(1,3) acc] by (intro that)
qed

lemma block_data_range:
  assumes b: "building zf ms mtu K' rb" "K' \<le> 65536" "unat mtu \<le> 2 ^ 30"
    and S: "unat S div 65536 = K" "S < dr_end ms" and e: "unat end_blk = K * 65536 + 65536"
  obtains F where "request_block_data rb ms S end_blk =
      map_option (\<lambda>r. rb\<lparr>request_range := r\<rparr>) (DataRange_accumulate (request_range rb) S F)"
    "unat F = min (unat (min end_blk (dr_end ms))) (unat S + (unat mtu - reply_bytes rb))"
    "unat S < unat (min end_blk (dr_end ms))" "unat (min end_blk (dr_end ms)) = min (K * 65536 + 65536) (unat (dr_end ms))"
proof -
  let ?E = "min end_blk (dr_end ms)" and ?room = "unat mtu - reply_bytes rb"
  have "reply_bytes rb \<le> unat mtu" using b(1) by (simp add: building_def)
  then have a: "available rb = Some (int ?room)" using building_available [OF b] by (simp add: of_nat_diff)
  have q: "K * 65536 \<le> unat S" "unat S < K * 65536 + 65536" using S(1) by auto
  have E: "unat ?E = min (K * 65536 + 65536) (unat (dr_end ms))" using e by (simp add: min_def word_le_nat_alt)
  have SE: "unat S < unat ?E" using q(2) S(2) E by (simp add: word_nat)
  have "unat (DataRange_size (DataRange_of S ?E)) = unat ?E - unat S"
    using SE by (simp add: DataRange_size_def DataRange_of_def unat_sub_le)
  moreover have "unat ?E - unat S \<le> 65536" using E q(1) by simp
  ultimately have sz: "sint (DataRange_size (DataRange_of S ?E)) = int (unat ?E - unat S)" by (subst sint_small_u32) simp_all
  define F where "F = (if int ?room < int (unat ?E - unat S) then S + word_of_int (int ?room) else ?E)"
  have F: "unat F = min (unat ?E) (unat S + ?room)"
  proof (cases "?room < unat ?E - unat S")
    case True
    have "unat (S + of_nat ?room) = unat S + ?room" using True unat_less_exp [of ?E]
      by (subst unat_add_small) (simp_all add: unat_of_nat_u32)
    with True show ?thesis unfolding F_def of_nat_less_iff by simp
  next
    case False
    then show ?thesis unfolding F_def of_nat_less_iff by simp
  qed
  have "request_block_data rb ms S end_blk = map_option (\<lambda>r. rb\<lparr>request_range := r\<rparr>) (DataRange_accumulate (request_range rb) S F)"
    using a sz by (simp add: request_block_data_def Let_def F_def DataRange_of_def map_conv_bind_option comp_def)
  then show ?thesis using F SE E by (rule that)
qed

lemma data_round:
  assumes b: "building zf ms mtu K' rb" "K' \<le> 65536" "unat mtu \<le> 2 ^ 30"
    and S: "unat S div 65536 = K" "S < dr_end ms" "dr_start ms \<le> S" and e: "unat end_blk = K * 65536 + 65536" and l: "leaf_known zf K"
    and j: "DataRange_is_empty (request_range rb) \<or> dr_end (request_range rb) = S"
  obtains rb' where "request_block_data rb ms S end_blk = Some rb'" "building zf ms mtu K' rb'"
    "grows rb rb'" "reply_bytes rb < unat mtu \<Longrightarrow> S \<in> dr_bytes (request_range rb')"
    "reply_bytes rb' = unat mtu \<or> dr_end (request_range rb') = min end_blk (dr_end ms)"
    "reply_bytes rb' \<le> reply_bytes rb + 65536" "dr_end (request_range rb') \<le> end_blk"
proof -
  let ?E = "min end_blk (dr_end ms)" and ?room = "unat mtu - reply_bytes rb"
  have bb: "rb_inv zf (64 * K') rb" "tentative rb = []" "rb_mtu rb = mtu" "reply_bytes rb \<le> unat mtu" "dr_wf (request_range rb)"
    "\<forall>x \<in> dr_bytes (request_range rb). x \<in> dr_bytes ms \<and> leaf_known zf (unat x div 65536)"
    using b(1) by (simp_all add: building_def)
  have q: "K * 65536 \<le> unat S" "unat S < K * 65536 + 65536" using S(1) by auto
  obtain F where data: "request_block_data rb ms S end_blk =
      map_option (\<lambda>r. rb\<lparr>request_range := r\<rparr>) (DataRange_accumulate (request_range rb) S F)"
    and F: "unat F = min (unat ?E) (unat S + ?room)" and SE: "unat S < unat ?E" and E: "unat ?E = min (K * 65536 + 65536) (unat (dr_end ms))"
    by (rule block_data_range [OF b S(1,2) e])
  have SF: "S \<le> F" using F SE by (simp add: word_nat)
  from accumulate_at_end [OF bb(5) j SF] obtain r where
    r: "DataRange_accumulate (request_range rb) S F = Some r" "dr_wf r" "dr_end r = F"
    "dr_bytes r = dr_bytes (request_range rb) \<union> dr_bytes (DataRange_of S F)"
    "unat (DataRange_size r) = unat (DataRange_size (request_range rb)) + (unat F - unat S)" .
  let ?rb = "rb\<lparr>request_range := r\<rparr>"
  have rep: "reply_bytes ?rb = reply_bytes rb + (unat F - unat S)" using r(5) by (simp add: reply_bytes_def)
  have "x \<in> dr_bytes ms \<and> leaf_known zf (unat x div 65536)" if "x \<in> dr_bytes (DataRange_of S F)" for x
  proof -
    from that have x: "unat S \<le> unat x" "unat x < unat F" by (simp_all add: dr_bytes_def DataRange_of_def word_le_nat_alt word_less_nat_alt)
    then have "unat x div 65536 = K" using q F E by (intro div_nat_eqI) simp_all
    then show ?thesis using x l S(3) F E by (simp add: dr_bytes_def word_le_nat_alt word_less_nat_alt)
  qed
  then have "\<forall>x \<in> dr_bytes r. x \<in> dr_bytes ms \<and> leaf_known zf (unat x div 65536)" using r(4) bb(6) by blast
  moreover have "rb_inv zf (64 * K') ?rb" using bb(1) by (simp add: rb_inv_def)
  moreover have "reply_bytes ?rb \<le> unat mtu" unfolding rep F using bb(4) by linarith
  ultimately have "building zf ms mtu K' ?rb" using bb(2,3) r(2) by (simp add: building_def)
  moreover have "S \<in> dr_bytes r" if "reply_bytes rb < unat mtu"
  proof -
    have "unat S < unat F" unfolding F using that SE by simp
    then show ?thesis unfolding r(4) by (simp add: dr_bytes_def DataRange_of_def word_less_nat_alt)
  qed
  moreover have "reply_bytes ?rb = unat mtu \<or> F = ?E" unfolding rep unat_eq_iff [of F] F using SE bb(4) by linarith
  moreover have "reply_bytes ?rb \<le> reply_bytes rb + 65536" unfolding rep F E using q(1) by linarith
  moreover have "F \<le> end_blk" unfolding word_le_nat_alt F E e by linarith
  moreover have "grows rb ?rb" using r(4) by (simp add: grows_def)
  ultimately show ?thesis using data r(1,3) by (intro that [of ?rb]) auto
qed

subsection \<open>The loop over the blocks\<close>

text \<open>
  The blocks with known leaves among the missing ones are consecutive. Without this the builder can fail an assertion
  when it joins the ranges of two such blocks (\<open>request_gap_aborts\<close>).
\<close>

definition known_contiguous :: "ZCachedFile \<Rightarrow> DataRange \<Rightarrow> bool" where
  "known_contiguous zf ms \<longleftrightarrow>
     (\<forall>i j k. unat (dr_start ms) div 65536 \<le> i \<and> i \<le> j \<and> j \<le> k \<and> k * 65536 < unat (dr_end ms) \<and>
        leaf_known zf i \<and> leaf_known zf k \<longrightarrow> leaf_known zf j)"

text \<open>The data of the block at \<open>S\<close> can be appended, or none will be asked for.\<close>

definition joins :: "ZCachedFile \<Rightarrow> DataRange \<Rightarrow> u32 \<Rightarrow> RequestBuilder \<Rightarrow> u32 \<Rightarrow> bool" where
  "joins zf ms mtu rb S \<longleftrightarrow>
     DataRange_is_empty (request_range rb) \<or> dr_end (request_range rb) = S \<or> reply_bytes rb = unat mtu \<or>
     (\<forall>k. unat S div 65536 \<le> k \<and> k * 65536 < unat (dr_end ms) \<longrightarrow> \<not> leaf_known zf k)"

lemma joins_skip:
  assumes "joins zf ms mtu rb S" and "building zf ms mtu K' rb" and kc: "known_contiguous zf ms"
    and "reply_bytes rb \<noteq> unat mtu" and K: "\<not> leaf_known zf K" "unat S div 65536 = K"
  shows "DataRange_is_empty (request_range rb) \<or> (\<forall>k. K + 1 \<le> k \<and> k * 65536 < unat (dr_end ms) \<longrightarrow> \<not> leaf_known zf k)"
proof (cases "DataRange_is_empty (request_range rb) \<or> dr_end (request_range rb) \<noteq> S")
  case True
  with assms(1,4) K(2) show ?thesis by (auto simp: joins_def)
next
  case False
  let ?x = "dr_start (request_range rb)"
  have "?x < S" using False assms(2) by (auto simp: building_def dr_wf_def DataRange_is_empty_def)
  then have "?x \<in> dr_bytes (request_range rb)" "unat ?x div 65536 \<le> K"
    using False K(2) by (auto simp: dr_bytes_def word_less_nat_alt intro!: div_le_mono)
  moreover from this assms(2) have "leaf_known zf (unat ?x div 65536)" "dr_start ms \<le> ?x" by (auto simp: building_def dr_bytes_def)
  ultimately have "leaf_known zf K" if "K + 1 \<le> k" "k * 65536 < unat (dr_end ms)" "leaf_known zf k" for k
    using that kc [unfolded known_contiguous_def, rule_format, of "unat ?x div 65536" K k]
    by (simp add: word_le_nat_alt div_le_mono)
  with K(1) show ?thesis by blast
qed

lemma build_step:
  assumes c: "configured zf" and b: "building zf ms mtu K rb" and m: "unat mtu \<le> 2 ^ 30"
    and ms: "unat (dr_end ms) \<le> file_len_nat zf" and K: "unat S div 65536 = K" and S: "S < dr_end ms" and room: "reply_bytes rb < unat mtu"
  obtains (stop) rb' where "build_loop zf ms rb S = Some rb'" "building zf ms mtu (K + 1) rb'" "grows rb rb'" "unat mtu < reply_bytes rb + 768"
  | (go) rb' S' where "build_loop zf ms rb S =
        Option.bind (if leaf_known zf K then request_block_data rb' ms S S' else Some rb') (\<lambda>rb3. build_loop zf ms rb3 S')"
      "building zf ms mtu (K + 1) rb'" "grows rb rb'" "request_range rb' = request_range rb" "reply_bytes rb' \<le> reply_bytes rb + 768"
      "unat S' = (K + 1) * 65536" "K + 1 \<le> 65535" "st zf (leaf zf K) = v_unknown \<longrightarrow> committed rb' \<noteq> []"
proof -
  let ?blk = "drop_bit 16 S" and ?S' = "push_bit 16 (drop_bit 16 S + 1) :: u32"
  have fl: "file_len_nat zf \<le> 2 ^ 32 - 2 ^ 16" using c by (simp add: configured_def)
  have q: "K * 65536 \<le> unat S" "unat S < K * 65536 + 65536" using K by auto
  have lt: "unat S < unat (dr_end ms)" using S by (simp add: word_nat)
  have blk: "unat ?blk = K" using K by (simp add: unat_drop_bit)
  have K1: "K + 1 \<le> 65535" using q(1) lt ms fl by simp
  have Kn: "K < unat (num_blocks zf)" unfolding num_blocks_nat(1) [OF c] using q(1) lt ms by linarith
  have "unat (?blk + 1) = K + 1" using blk K1 by (subst unat_add_small) simp_all
  then have S': "unat ?S' = (K + 1) * 65536" using unat_block_start [of "?blk + 1"] K1 by simp
  have a0: "available rb = Some (int (unat mtu) - int (reply_bytes rb))" using building_available [OF b _ m] K1 by simp
  have pos: "0 < int (unat mtu) - int (reply_bytes rb)" using room by linarith
  obtain rb1 a where h: "request_hash_ancestors zf rb ?blk = Some rb1" "available rb1 = Some a"
      "a = int (unat mtu) - int (reply_bytes rb + 24 * length (tentative rb1))" "adds 32 rb rb1"
      "st zf (leaf zf K) = v_unknown \<longrightarrow> set (committed rb) \<union> set (tentative rb1) \<noteq> {}" and
    clear: "\<forall>d. d = COMMIT \<and> 0 \<le> a \<or> d = ABORT \<longrightarrow> (\<exists>rb2. clear_tentative_locations rb1 d = Some rb2 \<and> building zf ms mtu (K + 1) rb2 \<and>
       request_range rb2 = request_range rb \<and> set (committed rb2) = set (committed rb) \<union> (if d = COMMIT then set (tentative rb1) else {}) \<and>
       reply_bytes rb2 = reply_bytes rb + (if d = COMMIT then 24 * length (tentative rb1) else 0))"
    by (rule hashes_round [OF c b blk Kn m])
  have len: "length (tentative rb1) \<le> 32" using h(4) b by (simp add: adds_def building_def)
  show ?thesis
  proof (cases "a < 0")
    case True
    from clear [THEN spec, of ABORT] obtain rb2 where
      r2: "clear_tentative_locations rb1 ABORT = Some rb2" "building zf ms mtu (K + 1) rb2" "request_range rb2 = request_range rb"
      "set (committed rb2) = set (committed rb)" by auto
    have "build_loop zf ms rb S = Some rb2"
      using S a0 pos h(1,2) True r2(1) by (subst build_loop.simps) (simp add: Let_def)
    moreover have "grows rb rb2" using r2(3,4) by (simp add: grows_def)
    moreover have "unat mtu < reply_bytes rb + 768" using True len unfolding h(3) by linarith
    ultimately show ?thesis using r2(2) stop by blast
  next
    case False
    from clear [THEN spec, of COMMIT] False obtain rb2 where
      r2: "clear_tentative_locations rb1 COMMIT = Some rb2" "building zf ms mtu (K + 1) rb2" "request_range rb2 = request_range rb"
      "set (committed rb2) = set (committed rb) \<union> set (tentative rb1)" "reply_bytes rb2 = reply_bytes rb + 24 * length (tentative rb1)" by auto
    from leaf_in_tree [OF c Kn] obtain loc where
      loc: "tree_index (uint (tree_depth zf)) (int K) (tree_size zf) = Some loc" "unat loc = leaf zf K" "leaf zf K < length (tree zf)" by auto
    have "sint ?blk = int K" using blk K1 by (subst sint_small_u32) simp_all
    then have "build_loop zf ms rb S =
        Option.bind (if leaf_known zf K then request_block_data rb2 ms S ?S' else Some rb2) (\<lambda>rb3. build_loop zf ms rb3 ?S')"
      using S a0 pos h(1,2) False r2(1) loc by (subst build_loop.simps) (simp add: Let_def rd_def)
    moreover have "grows rb rb2" using r2(3,4) by (simp add: grows_def)
    moreover have "st zf (leaf zf K) = v_unknown \<longrightarrow> committed rb2 \<noteq> []" using h(5) r2(4) by (metis set_empty)
    ultimately show ?thesis using r2(2,3,5) S' K1 len by (intro go) auto
  qed
qed

lemma build_round:
  assumes c: "configured zf" and b: "building zf ms mtu K rb" and m: "unat mtu \<le> 2 ^ 30" and kc: "known_contiguous zf ms"
    and ms: "unat (dr_end ms) \<le> file_len_nat zf" and K: "unat S div 65536 = K" and S: "S < dr_end ms" "dr_start ms \<le> S"
    and room: "reply_bytes rb < unat mtu" and j: "joins zf ms mtu rb S"
  shows "(\<exists>rb'. build_loop zf ms rb S = Some rb' \<and> building zf ms mtu (K + 1) rb' \<and> grows rb rb' \<and> unat mtu < reply_bytes rb + 768) \<or>
    (\<exists>rb' S'. build_loop zf ms rb S = build_loop zf ms rb' S' \<and> building zf ms mtu (K + 1) rb' \<and> grows rb rb' \<and>
       unat S' = (K + 1) * 65536 \<and> joins zf ms mtu rb' S' \<and>
       (reply_bytes rb + 768 < unat mtu \<and> st zf (leaf zf K) \<in> {v_unknown, v_validated} \<longrightarrow>
          committed rb' \<noteq> [] \<or> S \<in> dr_bytes (request_range rb')))"
proof (rule build_step [OF c b m ms K S(1) room])
  fix rb' assume "build_loop zf ms rb S = Some rb'" "building zf ms mtu (K + 1) rb'" "grows rb rb'" "unat mtu < reply_bytes rb + 768"
  then show ?thesis by blast
next
  fix rb2 S' assume step: "build_loop zf ms rb S =
        Option.bind (if leaf_known zf K then request_block_data rb2 ms S S' else Some rb2) (\<lambda>rb3. build_loop zf ms rb3 S')"
    and r2: "building zf ms mtu (K + 1) rb2" "grows rb rb2" "request_range rb2 = request_range rb" "reply_bytes rb2 \<le> reply_bytes rb + 768"
    and S': "unat S' = (K + 1) * 65536" "K + 1 \<le> 65535" and u: "st zf (leaf zf K) = v_unknown \<longrightarrow> committed rb2 \<noteq> []"
  show ?thesis
  proof (cases "leaf_known zf K")
    case True
    have "K * 65536 < unat (dr_end ms)" using K S(1) by (auto simp: word_less_nat_alt)
    with j room K True have "DataRange_is_empty (request_range rb2) \<or> dr_end (request_range rb2) = S"
      unfolding joins_def r2(3) by (metis le_refl less_irrefl)
    from data_round [OF r2(1) _ m K S _ True this, of S'] S' obtain rb3 where
      r3: "request_block_data rb2 ms S S' = Some rb3" "building zf ms mtu (K + 1) rb3" "grows rb2 rb3"
      "reply_bytes rb2 < unat mtu \<Longrightarrow> S \<in> dr_bytes (request_range rb3)"
      "reply_bytes rb3 = unat mtu \<or> dr_end (request_range rb3) = min S' (dr_end ms)"
      "reply_bytes rb3 \<le> reply_bytes rb2 + 65536" "dr_end (request_range rb3) \<le> S'" by auto
    have "joins zf ms mtu rb3 S'" using r3(5) S' by (auto simp: joins_def min_def word_le_nat_alt split: if_splits)
    moreover have "build_loop zf ms rb S = build_loop zf ms rb3 S'" using step True r3(1) by simp
    moreover have "S \<in> dr_bytes (request_range rb3)" if "reply_bytes rb + 768 < unat mtu" using r2(4) that by (intro r3(4)) simp
    ultimately show ?thesis using r3(2) grows_trans [OF r2(2) r3(3)] S'(1) by blast
  next
    case False
    have "DataRange_is_empty (request_range rb2) \<or> (\<forall>k. K + 1 \<le> k \<and> k * 65536 < unat (dr_end ms) \<longrightarrow> \<not> leaf_known zf k)"
      using joins_skip [OF j b kc _ False K] room unfolding r2(3) by simp
    moreover have "unat S' div 65536 = K + 1" using S'(1) by simp
    ultimately have "joins zf ms mtu rb2 S'" unfolding joins_def by metis
    moreover have "build_loop zf ms rb S = build_loop zf ms rb2 S'" using step False by simp
    ultimately show ?thesis using r2(1,2) S' u False by auto
  qed
qed

lemma build_loop_ok:
  assumes c: "configured zf" and m: "unat mtu \<le> 2 ^ 30" and kc: "known_contiguous zf ms" and ms: "unat (dr_end ms) \<le> file_len_nat zf"
  shows "building zf ms mtu K rb \<Longrightarrow> K = unat S div 65536 \<Longrightarrow> dr_start ms \<le> S \<Longrightarrow> joins zf ms mtu rb S \<Longrightarrow> K \<le> 65535 \<Longrightarrow>
    \<exists>rb'. build_loop zf ms rb S = Some rb' \<and> building zf ms mtu 65536 rb' \<and> grows rb rb'"
proof (induction "65536 - K" arbitrary: K rb S rule: less_induct)
  case less
  note b = less.prems(1)
  have fin: "building zf ms mtu 65536 rb" using b less.prems(5) by (auto simp: building_def intro: rb_inv_mono)
  have a: "available rb = Some (int (unat mtu) - int (reply_bytes rb))" using building_available [OF b _ m] less.prems(5) by simp
  show ?case
  proof (cases "S < dr_end ms \<and> reply_bytes rb < unat mtu")
    case False
    moreover have "0 < int (unat mtu) - int (reply_bytes rb) \<longleftrightarrow> reply_bytes rb < unat mtu" by linarith
    ultimately have "build_loop zf ms rb S = Some rb" using a by (subst build_loop.simps) (auto simp del: diff_gt_0_iff_gt)
    with fin show ?thesis by auto
  next
    case True
    from build_round [OF c b m kc ms less.prems(2) [symmetric] _ less.prems(3) _ less.prems(4)] True consider
      (stop) rb' where "build_loop zf ms rb S = Some rb'" "building zf ms mtu (K + 1) rb'" "grows rb rb'"
    | (go) rb' S' where "build_loop zf ms rb S = build_loop zf ms rb' S'" "building zf ms mtu (K + 1) rb'" "grows rb rb'"
        "unat S' = (K + 1) * 65536" "joins zf ms mtu rb' S'" by blast
    then show ?thesis
    proof cases
      case stop
      then have "building zf ms mtu 65536 rb'" using less.prems(5) by (auto simp: building_def intro: rb_inv_mono)
      with stop show ?thesis by blast
    next
      case go
      have "unat S < (K + 1) * 65536" using less.prems(2) by (simp add: dividend_less_div_times)
      then have le: "dr_start ms \<le> S'" using go(4) less.prems(3) by (simp add: word_nat)
      have "K + 1 \<le> 65535" using go(4) unat_less_exp [of S'] by simp
      moreover have "65536 - (K + 1) < 65536 - K" using less.prems(5) by (intro diff_less_mono2) simp_all
      ultimately obtain rb'' where
        "build_loop zf ms rb' S' = Some rb''" "building zf ms mtu 65536 rb''" "grows rb' rb''"
        using less.hyps [of "K + 1", OF _ go(2) _ le go(5)] go(4) by auto
      with go(1) grows_trans [OF go(3)] show ?thesis by auto
    qed
  qed
qed

abbreviation fresh :: "u32 \<Rightarrow> RequestBuilder" where
  "fresh mtu \<equiv> \<lparr>rb_mtu = mtu, committed_tree_locations = AVLTree_new, tentative_tree_locations = AVLTree_new,
    request_range = DataRange_new\<rparr>"

lemma building_new:
  assumes "49 \<le> unat mtu"
  shows "building zf ms mtu K (fresh mtu)"
  using assms good_new good_mono [OF good_new(1)]
  by (simp add: building_def rb_inv_def reply_bytes_def DataRange_size_def DataRange_new_def dr_wf_def dr_bytes_def)

lemma building_size: "building zf ms mtu K rb \<Longrightarrow> AVLTree_size (tentative_tree_locations rb) = Some 0"
  using good_size [of "64 * K" "tentative_tree_locations rb"] by (simp add: building_def rb_inv_def)

lemma joins_new: "joins zf ms mtu (fresh mtu) S"
  by (simp add: joins_def DataRange_is_empty_def DataRange_new_def)

lemma reply_bytes_new: "reply_bytes (fresh mtu) = 49"
  by (simp add: reply_bytes_def good_new DataRange_size_def DataRange_new_def)

lemma new_request_loop:
  assumes "building zf ms mtu 65536 rb" and "unat mtu \<le> 2 ^ 30" and "49 \<le> unat mtu"
    and "build_loop zf ms (fresh mtu) (dr_start ms) = Some rb"
  shows "RequestBuilder_new zf ms mtu = Some rb"
proof -
  have "available rb = Some (int (unat mtu) - int (reply_bytes rb))" "reply_bytes rb \<le> unat mtu"
    using building_available [OF assms(1) _ assms(2)] assms(1) by (simp_all add: building_def)
  moreover have "0 \<le> int (unat mtu) - int (reply_bytes rb)" using calculation(2) by linarith
  ultimately show ?thesis
    using assms(4) building_size [OF assms(1)] building_size [OF building_new [OF assms(3), of zf ms 0]]
    by (simp add: RequestBuilder_new_def build_request_def)
qed

lemma new_request:
  assumes "configured zf" and "known_contiguous zf ms" and "unat (dr_end ms) \<le> file_len_nat zf" and "49 \<le> unat mtu" and "unat mtu \<le> 2 ^ 30"
  obtains rb where "RequestBuilder_new zf ms mtu = Some rb" "building zf ms mtu 65536 rb"
proof -
  have "unat (dr_start ms) div 65536 \<le> 65535"
    using unat_less_exp [of "dr_start ms"] by (simp add: less_Suc_eq_le [symmetric] div_less_iff_less_mult)
  then obtain rb where "build_loop zf ms (fresh mtu) (dr_start ms) = Some rb" "building zf ms mtu 65536 rb"
    using build_loop_ok [OF assms(1,5,2,3) building_new [OF assms(4)] refl order_refl joins_new] by blast
  then show ?thesis using new_request_loop [OF _ assms(5,4)] that by blast
qed

text \<open>Once a gap has opened, the next known leaf makes the builder fail.\<close>

lemma accumulate_gap:
  assumes "dr_wf r" and "\<not> DataRange_is_empty r" and "dr_end r < s" and "s \<le> e"
  shows "DataRange_accumulate r s e = None"
proof -
  have "dr_start r < s" "dr_end r < e" using assms by (auto simp: dr_wf_def)
  with assms show ?thesis by (auto simp: DataRange_accumulate_def DataRange_maybe_accumulate_def)
qed

lemma build_loop_gap:
  assumes c: "configured zf" and m: "unat mtu \<le> 2 ^ 30" and ms: "unat (dr_end ms) \<le> file_len_nat zf"
    and k: "k * 65536 < unat (dr_end ms)" "leaf_known zf k"
  shows "building zf ms mtu K rb \<Longrightarrow> unat S = K * 65536 \<Longrightarrow> K \<le> k \<Longrightarrow> \<not> DataRange_is_empty (request_range rb) \<Longrightarrow>
    dr_end (request_range rb) < S \<Longrightarrow> reply_bytes rb + 768 * (k + 1 - K) < unat mtu \<Longrightarrow> build_loop zf ms rb S = None"
proof (induction "k - K" arbitrary: K rb S rule: less_induct)
  case less
  have S: "S < dr_end ms" using k(1) less.prems(2,3) by (simp add: word_nat)
  show ?case
  proof (rule build_step [OF c less.prems(1) m ms _ S])
    show "unat S div 65536 = K" "reply_bytes rb < unat mtu" using less.prems(2,3,6) by simp_all
  next
    fix rb' assume "unat mtu < reply_bytes rb + 768"
    then show ?thesis using less.prems(3,6) by (simp add: algebra_simps Suc_diff_le)
  next
    fix rb2 S' assume step: "build_loop zf ms rb S =
        Option.bind (if leaf_known zf K then request_block_data rb2 ms S S' else Some rb2) (\<lambda>rb3. build_loop zf ms rb3 S')"
      and r2: "building zf ms mtu (K + 1) rb2" "request_range rb2 = request_range rb" "reply_bytes rb2 \<le> reply_bytes rb + 768"
      and S': "unat S' = (K + 1) * 65536" "K + 1 \<le> 65535"
    show ?thesis
    proof (cases "leaf_known zf K")
      case True
      obtain F where data: "request_block_data rb2 ms S S' =
          map_option (\<lambda>r. rb2\<lparr>request_range := r\<rparr>) (DataRange_accumulate (request_range rb2) S F)"
        and F: "unat F = min (unat (min S' (dr_end ms))) (unat S + (unat mtu - reply_bytes rb2))" and SE: "unat S < unat (min S' (dr_end ms))"
        by (rule block_data_range [OF r2(1) _ m _ S, of K S']) (use S' less.prems(2) in simp_all)
      have "S \<le> F" using F SE by (simp add: word_nat)
      moreover have "dr_wf (request_range rb)" using less.prems(1) by (simp add: building_def)
      ultimately have "DataRange_accumulate (request_range rb2) S F = None"
        using accumulate_gap less.prems(4,5) unfolding r2(2) by blast
      then show ?thesis using step data True by simp
    next
      case False
      then have K: "K < k" using k(2) less.prems(3) by (cases "K = k") simp_all
      moreover have "dr_end (request_range rb2) < S'" using less.prems(2,5) S'(1) unfolding r2(2) by (simp add: word_nat)
      moreover have "reply_bytes rb2 + 768 * (k + 1 - (K + 1)) < unat mtu" using r2(3) less.prems(6) K by simp
      ultimately have "build_loop zf ms rb2 S' = None"
        using less.hyps [OF _ r2(1) S'(1)] less.prems(4) unfolding r2(2) by simp
      then show ?thesis using step False by simp
    qed
  qed
qed

subsection \<open>Properties\<close>

text \<open>A file of eight blocks of which those between two bounds have validated leaves, and so have all inner nodes.\<close>

definition eight_blocks :: "(nat \<Rightarrow> bool) \<Rightarrow> ZCachedFile" where
  "eight_blocks known = test_file 3 524288 (\<lambda>i. if i < 7 \<or> known (i - 7) then v_validated else v_unknown)"

lemma eight_blocks_sel:
  "configured (eight_blocks known)" "get_filelen (eight_blocks known) = 524288"
  "k < 8 \<Longrightarrow> st (eight_blocks known) (leaf (eight_blocks known) k) = (if known k then v_validated else v_unknown)"
proof -
  have "compute_tree_depth (compute_num_blocks 524288) = of_nat 3" by code_simp
  then show "configured (eight_blocks known)" unfolding eight_blocks_def by (intro test_file_configured) simp_all
qed (simp_all add: eight_blocks_def test_leaf test_file_sel)

text \<open>C29. A request never asks for more than fits into one reply: for a file whose tree is laid out, a missing set within
  the file and a payload limit between the size of a header and \<open>2 ^ 30\<close>, building the request returns when the known
  leaves among the missing blocks are consecutive. The reply, of 49 bytes of header, 24 bytes per hash and the data,
  stays within the limit; the locations ascend, lie in the tree and are unknown ones; the data lie in the missing set
  and in blocks whose leaves are validated.\<close>

theorem request_fits:
  assumes "configured zf" and "known_contiguous zf ms" and "unat (dr_end ms) \<le> file_len_nat zf" and "49 \<le> unat mtu" and "unat mtu \<le> 2 ^ 30"
  shows "\<exists>rb. RequestBuilder_new zf ms mtu = Some rb \<and>
    49 + 24 * length (committed rb) + unat (DataRange_size (request_range rb)) \<le> unat mtu \<and>
    sorted (committed rb) \<and> distinct (committed rb) \<and>
    (\<forall>x \<in> set (committed rb). unat x < length (tree zf) \<and> st zf (unat x) = v_unknown) \<and>
    (\<forall>x \<in> dr_bytes (request_range rb). x \<in> dr_bytes ms \<and> st zf (leaf zf (unat x div 65536)) = v_validated)"
proof -
  from new_request [OF assms] obtain rb where rb: "RequestBuilder_new zf ms mtu = Some rb" "building zf ms mtu 65536 rb" .
  from rb(2) have "good (64 * 65536) (committed_tree_locations rb)" by (simp add: building_def rb_inv_def)
  note good_ordered [OF this]
  then have "sorted (committed rb)" "distinct (committed rb)" by (simp_all add: ordered_sorted ordered_distinct)
  with rb show ?thesis by (auto simp: building_def rb_inv_def reply_bytes_def)
qed

theorem request_fits_witness:
  "\<exists>rb. RequestBuilder_new (eight_blocks (\<lambda>k. k < 3)) (DataRange_of 1000 524288) 1400 = Some rb \<and>
    49 + 24 * length (committed rb) + unat (DataRange_size (request_range rb)) \<le> 1400"
proof -
  have "known_contiguous (eight_blocks (\<lambda>k. k < 3)) (DataRange_of 1000 524288)"
    by (auto simp: known_contiguous_def DataRange_of_def eight_blocks_sel(3) split: if_splits)
  then show ?thesis
    using request_fits [of "eight_blocks (\<lambda>k. k < 3)" "DataRange_of 1000 524288" 1400]
    by (auto simp: eight_blocks_sel DataRange_of_def)
qed

text \<open>C30. A request asks for something: when bytes of the file are missing, the known leaves among the missing blocks
  are consecutive, the leaf of the first missing block is not tentative and the limit, of at most \<open>2 ^ 30\<close>, leaves room for the hashes of one block (a path of at most 16 levels, two hashes each) and
  a byte, the request has a location or a byte of data.\<close>

theorem request_progress:
  assumes "configured zf" and "known_contiguous zf ms" and "unat (dr_end ms) \<le> file_len_nat zf" and "818 \<le> unat mtu" and "unat mtu \<le> 2 ^ 30"
    and "dr_start ms < dr_end ms" and "st zf (leaf zf (unat (dr_start ms) div 65536)) \<in> {v_unknown, v_validated}"
  shows "\<exists>rb. RequestBuilder_new zf ms mtu = Some rb \<and> (committed rb \<noteq> [] \<or> requested_any_data rb)"
proof -
  let ?S = "dr_start ms" and ?K = "unat (dr_start ms) div 65536"
  have new: "building zf ms mtu ?K (fresh mtu)" using assms(4) by (intro building_new) simp
  from build_round [OF assms(1) new assms(5,2,3) refl assms(6) order_refl _ joins_new] assms(4,7) obtain rb' S' where
    r: "build_loop zf ms (fresh mtu) ?S = build_loop zf ms rb' S'" "building zf ms mtu (?K + 1) rb'" "unat S' = (?K + 1) * 65536"
    "joins zf ms mtu rb' S'" "committed rb' \<noteq> [] \<or> ?S \<in> dr_bytes (request_range rb')" by (auto simp: reply_bytes_new)
  have "?K + 1 \<le> 65535" using r(3) unat_less_exp [of S'] by simp
  moreover have "unat ?S < (?K + 1) * 65536" by (simp add: dividend_less_div_times)
  then have "?S \<le> S'" using r(3) by (simp add: word_nat)
  ultimately obtain rb where rb: "build_loop zf ms rb' S' = Some rb" "building zf ms mtu 65536 rb" "grows rb' rb"
    using build_loop_ok [OF assms(1,5,2,3) r(2) _ _ r(4)] r(3) by auto
  have "RequestBuilder_new zf ms mtu = Some rb" using new_request_loop [OF rb(2) assms(5)] assms(4) rb(1) r(1) by simp
  moreover have "committed rb \<noteq> [] \<or> ?S \<in> dr_bytes (request_range rb)" using r(5) rb(3) by (auto simp: grows_def)
  ultimately show ?thesis by (auto simp: requested_any_data_def DataRange_size_def dr_bytes_def word_gt_0)
qed

theorem request_progress_witness:
  "\<exists>rb. RequestBuilder_new (eight_blocks (\<lambda>k. 4 < k)) (DataRange_of 1000 524288) 1400 = Some rb \<and>
    (committed rb \<noteq> [] \<or> requested_any_data rb)"
proof -
  have "known_contiguous (eight_blocks (\<lambda>k. 4 < k)) (DataRange_of 1000 524288)"
    by (auto simp: known_contiguous_def DataRange_of_def eight_blocks_sel(3) split: if_splits)
  then show ?thesis
    by (intro request_progress) (simp_all add: eight_blocks_sel DataRange_of_def)
qed

text \<open>A hole in the knowledge of the leaves makes the builder fail: when the first missing block has a known leaf, the next
  block an unknown one and a later missing block a known one again, and the limit has room for all of them,
  the assertion in \<open>DataRange::accumulate\<close> fails and the program stops.\<close>

theorem request_gap_aborts:
  assumes "configured zf" and "unat (dr_end ms) \<le> file_len_nat zf" and "unat mtu \<le> 2 ^ 30"
    and "i = unat (dr_start ms) div 65536" and "leaf_known zf i" and "\<not> leaf_known zf (i + 1)"
    and "i + 1 < k" and "leaf_known zf k" and "k * 65536 < unat (dr_end ms)" and "65600 + 768 * (k + 2 - i) < unat mtu"
  shows "RequestBuilder_new zf ms mtu = None"
proof -
  let ?S = "dr_start ms"
  have new: "building zf ms mtu i (fresh mtu)" using assms(10) by (intro building_new) simp
  have q: "unat ?S < (i + 1) * 65536" using assms(4) by (simp add: dividend_less_div_times)
  have "(i + 2) * 65536 \<le> k * 65536" using assms(7) by (intro mult_le_mono1) simp
  with q assms(9) have S: "?S < dr_end ms" and S2: "(i + 1) * 65536 < unat (dr_end ms)" unfolding word_less_nat_alt by simp_all
  have "build_loop zf ms (fresh mtu) ?S = None"
  proof (rule build_step [OF assms(1) new assms(3,2) assms(4) [symmetric] S], unfold reply_bytes_new)
    fix rb2 S' assume step: "build_loop zf ms (fresh mtu) ?S =
        Option.bind (if leaf_known zf i then request_block_data rb2 ms ?S S' else Some rb2) (\<lambda>rb3. build_loop zf ms rb3 S')"
      and r2: "building zf ms mtu (i + 1) rb2" "request_range rb2 = request_range (fresh mtu)" "reply_bytes rb2 \<le> 49 + 768"
      and S': "unat S' = (i + 1) * 65536" "i + 1 \<le> 65535"
    have "DataRange_is_empty (request_range rb2)" unfolding r2(2) by (simp add: DataRange_is_empty_def DataRange_new_def)
    with data_round [OF r2(1) _ assms(3) assms(4) [symmetric] S order_refl _ assms(5), of S'] S' assms(10) r2(3) obtain rb3 where
      r3: "request_block_data rb2 ms ?S S' = Some rb3" "building zf ms mtu (i + 1) rb3" "?S \<in> dr_bytes (request_range rb3)"
      "reply_bytes rb3 \<le> reply_bytes rb2 + 65536" "dr_end (request_range rb3) \<le> S'" by auto
    have ne: "\<not> DataRange_is_empty (request_range rb3)" using r3(3) by (auto simp: dr_bytes_def DataRange_is_empty_def)
    have "build_loop zf ms rb3 S' = None"
    proof (rule build_step [OF assms(1) r3(2) assms(3,2), of S'])
      fix rb4 S'' assume step4: "build_loop zf ms rb3 S' =
          Option.bind (if leaf_known zf (i + 1) then request_block_data rb4 ms S' S'' else Some rb4) (\<lambda>rb3. build_loop zf ms rb3 S'')"
        and r4: "building zf ms mtu (i + 1 + 1) rb4" "request_range rb4 = request_range rb3" "reply_bytes rb4 \<le> reply_bytes rb3 + 768"
        and S'': "unat S'' = (i + 1 + 1) * 65536"
      have "dr_end (request_range rb4) < S''" using r3(5) S'(1) S'' unfolding r4(2) by (simp add: word_nat)
      moreover have "reply_bytes rb4 + 768 * (k + 1 - (i + 1 + 1)) < unat mtu" using r2(3) r3(4) r4(3) assms(7,10) by simp
      ultimately have "build_loop zf ms rb4 S'' = None"
        using build_loop_gap [OF assms(1,3,2,9,8) r4(1) S''] assms(7) ne unfolding r4(2) by simp
      then show ?thesis using step4 assms(6) by simp
    qed (use S' S2 r2(3) r3(4) assms(7,10) in \<open>simp_all add: word_less_nat_alt\<close>)
    then show ?thesis using step assms(5) r3(1) by simp
  qed (use assms(10) in simp_all)
  then show ?thesis using building_size [OF new] by (simp add: RequestBuilder_new_def build_request_def)
qed

theorem request_gap_aborts_witness:
  "RequestBuilder_new (eight_blocks (\<lambda>k. k \<noteq> 2)) (DataRange_of 65536 524288) 131072 = None"
  by (rule request_gap_aborts [where i = 1 and k = 3]) (simp_all add: eight_blocks_sel DataRange_of_def)

end
