(* ===== verification/Exchange.thy ===== *)
theory Exchange
  imports Reply RequestFits
begin

text \<open>
  A request on its way from the builder of the client to the reply of the server: \<open>RequestBuilder.cpp\<close>,
  \<open>OutboundRequest.cpp\<close>, \<open>ZFileRequest.cpp\<close> and \<open>ValidFileResult.cpp\<close> together.
\<close>

text \<open>Walking the tree from its least element visits its elements in order.\<close>

lemma next_location:
  assumes "good n t" and "locs t = pre @ e # ls"
  shows "AVLTree_findFirstGreaterThan (\<lambda>x. x) t e = (case ls of [] \<Rightarrow> None | x # _ \<Rightarrow> Some x)"
proof -
  have "sorted (locs t)" "distinct (locs t)" using good_ordered [OF assms(1)] by (simp_all add: ordered_sorted ordered_distinct)
  then have "\<forall>x \<in> set (pre @ [e]). \<not> e < x" "\<forall>x \<in> set ls. e < x"
    unfolding assms(2) by (auto simp: sorted_append less_le)
  then have "find (\<lambda>x. e < x) (pre @ e # ls) = (case ls of [] \<Rightarrow> None | x # _ \<Rightarrow> Some x)"
    by (induction pre) (auto split: list.splits)
  moreover have "root t \<noteq> Null" using assms(2) by auto
  ultimately show ?thesis
    using find_greater [OF good_ordered [OF assms(1)], of e] assms(2) by (simp add: AVLTree_findFirstGreaterThan_def)
qed

lemma set_locations_from_ok:
  assumes "good n t"
  shows "locs t = pre @ ls \<Longrightarrow> set_locations_from t obr (case ls of [] \<Rightarrow> None | e # _ \<Rightarrow> Some e) i = set_locations obr i ls"
proof (induction ls arbitrary: pre obr i)
  case Nil
  then show ?case by (simp add: set_locations_from.simps)
next
  case (Cons e ls)
  from Cons.IH [of "pre @ [e]"] Cons.prems next_location [OF assms Cons.prems] show ?case
    by (subst set_locations_from.simps) simp
qed

lemma as_outbound_request_ok:
  assumes "good n (committed_tree_locations rb)"
  shows "as_outbound_request raw zf rb =
    OutboundRequest_new raw (file_hash zf) None (of_nat (length (committed rb))) 0 (request_range rb) \<bind> (\<lambda>obr. set_locations obr 0 (committed rb))"
  using set_locations_from_ok [OF assms, of "[]"] good_size [OF assms] good_findMin [OF assms]
  by (simp add: as_outbound_request_def cong: Option.bind_cong)

lemma available_smaller:
  assumes "configured zf" and "dr_wf (req_data_range req)"
  shows "\<exists>rng. get_available_data_range zf req = Some rng \<and> unat (DataRange_size rng) \<le> unat (DataRange_size (req_data_range req))"
proof -
  let ?r = "req_data_range req" and ?rng = "DataRange_intersect (req_data_range req) (DataRange_of 0 (get_filelen zf))"
  have "get_available_data_range zf req = Some ?rng"
    using assms(1) by (simp add: get_available_data_range_def get_file_data_range_def configured_def)
  moreover have "?rng = DataRange_new \<or> dr_start ?rng = dr_start ?r \<and> dr_end ?rng \<le> dr_end ?r \<and> dr_start ?rng \<le> dr_end ?rng"
    by (auto simp: DataRange_intersect_def Let_def DataRange_new_def DataRange_of_def not_less)
  then have "unat (DataRange_size ?rng) \<le> unat (DataRange_size ?r)"
    using assms(2) by (auto simp: DataRange_size_def DataRange_new_def dr_wf_def word_le_nat_alt unat_sub_le)
  ultimately show ?thesis by blast
qed

subsection \<open>Properties\<close>

text \<open>C28. A whole exchange stays within the payload limit of the client, which lies between the size of a header and \<open>2 ^ 30\<close>,
  when the missing set lies in the file and the known leaves among its blocks are consecutive: the request the client builds is put on the wire, the
  server reads from it the file, the locations in ascending order and the data range the builder chose, and the reply it
  sizes for its own copy of a file takes at most the payload limit.\<close>

theorem exchange_fits:
  assumes "configured zc" and "known_contiguous zc ms" and "unat (dr_end ms) \<le> file_len_nat zc" and "49 \<le> unat mtu" and "unat mtu \<le> 2 ^ 30"
    and "\<forall>n. length (raw n) = unat n" and "configured zs"
  shows "\<exists>rb obr zrp req sz. RequestBuilder_new zc ms mtu = Some rb \<and> as_outbound_request raw zc rb = Some obr \<and>
    get_zrp obr = Some zrp \<and> ZFileRequest_parse zrp = Some (Some req) \<and> req_hash req = file_hash zc \<and>
    num_tree_locations req = of_nat (length (committed rb)) \<and>
    (\<forall>j < length (committed rb). get_tree_location req (of_nat j) = Some (committed rb ! j)) \<and>
    req_data_range req = request_range rb \<and> get_reply_size zs req = Some sz \<and> unat sz \<le> unat mtu"
proof -
  from new_request [OF assms(1-5)] obtain rb where rb: "RequestBuilder_new zc ms mtu = Some rb" "building zc ms mtu 65536 rb" .
  let ?n = "length (committed rb)"
  from rb(2) have g: "good (64 * 65536) (committed_tree_locations rb)" and wf: "dr_wf (request_range rb)"
    and sz: "49 + 24 * ?n + unat (DataRange_size (request_range rb)) \<le> unat mtu"
    by (simp_all add: building_def rb_inv_def reply_bytes_def)
  have "40 + 4 * ?n + hint_len None < 2 ^ 32" "hint_len None < 2 ^ 16" using sz assms(5) by (simp_all add: hint_len_def)
  from written_request [OF assms(6) this, of "file_hash zc" 0 "request_range rb"] obtain obr zrp req where
    w: "as_outbound_request raw zc rb = Some obr" "get_zrp obr = Some zrp" "ZFileRequest_parse zrp = Some (Some req)" "req_hash req = file_hash zc"
    "num_tree_locations req = of_nat ?n" "padding_request req = 0" "req_data_range req = request_range rb"
    "\<forall>j < ?n. get_tree_location req (of_nat j) = Some (committed rb ! j)"
    unfolding as_outbound_request_ok [OF g] by auto
  from available_smaller [OF assms(7), of req] wf w(7) obtain rng where
    rng: "get_available_data_range zs req = Some rng" "unat (DataRange_size rng) \<le> unat (DataRange_size (request_range rb))" by auto
  have "unat (24 * of_nat ?n :: u32) = 24 * ?n" using sz assms(5) by (simp add: unat_word_ariths unat_of_nat_u32)
  then have "unat (49 + 24 * of_nat ?n :: u32) = 49 + 24 * ?n" using sz assms(5) by (subst unat_add_small) simp_all
  then have "unat (49 + 24 * of_nat ?n + DataRange_size rng) = 49 + 24 * ?n + unat (DataRange_size rng)"
    using sz assms(5) rng(2) by (subst unat_add_small) simp_all
  moreover have "get_reply_size zs req = Some (49 + 24 * of_nat ?n + DataRange_size rng)" using rng(1) w(5,6) by (simp add: get_reply_size_def)
  ultimately show ?thesis using rb(1) w(1-5,7,8) sz rng(2) by auto
qed

theorem exchange_fits_witness:
  "\<exists>rb obr zrp req sz. RequestBuilder_new (eight_blocks (\<lambda>k. k < 3)) (DataRange_of 1000 524288) 1400 = Some rb \<and>
    as_outbound_request (\<lambda>n. replicate (unat n) 0) (eight_blocks (\<lambda>k. k < 3)) rb = Some obr \<and> get_zrp obr = Some zrp \<and>
    ZFileRequest_parse zrp = Some (Some req) \<and> get_reply_size (eight_blocks (\<lambda>_. True)) req = Some sz \<and> unat sz \<le> 1400"
proof -
  have "known_contiguous (eight_blocks (\<lambda>k. k < 3)) (DataRange_of 1000 524288)"
    by (auto simp: known_contiguous_def DataRange_of_def eight_blocks_sel(3) split: if_splits)
  moreover have "unat (dr_end (DataRange_of 1000 524288)) \<le> file_len_nat (eight_blocks (\<lambda>k. k < 3))" by (simp add: eight_blocks_sel DataRange_of_def)
  ultimately show ?thesis
    using exchange_fits [OF eight_blocks_sel(1) _ _ _ _ _ eight_blocks_sel(1), of _ "DataRange_of 1000 524288" 1400 "\<lambda>n. replicate (unat n) 0" "\<lambda>_. True"]
    by fastforce
qed

end
