(* ===== verification/Sha1.thy ===== *)
theory Sha1
  imports Wire
begin

text \<open>
  The hash function of the system, \<open>zhash\<close> of \<open>src/common/crypto/crypto.cpp\<close>: SHA-1 as
  \<open>sha1.c\<close> and \<open>sha2_helper.c.inc\<close> compute it on a 32-bit little-endian machine (\<open>SPH_64\<close>,
  \<open>SPH_UPTR\<close> and \<open>SPH_UNALIGNED\<close> defined). The compression function is the unrolled code of the source, with its
  five registers that exchange their roles and its sixteen words of the schedule that are overwritten in place.
\<close>

subsection \<open>Machine words, \<open>sha2_types.h\<close>\<close>

definition SPH_T32 :: "u32 \<Rightarrow> u32" where
  "SPH_T32 x = x AND 0xFFFFFFFF"

definition ROTL :: "u32 \<Rightarrow> nat \<Rightarrow> u32" where
  "ROTL x n = SPH_T32 (push_bit n x OR drop_bit (32 - n) x)"

text \<open>The machine instruction \<open>bswapl\<close>, as the portable branch spells it out.\<close>

definition sph_bswap32 :: "u32 \<Rightarrow> u32" where
  "sph_bswap32 x = (
     let x = SPH_T32 (push_bit 16 x OR drop_bit 16 x) in
     drop_bit 8 (x AND 0xFF00FF00) OR push_bit 8 (x AND 0x00FF00FF))"

definition sph_bswap64 :: "u64 \<Rightarrow> u64" where
  "sph_bswap64 x = push_bit 32 (ucast (sph_bswap32 (ucast x))) OR ucast (sph_bswap32 (ucast (drop_bit 32 x)))"

text \<open>Values in memory: the least significant byte first.\<close>

definition bytes_of_u64 :: "u64 \<Rightarrow> bytes" where
  "bytes_of_u64 w = map (\<lambda>i. ucast (drop_bit (8 * i) w)) [0..<8]"

definition sph_enc32be :: "u32 \<Rightarrow> bytes" where
  "sph_enc32be val = bytes_of_u32 (sph_bswap32 val)"

definition sph_dec32be_aligned :: "bytes \<Rightarrow> u32" where
  "sph_dec32be_aligned src = sph_bswap32 (u32_of_bytes src)"

definition sph_enc64be_aligned :: "u64 \<Rightarrow> bytes" where
  "sph_enc64be_aligned val = bytes_of_u64 (sph_bswap64 val)"

subsection \<open>The compression function\<close>

definition sha1_F :: "u32 \<Rightarrow> u32 \<Rightarrow> u32 \<Rightarrow> u32" where
  "sha1_F B C D = ((C XOR D) AND B) XOR D"

definition sha1_G :: "u32 \<Rightarrow> u32 \<Rightarrow> u32 \<Rightarrow> u32" where
  "sha1_G B C D = B XOR C XOR D"

definition sha1_H :: "u32 \<Rightarrow> u32 \<Rightarrow> u32 \<Rightarrow> u32" where
  "sha1_H B C D = (D AND C) OR ((D OR C) AND B)"

definition sha1_I :: "u32 \<Rightarrow> u32 \<Rightarrow> u32 \<Rightarrow> u32" where
  "sha1_I B C D = sha1_G B C D"

abbreviation K1 :: u32 where "K1 \<equiv> 0x5A827999"
abbreviation K2 :: u32 where "K2 \<equiv> 0x6ED9EBA1"
abbreviation K3 :: u32 where "K3 \<equiv> 0x8F1BBCDC"
abbreviation K4 :: u32 where "K4 \<equiv> 0xCA62C1D6"

definition IV :: "u32 list" where
  "IV = [0x67452301, 0xEFCDAB89, 0x98BADCFE, 0x10325476, 0xC3D2E1F0]"

type_synonym sha1_regs =
  "u32 \<times> u32 \<times> u32 \<times> u32 \<times> u32 \<times> u32 \<times> u32 \<times> u32 \<times> u32 \<times> u32 \<times> u32 \<times> u32 \<times> u32 \<times> u32 \<times> u32 \<times> u32 \<times> u32 \<times> u32 \<times> u32 \<times> u32 \<times> u32"

text \<open>\<open>SHA1_ROUND_BODY\<close>, rounds 0 to 19, 20 to 39, 40 to 59 and 60 to 79.\<close>

definition sha1_rounds_F :: "(nat \<Rightarrow> u32) \<Rightarrow> u32 \<Rightarrow> u32 \<Rightarrow> u32 \<Rightarrow> u32 \<Rightarrow> u32 \<Rightarrow> sha1_regs" where
 "sha1_rounds_F inp A B C D E = (
  let W00 = inp 0;
      E = SPH_T32 (ROTL A 5 + sha1_F B C D + E + W00 + K1);
      B = ROTL B 30 in
  let W01 = inp 1;
      D = SPH_T32 (ROTL E 5 + sha1_F A B C + D + W01 + K1);
      A = ROTL A 30 in
  let W02 = inp 2;
      C = SPH_T32 (ROTL D 5 + sha1_F E A B + C + W02 + K1);
      E = ROTL E 30 in
  let W03 = inp 3;
      B = SPH_T32 (ROTL C 5 + sha1_F D E A + B + W03 + K1);
      D = ROTL D 30 in
  let W04 = inp 4;
      A = SPH_T32 (ROTL B 5 + sha1_F C D E + A + W04 + K1);
      C = ROTL C 30 in
  let W05 = inp 5;
      E = SPH_T32 (ROTL A 5 + sha1_F B C D + E + W05 + K1);
      B = ROTL B 30 in
  let W06 = inp 6;
      D = SPH_T32 (ROTL E 5 + sha1_F A B C + D + W06 + K1);
      A = ROTL A 30 in
  let W07 = inp 7;
      C = SPH_T32 (ROTL D 5 + sha1_F E A B + C + W07 + K1);
      E = ROTL E 30 in
  let W08 = inp 8;
      B = SPH_T32 (ROTL C 5 + sha1_F D E A + B + W08 + K1);
      D = ROTL D 30 in
  let W09 = inp 9;
      A = SPH_T32 (ROTL B 5 + sha1_F C D E + A + W09 + K1);
      C = ROTL C 30 in
  let W10 = inp 10;
      E = SPH_T32 (ROTL A 5 + sha1_F B C D + E + W10 + K1);
      B = ROTL B 30 in
  let W11 = inp 11;
      D = SPH_T32 (ROTL E 5 + sha1_F A B C + D + W11 + K1);
      A = ROTL A 30 in
  let W12 = inp 12;
      C = SPH_T32 (ROTL D 5 + sha1_F E A B + C + W12 + K1);
      E = ROTL E 30 in
  let W13 = inp 13;
      B = SPH_T32 (ROTL C 5 + sha1_F D E A + B + W13 + K1);
      D = ROTL D 30 in
  let W14 = inp 14;
      A = SPH_T32 (ROTL B 5 + sha1_F C D E + A + W14 + K1);
      C = ROTL C 30 in
  let W15 = inp 15;
      E = SPH_T32 (ROTL A 5 + sha1_F B C D + E + W15 + K1);
      B = ROTL B 30 in
  let W00 = ROTL (W13 XOR W08 XOR W02 XOR W00) 1;
      D = SPH_T32 (ROTL E 5 + sha1_F A B C + D + W00 + K1);
      A = ROTL A 30 in
  let W01 = ROTL (W14 XOR W09 XOR W03 XOR W01) 1;
      C = SPH_T32 (ROTL D 5 + sha1_F E A B + C + W01 + K1);
      E = ROTL E 30 in
  let W02 = ROTL (W15 XOR W10 XOR W04 XOR W02) 1;
      B = SPH_T32 (ROTL C 5 + sha1_F D E A + B + W02 + K1);
      D = ROTL D 30 in
  let W03 = ROTL (W00 XOR W11 XOR W05 XOR W03) 1;
      A = SPH_T32 (ROTL B 5 + sha1_F C D E + A + W03 + K1);
      C = ROTL C 30 in
  (A, B, C, D, E, W00, W01, W02, W03, W04, W05, W06, W07, W08, W09, W10, W11, W12, W13, W14, W15))"

definition sha1_rounds_G :: "sha1_regs \<Rightarrow> sha1_regs" where
 "sha1_rounds_G regs = (case regs of (A, B, C, D, E, W00, W01, W02, W03, W04, W05, W06, W07, W08, W09, W10, W11, W12, W13, W14, W15) \<Rightarrow>
  let W04 = ROTL (W01 XOR W12 XOR W06 XOR W04) 1;
      E = SPH_T32 (ROTL A 5 + sha1_G B C D + E + W04 + K2);
      B = ROTL B 30 in
  let W05 = ROTL (W02 XOR W13 XOR W07 XOR W05) 1;
      D = SPH_T32 (ROTL E 5 + sha1_G A B C + D + W05 + K2);
      A = ROTL A 30 in
  let W06 = ROTL (W03 XOR W14 XOR W08 XOR W06) 1;
      C = SPH_T32 (ROTL D 5 + sha1_G E A B + C + W06 + K2);
      E = ROTL E 30 in
  let W07 = ROTL (W04 XOR W15 XOR W09 XOR W07) 1;
      B = SPH_T32 (ROTL C 5 + sha1_G D E A + B + W07 + K2);
      D = ROTL D 30 in
  let W08 = ROTL (W05 XOR W00 XOR W10 XOR W08) 1;
      A = SPH_T32 (ROTL B 5 + sha1_G C D E + A + W08 + K2);
      C = ROTL C 30 in
  let W09 = ROTL (W06 XOR W01 XOR W11 XOR W09) 1;
      E = SPH_T32 (ROTL A 5 + sha1_G B C D + E + W09 + K2);
      B = ROTL B 30 in
  let W10 = ROTL (W07 XOR W02 XOR W12 XOR W10) 1;
      D = SPH_T32 (ROTL E 5 + sha1_G A B C + D + W10 + K2);
      A = ROTL A 30 in
  let W11 = ROTL (W08 XOR W03 XOR W13 XOR W11) 1;
      C = SPH_T32 (ROTL D 5 + sha1_G E A B + C + W11 + K2);
      E = ROTL E 30 in
  let W12 = ROTL (W09 XOR W04 XOR W14 XOR W12) 1;
      B = SPH_T32 (ROTL C 5 + sha1_G D E A + B + W12 + K2);
      D = ROTL D 30 in
  let W13 = ROTL (W10 XOR W05 XOR W15 XOR W13) 1;
      A = SPH_T32 (ROTL B 5 + sha1_G C D E + A + W13 + K2);
      C = ROTL C 30 in
  let W14 = ROTL (W11 XOR W06 XOR W00 XOR W14) 1;
      E = SPH_T32 (ROTL A 5 + sha1_G B C D + E + W14 + K2);
      B = ROTL B 30 in
  let W15 = ROTL (W12 XOR W07 XOR W01 XOR W15) 1;
      D = SPH_T32 (ROTL E 5 + sha1_G A B C + D + W15 + K2);
      A = ROTL A 30 in
  let W00 = ROTL (W13 XOR W08 XOR W02 XOR W00) 1;
      C = SPH_T32 (ROTL D 5 + sha1_G E A B + C + W00 + K2);
      E = ROTL E 30 in
  let W01 = ROTL (W14 XOR W09 XOR W03 XOR W01) 1;
      B = SPH_T32 (ROTL C 5 + sha1_G D E A + B + W01 + K2);
      D = ROTL D 30 in
  let W02 = ROTL (W15 XOR W10 XOR W04 XOR W02) 1;
      A = SPH_T32 (ROTL B 5 + sha1_G C D E + A + W02 + K2);
      C = ROTL C 30 in
  let W03 = ROTL (W00 XOR W11 XOR W05 XOR W03) 1;
      E = SPH_T32 (ROTL A 5 + sha1_G B C D + E + W03 + K2);
      B = ROTL B 30 in
  let W04 = ROTL (W01 XOR W12 XOR W06 XOR W04) 1;
      D = SPH_T32 (ROTL E 5 + sha1_G A B C + D + W04 + K2);
      A = ROTL A 30 in
  let W05 = ROTL (W02 XOR W13 XOR W07 XOR W05) 1;
      C = SPH_T32 (ROTL D 5 + sha1_G E A B + C + W05 + K2);
      E = ROTL E 30 in
  let W06 = ROTL (W03 XOR W14 XOR W08 XOR W06) 1;
      B = SPH_T32 (ROTL C 5 + sha1_G D E A + B + W06 + K2);
      D = ROTL D 30 in
  let W07 = ROTL (W04 XOR W15 XOR W09 XOR W07) 1;
      A = SPH_T32 (ROTL B 5 + sha1_G C D E + A + W07 + K2);
      C = ROTL C 30 in
  (A, B, C, D, E, W00, W01, W02, W03, W04, W05, W06, W07, W08, W09, W10, W11, W12, W13, W14, W15))"

definition sha1_rounds_H :: "sha1_regs \<Rightarrow> sha1_regs" where
 "sha1_rounds_H regs = (case regs of (A, B, C, D, E, W00, W01, W02, W03, W04, W05, W06, W07, W08, W09, W10, W11, W12, W13, W14, W15) \<Rightarrow>
  let W08 = ROTL (W05 XOR W00 XOR W10 XOR W08) 1;
      E = SPH_T32 (ROTL A 5 + sha1_H B C D + E + W08 + K3);
      B = ROTL B 30 in
  let W09 = ROTL (W06 XOR W01 XOR W11 XOR W09) 1;
      D = SPH_T32 (ROTL E 5 + sha1_H A B C + D + W09 + K3);
      A = ROTL A 30 in
  let W10 = ROTL (W07 XOR W02 XOR W12 XOR W10) 1;
      C = SPH_T32 (ROTL D 5 + sha1_H E A B + C + W10 + K3);
      E = ROTL E 30 in
  let W11 = ROTL (W08 XOR W03 XOR W13 XOR W11) 1;
      B = SPH_T32 (ROTL C 5 + sha1_H D E A + B + W11 + K3);
      D = ROTL D 30 in
  let W12 = ROTL (W09 XOR W04 XOR W14 XOR W12) 1;
      A = SPH_T32 (ROTL B 5 + sha1_H C D E + A + W12 + K3);
      C = ROTL C 30 in
  let W13 = ROTL (W10 XOR W05 XOR W15 XOR W13) 1;
      E = SPH_T32 (ROTL A 5 + sha1_H B C D + E + W13 + K3);
      B = ROTL B 30 in
  let W14 = ROTL (W11 XOR W06 XOR W00 XOR W14) 1;
      D = SPH_T32 (ROTL E 5 + sha1_H A B C + D + W14 + K3);
      A = ROTL A 30 in
  let W15 = ROTL (W12 XOR W07 XOR W01 XOR W15) 1;
      C = SPH_T32 (ROTL D 5 + sha1_H E A B + C + W15 + K3);
      E = ROTL E 30 in
  let W00 = ROTL (W13 XOR W08 XOR W02 XOR W00) 1;
      B = SPH_T32 (ROTL C 5 + sha1_H D E A + B + W00 + K3);
      D = ROTL D 30 in
  let W01 = ROTL (W14 XOR W09 XOR W03 XOR W01) 1;
      A = SPH_T32 (ROTL B 5 + sha1_H C D E + A + W01 + K3);
      C = ROTL C 30 in
  let W02 = ROTL (W15 XOR W10 XOR W04 XOR W02) 1;
      E = SPH_T32 (ROTL A 5 + sha1_H B C D + E + W02 + K3);
      B = ROTL B 30 in
  let W03 = ROTL (W00 XOR W11 XOR W05 XOR W03) 1;
      D = SPH_T32 (ROTL E 5 + sha1_H A B C + D + W03 + K3);
      A = ROTL A 30 in
  let W04 = ROTL (W01 XOR W12 XOR W06 XOR W04) 1;
      C = SPH_T32 (ROTL D 5 + sha1_H E A B + C + W04 + K3);
      E = ROTL E 30 in
  let W05 = ROTL (W02 XOR W13 XOR W07 XOR W05) 1;
      B = SPH_T32 (ROTL C 5 + sha1_H D E A + B + W05 + K3);
      D = ROTL D 30 in
  let W06 = ROTL (W03 XOR W14 XOR W08 XOR W06) 1;
      A = SPH_T32 (ROTL B 5 + sha1_H C D E + A + W06 + K3);
      C = ROTL C 30 in
  let W07 = ROTL (W04 XOR W15 XOR W09 XOR W07) 1;
      E = SPH_T32 (ROTL A 5 + sha1_H B C D + E + W07 + K3);
      B = ROTL B 30 in
  let W08 = ROTL (W05 XOR W00 XOR W10 XOR W08) 1;
      D = SPH_T32 (ROTL E 5 + sha1_H A B C + D + W08 + K3);
      A = ROTL A 30 in
  let W09 = ROTL (W06 XOR W01 XOR W11 XOR W09) 1;
      C = SPH_T32 (ROTL D 5 + sha1_H E A B + C + W09 + K3);
      E = ROTL E 30 in
  let W10 = ROTL (W07 XOR W02 XOR W12 XOR W10) 1;
      B = SPH_T32 (ROTL C 5 + sha1_H D E A + B + W10 + K3);
      D = ROTL D 30 in
  let W11 = ROTL (W08 XOR W03 XOR W13 XOR W11) 1;
      A = SPH_T32 (ROTL B 5 + sha1_H C D E + A + W11 + K3);
      C = ROTL C 30 in
  (A, B, C, D, E, W00, W01, W02, W03, W04, W05, W06, W07, W08, W09, W10, W11, W12, W13, W14, W15))"

definition sha1_rounds_I :: "sha1_regs \<Rightarrow> sha1_regs" where
 "sha1_rounds_I regs = (case regs of (A, B, C, D, E, W00, W01, W02, W03, W04, W05, W06, W07, W08, W09, W10, W11, W12, W13, W14, W15) \<Rightarrow>
  let W12 = ROTL (W09 XOR W04 XOR W14 XOR W12) 1;
      E = SPH_T32 (ROTL A 5 + sha1_I B C D + E + W12 + K4);
      B = ROTL B 30 in
  let W13 = ROTL (W10 XOR W05 XOR W15 XOR W13) 1;
      D = SPH_T32 (ROTL E 5 + sha1_I A B C + D + W13 + K4);
      A = ROTL A 30 in
  let W14 = ROTL (W11 XOR W06 XOR W00 XOR W14) 1;
      C = SPH_T32 (ROTL D 5 + sha1_I E A B + C + W14 + K4);
      E = ROTL E 30 in
  let W15 = ROTL (W12 XOR W07 XOR W01 XOR W15) 1;
      B = SPH_T32 (ROTL C 5 + sha1_I D E A + B + W15 + K4);
      D = ROTL D 30 in
  let W00 = ROTL (W13 XOR W08 XOR W02 XOR W00) 1;
      A = SPH_T32 (ROTL B 5 + sha1_I C D E + A + W00 + K4);
      C = ROTL C 30 in
  let W01 = ROTL (W14 XOR W09 XOR W03 XOR W01) 1;
      E = SPH_T32 (ROTL A 5 + sha1_I B C D + E + W01 + K4);
      B = ROTL B 30 in
  let W02 = ROTL (W15 XOR W10 XOR W04 XOR W02) 1;
      D = SPH_T32 (ROTL E 5 + sha1_I A B C + D + W02 + K4);
      A = ROTL A 30 in
  let W03 = ROTL (W00 XOR W11 XOR W05 XOR W03) 1;
      C = SPH_T32 (ROTL D 5 + sha1_I E A B + C + W03 + K4);
      E = ROTL E 30 in
  let W04 = ROTL (W01 XOR W12 XOR W06 XOR W04) 1;
      B = SPH_T32 (ROTL C 5 + sha1_I D E A + B + W04 + K4);
      D = ROTL D 30 in
  let W05 = ROTL (W02 XOR W13 XOR W07 XOR W05) 1;
      A = SPH_T32 (ROTL B 5 + sha1_I C D E + A + W05 + K4);
      C = ROTL C 30 in
  let W06 = ROTL (W03 XOR W14 XOR W08 XOR W06) 1;
      E = SPH_T32 (ROTL A 5 + sha1_I B C D + E + W06 + K4);
      B = ROTL B 30 in
  let W07 = ROTL (W04 XOR W15 XOR W09 XOR W07) 1;
      D = SPH_T32 (ROTL E 5 + sha1_I A B C + D + W07 + K4);
      A = ROTL A 30 in
  let W08 = ROTL (W05 XOR W00 XOR W10 XOR W08) 1;
      C = SPH_T32 (ROTL D 5 + sha1_I E A B + C + W08 + K4);
      E = ROTL E 30 in
  let W09 = ROTL (W06 XOR W01 XOR W11 XOR W09) 1;
      B = SPH_T32 (ROTL C 5 + sha1_I D E A + B + W09 + K4);
      D = ROTL D 30 in
  let W10 = ROTL (W07 XOR W02 XOR W12 XOR W10) 1;
      A = SPH_T32 (ROTL B 5 + sha1_I C D E + A + W10 + K4);
      C = ROTL C 30 in
  let W11 = ROTL (W08 XOR W03 XOR W13 XOR W11) 1;
      E = SPH_T32 (ROTL A 5 + sha1_I B C D + E + W11 + K4);
      B = ROTL B 30 in
  let W12 = ROTL (W09 XOR W04 XOR W14 XOR W12) 1;
      D = SPH_T32 (ROTL E 5 + sha1_I A B C + D + W12 + K4);
      A = ROTL A 30 in
  let W13 = ROTL (W10 XOR W05 XOR W15 XOR W13) 1;
      C = SPH_T32 (ROTL D 5 + sha1_I E A B + C + W13 + K4);
      E = ROTL E 30 in
  let W14 = ROTL (W11 XOR W06 XOR W00 XOR W14) 1;
      B = SPH_T32 (ROTL C 5 + sha1_I D E A + B + W14 + K4);
      D = ROTL D 30 in
  let W15 = ROTL (W12 XOR W07 XOR W01 XOR W15) 1;
      A = SPH_T32 (ROTL B 5 + sha1_I C D E + A + W15 + K4);
      C = ROTL C 30 in
  (A, B, C, D, E, W00, W01, W02, W03, W04, W05, W06, W07, W08, W09, W10, W11, W12, W13, W14, W15))"

text \<open>The whole body; \<open>inp\<close> is the macro parameter \<open>in\<close>, \<open>r\<close> the chaining value.\<close>

definition SHA1_ROUND_BODY :: "(nat \<Rightarrow> u32) \<Rightarrow> u32 list \<Rightarrow> u32 list option" where
  "SHA1_ROUND_BODY inp r = do {
     A \<leftarrow> rd r 0; B \<leftarrow> rd r 1; C \<leftarrow> rd r 2; D \<leftarrow> rd r 3; E \<leftarrow> rd r 4;
     case sha1_rounds_I (sha1_rounds_H (sha1_rounds_G (sha1_rounds_F inp A B C D E))) of (A', B', C', D', E', _) \<Rightarrow>
     do {
       r \<leftarrow> wr r 0 (SPH_T32 (A + A'));
       r \<leftarrow> wr r 1 (SPH_T32 (B + B'));
       r \<leftarrow> wr r 2 (SPH_T32 (C + C'));
       r \<leftarrow> wr r 3 (SPH_T32 (D + D'));
       wr r 4 (SPH_T32 (E + E'))
     }
   }"

definition sha1_round :: "bytes \<Rightarrow> u32 list \<Rightarrow> u32 list option" where
  "sha1_round data r = do {
     lite_assert (64 \<le> length data);
     SHA1_ROUND_BODY (\<lambda>x. sph_dec32be_aligned (take 4 (drop (4 * x) data))) r
   }"

definition sph_sha1_comp :: "u32 list \<Rightarrow> u32 list \<Rightarrow> u32 list option" where
  "sph_sha1_comp msg r = do { lite_assert (16 \<le> length msg); SHA1_ROUND_BODY (\<lambda>x. msg ! x) r }"

subsection \<open>Contexts\<close>

record sph_sha1_context =
  sc_buf :: bytes
  sc_val :: "u32 list"
  sc_count :: u64

definition sph_sha1_init :: "sph_sha1_context \<Rightarrow> sph_sha1_context" where
  "sph_sha1_init sc = sc\<lparr>sc_val := IV, sc_count := 0\<rparr>"

definition sc_current :: "sph_sha1_context \<Rightarrow> nat" where
  "sc_current sc = unat (sc_count sc AND 63)"

text \<open>\<open>sha1_short\<close>: through the buffer of the context.\<close>

partial_function (option) sha1_short_loop :: "sph_sha1_context \<Rightarrow> nat \<Rightarrow> bytes \<Rightarrow> sph_sha1_context option" where
  "sha1_short_loop sc current data =
     (if 0 < length data then do {
        let clen = 64 - current;
        let clen = (if clen > length data then length data else clen);
        b \<leftarrow> wr_bytes (sc_buf sc) current (take clen data);
        let sc = sc\<lparr>sc_buf := b\<rparr>;
        let data = drop clen data;
        let current = current + clen;
        (sc, current) \<leftarrow>
          (if current = 64 then do { v \<leftarrow> sha1_round (sc_buf sc) (sc_val sc); Some (sc\<lparr>sc_val := v\<rparr>, 0) }
           else Some (sc, current));
        sha1_short_loop (sc\<lparr>sc_count := sc_count sc + of_nat clen\<rparr>) current data
      }
      else Some sc)"

definition sha1_short :: "sph_sha1_context \<Rightarrow> bytes \<Rightarrow> sph_sha1_context option" where
  "sha1_short sc data = sha1_short_loop sc (sc_current sc) data"

text \<open>The loop over whole blocks, straight from the data: the state and the rest of the data.\<close>

function sha1_blocks :: "u32 list \<Rightarrow> bytes \<Rightarrow> (u32 list \<times> bytes) option" where
  "sha1_blocks v data =
     (if 64 \<le> length data then do { v' \<leftarrow> sha1_round data v; sha1_blocks v' (drop 64 data) }
      else Some (v, data))"
  by pat_completeness auto
termination by (relation "measure (\<lambda>(v, data). length data)") auto

declare sha1_blocks.simps [simp del]

definition sph_sha1 :: "sph_sha1_context \<Rightarrow> bytes \<Rightarrow> sph_sha1_context option" where
  "sph_sha1 sc data =
     (if length data < 2 * 64 then sha1_short sc data
      else do {
        let current = sc_current sc;
        (sc, data) \<leftarrow>
          (if current > 0 then do {
             let t = 64 - current;
             sc \<leftarrow> sha1_short sc (take t data);
             Some (sc, drop t data)
           } else Some (sc, data));
        let orig_len = length data;
        (v, data) \<leftarrow> sha1_blocks (sc_val sc) data;
        let sc = sc\<lparr>sc_val := v\<rparr>;
        b \<leftarrow> (if length data > 0 then wr_bytes (sc_buf sc) 0 data else Some (sc_buf sc));
        Some (sc\<lparr>sc_buf := b, sc_count := sc_count sc + of_nat orig_len\<rparr>)
      })"

text \<open>Padding and output; the result is the context and the bytes written to \<open>dst\<close>.\<close>

definition sha1_addbits_and_close ::
    "sph_sha1_context \<Rightarrow> u32 \<Rightarrow> nat \<Rightarrow> nat \<Rightarrow> (sph_sha1_context \<times> bytes) option" where
  "sha1_addbits_and_close sc ub n rnum = do {
     let current = sc_current sc;
     let z = drop_bit n 0x80;
     b \<leftarrow> wr (sc_buf sc) current (ucast (((ub AND - z) OR z) AND 0xFF));
     let current = current + 1;
     (b, v) \<leftarrow>
       (if current > 56 then do {
          b \<leftarrow> wr_bytes b current (replicate (64 - current) 0);
          v \<leftarrow> sha1_round b (sc_val sc);
          b \<leftarrow> wr_bytes b 0 (replicate 56 0);
          Some (b, v)
        } else do {
          b \<leftarrow> wr_bytes b current (replicate (56 - current) 0);
          Some (b, sc_val sc)
        });
     b \<leftarrow> wr_bytes b 56 (sph_enc64be_aligned (push_bit 3 (sc_count sc) + of_nat n));
     v \<leftarrow> sha1_round b v;
     lite_assert (rnum \<le> length v);
     Some (sc\<lparr>sc_buf := b, sc_val := v\<rparr>, concat (map (\<lambda>u. sph_enc32be (v ! u)) [0..<rnum]))
   }"

definition sha1_close :: "sph_sha1_context \<Rightarrow> nat \<Rightarrow> (sph_sha1_context \<times> bytes) option" where
  "sha1_close sc rnum = sha1_addbits_and_close sc 0 0 rnum"

definition sph_sha1_close :: "sph_sha1_context \<Rightarrow> (sph_sha1_context \<times> bytes) option" where
  "sph_sha1_close sc = do { (sc, dst) \<leftarrow> sha1_close sc 5; Some (sph_sha1_init sc, dst) }"

definition sph_sha1_addbits_and_close :: "sph_sha1_context \<Rightarrow> u32 \<Rightarrow> nat \<Rightarrow> (sph_sha1_context \<times> bytes) option" where
  "sph_sha1_addbits_and_close sc ub n = do { (sc, dst) \<leftarrow> sha1_addbits_and_close sc ub n 5; Some (sph_sha1_init sc, dst) }"

text \<open>\<open>stack\<close> is what the local context holds before it is initialised.\<close>

definition zhash_sha1 :: "sph_sha1_context \<Rightarrow> bytes \<Rightarrow> hash_t option" where
  "zhash_sha1 stack input = do {
     sc \<leftarrow> sph_sha1 (sph_sha1_init stack) input;
     (_, digest) \<leftarrow> sph_sha1_close sc;
     Some (hash_of_bytes digest)
   }"

end
