(* ===== verification/Sha1Spec.thy ===== *)
theory Sha1Spec
  imports Sha1
begin

text \<open>
  SHA-1 as the standard FIPS 180-4 defines it, and the equivalence of the code with it. The registers of the unrolled code
  are two sequences: \<open>av\<close> for the values of the register that is computed and \<open>cv\<close> for the rotated ones; in every
  round the five registers are five neighbours of these sequences.
\<close>

subsection \<open>The standard\<close>

definition Ch :: "u32 \<Rightarrow> u32 \<Rightarrow> u32 \<Rightarrow> u32" where
  "Ch x y z = (x AND y) XOR (NOT x AND z)"

definition Parity :: "u32 \<Rightarrow> u32 \<Rightarrow> u32 \<Rightarrow> u32" where
  "Parity x y z = x XOR y XOR z"

definition Maj :: "u32 \<Rightarrow> u32 \<Rightarrow> u32 \<Rightarrow> u32" where
  "Maj x y z = (x AND y) XOR (x AND z) XOR (y AND z)"

definition ft :: "nat \<Rightarrow> u32 \<Rightarrow> u32 \<Rightarrow> u32 \<Rightarrow> u32" where
  "ft t = (if t < 20 then Ch else if t < 40 then Parity else if t < 60 then Maj else Parity)"

definition Kt :: "nat \<Rightarrow> u32" where
  "Kt t = (if t < 20 then 0x5A827999 else if t < 40 then 0x6ED9EBA1 else if t < 60 then 0x8F1BBCDC else 0xCA62C1D6)"

fun Wt :: "u32 list \<Rightarrow> nat \<Rightarrow> u32" where
  "Wt m t = (if t < 16 then m ! t else word_rotl 1 (Wt m (t - 3) XOR Wt m (t - 8) XOR Wt m (t - 14) XOR Wt m (t - 16)))"

declare Wt.simps [simp del]

type_synonym chain = "u32 \<times> u32 \<times> u32 \<times> u32 \<times> u32"

fun sha1_step :: "u32 list \<Rightarrow> nat \<Rightarrow> chain \<Rightarrow> chain" where
  "sha1_step m t (a, b, c, d, e) = (word_rotl 5 a + ft t b c d + e + Kt t + Wt m t, a, word_rotl 30 b, c, d)"

fun sha1_compress :: "chain \<Rightarrow> u32 list \<Rightarrow> chain" where
  "sha1_compress (a, b, c, d, e) m =
     (case fold (sha1_step m) [0..<80] (a, b, c, d, e) of (a', b', c', d', e') \<Rightarrow> (a + a', b + b', c + c', d + d', e + e'))"

definition be32 :: "bytes \<Rightarrow> u32" where
  "be32 xs = push_bit 24 (ucast (xs ! 0)) OR push_bit 16 (ucast (xs ! 1)) OR push_bit 8 (ucast (xs ! 2)) OR ucast (xs ! 3)"

definition enc_be :: "nat \<Rightarrow> 'a :: len word \<Rightarrow> bytes" where
  "enc_be n w = rev (map (\<lambda>i. ucast (drop_bit (8 * i) w)) [0..<n])"

definition block_words :: "bytes \<Rightarrow> u32 list" where
  "block_words b = map (\<lambda>i. be32 (take 4 (drop (4 * i) b))) [0..<16]"

function blocks_of :: "bytes \<Rightarrow> bytes list" where
  "blocks_of b = (if 64 \<le> length b then take 64 b # blocks_of (drop 64 b) else [])"
  by pat_completeness auto
termination by (relation "measure length") auto

declare blocks_of.simps [simp del]

text \<open>The message, a one bit, zeros up to 56 modulo 64, and the length in bits.\<close>

definition padded :: "bytes \<Rightarrow> bytes" where
  "padded m = m @ [0x80] @ replicate ((119 - length m mod 64) mod 64) 0 @ enc_be 8 (of_nat (8 * length m) :: u64)"

definition sha1_standard :: "bytes \<Rightarrow> bytes" where
  "sha1_standard m =
     (case foldl sha1_compress (0x67452301, 0xEFCDAB89, 0x98BADCFE, 0x10325476, 0xC3D2E1F0) (map block_words (blocks_of (padded m))) of
        (a, b, c, d, e) \<Rightarrow> enc_be 4 a @ enc_be 4 b @ enc_be 4 c @ enc_be 4 d @ enc_be 4 e)"

subsection \<open>Words\<close>

lemma SPH_T32 [simp]: "SPH_T32 x = x"
proof -
  have "(0xFFFFFFFF :: u32) = - 1" by simp
  then show ?thesis by (simp only: SPH_T32_def and_minus_numerals bit.conj_one_right)
qed

lemma ROTL_rotl: "0 < n \<Longrightarrow> n < 32 \<Longrightarrow> ROTL x n = word_rotl n x"
proof (rule bit_word_eqI)
  fix k assume n: "0 < n" "n < 32" and "k < LENGTH(32)"
  then have k: "k < 32" by simp
  have "(k + (32 - n)) mod 32 = (if k < n then 32 - n + k else k - n)" using n k by (auto simp: mod_if)
  then have "bit (word_rotl n x) k = bit x (if k < n then 32 - n + k else k - n)"
    using n k by (simp only: bit_word_rotl_iff) simp
  moreover have "bit (ROTL x n) k = bit x (if k < n then 32 - n + k else k - n)"
    using n k by (auto simp: ROTL_def bit_simps not_bit_32)
  ultimately show "bit (ROTL x n) k = bit (word_rotl n x) k" by simp
qed

lemma sha1_F: "sha1_F = Ch"
  by (intro ext bit_word_eqI) (auto simp: sha1_F_def Ch_def bit_simps)

lemma sha1_G: "sha1_G = Parity"
  by (intro ext) (simp add: sha1_G_def Parity_def)

lemma sha1_H: "sha1_H = Maj"
  by (intro ext bit_word_eqI) (auto simp: sha1_H_def Maj_def bit_simps)

lemma sha1_I: "sha1_I = Parity"
  by (intro ext) (simp add: sha1_I_def sha1_G)

lemma bit_bswap32:
  assumes "n < 32"
  shows "bit (sph_bswap32 w) n = bit w (24 - 8 * (n div 8) + n mod 8)"
  using assms by (rule less_cases_32) (simp_all add: sph_bswap32_def Let_def bit_simps not_bit_32 flip: numeral_2_eq_2)

lemma bit_bswap64:
  assumes "n < 64"
  shows "bit (sph_bswap64 w) n = bit w (56 - 8 * (n div 8) + n mod 8)"
proof (cases "n < 32")
  case True
  have "n div 8 \<le> 3" using True by simp
  then have e: "56 - 8 * (n div 8) + n mod 8 = 32 + (24 - 8 * (n div 8) + n mod 8)" by simp
  have "24 - 8 * (n div 8) + n mod 8 < 32" using mod_less_divisor [of 8 n] by linarith
  then show ?thesis unfolding e using True by (simp add: sph_bswap64_def bit_simps bit_bswap32)
next
  case False
  then obtain m where m: "n = 32 + m" "m < 32" using assms by (metis add_diff_inverse_nat nat_add_left_cancel_less numeral_Bit0)
  then have "m div 8 \<le> 3" "n div 8 = 4 + m div 8" "n mod 8 = m mod 8" by presburger+
  moreover from this have e: "56 - 8 * (n div 8) + n mod 8 = 24 - 8 * (m div 8) + m mod 8" by simp
  moreover have "24 - 8 * (m div 8) + m mod 8 < 32" using mod_less_divisor [of 8 m] by linarith
  ultimately show ?thesis unfolding e using m by (simp add: sph_bswap64_def bit_simps bit_bswap32 not_bit_32)
qed

lemma not_bit_8: "8 \<le> k \<Longrightarrow> \<not> bit (w :: u8) k"
  using bit_imp_le_length [of w k] by auto

lemma dec32be: "sph_dec32be_aligned xs = be32 xs"
proof (rule bit_word_eqI)
  fix n assume "n < LENGTH(32)"
  then have "n < 32" by simp
  then show "bit (sph_dec32be_aligned xs) n = bit (be32 xs) n"
    by (rule less_cases_32) (simp_all add: sph_dec32be_aligned_def be32_def u32_of_bytes_def bit_bswap32 bit_simps not_bit_8 flip: numeral_2_eq_2)
qed

lemma byte_bswap:
  "i < 4 \<Longrightarrow> (ucast (drop_bit (8 * i) (sph_bswap32 v)) :: u8) = ucast (drop_bit (8 * (3 - i)) v)"
  "i < 8 \<Longrightarrow> (ucast (drop_bit (8 * i) (sph_bswap64 w)) :: u8) = ucast (drop_bit (8 * (7 - i)) w)"
proof -
  show "(ucast (drop_bit (8 * i) (sph_bswap32 v)) :: u8) = ucast (drop_bit (8 * (3 - i)) v)" if "i < 4"
  proof (rule bit_word_eqI)
    fix k assume "k < LENGTH(8)"
    with that show "bit (ucast (drop_bit (8 * i) (sph_bswap32 v)) :: u8) k = bit (ucast (drop_bit (8 * (3 - i)) v) :: u8) k"
      by (simp add: bit_simps bit_bswap32 diff_mult_distrib2)
  qed
  show "(ucast (drop_bit (8 * i) (sph_bswap64 w)) :: u8) = ucast (drop_bit (8 * (7 - i)) w)" if "i < 8"
  proof (rule bit_word_eqI)
    fix k assume "k < LENGTH(8)"
    with that show "bit (ucast (drop_bit (8 * i) (sph_bswap64 w)) :: u8) k = bit (ucast (drop_bit (8 * (7 - i)) w) :: u8) k"
      by (simp add: bit_simps bit_bswap64 diff_mult_distrib2)
  qed
qed

lemma enc32be: "sph_enc32be w = enc_be 4 w"
  by (rule nth_equalityI) (simp_all add: sph_enc32be_def bytes_of_u32_def enc_be_def byte_bswap(1) rev_nth nth_upt Suc_diff_Suc less_imp_diff_less)

lemma enc64be: "sph_enc64be_aligned w = enc_be 8 w"
  by (rule nth_equalityI) (simp_all add: sph_enc64be_aligned_def bytes_of_u64_def enc_be_def byte_bswap(2) rev_nth nth_upt Suc_diff_Suc less_imp_diff_less)

subsection \<open>The rounds\<close>

fun av :: "u32 list \<Rightarrow> chain \<Rightarrow> nat \<Rightarrow> u32" and cv :: "u32 list \<Rightarrow> chain \<Rightarrow> nat \<Rightarrow> u32" where
  "av m h 0 = (case h of (a, b, c, d, e) \<Rightarrow> b)"
| "av m h (Suc 0) = (case h of (a, b, c, d, e) \<Rightarrow> a)"
| "av m h (Suc (Suc t)) =
     word_rotl 5 (av m h (Suc t)) + ft t (av m h t) (cv m h (Suc (Suc t))) (cv m h (Suc t)) + cv m h t + Kt t + Wt m t"
| "cv m h 0 = (case h of (a, b, c, d, e) \<Rightarrow> e)"
| "cv m h (Suc 0) = (case h of (a, b, c, d, e) \<Rightarrow> d)"
| "cv m h (Suc (Suc 0)) = (case h of (a, b, c, d, e) \<Rightarrow> c)"
| "cv m h (Suc (Suc (Suc t))) = word_rotl 30 (av m h t)"

declare av.simps [simp del] cv.simps [simp del]

lemma chain_rounds: "fold (sha1_step m) [0..<t] h = (av m h (t + 1), av m h t, cv m h (t + 2), cv m h (t + 1), cv m h t)"
proof (induction t)
  case 0
  show ?case by (cases h) (simp add: av.simps cv.simps numeral_2_eq_2)
next
  case (Suc t)
  have e: "t + 2 = Suc (Suc t)" "Suc t + 2 = Suc (Suc (Suc t))" "t + 1 = Suc t" "Suc t + 1 = Suc (Suc t)" by simp_all
  show ?case using Suc.IH by (simp only: upt_Suc fold_append fold.simps comp_apply id_apply) (simp add: e av.simps cv.simps)
qed

text \<open>A round of the unrolled code finds its operands in the sequences and stores the next elements.\<close>

lemma rotate_round: "ROTL (av m h t) 30 = cv m h (t + 3)"
  by (simp add: ROTL_rotl cv.simps numeral_3_eq_3)

lemma schedule_round:
  "u = t + 13 \<Longrightarrow> v = t + 8 \<Longrightarrow> w = t + 2 \<Longrightarrow> ROTL (Wt m u XOR Wt m v XOR Wt m w XOR Wt m t) 1 = Wt m (t + 16)"
  by (subst (5) Wt.simps) (simp add: ROTL_rotl add.commute)

lemma next_round:
  assumes "x = t + 1" and "y = t + 2" and "z = t + 1"
  shows "t < 20 \<Longrightarrow> ROTL (av m h x) 5 + sha1_F (av m h t) (cv m h y) (cv m h z) + cv m h t + Wt m t + K1 = av m h (t + 2)"
    and "20 \<le> t \<Longrightarrow> t < 40 \<Longrightarrow> ROTL (av m h x) 5 + sha1_G (av m h t) (cv m h y) (cv m h z) + cv m h t + Wt m t + K2 = av m h (t + 2)"
    and "40 \<le> t \<Longrightarrow> t < 60 \<Longrightarrow> ROTL (av m h x) 5 + sha1_H (av m h t) (cv m h y) (cv m h z) + cv m h t + Wt m t + K3 = av m h (t + 2)"
    and "60 \<le> t \<Longrightarrow> ROTL (av m h x) 5 + sha1_I (av m h t) (cv m h y) (cv m h z) + cv m h t + Wt m t + K4 = av m h (t + 2)"
  using assms by (simp_all add: ROTL_rotl sha1_F sha1_G sha1_H sha1_I av.simps ft_def Kt_def)

lemmas round_simps =
  Let_def SPH_T32 rotate_round schedule_round next_round add_numeral_left numeral_plus_numeral one_add_one one_plus_numeral numeral_plus_one
  add_num_simps add_0 add_0_right less_numeral_simps le_num_simps less_num_simps simp_thms

lemma rounds_F:
  "sha1_rounds_F (Wt m) (av m h 1) (av m h 0) (cv m h 2) (cv m h 1) (cv m h 0) =
     (av m h 21, av m h 20, cv m h 22, cv m h 21, cv m h 20,
      Wt m 16, Wt m 17, Wt m 18, Wt m 19, Wt m 4, Wt m 5, Wt m 6, Wt m 7, Wt m 8, Wt m 9, Wt m 10, Wt m 11, Wt m 12, Wt m 13, Wt m 14, Wt m 15)"
  unfolding sha1_rounds_F_def by (simp only: round_simps cong: let_weak_cong)

lemma rounds_G: "sha1_rounds_G
     (av m h 21, av m h 20, cv m h 22, cv m h 21, cv m h 20,
      Wt m 16, Wt m 17, Wt m 18, Wt m 19, Wt m 4, Wt m 5, Wt m 6, Wt m 7, Wt m 8, Wt m 9, Wt m 10, Wt m 11, Wt m 12, Wt m 13, Wt m 14, Wt m 15) =
     (av m h 41, av m h 40, cv m h 42, cv m h 41, cv m h 40,
      Wt m 32, Wt m 33, Wt m 34, Wt m 35, Wt m 36, Wt m 37, Wt m 38, Wt m 39, Wt m 24, Wt m 25, Wt m 26, Wt m 27, Wt m 28, Wt m 29, Wt m 30, Wt m 31)"
  unfolding sha1_rounds_G_def prod.case by (simp only: round_simps cong: let_weak_cong)

lemma rounds_H: "sha1_rounds_H
     (av m h 41, av m h 40, cv m h 42, cv m h 41, cv m h 40,
      Wt m 32, Wt m 33, Wt m 34, Wt m 35, Wt m 36, Wt m 37, Wt m 38, Wt m 39, Wt m 24, Wt m 25, Wt m 26, Wt m 27, Wt m 28, Wt m 29, Wt m 30, Wt m 31) =
     (av m h 61, av m h 60, cv m h 62, cv m h 61, cv m h 60,
      Wt m 48, Wt m 49, Wt m 50, Wt m 51, Wt m 52, Wt m 53, Wt m 54, Wt m 55, Wt m 56, Wt m 57, Wt m 58, Wt m 59, Wt m 44, Wt m 45, Wt m 46, Wt m 47)"
  unfolding sha1_rounds_H_def prod.case by (simp only: round_simps cong: let_weak_cong)

lemma rounds_I: "sha1_rounds_I
     (av m h 61, av m h 60, cv m h 62, cv m h 61, cv m h 60,
      Wt m 48, Wt m 49, Wt m 50, Wt m 51, Wt m 52, Wt m 53, Wt m 54, Wt m 55, Wt m 56, Wt m 57, Wt m 58, Wt m 59, Wt m 44, Wt m 45, Wt m 46, Wt m 47) =
     (av m h 81, av m h 80, cv m h 82, cv m h 81, cv m h 80,
      Wt m 64, Wt m 65, Wt m 66, Wt m 67, Wt m 68, Wt m 69, Wt m 70, Wt m 71, Wt m 72, Wt m 73, Wt m 74, Wt m 75, Wt m 76, Wt m 77, Wt m 78, Wt m 79)"
  unfolding sha1_rounds_I_def prod.case by (simp only: round_simps cong: let_weak_cong)

lemma rounds_F_cong:
  assumes "\<forall>i < 16. f i = g i"
  shows "sha1_rounds_F f A B C D E = sha1_rounds_F g A B C D E"
proof -
  have "f 0 = g 0" "f 1 = g 1" "f 2 = g 2" "f 3 = g 3" "f 4 = g 4" "f 5 = g 5" "f 6 = g 6" "f 7 = g 7" "f 8 = g 8" "f 9 = g 9"
    "f 10 = g 10" "f 11 = g 11" "f 12 = g 12" "f 13 = g 13" "f 14 = g 14" "f 15 = g 15" using assms by simp_all
  then show ?thesis by (simp only: sha1_rounds_F_def)
qed

fun chain_list :: "chain \<Rightarrow> u32 list" where
  "chain_list (a, b, c, d, e) = [a, b, c, d, e]"

lemma round_body_ok:
  assumes "\<forall>x < 16. inp x = m ! x"
  shows "SHA1_ROUND_BODY inp (chain_list h) = Some (chain_list (sha1_compress h m))"
proof -
  obtain a b c d e where h: "h = (a, b, c, d, e)" by (cases h)
  have i: "a = av m h 1" "b = av m h 0" "c = cv m h 2" "d = cv m h 1" "e = cv m h 0"
    by (simp_all add: h av.simps cv.simps numeral_2_eq_2)
  have "sha1_rounds_F inp a b c d e = sha1_rounds_F (Wt m) a b c d e"
    by (rule rounds_F_cong) (simp add: assms Wt.simps)
  then have "sha1_rounds_I (sha1_rounds_H (sha1_rounds_G (sha1_rounds_F inp a b c d e))) =
     (av m h 81, av m h 80, cv m h 82, cv m h 81, cv m h 80,
      Wt m 64, Wt m 65, Wt m 66, Wt m 67, Wt m 68, Wt m 69, Wt m 70, Wt m 71, Wt m 72, Wt m 73, Wt m 74, Wt m 75, Wt m 76, Wt m 77, Wt m 78, Wt m 79)"
    unfolding i by (simp only: rounds_F rounds_G rounds_H rounds_I)
  moreover have "fold (sha1_step m) [0..<80] h = (av m h 81, av m h 80, cv m h 82, cv m h 81, cv m h 80)"
    using chain_rounds [of m 80 h] by simp
  ultimately show ?thesis by (simp add: SHA1_ROUND_BODY_def rd_def wr_def h del: upt_Suc upt_rec_numeral)
qed

lemma sha1_round_ok:
  assumes "64 \<le> length data"
  shows "sha1_round data (chain_list h) = Some (chain_list (sha1_compress h (block_words (take 64 data))))"
proof -
  have "take 4 (drop (4 * x) data) = take 4 (drop (4 * x) (take 64 data))" if "x < 16" for x
    using that by (simp add: drop_take min_absorb1)
  then have "\<forall>x < 16. sph_dec32be_aligned (take 4 (drop (4 * x) data)) = block_words (take 64 data) ! x"
    by (simp add: block_words_def dec32be)
  from round_body_ok [OF this] assms show ?thesis by (simp add: sha1_round_def)
qed

end
