(* ===== verification/Sha1Stream.thy ===== *)
theory Sha1Stream
  imports Sha1Spec
begin

text \<open>
  Hashing in pieces: a context that has taken in a message holds the chaining value of its whole blocks and the rest of the message
  in its buffer, whichever way the message was cut; closing it gives the digest of the standard.
\<close>

subsection \<open>Blocks and rest\<close>

definition rest :: "bytes \<Rightarrow> bytes" where
  "rest m = drop (64 * (length m div 64)) m"

lemma length_rest: "length (rest m) = length m mod 64"
  by (simp add: rest_def minus_mult_div_eq_mod [symmetric])

lemma blocks_short [simp]: "length b < 64 \<Longrightarrow> blocks_of b = []"
  by (simp add: blocks_of.simps)

lemma blocks_one: "length b = 64 \<Longrightarrow> blocks_of b = [b]"
  by (subst blocks_of.simps) simp

lemma blocks_append: "64 dvd length a \<Longrightarrow> blocks_of (a @ b) = blocks_of a @ blocks_of b"
proof (induction a rule: blocks_of.induct)
  case (1 a)
  show ?case
  proof (cases "64 \<le> length a")
    case True
    then have "64 dvd length (drop 64 a)" using 1(2) by (simp add: dvd_diff_nat)
    from 1(1) [OF True this] True show ?thesis
      by (subst (1 2) blocks_of.simps) simp
  next
    case False
    with 1(2) have "a = []" using dvd_imp_le [of 64 "length a"] by (cases a) auto
    then show ?thesis by (simp add: blocks_of.simps)
  qed
qed

lemma split_message:
  obtains w where "m = w @ rest m" "64 dvd length w" "blocks_of m = blocks_of w"
proof -
  let ?w = "take (64 * (length m div 64)) m"
  have "64 * (length m div 64) \<le> length m" by simp
  then have w: "m = ?w @ rest m" "64 dvd length ?w" by (simp_all add: rest_def min_absorb2)
  moreover have "blocks_of m = blocks_of ?w"
    using blocks_append [OF w(2), of "rest m"] w(1) length_rest [of m] by (metis append_Nil2 blocks_short mod_less_divisor zero_less_numeral)
  ultimately show ?thesis by (rule that)
qed

lemma rest_append:
  assumes "64 dvd length w"
  shows "rest (w @ x) = rest x" and "blocks_of (w @ x) = blocks_of w @ blocks_of x"
proof -
  from assms obtain k where k: "length w = 64 * k" by (rule dvdE)
  then have "(length w + length x) div 64 = k + length x div 64" by simp
  then show "rest (w @ x) = rest x" by (simp add: rest_def k algebra_simps)
qed (rule blocks_append [OF assms])

text \<open>Adding bytes that do not go beyond the current block.\<close>

lemma absorb:
  assumes "length m mod 64 + length x \<le> 64"
  shows "length m mod 64 + length x < 64 \<Longrightarrow> blocks_of (m @ x) = blocks_of m \<and> rest (m @ x) = rest m @ x"
    and "length m mod 64 + length x = 64 \<Longrightarrow> blocks_of (m @ x) = blocks_of m @ [rest m @ x] \<and> rest (m @ x) = []"
proof -
  obtain w where w: "m = w @ rest m" "64 dvd length w" "blocks_of m = blocks_of w" by (rule split_message)
  have mx: "m @ x = w @ (rest m @ x)" using w(1) by simp
  have l: "length (rest m @ x) = length m mod 64 + length x" by (simp add: length_rest)
  note r = rest_append [OF w(2), of "rest m @ x", folded mx]
  show "blocks_of (m @ x) = blocks_of m \<and> rest (m @ x) = rest m @ x" if "length m mod 64 + length x < 64"
    using r w(3) that l by (simp add: rest_def)
  show "blocks_of (m @ x) = blocks_of m @ [rest m @ x] \<and> rest (m @ x) = []" if "length m mod 64 + length x = 64"
    using r w(3) that l blocks_one [of "rest m @ x"] by (simp add: rest_def)
qed

subsection \<open>Contexts that have taken in a message\<close>

definition sha1_state :: "bytes \<Rightarrow> chain" where
  "sha1_state m = foldl sha1_compress (0x67452301, 0xEFCDAB89, 0x98BADCFE, 0x10325476, 0xC3D2E1F0) (map block_words (blocks_of m))"

definition absorbed :: "sph_sha1_context \<Rightarrow> bytes \<Rightarrow> bool" where
  "absorbed sc m \<longleftrightarrow>
     length (sc_buf sc) = 64 \<and> sc_val sc = chain_list (sha1_state m) \<and> sc_count sc = of_nat (length m) \<and>
     take (length m mod 64) (sc_buf sc) = rest m"

lemma absorbed_init: "length (sc_buf sc) = 64 \<Longrightarrow> absorbed (sph_sha1_init sc) []"
  by (simp add: absorbed_def sph_sha1_init_def sha1_state_def IV_def rest_def)

lemma absorbed_current: "absorbed sc m \<Longrightarrow> sc_current sc = length m mod 64"
proof -
  assume "absorbed sc m"
  then have "sc_current sc = unat (take_bit 6 (of_nat (length m) :: u64))"
    by (simp add: absorbed_def sc_current_def take_bit_eq_mask mask_eq_exp_minus_1)
  also have "\<dots> = take_bit 6 (unat (of_nat (length m) :: u64))" by (simp only: unsigned_take_bit_eq)
  also have "\<dots> = length m mod 2 ^ 64 mod 64" by (simp add: unat_of_nat take_bit_eq_mod)
  also have "\<dots> = length m mod 64" by (rule mod_mod_cancel) simp
  finally show ?thesis .
qed

lemma short_step:
  assumes a: "absorbed sc m" and x: "length m mod 64 + length x \<le> 64"
  defines "b \<equiv> overwrite (sc_buf sc) (length m mod 64) x"
  shows "length m mod 64 + length x < 64 \<Longrightarrow> absorbed (sc\<lparr>sc_buf := b, sc_count := sc_count sc + of_nat (length x)\<rparr>) (m @ x)"
    and "length m mod 64 + length x = 64 \<Longrightarrow> \<exists>v. sha1_round b (sc_val sc) = Some v \<and>
           absorbed (sc\<lparr>sc_buf := b, sc_val := v, sc_count := sc_count sc + of_nat (length x)\<rparr>) (m @ x)"
proof -
  have s: "length (sc_buf sc) = 64" "sc_val sc = chain_list (sha1_state m)" "sc_count sc = of_nat (length m)"
    "take (length m mod 64) (sc_buf sc) = rest m" using a by (simp_all add: absorbed_def)
  have b: "length b = 64" "take (length m mod 64 + length x) b = rest m @ x"
    using s(1,4) x by (simp_all add: b_def) (simp add: overwrite_def length_rest)
  show "absorbed (sc\<lparr>sc_buf := b, sc_count := sc_count sc + of_nat (length x)\<rparr>) (m @ x)" if "length m mod 64 + length x < 64"
  proof -
    have "(length m + length x) mod 64 = length m mod 64 + length x" using that by (metis mod_add_left_eq mod_less)
    then show ?thesis using absorb(1) [OF x that] s b by (simp add: absorbed_def sha1_state_def)
  qed
  show "\<exists>v. sha1_round b (sc_val sc) = Some v \<and>
      absorbed (sc\<lparr>sc_buf := b, sc_val := v, sc_count := sc_count sc + of_nat (length x)\<rparr>) (m @ x)" if f: "length m mod 64 + length x = 64"
  proof -
    have "(length m + length x) mod 64 = 0" using f by (metis mod_add_left_eq mod_self)
    moreover have "take 64 b = rest m @ x" using b(2) f by simp
    ultimately show ?thesis
      using sha1_round_ok [of b "sha1_state m"] absorb(2) [OF x f] s b(1) by (simp add: absorbed_def sha1_state_def)
  qed
qed

lemma short_loop_ok: "absorbed sc m \<Longrightarrow> \<exists>sc'. sha1_short_loop sc (length m mod 64) data = Some sc' \<and> absorbed sc' (m @ data)"
proof (induction "length data" arbitrary: sc m data rule: less_induct)
  case less
  show ?case
  proof (cases "data = []")
    case True
    with less.prems show ?thesis by (simp add: sha1_short_loop.simps)
  next
    case False
    let ?c = "length m mod 64"
    define n where "n = (if 64 - ?c > length data then length data else 64 - ?c)"
    let ?x = "take n data" and ?b = "overwrite (sc_buf sc) ?c (take n data)"
    have c: "?c < 64" by simp
    then have x: "length ?x = n" "?c + length ?x \<le> 64" "0 < n" using False by (auto simp: n_def)
    have w: "wr_bytes (sc_buf sc) ?c ?x = Some ?b" using less.prems x by (simp add: wr_bytes_def absorbed_def)
    have lt: "length (drop n data) < length data" using x(3) False by simp
    show ?thesis
    proof (cases "?c + n = 64")
      case True
      then have f: "?c + length ?x = 64" using x(1) by simp
      from short_step(2) [OF less.prems x(2) f] obtain v where
        v: "sha1_round ?b (sc_val sc) = Some v" "absorbed (sc\<lparr>sc_buf := ?b, sc_val := v, sc_count := sc_count sc + of_nat n\<rparr>) (m @ ?x)"
        using x(1) by auto
      have "length (m @ ?x) mod 64 = 0" using f by (metis length_append mod_add_left_eq mod_self)
      from less.hyps [OF lt v(2)] this obtain sc' where
        "sha1_short_loop (sc\<lparr>sc_buf := ?b, sc_val := v, sc_count := sc_count sc + of_nat n\<rparr>) 0 (drop n data) = Some sc'"
        "absorbed sc' ((m @ ?x) @ drop n data)" by auto
      moreover have "sha1_short_loop sc ?c data =
          sha1_short_loop (sc\<lparr>sc_buf := ?b, sc_val := v, sc_count := sc_count sc + of_nat n\<rparr>) 0 (drop n data)"
        using False w True v(1) by (subst sha1_short_loop.simps) (simp add: Let_def n_def [symmetric])
      ultimately show ?thesis by simp
    next
      case no: False
      then have f: "?c + length ?x < 64" using x(1,2) by simp
      from short_step(1) [OF less.prems x(2) f]
      have a: "absorbed (sc\<lparr>sc_buf := ?b, sc_count := sc_count sc + of_nat n\<rparr>) (m @ ?x)" using x(1) by simp
      have "length (m @ ?x) mod 64 = ?c + n" using f x(1) by (metis length_append mod_add_left_eq mod_less)
      from less.hyps [OF lt a] this obtain sc' where
        "sha1_short_loop (sc\<lparr>sc_buf := ?b, sc_count := sc_count sc + of_nat n\<rparr>) (?c + n) (drop n data) = Some sc'"
        "absorbed sc' ((m @ ?x) @ drop n data)" by auto
      moreover have "sha1_short_loop sc ?c data = sha1_short_loop (sc\<lparr>sc_buf := ?b, sc_count := sc_count sc + of_nat n\<rparr>) (?c + n) (drop n data)"
        using False w no by (subst sha1_short_loop.simps) (simp add: Let_def n_def [symmetric])
      ultimately show ?thesis by simp
    qed
  qed
qed

subsection \<open>The operations\<close>

lemma sha1_short_ok: "absorbed sc m \<Longrightarrow> \<exists>sc'. sha1_short sc data = Some sc' \<and> absorbed sc' (m @ data)"
  using short_loop_ok [of sc m data] by (simp add: sha1_short_def absorbed_current)

lemma sha1_blocks_ok:
  "sha1_blocks (chain_list h) data = Some (chain_list (foldl sha1_compress h (map block_words (blocks_of data))), rest data)"
proof (induction "length data" arbitrary: h data rule: less_induct)
  case less
  show ?case
  proof (cases "64 \<le> length data")
    case True
    have "rest data = rest (drop 64 data)" using rest_append(1) [of "take 64 data" "drop 64 data"] True by simp
    moreover have "length (drop 64 data) < length data" using True by simp
    ultimately show ?thesis
      using less.hyps sha1_round_ok [OF True] True by (subst sha1_blocks.simps, subst blocks_of.simps) simp
  next
    case False
    then show ?thesis by (subst sha1_blocks.simps) (simp add: rest_def)
  qed
qed

lemma absorb_blocks:
  assumes "absorbed sc m" and "64 dvd length m"
  shows "absorbed (sc\<lparr>sc_val := chain_list (foldl sha1_compress (sha1_state m) (map block_words (blocks_of d))),
    sc_buf := (if length (rest d) > 0 then overwrite (sc_buf sc) 0 (rest d) else sc_buf sc), sc_count := sc_count sc + of_nat (length d)\<rparr>) (m @ d)"
proof -
  let ?b = "if length (rest d) > 0 then overwrite (sc_buf sc) 0 (rest d) else sc_buf sc"
  have s: "length (sc_buf sc) = 64" "sc_count sc = of_nat (length m)" using assms(1) by (simp_all add: absorbed_def)
  have lr: "length (rest d) < 64" by (simp add: length_rest)
  from assms(2) obtain k where "length m = 64 * k" by (rule dvdE)
  then have "length (m @ d) mod 64 = length (rest d)" by (simp add: length_rest)
  moreover have "rest (m @ d) = rest d" "blocks_of (m @ d) = blocks_of m @ blocks_of d" by (rule rest_append [OF assms(2)])+
  moreover have "length ?b = 64" "take (length (rest d)) ?b = rest d" using s(1) lr by (simp_all) (simp add: overwrite_def)
  ultimately show ?thesis using s(2) by (simp add: absorbed_def sha1_state_def)
qed

lemma sph_sha1_ok:
  assumes "absorbed sc m"
  shows "\<exists>sc'. sph_sha1 sc data = Some sc' \<and> absorbed sc' (m @ data)"
proof (cases "length data < 128")
  case True
  then show ?thesis using sha1_short_ok [OF assms, of data] by (simp add: sph_sha1_def)
next
  case False
  let ?c = "length m mod 64"
  let ?t = "if ?c > 0 then 64 - ?c else 0"
  have c: "?c < 64" by simp
  obtain sc1 where sc1: "(if ?c > 0 then sha1_short sc (take (64 - ?c) data) else Some sc) = Some sc1" "absorbed sc1 (m @ take ?t data)"
    using sha1_short_ok [OF assms, of "take (64 - ?c) data"] assms by (cases "?c > 0") auto
  let ?m = "m @ take ?t data" and ?d = "drop ?t data"
  have t: "length (take ?t data) = ?t" using False c by simp
  have "(length m + ?t) mod 64 = (?c + ?t) mod 64" by (simp only: mod_add_left_eq)
  also have "\<dots> = 0" using c by auto
  finally have dvd: "64 dvd length ?m" using t by (simp only: length_append dvd_eq_mod_eq_0)
  let ?v = "chain_list (foldl sha1_compress (sha1_state ?m) (map block_words (blocks_of ?d)))"
  have s1: "length (sc_buf sc1) = 64" "sc_val sc1 = chain_list (sha1_state ?m)" "sc_count sc1 = of_nat (length ?m)"
    using sc1(2) by (simp_all add: absorbed_def)
  let ?b = "if length (rest ?d) > 0 then overwrite (sc_buf sc1) 0 (rest ?d) else sc_buf sc1"
  let ?sc = "sc1\<lparr>sc_val := ?v, sc_buf := ?b, sc_count := sc_count sc1 + of_nat (length ?d)\<rparr>"
  have lr: "length (rest ?d) < 64" by (simp add: length_rest)
  have "sph_sha1 sc data = Some ?sc"
    unfolding sph_sha1_def absorbed_current [OF assms] Let_def
    using False sc1(1) s1(1,2) sha1_blocks_ok [of "sha1_state ?m" ?d] lr
    by (cases "?c > 0") (auto simp: wr_bytes_def split: if_splits)
  moreover have "absorbed ?sc (?m @ ?d)" by (rule absorb_blocks [OF sc1(2) dvd])
  ultimately show ?thesis by auto
qed

lemma pieces_ok:
  assumes "absorbed sc m"
  shows "\<exists>sc'. foldM sph_sha1 sc ps = Some sc' \<and> absorbed sc' (m @ concat ps)"
  using assms
proof (induction ps arbitrary: sc m)
  case (Cons p ps)
  from sph_sha1_ok [OF Cons.prems, of p] obtain sc1 where "sph_sha1 sc p = Some sc1" "absorbed sc1 (m @ p)" by blast
  with Cons.IH [of sc1 "m @ p"] show ?case by simp
qed simp

text \<open>The padded message, cut where the code cuts it.\<close>

lemma padded_blocks:
  assumes "length m mod 64 = c"
  defines "l8 \<equiv> enc_be 8 (of_nat (8 * length m) :: u64)"
  shows "c < 56 \<Longrightarrow> blocks_of (padded m) = blocks_of m @ [rest m @ 0x80 # replicate (55 - c) 0 @ l8]"
    and "56 \<le> c \<Longrightarrow> blocks_of (padded m) = blocks_of m @ [rest m @ 0x80 # replicate (63 - c) 0, replicate 56 0 @ l8]"
proof -
  obtain w where w: "m = w @ rest m" "64 dvd length w" "blocks_of m = blocks_of w" by (rule split_message)
  have c: "c < 64" "length (rest m) = c" using assms(1) by (auto simp: length_rest)
  have l8: "length l8 = 8" by (simp add: l8_def enc_be_def)
  have p: "padded m = w @ (rest m @ 0x80 # replicate ((119 - c) mod 64) 0 @ l8)"
    unfolding padded_def l8_def using assms(1) w(1) by (metis append.assoc append_Cons append_Nil)
  show "blocks_of (padded m) = blocks_of m @ [rest m @ 0x80 # replicate (55 - c) 0 @ l8]" if "c < 56"
  proof -
    have "(119 - c) mod 64 = 55 - c" using that by (simp add: mod_if)
    moreover have "length (rest m @ 0x80 # replicate (55 - c) 0 @ l8) = 64" using that c l8 by simp
    ultimately show ?thesis unfolding p blocks_append [OF w(2)] w(3) using blocks_one by simp
  qed
  show "blocks_of (padded m) = blocks_of m @ [rest m @ 0x80 # replicate (63 - c) 0, replicate 56 0 @ l8]" if "56 \<le> c"
  proof -
    have "(119 - c) mod 64 = (63 - c) + 56" using that c by simp
    then have e: "rest m @ 0x80 # replicate ((119 - c) mod 64) 0 @ l8 = (rest m @ 0x80 # replicate (63 - c) 0) @ replicate 56 0 @ l8"
      by (simp only: replicate_add append.assoc append_Cons)
    have l: "length (rest m @ 0x80 # replicate (63 - c) (0 :: u8)) = 64" "length (replicate 56 0 @ l8) = 64" using that c l8 by simp_all
    have "64 dvd length (rest m @ 0x80 # replicate (63 - c) (0 :: u8))" unfolding l(1) by simp
    note blocks_append [OF this]
    then show ?thesis unfolding p blocks_append [OF w(2)] w(3) e using blocks_one [OF l(1)] blocks_one [OF l(2)] by simp
  qed
qed

lemma wr_after: "length xs \<le> length b \<Longrightarrow> wr_bytes (a @ b) (length a) xs = Some (a @ xs @ drop (length xs) b)"
  by (simp add: wr_bytes_def overwrite_def)

lemma close_ok:
  assumes "absorbed sc m"
  shows "\<exists>sc'. sph_sha1_close sc = Some (sc', sha1_standard m) \<and> length (sc_buf sc') = 64"
proof -
  let ?c = "length m mod 64" and ?l8 = "enc_be 8 (of_nat (8 * length m) :: u64)"
  have s: "length (sc_buf sc) = 64" "sc_val sc = chain_list (sha1_state m)" "sc_count sc = of_nat (length m)"
    "take ?c (sc_buf sc) = rest m" using assms by (simp_all add: absorbed_def)
  have lr: "length (rest m) = ?c" by (simp add: length_rest)
  have cnt: "push_bit 3 (sc_count sc) = of_nat (8 * length m)" using s(3) by (simp add: push_bit_eq_mult mult.commute)
  have l8: "length ?l8 = 8" by (simp add: enc_be_def)
  have z: "ucast (((0 :: u32) AND - drop_bit 0 0x80 OR drop_bit 0 0x80) AND 0xFF) = (0x80 :: u8)" by simp
  have out: "concat (map (\<lambda>u. sph_enc32be (chain_list h ! u)) [0..<5]) =
      (case h of (a, b, c, d, e) \<Rightarrow> enc_be 4 a @ enc_be 4 b @ enc_be 4 c @ enc_be 4 d @ enc_be 4 e)" for h
    by (cases h) (simp add: enc32be upt_rec)
  have len: "length (chain_list h) = 5" for h by (cases h) simp
  have b1: "(sc_buf sc)[?c := 0x80] = rest m @ 0x80 # drop (?c + 1) (sc_buf sc)"
    using s(1,4) by (simp add: upd_conv_take_nth_drop)
  show ?thesis
  proof (cases "?c < 56")
    case True
    let ?b = "rest m @ 0x80 # replicate (55 - ?c) 0 @ ?l8"
    have "wr_bytes (rest m @ 0x80 # drop (?c + 1) (sc_buf sc)) (?c + 1) (replicate (55 - ?c) 0) =
        Some (rest m @ 0x80 # replicate (55 - ?c) 0 @ drop 56 (sc_buf sc))"
      using wr_after [of "replicate (55 - ?c) 0" "drop (?c + 1) (sc_buf sc)" "rest m @ [0x80]"] True s(1) lr by simp
    moreover have "wr_bytes (rest m @ 0x80 # replicate (55 - ?c) 0 @ drop 56 (sc_buf sc)) 56 ?l8 = Some ?b"
      using wr_after [of ?l8 "drop 56 (sc_buf sc)" "rest m @ 0x80 # replicate (55 - ?c) 0"] True s(1) lr l8 by simp
    moreover have "sha1_round ?b (sc_val sc) = Some (chain_list (sha1_state (padded m)))"
      using sha1_round_ok [of ?b "sha1_state m"] True lr l8 padded_blocks(1) [OF refl True] s(2) by (simp add: sha1_state_def)
    ultimately have "sha1_close sc 5 = Some (sc\<lparr>sc_buf := ?b, sc_val := chain_list (sha1_state (padded m))\<rparr>, sha1_standard m)"
      unfolding sha1_close_def sha1_addbits_and_close_def Let_def absorbed_current [OF assms] z cnt
      using True s(1) b1 out [of "sha1_state (padded m)"]
      by (simp add: wr_def enc64be sha1_standard_def sha1_state_def [symmetric] len)
    then show ?thesis using True lr l8 by (simp add: sph_sha1_close_def sph_sha1_init_def)
  next
    case False
    let ?b1 = "rest m @ 0x80 # replicate (63 - ?c) 0" and ?b = "replicate 56 0 @ ?l8"
    have "wr_bytes (rest m @ 0x80 # drop (?c + 1) (sc_buf sc)) (?c + 1) (replicate (63 - ?c) 0) = Some ?b1"
      using wr_after [of "replicate (63 - ?c) 0" "drop (?c + 1) (sc_buf sc)" "rest m @ [0x80]"] s(1) lr by simp
    moreover have "sha1_round ?b1 (sc_val sc) = Some (chain_list (sha1_compress (sha1_state m) (block_words ?b1)))"
      using sha1_round_ok [of ?b1 "sha1_state m"] lr s(2) by simp
    moreover have "wr_bytes ?b1 0 (replicate 56 0) = Some (replicate 56 0 @ drop 56 ?b1)"
      using lr by (simp add: wr_bytes_def overwrite_def)
    moreover have "wr_bytes (replicate 56 0 @ drop 56 ?b1) 56 ?l8 = Some ?b"
      using wr_after [of ?l8 "drop 56 ?b1" "replicate 56 0"] lr l8 by simp
    moreover have "sha1_round ?b (chain_list (sha1_compress (sha1_state m) (block_words ?b1))) = Some (chain_list (sha1_state (padded m)))"
      using sha1_round_ok [of ?b] lr l8 padded_blocks(2) [OF refl] False by (simp add: sha1_state_def)
    ultimately have "sha1_close sc 5 = Some (sc\<lparr>sc_buf := ?b, sc_val := chain_list (sha1_state (padded m))\<rparr>, sha1_standard m)"
      unfolding sha1_close_def sha1_addbits_and_close_def Let_def absorbed_current [OF assms] z cnt
      using False s(1) b1 out [of "sha1_state (padded m)"]
      by (simp add: wr_def enc64be sha1_standard_def sha1_state_def [symmetric] len)
    then show ?thesis using l8 by (simp add: sph_sha1_close_def sph_sha1_init_def)
  qed
qed

lemma length_sha1: "length (sha1_standard m) = 20"
  by (auto simp: sha1_standard_def enc_be_def split: prod.splits)

lemma bytes_of_hash_of:
  assumes "length xs = 20"
  shows "hash_bytes (hash_of_bytes xs) = xs"
proof (rule nth_equalityI)
  fix i assume "i < length (hash_bytes (hash_of_bytes xs))"
  then have i: "i < 20" by simp
  show "hash_bytes (hash_of_bytes xs) ! i = xs ! i"
  proof (rule bit_word_eqI)
    fix k assume "k < LENGTH(8)"
    then have k: "k < 8" by simp
    with i have "8 * i + k < 160" "(8 * i + k) div 8 = i" "(8 * i + k) mod 8 = k" by auto
    with i k assms show "bit (hash_bytes (hash_of_bytes xs) ! i) k = bit (xs ! i) k"
      by (simp add: hash_bytes_def bit_simps bit_hash_of_bytes)
  qed
qed (simp add: assms)

subsection \<open>Properties\<close>

text \<open>C4. The code computes SHA-1 as the standard defines it, however the message is cut: initialising a context, feeding it the pieces of a
  message one after the other and closing it writes the digest of the message, for the unrolled compression function, the buffering
  of short and the direct processing of long pieces, and the padding.\<close>

theorem sha1_pieces_standard:
  assumes "length (sc_buf sc) = 64"
  shows "\<exists>sc'. foldM sph_sha1 (sph_sha1_init sc) pieces \<bind> sph_sha1_close = Some (sc', sha1_standard (concat pieces))"
proof -
  from pieces_ok [OF absorbed_init [OF assms], of pieces] obtain sc1 where
    "foldM sph_sha1 (sph_sha1_init sc) pieces = Some sc1" "absorbed sc1 (concat pieces)" by auto
  with close_ok [of sc1] show ?thesis by auto
qed

theorem sha1_pieces_standard_witness:
  "\<exists>sc'. foldM sph_sha1 (sph_sha1_init \<lparr>sc_buf = replicate 64 1, sc_val = [], sc_count = 9\<rparr>) [[0x61], [], [0x62, 0x63]] \<bind> sph_sha1_close =
     Some (sc', sha1_standard [0x61, 0x62, 0x63])"
  using sha1_pieces_standard [of "\<lparr>sc_buf = replicate 64 1, sc_val = [], sc_count = 9\<rparr>" "[[0x61], [], [0x62, 0x63]]"] by simp

text \<open>C6. The hash of the system is the SHA-1 digest of its input: whatever the local context holds when the function is entered, \<open>zhash\<close>
  returns, and the 20 bytes of its result are the digest.\<close>

theorem zhash_is_sha1:
  assumes "length (sc_buf stack) = 64"
  shows "\<exists>h. zhash_sha1 stack input = Some h \<and> hash_bytes h = sha1_standard input"
proof -
  from sph_sha1_ok [OF absorbed_init [OF assms], of input] obtain sc1 where
    "sph_sha1 (sph_sha1_init stack) input = Some sc1" "absorbed sc1 input" by auto
  with close_ok [of sc1 input] show ?thesis by (auto simp: zhash_sha1_def bytes_of_hash_of length_sha1)
qed

theorem zhash_is_sha1_witness:
  "\<exists>h. zhash_sha1 \<lparr>sc_buf = replicate 64 1, sc_val = [], sc_count = 9\<rparr> [0x61, 0x62, 0x63] = Some h \<and>
     hash_bytes h = sha1_standard [0x61, 0x62, 0x63]"
  by (rule zhash_is_sha1) simp

end
