(* ===== verification/Mpi.thy ===== *)
theory Mpi
  imports Prelude
begin

text \<open>
  The multi-precision integers of \<open>src/common/crypto/bignum.cpp\<close>: the representation, memory
  management, comparison, shifts, addition, subtraction and multiplication.

  An \<open>mpi\<close> is a sign and a vector of 32-bit limbs, least significant first (\<open>t_int\<close> is the
  32-bit \<open>unsigned long\<close> of the i386 build). The limb count \<open>n\<close> is the length of the vector, and
  the null vector is the empty one. An operation is a function from the old value of its
  destination and the operands to a result: \<open>None\<close> is an access outside a limb vector,
  \<open>err r\<close> a return of the non-zero code \<open>r\<close>, and \<open>ok x\<close> a return of 0 with the destination \<open>x\<close>.
  An operand is either the destination itself or another object, because the code compares the
  pointers. \<open>malloc\<close> is the parameter \<open>al\<close>: whether a vector of so many limbs can be had.
\<close>

type_synonym t_int = u32
type_synonym t_dbl = u64

record mpi =
  mpi_s :: int
  mpi_p :: "t_int list"

abbreviation mpi_n :: "mpi \<Rightarrow> nat" where
  "mpi_n X \<equiv> length (mpi_p X)"

type_synonym 'a mres = "(int + 'a) option"

abbreviation ok :: "'a \<Rightarrow> 'a mres" where
  "ok x \<equiv> Some (Inr x)"

abbreviation err :: "int \<Rightarrow> 'a mres" where
  "err r \<equiv> Some (Inl r)"

datatype operand = This | That mpi

fun opnd :: "mpi \<Rightarrow> operand \<Rightarrow> mpi" where
  "opnd X This = X"
| "opnd X (That Y) = Y"

text \<open>\<open>MPI_CHK\<close>: the rest of the function runs only when the call returned 0.\<close>

definition MPI_CHK :: "'a mres \<Rightarrow> ('a \<Rightarrow> 'b mres) \<Rightarrow> 'b mres" where
  "MPI_CHK m f = (case m of None \<Rightarrow> None | Some (Inl r) \<Rightarrow> err r | Some (Inr x) \<Rightarrow> f x)"

definition POLARSSL_ERR_MPI_BAD_INPUT_DATA :: int where
  "POLARSSL_ERR_MPI_BAD_INPUT_DATA = - 4"

definition POLARSSL_ERR_MPI_INVALID_CHARACTER :: int where
  "POLARSSL_ERR_MPI_INVALID_CHARACTER = - 6"

definition POLARSSL_ERR_MPI_NEGATIVE_VALUE :: int where
  "POLARSSL_ERR_MPI_NEGATIVE_VALUE = - 10"

definition POLARSSL_ERR_MPI_DIVISION_BY_ZERO :: int where
  "POLARSSL_ERR_MPI_DIVISION_BY_ZERO = - 12"

definition POLARSSL_ERR_MPI_NOT_ACCEPTABLE :: int where
  "POLARSSL_ERR_MPI_NOT_ACCEPTABLE = - 14"

definition BITS_TO_LIMBS :: "nat \<Rightarrow> nat" where
  "BITS_TO_LIMBS i = (i + 31) div 32"

definition CHARS_TO_LIMBS :: "nat \<Rightarrow> nat" where
  "CHARS_TO_LIMBS i = (i + 3) div 4"

subsection \<open>Memory management\<close>

definition mpi_init :: mpi where
  "mpi_init = \<lparr>mpi_s = 1, mpi_p = []\<rparr>"

definition mpi_free :: "mpi \<Rightarrow> mpi" where
  "mpi_free X = X\<lparr>mpi_s := 1, mpi_p := []\<rparr>"

definition mpi_grow :: "(nat \<Rightarrow> bool) \<Rightarrow> mpi \<Rightarrow> nat \<Rightarrow> mpi mres" where
  "mpi_grow al X nblimbs =
    (if mpi_n X < nblimbs
     then if \<not> al nblimbs then err 1
          else ok (X\<lparr>mpi_p := overwrite (replicate nblimbs 0) 0 (mpi_p X)\<rparr>)
     else ok X)"

text \<open>
  The two scans for the leading limb, downwards from limb \<open>k - 1\<close>: both give the index at
  which they stop plus one. The first stops at limb 0 even when that is zero.
\<close>

fun scan_pos :: "t_int list \<Rightarrow> nat \<Rightarrow> nat" where
  "scan_pos p 0 = 0"
| "scan_pos p (Suc i) = (if i > 0 \<and> p ! i = 0 then scan_pos p i else Suc i)"

fun scan_all :: "t_int list \<Rightarrow> nat \<Rightarrow> nat" where
  "scan_all p 0 = 0"
| "scan_all p (Suc i) = (if p ! i = 0 then scan_all p i else Suc i)"

definition mpi_copy :: "(nat \<Rightarrow> bool) \<Rightarrow> mpi \<Rightarrow> operand \<Rightarrow> mpi mres" where
  "mpi_copy al X Y =
    (case Y of This \<Rightarrow> ok X
     | That Y \<Rightarrow>
        (let i = scan_pos (mpi_p Y) (mpi_n Y);
             X = X\<lparr>mpi_s := mpi_s Y\<rparr>
         in MPI_CHK (mpi_grow al X i) (\<lambda>X.
              ok (X\<lparr>mpi_p := overwrite (replicate (mpi_n X) 0) 0 (take i (mpi_p Y))\<rparr>))))"

definition mpi_swap :: "mpi \<Rightarrow> mpi \<Rightarrow> mpi \<times> mpi" where
  "mpi_swap X Y = (let T = X; X = Y; Y = T in (X, Y))"

definition mpi_lset :: "(nat \<Rightarrow> bool) \<Rightarrow> mpi \<Rightarrow> int \<Rightarrow> mpi mres" where
  "mpi_lset al X z =
    MPI_CHK (mpi_grow al X 1) (\<lambda>X.
      ok (X\<lparr>mpi_p := (replicate (mpi_n X) 0)[0 := word_of_int (if z < 0 then - z else z)],
            mpi_s := if z < 0 then - 1 else 1\<rparr>))"

subsection \<open>Bit counts\<close>

function lsb_bit :: "t_int \<Rightarrow> nat \<Rightarrow> nat option" where
  "lsb_bit w j =
    (if j < 32 then if drop_bit j w AND 1 \<noteq> 0 then Some j else lsb_bit w (Suc j) else None)"
  by pat_completeness auto
termination by (relation "measure (\<lambda>(w, j). 32 - j)") auto

declare lsb_bit.simps [simp del]

fun lsb_limbs :: "t_int list \<Rightarrow> nat \<Rightarrow> nat" where
  "lsb_limbs [] cnt = 0"
| "lsb_limbs (w # ws) cnt =
    (case lsb_bit w 0 of Some j \<Rightarrow> cnt + j | None \<Rightarrow> lsb_limbs ws (cnt + 32))"

definition mpi_lsb :: "mpi \<Rightarrow> nat" where
  "mpi_lsb X = lsb_limbs (mpi_p X) 0"

fun msb_bit :: "t_int \<Rightarrow> nat \<Rightarrow> nat" where
  "msb_bit w 0 = 0"
| "msb_bit w (Suc j) = (if drop_bit j w AND 1 \<noteq> 0 then Suc j else msb_bit w j)"

definition mpi_msb :: "mpi \<Rightarrow> nat option" where
  "mpi_msb X =
    (case scan_pos (mpi_p X) (mpi_n X) of
       0 \<Rightarrow> None
     | Suc i \<Rightarrow> Some (i * 32 + msb_bit (mpi_p X ! i) 32))"

definition mpi_size :: "mpi \<Rightarrow> nat option" where
  "mpi_size X =
    (if mpi_p X = [] then Some 0 else map_option (\<lambda>m. drop_bit 3 (m + 7)) (mpi_msb X))"

subsection \<open>Binary import and export\<close>

fun skip_zeros :: "bytes \<Rightarrow> nat" where
  "skip_zeros [] = 0"
| "skip_zeros (b # bs) = (if b \<noteq> 0 then 0 else Suc (skip_zeros bs))"

text \<open>The loop of \<open>mpi_read_binary\<close> for \<open>i = m - 1\<close> down to \<open>n\<close>.\<close>

fun read_binary_loop :: "t_int list \<Rightarrow> bytes \<Rightarrow> nat \<Rightarrow> nat \<Rightarrow> nat \<Rightarrow> t_int list option" where
  "read_binary_loop p buf n 0 j = Some p"
| "read_binary_loop p buf n (Suc i) j =
    (if i < n then Some p
     else if j div 4 < length p
     then read_binary_loop
            (p[j div 4 := p ! (j div 4) OR push_bit ((j mod 4) * 8) (ucast (buf ! i))])
            buf n i (Suc j)
     else None)"

definition mpi_read_binary :: "(nat \<Rightarrow> bool) \<Rightarrow> mpi \<Rightarrow> bytes \<Rightarrow> mpi mres" where
  "mpi_read_binary al X buf =
    (if buf = [] then ok X
     else let n = skip_zeros buf in
       MPI_CHK (mpi_grow al X (CHARS_TO_LIMBS (length buf - n))) (\<lambda>X.
       MPI_CHK (mpi_lset al X 0) (\<lambda>X.
       case read_binary_loop (mpi_p X) buf n (length buf) 0 of
         None \<Rightarrow> None
       | Some p \<Rightarrow> ok (X\<lparr>mpi_p := p\<rparr>))))"

fun write_binary_loop :: "t_int list \<Rightarrow> bytes \<Rightarrow> nat \<Rightarrow> nat \<Rightarrow> nat \<Rightarrow> bytes option" where
  "write_binary_loop p buf i j 0 = Some buf"
| "write_binary_loop p buf i j (Suc n) =
    (if 0 < i \<and> i \<le> length buf \<and> j div 4 < length p
     then write_binary_loop p (buf[i - 1 := ucast (drop_bit ((j mod 4) * 8) (p ! (j div 4)))])
            (i - 1) (Suc j) n
     else None)"

text \<open>The result of \<open>mpi_write_binary\<close>: the code, which is the size needed when the buffer is
  too small, the number, which the function clears when there is nothing to write, and the
  buffer. The index \<open>i\<close> of the loop is one more than that of the code.\<close>

definition mpi_write_binary :: "mpi \<Rightarrow> bytes \<Rightarrow> (nat \<times> mpi \<times> bytes) option" where
  "mpi_write_binary X buf =
    (case mpi_size X of None \<Rightarrow> None
     | Some n \<Rightarrow>
        if length buf < n then Some (n, X, buf)
        else if n = 0 then Some (0, X\<lparr>mpi_s := 0, mpi_p := []\<rparr>, buf)
        else map_option (\<lambda>buf. (0, X, buf))
               (write_binary_loop (mpi_p X) (replicate (length buf) 0) (length buf) 0 n))"

subsection \<open>Shifts\<close>

fun shift_l_limbs :: "t_int list \<Rightarrow> nat \<Rightarrow> nat \<Rightarrow> t_int list" where
  "shift_l_limbs p v0 0 = p"
| "shift_l_limbs p v0 (Suc i) =
    shift_l_limbs (p[i := if v0 \<le> i then p ! (i - v0) else 0]) v0 i"

function shift_l_bits :: "t_int list \<Rightarrow> nat \<Rightarrow> nat \<Rightarrow> t_int \<Rightarrow> t_int list" where
  "shift_l_bits p t1 i r0 =
    (if i < length p
     then let r1 = drop_bit (32 - t1) (p ! i);
              p = p[i := push_bit t1 (p ! i)];
              p = p[i := p ! i OR r0]
          in shift_l_bits p t1 (Suc i) r1
     else p)"
  by pat_completeness auto
termination by (relation "measure (\<lambda>(p, t1, i, r0). length p - i)") auto

declare shift_l_bits.simps [simp del]

definition mpi_shift_l :: "(nat \<Rightarrow> bool) \<Rightarrow> mpi \<Rightarrow> nat \<Rightarrow> mpi mres" where
  "mpi_shift_l al X cnt =
    (case mpi_msb X of None \<Rightarrow> None
     | Some m \<Rightarrow>
        (let v0 = cnt div 32; t1 = cnt mod 32; i = m + cnt in
         MPI_CHK (if mpi_n X * 32 < i then mpi_grow al X (BITS_TO_LIMBS i) else ok X) (\<lambda>X.
           let p = (if v0 > 0 then shift_l_limbs (mpi_p X) v0 (mpi_n X) else mpi_p X);
               p = (if t1 > 0 then shift_l_bits p t1 v0 0 else p)
           in ok (X\<lparr>mpi_p := p\<rparr>))))"

text \<open>The two loops of \<open>mpi_shift_r\<close> over whole limbs, from limb \<open>i\<close> upwards.\<close>

function shift_r_limbs :: "t_int list \<Rightarrow> nat \<Rightarrow> nat \<Rightarrow> t_int list" where
  "shift_r_limbs p v0 i =
    (if i < length p
     then shift_r_limbs (p[i := if i + v0 < length p then p ! (i + v0) else 0]) v0 (Suc i)
     else p)"
  by pat_completeness auto
termination by (relation "measure (\<lambda>(p, v0, i). length p - i)") auto

declare shift_r_limbs.simps [simp del]

fun shift_r_bits :: "t_int list \<Rightarrow> nat \<Rightarrow> nat \<Rightarrow> t_int \<Rightarrow> t_int list" where
  "shift_r_bits p v1 0 r0 = p"
| "shift_r_bits p v1 (Suc i) r0 =
    (let r1 = push_bit (32 - v1) (p ! i);
         p = p[i := drop_bit v1 (p ! i)];
         p = p[i := p ! i OR r0]
     in shift_r_bits p v1 i r1)"

definition mpi_shift_r :: "mpi \<Rightarrow> nat \<Rightarrow> mpi" where
  "mpi_shift_r X cnt =
    (let v0 = cnt div 32; v1 = cnt mod 32;
         p = (if v0 > 0 then shift_r_limbs (mpi_p X) v0 0 else mpi_p X);
         p = (if v1 > 0 then shift_r_bits p v1 (mpi_n X) 0 else p)
     in X\<lparr>mpi_p := p\<rparr>)"

subsection \<open>Comparison\<close>

text \<open>The loop from limb \<open>i - 1\<close> down to 0, with the value to return when \<open>X\<close> is larger.\<close>

fun cmp_limbs :: "int \<Rightarrow> t_int list \<Rightarrow> t_int list \<Rightarrow> nat \<Rightarrow> int" where
  "cmp_limbs s p q 0 = 0"
| "cmp_limbs s p q (Suc i) =
    (if p ! i > q ! i then s else if p ! i < q ! i then - s else cmp_limbs s p q i)"

definition mpi_cmp_abs :: "mpi \<Rightarrow> mpi \<Rightarrow> int" where
  "mpi_cmp_abs X Y =
    (let i = scan_all (mpi_p X) (mpi_n X); j = scan_all (mpi_p Y) (mpi_n Y) in
     if i = 0 \<and> j = 0 then 0
     else if i > j then 1
     else if j > i then - 1
     else cmp_limbs 1 (mpi_p X) (mpi_p Y) i)"

definition mpi_cmp_mpi :: "mpi \<Rightarrow> mpi \<Rightarrow> int" where
  "mpi_cmp_mpi X Y =
    (let i = scan_all (mpi_p X) (mpi_n X); j = scan_all (mpi_p Y) (mpi_n Y) in
     if i = 0 \<and> j = 0 then 0
     else if i > j then mpi_s X
     else if j > i then - mpi_s X
     else if mpi_s X > 0 \<and> mpi_s Y < 0 then 1
     else if mpi_s Y > 0 \<and> mpi_s X < 0 then - 1
     else cmp_limbs (mpi_s X) (mpi_p X) (mpi_p Y) i)"

text \<open>The number on the stack that the \<open>_int\<close> variants of the operations build.\<close>

definition mpi_of_int :: "int \<Rightarrow> mpi" where
  "mpi_of_int z =
    \<lparr>mpi_s = if z < 0 then - 1 else 1, mpi_p = [word_of_int (if z < 0 then - z else z)]\<rparr>"

definition mpi_cmp_int :: "mpi \<Rightarrow> int \<Rightarrow> int" where
  "mpi_cmp_int X z = mpi_cmp_mpi X (mpi_of_int z)"

subsection \<open>Addition and subtraction\<close>

text \<open>
  The loop of \<open>mpi_add_abs\<close> over the \<open>m\<close> limbs of \<open>B\<close>. When \<open>B\<close> is the destination itself,
  \<open>o\<close> and \<open>p\<close> point at the same limb, which the additions change (\<open>None\<close>).
\<close>

function add_limbs :: "t_int list \<Rightarrow> t_int list option \<Rightarrow> nat \<Rightarrow> nat \<Rightarrow> t_int \<Rightarrow> t_int list \<times> t_int" where
  "add_limbs p b i m c =
    (if i < m
     then let p = p[i := p ! i + c];
              c = of_bool (p ! i < c);
              p = p[i := p ! i + (case b of None \<Rightarrow> p ! i | Some q \<Rightarrow> q ! i)];
              c = c + of_bool (p ! i < (case b of None \<Rightarrow> p ! i | Some q \<Rightarrow> q ! i))
          in add_limbs p b (Suc i) m c
     else (p, c))"
  by pat_completeness auto
termination by (relation "measure (\<lambda>(p, b, i, m, c). m - i)") auto

declare add_limbs.simps [simp del]

text \<open>The loop that carries on: \<open>q\<close> is the limb \<open>p\<close> points at.\<close>

partial_function (option) add_carry ::
  "(nat \<Rightarrow> bool) \<Rightarrow> mpi \<Rightarrow> nat \<Rightarrow> nat \<Rightarrow> t_int \<Rightarrow> mpi mres" where
  "add_carry al X q i c =
    (if c \<noteq> 0
     then case (if i \<ge> mpi_n X then MPI_CHK (mpi_grow al X (Suc i)) (\<lambda>X. ok (X, i)) else ok (X, q)) of
            None \<Rightarrow> None
          | Some (Inl r) \<Rightarrow> err r
          | Some (Inr (X, q)) \<Rightarrow>
              if q < mpi_n X
              then let p = (mpi_p X)[q := mpi_p X ! q + c]
                   in add_carry al (X\<lparr>mpi_p := p\<rparr>) q (Suc i) (of_bool (p ! q < c))
              else None
     else ok X)"

definition mpi_add_abs :: "(nat \<Rightarrow> bool) \<Rightarrow> mpi \<Rightarrow> operand \<Rightarrow> operand \<Rightarrow> mpi mres" where
  "mpi_add_abs al X A B =
    (let (A, B) = (if B = This then (This, A) else (A, B)) in
     MPI_CHK (if A \<noteq> This then mpi_copy al X A else ok X) (\<lambda>X.
     let j = scan_all (mpi_p (opnd X B)) (mpi_n (opnd X B)) in
     MPI_CHK (mpi_grow al X j) (\<lambda>X.
     let (p, c) = add_limbs (mpi_p X)
           (case B of This \<Rightarrow> None | That B \<Rightarrow> Some (mpi_p B)) 0 j 0
     in add_carry al (X\<lparr>mpi_p := p\<rparr>) j j c)))"

function sub_limbs :: "nat \<Rightarrow> t_int list \<Rightarrow> t_int list \<Rightarrow> nat \<Rightarrow> t_int \<Rightarrow> (t_int list \<times> t_int) option" where
  "sub_limbs n s d i c =
    (if i < n
     then if i < length s \<and> i < length d
          then let z = of_bool (d ! i < c);
                   d = d[i := d ! i - c];
                   c = of_bool (d ! i < s ! i) + z;
                   d = d[i := d ! i - s ! i]
               in sub_limbs n s d (Suc i) c
          else None
     else Some (d, c))"
  by pat_completeness auto
termination by (relation "measure (\<lambda>(n, s, d, i, c). n - i)") auto

declare sub_limbs.simps [simp del]

function sub_borrow :: "t_int list \<Rightarrow> nat \<Rightarrow> t_int \<Rightarrow> t_int list option" where
  "sub_borrow d i c =
    (if c \<noteq> 0
     then if i < length d
          then let z = of_bool (d ! i < c); d = d[i := d ! i - c] in sub_borrow d (Suc i) z
          else None
     else Some d)"
  by pat_completeness auto
termination by (relation "measure (\<lambda>(d, i, c). length d - i)") auto

declare sub_borrow.simps [simp del]

definition mpi_sub_hlp :: "nat \<Rightarrow> t_int list \<Rightarrow> t_int list \<Rightarrow> t_int list option" where
  "mpi_sub_hlp n s d =
    (case sub_limbs n s d 0 0 of None \<Rightarrow> None | Some (d, c) \<Rightarrow> sub_borrow d n c)"

definition mpi_sub_abs :: "(nat \<Rightarrow> bool) \<Rightarrow> mpi \<Rightarrow> operand \<Rightarrow> operand \<Rightarrow> mpi mres" where
  "mpi_sub_abs al X A B =
    (if mpi_cmp_abs (opnd X A) (opnd X B) < 0 then err POLARSSL_ERR_MPI_NEGATIVE_VALUE
     else MPI_CHK (if B = This then mpi_copy al mpi_init (That X) else ok (opnd X B)) (\<lambda>TB.
          MPI_CHK (if A \<noteq> This then mpi_copy al X A else ok X) (\<lambda>X.
          let n = scan_all (mpi_p TB) (mpi_n TB)
          in case mpi_sub_hlp n (mpi_p TB) (mpi_p X) of
               None \<Rightarrow> None
             | Some p \<Rightarrow> ok (X\<lparr>mpi_p := p\<rparr>))))"

definition mpi_add_mpi :: "(nat \<Rightarrow> bool) \<Rightarrow> mpi \<Rightarrow> operand \<Rightarrow> operand \<Rightarrow> mpi mres" where
  "mpi_add_mpi al X A B =
    (let s = mpi_s (opnd X A) in
     if mpi_s (opnd X A) * mpi_s (opnd X B) < 0
     then if mpi_cmp_abs (opnd X A) (opnd X B) \<ge> 0
          then MPI_CHK (mpi_sub_abs al X A B) (\<lambda>X. ok (X\<lparr>mpi_s := s\<rparr>))
          else MPI_CHK (mpi_sub_abs al X B A) (\<lambda>X. ok (X\<lparr>mpi_s := - s\<rparr>))
     else MPI_CHK (mpi_add_abs al X A B) (\<lambda>X. ok (X\<lparr>mpi_s := s\<rparr>)))"

definition mpi_sub_mpi :: "(nat \<Rightarrow> bool) \<Rightarrow> mpi \<Rightarrow> operand \<Rightarrow> operand \<Rightarrow> mpi mres" where
  "mpi_sub_mpi al X A B =
    (let s = mpi_s (opnd X A) in
     if mpi_s (opnd X A) * mpi_s (opnd X B) > 0
     then if mpi_cmp_abs (opnd X A) (opnd X B) \<ge> 0
          then MPI_CHK (mpi_sub_abs al X A B) (\<lambda>X. ok (X\<lparr>mpi_s := s\<rparr>))
          else MPI_CHK (mpi_sub_abs al X B A) (\<lambda>X. ok (X\<lparr>mpi_s := - s\<rparr>))
     else MPI_CHK (mpi_add_abs al X A B) (\<lambda>X. ok (X\<lparr>mpi_s := s\<rparr>)))"

definition mpi_add_int :: "(nat \<Rightarrow> bool) \<Rightarrow> mpi \<Rightarrow> operand \<Rightarrow> int \<Rightarrow> mpi mres" where
  "mpi_add_int al X A b = mpi_add_mpi al X A (That (mpi_of_int b))"

definition mpi_sub_int :: "(nat \<Rightarrow> bool) \<Rightarrow> mpi \<Rightarrow> operand \<Rightarrow> int \<Rightarrow> mpi mres" where
  "mpi_sub_int al X A b = mpi_sub_mpi al X A (That (mpi_of_int b))"

end
