(* ===== verification/MpiVal.thy ===== *)
theory MpiVal
  imports Mpi
begin

text \<open>
  The integer an \<open>mpi\<close> stands for, and what memory management, the scans, the comparisons,
  addition and subtraction do with it. The comparison of signed numbers is wrong in exactly one
  case and addition loses a carry in exactly one; both are characterised.
\<close>

subsection \<open>Limb vectors as numbers\<close>

definition LB :: nat where
  "LB = 2 ^ 32"

fun nval :: "t_int list \<Rightarrow> nat" where
  "nval [] = 0"
| "nval (w # ws) = unat w + LB * nval ws"

definition mval :: "mpi \<Rightarrow> int" where [mpi_defs]:
  "mval X = mpi_s X * int (nval (mpi_p X))"

text \<open>The type invariant of a number: its sign is 1 or -1.\<close>

definition mpi_ok :: "mpi \<Rightarrow> bool" where [mpi_defs]:
  "mpi_ok X \<longleftrightarrow> mpi_s X = 1 \<or> mpi_s X = - 1"

lemma LB_pos [simp]: "0 < LB" and LB_ne [simp]: "LB \<noteq> 0" and LB_gt_1 [simp]: "1 < LB"
  and LB_gt_Suc_0 [simp]: "Suc 0 < LB" and LB_ge_Suc_0 [simp]: "Suc 0 \<le> LB"
  by (simp_all add: LB_def)

lemma LB_pow_pos [simp]: "0 < LB ^ k"
  by simp

lemma LB_ge_2: "2 \<le> LB"
  by (simp add: LB_def)

lemma limb_less [simp]: "unat (w :: t_int) < LB"
  using unat_less_exp [of w] by (simp add: LB_def)

lemma limb_le [simp]: "unat (w :: t_int) \<le> LB - 1"
  using limb_less [of w] by linarith

lemma nval_append: "nval (xs @ ys) = nval xs + LB ^ length xs * nval ys"
  by (induction xs) (simp_all add: algebra_simps)

lemma nval_replicate [simp]: "nval (replicate k 0) = 0"
  by (induction k) simp_all

lemma nval_zeros: "nval xs = 0 \<longleftrightarrow> (\<forall>x \<in> set xs. x = 0)"
  by (induction xs) (auto simp: unat_eq_0)

lemma nval_less: "nval xs < LB ^ length xs"
proof (induction xs)
  case (Cons w ws)
  have "unat w + LB * nval ws \<le> unat w + LB * (LB ^ length ws - 1)"
    using Cons by (intro add_left_mono mult_left_mono) simp_all
  also have "\<dots> < LB + LB * (LB ^ length ws - 1)" by simp
  also have "\<dots> = LB * LB ^ length ws"
    using LB_pow_pos [of "length ws"] by (cases "LB ^ length ws") simp_all
  finally show ?case by simp
qed simp

lemma nval_take_drop: "nval xs = nval (take i xs) + LB ^ i * nval (drop i xs)"
  if "i \<le> length xs"
  using nval_append [of "take i xs" "drop i xs"] that by simp

lemma nval_take_Suc:
  "i < length xs \<Longrightarrow> nval (take (Suc i) xs) = nval (take i xs) + LB ^ i * unat (xs ! i)"
  by (simp add: take_Suc_conv_app_nth nval_append)

lemma nval_take_less: "nval (take i xs) < LB ^ i"
proof -
  have "nval (take i xs) < LB ^ length (take i xs)" by (rule nval_less)
  also have "\<dots> \<le> LB ^ i" by (rule power_increasing) simp_all
  finally show ?thesis .
qed

lemma nval_update:
  "i < length xs \<Longrightarrow> nval (xs[i := w]) + LB ^ i * unat (xs ! i) = nval xs + LB ^ i * unat w"
proof (induction xs arbitrary: i)
  case (Cons x xs)
  show ?case
  proof (cases i)
    case (Suc k)
    with Cons.prems have k: "k < length xs" by simp
    show ?thesis using arg_cong [OF Cons.IH [OF k], of "(*) LB"]
      by (simp add: Suc algebra_simps)
  qed simp
qed simp

lemma nval_high_zero:
  assumes "i \<le> length xs" and "\<forall>k. i \<le> k \<and> k < length xs \<longrightarrow> xs ! k = 0"
  shows "nval (take i xs) = nval xs"
proof -
  have "\<forall>x \<in> set (drop i xs). x = 0"
  proof
    fix x
    assume "x \<in> set (drop i xs)"
    then obtain k where "k < length (drop i xs)" "x = drop i xs ! k"
      by (metis in_set_conv_nth)
    then show "x = 0" using assms by simp
  qed
  then have "nval (drop i xs) = 0" by (simp add: nval_zeros)
  then show ?thesis using nval_take_drop [OF assms(1)] by simp
qed

lemma nval_top:
  assumes "i < length xs" and "xs ! i \<noteq> 0"
  shows "LB ^ i \<le> nval xs"
proof -
  have "nval xs = nval (take (Suc i) xs) + LB ^ Suc i * nval (drop (Suc i) xs)"
    using assms(1) by (intro nval_take_drop) simp
  moreover have "1 \<le> unat (xs ! i)" using assms(2) by (simp add: unat_gt_0 Suc_le_eq)
  then have "LB ^ i * 1 \<le> LB ^ i * unat (xs ! i)" by (intro mult_left_mono) simp_all
  ultimately show ?thesis unfolding nval_take_Suc [OF assms(1)] by linarith
qed

lemma nval_overwrite_zeros:
  "length xs \<le> k \<Longrightarrow> nval (overwrite (replicate k 0) 0 xs) = nval xs"
  by (simp add: overwrite_def nval_append)

subsection \<open>The scans\<close>

lemma scan_all_le: "scan_all p n \<le> n"
  by (induction n) simp_all

lemma scan_all_high: "scan_all p n \<le> k \<Longrightarrow> k < n \<Longrightarrow> p ! k = 0"
  by (induction n) (auto simp: less_Suc_eq split: if_splits)

lemma scan_all_top: "0 < scan_all p n \<Longrightarrow> p ! (scan_all p n - 1) \<noteq> 0"
  by (induction n) (auto split: if_splits)

lemma scan_all_nval [simp]: "nval (take (scan_all p (length p)) p) = nval p"
  by (rule nval_high_zero) (auto simp: scan_all_le intro: scan_all_high)

lemma scan_all_less: "nval p < LB ^ scan_all p (length p)"
  using nval_take_less [of "scan_all p (length p)" p] by simp

lemma scan_all_ge:
  assumes "0 < scan_all p (length p)"
  shows "LB ^ (scan_all p (length p) - 1) \<le> nval p"
  using assms scan_all_top [OF assms] scan_all_le [of p "length p"] by (intro nval_top) simp_all

lemma scan_all_0 [simp]: "scan_all p (length p) = 0 \<longleftrightarrow> nval p = 0"
proof
  assume "scan_all p (length p) = 0"
  then show "nval p = 0" using scan_all_less [of p] by simp
next
  assume z: "nval p = 0"
  show "scan_all p (length p) = 0"
  proof (rule ccontr)
    assume "scan_all p (length p) \<noteq> 0"
    then have "LB ^ (scan_all p (length p) - 1) \<le> nval p" using scan_all_ge by blast
    with z show False by simp
  qed
qed

lemma scan_all_unique:
  assumes "LB ^ k \<le> nval p" and "nval p < LB ^ Suc k"
  shows "scan_all p (length p) = Suc k"
proof -
  define j where "j = scan_all p (length p)"
  have "0 < nval p" using assms(1) LB_pow_pos [of k] by linarith
  then have j0: "0 < j" using scan_all_0 [of p] unfolding j_def by linarith
  have "LB ^ k < LB ^ j" unfolding j_def using assms(1) scan_all_less [of p] by (rule le_less_trans)
  then have "k < j" by (simp only: power_strict_increasing_iff [OF LB_gt_1])
  moreover have "LB ^ (j - 1) < LB ^ Suc k"
    using le_less_trans [OF scan_all_ge assms(2)] j0 unfolding j_def by blast
  then have "j - 1 < Suc k" by (simp only: power_strict_increasing_iff [OF LB_gt_1])
  ultimately show ?thesis by (simp add: j_def)
qed

lemma scan_all_mono: "nval p \<le> nval q \<Longrightarrow> scan_all p (length p) \<le> scan_all q (length q)"
proof (rule ccontr)
  assume le: "nval p \<le> nval q" and "\<not> scan_all p (length p) \<le> scan_all q (length q)"
  then have lt: "scan_all q (length q) \<le> scan_all p (length p) - 1" "0 < scan_all p (length p)"
    by simp_all
  have "nval q < LB ^ scan_all q (length q)" by (rule scan_all_less)
  also have "\<dots> \<le> LB ^ (scan_all p (length p) - 1)" by (rule power_increasing [OF lt(1)]) simp
  also have "\<dots> \<le> nval p" by (rule scan_all_ge [OF lt(2)])
  finally show False using le by simp
qed

lemma scan_pos_scan_all: "scan_pos p n = (if n = 0 then 0 else max 1 (scan_all p n))"
proof (induction n)
  case (Suc n)
  then show ?case by (cases "n = 0") auto
qed simp

lemma scan_pos_le: "scan_pos p n \<le> n"
  using scan_all_le [of p n] by (simp add: scan_pos_scan_all)

lemma scan_pos_ge: "scan_all p n \<le> scan_pos p n"
  using scan_all_le [of p n] by (simp add: scan_pos_scan_all)

lemma scan_pos_nval [simp]: "nval (take (scan_pos p (length p)) p) = nval p"
proof (rule nval_high_zero)
  show "scan_pos p (length p) \<le> length p" by (rule scan_pos_le)
  show "\<forall>k. scan_pos p (length p) \<le> k \<and> k < length p \<longrightarrow> p ! k = 0"
    using scan_pos_ge [of p "length p"] scan_all_high [of p "length p"] by (meson le_trans)
qed

subsection \<open>Results\<close>

text \<open>
  \<open>gives al m P\<close>: the operation stays inside its limb vectors, and either returns 0 with a
  result in \<open>P\<close>, or returns 1 because some allocation failed.
\<close>

definition gives :: "(nat \<Rightarrow> bool) \<Rightarrow> 'a mres \<Rightarrow> ('a \<Rightarrow> bool) \<Rightarrow> bool" where
  "gives al m P \<longleftrightarrow>
    (case m of None \<Rightarrow> False | Some (Inl r) \<Rightarrow> r = 1 \<and> (\<exists>k. \<not> al k) | Some (Inr x) \<Rightarrow> P x)"

lemma MPI_CHK_simps [simp]:
  "MPI_CHK None f = None" "MPI_CHK (err r) f = err r" "MPI_CHK (ok x) f = f x"
  by (simp_all add: MPI_CHK_def)

lemma gives_ok [simp]: "gives al (ok x) P \<longleftrightarrow> P x"
  and gives_err [simp]: "gives al (err r) P \<longleftrightarrow> r = 1 \<and> (\<exists>k. \<not> al k)"
  and gives_None [simp]: "\<not> gives al None P"
  by (simp_all add: gives_def)

lemma gives_chk:
  assumes "gives al m P" and "\<And>x. P x \<Longrightarrow> gives al (f x) Q"
  shows "gives al (MPI_CHK m f) Q"
proof (cases m)
  case (Some r)
  then show ?thesis using assms by (cases r) simp_all
qed (use assms(1) in simp)

lemma gives_mono: "gives al m P \<Longrightarrow> (\<And>x. P x \<Longrightarrow> Q x) \<Longrightarrow> gives al m Q"
  by (auto simp: gives_def split: option.splits sum.splits)

lemma gives_total: "gives al m P \<Longrightarrow> \<forall>k. al k \<Longrightarrow> \<exists>x. m = ok x \<and> P x"
  by (auto simp: gives_def split: option.splits sum.splits)

lemma gives_conj: "gives al m P \<Longrightarrow> gives al m Q \<Longrightarrow> gives al m (\<lambda>x. P x \<and> Q x)"
  by (auto simp: gives_def split: option.splits sum.splits)

subsection \<open>Memory management\<close>

lemma gives_grow:
  "gives al (mpi_grow al X k)
     (\<lambda>Y. Y = X\<lparr>mpi_p := mpi_p X @ replicate (k - mpi_n X) 0\<rparr>)"
  by (auto simp: mpi_grow_def overwrite_def)

lemma gives_copy:
  "gives al (mpi_copy al X (That Y))
     (\<lambda>Z. mpi_s Z = mpi_s Y \<and> nval (mpi_p Z) = nval (mpi_p Y)
        \<and> mpi_n Z = max (mpi_n X) (scan_pos (mpi_p Y) (mpi_n Y))
        \<and> (\<forall>k < mpi_n Z. mpi_p Z ! k = (if k < mpi_n Y then mpi_p Y ! k else 0)))"
proof -
  define i where "i = scan_pos (mpi_p Y) (mpi_n Y)"
  have i: "i \<le> mpi_n Y" unfolding i_def by (rule scan_pos_le)
  have hz: "mpi_p Y ! k = 0" if "i \<le> k" "k < mpi_n Y" for k
    using that scan_pos_ge [of "mpi_p Y" "mpi_n Y"] by (intro scan_all_high) (simp_all add: i_def)
  have "gives al (mpi_copy al X (That Y)) (\<lambda>Z. \<exists>m. m = max (mpi_n X) i
      \<and> Z = X\<lparr>mpi_s := mpi_s Y, mpi_p := overwrite (replicate m 0) 0 (take i (mpi_p Y))\<rparr>)"
    unfolding mpi_copy_def Let_def operand.case i_def [symmetric]
    by (rule gives_chk [OF gives_grow]) (simp add: max_def)
  then show ?thesis
    unfolding i_def [symmetric]
    by (rule gives_mono)
      (use i hz in \<open>auto simp: nval_append i_def nth_append overwrite_def\<close>)
qed

lemma gives_lset:
  "gives al (mpi_lset al X z)
     (\<lambda>Y. Y = X\<lparr>mpi_p := word_of_int \<bar>z\<bar> # replicate (mpi_n X - 1) 0,
                mpi_s := if z < 0 then - 1 else 1\<rparr>)"
  unfolding mpi_lset_def
  by (rule gives_chk [OF gives_grow]) (cases "mpi_p X"; simp)

subsection \<open>Comparison\<close>

lemma sgn_diff_less: "a < b \<Longrightarrow> sgn (int a - int b) = - 1" "a < b \<Longrightarrow> sgn (int b - int a) = 1"
  by (simp_all add: sgn_if)

lemma sgn_diff_swap: "sgn (y - x) = - sgn (x - y :: int)"
  by (simp add: sgn_if)

lemma cmp_limbs_sgn:
  assumes "i \<le> length p" and "i \<le> length q"
  shows "cmp_limbs s p q i = s * sgn (int (nval (take i p)) - int (nval (take i q)))"
  using assms
proof (induction i)
  case (Suc i)
  define a b where "a = nval (take i p)" and "b = nval (take i q)"
  have ab: "a < LB ^ i" "b < LB ^ i" unfolding a_def b_def by (rule nval_take_less)+
  have step: "x + LB ^ i * k < y + LB ^ i * l" if "k < l" "x < LB ^ i" for x y k l :: nat
  proof -
    have "x + LB ^ i * k < LB ^ i * Suc k" using that(2) by simp
    also have "\<dots> \<le> LB ^ i * l" using that(1) by (intro mult_left_mono) simp_all
    finally show ?thesis by simp
  qed
  have ta: "nval (take (Suc i) p) = a + LB ^ i * unat (p ! i)"
    and tb: "nval (take (Suc i) q) = b + LB ^ i * unat (q ! i)"
    using Suc.prems by (simp_all add: nval_take_Suc a_def b_def)
  consider "unat (p ! i) < unat (q ! i)" | "unat (q ! i) < unat (p ! i)" | "p ! i = q ! i"
    by (metis nat_neq_iff word_unat_eq_iff)
  then show ?case
  proof cases
    case 1
    from sgn_diff_less(1) [OF step [OF 1 ab(1), of b]] 1 show ?thesis
      unfolding ta tb by (simp add: word_nat)
  next
    case 2
    from sgn_diff_less(2) [OF step [OF 2 ab(2), of a]] 2 show ?thesis
      unfolding ta tb by (simp add: word_nat)
  next
    case 3
    then show ?thesis using Suc unfolding ta tb by (simp add: a_def b_def)
  qed
qed simp

lemma scan_less_nval:
  "scan_all p (length p) < scan_all q (length q) \<Longrightarrow> nval p < nval q"
  using scan_all_mono [of q p] by (meson not_le)

lemma cmp_limbs_scan:
  assumes "scan_all p (length p) = scan_all q (length q)"
  shows "cmp_limbs s p q (scan_all p (length p)) = s * sgn (int (nval p) - int (nval q))"
proof -
  have "scan_all p (length p) \<le> length p" "scan_all p (length p) \<le> length q"
    using scan_all_le [of p "length p"] scan_all_le [of q "length q"] assms by simp_all
  from cmp_limbs_sgn [OF this, of s] show ?thesis
    using scan_all_nval [of p] scan_all_nval [of q] unfolding assms by metis
qed

lemma mpi_cmp_abs_sgn: "mpi_cmp_abs X Y = sgn (int (nval (mpi_p X)) - int (nval (mpi_p Y)))"
proof -
  let ?i = "scan_all (mpi_p X) (mpi_n X)" and ?j = "scan_all (mpi_p Y) (mpi_n Y)"
  consider "?i < ?j" | "?j < ?i" | "?i = ?j" by linarith
  then show ?thesis
  proof cases
    case 1
    with scan_less_nval [OF 1] show ?thesis by (simp add: mpi_cmp_abs_def sgn_if)
  next
    case 2
    with scan_less_nval [OF 2] show ?thesis by (simp add: mpi_cmp_abs_def sgn_if)
  next
    case 3
    then show ?thesis
      using cmp_limbs_scan [OF 3, of 1] scan_all_0 [of "mpi_p X"] scan_all_0 [of "mpi_p Y"]
      by (simp add: mpi_cmp_abs_def Let_def)
  qed
qed

lemma mpi_cmp_abs_less [simp]: "mpi_cmp_abs X Y < 0 \<longleftrightarrow> nval (mpi_p X) < nval (mpi_p Y)"
  by (simp add: mpi_cmp_abs_sgn sgn_if)

lemma mpi_cmp_abs_ge [simp]: "0 \<le> mpi_cmp_abs X Y \<longleftrightarrow> nval (mpi_p Y) \<le> nval (mpi_p X)"
  by (simp add: mpi_cmp_abs_sgn sgn_if)

lemma mpi_cmp_mpi_cases:
  assumes "mpi_ok X" and "mpi_ok Y"
  shows "mpi_cmp_mpi X Y =
    (if scan_all (mpi_p X) (mpi_n X) < scan_all (mpi_p Y) (mpi_n Y) \<and> mpi_s X \<noteq> mpi_s Y
     then - sgn (mval X - mval Y) else sgn (mval X - mval Y))"
proof -
  let ?i = "scan_all (mpi_p X) (mpi_n X)" and ?j = "scan_all (mpi_p Y) (mpi_n Y)"
  consider "?i < ?j" | "?j < ?i" | "?i = ?j" by linarith
  then show ?thesis
  proof cases
    case 1
    with scan_less_nval [OF 1] show ?thesis
      using assms by (auto simp: mpi_cmp_mpi_def sgn_if mpi_ok_def mval_def)
  next
    case 2
    with scan_less_nval [OF 2] show ?thesis
      using assms by (auto simp: mpi_cmp_mpi_def sgn_if mpi_ok_def mval_def)
  next
    case 3
    then have z: "nval (mpi_p X) = 0 \<longleftrightarrow> nval (mpi_p Y) = 0"
      using scan_all_0 [of "mpi_p X"] scan_all_0 [of "mpi_p Y"] by simp
    show ?thesis
      unfolding mpi_cmp_mpi_def Let_def cmp_limbs_scan [OF 3] using assms unfolding mpi_ok_def
      by (elim disjE; use z 3 in
        \<open>simp add: mval_def sgn_diff_swap [of "int (nval (mpi_p Y))"]\<close>)
  qed
qed

lemma mpi_cmp_mpi_same:
  "mpi_ok X \<Longrightarrow> mpi_ok Y \<Longrightarrow> mpi_s X = mpi_s Y \<Longrightarrow> mpi_cmp_mpi X Y = sgn (mval X - mval Y)"
  by (simp add: mpi_cmp_mpi_cases)

lemma nval_of_int: "\<bar>z\<bar> < 2 ^ 32 \<Longrightarrow> int (nval (mpi_p (mpi_of_int z))) = \<bar>z\<bar>"
  by (simp add: mpi_of_int_def unsigned_of_int take_bit_int_eq_self)

lemma mval_of_int: "\<bar>z\<bar> < 2 ^ 32 \<Longrightarrow> mval (mpi_of_int z) = z"
  unfolding mval_def by (simp add: nval_of_int) (simp add: mpi_of_int_def)

lemma mpi_ok_of_int [simp]: "mpi_ok (mpi_of_int z)"
  by (simp add: mpi_ok_def mpi_of_int_def)

lemma mpi_cmp_int_0: "mpi_ok X \<Longrightarrow> mpi_cmp_int X 0 = sgn (mval X)"
proof -
  assume "mpi_ok X"
  moreover have "scan_all (mpi_p (mpi_of_int 0)) (mpi_n (mpi_of_int 0)) = 0"
    by (simp add: mpi_of_int_def)
  ultimately show ?thesis
    using mval_of_int [of 0] by (simp add: mpi_cmp_int_def mpi_cmp_mpi_cases del: scan_all_0)
qed

end
