(* ===== verification/MpiAdd.thy ===== *)
theory MpiAdd
  imports MpiVal
begin

text \<open>
  Addition and subtraction of multi-precision integers compute the sum and the difference of
  the integers, in every aliasing of destination and operands but one; the case in which
  \<open>mpi_add_abs\<close> drops a carry is characterised.
\<close>

subsection \<open>Carries and borrows\<close>

lemma limb_add: "unat (a + b) + LB * of_bool (a + b < b) = unat a + unat (b :: t_int)"
proof (cases "unat a + unat b < LB")
  case True
  then have "unat (a + b) = unat a + unat b" by (simp add: unat_word_ariths LB_def)
  then show ?thesis by (simp add: word_nat)
next
  case False
  then have "unat (a + b) = unat a + unat b - LB"
    using limb_less [of a] limb_less [of b] by (simp add: unat_word_ariths LB_def mod_if)
  moreover from this have "a + b < b"
    using False limb_less [of a] unfolding word_less_nat_alt by linarith
  ultimately show ?thesis using False by simp
qed

lemma limb_sub: "unat (a - b) + unat b = unat a + LB * of_bool (a < (b :: t_int))"
proof (cases "a < b")
  case True
  then have "unat (a - b) = unat a + LB - unat b"
    by (simp add: unat_sub_if' word_less_nat_alt LB_def)
  then have "unat (a - b) + unat b = unat a + LB" using limb_less [of b] by linarith
  then show ?thesis using True by simp
next
  case False
  then show ?thesis by (simp add: unat_sub_if' word_less_nat_alt not_less)
qed

lemma limb_add2:
  fixes a b c :: t_int
  assumes "unat c \<le> 1"
  defines "a1 \<equiv> a + c"
  defines "a2 \<equiv> a1 + b"
  defines "c2 \<equiv> of_bool (a1 < c) + of_bool (a2 < b) :: t_int"
  shows "unat a2 + LB * unat c2 = unat a + unat b + unat c" and "unat c2 \<le> 1"
proof -
  have 1: "unat a1 + LB * of_bool (a1 < c) = unat a + unat c" unfolding a1_def by (rule limb_add)
  have 2: "unat a2 + LB * of_bool (a2 < b) = unat a1 + unat b" unfolding a2_def by (rule limb_add)
  have c2: "unat c2 = of_bool (a1 < c) + of_bool (a2 < b)"
    unfolding c2_def by (simp add: of_bool_def)
  show s: "unat a2 + LB * unat c2 = unat a + unat b + unat c"
    using 1 2 unfolding c2 by (simp add: of_bool_def split: if_splits)
  have "LB * unat c2 < LB * 2"
    using s assms(1) limb_less [of a] limb_less [of b] by linarith
  then show "unat c2 \<le> 1" by simp
qed

lemma limb_sub2:
  fixes a b c :: t_int
  assumes "unat c \<le> 1"
  defines "a1 \<equiv> a - c"
  defines "a2 \<equiv> a1 - b"
  defines "c2 \<equiv> of_bool (a1 < b) + of_bool (a < c) :: t_int"
  shows "unat a2 + unat b + unat c = unat a + LB * unat c2" and "unat c2 \<le> 1"
proof -
  have 1: "unat a1 + unat c = unat a + LB * of_bool (a < c)" unfolding a1_def by (rule limb_sub)
  have 2: "unat a2 + unat b = unat a1 + LB * of_bool (a1 < b)" unfolding a2_def by (rule limb_sub)
  have c2: "unat c2 = of_bool (a1 < b) + of_bool (a < c)"
    unfolding c2_def by (simp add: of_bool_def)
  show s: "unat a2 + unat b + unat c = unat a + LB * unat c2"
    using 1 2 unfolding c2 by (simp add: of_bool_def split: if_splits)
  have "LB * unat c2 < LB * 2"
    using s assms(1) limb_less [of a2] limb_less [of b] by linarith
  then show "unat c2 \<le> 1" by simp
qed

subsection \<open>Subtraction\<close>

lemma sub_limbs_ok:
  assumes "i \<le> n" "n \<le> length s" "n \<le> length d" "unat c \<le> 1"
  shows "\<exists>d' c'. sub_limbs n s d i c = Some (d', c') \<and> length d' = length d \<and> unat c' \<le> 1
    \<and> (\<forall>k. n \<le> k \<longrightarrow> k < length d \<longrightarrow> d' ! k = d ! k)
    \<and> nval d' + LB ^ i * unat c + nval (take n s) = nval d + LB ^ n * unat c' + nval (take i s)"
  using assms
proof (induction n s d i c rule: sub_limbs.induct)
  case (1 n s d i c)
  show ?case
  proof (cases "i < n")
    case False
    then show ?thesis using "1.prems" by (simp add: sub_limbs.simps)
  next
    case True
    define a where "a = d ! i - c - s ! i"
    define e :: t_int where "e = of_bool (d ! i - c < s ! i) + of_bool (d ! i < c)"
    have len: "i < length s" "i < length d" using True "1.prems" by simp_all
    have step: "sub_limbs n s d i c = sub_limbs n s (d[i := a]) (Suc i) e"
      using True len by (subst sub_limbs.simps) (simp add: a_def e_def)
    have e: "unat a + unat (s ! i) + unat c = unat (d ! i) + LB * unat e" "unat e \<le> 1"
      unfolding a_def e_def by (rule limb_sub2 [OF "1.prems"(4)])+
    have "\<exists>d' c'. sub_limbs n s (d[i := a]) (Suc i) e = Some (d', c') \<and> length d' = length (d[i := a])
      \<and> unat c' \<le> 1 \<and> (\<forall>k. n \<le> k \<longrightarrow> k < length (d[i := a]) \<longrightarrow> d' ! k = d[i := a] ! k)
      \<and> nval d' + LB ^ Suc i * unat e + nval (take n s)
        = nval (d[i := a]) + LB ^ n * unat c' + nval (take (Suc i) s)"
      using "1.IH" [OF True, of "of_bool (d ! i < c)" "d[i := d ! i - c]" e "d[i := a]"]
        len True "1.prems" e by (simp add: a_def e_def)
    then obtain d' c' where d': "sub_limbs n s (d[i := a]) (Suc i) e = Some (d', c')"
      "length d' = length d" "unat c' \<le> 1" "\<forall>k. n \<le> k \<longrightarrow> k < length d \<longrightarrow> d' ! k = d ! k"
      "nval d' + LB ^ Suc i * unat e + nval (take n s)
        = nval (d[i := a]) + LB ^ n * unat c' + nval (take (Suc i) s)"
      using True by (auto simp: nth_list_update)
    have "LB ^ i * unat a + LB ^ i * unat (s ! i) + LB ^ i * unat c
      = LB ^ i * unat (d ! i) + LB ^ Suc i * unat e"
      using arg_cong [OF e(1), of "(*) (LB ^ i)"] by (simp add: algebra_simps)
    with d'(5) nval_update [OF len(2), of a] nval_take_Suc [OF len(1)]
    have "nval d' + LB ^ i * unat c + nval (take n s) = nval d + LB ^ n * unat c' + nval (take i s)"
      by linarith
    with d' step show ?thesis by auto
  qed
qed

lemma nval_drop_step:
  "i < length d \<Longrightarrow> nval (drop i d) = unat (d ! i) + LB * nval (drop (Suc i) d)"
  by (simp flip: Cons_nth_drop_Suc)

lemma sub_borrow_ok:
  assumes "unat c \<le> nval (drop i d)" "unat c \<le> 1" "i \<le> length d"
  shows "\<exists>d'. sub_borrow d i c = Some d' \<and> length d' = length d
    \<and> nval d' + LB ^ i * unat c = nval d"
  using assms
proof (induction d i c rule: sub_borrow.induct)
  case (1 d i c)
  show ?case
  proof (cases "c = 0")
    case True
    then show ?thesis by (simp add: sub_borrow.simps)
  next
    case False
    then have c1: "c = 1" using "1.prems"(2) by (metis le_antisym One_nat_def Suc_leI unat_1 unat_gt_0 word_unat_eq_iff)
    have i: "i < length d" using "1.prems" c1 by (cases "i < length d") simp_all
    define z :: t_int where "z = of_bool (d ! i < c)"
    define e where "e = d[i := d ! i - c]"
    have step: "sub_borrow d i c = sub_borrow e (Suc i) z"
      using False i by (subst sub_borrow.simps) (simp add: e_def z_def)
    have z: "unat z = of_bool (d ! i < c)" by (simp add: z_def)
    have "unat z \<le> nval (drop (Suc i) e)"
    proof (cases "d ! i < c")
      case True
      then have "d ! i = 0" using c1 by (simp add: word_less_nat_alt unat_eq_0)
      then have "1 \<le> LB * nval (drop (Suc i) d)"
        using "1.prems"(1) c1 nval_drop_step [OF i] by simp
      then show ?thesis using True by (simp add: z e_def Suc_le_eq)
    qed (simp add: z)
    then obtain d' where d': "sub_borrow e (Suc i) z = Some d'" "length d' = length e"
      "nval d' + LB ^ Suc i * unat z = nval e"
      using "1.IH" [OF False i z_def e_def] i z by (auto simp: e_def of_bool_def split: if_splits)
    have "unat (d ! i - c) + unat c = unat (d ! i) + LB * unat z" unfolding z by (rule limb_sub)
    from arg_cong [OF this, of "(*) (LB ^ i)"]
    have "LB ^ i * unat (d ! i - c) + LB ^ i * unat c = LB ^ i * unat (d ! i) + LB ^ Suc i * unat z"
      by (simp add: algebra_simps)
    with d' nval_update [OF i, of "d ! i - c"] have "nval d' + LB ^ i * unat c = nval d"
      unfolding e_def by linarith
    with d' step show ?thesis by (simp add: e_def)
  qed
qed

lemma mpi_sub_hlp_ok:
  assumes "n \<le> length s" "n \<le> length d" "nval (take n s) \<le> nval d"
  shows "\<exists>d'. mpi_sub_hlp n s d = Some d' \<and> length d' = length d
    \<and> nval d' + nval (take n s) = nval d"
proof -
  from sub_limbs_ok [of 0 n s d 0] assms obtain d' c' where
    d': "sub_limbs n s d 0 0 = Some (d', c')" "length d' = length d" "unat c' \<le> 1"
    "nval d' + nval (take n s) = nval d + LB ^ n * unat c'" by auto
  have "unat c' \<le> nval (drop n d')"
  proof (rule ccontr)
    assume "\<not> unat c' \<le> nval (drop n d')"
    then have c: "unat c' = 1" "nval (drop n d') = 0" using d'(3) by linarith+
    then have "nval d' = nval (take n d')" using nval_take_drop [of n d'] assms d'(2) by simp
    then have "nval d' < LB ^ n" using nval_take_less [of n d'] by simp
    then show False using d'(4) c(1) assms(3) by simp
  qed
  from sub_borrow_ok [OF this d'(3)] assms d' obtain e where
    "sub_borrow d' n c' = Some e" "length e = length d'" "nval e + LB ^ n * unat c' = nval d'"
    by auto
  then show ?thesis using d' by (simp add: mpi_sub_hlp_def)
qed

text \<open>What an operation keeps of its destination: it never gives limbs back.\<close>

lemma gives_sub_abs:
  assumes "nval (mpi_p (opnd X B)) \<le> nval (mpi_p (opnd X A))"
  shows "gives al (mpi_sub_abs al X A B)
    (\<lambda>Y. mpi_s Y = mpi_s (opnd X A) \<and> mpi_n X \<le> mpi_n Y
       \<and> mpi_n Y \<le> max (mpi_n X) (mpi_n (opnd X A))
       \<and> nval (mpi_p Y) = nval (mpi_p (opnd X A)) - nval (mpi_p (opnd X B)))"
proof -
  let ?a = "nval (mpi_p (opnd X A))" and ?b = "nval (mpi_p (opnd X B))"
  have copyA: "gives al (if A \<noteq> This then mpi_copy al X A else ok X)
      (\<lambda>Y. mpi_s Y = mpi_s (opnd X A) \<and> mpi_n X \<le> mpi_n Y \<and> mpi_n Y \<le> max (mpi_n X) (mpi_n (opnd X A))
         \<and> nval (mpi_p Y) = ?a)"
  proof (cases A)
    case (That A')
    have "scan_pos (mpi_p A') (mpi_n A') \<le> mpi_n A'" by (rule scan_pos_le)
    then show ?thesis using That by (auto intro: gives_mono [OF gives_copy [of al X A']])
  qed simp
  have copyB: "gives al (if B = This then mpi_copy al mpi_init (That X) else ok (opnd X B))
      (\<lambda>TB. nval (mpi_p TB) = ?b)"
    by (cases B) (auto intro: gives_mono [OF gives_copy])
  have hlp: "gives al (let n = scan_all (mpi_p TB) (mpi_n TB)
       in case mpi_sub_hlp n (mpi_p TB) (mpi_p Y) of None \<Rightarrow> None | Some p \<Rightarrow> ok (Y\<lparr>mpi_p := p\<rparr>))
      (\<lambda>Z. mpi_s Z = mpi_s Y \<and> mpi_n Z = mpi_n Y \<and> nval (mpi_p Z) = ?a - ?b)"
    if "nval (mpi_p TB) = ?b" "nval (mpi_p Y) = ?a" for TB Y
  proof -
    let ?n = "scan_all (mpi_p TB) (mpi_n TB)"
    have "?n \<le> scan_all (mpi_p Y) (mpi_n Y)" using that assms by (intro scan_all_mono) simp
    then have "?n \<le> mpi_n Y" using scan_all_le le_trans by blast
    moreover have "?n \<le> mpi_n TB" by (rule scan_all_le)
    ultimately show ?thesis
      using mpi_sub_hlp_ok [of ?n "mpi_p TB" "mpi_p Y"] that assms by (auto simp: Let_def)
  qed
  have "\<not> mpi_cmp_abs (opnd X A) (opnd X B) < 0" using assms by simp
  then show ?thesis
    unfolding mpi_sub_abs_def
    by (simp only: if_False)
      (rule gives_chk [OF copyB], rule gives_chk [OF copyA], rule gives_mono [OF hlp], auto)
qed

subsection \<open>Addition\<close>

lemma add_limbs_ok:
  assumes "i \<le> m" "m \<le> length q" "m \<le> length p" "unat c \<le> 1"
  shows "\<exists>p' c'. add_limbs p (Some q) i m c = (p', c') \<and> length p' = length p \<and> unat c' \<le> 1
    \<and> (\<forall>k. m \<le> k \<longrightarrow> k < length p \<longrightarrow> p' ! k = p ! k)
    \<and> nval p' + LB ^ m * unat c' + nval (take i q) = nval p + LB ^ i * unat c + nval (take m q)"
  using assms
proof (induction "m - i" arbitrary: i p c)
  case 0
  then show ?case by (simp add: add_limbs.simps)
next
  case (Suc n)
  define a where "a = p ! i + c + q ! i"
  define e :: t_int where "e = of_bool (p ! i + c < c) + of_bool (p ! i + c + q ! i < q ! i)"
  have i: "i < m" "i < length q" "i < length p" using Suc.hyps(2) Suc.prems by simp_all
  have step: "add_limbs p (Some q) i m c = add_limbs (p[i := a]) (Some q) (Suc i) m e"
    using i by (subst add_limbs.simps) (simp add: a_def e_def)
  have e: "unat a + LB * unat e = unat (p ! i) + unat (q ! i) + unat c" "unat e \<le> 1"
    unfolding a_def e_def by (rule limb_add2 [OF Suc.prems(4)])+
  have "n = m - Suc i" using Suc.hyps(2) by linarith
  from Suc.hyps(1) [OF this, of "p[i := a]" e] Suc.prems e(2) i
  obtain p' c' where p': "add_limbs (p[i := a]) (Some q) (Suc i) m e = (p', c')"
    "length p' = length p" "unat c' \<le> 1" "\<forall>k. m \<le> k \<longrightarrow> k < length p \<longrightarrow> p' ! k = p ! k"
    "nval p' + LB ^ m * unat c' + nval (take (Suc i) q)
      = nval (p[i := a]) + LB ^ Suc i * unat e + nval (take m q)"
    by (auto simp: nth_list_update)
  have "LB ^ i * unat a + LB ^ Suc i * unat e
    = LB ^ i * unat (p ! i) + LB ^ i * unat (q ! i) + LB ^ i * unat c"
    using arg_cong [OF e(1), of "(*) (LB ^ i)"] by (simp add: algebra_simps)
  with p'(5) nval_update [OF i(3), of a] nval_take_Suc [OF i(2)]
  have "nval p' + LB ^ m * unat c' + nval (take i q) = nval p + LB ^ i * unat c + nval (take m q)"
    by linarith
  with p' step show ?case by auto
qed

lemma add_carry_0: "add_carry al X q i 0 = ok X"
  by (simp add: add_carry.simps)

lemma limb_succ_0: "(w :: t_int) + 1 = 0 \<longleftrightarrow> w = - 1"
  by (simp add: eq_neg_iff_add_eq_0)

lemma limb_succ_less: "(w :: t_int) + 1 < 1 \<longleftrightarrow> w = - 1"
  by (simp add: limb_succ_0)

lemma add_carry_in:
  assumes "i < mpi_n X" "q < mpi_n X"
  shows "add_carry al X q i 1 =
    add_carry al (X\<lparr>mpi_p := (mpi_p X)[q := mpi_p X ! q + 1]\<rparr>) q (Suc i)
      (of_bool (mpi_p X ! q = - 1))"
  using assms by (subst add_carry.simps) (simp add: limb_succ_0)

lemma add_carry_grow:
  "mpi_n X = i \<Longrightarrow> gives al (add_carry al X q i 1) (\<lambda>Y. Y = X\<lparr>mpi_p := mpi_p X @ [1]\<rparr>)"
  using gives_grow [of al X "Suc i"]
  by (subst add_carry.simps)
    (auto simp: gives_def add_carry_0 nth_append MPI_CHK_def split: option.splits sum.splits)

text \<open>
  The pointer is not advanced with the index: when the limb above \<open>B\<close> overflows too and the
  destination has another limb, the carry is added to the same limb again.
\<close>

definition stuck :: "mpi \<Rightarrow> nat \<Rightarrow> t_int \<Rightarrow> bool" where
  "stuck X i c \<longleftrightarrow> c \<noteq> 0 \<and> Suc i < mpi_n X \<and> mpi_p X ! i = - 1"

lemma gives_add_carry:
  assumes "unat c \<le> 1" and "i \<le> mpi_n X"
  shows "gives al (add_carry al X i i c)
    (\<lambda>Y. mpi_s Y = mpi_s X \<and> mpi_n X \<le> mpi_n Y \<and> mpi_n Y \<le> Suc (mpi_n X)
       \<and> nval (mpi_p Y) + (if stuck X i c then LB ^ Suc i - LB ^ i else 0)
         = nval (mpi_p X) + LB ^ i * unat c)"
proof (cases "c = 0")
  case True
  then show ?thesis by (simp add: add_carry_0 stuck_def)
next
  case False
  then have c: "c = 1"
    using assms(1) by (metis le_antisym One_nat_def Suc_leI unat_1 unat_gt_0 word_unat_eq_iff)
  show ?thesis
  proof (cases "i < mpi_n X")
    case False
    with assms(2) have n: "mpi_n X = i" by simp
    then show ?thesis unfolding c
      by (intro gives_mono [OF add_carry_grow [OF n]]) (simp add: nval_append stuck_def)
  next
    case i: True
    define Z where "Z = X\<lparr>mpi_p := (mpi_p X)[i := mpi_p X ! i + 1]\<rparr>"
    have step: "add_carry al X i i c = add_carry al Z i (Suc i) (of_bool (mpi_p X ! i = - 1))"
      unfolding c Z_def by (rule add_carry_in [OF i i])
    show ?thesis
    proof (cases "mpi_p X ! i = - 1")
      case False
      then have "unat (mpi_p X ! i + 1) = unat (mpi_p X ! i) + 1"
        using limb_add [of "mpi_p X ! i" 1] by (simp add: limb_succ_0)
      then have "nval (mpi_p Z) = nval (mpi_p X) + LB ^ i"
        using nval_update [OF i, of "mpi_p X ! i + 1"] by (simp add: Z_def)
      moreover have "add_carry al X i i c = ok Z" using False by (simp add: step add_carry_0)
      ultimately show ?thesis using False c by (simp add: stuck_def) (simp add: Z_def)
    next
      case True
      have "unat (mpi_p X ! i) = LB - 1" using True by (simp add: LB_def)
      then have "nval (mpi_p Z) + LB ^ i * (LB - 1) = nval (mpi_p X)"
        using nval_update [OF i, of "mpi_p X ! i + 1"] True by (simp add: Z_def)
      moreover have "LB ^ Suc i = LB ^ i * (LB - 1) + LB ^ i"
        using mult_Suc_right [of "LB ^ i" "LB - 1"] by (simp add: ac_simps)
      ultimately have Z: "nval (mpi_p Z) + LB ^ Suc i = nval (mpi_p X) + LB ^ i" by linarith
      show ?thesis
      proof (cases "Suc i < mpi_n X")
        case False
        with i have n: "mpi_n Z = Suc i" by (simp add: Z_def)
        have "add_carry al X i i c = add_carry al Z i (Suc i) 1" using step True by simp
        then show ?thesis
          using False Z c n by (simp only:) (rule gives_mono [OF add_carry_grow [OF n]],
            auto simp: nval_append stuck_def Z_def)
      next
        case more: True
        then have "add_carry al Z i (Suc i) 1
          = add_carry al (Z\<lparr>mpi_p := (mpi_p Z)[i := mpi_p Z ! i + 1]\<rparr>) i (Suc (Suc i)) 0"
          using add_carry_in [of "Suc i" Z i al] i True by (simp add: Z_def)
        then have r: "add_carry al X i i c = ok (Z\<lparr>mpi_p := (mpi_p Z)[i := mpi_p Z ! i + 1]\<rparr>)"
          using True by (simp add: step add_carry_0)
        have "nval ((mpi_p Z)[i := mpi_p Z ! i + 1]) = nval (mpi_p Z) + LB ^ i"
          using nval_update [of i "mpi_p Z" "mpi_p Z ! i + 1"] i True by (simp add: Z_def)
        moreover have "LB ^ i \<le> LB ^ Suc i" by (rule power_increasing) simp_all
        ultimately show ?thesis using r Z True more c by (simp add: stuck_def) (simp add: Z_def)
      qed
    qed
  qed
qed

definition carry_lost :: "nat \<Rightarrow> t_int list \<Rightarrow> t_int list \<Rightarrow> bool" where
  "carry_lost n a b \<longleftrightarrow>
    (let j = scan_all b (length b) in
     Suc j < n \<and> j < length a \<and> a ! j = - 1 \<and> LB ^ j \<le> nval (take j a) + nval b)"

definition missing :: "nat \<Rightarrow> t_int list \<Rightarrow> t_int list \<Rightarrow> nat" where
  "missing n a b =
    (if carry_lost n a b then (LB - 1) * LB ^ scan_all b (length b) else 0)"

lemma same_limbs_nval:
  assumes "length x = length y" "j \<le> length x" "\<And>k. j \<le> k \<Longrightarrow> k < length x \<Longrightarrow> x ! k = y ! k"
  shows "nval x + nval (take j y) = nval y + nval (take j x)"
proof -
  have "drop j x = drop j y" by (rule nth_equalityI) (use assms in simp_all)
  then show ?thesis using nval_take_drop [of j x] nval_take_drop [of j y] assms by simp
qed

text \<open>The addition proper, once the first operand is in the destination.\<close>

lemma gives_add_into:
  fixes b :: "t_int list"
  defines "j \<equiv> scan_all b (length b)"
  assumes limbs: "\<forall>k < mpi_n X. mpi_p X ! k = (if k < length a then a ! k else 0)"
    and val: "nval (mpi_p X) = nval a"
  shows "gives al
     (MPI_CHK (mpi_grow al X j) (\<lambda>X.
      let (p, c) = add_limbs (mpi_p X) (Some b) 0 j 0 in add_carry al (X\<lparr>mpi_p := p\<rparr>) j j c))
     (\<lambda>Y. mpi_s Y = mpi_s X \<and> mpi_n X \<le> mpi_n Y
        \<and> nval (mpi_p Y) + missing (mpi_n X) a b = nval a + nval b)"
proof (rule gives_chk [OF gives_grow], elim ssubst, goal_cases)
  case 1
  define p where "p = mpi_p X @ replicate (j - mpi_n X) 0"
  have jb: "j \<le> length b" unfolding j_def by (rule scan_all_le)
  have jp: "j \<le> length p" and np: "nval p = nval a" by (simp_all add: p_def nval_append val)
  from add_limbs_ok [of 0 j b p 0] jb jp obtain p' c where
    p': "add_limbs p (Some b) 0 j 0 = (p', c)" "length p' = length p" "unat c \<le> 1"
    "\<forall>k. j \<le> k \<longrightarrow> k < length p \<longrightarrow> p' ! k = p ! k"
    "nval p' + LB ^ j * unat c = nval p + nval (take j b)" by auto
  have val': "nval p' + LB ^ j * unat c = nval a + nval b"
    using p'(5) np scan_all_nval [of b] by (simp add: j_def)
  have low: "nval (take j p') + LB ^ j * unat c = nval (take j p) + nval b"
    using same_limbs_nval [of p' p j] p'(2,4) jp val' np by auto
  have carry: "c \<noteq> 0 \<longleftrightarrow> LB ^ j \<le> nval (take j p) + nval b"
  proof
    assume "c \<noteq> 0"
    then have "1 \<le> unat c" by (simp add: Suc_le_eq unat_gt_0)
    then have "LB ^ j * 1 \<le> LB ^ j * unat c" by (rule mult_left_mono) simp
    with low show "LB ^ j \<le> nval (take j p) + nval b" by linarith
  next
    assume "LB ^ j \<le> nval (take j p) + nval b"
    with low nval_take_less [of j p'] show "c \<noteq> 0" by (cases "c = 0") simp_all
  qed
  have lim: "p ! k = (if k < length a then a ! k else 0)" if "k < mpi_n X" for k
    using that limbs by (simp add: p_def nth_append)
  have "stuck (X\<lparr>mpi_p := p'\<rparr>) j c \<longleftrightarrow> carry_lost (mpi_n X) a b"
  proof (cases "Suc j < mpi_n X")
    case True
    have "nval (take j p) = nval (take j a)" if "j < length a"
    proof -
      have "take j p = take j a" by (rule nth_equalityI) (use that lim True jp in simp_all)
      then show ?thesis by simp
    qed
    then show ?thesis
      using carry lim [of j] p'(2,4) True jp
      by (auto simp: stuck_def carry_lost_def j_def [symmetric] p_def Let_def split: if_splits)
  next
    case False
    then show ?thesis
      using p'(2) by (auto simp: stuck_def carry_lost_def j_def [symmetric] p_def)
  qed
  moreover have "LB ^ Suc j - LB ^ j = (LB - 1) * LB ^ j" by (simp add: diff_mult_distrib)
  ultimately have "gives al (add_carry al (X\<lparr>mpi_p := p'\<rparr>) j j c)
    (\<lambda>Y. mpi_s Y = mpi_s X \<and> mpi_n X \<le> mpi_n Y
       \<and> nval (mpi_p Y) + missing (mpi_n X) a b = nval a + nval b)"
    using val' p'(2) jp
    by (intro gives_mono [OF gives_add_carry [OF p'(3)]])
      (auto simp: missing_def j_def [symmetric] p_def)
  then show ?case using p'(1) by (simp add: p_def)
qed

text \<open>The operands in the order in which \<open>mpi_add_abs\<close> takes them, and the limbs the
  destination has before the addition.\<close>

definition add_order :: "operand \<Rightarrow> operand \<Rightarrow> operand \<times> operand" where
  "add_order A B = (if B = This then (This, A) else (A, B))"

definition dest_limbs :: "mpi \<Rightarrow> operand \<Rightarrow> nat" where
  "dest_limbs X A =
    (case A of This \<Rightarrow> mpi_n X | That A \<Rightarrow> max (mpi_n X) (scan_pos (mpi_p A) (mpi_n A)))"

definition add_missing :: "mpi \<Rightarrow> operand \<Rightarrow> operand \<Rightarrow> nat" where
  "add_missing X A B =
    (let (A, B) = add_order A B
     in missing (dest_limbs X A) (mpi_p (opnd X A)) (mpi_p (opnd X B)))"

lemma gives_add_abs:
  assumes "A \<noteq> This \<or> B \<noteq> This"
  shows "gives al (mpi_add_abs al X A B)
    (\<lambda>Y. mpi_n X \<le> mpi_n Y \<and> nval (mpi_p Y) + add_missing X A B
       = nval (mpi_p (opnd X A)) + nval (mpi_p (opnd X B)))"
proof -
  obtain A' B' where o: "add_order A B = (A', That B')"
    using assms by (cases A; cases B) (simp_all add: add_order_def)
  have sum: "nval (mpi_p (opnd X A)) + nval (mpi_p (opnd X B))
      = nval (mpi_p (opnd X A')) + nval (mpi_p B')"
    using o assms by (auto simp: add_order_def split: if_splits)
  have copy: "gives al (if A' \<noteq> This then mpi_copy al X A' else ok X)
      (\<lambda>Y. mpi_n Y = dest_limbs X A' \<and> nval (mpi_p Y) = nval (mpi_p (opnd X A'))
         \<and> (\<forall>k < mpi_n Y. mpi_p Y ! k = (if k < mpi_n (opnd X A') then mpi_p (opnd X A') ! k else 0)))"
    by (cases A') (auto simp: dest_limbs_def intro: gives_mono [OF gives_copy])
  have n: "mpi_n X \<le> dest_limbs X A'" by (auto simp: dest_limbs_def split: operand.splits)
  show ?thesis
    unfolding mpi_add_abs_def add_order_def [symmetric] o sum add_missing_def Let_def prod.case
      opnd.simps operand.case
    by (rule gives_chk [OF copy], rule gives_mono [OF gives_add_into [unfolded Let_def]])
      (use n in auto)
qed

subsection \<open>Signed addition and subtraction\<close>

lemma mpi_okE: "mpi_ok X \<Longrightarrow> (mpi_s X = 1 \<Longrightarrow> P) \<Longrightarrow> (mpi_s X = - 1 \<Longrightarrow> P) \<Longrightarrow> P"
  by (auto simp: mpi_ok_def)

lemma mpi_ok_mult: "mpi_ok X \<Longrightarrow> mpi_ok Y \<Longrightarrow>
    (mpi_s X * mpi_s Y < 0 \<longleftrightarrow> mpi_s Y = - mpi_s X) \<and> (mpi_s X * mpi_s Y > 0 \<longleftrightarrow> mpi_s Y = mpi_s X)"
  by (auto simp: mpi_ok_def)

text \<open>
  Signed addition, exactly: when the signs differ it is right, and when they agree it misses
  what \<open>mpi_add_abs\<close> drops.
\<close>

lemma gives_add_mpi:
  assumes "mpi_ok (opnd X A)" "mpi_ok (opnd X B)" "A \<noteq> This \<or> B \<noteq> This"
  shows "gives al (mpi_add_mpi al X A B)
    (\<lambda>Y. mpi_ok Y \<and> mpi_n X \<le> mpi_n Y \<and> mval Y =
       mval (opnd X A) + mval (opnd X B)
       - (if mpi_s (opnd X A) = mpi_s (opnd X B)
          then mpi_s (opnd X A) * int (add_missing X A B) else 0))"
proof -
  let ?a = "nval (mpi_p (opnd X A))" and ?b = "nval (mpi_p (opnd X B))" and ?s = "mpi_s (opnd X A)"
  consider "?s = mpi_s (opnd X B)" | "mpi_s (opnd X B) = - ?s" "?b \<le> ?a"
    | "mpi_s (opnd X B) = - ?s" "?a < ?b"
    using assms le_less_linear [of ?b ?a] by (metis mpi_ok_def minus_minus)
  then show ?thesis
  proof cases
    case 1
    then have "\<not> ?s * mpi_s (opnd X B) < 0" using assms by (auto simp: mpi_ok_def)
    then show ?thesis
      unfolding mpi_add_mpi_def Let_def
      by (simp only: if_False)
        (rule gives_chk [OF gives_add_abs [OF assms(3)]],
          use 1 assms in \<open>auto simp: mval_def mpi_ok_def algebra_simps\<close>)
  next
    case 2
    then have "?s * mpi_s (opnd X B) < 0" using assms by (auto simp: mpi_ok_def)
    then show ?thesis
      unfolding mpi_add_mpi_def Let_def mpi_cmp_abs_ge
      by (simp only: if_True 2(2))
        (rule gives_chk [OF gives_sub_abs [OF 2(2)]],
          use 2 assms in \<open>auto simp: mval_def mpi_ok_def of_nat_diff\<close>)
  next
    case 3
    then have "?s * mpi_s (opnd X B) < 0" using assms by (auto simp: mpi_ok_def)
    moreover have "\<not> ?b \<le> ?a" using 3 by simp
    ultimately show ?thesis
      unfolding mpi_add_mpi_def Let_def mpi_cmp_abs_ge
      by (simp only: if_True if_False)
        (rule gives_chk [OF gives_sub_abs], use 3 assms in simp,
          use 3 assms in \<open>auto simp: mval_def mpi_ok_def of_nat_diff\<close>)
  qed
qed

lemma gives_sub_mpi:
  assumes "mpi_ok (opnd X A)" "mpi_ok (opnd X B)" "A \<noteq> This \<or> B \<noteq> This"
  shows "gives al (mpi_sub_mpi al X A B)
    (\<lambda>Y. mpi_ok Y \<and> mpi_n X \<le> mpi_n Y \<and> mval Y =
       mval (opnd X A) - mval (opnd X B)
       - (if mpi_s (opnd X A) = mpi_s (opnd X B) then 0
          else mpi_s (opnd X A) * int (add_missing X A B)))"
proof -
  let ?a = "nval (mpi_p (opnd X A))" and ?b = "nval (mpi_p (opnd X B))" and ?s = "mpi_s (opnd X A)"
  consider "mpi_s (opnd X B) = - ?s" | "mpi_s (opnd X B) = ?s" "?b \<le> ?a"
    | "mpi_s (opnd X B) = ?s" "?a < ?b"
    using assms le_less_linear [of ?b ?a] by (metis mpi_ok_def minus_minus)
  then show ?thesis
  proof cases
    case 1
    then have "\<not> ?s * mpi_s (opnd X B) > 0" using assms by (auto simp: mpi_ok_def)
    then show ?thesis
      unfolding mpi_sub_mpi_def Let_def
      by (simp only: if_False)
        (rule gives_chk [OF gives_add_abs [OF assms(3)]],
          use 1 assms in \<open>auto simp: mval_def mpi_ok_def algebra_simps\<close>)
  next
    case 2
    then have "?s * mpi_s (opnd X B) > 0" using assms by (auto simp: mpi_ok_def)
    then show ?thesis
      unfolding mpi_sub_mpi_def Let_def mpi_cmp_abs_ge
      by (simp only: if_True 2(2))
        (rule gives_chk [OF gives_sub_abs [OF 2(2)]],
          use 2 assms in \<open>auto simp: mval_def mpi_ok_def of_nat_diff\<close>)
  next
    case 3
    then have "?s * mpi_s (opnd X B) > 0" using assms by (auto simp: mpi_ok_def)
    moreover have "\<not> ?b \<le> ?a" using 3 by simp
    ultimately show ?thesis
      unfolding mpi_sub_mpi_def Let_def mpi_cmp_abs_ge
      by (simp only: if_True if_False)
        (rule gives_chk [OF gives_sub_abs], use 3 assms in simp,
          use 3 assms in \<open>auto simp: mval_def mpi_ok_def of_nat_diff\<close>)
  qed
qed

end
