(* ===== verification/MpiMul.thy ===== *)
theory MpiMul
  imports MpiAdd
begin

text \<open>
  Multiplication of multi-precision integers: the multiply-and-add steps of
  \<open>src/common/crypto/bignum_mul.h\<close> in the i386 build, one limb at a time and eight limbs at a
  time with the 64-bit media registers, the helper that runs them over a vector, and
  \<open>mpi_mul_mpi\<close> and \<open>mpi_mul_int\<close>.
\<close>

definition MULADDC_CORE :: "t_int \<Rightarrow> t_int \<Rightarrow> t_int \<Rightarrow> t_int \<Rightarrow> t_int \<times> t_int" where
  "MULADDC_CORE b s d c =
    (let r = ucast s * ucast b :: t_dbl;
         eax = ucast r; edx = ucast (drop_bit 32 r);
         eax = eax + c; edx = edx + of_bool (eax < c);
         eax = eax + d; edx = edx + of_bool (eax < d)
     in (eax, edx))"

definition MULADDC_HUIT ::
  "t_int \<Rightarrow> t_int list \<Rightarrow> nat \<Rightarrow> t_int list \<Rightarrow> nat \<Rightarrow> t_int \<Rightarrow> t_int list \<times> t_int" where
  "MULADDC_HUIT b s esi d edi c =
    (let mm1 = ucast c :: t_dbl;
         mm0 = ucast b;
         mm3 = ucast (d ! edi);
         mm1 = mm1 + mm3;
         mm2 = ucast (s ! esi) * mm0;
         mm4 = ucast (s ! (esi + 1)) * mm0;
         mm6 = ucast (s ! (esi + 2)) * mm0;
         mm7 = ucast (s ! (esi + 3)) * mm0;
         mm1 = mm1 + mm2;
         mm3 = ucast (d ! (edi + 1)) + mm4;
         mm5 = ucast (d ! (edi + 2)) + mm6;
         mm4 = ucast (d ! (edi + 3));
         mm7 = mm7 + mm4;
         d = d[edi := ucast mm1];
         mm2 = ucast (s ! (esi + 4)) * mm0;
         mm1 = drop_bit 32 mm1;
         mm4 = ucast (s ! (esi + 5)) * mm0;
         mm1 = mm1 + mm3;
         mm6 = ucast (s ! (esi + 6)) * mm0;
         d = d[edi + 1 := ucast mm1];
         mm1 = drop_bit 32 mm1;
         mm3 = ucast (s ! (esi + 7)) * mm0;
         mm1 = mm1 + mm5;
         mm5 = ucast (d ! (edi + 4));
         mm2 = mm2 + mm5;
         d = d[edi + 2 := ucast mm1];
         mm1 = drop_bit 32 mm1;
         mm1 = mm1 + mm7;
         mm5 = ucast (d ! (edi + 5));
         mm4 = mm4 + mm5;
         d = d[edi + 3 := ucast mm1];
         mm1 = drop_bit 32 mm1;
         mm1 = mm1 + mm2;
         mm5 = ucast (d ! (edi + 6));
         mm6 = mm6 + mm5;
         d = d[edi + 4 := ucast mm1];
         mm1 = drop_bit 32 mm1;
         mm1 = mm1 + mm4;
         mm5 = ucast (d ! (edi + 7));
         mm3 = mm3 + mm5;
         d = d[edi + 5 := ucast mm1];
         mm1 = drop_bit 32 mm1;
         mm1 = mm1 + mm6;
         d = d[edi + 6 := ucast mm1];
         mm1 = drop_bit 32 mm1;
         mm1 = mm1 + mm3;
         d = d[edi + 7 := ucast mm1];
         mm1 = drop_bit 32 mm1
     in (d, ucast mm1))"

text \<open>The two loops over the \<open>i\<close> limbs of \<open>s\<close> from \<open>si\<close>, into \<open>d\<close> from \<open>di\<close>.\<close>

fun mul_ones ::
  "nat \<Rightarrow> t_int list \<Rightarrow> nat \<Rightarrow> t_int list \<Rightarrow> nat \<Rightarrow> t_int \<Rightarrow> t_int \<Rightarrow> (t_int list \<times> t_int) option" where
  "mul_ones 0 s si d di b c = Some (d, c)"
| "mul_ones (Suc i) s si d di b c =
    (if si < length s \<and> di < length d
     then let (v, c) = MULADDC_CORE b (s ! si) (d ! di) c
          in mul_ones i s (Suc si) (d[di := v]) (Suc di) b c
     else None)"

function mul_steps ::
  "nat \<Rightarrow> t_int list \<Rightarrow> nat \<Rightarrow> t_int list \<Rightarrow> nat \<Rightarrow> t_int \<Rightarrow> t_int \<Rightarrow> (t_int list \<times> t_int) option" where
  "mul_steps i s si d di b c =
    (if i \<ge> 8
     then if si + 8 \<le> length s \<and> di + 8 \<le> length d
          then let (d, c) = MULADDC_HUIT b s si d di c
               in mul_steps (i - 8) s (si + 8) d (di + 8) b c
          else None
     else mul_ones i s si d di b c)"
  by pat_completeness auto
termination by (relation "measure (\<lambda>(i, _). i)") auto

declare mul_steps.simps [simp del]

text \<open>The loop that adds the last carry, which runs at least once.\<close>

function mul_carry :: "t_int list \<Rightarrow> nat \<Rightarrow> t_int \<Rightarrow> t_int list option" where
  "mul_carry d di c =
    (if di < length d
     then let d = d[di := d ! di + c]; c = of_bool (d ! di < c)
          in if c \<noteq> 0 then mul_carry d (Suc di) c else Some d
     else None)"
  by pat_completeness auto
termination by (relation "measure (\<lambda>(d, di, c). length d - di)") auto

declare mul_carry.simps [simp del]

definition mpi_mul_hlp ::
  "nat \<Rightarrow> t_int list \<Rightarrow> t_int list \<Rightarrow> nat \<Rightarrow> t_int \<Rightarrow> t_int list option" where
  "mpi_mul_hlp i s d di b =
    (case mul_steps i s 0 d di b 0 of None \<Rightarrow> None | Some (d, c) \<Rightarrow> mul_carry d (di + i) c)"

fun mul_loop :: "nat \<Rightarrow> t_int list \<Rightarrow> t_int list \<Rightarrow> t_int list \<Rightarrow> nat \<Rightarrow> t_int list option" where
  "mul_loop i a b p 0 = Some p"
| "mul_loop i a b p (Suc j) =
    (case mpi_mul_hlp i a p j (b ! j) of None \<Rightarrow> None | Some p \<Rightarrow> mul_loop i a b p j)"

definition mpi_mul_mpi :: "(nat \<Rightarrow> bool) \<Rightarrow> mpi \<Rightarrow> operand \<Rightarrow> operand \<Rightarrow> mpi mres" where
  "mpi_mul_mpi al X A B =
    MPI_CHK (if A = This then mpi_copy al mpi_init (That X) else ok (opnd X A)) (\<lambda>A.
    MPI_CHK (if B = This then mpi_copy al mpi_init (That X) else ok (opnd X B)) (\<lambda>B.
    let i = scan_all (mpi_p A) (mpi_n A); j = scan_all (mpi_p B) (mpi_n B) in
    MPI_CHK (mpi_grow al X (i + j)) (\<lambda>X.
    MPI_CHK (mpi_lset al X 0) (\<lambda>X.
    case mul_loop i (mpi_p A) (mpi_p B) (mpi_p X) j of
      None \<Rightarrow> None
    | Some p \<Rightarrow> ok (X\<lparr>mpi_p := p, mpi_s := mpi_s A * mpi_s B\<rparr>)))))"

definition mpi_mul_int :: "(nat \<Rightarrow> bool) \<Rightarrow> mpi \<Rightarrow> operand \<Rightarrow> t_int \<Rightarrow> mpi mres" where
  "mpi_mul_int al X A b = mpi_mul_mpi al X A (That \<lparr>mpi_s = 1, mpi_p = [b]\<rparr>)"

subsection \<open>The multiply-and-add step\<close>

lemma unat_limb_dbl [simp]: "unat (ucast (w :: t_int) :: t_dbl) = unat w"
  using unat_less_exp [of w] by (simp add: unsigned_ucast_eq take_bit_nat_eq_self)

lemma unat_dbl_limb [simp]: "unat (ucast (r :: t_dbl) :: t_int) = unat r mod LB"
  by (simp add: unsigned_ucast_eq take_bit_eq_mod LB_def)

lemma unat_dbl_high [simp]: "unat (drop_bit 32 (r :: t_dbl)) = unat r div LB"
  by (simp add: unat_drop_bit LB_def)

lemma dbl_div_less: "unat (r :: t_dbl) div LB < LB"
  using unat_less_exp [of r] by (simp add: LB_def less_mult_imp_div_less)

lemma unat_prod_dbl: "unat (ucast (s :: t_int) * ucast (b :: t_int) :: t_dbl) = unat s * unat b"
proof -
  have "unat s * unat b < 2 ^ 32 * 2 ^ 32"
    using unat_less_exp [of s] unat_less_exp [of b] by (intro mult_strict_mono) simp_all
  then show ?thesis by (simp add: unat_word_ariths)
qed

lemma limb_mac_bound:
  "unat (s :: t_int) * unat (b :: t_int) + unat (c :: t_int) + unat (d :: t_int) < LB * LB"
proof -
  have "unat s * unat b \<le> (LB - 1) * (LB - 1)" by (intro mult_mono limb_le) simp_all
  moreover have "(LB - 1) * (LB - 1) + (LB - 1) + (LB - 1) < LB * LB" by (simp add: LB_def)
  ultimately show ?thesis using limb_le [of c] limb_le [of d] by linarith
qed

lemma MULADDC_CORE_ok:
  assumes "MULADDC_CORE b s d c = (v, c')"
  shows "unat v + LB * unat c' = unat d + unat s * unat b + unat c"
proof -
  define r :: t_dbl where "r = ucast s * ucast b"
  define e0 e1 e2 :: t_int where "e0 = ucast r" and "e1 = e0 + c" and "e2 = e1 + d"
  define h :: t_int where "h = ucast (drop_bit 32 r)"
  have r: "unat r = unat s * unat b" unfolding r_def by (rule unat_prod_dbl)
  have hr: "unat e0 + LB * unat h = unat s * unat b"
    unfolding r [symmetric] e0_def h_def
    using dbl_div_less [of r] by simp
  have v: "v = e2" and c': "c' = h + of_bool (e1 < c) + of_bool (e2 < d)"
    using assms
    unfolding MULADDC_CORE_def Let_def e0_def e1_def e2_def h_def r_def by (auto simp only: prod.inject)
  have 1: "unat e1 + LB * of_bool (e1 < c) = unat e0 + unat c" unfolding e1_def by (rule limb_add)
  have 2: "unat e2 + LB * of_bool (e2 < d) = unat e1 + unat d" unfolding e2_def by (rule limb_add)
  have tot: "unat e2 + LB * (unat h + of_bool (e1 < c) + of_bool (e2 < d))
      = unat d + unat s * unat b + unat c"
    using 1 2 hr by (simp add: algebra_simps)
  have "LB * (unat h + of_bool (e1 < c) + of_bool (e2 < d)) < LB * LB"
    using tot limb_mac_bound [of s b c d] by linarith
  then have "unat c' = unat h + of_bool (e1 < c) + of_bool (e2 < d)"
    unfolding c' by (simp add: unat_word_ariths of_bool_def LB_def split: if_splits)
  with tot v show ?thesis by simp
qed

lemma MULADDC_CORE_dbl:
  defines "m b s d c \<equiv> ucast c + (ucast d + ucast s * ucast b) :: t_dbl"
  shows "MULADDC_CORE b s d c = (ucast (m b s d c), ucast (drop_bit 32 (m b s d c)))"
proof -
  obtain v c' where vc: "MULADDC_CORE b s d c = (v, c')" by fastforce
  have "unat d + unat s * unat b + unat c < 2 ^ 64"
    using limb_mac_bound [of s b c d] by (simp add: LB_def)
  then have "unat (m b s d c) = unat d + unat s * unat b + unat c"
    by (simp add: m_def unat_word_ariths)
  then have "unat (m b s d c) = unat v + LB * unat c'" using MULADDC_CORE_ok [OF vc] by simp
  then have "unat v = unat (m b s d c) mod LB" "unat c' = unat (m b s d c) div LB" by simp_all
  then have "v = ucast (m b s d c)" "c' = ucast (drop_bit 32 (m b s d c))"
    using dbl_div_less [of "m b s d c"] by (simp_all add: word_unat_eq_iff)
  then show ?thesis by (simp add: vc)
qed

lemma dbl_high_limb [simp]:
  "ucast (ucast (drop_bit 32 (r :: t_dbl)) :: t_int) = drop_bit 32 (r :: t_dbl)"
  using dbl_div_less [of r] by (simp add: word_unat_eq_iff)

lemma mul_ones_8:
  assumes "si + 8 \<le> length s" "di + 8 \<le> length d"
    and "MULADDC_CORE b (s ! si) (d ! di) c = (va, ca)"
    and "MULADDC_CORE b (s ! (si + 1)) (d ! (di + 1)) ca = (vb, cb)"
    and "MULADDC_CORE b (s ! (si + 2)) (d ! (di + 2)) cb = (vc, cc)"
    and "MULADDC_CORE b (s ! (si + 3)) (d ! (di + 3)) cc = (vd, cd)"
    and "MULADDC_CORE b (s ! (si + 4)) (d ! (di + 4)) cd = (ve, ce)"
    and "MULADDC_CORE b (s ! (si + 5)) (d ! (di + 5)) ce = (vf, cf)"
    and "MULADDC_CORE b (s ! (si + 6)) (d ! (di + 6)) cf = (vg, cg)"
    and "MULADDC_CORE b (s ! (si + 7)) (d ! (di + 7)) cg = (vh, ch)"
  shows "mul_ones 8 s si d di b c = Some (d[di := va, di + 1 := vb, di + 2 := vc, di + 3 := vd, di + 4 := ve, di + 5 := vf, di + 6 := vg, di + 7 := vh], ch)"
  using assms by (simp add: eval_nat_numeral)

text \<open>The eight-limb step is eight one-limb steps.\<close>

lemma MULADDC_HUIT_steps:
  assumes "si + 8 \<le> length s" "di + 8 \<le> length d"
  shows "mul_ones 8 s si d di b c = Some (MULADDC_HUIT b s si d di c)"
proof -
  define m0 :: t_dbl where "m0 = ucast c + ucast (d ! di) + ucast (s ! si) * ucast b"
  define m1 where "m1 = drop_bit 32 m0 + (ucast (d ! (di + 1)) + ucast (s ! (si + 1)) * ucast b)"
  define m2 where "m2 = drop_bit 32 m1 + (ucast (d ! (di + 2)) + ucast (s ! (si + 2)) * ucast b)"
  define m3 where "m3 = drop_bit 32 m2 + (ucast (d ! (di + 3)) + ucast (s ! (si + 3)) * ucast b)"
  define m4 where "m4 = drop_bit 32 m3 + (ucast (d ! (di + 4)) + ucast (s ! (si + 4)) * ucast b)"
  define m5 where "m5 = drop_bit 32 m4 + (ucast (d ! (di + 5)) + ucast (s ! (si + 5)) * ucast b)"
  define m6 where "m6 = drop_bit 32 m5 + (ucast (d ! (di + 6)) + ucast (s ! (si + 6)) * ucast b)"
  define m7 where "m7 = drop_bit 32 m6 + (ucast (d ! (di + 7)) + ucast (s ! (si + 7)) * ucast b)"
  have "mul_ones 8 s si d di b c = Some (d[di := ucast m0, di + 1 := ucast m1, di + 2 := ucast m2, di + 3 := ucast m3, di + 4 := ucast m4, di + 5 := ucast m5, di + 6 := ucast m6, di + 7 := ucast m7],
      ucast (drop_bit 32 m7))"
    by (rule mul_ones_8 [OF assms, where ca = "ucast (drop_bit 32 m0)" and cb = "ucast (drop_bit 32 m1)" and cc = "ucast (drop_bit 32 m2)"
        and cd = "ucast (drop_bit 32 m3)" and ce = "ucast (drop_bit 32 m4)" and cf = "ucast (drop_bit 32 m5)" and cg = "ucast (drop_bit 32 m6)"])
      (simp_all add: MULADDC_CORE_dbl add.assoc m0_def m1_def m2_def m3_def m4_def m5_def m6_def m7_def)
  moreover have "MULADDC_HUIT b s si d di c = (d[di := ucast m0, di + 1 := ucast m1, di + 2 := ucast m2, di + 3 := ucast m3, di + 4 := ucast m4, di + 5 := ucast m5, di + 6 := ucast m6, di + 7 := ucast m7],
      ucast (drop_bit 32 m7))"
    unfolding MULADDC_HUIT_def using assms(2)
    by (simp add: Let_def add.commute [of "ucast (s ! _) * _"]
      m0_def m1_def m2_def m3_def m4_def m5_def m6_def m7_def)
  ultimately show ?thesis by simp
qed

subsection \<open>The helper\<close>

lemma mul_ones_add:
  "mul_ones (i + k) s si d di b c =
    (case mul_ones i s si d di b c of
       None \<Rightarrow> None | Some (d, c) \<Rightarrow> mul_ones k s (si + i) d (di + i) b c)"
  by (induction i arbitrary: si d di c) (auto split: prod.splits cong: option.case_cong)

lemma mul_ones_fails: "0 < i \<Longrightarrow> length s < si + i \<or> length d < di + i \<Longrightarrow> mul_ones i s si d di b c = None"
proof (induction i arbitrary: si d di c)
  case (Suc i)
  show ?case
  proof (cases "si < length s \<and> di < length d")
    case True
    obtain v e where ve: "MULADDC_CORE b (s ! si) (d ! di) c = (v, e)" by fastforce
    from True Suc.prems have "0 < i" by (cases i) auto
    then show ?thesis using Suc.IH [of "Suc si" "d[di := v]" "Suc di" e] Suc.prems True
      by (simp add: ve)
  qed auto
qed simp

text \<open>The loop that takes eight limbs at a time does what the one-limb loop does.\<close>

lemma mul_steps_ones: "mul_steps i s si d di b c = mul_ones i s si d di b c"
proof (induction i arbitrary: si d di c rule: less_induct)
  case (less i)
  show ?case
  proof (cases "8 \<le> i")
    case True
    then have i: "i = 8 + (i - 8)" by simp
    show ?thesis
    proof (cases "si + 8 \<le> length s \<and> di + 8 \<le> length d")
      case fits: True
      then have "mul_ones i s si d di b c = (case MULADDC_HUIT b s si d di c of
          (d, c) \<Rightarrow> mul_ones (i - 8) s (si + 8) d (di + 8) b c)"
        using mul_ones_add [of 8 "i - 8" s si d di b c] i by (simp add: MULADDC_HUIT_steps)
      then show ?thesis
        using True fits less by (subst mul_steps.simps) (simp split: prod.splits)
    next
      case False
      then have "mul_ones i s si d di b c = None" using True by (intro mul_ones_fails) auto
      then show ?thesis using True False by (subst mul_steps.simps) auto
    qed
  qed (simp add: mul_steps.simps)
qed

lemma mul_ones_ok:
  assumes "si + i \<le> length s" "di + i \<le> length d"
  shows "\<exists>d' c'. mul_ones i s si d di b c = Some (d', c') \<and> length d' = length d
    \<and> nval d' + LB ^ (di + i) * unat c'
      = nval d + LB ^ di * (nval (take i (drop si s)) * unat b + unat c)"
  using assms
proof (induction i arbitrary: si d di c)
  case (Suc i)
  obtain v e where ve: "MULADDC_CORE b (s ! si) (d ! di) c = (v, e)" by fastforce
  have si: "si < length s" and di: "di < length d" using Suc.prems by simp_all
  from Suc.IH [of "Suc si" "Suc di" "d[di := v]" e] Suc.prems obtain d' c' where
    d': "mul_ones i s (Suc si) (d[di := v]) (Suc di) b e = Some (d', c')" "length d' = length d"
    "nval d' + LB ^ (di + Suc i) * unat c' = nval (d[di := v])
      + LB ^ Suc di * (nval (take i (drop (Suc si) s)) * unat b + unat e)" by auto
  let ?t = "nval (take i (drop (Suc si) s))"
  have t: "nval (take (Suc i) (drop si s)) = unat (s ! si) + LB * ?t"
    using si by (simp flip: Cons_nth_drop_Suc)
  have "LB ^ di * (unat v + LB * unat e) = LB ^ di * (unat (d ! di) + unat (s ! si) * unat b + unat c)"
    using MULADDC_CORE_ok [OF ve] by simp
  with d'(3) nval_update [OF di, of v]
  have "nval d' + LB ^ (di + Suc i) * unat c' = nval d
      + LB ^ di * ((unat (s ! si) + LB * ?t) * unat b + unat c)"
    by (simp add: algebra_simps)
  with d' si di ve t show ?case by simp
qed simp

lemma mul_carry_ok:
  assumes "di < length d" "nval d + LB ^ di * unat c < LB ^ length d"
  shows "\<exists>d'. mul_carry d di c = Some d' \<and> length d' = length d
    \<and> nval d' = nval d + LB ^ di * unat c"
  using assms
proof (induction "length d - di" arbitrary: d di c)
  case (Suc n)
  define v where "v = d ! di + c"
  define e :: t_int where "e = of_bool (v < c)"
  have v: "unat v + LB * unat e = unat (d ! di) + unat c"
    unfolding v_def e_def using limb_add [of "d ! di" c] by (simp add: of_bool_def split: if_splits)
  have u: "nval (d[di := v]) + LB ^ Suc di * unat e = nval d + LB ^ di * unat c"
    using arg_cong [OF v, of "(*) (LB ^ di)"] nval_update [OF Suc.prems(1), of v]
    by (simp add: algebra_simps)
  have step: "mul_carry d di c =
      (if e \<noteq> 0 then mul_carry (d[di := v]) (Suc di) e else Some (d[di := v]))"
    using Suc.prems(1) by (subst mul_carry.simps) (simp add: v_def e_def)
  show ?case
  proof (cases "e = 0")
    case True
    with u step show ?thesis by simp
  next
    case False
    then have "1 \<le> unat e" by (simp add: Suc_le_eq unat_gt_0)
    then have "LB ^ Suc di * 1 \<le> LB ^ Suc di * unat e" by (rule mult_left_mono) simp
    then have "LB ^ Suc di < LB ^ length d" using u Suc.prems(2) by linarith
    then have "Suc di < length d" by (simp only: power_strict_increasing_iff [OF LB_gt_1])
    moreover have "n = length (d[di := v]) - Suc di" using Suc.hyps(2) by simp
    ultimately show ?thesis
      using Suc.hyps(1) [of "d[di := v]" "Suc di" e] u Suc.prems(2) False step by simp
  qed
qed simp

lemma mpi_mul_hlp_ok:
  assumes "i \<le> length s" "di + i < length d"
    "nval d + LB ^ di * (nval (take i s) * unat b) < LB ^ length d"
  shows "\<exists>d'. mpi_mul_hlp i s d di b = Some d' \<and> length d' = length d
    \<and> nval d' = nval d + LB ^ di * (nval (take i s) * unat b)"
proof -
  from mul_ones_ok [of 0 i s di d b 0] assms obtain d' c where d':
    "mul_ones i s 0 d di b 0 = Some (d', c)" "length d' = length d"
    "nval d' + LB ^ (di + i) * unat c = nval d + LB ^ di * (nval (take i s) * unat b)" by auto
  with mul_carry_ok [of "di + i" d' c] assms obtain e where
    "mul_carry d' (di + i) c = Some e" "length e = length d'"
    "nval e = nval d' + LB ^ (di + i) * unat c" by auto
  with d' show ?thesis by (simp add: mpi_mul_hlp_def mul_steps_ones)
qed

subsection \<open>Multiplication\<close>

lemma mul_loop_ok:
  assumes "i \<le> length a" "j \<le> m" "m \<le> length b" "i + m \<le> length p" "0 < length p"
    "nval p = nval (take i a) * (LB ^ j * nval (drop j (take m b)))"
  shows "\<exists>q. mul_loop i a b p j = Some q \<and> length q = length p
    \<and> nval q = nval (take i a) * nval (take m b)"
  using assms
proof (induction j arbitrary: p)
  case (Suc j)
  let ?A = "nval (take i a)" and ?d = "\<lambda>j. nval (drop j (take m b))"
  have j: "j < m" "j < length (take m b)" using Suc.prems by simp_all
  have d: "?d j = unat (b ! j) + LB * ?d (Suc j)" using nval_drop_step [OF j(2)] j by simp
  then have step: "nval p + LB ^ j * (?A * unat (b ! j)) = ?A * (LB ^ j * ?d j)"
    using Suc.prems(6) by (simp add: algebra_simps)
  have "LB ^ j * ?d j \<le> nval (take m b)"
    using nval_take_drop [of j "take m b"] j by simp
  then have "?A * (LB ^ j * ?d j) \<le> ?A * nval (take m b)" by (rule mult_left_mono) simp
  also have "\<dots> < LB ^ i * LB ^ m"
    by (intro mult_strict_mono' nval_take_less) simp_all
  also have "\<dots> \<le> LB ^ length p"
    unfolding power_add [symmetric] by (rule power_increasing) (use Suc.prems in simp_all)
  finally have fits: "nval p + LB ^ j * (?A * unat (b ! j)) < LB ^ length p" by (simp add: step)
  have "j + i < length p" using j Suc.prems by simp
  from mpi_mul_hlp_ok [OF Suc.prems(1) this fits] obtain q where
    q: "mpi_mul_hlp i a p j (b ! j) = Some q" "length q = length p" "nval q = ?A * (LB ^ j * ?d j)"
    using step by auto
  from Suc.IH [of q] q Suc.prems j obtain r where
    "mul_loop i a b q j = Some r" "length r = length q" "nval r = ?A * nval (take m b)" by auto
  with q show ?case by simp
qed simp

lemma gives_mul_mpi:
  "gives al (mpi_mul_mpi al X A B)
    (\<lambda>Y. mpi_s Y = mpi_s (opnd X A) * mpi_s (opnd X B)
       \<and> nval (mpi_p Y) = nval (mpi_p (opnd X A)) * nval (mpi_p (opnd X B))
       \<and> mpi_n X \<le> mpi_n Y \<and> 0 < mpi_n Y)"
proof -
  have copy: "gives al (if A = This then mpi_copy al mpi_init (That X) else ok (opnd X A))
      (\<lambda>T. mpi_s T = mpi_s (opnd X A) \<and> nval (mpi_p T) = nval (mpi_p (opnd X A)))" for A
    by (cases A) (auto intro: gives_mono [OF gives_copy])
  have body: "gives al (case mul_loop i (mpi_p a) (mpi_p b) (mpi_p x) j of
        None \<Rightarrow> None | Some p \<Rightarrow> ok (x\<lparr>mpi_p := p, mpi_s := mpi_s a * mpi_s b\<rparr>))
      (\<lambda>Y. mpi_s Y = mpi_s a * mpi_s b \<and> nval (mpi_p Y) = nval (mpi_p a) * nval (mpi_p b)
         \<and> mpi_n Y = mpi_n x)"
    if "i = scan_all (mpi_p a) (mpi_n a)" "j = scan_all (mpi_p b) (mpi_n b)"
      "i + j \<le> mpi_n x" "0 < mpi_n x" "nval (mpi_p x) = 0" for a b x i j
    using mul_loop_ok [of i "mpi_p a" j j "mpi_p b" "mpi_p x"] that scan_all_le
    by (auto simp del: scan_all_0)
  show ?thesis
    unfolding mpi_mul_mpi_def Let_def
    by (rule gives_chk [OF copy], rule gives_chk [OF copy], rule gives_chk [OF gives_grow],
        rule gives_chk [OF gives_lset], rule gives_mono [OF body]) auto
qed

lemma gives_mul_val:
  "gives al (mpi_mul_mpi al X A B)
    (\<lambda>Y. mval Y = mval (opnd X A) * mval (opnd X B)
       \<and> (mpi_ok (opnd X A) \<longrightarrow> mpi_ok (opnd X B) \<longrightarrow> mpi_ok Y))"
  by (rule gives_mono [OF gives_mul_mpi]) (auto simp: mval_def mpi_ok_def algebra_simps)

end
