(* ===== verification/MpiBits.thy ===== *)
theory MpiBits
  imports MpiMul
begin

text \<open>
  Bit counts, shifts, and the import and export of numbers as big-endian bytes: shifts multiply
  and divide by powers of two, and a number written to a buffer is read back.
\<close>

subsection \<open>Bit counts\<close>

lemma and_1_bit: "drop_bit j (w :: t_int) AND 1 \<noteq> 0 \<longleftrightarrow> bit w j"
  by (simp add: and_one_eq bit_iff_odd_drop_bit mod_2_eq_odd)

lemma odd_unat_bit: "odd (unat (w :: t_int) div 2 ^ j) \<longleftrightarrow> bit w j"
  by (simp add: bit_unsigned_iff flip: bit_iff_odd)

lemma bit_le_unat: "bit (w :: t_int) j \<Longrightarrow> 2 ^ j \<le> unat w"
  using odd_unat_bit [of w j] by (cases "unat w < 2 ^ j") simp_all

lemma msb_bit_ok:
  assumes "unat w < 2 ^ j"
  shows "unat w < 2 ^ msb_bit w j \<and> (0 < msb_bit w j \<longrightarrow> 2 ^ (msb_bit w j - 1) \<le> unat w)"
  using assms
proof (induction j)
  case (Suc j)
  show ?case
  proof (cases "bit w j")
    case True
    then have "2 ^ j \<le> unat w" by (rule bit_le_unat)
    then show ?thesis using True Suc.prems by (simp add: and_1_bit)
  next
    case False
    then have "even (unat w div 2 ^ j)" using odd_unat_bit [of w j] by simp
    moreover have "unat w div 2 ^ j < 2" using Suc.prems by (simp add: less_mult_imp_div_less)
    ultimately have "unat w div 2 ^ j = 0" by (cases "unat w div 2 ^ j") (auto simp: less_Suc_eq)
    then have "unat w < 2 ^ j" by (simp add: div_eq_0_iff)
    then show ?thesis using Suc.IH False by (simp add: and_1_bit)
  qed
qed simp

lemma LB_pow: "LB ^ k = 2 ^ (32 * k)"
  by (simp add: LB_def power_mult)

lemma mpi_msb_ok:
  assumes "mpi_p X \<noteq> []"
  shows "\<exists>m. mpi_msb X = Some m \<and> nval (mpi_p X) < 2 ^ m
    \<and> (0 < m \<longrightarrow> 2 ^ (m - 1) \<le> nval (mpi_p X)) \<and> m \<le> 32 * mpi_n X"
proof -
  let ?p = "mpi_p X"
  define i where "i = scan_pos ?p (mpi_n X) - 1"
  have si: "scan_pos ?p (mpi_n X) = Suc i"
    using assms by (simp add: i_def scan_pos_scan_all)
  have i: "i < mpi_n X" using scan_pos_le [of ?p "mpi_n X"] si by simp
  define j where "j = msb_bit (?p ! i) 32"
  have j: "unat (?p ! i) < 2 ^ j" "0 < j \<longrightarrow> 2 ^ (j - 1) \<le> unat (?p ! i)"
    using msb_bit_ok [of "?p ! i" 32] unat_less_exp [of "?p ! i"] by (simp_all add: j_def)
  have j32: "j \<le> 32"
  proof (rule ccontr)
    assume "\<not> j \<le> 32"
    then have "(2::nat) ^ 32 \<le> 2 ^ (j - 1)" by (intro power_increasing) simp_all
    with j(2) \<open>\<not> j \<le> 32\<close> unat_less_exp [of "?p ! i"] show False by simp
  qed
  have v: "nval ?p = nval (take i ?p) + LB ^ i * unat (?p ! i)"
    using scan_pos_nval [of ?p] nval_take_Suc [OF i] si by simp
  have "nval ?p < LB ^ i + LB ^ i * unat (?p ! i)"
    unfolding v using nval_take_less [of i ?p] by simp
  also have "\<dots> = LB ^ i * Suc (unat (?p ! i))" by simp
  also have "\<dots> \<le> LB ^ i * 2 ^ j" using j(1) by (intro mult_left_mono) simp_all
  also have "\<dots> = 2 ^ (i * 32 + j)" by (simp add: LB_pow power_add mult.commute)
  finally have up: "nval ?p < 2 ^ (i * 32 + j)" .
  have low: "2 ^ (i * 32 + j - 1) \<le> nval ?p" if "0 < i * 32 + j"
  proof (cases "0 < j")
    case True
    have "2 ^ (i * 32 + j - 1) = LB ^ i * 2 ^ (j - 1)"
      using True by (simp add: LB_pow mult.commute flip: power_add)
    also have "\<dots> \<le> LB ^ i * unat (?p ! i)" using True j(2) by simp
    finally show ?thesis using v by simp
  next
    case False
    then have z: "?p ! i = 0" using j(1) by (simp add: unat_eq_0)
    from False that have "0 < i" by simp
    then have "scan_all ?p (mpi_n X) = Suc i" using si assms by (simp add: scan_pos_scan_all max_def split: if_splits)
    then show ?thesis using scan_all_top [of ?p "mpi_n X"] z by simp
  qed
  have "mpi_msb X = Some (i * 32 + j)" by (simp add: mpi_msb_def si j_def)
  then show ?thesis using up low i j32 by auto
qed

lemma mpi_msb_None: "mpi_msb X = None \<longleftrightarrow> mpi_p X = []"
proof (cases "mpi_p X = []")
  case False
  then show ?thesis using mpi_msb_ok [OF False] by auto
qed (simp add: mpi_msb_def)

text \<open>The bit count of a number.\<close>

definition bitlen :: "nat \<Rightarrow> nat \<Rightarrow> bool" where
  "bitlen v m \<longleftrightarrow> v < 2 ^ m \<and> (0 < m \<longrightarrow> 2 ^ (m - 1) \<le> v)"

lemma mpi_msb_bitlen: "mpi_p X \<noteq> [] \<Longrightarrow> \<exists>m. mpi_msb X = Some m \<and> bitlen (nval (mpi_p X)) m"
  using mpi_msb_ok [of X] by (auto simp: bitlen_def)

lemma bitlen_unique: "bitlen v m \<Longrightarrow> bitlen v k \<Longrightarrow> m = k"
proof -
  have "m \<le> k" if "bitlen v m" "bitlen v k" for m k
  proof (rule ccontr)
    assume "\<not> m \<le> k"
    then have "(2::nat) ^ k \<le> 2 ^ (m - 1)" by (intro power_increasing) simp_all
    moreover have "v < 2 ^ k" "2 ^ (m - 1) \<le> v"
      using that \<open>\<not> m \<le> k\<close> by (simp_all add: bitlen_def)
    ultimately show False by linarith
  qed
  then show "bitlen v m \<Longrightarrow> bitlen v k \<Longrightarrow> m = k" by (meson le_antisym)
qed

subsection \<open>Left shift\<close>

lemma shift_l_limbs_nth:
  assumes "n \<le> length p"
  shows "length (shift_l_limbs p v n) = length p
    \<and> (\<forall>k < length p. shift_l_limbs p v n ! k =
        (if k < n then if v \<le> k then p ! (k - v) else 0 else p ! k))"
  using assms
proof (induction n arbitrary: p)
  case (Suc n)
  let ?q = "p[n := if v \<le> n then p ! (n - v) else 0]"
  have IH: "length (shift_l_limbs ?q v n) = length p"
    "\<forall>k < length p. shift_l_limbs ?q v n ! k =
        (if k < n then if v \<le> k then ?q ! (k - v) else 0 else ?q ! k)"
    using Suc.IH [of ?q] Suc.prems by simp_all
  then show ?case using Suc.prems by (auto simp: nth_list_update less_Suc_eq)
qed simp

lemma shift_l_limbs_nval:
  assumes "v \<le> length p"
  shows "nval (shift_l_limbs p v (length p)) = LB ^ v * nval (take (length p - v) p)"
proof -
  have "shift_l_limbs p v (length p) = replicate v 0 @ take (length p - v) p"
    using shift_l_limbs_nth [of "length p" p v] assms
    by (intro nth_equalityI) (auto simp: nth_append)
  then show ?thesis by (simp add: nval_append)
qed

lemma limb_push_bit: "unat (push_bit k (w :: t_int)) = unat w * 2 ^ k mod LB"
  by (subst unsigned_push_bit_eq) (simp add: take_bit_eq_mod push_bit_eq_mult LB_def)

lemma limb_or:
  fixes x y :: t_int
  assumes "unat x < 2 ^ k" "unat y * 2 ^ k < LB" "k < 32"
  shows "unat (push_bit k y OR x) = unat y * 2 ^ k + unat x"
proof -
  have low: "bit x n \<Longrightarrow> n < k" for n
  proof (rule ccontr)
    assume "bit x n" "\<not> n < k"
    then have "2 ^ k \<le> (2::nat) ^ n" by (simp add: power_increasing)
    with assms(1) bit_le_unat [OF \<open>bit x n\<close>] show False by linarith
  qed
  have "push_bit k y AND x = 0"
    by (intro bit_word_eqI) (auto simp: bit_and_iff bit_push_bit_iff dest: low)
  then have "push_bit k y OR x = push_bit k y + x" by (simp add: disjunctive_add_eq_or)
  moreover have p: "unat (push_bit k y) = unat y * 2 ^ k"
    using assms by (simp only: limb_push_bit mod_less)
  moreover have "unat y * 2 ^ k + unat x < LB"
  proof -
    have "2 ^ k dvd LB" unfolding LB_def by (intro le_imp_power_dvd) (use assms in simp)
    then obtain q where q: "LB = 2 ^ k * q" by (elim dvdE)
    have "unat y < q" using assms(2) unfolding q by (simp add: mult.commute)
    then have "unat y * 2 ^ k + 2 ^ k \<le> q * 2 ^ k" by (metis Suc_leI add.commute mult_Suc mult_le_mono1)
    with q assms(1) show ?thesis by (simp add: mult.commute)
  qed
  ultimately show ?thesis by (simp add: unat_word_ariths LB_def)
qed

lemma limb_shift_l:
  fixes w r :: t_int
  assumes "0 < t" "t < 32" "unat r < 2 ^ t"
  shows "unat (push_bit t w OR r) + LB * unat (drop_bit (32 - t) w) = 2 ^ t * unat w + unat r"
    and "unat (drop_bit (32 - t) w) < 2 ^ t"
proof -
  define m where "m = (2::nat) ^ (32 - t)"
  have LBm: "LB = 2 ^ t * m" using assms(2) by (simp add: m_def LB_def flip: power_add)
  have m: "0 < m" by (simp add: m_def)
  let ?y = "take_bit (32 - t) w"
  have y: "unat ?y = unat w mod m"
    unfolding m_def by (subst unsigned_take_bit_eq) (simp only: take_bit_eq_mod)
  have "push_bit t w = push_bit t ?y"
    using assms by (intro bit_word_eqI) (auto simp: bit_push_bit_iff bit_take_bit_iff)
  moreover have "unat w mod m * 2 ^ t < LB" using m by (simp add: LBm mult.commute)
  ultimately have "unat (push_bit t w OR r) = unat w mod m * 2 ^ t + unat r"
    using limb_or [of r t ?y] assms y by simp
  moreover have d: "unat (drop_bit (32 - t) w) = unat w div m" by (simp add: unat_drop_bit m_def)
  ultimately show "unat (push_bit t w OR r) + LB * unat (drop_bit (32 - t) w) = 2 ^ t * unat w + unat r"
    using arg_cong [OF div_mult_mod_eq [of "unat w" m], of "\<lambda>x. 2 ^ t * x"]
    by (simp only: LBm ring_distribs ac_simps)
  have "unat w < m * 2 ^ t" using limb_less [of w] unfolding LBm by (simp only: mult.commute)
  then show "unat (drop_bit (32 - t) w) < 2 ^ t"
    unfolding d by (simp add: less_mult_imp_div_less mult.commute)
qed

lemma shift_l_bits_ok:
  assumes "0 < t" "t < 32" "unat r < 2 ^ t" "i \<le> length p"
  shows "\<exists>q c. shift_l_bits p t i r = q \<and> length q = length p \<and> take i q = take i p
    \<and> nval (drop i q) + LB ^ (length p - i) * c = 2 ^ t * nval (drop i p) + unat r"
  using assms
proof (induction "length p - i" arbitrary: p i r)
  case 0
  then show ?case by (auto simp: shift_l_bits.simps intro: exI [of _ "unat r"])
next
  case (Suc n)
  define w where "w = push_bit t (p ! i) OR r"
  define e where "e = drop_bit (32 - t) (p ! i)"
  have i: "i < length p" using Suc.hyps(2) by simp
  have step: "shift_l_bits p t i r = shift_l_bits (p[i := w]) t (Suc i) e"
    using i by (subst shift_l_bits.simps) (simp add: w_def e_def Let_def)
  have w: "unat w + LB * unat e = 2 ^ t * unat (p ! i) + unat r" "unat e < 2 ^ t"
    unfolding w_def e_def by (rule limb_shift_l [OF Suc.prems(1-3)])+
  have "n = length (p[i := w]) - Suc i" using Suc.hyps(2) by simp
  from Suc.hyps(1) [OF this, of e] Suc.prems w(2) i obtain q c where
    q: "shift_l_bits (p[i := w]) t (Suc i) e = q" "length q = length p"
    "take (Suc i) q = take (Suc i) (p[i := w])"
    "nval (drop (Suc i) q) + LB ^ (length p - Suc i) * c = 2 ^ t * nval (drop (Suc i) p) + unat e"
    by auto
  have qi: "q ! i = w" using arg_cong [OF q(3), of "\<lambda>l. l ! i"] i q(2) by simp
  have ti: "take i q = take i p"
    using arg_cong [OF q(3), of "take i"] i q(2) by (simp add: min_def)
  have "LB ^ (length p - i) = LB * LB ^ (length p - Suc i)"
    using i by (simp flip: power_Suc add: Suc_diff_Suc)
  then have "nval (drop i q) + LB ^ (length p - i) * c
    = unat w + LB * (nval (drop (Suc i) q) + LB ^ (length p - Suc i) * c)"
    using i q(2) qi by (simp add: nval_drop_step algebra_simps)
  also have "\<dots> = 2 ^ t * nval (drop i p) + unat r"
    unfolding q(4) using w(1) i by (simp add: nval_drop_step algebra_simps)
  finally show ?case using step q(1,2) ti by auto
qed


lemma nval_take_small:
  assumes "nval p < LB ^ j" "j \<le> length p"
  shows "nval (take j p) = nval p"
proof -
  have "nval (drop j p) = 0"
  proof (rule ccontr)
    assume "nval (drop j p) \<noteq> 0"
    then have "LB ^ j * 1 \<le> LB ^ j * nval (drop j p)" by (intro mult_left_mono) simp_all
    then show False using nval_take_drop [OF assms(2)] assms(1) by linarith
  qed
  then show ?thesis using nval_take_drop [OF assms(2)] by simp
qed

lemma shift_l_val:
  fixes p :: "t_int list"
  assumes fits: "2 ^ (32 * v + t) * nval p < LB ^ length p" and "t < 32"
    and q: "q = (if v > 0 then shift_l_limbs p v (length p) else p)"
    and r: "r = (if t > 0 then shift_l_bits q t v 0 else q)"
  shows "nval r = 2 ^ (32 * v + t) * nval p \<and> length r = length p"
proof -
  have q: "q = shift_l_limbs p v (length p)"
    using shift_l_limbs_nth [of "length p" p 0] q by (auto intro!: nth_equalityI)
  then have lq: "length q = length p" using shift_l_limbs_nth [of "length p" p v] by simp
  have f: "LB ^ v * (2 ^ t * nval p) < LB ^ length p"
    using fits by (simp add: LB_pow power_add mult.assoc)
  show ?thesis
  proof (cases "v \<le> length p")
    case True
    then have "LB ^ length p = LB ^ v * LB ^ (length p - v)" by (simp flip: power_add)
    then have s: "2 ^ t * nval p < LB ^ (length p - v)" using f by simp
    moreover have "1 * nval p \<le> 2 ^ t * nval p" by (rule mult_right_mono) simp_all
    ultimately have "nval p < LB ^ (length p - v)" by linarith
    then have vq: "nval q = LB ^ v * nval p"
      unfolding q using shift_l_limbs_nval [OF True] nval_take_small by simp
    have "\<forall>x \<in> set (take v q). x = 0"
      using shift_l_limbs_nth [of "length p" p v] True by (auto simp: q in_set_conv_nth)
    then have tq: "nval (take v q) = 0" by (simp add: nval_zeros)
    then have dq: "nval (drop v q) = nval p" using nval_take_drop [of v q] vq True lq by simp
    show ?thesis
    proof (cases "t > 0")
      case t: True
      from shift_l_bits_ok [OF t assms(2), of 0 v q] True lq obtain c where
        c: "length r = length q" "take v r = take v q"
        "nval (drop v r) + LB ^ (length p - v) * c = 2 ^ t * nval p"
        using r t dq by auto
      have "c = 0" using s c(3) by (cases c) simp_all
      then show ?thesis using c nval_take_drop [of v r] tq lq True
        by (simp add: LB_pow power_add mult.assoc)
    qed (use r vq lq in \<open>simp add: LB_pow\<close>)
  next
    case False
    then have "LB ^ length p \<le> LB ^ v" by (intro power_increasing) simp_all
    from less_le_trans [OF f this] have "LB ^ v * (2 ^ t * nval p) < LB ^ v * 1" by simp
    then have z: "nval p = 0" by (simp only: mult_less_cancel1) simp
    have "\<forall>x \<in> set q. x = 0"
      using shift_l_limbs_nth [of "length p" p v] False by (auto simp: q in_set_conv_nth)
    then have "nval q = 0" by (simp add: nval_zeros)
    then show ?thesis using False r z lq by (simp add: shift_l_bits.simps)
  qed
qed

lemma gives_shift_l:
  assumes "mpi_p X \<noteq> []"
  shows "gives al (mpi_shift_l al X k)
    (\<lambda>Y. mpi_s Y = mpi_s X \<and> nval (mpi_p Y) = 2 ^ k * nval (mpi_p X)
       \<and> (\<exists>m. mpi_msb X = Some m \<and> mpi_n Y = max (mpi_n X) (BITS_TO_LIMBS (m + k))))"
proof -
  from mpi_msb_ok [OF assms] obtain m where m: "mpi_msb X = Some m" "nval (mpi_p X) < 2 ^ m"
    by auto
  have k: "32 * (k div 32) + k mod 32 = k" "k mod 32 < 32" by simp_all
  have grown: "gives al (if mpi_n X * 32 < m + k then mpi_grow al X (BITS_TO_LIMBS (m + k)) else ok X)
      (\<lambda>Y. \<exists>z. Y = X\<lparr>mpi_p := mpi_p X @ replicate z 0\<rparr>
         \<and> mpi_n Y = max (mpi_n X) (BITS_TO_LIMBS (m + k)))"
  proof (cases "mpi_n X * 32 < m + k")
    case True
    then show ?thesis
      by (simp only: if_True) (rule gives_mono [OF gives_grow],
        rule exI [of _ "BITS_TO_LIMBS (m + k) - mpi_n X"], simp add: max_def)
  next
    case False
    then show ?thesis by (auto simp: BITS_TO_LIMBS_def intro: exI [of _ 0])
  qed
  have fits: "2 ^ k * nval (mpi_p Y) < LB ^ mpi_n Y"
    if "nval (mpi_p Y) = nval (mpi_p X)" "mpi_n Y = max (mpi_n X) (BITS_TO_LIMBS (m + k))" for Y
  proof -
    have "2 ^ k * nval (mpi_p Y) < 2 ^ k * 2 ^ m" using m(2) that(1) by simp
    also have "\<dots> = 2 ^ (m + k)" by (simp add: power_add mult.commute)
    also have "\<dots> \<le> 2 ^ (32 * mpi_n Y)"
      using that(2) by (intro power_increasing) (auto simp: BITS_TO_LIMBS_def)
    finally show ?thesis by (simp add: LB_pow)
  qed
  show ?thesis
    unfolding mpi_shift_l_def m(1) option.case Let_def
  proof (rule gives_chk [OF grown], elim exE conjE, goal_cases)
    case (1 Y z)
    have "nval (mpi_p Y) = nval (mpi_p X)" using 1(1) by (simp add: nval_append)
    from shift_l_val [OF _ k(2) refl refl, of "k div 32" "mpi_p Y"] fits [OF this 1(2)] this 1
    show ?case by (simp add: k(1))
  qed
qed

subsection \<open>Right shift\<close>

lemma shift_r_limbs_nth:
  assumes "0 < v"
  shows "length (shift_r_limbs p v i) = length p
    \<and> (\<forall>k < length p. shift_r_limbs p v i ! k =
        (if k < i then p ! k else if k + v < length p then p ! (k + v) else 0))"
proof (induction "length p - i" arbitrary: p i)
  case 0
  then show ?case by (simp add: shift_r_limbs.simps)
next
  case (Suc n)
  let ?q = "p[i := if i + v < length p then p ! (i + v) else 0]"
  have "n = length ?q - Suc i" using Suc.hyps(2) by simp
  note IH = Suc.hyps(1) [OF this]
  have "i < length p" using Suc.hyps(2) by simp
  then have step: "shift_r_limbs p v i = shift_r_limbs ?q v (Suc i)"
    by (subst shift_r_limbs.simps) simp
  show ?case unfolding step using IH assms by (auto simp: nth_list_update less_Suc_eq)
qed

lemma nval_div: "nval p div LB ^ v = nval (drop v p)"
proof (cases "v \<le> length p")
  case True
  then show ?thesis using nval_take_drop [OF True] nval_take_less [of v p] by simp
next
  case False
  then have "LB ^ length p \<le> LB ^ v" by (intro power_increasing) simp_all
  with nval_less [of p] have "nval p < LB ^ v" by (rule less_le_trans)
  then show ?thesis using False by simp
qed

lemma shift_r_limbs_nval:
  assumes "0 < v"
  shows "nval (shift_r_limbs p v 0) = nval p div LB ^ v"
proof -
  have "shift_r_limbs p v 0 = drop v p @ replicate (min v (length p)) 0"
    using shift_r_limbs_nth [OF assms, of p 0]
    by (intro nth_equalityI) (auto simp: nth_append add.commute min_def)
  then show ?thesis by (simp add: nval_append nval_div)
qed

lemma shift_r_bits_ok:
  assumes "0 < v" "v < 32" "n \<le> length p" "unat r = 2 ^ (32 - v) * c" "c < 2 ^ v"
  shows "length (shift_r_bits p v n r) = length p
    \<and> drop n (shift_r_bits p v n r) = drop n p
    \<and> nval (take n (shift_r_bits p v n r)) = (nval (take n p) + LB ^ n * c) div 2 ^ v"
  using assms(3-)
proof (induction n arbitrary: p r c)
  case (Suc n)
  define w where "w = p ! n"
  define x where "x = drop_bit v w OR r"
  define q where "q = p[n := x]"
  define e where "e = push_bit (32 - v) w"
  have step: "shift_r_bits p v (Suc n) r = shift_r_bits q v n e"
    using Suc.prems(1) by (simp add: w_def x_def q_def e_def Let_def)
  define m where "m = (2::nat) ^ (32 - v)"
  have LBm: "LB = 2 ^ v * m" using assms(2) by (simp add: m_def LB_def flip: power_add)
  have e: "unat e = m * (unat w mod 2 ^ v)"
    unfolding e_def limb_push_bit m_def [symmetric] LBm by (simp only: mult_mod_right mult.commute)
  have x: "unat x = unat w div 2 ^ v + m * c"
  proof -
    have "(2::nat) ^ v \<le> 2 ^ 32" using assms(2) by (intro power_increasing) simp_all
    then have c: "unat (of_nat c :: t_int) = c" using Suc.prems(3) by (intro unat_of_nat_u32) simp
    have cm: "c * m < LB" using Suc.prems(3) by (simp add: LBm m_def)
    have "unat (push_bit (32 - v) (of_nat c :: t_int)) = unat (of_nat c :: t_int) * 2 ^ (32 - v)"
      using cm unfolding m_def by (simp only: limb_push_bit c mod_less)
    then have r: "push_bit (32 - v) (of_nat c) = r"
      using Suc.prems(2) c by (simp add: word_unat_eq_iff mult.commute)
    have "unat w < m * 2 ^ v" using limb_less [of w] unfolding LBm by (simp only: mult.commute)
    then have "unat (drop_bit v w) < 2 ^ (32 - v)"
      by (simp add: unat_drop_bit less_mult_imp_div_less mult.commute flip: m_def)
    from limb_or [OF this, of "of_nat c"] show ?thesis
      using cm assms(1) c by (simp add: r x_def or.commute unat_drop_bit m_def mult.commute)
  qed
  have "unat w mod 2 ^ v < 2 ^ v" by simp
  note IH = Suc.IH [of q e, OF _ e [unfolded m_def] this]
  define res where "res = shift_r_bits q v n e"
  have "drop n q = x # drop (Suc n) p"
    using Suc.prems(1) by (simp add: q_def flip: Cons_nth_drop_Suc)
  then have res: "shift_r_bits q v n e = res" "length res = length p" "drop n res = x # drop (Suc n) p"
    "nval (take n res) = (nval (take n p) + LB ^ n * (unat w mod 2 ^ v)) div 2 ^ v"
    using IH Suc.prems(1) by (simp_all only: flip: res_def) (simp_all add: q_def)
  have "res ! n = x" using nth_drop [of n res 0] res(2,3) Suc.prems(1) by simp
  then have "nval (take (Suc n) res) = nval (take n res) + LB ^ n * unat x"
    using res(2) Suc.prems(1) by (simp add: nval_take_Suc)
  also have "\<dots> = (nval (take n p) + LB ^ n * (unat w mod 2 ^ v)
      + 2 ^ v * (LB ^ n * (unat w div 2 ^ v + m * c))) div 2 ^ v"
    unfolding res(4) x by simp
  also have "nval (take n p) + LB ^ n * (unat w mod 2 ^ v) + 2 ^ v * (LB ^ n * (unat w div 2 ^ v + m * c))
      = nval (take (Suc n) p) + LB ^ Suc n * c"
  proof -
    have "LB ^ n * unat w = LB ^ n * (unat w mod 2 ^ v) + LB ^ n * (2 ^ v * (unat w div 2 ^ v))"
      by (simp flip: distrib_left)
    moreover have "LB ^ Suc n * c = LB ^ n * (2 ^ v * m * c)" by (simp add: LBm)
    ultimately show ?thesis
      using Suc.prems(1) by (auto simp: nval_take_Suc w_def algebra_simps)
  qed
  finally have "nval (take (Suc n) res) = (nval (take (Suc n) p) + LB ^ Suc n * c) div 2 ^ v" .
  moreover have "drop (Suc n) res = drop (Suc n) p"
    using arg_cong [OF res(3), of tl] by (simp add: drop_Suc tl_drop)
  ultimately show ?case using step res(1,2) by simp
qed simp

lemma mpi_shift_r_ok:
  "mpi_s (mpi_shift_r X k) = mpi_s X" "mpi_n (mpi_shift_r X k) = mpi_n X"
  "nval (mpi_p (mpi_shift_r X k)) = nval (mpi_p X) div 2 ^ k"
proof -
  define v t where "v = k div 32" and "t = k mod 32"
  define q where "q = (if v > 0 then shift_r_limbs (mpi_p X) v 0 else mpi_p X)"
  have q: "nval q = nval (mpi_p X) div LB ^ v" "length q = mpi_n X"
    using shift_r_limbs_nval [of v "mpi_p X"] shift_r_limbs_nth [of v "mpi_p X" 0]
    by (simp_all add: q_def)
  have X: "mpi_shift_r X k = X\<lparr>mpi_p := if t > 0 then shift_r_bits q t (mpi_n X) 0 else q\<rparr>"
    by (simp add: mpi_shift_r_def q_def v_def t_def Let_def)
  have b: "nval (if t > 0 then shift_r_bits q t (mpi_n X) 0 else q) = nval q div 2 ^ t
    \<and> length (if t > 0 then shift_r_bits q t (mpi_n X) 0 else q) = mpi_n X"
    using shift_r_bits_ok [of t "mpi_n X" q 0 0] q(2) by (auto simp: t_def)
  have "nval q div 2 ^ t = nval (mpi_p X) div 2 ^ k"
    unfolding q(1) LB_pow div_mult2_eq [symmetric] power_add [symmetric] by (simp add: v_def t_def)
  then show "mpi_s (mpi_shift_r X k) = mpi_s X" "mpi_n (mpi_shift_r X k) = mpi_n X"
    "nval (mpi_p (mpi_shift_r X k)) = nval (mpi_p X) div 2 ^ k"
    unfolding X using b by simp_all
qed

subsection \<open>Big-endian bytes\<close>

fun be_val :: "bytes \<Rightarrow> nat" where
  "be_val [] = 0"
| "be_val (b # bs) = unat b * 256 ^ length bs + be_val bs"

fun be_bytes :: "nat \<Rightarrow> nat \<Rightarrow> bytes" where
  "be_bytes 0 v = []"
| "be_bytes (Suc n) v = be_bytes n (v div 256) @ [of_nat v]"

lemma be_val_append: "be_val (xs @ ys) = be_val xs * 256 ^ length ys + be_val ys"
  by (induction xs) (simp_all add: power_add algebra_simps)

lemma byte_less: "unat (b :: u8) < 256"
  using unat_less_exp [of b] by simp

lemma be_val_less: "be_val bs < 256 ^ length bs"
proof (induction bs)
  case (Cons b bs)
  have "unat b * 256 ^ length bs \<le> 255 * 256 ^ length bs"
    using byte_less [of b] by (intro mult_right_mono) simp_all
  then have "unat b * 256 ^ length bs + be_val bs < 255 * 256 ^ length bs + 256 ^ length bs"
    using Cons by (rule add_le_less_mono)
  then show ?case by simp
qed simp

lemma length_be_bytes [simp]: "length (be_bytes n v) = n"
  by (induction n arbitrary: v) simp_all

lemma be_val_replicate [simp]: "be_val (replicate k 0) = 0"
  by (induction k) simp_all

lemma be_val_bytes: "be_val (be_bytes n v) = v mod 256 ^ n"
proof (induction n arbitrary: v)
  case (Suc n)
  have "unat (of_nat v :: u8) = v mod 256" by (simp add: unat_of_nat take_bit_eq_mod)
  then show ?case
    by (simp add: be_val_append Suc mod_mult2_eq mult.commute)
qed simp

lemma be_bytes_val: "be_bytes (length bs) (be_val bs) = bs"
proof (induction bs rule: rev_induct)
  case (snoc b bs)
  have "be_val (bs @ [b]) = be_val bs * 256 + unat b" by (simp add: be_val_append)
  moreover from this have "be_val (bs @ [b]) mod 256 = unat b" using byte_less [of b] by simp
  then have "(of_nat (be_val (bs @ [b])) :: u8) = b"
    unfolding word_unat_eq_iff unat_of_nat by (simp add: take_bit_eq_mod)
  ultimately show ?case using snoc byte_less [of b] by simp
qed simp

lemma skip_zeros_le: "skip_zeros bs \<le> length bs"
  by (induction bs) simp_all

lemma be_val_skip: "be_val (drop (skip_zeros bs) bs) = be_val bs"
  by (induction bs) simp_all

lemma be_val_drop: "i < length bs \<Longrightarrow>
    be_val (drop i bs) = unat (bs ! i) * 256 ^ (length bs - Suc i) + be_val (drop (Suc i) bs)"
  by (simp flip: Cons_nth_drop_Suc)

lemma pow_256_LB: "256 ^ j = LB ^ (j div 4) * 2 ^ (j mod 4 * 8)"
proof -
  have "(256::nat) ^ j = 2 ^ (8 * j)" by (simp add: power_mult)
  also have "8 * j = 32 * (j div 4) + j mod 4 * 8" by presburger
  finally show ?thesis by (simp add: LB_pow power_add)
qed

lemma read_binary_loop_ok:
  assumes "n \<le> m" "m \<le> length buf" "length buf - n \<le> 4 * length p"
    "nval p = be_val (drop m buf)"
  shows "\<exists>q. read_binary_loop p buf n m (length buf - m) = Some q \<and> length q = length p
    \<and> nval q = be_val (drop n buf)"
  using assms
proof (induction m arbitrary: p)
  case (Suc i)
  show ?case
  proof (cases "i < n")
    case True
    with Suc.prems have "n = Suc i" by simp
    then show ?thesis using Suc.prems by simp
  next
    case False
    define j where "j = length buf - Suc i"
    define l where "l = j div 4"
    define k where "k = j mod 4 * 8"
    have l: "l < length p" using False Suc.prems by (simp add: l_def j_def less_mult_imp_div_less mult.commute)
    have k: "k \<le> 24" by (simp add: k_def)
    have "LB ^ l * unat (p ! l) \<le> nval p"
      using nval_update [OF l, of 0] by simp
    also have "nval p < 256 ^ j"
      using Suc.prems(4) be_val_less [of "drop (Suc i) buf"] by (simp add: j_def)
    finally have limb: "unat (p ! l) < 2 ^ k"
      unfolding pow_256_LB [of j] l_def [symmetric] k_def [symmetric] by simp
    let ?y = "ucast (buf ! i) :: t_int"
    have y: "unat ?y = unat (buf ! i)"
      using byte_less [of "buf ! i"] by (simp add: unsigned_ucast_eq take_bit_nat_eq_self)
    have "unat (buf ! i) * 2 ^ k < 256 * 2 ^ k" using byte_less [of "buf ! i"] by simp
    also have "\<dots> \<le> 256 * 2 ^ 24" using k by (intro mult_left_mono power_increasing) simp_all
    finally have yk: "unat ?y * 2 ^ k < LB" by (simp add: y LB_def)
    define w where "w = p ! l OR push_bit k ?y"
    have w: "unat w = unat (buf ! i) * 2 ^ k + unat (p ! l)"
      unfolding w_def using limb_or [OF limb yk] k y by (simp add: or.commute)
    have "nval (p[l := w]) = unat (buf ! i) * 256 ^ j + nval p"
      using nval_update [OF l, of w] unfolding w pow_256_LB [of j] l_def [symmetric] k_def [symmetric]
      by (simp add: algebra_simps)
    then have v: "nval (p[l := w]) = be_val (drop i buf)"
      using Suc.prems(2,4) be_val_drop [of i buf] by (simp add: j_def)
    have "Suc (length buf - Suc i) = length buf - i" using Suc.prems by simp
    then have "read_binary_loop p buf n (Suc i) (length buf - Suc i)
        = read_binary_loop (p[l := w]) buf n i (length buf - i)"
      using False l by (simp add: l_def k_def j_def w_def)
    then show ?thesis using Suc.IH [of "p[l := w]"] False Suc.prems v by simp
  qed
qed simp

lemma gives_read_binary:
  assumes "buf \<noteq> []"
  shows "gives al (mpi_read_binary al X buf)
    (\<lambda>Y. mpi_s Y = 1 \<and> nval (mpi_p Y) = be_val buf \<and> 0 < mpi_n Y)"
proof -
  let ?n = "skip_zeros buf"
  have loop: "gives al (case read_binary_loop p buf ?n (length buf) 0 of
      None \<Rightarrow> None | Some p \<Rightarrow> ok (Z\<lparr>mpi_p := p\<rparr>))
      (\<lambda>Y. mpi_s Y = mpi_s Z \<and> nval (mpi_p Y) = be_val buf \<and> mpi_n Y = length p)"
    if "nval p = 0" "length buf - ?n \<le> 4 * length p" for p Z
    using read_binary_loop_ok [of ?n "length buf" buf p] that skip_zeros_le [of buf] be_val_skip [of buf]
    by auto
  show ?thesis
    unfolding mpi_read_binary_def Let_def using assms
    by (simp only: if_False)
      (rule gives_chk [OF gives_grow], rule gives_chk [OF gives_lset], rule gives_mono [OF loop],
        auto simp: CHARS_TO_LIMBS_def)
qed

lemma limb_byte:
  assumes "j div 4 < length p"
  shows "(ucast (drop_bit (j mod 4 * 8) (p ! (j div 4))) :: u8) = of_nat (nval p div 256 ^ j)"
proof -
  define l k where "l = j div 4" and "k = j mod 4 * 8"
  have k: "k \<le> 24" by (simp add: k_def)
  have "nval p div 256 ^ j = nval (drop l p) div 2 ^ k"
    unfolding pow_256_LB div_mult2_eq l_def k_def by (simp add: nval_div)
  also have "\<dots> = (unat (p ! l) + 2 ^ k * (2 ^ (32 - k) * nval (drop (Suc l) p))) div 2 ^ k"
  proof -
    have LBk: "LB = 2 ^ k * 2 ^ (32 - k)" using k by (simp add: LB_def flip: power_add)
    have "nval (drop l p) = unat (p ! l) + LB * nval (drop (Suc l) p)"
      unfolding l_def by (rule nval_drop_step [OF assms])
    then show ?thesis by (simp only: LBk mult.assoc)
  qed
  also have "\<dots> = unat (p ! l) div 2 ^ k + 2 ^ (32 - k) * nval (drop (Suc l) p)" by simp
  finally have d: "nval p div 256 ^ j = unat (p ! l) div 2 ^ k + 2 ^ (32 - k) * nval (drop (Suc l) p)" .
  have "32 - k = 8 + (24 - k)" using k by simp
  then have "2 ^ (32 - k) = 256 * (2::nat) ^ (24 - k)" by (simp only: power_add) simp
  then have "(nval p div 256 ^ j) mod 256 = unat (p ! l) div 2 ^ k mod 256"
    unfolding d by (simp add: mult.assoc)
  then show ?thesis
    by (simp add: word_unat_eq_iff unsigned_ucast_eq take_bit_eq_mod unat_of_nat unat_drop_bit
        flip: l_def k_def)
qed

lemma write_binary_loop_ok:
  assumes "n \<le> i" "i \<le> length buf" "j + n \<le> 4 * length p"
  shows "write_binary_loop p buf i j n =
    Some (take (i - n) buf @ be_bytes n (nval p div 256 ^ j) @ drop i buf)"
  using assms
proof (induction n arbitrary: buf i j)
  case (Suc n)
  let ?b = "ucast (drop_bit (j mod 4 * 8) (p ! (j div 4))) :: u8"
  have j: "j div 4 < length p" using Suc.prems(3) by (simp add: less_mult_imp_div_less mult.commute)
  have "write_binary_loop p buf i j (Suc n)
      = Some (take (i - 1 - n) (buf[i - 1 := ?b]) @ be_bytes n (nval p div 256 ^ Suc j)
          @ drop (i - 1) (buf[i - 1 := ?b]))"
    using Suc.IH [of "i - 1" "buf[i - 1 := ?b]" "Suc j"] Suc.prems j by simp
  moreover have "drop (i - 1) (buf[i - 1 := ?b]) = ?b # drop i buf"
    using Suc.prems by (subst Cons_nth_drop_Suc [symmetric]) auto
  moreover have "nval p div 256 ^ Suc j = nval p div 256 ^ j div 256"
    by (simp only: power_Suc2 div_mult2_eq)
  ultimately show ?case using Suc.prems limb_byte [OF j] by simp
qed simp

lemma mpi_size_ok:
  "\<exists>n. mpi_size X = Some n \<and> nval (mpi_p X) < 256 ^ n \<and> n \<le> 4 * mpi_n X
    \<and> (0 < n \<longrightarrow> 256 ^ (n - 1) \<le> nval (mpi_p X))"
proof (cases "mpi_p X = []")
  case False
  from mpi_msb_ok [OF False] obtain m where m: "mpi_msb X = Some m" "nval (mpi_p X) < 2 ^ m"
    "0 < m \<longrightarrow> 2 ^ (m - 1) \<le> nval (mpi_p X)" "m \<le> 32 * mpi_n X" by auto
  define n where "n = (m + 7) div 8"
  have pow: "(256::nat) ^ k = 2 ^ (8 * k)" for k by (simp add: power_mult)
  have "(2::nat) ^ m \<le> 256 ^ n" unfolding pow by (intro power_increasing) (auto simp: n_def)
  then have 1: "nval (mpi_p X) < 256 ^ n" using m(2) by linarith
  have 2: "256 ^ (n - 1) \<le> nval (mpi_p X)" if "0 < n"
  proof -
    have m0: "0 < m" using that by (cases m) (simp_all add: n_def)
    have "(256::nat) ^ (n - 1) \<le> 2 ^ (m - 1)"
      unfolding pow using m0 by (intro power_increasing) (auto simp: n_def)
    then show ?thesis using m(3) m0 by simp
  qed
  have "mpi_size X = Some n"
    using False m(1) by (simp add: mpi_size_def n_def drop_bit_eq_div)
  moreover have "n \<le> 4 * mpi_n X" using m(4) by (simp add: n_def)
  ultimately show ?thesis using 1 2 by blast
qed (simp add: mpi_size_def)

lemma mpi_size_0: "mpi_size X = Some 0 \<longleftrightarrow> nval (mpi_p X) = 0"
proof -
  obtain n where n: "mpi_size X = Some n" "nval (mpi_p X) < 256 ^ n"
    "0 < n \<longrightarrow> 256 ^ (n - 1) \<le> nval (mpi_p X)" using mpi_size_ok [of X] by auto
  show ?thesis
  proof
    assume "nval (mpi_p X) = 0"
    with n(3) have "n = 0" by (cases n) simp_all
    then show "mpi_size X = Some 0" using n(1) by simp
  qed (use n in simp)
qed

lemma mpi_write_binary_ok:
  assumes "mpi_size X = Some n" "n \<le> length buf" "nval (mpi_p X) \<noteq> 0"
  shows "mpi_write_binary X buf =
    Some (0, X, replicate (length buf - n) 0 @ be_bytes n (nval (mpi_p X)))"
proof -
  have n: "n \<le> 4 * mpi_n X" "n \<noteq> 0"
    using mpi_size_ok [of X] mpi_size_0 [of X] assms by auto
  from write_binary_loop_ok [of n "length buf" "replicate (length buf) 0" 0 "mpi_p X"] n assms
  show ?thesis by (simp add: mpi_write_binary_def)
qed

end
