(* ===== verification/MpiDiv.thy ===== *)
theory MpiDiv
  imports MpiBits
begin

text \<open>
  Division of multi-precision integers: \<open>mpi_div_mpi\<close>, which is the schoolbook division with a
  quotient limb estimated from the leading limbs, and \<open>mpi_div_int\<close> and \<open>mpi_mod_mpi\<close> on top of
  it. Because the quotient and the remainder may be the very objects divided, the operations
  work on a store that maps the addresses of numbers to numbers.
\<close>

type_synonym store = "nat \<Rightarrow> mpi"

definition div_estimate :: "mpi \<Rightarrow> mpi \<Rightarrow> nat \<Rightarrow> nat \<Rightarrow> t_int" where
  "div_estimate X Y i t =
    (if mpi_p X ! i \<ge> mpi_p Y ! t then - 1
     else let r = push_bit 32 (ucast (mpi_p X ! i)) :: t_dbl;
              r = r OR ucast (mpi_p X ! (i - 1));
              r = r div ucast (mpi_p Y ! t);
              r = (if r > 2 ^ 32 - 1 then 2 ^ 32 - 1 else r)
          in ucast r)"

text \<open>The body of the loop that corrects the estimate \<open>z\<close>: \<open>T1\<close> is \<open>z\<close> times the two leading
  limbs of \<open>Y\<close>, and \<open>T2\<close> holds the three leading limbs of \<open>X\<close>.\<close>

definition div_products ::
  "(nat \<Rightarrow> bool) \<Rightarrow> mpi \<Rightarrow> mpi \<Rightarrow> nat \<Rightarrow> nat \<Rightarrow> t_int \<Rightarrow> mpi \<times> mpi \<Rightarrow> (mpi \<times> mpi) mres" where
  "div_products al X Y i t z = (\<lambda>(T1, T2).
    MPI_CHK (mpi_lset al T1 0) (\<lambda>T1.
    if \<not> (2 \<le> mpi_n T1 \<and> t < mpi_n Y \<and> i < mpi_n X) then None else
    let T1 = T1\<lparr>mpi_p := (mpi_p T1)[0 := if t < 1 then 0 else mpi_p Y ! (t - 1), 1 := mpi_p Y ! t]\<rparr> in
    MPI_CHK (mpi_mul_int al T1 This z) (\<lambda>T1.
    MPI_CHK (mpi_lset al T2 0) (\<lambda>T2.
    if \<not> 3 \<le> mpi_n T2 then None else
    let T2 = T2\<lparr>mpi_p := (mpi_p T2)[0 := if i < 2 then 0 else mpi_p X ! (i - 2),
                                     1 := if i < 1 then 0 else mpi_p X ! (i - 1),
                                     2 := mpi_p X ! i]\<rparr>
    in ok (T1, T2)))))"

partial_function (option) div_correct ::
  "(nat \<Rightarrow> bool) \<Rightarrow> mpi \<Rightarrow> mpi \<Rightarrow> nat \<Rightarrow> nat \<Rightarrow> t_int \<Rightarrow> mpi \<times> mpi \<Rightarrow> (t_int \<times> mpi \<times> mpi) mres" where
  "div_correct al X Y i t z T =
    (let z = z - 1 in
     case div_products al X Y i t z T of
       None \<Rightarrow> None
     | Some (Inl e) \<Rightarrow> err e
     | Some (Inr T) \<Rightarrow>
         if mpi_cmp_mpi (fst T) (snd T) > 0 then div_correct al X Y i t z T else ok (z, T))"

definition div_step ::
  "(nat \<Rightarrow> bool) \<Rightarrow> mpi \<Rightarrow> nat \<Rightarrow> nat \<Rightarrow> mpi \<times> mpi \<times> mpi \<times> mpi \<Rightarrow> (mpi \<times> mpi \<times> mpi \<times> mpi) mres" where
  "div_step al Y t i = (\<lambda>(X, Z, T1, T2).
    let k = i - t - 1 in
    if \<not> (i < mpi_n X \<and> t < mpi_n Y \<and> k < mpi_n Z) then None else
    let z = div_estimate X Y i t in
    MPI_CHK (div_correct al X Y i t (z + 1) (T1, T2)) (\<lambda>(z, T1, T2).
    MPI_CHK (mpi_mul_int al T1 (That Y) z) (\<lambda>T1.
    MPI_CHK (mpi_shift_l al T1 (32 * k)) (\<lambda>T1.
    MPI_CHK (mpi_sub_mpi al X This (That T1)) (\<lambda>X.
    if mpi_cmp_int X 0 < 0
    then MPI_CHK (mpi_copy al T1 (That Y)) (\<lambda>T1.
         MPI_CHK (mpi_shift_l al T1 (32 * k)) (\<lambda>T1.
         MPI_CHK (mpi_add_mpi al X This (That T1)) (\<lambda>X.
         ok (X, Z\<lparr>mpi_p := (mpi_p Z)[k := z - 1]\<rparr>, T1, T2))))
    else ok (X, Z\<lparr>mpi_p := (mpi_p Z)[k := z]\<rparr>, T1, T2))))))"

fun div_loop ::
  "(nat \<Rightarrow> bool) \<Rightarrow> mpi \<Rightarrow> nat \<Rightarrow> nat \<Rightarrow> mpi \<times> mpi \<times> mpi \<times> mpi \<Rightarrow> (mpi \<times> mpi \<times> mpi \<times> mpi) mres" where
  "div_loop al Y t 0 S = ok S"
| "div_loop al Y t (Suc i) S =
    (if Suc i > t then MPI_CHK (div_step al Y t (Suc i) S) (div_loop al Y t i) else ok S)"

text \<open>The loop for the leading limb of the quotient, and the calls whose code is not looked at.\<close>

partial_function (option) div_top ::
  "(nat \<Rightarrow> bool) \<Rightarrow> mpi \<Rightarrow> nat \<Rightarrow> mpi \<Rightarrow> mpi \<Rightarrow> (mpi \<times> mpi) option" where
  "div_top al Y k X Z =
    (if mpi_cmp_mpi X Y \<ge> 0
     then if k < mpi_n Z
          then case mpi_sub_mpi al X This (That Y) of
                 None \<Rightarrow> None
               | Some r \<Rightarrow> div_top al Y k (case r of Inl _ \<Rightarrow> X | Inr X \<Rightarrow> X)
                            (Z\<lparr>mpi_p := (mpi_p Z)[k := mpi_p Z ! k + 1]\<rparr>)
          else None
     else Some (X, Z))"

definition shift_l_unchecked :: "(nat \<Rightarrow> bool) \<Rightarrow> mpi \<Rightarrow> nat \<Rightarrow> mpi option" where
  "shift_l_unchecked al X k =
    (case mpi_shift_l al X k of None \<Rightarrow> None | Some (Inl _) \<Rightarrow> Some X | Some (Inr Y) \<Rightarrow> Some Y)"

definition copy_unchecked :: "(nat \<Rightarrow> bool) \<Rightarrow> mpi \<Rightarrow> mpi \<Rightarrow> mpi" where
  "copy_unchecked al X Y =
    (case mpi_copy al X (That Y) of Some (Inr Z) \<Rightarrow> Z | _ \<Rightarrow> X\<lparr>mpi_s := mpi_s Y\<rparr>)"

text \<open>The normalised division of \<open>X\<close> by \<open>Y\<close>: the remainder and the quotient.\<close>

definition div_normal ::
  "(nat \<Rightarrow> bool) \<Rightarrow> mpi \<Rightarrow> mpi \<Rightarrow> mpi \<Rightarrow> mpi \<Rightarrow> mpi \<Rightarrow> (mpi \<times> mpi) mres" where
  "div_normal al X Y Z T1 T2 =
    (let n = mpi_n X - 1; t = mpi_n Y - 1 in
     case shift_l_unchecked al Y (32 * (n - t)) of
       None \<Rightarrow> None
     | Some Y \<Rightarrow>
        (case div_top al Y (n - t) X Z of
           None \<Rightarrow> None
         | Some (X, Z) \<Rightarrow>
            let Y = mpi_shift_r Y (32 * (n - t)) in
            MPI_CHK (div_loop al Y t n (X, Z, T1, T2)) (\<lambda>(X, Z, T1, T2). ok (X, Z))))"

definition mpi_div_mpi ::
  "(nat \<Rightarrow> bool) \<Rightarrow> nat option \<Rightarrow> nat option \<Rightarrow> nat \<Rightarrow> nat \<Rightarrow> store \<Rightarrow> store mres" where
  "mpi_div_mpi al Q R A B st =
    (if mpi_cmp_int (st B) 0 = 0 then err POLARSSL_ERR_MPI_DIVISION_BY_ZERO
     else if mpi_cmp_abs (st A) (st B) < 0
     then MPI_CHK (case Q of None \<Rightarrow> ok st
                   | Some q \<Rightarrow> MPI_CHK (mpi_lset al (st q) 0) (\<lambda>V. ok (st(q := V)))) (\<lambda>st.
          case R of None \<Rightarrow> ok st
          | Some r \<Rightarrow> MPI_CHK (mpi_copy al (st r) (if r = A then This else That (st A)))
                        (\<lambda>V. ok (st(r := V))))
     else MPI_CHK (mpi_copy al mpi_init (That (st A))) (\<lambda>X.
          MPI_CHK (mpi_copy al mpi_init (That (st B))) (\<lambda>Y.
          let X = X\<lparr>mpi_s := 1\<rparr>; Y = Y\<lparr>mpi_s := 1\<rparr> in
          MPI_CHK (mpi_grow al mpi_init (mpi_n (st A) + 2)) (\<lambda>Z.
          MPI_CHK (mpi_lset al Z 0) (\<lambda>Z.
          MPI_CHK (mpi_grow al mpi_init 2) (\<lambda>T1.
          MPI_CHK (mpi_grow al mpi_init 3) (\<lambda>T2.
          case mpi_msb Y of None \<Rightarrow> None
          | Some m \<Rightarrow>
            MPI_CHK (if m mod 32 < 31
                     then let k = 31 - m mod 32 in
                          MPI_CHK (mpi_shift_l al X k) (\<lambda>X.
                          MPI_CHK (mpi_shift_l al Y k) (\<lambda>Y. ok (X, Y, k)))
                     else ok (X, Y, 0)) (\<lambda>(X, Y, k).
            MPI_CHK (div_normal al X Y Z T1 T2) (\<lambda>(X, Z).
            let st = (case Q of None \<Rightarrow> st
                      | Some q \<Rightarrow>
                         let st = st(q := copy_unchecked al (st q) Z)
                         in st(q := (st q)\<lparr>mpi_s := mpi_s (st A) * mpi_s (st B)\<rparr>));
                st = (case R of None \<Rightarrow> st
                      | Some r \<Rightarrow>
                         let X = mpi_shift_r X k;
                             st = st(r := copy_unchecked al (st r) X);
                             st = st(r := (st r)\<lparr>mpi_s := mpi_s (st A)\<rparr>)
                         in if mpi_cmp_int (st r) 0 = 0 then st(r := (st r)\<lparr>mpi_s := 1\<rparr>) else st)
            in ok st)))))))))"

text \<open>\<open>mpi_div_int\<close> keeps its divisor on the stack: \<open>b\<close> is an address no caller uses.\<close>

definition mpi_div_int ::
  "(nat \<Rightarrow> bool) \<Rightarrow> nat option \<Rightarrow> nat option \<Rightarrow> nat \<Rightarrow> nat \<Rightarrow> int \<Rightarrow> store \<Rightarrow> store mres" where
  "mpi_div_int al Q R A B b st = mpi_div_mpi al Q R A B (st(B := mpi_of_int b))"

partial_function (option) mod_up ::
  "(nat \<Rightarrow> bool) \<Rightarrow> nat \<Rightarrow> nat \<Rightarrow> store \<Rightarrow> store mres" where
  "mod_up al R B st =
    (if mpi_cmp_int (st R) 0 < 0
     then case mpi_add_mpi al (st R) This (if B = R then This else That (st B)) of
            None \<Rightarrow> None
          | Some (Inl e) \<Rightarrow> err e
          | Some (Inr V) \<Rightarrow> mod_up al R B (st(R := V))
     else ok st)"

partial_function (option) mod_down ::
  "(nat \<Rightarrow> bool) \<Rightarrow> nat \<Rightarrow> nat \<Rightarrow> store \<Rightarrow> store mres" where
  "mod_down al R B st =
    (if mpi_cmp_mpi (st R) (st B) \<ge> 0
     then case mpi_sub_mpi al (st R) This (if B = R then This else That (st B)) of
            None \<Rightarrow> None
          | Some (Inl e) \<Rightarrow> err e
          | Some (Inr V) \<Rightarrow> mod_down al R B (st(R := V))
     else ok st)"

definition mpi_mod_mpi ::
  "(nat \<Rightarrow> bool) \<Rightarrow> nat \<Rightarrow> nat \<Rightarrow> nat \<Rightarrow> store \<Rightarrow> store mres" where
  "mpi_mod_mpi al R A B st =
    MPI_CHK (mpi_div_mpi al None (Some R) A B st) (\<lambda>st.
    MPI_CHK (mod_up al R B st) (mod_down al R B))"

end
