(* ===== verification/MpiDivOk.thy ===== *)
theory MpiDivOk
  imports MpiDiv
begin

text \<open>
  Correctness of division: the quotient and the remainder are those of the integers, the
  estimated quotient limb is at most one too large after the correction, and every loop ends.
\<close>

subsection \<open>Leading limbs\<close>

lemma nth_nval: "i < length p \<Longrightarrow> unat (p ! i) = nval p div LB ^ i mod LB"
  by (simp add: nval_div nval_drop_step)

lemma nval_div_small:
  assumes "nval p < LB ^ (i + k)"
  shows "nval p div LB ^ i < LB ^ k"
  using assms by (simp add: power_add less_mult_imp_div_less mult.commute)

lemma div_LB_Suc: "(v :: nat) div LB ^ Suc i = v div LB ^ i div LB"
  by (simp only: power_Suc2 div_mult2_eq)

lemma limb_top:
  assumes "i < length p" "nval p < LB ^ Suc i"
  shows "unat (p ! i) = nval p div LB ^ i"
  using nth_nval [OF assms(1)] nval_div_small [of p i 1] assms(2) by simp

lemma limbs_top2:
  assumes "Suc i < length p" "nval p < LB ^ (i + 2)"
  shows "unat (p ! i) + LB * unat (p ! Suc i) = nval p div LB ^ i"
proof -
  have "unat (p ! Suc i) = nval p div LB ^ i div LB"
    using limb_top [of "Suc i" p] assms unfolding div_LB_Suc by simp
  then show ?thesis using nth_nval [of i p] assms(1) by simp
qed

lemma limbs_top3:
  assumes "i + 2 < length p" "nval p < LB ^ (i + 3)"
  shows "unat (p ! i) + LB * (unat (p ! Suc i) + LB * unat (p ! (i + 2))) = nval p div LB ^ i"
proof -
  have "unat (p ! Suc i) + LB * unat (p ! (i + 2)) = nval p div LB ^ i div LB"
    using limbs_top2 [of "Suc i" p] assms unfolding div_LB_Suc by (simp add: numeral_3_eq_3)
  then show ?thesis using nth_nval [of i p] assms(1) by simp
qed

definition top2 :: "t_int list \<Rightarrow> nat \<Rightarrow> nat" where
  "top2 y t = (if t < 1 then 0 else unat (y ! (t - 1))) + LB * unat (y ! t)"

definition top3 :: "t_int list \<Rightarrow> nat \<Rightarrow> nat" where
  "top3 x i = (if i < 2 then 0 else unat (x ! (i - 2)))
    + LB * ((if i < 1 then 0 else unat (x ! (i - 1))) + LB * unat (x ! i))"

lemma top2_val:
  assumes "t < length y" "nval y < LB ^ Suc t"
  shows "top2 y t = (if t = 0 then LB * nval y else nval y div LB ^ (t - 1))"
  using limb_top [OF assms] limbs_top2 [of "t - 1" y] assms by (cases t) (simp_all add: top2_def)

lemma top3_val:
  assumes "i < length x" "nval x < LB ^ Suc i" "0 < i"
  shows "top3 x i = (if i = 1 then LB * nval x else nval x div LB ^ (i - 2))"
proof (cases "i = 1")
  case True
  then show ?thesis using limbs_top2 [of 0 x] assms by (simp add: top3_def numeral_2_eq_2)
next
  case False
  define j where "j = i - 2"
  have "i = j + 2" using False assms(3) by (simp add: j_def)
  then show ?thesis using limbs_top3 [of j x] assms
    by (simp add: top3_def numeral_3_eq_3 numeral_2_eq_2)
qed

subsection \<open>The estimate\<close>

lemma dbl_join:
  "unat (push_bit 32 (ucast (a :: t_int)) OR ucast (b :: t_int) :: t_dbl) = LB * unat a + unat b"
proof -
  have "push_bit 32 (ucast a) AND ucast b = (0 :: t_dbl)"
    by (rule bit_word_eqI) (auto simp: bit_and_iff bit_push_bit_iff bit_ucast_iff dest: bit_imp_le_length)
  then have "push_bit 32 (ucast a) OR ucast b = push_bit 32 (ucast a) + (ucast b :: t_dbl)"
    by (simp add: disjunctive_add_eq_or)
  moreover have fits: "LB * unat a + unat b < 2 ^ 64"
    using limb_le [of a] limb_less [of b] by (simp add: LB_def)
  have "unat (ucast a :: t_dbl) * 2 ^ 32 < 2 ^ LENGTH(64)"
    using fits by (simp add: LB_def mult.commute)
  then have "unat (push_bit 32 (ucast a :: t_dbl)) = LB * unat a"
    by (subst unat_push_bit) (simp_all add: LB_def mult.commute)
  ultimately show ?thesis using fits by (simp add: unat_word_ariths)
qed

lemma div_estimate_ge:
  assumes "i < mpi_n X" "0 < i" "nval (mpi_p X) < LB ^ Suc i" "mpi_p Y ! t \<noteq> 0"
    "q < LB" "q * unat (mpi_p Y ! t) \<le> nval (mpi_p X) div LB ^ (i - 1)"
  shows "q \<le> unat (div_estimate X Y i t)"
proof (cases "mpi_p X ! i \<ge> mpi_p Y ! t")
  case True
  then show ?thesis using assms(5) by (simp add: div_estimate_def LB_def)
next
  case False
  define v where "v = mpi_p Y ! t"
  define r :: t_dbl where "r = push_bit 32 (ucast (mpi_p X ! i)) OR ucast (mpi_p X ! (i - 1))"
  have "unat (mpi_p X ! (i - 1)) + LB * unat (mpi_p X ! i) = nval (mpi_p X) div LB ^ (i - 1)"
    using limbs_top2 [of "i - 1" "mpi_p X"] assms(1-3) by simp
  moreover have "unat r = LB * unat (mpi_p X ! i) + unat (mpi_p X ! (i - 1))"
    unfolding r_def by (rule dbl_join)
  ultimately have "q * unat v \<le> unat r" using assms(6) by (simp add: v_def)
  then have "q \<le> unat r div unat v"
    using assms(4) by (simp add: less_eq_div_iff_mult_less_eq v_def unat_gt_0)
  then have q: "q \<le> unat (r div ucast v)" by (simp add: unat_div)
  have "unat (2 ^ 32 - 1 :: t_dbl) = LB - 1" by (simp add: LB_def)
  then have "q \<le> unat (ucast (if r div ucast v > 2 ^ 32 - 1 then 2 ^ 32 - 1 else r div ucast v) :: t_int)"
    using q assms(5) by (auto simp: word_less_nat_alt not_less)
  then show ?thesis using False unfolding div_estimate_def Let_def r_def v_def by simp
qed

subsection \<open>The correction\<close>

lemma gives_mul_int:
  "gives al (mpi_mul_int al X A b)
    (\<lambda>Y. mpi_s Y = mpi_s (opnd X A) \<and> nval (mpi_p Y) = nval (mpi_p (opnd X A)) * unat b
       \<and> mpi_n X \<le> mpi_n Y \<and> 0 < mpi_n Y)"
  unfolding mpi_mul_int_def by (rule gives_mono [OF gives_mul_mpi]) simp

lemma nval_set2:
  assumes "2 \<le> length p" "nval p = 0"
  shows "nval (p[0 := a, Suc 0 := b]) = unat a + LB * unat b"
proof -
  obtain x y r where "p = x # y # r" using assms(1) by (auto simp: numeral_2_eq_2 Suc_le_length_iff)
  then show ?thesis using assms(2) by simp
qed

lemma nval_set3:
  assumes "3 \<le> length p" "nval p = 0"
  shows "nval (p[0 := a, Suc 0 := b, Suc (Suc 0) := c]) = unat a + LB * (unat b + LB * unat c)"
proof -
  obtain x y z r where "p = x # y # z # r"
    using assms(1) by (auto simp: numeral_3_eq_3 Suc_le_length_iff)
  then show ?thesis using assms(2) by simp
qed

lemma gives_div_products:
  assumes "t < mpi_n Y" "i < mpi_n X" "2 \<le> mpi_n T1" "3 \<le> mpi_n T2"
  shows "gives al (div_products al X Y i t z (T1, T2))
    (\<lambda>(S1, S2). mpi_s S1 = 1 \<and> mpi_s S2 = 1 \<and> 2 \<le> mpi_n S1 \<and> 3 \<le> mpi_n S2
       \<and> nval (mpi_p S1) = unat z * top2 (mpi_p Y) t \<and> nval (mpi_p S2) = top3 (mpi_p X) i)"
  unfolding div_products_def prod.case Let_def
proof (rule gives_chk [OF gives_lset], goal_cases)
  case (1 A)
  define A' where "A' = A\<lparr>mpi_p := (mpi_p A)[0 := if t < 1 then 0 else mpi_p Y ! (t - 1), 1 := mpi_p Y ! t]\<rparr>"
  have A: "mpi_s A = 1" "nval (mpi_p A) = 0" "2 \<le> mpi_n A" using 1 assms(3) by simp_all
  have A': "mpi_s A' = 1" "nval (mpi_p A') = top2 (mpi_p Y) t" "2 \<le> mpi_n A'"
    using A nval_set2 [OF A(3,2)] by (simp_all add: A'_def top2_def)
  have c: "(\<not> (2 \<le> mpi_n A \<and> t < mpi_n Y \<and> i < mpi_n X)) = False" using A(3) assms by simp
  show ?case
    unfolding c if_False A'_def [symmetric]
  proof (rule gives_chk [OF gives_mul_int], rule gives_chk [OF gives_lset], goal_cases)
    case (1 B C)
    have C: "mpi_s C = 1" "nval (mpi_p C) = 0" "3 \<le> mpi_n C" using 1(2) assms(4) by simp_all
    have n: "(\<not> 3 \<le> mpi_n C) = False" using C(3) by simp
    show ?case
      unfolding n if_False gives_ok prod.case
      using 1(1) A' C(1,3) nval_set3 [OF C(3,2)] by (simp add: top3_def numeral_2_eq_2 mult.commute)
  qed
qed

lemma gives_div_correct:
  assumes "t < mpi_n Y" "i < mpi_n X" "2 \<le> mpi_n T1" "3 \<le> mpi_n T2"
    "q \<le> unat (z - 1)" "q * top2 (mpi_p Y) t \<le> top3 (mpi_p X) i"
  shows "gives al (div_correct al X Y i t z (T1, T2))
    (\<lambda>(z, S1, S2). q \<le> unat z \<and> unat z * top2 (mpi_p Y) t \<le> top3 (mpi_p X) i
       \<and> 2 \<le> mpi_n S1 \<and> 3 \<le> mpi_n S2)"
  using assms(3-5)
proof (induction "unat (z - 1)" arbitrary: z T1 T2 rule: less_induct)
  case less
  let ?P = "\<lambda>(S1, S2). mpi_s S1 = 1 \<and> mpi_s S2 = 1 \<and> 2 \<le> mpi_n S1 \<and> 3 \<le> mpi_n S2
    \<and> nval (mpi_p S1) = unat (z - 1) * top2 (mpi_p Y) t \<and> nval (mpi_p S2) = top3 (mpi_p X) i"
  have prods: "gives al (div_products al X Y i t (z - 1) (T1, T2)) ?P"
    by (rule gives_div_products [OF assms(1,2) less.prems(1,2)])
  show ?case
  proof (cases "div_products al X Y i t (z - 1) (T1, T2)")
    case (Some r)
    show ?thesis
    proof (cases r)
      case (Inr S)
      obtain S1 S2 where S: "S = (S1, S2)" by fastforce
      have P: "mpi_s S1 = 1" "mpi_s S2 = 1" "2 \<le> mpi_n S1" "3 \<le> mpi_n S2"
        "nval (mpi_p S1) = unat (z - 1) * top2 (mpi_p Y) t" "nval (mpi_p S2) = top3 (mpi_p X) i"
        using prods Some Inr S by simp_all
      have cmp: "mpi_cmp_mpi S1 S2 = sgn (mval S1 - mval S2)"
        using P by (intro mpi_cmp_mpi_same) (simp_all add: mpi_ok_def)
      have gt: "mpi_cmp_mpi S1 S2 > 0 \<longleftrightarrow> top3 (mpi_p X) i < unat (z - 1) * top2 (mpi_p Y) t"
        unfolding cmp using P by (simp add: mval_def flip: of_nat_mult)
      have step: "div_correct al X Y i t z (T1, T2) =
          (if mpi_cmp_mpi S1 S2 > 0 then div_correct al X Y i t (z - 1) S else ok (z - 1, S))"
        using Some Inr S by (subst div_correct.simps) simp
      show ?thesis
      proof (cases "mpi_cmp_mpi S1 S2 > 0")
        case True
        then have "q * top2 (mpi_p Y) t < unat (z - 1) * top2 (mpi_p Y) t"
          using gt assms(6) by linarith
        then have "q < unat (z - 1)" by simp
        moreover from this have "unat (z - 1 - 1) = unat (z - 1) - 1"
          by (subst unat_sub_le) simp_all
        ultimately show ?thesis
          using step True S P(3,4) less.hyps [of "z - 1" S1 S2] by simp
      next
        case False
        then show ?thesis using step S P gt less.prems(3) by simp
      qed
    qed (use prods Some in \<open>auto simp: div_correct.simps [of al X Y i t z]\<close>)
  qed (use prods in simp)
qed

subsection \<open>One limb of the quotient\<close>

lemma quot_less:
  assumes "x < y * LB ^ Suc k"
  shows "x div (y * LB ^ k) < LB"
proof -
  have "x < LB * (y * LB ^ k)" using assms by (simp add: ac_simps)
  then show ?thesis by (rule less_mult_imp_div_less)
qed

lemma quot_part: "x div (y * LB ^ k) * (y div LB ^ j) \<le> x div LB ^ (j + k)"
proof -
  let ?q = "x div (y * LB ^ k)"
  have "?q * (y div LB ^ j) * LB ^ (j + k) = ?q * (y div LB ^ j * LB ^ j * LB ^ k)"
    by (simp add: power_add)
  also have "\<dots> \<le> ?q * (y * LB ^ k)" by (intro mult_left_mono mult_right_mono) simp_all
  also have "\<dots> \<le> x" by simp
  finally show ?thesis by (simp add: less_eq_div_iff_mult_less_eq)
qed

definition lead2 :: "nat \<Rightarrow> nat \<Rightarrow> nat" where
  "lead2 y t = (if t = 0 then LB * y else y div LB ^ (t - 1))"

definition lead3 :: "nat \<Rightarrow> nat \<Rightarrow> nat" where
  "lead3 x i = (if i = 1 then LB * x else x div LB ^ (i - 2))"

lemma quot_leads: "x div (y * LB ^ k) * lead2 y t \<le> lead3 x (k + t + 1)"
proof (cases t)
  case 0
  let ?q = "x div (y * LB ^ k)"
  have q: "?q * (y * LB ^ k) \<le> x" by simp
  show ?thesis
  proof (cases k)
    case k0: 0
    have "LB * (?q * (y * LB ^ k)) \<le> LB * x" using q by (rule mult_left_mono) simp
    then show ?thesis using 0 k0 by (simp add: lead2_def lead3_def algebra_simps)
  next
    case (Suc j)
    then have "?q * (LB * y) * LB ^ j \<le> x" using q by (simp add: algebra_simps)
    then show ?thesis using 0 Suc by (simp add: lead2_def lead3_def less_eq_div_iff_mult_less_eq)
  qed
next
  case (Suc j)
  then show ?thesis using quot_part [of x y k j] by (simp add: lead2_def lead3_def add.commute)
qed

lemma leads_bound:
  assumes z: "z * lead2 y t \<le> lead3 x (k + t + 1)" "z < LB" and y: "LB ^ t \<le> y"
  shows "z * (y * LB ^ k) < x + y * LB ^ k"
proof -
  have "0 < y" using y LB_pow_pos [of t] by linarith
  then have pos: "0 < y * LB ^ k" by simp
  show ?thesis
  proof (cases t)
    case 0
    have "z * (y * LB ^ k) \<le> x"
    proof (cases k)
      case k0: 0
      then show ?thesis using z(1) 0 by (simp add: lead2_def lead3_def)
    next
      case (Suc j)
      then have "z * (LB * y) * LB ^ j \<le> x"
        using z(1) 0 by (simp add: lead2_def lead3_def less_eq_div_iff_mult_less_eq)
      then show ?thesis using Suc by (simp add: algebra_simps)
    qed
    then show ?thesis using pos by linarith
  next
    case (Suc j)
    define c where "c = LB ^ (j + k)"
    define u where "u = y div LB ^ j"
    have zu: "z * u * c \<le> x"
      using z(1) Suc by (simp add: lead2_def lead3_def less_eq_div_iff_mult_less_eq c_def u_def add.commute)
    have "y < Suc u * LB ^ j"
      unfolding u_def mult_Suc
      using div_mult_mod_eq [of y "LB ^ j"] mod_less_divisor [OF LB_pow_pos, of y j] by linarith
    then have "z * (y * LB ^ k) \<le> z * (Suc u * LB ^ j * LB ^ k)"
      by (intro mult_left_mono mult_right_mono) simp_all
    also have "\<dots> = z * u * c + z * c" by (simp add: c_def power_add algebra_simps)
    also have "\<dots> < x + LB * c"
      using zu z(2) by (intro add_le_less_mono) (simp_all add: c_def)
    also have "LB * c = LB ^ t * LB ^ k" by (simp add: c_def Suc power_add)
    also have "x + LB ^ t * LB ^ k \<le> x + y * LB ^ k" using y by simp
    finally show ?thesis .
  qed
qed

lemma top2_lead2: "t < length y \<Longrightarrow> nval y < LB ^ Suc t \<Longrightarrow> top2 y t = lead2 (nval y) t"
  by (simp add: top2_val lead2_def)

lemma top3_lead3:
  "i < length x \<Longrightarrow> nval x < LB ^ Suc i \<Longrightarrow> 0 < i \<Longrightarrow> top3 x i = lead3 (nval x) i"
  by (simp add: top3_val lead3_def)

text \<open>
  The invariant of the main loop before the round for limb \<open>i\<close>: the quotient so far times the
  divisor, plus what is left, is the dividend.
\<close>

definition div_inv :: "mpi \<Rightarrow> nat \<Rightarrow> nat \<Rightarrow> nat \<Rightarrow> nat \<Rightarrow> mpi \<times> mpi \<times> mpi \<times> mpi \<Rightarrow> bool" where
  "div_inv Y t n x0 i = (\<lambda>(X, Z, T1, T2).
     mpi_ok X \<and> 0 \<le> mval X \<and> n < mpi_n X \<and> n - t < mpi_n Z \<and> 2 \<le> mpi_n T1 \<and> 3 \<le> mpi_n T2
   \<and> nval (mpi_p X) < nval (mpi_p Y) * LB ^ (i - t)
   \<and> nval (mpi_p Z) * nval (mpi_p Y) + nval (mpi_p X) = x0
   \<and> (\<forall>l < i - t. mpi_p Z ! l = 0))"

lemma mval_nonneg: "mpi_ok X \<Longrightarrow> 0 \<le> mval X \<longleftrightarrow> mpi_s X = 1 \<or> nval (mpi_p X) = 0"
  by (auto simp: mpi_defs)

lemma nval_abs: "mpi_ok X \<Longrightarrow> int (nval (mpi_p X)) = \<bar>mval X\<bar>"
  by (auto simp: mpi_defs)

lemma missing_zero: "nval b = 0 \<Longrightarrow> missing n a b = 0"
proof -
  assume "nval b = 0"
  then have "scan_all b (length b) = 0" by simp
  then show ?thesis using \<open>nval b = 0\<close> by (simp add: missing_def carry_lost_def del: scan_all_0)
qed

text \<open>Subtracting a number that is not larger in size, or none at all, from a non-negative one.\<close>

lemma gives_sub_from:
  assumes "mpi_ok X" "0 \<le> mval X" "mpi_s T = 1" "nval (mpi_p X) = 0 \<longrightarrow> nval (mpi_p T) = 0"
  shows "gives al (mpi_sub_mpi al X This (That T))
    (\<lambda>Y. mpi_ok Y \<and> mpi_n X \<le> mpi_n Y \<and> mval Y = mval X - int (nval (mpi_p T)))"
proof -
  have T: "mpi_ok T" "mval T = int (nval (mpi_p T))" using assms(3) by (simp_all add: mpi_defs)
  have miss: "add_missing X This (That T) = 0" if "mpi_s X \<noteq> mpi_s T"
  proof -
    have "nval (mpi_p T) = 0" using that assms mval_nonneg [OF assms(1)] by auto
    then show ?thesis by (simp add: add_missing_def add_order_def missing_zero)
  qed
  show ?thesis
    using gives_sub_mpi [of X This "That T" al] assms(1) T miss by (simp cong: if_cong)
qed

lemma set_limb:
  assumes "k < length z" "z ! k = 0"
  shows "nval (z[k := w]) = nval z + LB ^ k * unat w"
  using nval_update [OF assms(1), of w] assms(2) by simp

text \<open>What is left after a round with the quotient limb \<open>w\<close> keeps the invariant.\<close>

lemma div_inv_round:
  assumes inv: "div_inv Y t n x0 (Suc (k + t)) (X, Z, T1, T2)"
    and X': "mpi_ok X'" "mpi_n X \<le> mpi_n X'"
      "mval X' = mval X - int (unat w * (nval (mpi_p Y) * LB ^ k))"
      "0 \<le> mval X'" "mval X' < int (nval (mpi_p Y) * LB ^ k)"
    and T: "2 \<le> mpi_n S1" "3 \<le> mpi_n S2" and k: "k + t < n"
  shows "div_inv Y t n x0 (k + t) (X', Z\<lparr>mpi_p := (mpi_p Z)[k := w]\<rparr>, S1, S2)"
proof -
  have inv': "mpi_ok X" "0 \<le> mval X" "n < mpi_n X" "n - t < mpi_n Z"
    "nval (mpi_p Z) * nval (mpi_p Y) + nval (mpi_p X) = x0" "\<forall>l < Suc k. mpi_p Z ! l = 0"
    using inv by (simp_all add: div_inv_def)
  have kz: "k < mpi_n Z" using k inv'(4) by simp
  have z: "nval ((mpi_p Z)[k := w]) = nval (mpi_p Z) + LB ^ k * unat w"
    by (rule set_limb) (use kz inv'(6) in simp_all)
  have x: "int (nval (mpi_p X')) = mval X'" "int (nval (mpi_p X)) = mval X"
    using nval_abs [OF X'(1)] nval_abs [OF inv'(1)] X'(4) inv'(2) by simp_all
  have "int (nval (mpi_p X') + unat w * (nval (mpi_p Y) * LB ^ k)) = int (nval (mpi_p X))"
    unfolding of_nat_add x X'(3) by simp
  then have left: "nval (mpi_p X') + unat w * (nval (mpi_p Y) * LB ^ k) = nval (mpi_p X)"
    by (simp only: of_nat_eq_iff)
  have "nval (mpi_p X') < nval (mpi_p Y) * LB ^ k"
    using X'(5) unfolding x(1) [symmetric] by (simp only: of_nat_less_iff)
  then show ?thesis
    using X'(1,2,4) inv' T left kz z by (auto simp: div_inv_def algebra_simps nth_list_update)
qed

lemma gives_div_step:
  assumes Y: "mpi_s Y = 1" "t < mpi_n Y" "LB ^ t \<le> nval (mpi_p Y)" "nval (mpi_p Y) < LB ^ Suc t"
    and k: "k + t < n" and inv: "div_inv Y t n x0 (Suc (k + t)) (X, Z, T1, T2)"
  shows "gives al (div_step al Y t (Suc (k + t)) (X, Z, T1, T2)) (div_inv Y t n x0 (k + t))"
proof -
  let ?i = "Suc (k + t)"
  define x y where "x = nval (mpi_p X)" and "y = nval (mpi_p Y)"
  define D where "D = y * LB ^ k"
  define q where "q = x div D"
  have inv': "mpi_ok X" "0 \<le> mval X" "n < mpi_n X" "n - t < mpi_n Z" "2 \<le> mpi_n T1" "3 \<le> mpi_n T2"
    "x < y * LB ^ Suc k" using inv by (simp_all add: div_inv_def x_def y_def)
  have mx: "mval X = int x" using nval_abs [OF inv'(1)] inv'(2) by (simp add: x_def)
  have rng: "?i < mpi_n X" "k < mpi_n Z" using inv'(3,4) k by simp_all
  have "y * LB ^ Suc k < LB ^ Suc t * LB ^ Suc k" using Y(4) by (simp add: y_def)
  from less_trans [OF inv'(7) this] have xl: "x < LB ^ Suc ?i" by (simp add: power_add ac_simps)
  have yt: "unat (mpi_p Y ! t) = y div LB ^ t" using limb_top [OF Y(2,4)] by (simp add: y_def)
  have "1 \<le> y div LB ^ t" using Y(3) by (simp add: y_def less_eq_div_iff_mult_less_eq)
  then have yt0: "mpi_p Y ! t \<noteq> 0" using yt by (metis not_one_le_zero unat_0)
  have q: "q < LB" unfolding q_def D_def by (rule quot_less [OF inv'(7)])
  have "q * unat (mpi_p Y ! t) \<le> x div LB ^ (?i - 1)"
    unfolding yt q_def D_def using quot_part [of x y k t] by (simp add: add.commute)
  then have est: "q \<le> unat (div_estimate X Y ?i t + 1 - 1)"
    using div_estimate_ge [of ?i X Y t q] rng xl yt0 q by (simp add: x_def)
  have t2: "top2 (mpi_p Y) t = lead2 y t" using top2_lead2 [OF Y(2,4)] by (simp add: y_def)
  have t3: "top3 (mpi_p X) ?i = lead3 x ?i" using top3_lead3 [OF rng(1)] xl by (simp add: x_def)
  have leads: "q * top2 (mpi_p Y) t \<le> top3 (mpi_p X) ?i"
    unfolding t2 t3 q_def D_def using quot_leads [of x y k t] by simp
  have "0 < y" using Y(3) LB_pow_pos [of t] unfolding y_def by linarith
  then have D0: "0 < D" by (simp add: D_def)
  have qd: "x < q * D + D" unfolding q_def using dividend_less_div_times [OF D0, of x] by (simp add: add.commute)
  have guard: "(\<not> (?i < mpi_n X \<and> t < mpi_n Y \<and> k < mpi_n Z)) = False" "?i - t - 1 = k"
    using rng Y(2) by simp_all
  show ?thesis
    unfolding div_step_def prod.case Let_def guard(2)
    unfolding guard(1) if_False
  proof (rule gives_chk [OF gives_div_correct [OF Y(2) rng(1) inv'(5,6) est leads]], clarify, goal_cases)
    case (1 z S1 S2)
    have zD: "unat z * D < x + D"
      using leads_bound [of "unat z" y t x k] 1(2) Y(3) by (simp add: t2 t3 D_def y_def)
    have z0: "x = 0 \<longrightarrow> unat z = 0" using zD D0 by (cases "unat z") simp_all
    have qz: "q * D \<le> unat z * D" using 1(1) by simp
    have ins: "nval (mpi_p Y) * LB ^ k = D" by (simp add: D_def y_def)
    show ?case
    proof (rule gives_chk [OF gives_mul_int], rule gives_chk [OF gives_shift_l], fastforce,
        rule gives_chk [OF gives_sub_from [OF inv'(1,2)]], goal_cases)
      case (1 A B)
      then show ?case using Y(1) by simp
    next
      case (2 A B)
      then show ?case using z0 by (simp add: x_def)
    next
      case (3 A B C)
      have B: "nval (mpi_p B) = unat z * D" "2 \<le> mpi_n B"
        using 3(1,2) 1(3) by (auto simp: D_def y_def LB_pow)
      have C: "mpi_ok C" "mpi_n X \<le> mpi_n C" "mval C = mval X - int (unat z * D)"
        using 3(3) B by simp_all
      show ?case
      proof (cases "mval C < 0")
        case False
        have "int x < int (unat z * D + D)" using qd qz unfolding of_nat_less_iff by linarith
        then have "mval C < int D" using C(3) mx unfolding of_nat_add by linarith
        then have "div_inv Y t n x0 (k + t) (C, Z\<lparr>mpi_p := (mpi_p Z)[k := z]\<rparr>, B, S2)"
          using False C B 1(4) by (intro div_inv_round [OF inv _ _ _ _ _ _ _ k]) (simp_all add: ins)
        then show ?thesis using False C(1) by (simp add: mpi_cmp_int_0)
      next
        case True
        then have c: "mpi_cmp_int C 0 < 0" using C(1) by (simp add: mpi_cmp_int_0)
        have Cs: "mpi_s C = - 1" using True C(1) by (auto simp: mpi_defs)
        have z1: "unat (z - 1) = unat z - 1" "1 \<le> unat z"
        proof -
          show "1 \<le> unat z" using True C(3) mx by (cases "unat z") simp_all
          then show "unat (z - 1) = unat z - 1" by (subst unat_sub_le) simp_all
        qed
        show ?thesis
          unfolding if_P [OF c]
        proof (rule gives_chk [OF gives_copy], rule gives_chk [OF gives_shift_l], use B in force,
            rule gives_chk [OF gives_add_mpi], goal_cases)
          case (4 E F G)
          have F: "mpi_s F = 1" "nval (mpi_p F) = D" "2 \<le> mpi_n F"
            using 4(1,2) Y(1) B(2) by (auto simp: D_def y_def LB_pow)
          then have "mval G = mval C + int D" using 4(3) Cs by (simp add: mval_def)
          then have "mval G = mval X - int (unat (z - 1) * D)"
            unfolding C(3) z1(1) using z1(2) by (simp add: diff_mult_distrib of_nat_diff)
          moreover have "0 \<le> mval G" "mval G < int D"
            using \<open>mval G = mval C + int D\<close> True C(3) mx zD by (simp_all flip: of_nat_mult)
          ultimately have "div_inv Y t n x0 (k + t) (G, Z\<lparr>mpi_p := (mpi_p Z)[k := z - 1]\<rparr>, F, S2)"
            using 4(3) C(2) F 1(4) by (intro div_inv_round [OF inv _ _ _ _ _ _ _ k]) (simp_all add: ins)
          then show ?case by simp
        qed (use C(1) Y(1) in \<open>auto simp: mpi_ok_def\<close>)
      qed
    qed
  qed
qed

lemma gives_div_loop:
  assumes Y: "mpi_s Y = 1" "t < mpi_n Y" "LB ^ t \<le> nval (mpi_p Y)" "nval (mpi_p Y) < LB ^ Suc t"
    and "t \<le> i" "i \<le> n" and inv: "div_inv Y t n x0 i S"
  shows "gives al (div_loop al Y t i S) (div_inv Y t n x0 t)"
  using assms(5-)
proof (induction i arbitrary: S)
  case (Suc i)
  show ?case
  proof (cases "t < Suc i")
    case True
    obtain X Z T1 T2 where S: "S = (X, Z, T1, T2)" by (metis prod_cases4)
    have i: "Suc (i - t + t) = Suc i" "i - t + t < n" using True Suc.prems by simp_all
    have "gives al (div_step al Y t (Suc i) S) (div_inv Y t n x0 i)"
      using gives_div_step [OF Y i(2), of x0 X Z T1 T2 al] Suc.prems(3) True by (simp add: S)
    then show ?thesis
      using True Suc by (simp, elim gives_chk) (rule Suc.IH, simp_all)
  next
    case False
    with Suc.prems show ?thesis by simp
  qed
qed simp

subsection \<open>The leading limb of the quotient\<close>

lemma div_top_ok:
  assumes "mpi_s X = 1" "mpi_s Y = 1" "k < mpi_n Z" "0 < nval (mpi_p Y)"
    "unat (mpi_p Z ! k) + nval (mpi_p X) div nval (mpi_p Y) < LB"
  shows "\<exists>X' Z'. div_top al Y k X Z = Some (X', Z') \<and> mpi_s X' = 1 \<and> mpi_n X \<le> mpi_n X'
    \<and> mpi_n Z' = mpi_n Z \<and> nval (mpi_p X') = nval (mpi_p X) mod nval (mpi_p Y)
    \<and> (\<forall>l. l \<noteq> k \<longrightarrow> mpi_p Z' ! l = mpi_p Z ! l)
    \<and> nval (mpi_p Z') = nval (mpi_p Z) + LB ^ k * (nval (mpi_p X) div nval (mpi_p Y))"
  using assms
proof (induction "nval (mpi_p X)" arbitrary: X Z rule: less_induct)
  case less
  let ?x = "nval (mpi_p X)" and ?y = "nval (mpi_p Y)"
  have cmp: "0 \<le> mpi_cmp_mpi X Y \<longleftrightarrow> ?y \<le> ?x"
    using less.prems by (simp add: mpi_cmp_mpi_same mpi_ok_def mval_def sgn_if)
  show ?case
  proof (cases "?y \<le> ?x")
    case False
    then show ?thesis using cmp less.prems by (subst div_top.simps) simp
  next
    case True
    have "mpi_sub_mpi al X This (That Y)
        = MPI_CHK (mpi_sub_abs al X This (That Y)) (\<lambda>X. ok (X\<lparr>mpi_s := 1\<rparr>))"
      using True less.prems by (simp add: mpi_sub_mpi_def)
    moreover have "\<not> mpi_cmp_abs X Y < 0" using True by simp
    then have "mpi_sub_abs al X This (That Y) = (case mpi_sub_hlp (scan_all (mpi_p Y) (mpi_n Y))
        (mpi_p Y) (mpi_p X) of None \<Rightarrow> None | Some p \<Rightarrow> ok (X\<lparr>mpi_p := p\<rparr>))"
      by (simp add: mpi_sub_abs_def del: mpi_cmp_abs_less)
    moreover have "scan_all (mpi_p Y) (mpi_n Y) \<le> mpi_n X"
      using scan_all_mono [OF True] scan_all_le le_trans by blast
    then obtain p where "mpi_sub_hlp (scan_all (mpi_p Y) (mpi_n Y)) (mpi_p Y) (mpi_p X) = Some p"
      "length p = mpi_n X" "nval p + ?y = ?x"
      using mpi_sub_hlp_ok [of "scan_all (mpi_p Y) (mpi_n Y)" "mpi_p Y" "mpi_p X"] True scan_all_le
      by auto
    ultimately obtain X1 where X1: "mpi_sub_mpi al X This (That Y) = ok X1" "mpi_s X1 = 1"
      "mpi_n X1 = mpi_n X" "nval (mpi_p X1) + ?y = ?x" by simp
    define Z1 where "Z1 = Z\<lparr>mpi_p := (mpi_p Z)[k := mpi_p Z ! k + 1]\<rparr>"
    have step: "div_top al Y k X Z = div_top al Y k X1 Z1"
      using True cmp less.prems(3) X1(1) by (subst div_top.simps) (simp add: Z1_def)
    have d: "?x div ?y = Suc (nval (mpi_p X1) div ?y)" "?x mod ?y = nval (mpi_p X1) mod ?y"
      using less.prems(4) by (simp_all add: div_add_self2 flip: X1(4))
    have u: "unat (mpi_p Z ! k + 1) = unat (mpi_p Z ! k) + 1"
      using less.prems(5) d(1) by (subst unat_add_small) (simp_all add: LB_def)
    have "nval (mpi_p Z1) = nval (mpi_p Z) + LB ^ k"
      using nval_update [OF less.prems(3), of "mpi_p Z ! k + 1"] u by (simp add: Z1_def)
    moreover have "nval (mpi_p X1) < ?x" using X1(4) less.prems(4) by linarith
    moreover have "unat (mpi_p Z1 ! k) + nval (mpi_p X1) div ?y < LB"
      using less.prems(3,5) d(1) u by (simp add: Z1_def)
    ultimately show ?thesis
      using less.hyps [of X1 Z1] X1 less.prems step d by (auto simp: Z1_def)
  qed
qed

subsection \<open>Division\<close>

lemma shift_l_unchecked_ok:
  assumes "\<forall>k. al k" "mpi_p X \<noteq> []"
  shows "\<exists>Y. shift_l_unchecked al X k = Some Y \<and> mpi_s Y = mpi_s X
    \<and> nval (mpi_p Y) = 2 ^ k * nval (mpi_p X) \<and> mpi_n X \<le> mpi_n Y"
  using gives_total [OF gives_shift_l [OF assms(2), of al k] assms(1)]
  by (auto simp: shift_l_unchecked_def)

lemma div_normal_ok:
  assumes al: "\<forall>k. al k" and X: "mpi_s X = 1" "0 < mpi_n X"
    and Y: "mpi_s Y = 1" "mpi_n Y = Suc t" "LB ^ t \<le> nval (mpi_p Y)"
    and le: "nval (mpi_p Y) \<le> nval (mpi_p X)"
    and Z: "mpi_n X - 1 - t < mpi_n Z" "nval (mpi_p Z) = 0" and T: "2 \<le> mpi_n T1" "3 \<le> mpi_n T2"
  shows "\<exists>X' Z'. div_normal al X Y Z T1 T2 = ok (X', Z') \<and> mpi_ok X' \<and> 0 \<le> mval X'
    \<and> nval (mpi_p X') = nval (mpi_p X) mod nval (mpi_p Y)
    \<and> nval (mpi_p Z') = nval (mpi_p X) div nval (mpi_p Y)"
proof -
  define n where "n = mpi_n X - 1"
  let ?x = "nval (mpi_p X)" and ?y = "nval (mpi_p Y)"
  have nX: "mpi_n X = Suc n" using X(2) by (simp add: n_def)
  have xl: "?x < LB ^ Suc n" using nval_less [of "mpi_p X"] by (simp add: nX)
  have "LB ^ t < LB ^ Suc n" using Y(3) le xl by linarith
  then have tn: "t \<le> n" by (simp only: power_strict_increasing_iff [OF LB_gt_1] less_Suc_eq_le)
  have "mpi_p Y \<noteq> []" using Y(2) by auto
  from shift_l_unchecked_ok [OF al this, of "32 * (n - t)"] obtain Y1 where
    Y1: "shift_l_unchecked al Y (32 * (n - t)) = Some Y1" "mpi_s Y1 = 1"
    "nval (mpi_p Y1) = ?y * LB ^ (n - t)" "mpi_n Y \<le> mpi_n Y1"
    using Y(1) by (auto simp: LB_pow)
  have y0: "0 < ?y" using Y(3) LB_pow_pos [of t] by linarith
  have "LB ^ n \<le> nval (mpi_p Y1)"
    unfolding Y1(3) using mult_right_mono [OF Y(3), of "LB ^ (n - t)"] tn by (simp flip: power_add)
  then have "LB ^ Suc n \<le> LB * nval (mpi_p Y1)" by simp
  then have "?x < LB * nval (mpi_p Y1)" using xl by linarith
  then have q0: "?x div nval (mpi_p Y1) < LB" by (rule less_mult_imp_div_less)
  have z0: "mpi_p Z ! l = 0" if "l < mpi_n Z" for l using Z(2) that by (simp add: nval_zeros)
  from div_top_ok [of X Y1 "n - t" Z al] X(1) Y1 y0 Z q0 z0 obtain X1 Z1 where
    X1: "div_top al Y1 (n - t) X Z = Some (X1, Z1)" "mpi_s X1 = 1" "mpi_n X \<le> mpi_n X1"
    "mpi_n Z1 = mpi_n Z" "nval (mpi_p X1) = ?x mod nval (mpi_p Y1)"
    "\<forall>l. l \<noteq> n - t \<longrightarrow> mpi_p Z1 ! l = mpi_p Z ! l"
    "nval (mpi_p Z1) = LB ^ (n - t) * (?x div nval (mpi_p Y1))"
    by (auto simp: n_def [symmetric] nX)
  define Y2 where "Y2 = mpi_shift_r Y1 (32 * (n - t))"
  have Y2: "mpi_s Y2 = 1" "t < mpi_n Y2" "nval (mpi_p Y2) = ?y"
    using mpi_shift_r_ok [of Y1 "32 * (n - t)"] Y1 Y(2) by (simp_all add: Y2_def LB_pow [symmetric])
  have yl: "?y < LB ^ Suc t" using nval_less [of "mpi_p Y"] by (simp add: Y(2))
  have "?x div nval (mpi_p Y1) * nval (mpi_p Y1) + ?x mod nval (mpi_p Y1) = ?x" by simp
  then have "nval (mpi_p Z1) * ?y + nval (mpi_p X1) = ?x"
    unfolding X1(5,7) Y1(3) by (simp add: ac_simps)
  moreover have "nval (mpi_p X1) < nval (mpi_p Y2) * LB ^ (n - t)"
    unfolding X1(5) Y1(3) Y2(3) using y0 by simp
  ultimately have inv: "div_inv Y2 t n ?x n (X1, Z1, T1, T2)"
    using X1 z0 Z T nX tn Y2(3) by (auto simp: div_inv_def mpi_ok_def mval_def n_def [symmetric])
  from gives_total [OF gives_div_loop [OF Y2(1,2) _ _ tn order_refl inv, of al] al] Y2(3) Y(3) yl
  obtain X3 Z3 S1 S2 where R: "div_loop al Y2 t n (X1, Z1, T1, T2) = ok (X3, Z3, S1, S2)"
    "div_inv Y2 t n ?x t (X3, Z3, S1, S2)" by auto
  then have D: "nval (mpi_p Z3) * ?y + nval (mpi_p X3) = ?x" "nval (mpi_p X3) < ?y"
    "mpi_ok X3" "0 \<le> mval X3" using Y2(3) by (simp_all add: div_inv_def)
  then have "nval (mpi_p X3) = ?x mod ?y" "nval (mpi_p Z3) = ?x div ?y"
    by (metis add.commute mod_less mod_mult_self2 mult.commute)
      (metis D(1,2) div_less div_mult_self4 add_0 add.commute y0 mult.commute less_numeral_extra(3))
  moreover have "div_normal al X Y Z T1 T2 = ok (X3, Z3)"
    using Y1(1) X1(1) R(1) Y(2) by (simp add: div_normal_def nX Y2_def [symmetric] Let_def)
  ultimately show ?thesis using D(3,4) by auto
qed

lemma copy_unchecked_ok:
  assumes "\<forall>k. al k"
  shows "mpi_s (copy_unchecked al X Y) = mpi_s Y" "nval (mpi_p (copy_unchecked al X Y)) = nval (mpi_p Y)"
  using gives_total [OF gives_copy [of al X Y] assms] by (auto simp: copy_unchecked_def)

text \<open>A trimmed number: its leading limb is not zero.\<close>

definition trimmed :: "mpi \<Rightarrow> bool" where
  "trimmed X \<longleftrightarrow> 0 < mpi_n X \<and> LB ^ (mpi_n X - 1) \<le> nval (mpi_p X)"

lemma gives_copy_trimmed:
  assumes "0 < nval (mpi_p Y)"
  shows "gives al (mpi_copy al mpi_init (That Y))
    (\<lambda>Z. trimmed Z \<and> mpi_s Z = mpi_s Y \<and> nval (mpi_p Z) = nval (mpi_p Y) \<and> mpi_n Z \<le> mpi_n Y)"
proof (rule gives_mono [OF gives_copy], goal_cases)
  case (1 Z)
  have "0 < scan_all (mpi_p Y) (mpi_n Y)" using assms scan_all_0 [of "mpi_p Y"] by linarith
  moreover from this have "scan_pos (mpi_p Y) (mpi_n Y) = scan_all (mpi_p Y) (mpi_n Y)"
    using scan_all_le [of "mpi_p Y" "mpi_n Y"] by (auto simp: scan_pos_scan_all)
  ultimately show ?case
    using 1 scan_all_ge [of "mpi_p Y"] scan_all_le [of "mpi_p Y" "mpi_n Y"]
    by (simp add: trimmed_def mpi_init_def del: scan_all_0)
qed

lemma gives_shift_l_trimmed:
  assumes "trimmed X" "k < 32"
  shows "gives al (mpi_shift_l al X k)
    (\<lambda>Y. trimmed Y \<and> mpi_s Y = mpi_s X \<and> nval (mpi_p Y) = 2 ^ k * nval (mpi_p X)
       \<and> mpi_n Y \<le> mpi_n X + 1)"
proof -
  have ne: "mpi_p X \<noteq> []" using assms(1) by (auto simp: trimmed_def)
  from mpi_msb_ok [OF ne] obtain m where m: "mpi_msb X = Some m"
    "0 < m \<longrightarrow> 2 ^ (m - 1) \<le> nval (mpi_p X)" "m \<le> 32 * mpi_n X" "nval (mpi_p X) < 2 ^ m" by auto
  have m0: "0 < m" using m(4) assms(1) LB_pow_pos [of "mpi_n X - 1"]
    by (cases m) (auto simp: trimmed_def)
  have *: "LB ^ (mpi_n Y - 1) \<le> 2 ^ k * nval (mpi_p X)" if "mpi_n Y = max (mpi_n X) (BITS_TO_LIMBS (m + k))" for Y
  proof (cases "mpi_n Y = mpi_n X")
    case True
    have "1 * nval (mpi_p X) \<le> 2 ^ k * nval (mpi_p X)" by (rule mult_right_mono) simp_all
    moreover have "LB ^ (mpi_n Y - 1) \<le> nval (mpi_p X)" using True assms(1) by (simp add: trimmed_def)
    ultimately show ?thesis by linarith
  next
    case False
    then have "32 * (mpi_n Y - 1) \<le> m - 1 + k" using that m0 by (auto simp: BITS_TO_LIMBS_def max_def)
    then have "LB ^ (mpi_n Y - 1) \<le> 2 ^ (m - 1 + k)" unfolding LB_pow by (intro power_increasing) simp_all
    also have "\<dots> = 2 ^ k * 2 ^ (m - 1)" by (simp add: power_add)
    also have "\<dots> \<le> 2 ^ k * nval (mpi_p X)" using m(2) m0 by simp
    finally show ?thesis .
  qed
  show ?thesis
    by (rule gives_mono [OF gives_shift_l [OF ne]])
      (use m(1,3) * assms in \<open>auto simp: trimmed_def BITS_TO_LIMBS_def less_max_iff_disj\<close>)
qed

text \<open>Both are scaled by the same power of two.\<close>

lemma gives_normalise:
  assumes "trimmed X" "trimmed Y"
  shows "gives al (if m mod 32 < 31
       then let k = 31 - m mod 32 in
            MPI_CHK (mpi_shift_l al X k) (\<lambda>X. MPI_CHK (mpi_shift_l al Y k) (\<lambda>Y. ok (X, Y, k)))
       else ok (X, Y, 0))
    (\<lambda>(X', Y', k). trimmed X' \<and> trimmed Y' \<and> mpi_s X' = mpi_s X \<and> mpi_s Y' = mpi_s Y
       \<and> nval (mpi_p X') = 2 ^ k * nval (mpi_p X) \<and> nval (mpi_p Y') = 2 ^ k * nval (mpi_p Y)
       \<and> mpi_n X' \<le> mpi_n X + 1)"
proof (cases "m mod 32 < 31")
  case True
  then have k: "31 - m mod 32 < 32" by simp
  show ?thesis
    unfolding if_P [OF True] Let_def
    by (rule gives_chk [OF gives_shift_l_trimmed [OF assms(1) k]],
        rule gives_chk [OF gives_shift_l_trimmed [OF assms(2) k]]) simp
qed (use assms in simp)

text \<open>The part of \<open>mpi_div_mpi\<close> that computes, as one step.\<close>

definition div_compute :: "(nat \<Rightarrow> bool) \<Rightarrow> mpi \<Rightarrow> mpi \<Rightarrow> (mpi \<times> mpi \<times> nat) mres" where
  "div_compute al A B =
    MPI_CHK (mpi_copy al mpi_init (That A)) (\<lambda>X.
    MPI_CHK (mpi_copy al mpi_init (That B)) (\<lambda>Y.
    let X = X\<lparr>mpi_s := 1\<rparr>; Y = Y\<lparr>mpi_s := 1\<rparr> in
    MPI_CHK (mpi_grow al mpi_init (mpi_n A + 2)) (\<lambda>Z.
    MPI_CHK (mpi_lset al Z 0) (\<lambda>Z.
    MPI_CHK (mpi_grow al mpi_init 2) (\<lambda>T1.
    MPI_CHK (mpi_grow al mpi_init 3) (\<lambda>T2.
    case mpi_msb Y of None \<Rightarrow> None
    | Some m \<Rightarrow>
      MPI_CHK (if m mod 32 < 31
               then let k = 31 - m mod 32 in
                    MPI_CHK (mpi_shift_l al X k) (\<lambda>X.
                    MPI_CHK (mpi_shift_l al Y k) (\<lambda>Y. ok (X, Y, k)))
               else ok (X, Y, 0)) (\<lambda>(X, Y, k).
      MPI_CHK (div_normal al X Y Z T1 T2) (\<lambda>(X, Z). ok (X, Z, k)))))))))"

lemma MPI_CHK_assoc: "MPI_CHK (MPI_CHK m f) g = MPI_CHK m (\<lambda>x. MPI_CHK (f x) g)"
  by (simp add: MPI_CHK_def split: option.splits sum.splits)

lemma mpi_div_mpi_compute:
  assumes "mpi_cmp_int (st B) 0 \<noteq> 0" "\<not> mpi_cmp_abs (st A) (st B) < 0"
  shows "mpi_div_mpi al Q R A B st = MPI_CHK (div_compute al (st A) (st B)) (\<lambda>(X, Z, k).
      let st = (case Q of None \<Rightarrow> st
                | Some q \<Rightarrow>
                   let st = st(q := copy_unchecked al (st q) Z)
                   in st(q := (st q)\<lparr>mpi_s := mpi_s (st A) * mpi_s (st B)\<rparr>));
          st = (case R of None \<Rightarrow> st
                | Some r \<Rightarrow>
                   let X = mpi_shift_r X k;
                       st = st(r := copy_unchecked al (st r) X);
                       st = st(r := (st r)\<lparr>mpi_s := mpi_s (st A)\<rparr>)
                   in if mpi_cmp_int (st r) 0 = 0 then st(r := (st r)\<lparr>mpi_s := 1\<rparr>) else st)
      in ok st)"
proof -
  have split: "MPI_CHK (case m of (X, Y, k) \<Rightarrow> MPI_CHK (f X Y) (\<lambda>(X, Z). ok (X, Z, k))) g
      = (case m of (X, Y, k) \<Rightarrow> MPI_CHK (f X Y) (\<lambda>(X, Z). g (X, Z, k)))"
    for m :: "mpi \<times> mpi \<times> nat" and f :: "mpi \<Rightarrow> mpi \<Rightarrow> (mpi \<times> mpi) mres" and g :: "mpi \<times> mpi \<times> nat \<Rightarrow> store mres"
    by (cases m) (simp add: MPI_CHK_assoc, simp add: MPI_CHK_def split: option.splits sum.splits)
  have msb: "MPI_CHK (case w of None \<Rightarrow> None | Some m \<Rightarrow> f m) g = (case w of None \<Rightarrow> None | Some m \<Rightarrow> MPI_CHK (f m) g)"
    for w :: "nat option" and f :: "nat \<Rightarrow> (mpi \<times> mpi \<times> nat) mres" and g :: "mpi \<times> mpi \<times> nat \<Rightarrow> store mres"
    by (cases w) simp_all
  show ?thesis
    unfolding mpi_div_mpi_def div_compute_def using assms
    by (simp only: if_False MPI_CHK_assoc Let_def msb split prod.case)
qed

lemma div_compute_ok:
  assumes al: "\<forall>k. al k" and B: "0 < nval (mpi_p B)" "nval (mpi_p B) \<le> nval (mpi_p A)"
  shows "\<exists>X Z k. div_compute al A B = ok (X, Z, k) \<and> mpi_ok X \<and> 0 \<le> mval X
    \<and> nval (mpi_p X) div 2 ^ k = nval (mpi_p A) mod nval (mpi_p B)
    \<and> nval (mpi_p Z) = nval (mpi_p A) div nval (mpi_p B)"
proof -
  have A: "0 < nval (mpi_p A)" using B by linarith
  have "gives al (div_compute al A B) (\<lambda>(X, Z, k). mpi_ok X \<and> 0 \<le> mval X
    \<and> nval (mpi_p X) div 2 ^ k = nval (mpi_p A) mod nval (mpi_p B)
    \<and> nval (mpi_p Z) = nval (mpi_p A) div nval (mpi_p B))"
    unfolding div_compute_def Let_def
  proof (rule gives_chk [OF gives_copy_trimmed [OF A]], rule gives_chk [OF gives_copy_trimmed [OF B(1)]],
      rule gives_chk [OF gives_grow], rule gives_chk [OF gives_lset], rule gives_chk [OF gives_grow],
      rule gives_chk [OF gives_grow], goal_cases)
    case (1 X Y Z0 Z T1 T2)
    have "mpi_p (Y\<lparr>mpi_s := 1\<rparr>) \<noteq> []" using 1(2) by (auto simp: trimmed_def)
    from mpi_msb_bitlen [OF this] obtain m where m: "mpi_msb (Y\<lparr>mpi_s := 1\<rparr>) = Some m" by auto
    have tr: "trimmed (X\<lparr>mpi_s := 1\<rparr>)" "trimmed (Y\<lparr>mpi_s := 1\<rparr>)" using 1(1,2) by (simp_all add: trimmed_def)
    have Z: "mpi_n Z = mpi_n A + 2" "nval (mpi_p Z) = 0" using 1(3,4) by (simp_all add: mpi_init_def)
    have T: "2 \<le> mpi_n T1" "3 \<le> mpi_n T2" using 1(5,6) by (simp_all add: mpi_init_def)
    show ?case
      unfolding m option.case
    proof (rule gives_chk [OF gives_normalise [OF tr, unfolded Let_def]], clarify, goal_cases)
      case (1 X' Y' k)
      define t where "t = mpi_n Y' - 1"
      have Y': "mpi_n Y' = Suc t" "LB ^ t \<le> nval (mpi_p Y')" using 1(2) by (simp_all add: trimmed_def t_def)
      have v: "nval (mpi_p X') = 2 ^ k * nval (mpi_p A)" "nval (mpi_p Y') = 2 ^ k * nval (mpi_p B)"
        using 1 \<open>trimmed X \<and> _\<close> \<open>trimmed Y \<and> _\<close> by simp_all
      have "\<exists>X'' Z'. div_normal al X' Y' Z T1 T2 = ok (X'', Z') \<and> mpi_ok X'' \<and> 0 \<le> mval X''
        \<and> nval (mpi_p X'') = nval (mpi_p X') mod nval (mpi_p Y')
        \<and> nval (mpi_p Z') = nval (mpi_p X') div nval (mpi_p Y')"
        using 1 Y' Z T v B(2) \<open>trimmed X \<and> _\<close>
        by (intro div_normal_ok [OF al]) (auto simp: trimmed_def)
      then show ?case using v by (auto simp: mult_mod_right [symmetric])
    qed
  qed
  from gives_total [OF this al] show ?thesis by auto
qed

lemma mpi_ok_set [simp]: "mpi_ok (X\<lparr>mpi_s := 1\<rparr>)" "mpi_ok A \<Longrightarrow> mpi_ok B \<Longrightarrow> mpi_ok (X\<lparr>mpi_s := mpi_s A * mpi_s B\<rparr>)"
    "mpi_ok A \<Longrightarrow> mpi_ok (X\<lparr>mpi_s := mpi_s A\<rparr>)"
  by (auto simp: mpi_ok_def)

text \<open>
  Division, with the quotient and the remainder at addresses of their own; the remainder may
  also take the place of the dividend, and then it loses the dividend's sign.
\<close>

lemma mpi_div_ok:
  fixes st :: store and A B :: nat
  defines "a \<equiv> nval (mpi_p (st A))" and "b \<equiv> nval (mpi_p (st B))"
  assumes al: "\<forall>k. al k" and okA: "mpi_ok (st A)" and okB: "mpi_ok (st B)" and b0: "b \<noteq> 0"
    and Q: "\<forall>q. Q = Some q \<longrightarrow> q \<noteq> A \<and> q \<noteq> B \<and> R \<noteq> Some q" and R: "R \<noteq> Some B"
  shows "\<exists>st'. mpi_div_mpi al Q R A B st = ok st'
    \<and> (\<forall>i. Q \<noteq> Some i \<longrightarrow> R \<noteq> Some i \<longrightarrow> st' i = st i)
    \<and> (\<forall>q. Q = Some q \<longrightarrow> mpi_ok (st' q)
         \<and> mval (st' q) = mpi_s (st A) * mpi_s (st B) * int (a div b))
    \<and> (\<forall>r. R = Some r \<longrightarrow> mpi_ok (st' r)
         \<and> mval (st' r) = (if r = A \<and> b \<le> a then 1 else mpi_s (st A)) * int (a mod b)
         \<and> (nval (mpi_p (st' r)) = 0 \<longrightarrow> mpi_s (st' r) = 1 \<or> (a = 0 \<and> mpi_s (st' r) = mpi_s (st A))))"
proof -
  have cB: "mpi_cmp_int (st B) 0 \<noteq> 0"
    using okB b0 by (auto simp: mpi_cmp_int_0 sgn_if mval_def mpi_ok_def b_def)
  show ?thesis
  proof (cases "a < b")
    case True
    then have c: "mpi_cmp_abs (st A) (st B) < 0" by (simp add: a_def b_def)
    have ab: "a div b = 0" "a mod b = a" using True by simp_all
    from gives_total [OF gives_lset [of al _ 0] al]
    have lset: "\<exists>V. mpi_lset al X 0 = ok V \<and> mpi_s V = 1 \<and> nval (mpi_p V) = 0" for X
      by (fastforce simp: ex_in_conv)
    from gives_total [OF gives_copy al]
    have copy: "\<exists>V. mpi_copy al X (That Y) = ok V \<and> mpi_s V = mpi_s Y \<and> nval (mpi_p V) = nval (mpi_p Y)" for X Y
      by (metis (no_types, lifting))
    have copyA: "\<exists>V. mpi_copy al (S r) (if r = A then This else That (S A)) = ok V
        \<and> mpi_s V = mpi_s (st A) \<and> nval (mpi_p V) = a" if "S A = st A" for S r
      using copy [of "S r" "S A"] that by (auto simp: mpi_copy_def a_def)
    define st1 where "st1 = (case Q of None \<Rightarrow> st | Some q \<Rightarrow> st(q := projr (the (mpi_lset al (st q) 0))))"
    have st1: "(case Q of None \<Rightarrow> ok st | Some q \<Rightarrow> MPI_CHK (mpi_lset al (st q) 0) (\<lambda>V. ok (st(q := V)))) = ok st1"
    proof (cases Q)
      case (Some q)
      then show ?thesis using lset [of "st q"] by (auto simp: st1_def)
    qed (simp add: st1_def)
    have st1A: "st1 A = st A" using Q by (auto simp: st1_def split: option.splits)
    have st1q: "mpi_s (st1 q) = 1 \<and> nval (mpi_p (st1 q)) = 0" if "Q = Some q" for q
      using lset [of "st q"] that by (auto simp: st1_def)
    have st1o: "st1 i = st i" if "Q \<noteq> Some i" for i
      using that by (auto simp: st1_def split: option.splits)
    show ?thesis
    proof (cases R)
      case None
      then show ?thesis
        using cB c st1 st1q st1o ab by (auto simp: mpi_div_mpi_def mval_def mpi_ok_def)
    next
      case (Some r)
      from copyA [of st1 r, OF st1A] obtain V where V:
        "mpi_copy al (st1 r) (if r = A then This else That (st1 A)) = ok V"
        "mpi_s V = mpi_s (st A)" "nval (mpi_p V) = a" by blast
      have "mpi_div_mpi al Q R A B st = ok (st1(r := V))"
        using cB c st1 V(1) Some by (simp add: mpi_div_mpi_def)
      then show ?thesis
        using V(2,3) st1q st1o ab True okA Q Some by (auto simp: mpi_defs)
    qed
  next
    case False
    then have c: "\<not> mpi_cmp_abs (st A) (st B) < 0" by (simp add: a_def b_def)
    from div_compute_ok [OF al, of "st B" "st A"] False b0 obtain X Z k where
      D: "div_compute al (st A) (st B) = ok (X, Z, k)" "mpi_ok X" "0 \<le> mval X"
      "nval (mpi_p X) div 2 ^ k = a mod b" "nval (mpi_p Z) = a div b"
      by (auto simp: a_def b_def)
    note copy = copy_unchecked_ok [OF al]
    define W where "W = mpi_shift_r X k"
    have W: "mpi_s W = mpi_s X" "nval (mpi_p W) = a mod b"
      using mpi_shift_r_ok [of X k] D(4) by (simp_all add: W_def)
    have Ws: "mpi_s W = 1" if "a mod b \<noteq> 0"
    proof -
      have "nval (mpi_p X) \<noteq> 0" using that D(4) by (metis div_0)
      then show ?thesis using D(2,3) mval_nonneg W(1) by auto
    qed
    define st1 where "st1 = (case Q of None \<Rightarrow> st
      | Some q \<Rightarrow> st(q := (copy_unchecked al (st q) Z)\<lparr>mpi_s := mpi_s (st A) * mpi_s (st B)\<rparr>))"
    define st2 where "st2 = (case R of None \<Rightarrow> st1 | Some r \<Rightarrow> st1(r := (copy_unchecked al (st1 r) W)
      \<lparr>mpi_s := if a mod b = 0 then 1 else if r = A then mpi_s W else mpi_s (st A)\<rparr>))"
    have st1: "(case Q of None \<Rightarrow> st | Some q \<Rightarrow> let st = st(q := copy_unchecked al (st q) Z)
        in st(q := (st q)\<lparr>mpi_s := mpi_s (st A) * mpi_s (st B)\<rparr>)) = st1"
      using Q by (auto simp: st1_def split: option.splits)
    have st1o: "st1 i = st i" if "Q \<noteq> Some i" for i
      using that by (auto simp: st1_def split: option.splits)
    have st1A: "st1 A = st A" using Q by (intro st1o) auto
    have cmp: "mpi_cmp_int (V\<lparr>mpi_s := s\<rparr>) 0 = 0 \<longleftrightarrow> nval (mpi_p V) = 0" if "s = 1 \<or> s = - 1" for V s
      using that by (subst mpi_cmp_int_0) (auto simp: mpi_ok_def mval_def sgn_if)
    have sW: "mpi_s W = 1 \<or> mpi_s W = - 1" using D(2) W(1) by (simp add: mpi_ok_def)
    have sA: "mpi_s (st A) = 1 \<or> mpi_s (st A) = - 1" using okA by (simp add: mpi_ok_def)
    have fin: "(case R of None \<Rightarrow> st1
        | Some r \<Rightarrow>
           let st = st1(r := copy_unchecked al (st1 r) W);
               st = st(r := (st r)\<lparr>mpi_s := mpi_s (st A)\<rparr>)
           in if mpi_cmp_int (st r) 0 = 0 then st(r := (st r)\<lparr>mpi_s := 1\<rparr>) else st) = st2"
    proof (cases R)
      case (Some r)
      define V where "V = copy_unchecked al (st1 r) W"
      have V: "nval (mpi_p V) = a mod b" "mpi_s V = mpi_s W" using copy W(2) by (simp_all add: V_def)
      have "mpi_cmp_int V 0 = 0 \<longleftrightarrow> nval (mpi_p V) = 0"
        using sW V(2) by (subst mpi_cmp_int_0) (auto simp: mpi_ok_def mval_def sgn_if)
      then show ?thesis
        unfolding Some option.case Let_def st2_def V_def [symmetric] V(2) [symmetric]
        by (cases "r = A") (use sA sW st1A in \<open>simp_all add: cmp V(1)\<close>)
    qed (simp add: st2_def)
    have "mpi_div_mpi al Q R A B st = ok st2"
      unfolding mpi_div_mpi_compute [of st B A al Q R, OF cB c] D(1) MPI_CHK_simps prod.case st1
      unfolding W_def [symmetric] Let_def [of W] Let_def [of st1] by (simp only: fin Let_def [of st2])
    moreover have "st2 i = st i" if "Q \<noteq> Some i" "R \<noteq> Some i" for i
      using that by (auto simp: st2_def st1o split: option.splits)
    moreover have "mpi_ok (st2 q) \<and> mval (st2 q) = mpi_s (st A) * mpi_s (st B) * int (a div b)"
      if "Q = Some q" for q
    proof -
      have "st2 q = st1 q" using that Q by (auto simp: st2_def split: option.splits)
      then show ?thesis using that okA okB copy D(5) by (simp add: st1_def mval_def)
    qed
    moreover have "mpi_ok (st2 r)
        \<and> mval (st2 r) = (if r = A \<and> b \<le> a then 1 else mpi_s (st A)) * int (a mod b)
        \<and> (nval (mpi_p (st2 r)) = 0 \<longrightarrow> mpi_s (st2 r) = 1)" if "R = Some r" for r
      using that False Ws okA sW copy W(2) by (auto simp: st2_def mval_def mpi_ok_def)
    ultimately show ?thesis by blast
  qed
qed

subsection \<open>Reduction\<close>

text \<open>
  \<open>mpi_mod_mpi\<close> for a positive modulus: the result is the residue. The dividend must not be a
  zero with a negative sign, and must not be negative when the result takes its place.
\<close>

lemma mod_up_ok:
  assumes al: "\<forall>k. al k" and R: "mpi_ok (st R)" "R \<noteq> B" and B: "mpi_s (st B) = 1"
    and less: "nval (mpi_p (st R)) < nval (mpi_p (st B))"
    and canon: "nval (mpi_p (st R)) = 0 \<longrightarrow> mpi_s (st R) = 1"
  shows "\<exists>V. mod_up al R B st = ok (st(R := V)) \<and> mpi_s V = 1
    \<and> mval V = (if mval (st R) < 0 then mval (st R) + mval (st B) else mval (st R))"
proof (cases "mval (st R) < 0")
  case False
  then have "mpi_s (st R) = 1" using R(1) canon by (auto simp: mpi_defs)
  then show ?thesis using False R(1)
    by (subst mod_up.simps) (auto simp: mpi_cmp_int_0 intro: exI [of _ "st R"])
next
  case True
  then have s: "mpi_s (st R) = - 1" using R(1) by (auto simp: mpi_defs)
  have okB: "mpi_ok (st B)" using B by (simp add: mpi_ok_def)
  from gives_total [OF gives_add_mpi [of "st R" This "That (st B)" al] al] R okB s B obtain V where
    V: "mpi_add_mpi al (st R) This (That (st B)) = ok V" "mpi_ok V" "mval V = mval (st R) + mval (st B)"
    by auto
  have pos: "0 < mval V" using V(3) less s B by (simp add: mval_def)
  then have "mpi_s V = 1" using V(2) by (auto simp: mpi_defs)
  moreover have "mod_up al R B st = mod_up al R B (st(R := V))"
    using True R V(1) by (subst mod_up.simps) (simp add: mpi_cmp_int_0)
  moreover have "mod_up al R B (st(R := V)) = ok (st(R := V))"
    using pos V(2) by (subst mod_up.simps) (simp add: mpi_cmp_int_0)
  ultimately show ?thesis using V(3) True by auto
qed

lemma mod_down_stop:
  assumes "mpi_s (st R) = 1" "mpi_s (st B) = 1" "mval (st R) < mval (st B)"
  shows "mod_down al R B st = ok st"
  using assms by (subst mod_down.simps) (simp add: mpi_cmp_mpi_same mpi_ok_def)

lemma mpi_mod_ok:
  assumes al: "\<forall>k. al k" and A: "mpi_ok (st A)" "nval (mpi_p (st A)) = 0 \<longrightarrow> mpi_s (st A) = 1"
    and B: "mpi_s (st B) = 1" "nval (mpi_p (st B)) \<noteq> 0"
    and R: "R \<noteq> B" "R = A \<longrightarrow> mpi_s (st A) = 1"
  shows "\<exists>V. mpi_mod_mpi al R A B st = ok (st(R := V)) \<and> mpi_s V = 1
    \<and> mval V = mval (st A) mod mval (st B)"
proof -
  let ?a = "nval (mpi_p (st A))" and ?b = "nval (mpi_p (st B))"
  have okB: "mpi_ok (st B)" using B by (simp add: mpi_ok_def)
  from mpi_div_ok [OF al A(1) okB B(2), of None "Some R"] R(1) obtain st1 where
    st1: "mpi_div_mpi al None (Some R) A B st = ok st1" "\<forall>i. i \<noteq> R \<longrightarrow> st1 i = st i"
    "mpi_ok (st1 R)"
    "mval (st1 R) = (if R = A \<and> ?b \<le> ?a then 1 else mpi_s (st A)) * int (?a mod ?b)"
    "nval (mpi_p (st1 R)) = 0 \<longrightarrow> mpi_s (st1 R) = 1 \<or> (?a = 0 \<and> mpi_s (st1 R) = mpi_s (st A))"
    by auto
  have v: "mval (st1 R) = mpi_s (st A) * int (?a mod ?b)" using st1(4) R(2) by (auto split: if_splits)
  have "int (nval (mpi_p (st1 R))) = int (?a mod ?b)"
    using nval_abs [OF st1(3)] v A(1) by (auto simp: mpi_ok_def)
  then have n: "nval (mpi_p (st1 R)) = ?a mod ?b" by (simp only: of_nat_eq_iff)
  have s1B: "st1 B = st B" using st1(2) R(1) by auto
  have lt: "?a mod ?b < ?b" using B(2) by simp
  from mod_up_ok [of al st1 R B] al st1(3,5) R(1) B(1) s1B n lt A(2) obtain V where
    V: "mod_up al R B st1 = ok (st1(R := V))" "mpi_s V = 1"
    "mval V = (if mval (st1 R) < 0 then mval (st1 R) + mval (st B) else mval (st1 R))" by auto
  have mB: "mval (st B) = int ?b" and mA: "mval (st A) = mpi_s (st A) * int ?a"
    using B(1) by (simp_all add: mval_def)
  have "mval V = mval (st A) mod mval (st B)"
  proof (cases "mpi_s (st A) = 1")
    case True
    then have "mval V = int (?a mod ?b)" using V(3) v by simp
    then show ?thesis unfolding mB mA using True by (simp add: of_nat_mod)
  next
    case False
    then have "mpi_s (st A) = - 1" using A(1) by (simp add: mpi_ok_def)
    moreover from this have "mval V = (if ?a mod ?b = 0 then 0 else int ?b - int (?a mod ?b))"
      using V(3) v mB by auto
    ultimately show ?thesis unfolding mB mA
      by (simp add: zmod_zminus1_eq_if flip: of_nat_mod)
  qed
  moreover from this have "mval V < mval (st B)" using mB B(2) by simp
  then have "mod_down al R B (st1(R := V)) = ok (st1(R := V))"
    using V(2) B(1) s1B R(1) by (intro mod_down_stop) simp_all
  moreover have "st1(R := V) = st(R := V)" using st1(2) by auto
  ultimately show ?thesis using st1(1) V by (auto simp: mpi_mod_mpi_def)
qed

end
