(* ===== verification/MpiProps.thy ===== *)
theory MpiProps
  imports MpiDivOk
begin

text \<open>
  What the multi-precision integers promise, stated on the operations of
  \<open>src/common/crypto/bignum.cpp\<close>: the type invariant, addition, subtraction, multiplication,
  division, reduction, comparison and binary conversion, and the inputs on which they fail.
\<close>

subsection \<open>The type invariant\<close>

text \<open>
  The numbers a program can build with the operations, from any addresses and in any order; a
  destination is itself a number built before.
\<close>

inductive built :: "(nat \<Rightarrow> bool) \<Rightarrow> mpi \<Rightarrow> bool" for al where
  init: "built al mpi_init"
| lset: "built al X \<Longrightarrow> mpi_lset al X z = ok Y \<Longrightarrow> built al Y"
| grow: "built al X \<Longrightarrow> mpi_grow al X n = ok Y \<Longrightarrow> built al Y"
| copy: "built al X \<Longrightarrow> built al (opnd X A) \<Longrightarrow> mpi_copy al X A = ok Y \<Longrightarrow> built al Y"
| read: "built al X \<Longrightarrow> mpi_read_binary al X buf = ok Y \<Longrightarrow> built al Y"
| left: "built al X \<Longrightarrow> mpi_shift_l al X k = ok Y \<Longrightarrow> built al Y"
| right: "built al X \<Longrightarrow> built al (mpi_shift_r X k)"
| add: "built al X \<Longrightarrow> built al (opnd X A) \<Longrightarrow> built al (opnd X B) \<Longrightarrow>
    mpi_add_mpi al X A B = ok Y \<Longrightarrow> built al Y"
| sub: "built al X \<Longrightarrow> built al (opnd X A) \<Longrightarrow> built al (opnd X B) \<Longrightarrow>
    mpi_sub_mpi al X A B = ok Y \<Longrightarrow> built al Y"
| mul: "built al X \<Longrightarrow> built al (opnd X A) \<Longrightarrow> built al (opnd X B) \<Longrightarrow>
    mpi_mul_mpi al X A B = ok Y \<Longrightarrow> built al Y"

lemma gives_result: "gives al m P \<Longrightarrow> m = ok Y \<Longrightarrow> P Y"
  by (simp add: gives_def)

lemma MPI_CHK_result: "MPI_CHK m f = ok Y \<longleftrightarrow> (\<exists>x. m = ok x \<and> f x = ok Y)"
  by (auto simp: MPI_CHK_def split: option.splits sum.splits)

lemma add_mpi_sign: "mpi_ok (opnd X A) \<Longrightarrow> mpi_add_mpi al X A B = ok Y \<Longrightarrow> mpi_ok Y"
  by (auto simp: mpi_add_mpi_def Let_def MPI_CHK_result mpi_ok_def split: if_splits)

lemma sub_mpi_sign: "mpi_ok (opnd X A) \<Longrightarrow> mpi_sub_mpi al X A B = ok Y \<Longrightarrow> mpi_ok Y"
  by (auto simp: mpi_sub_mpi_def Let_def MPI_CHK_result mpi_ok_def split: if_splits)

lemma shift_l_sign: "mpi_ok X \<Longrightarrow> mpi_shift_l al X k = ok Y \<Longrightarrow> mpi_ok Y"
proof (cases "mpi_p X = []")
  case True
  then show "mpi_shift_l al X k = ok Y \<Longrightarrow> mpi_ok Y"
    using mpi_msb_None [of X] by (simp add: mpi_shift_l_def)
next
  case False
  then show "mpi_ok X \<Longrightarrow> mpi_shift_l al X k = ok Y \<Longrightarrow> mpi_ok Y"
    using gives_result [OF gives_shift_l [OF False]] by (simp add: mpi_ok_def)
qed

text \<open>Type invariant of the numbers: whatever sequence of initialisation, assignment, copying,
  import, shifting, addition, subtraction and multiplication builds a number, whichever
  destinations and operands coincide and whichever allocations fail, its sign is 1 or -1.
\<close>

theorem mpi_built_ok: "built al X \<Longrightarrow> mpi_ok X"
proof (induction rule: built.induct)
  case (copy X A Y)
  show ?case
  proof (cases A)
    case This
    then show ?thesis using copy by (simp add: mpi_copy_def)
  next
    case (That Z)
    then show ?thesis using gives_result [OF gives_copy [of al X Z], of Y] copy by (auto simp: mpi_ok_def)
  qed
next
  case (read X buf Y)
  then show ?case using gives_result [OF gives_read_binary [of buf al X]]
    by (cases "buf = []") (auto simp: mpi_ok_def mpi_read_binary_def)
next
  case (lset X z Y)
  then show ?case using gives_result [OF gives_lset [of al X z], of Y] by (auto simp: mpi_ok_def)
next
  case (grow X n Y)
  then show ?case using gives_result [OF gives_grow [of al X n], of Y] by (auto simp: mpi_ok_def)
next
  case (mul X A B Y)
  then show ?case using gives_result [OF gives_mul_val] by blast
next
  case init
  show ?case by (simp add: mpi_ok_def mpi_init_def)
next
  case (right X k)
  then show ?case by (simp add: mpi_ok_def mpi_shift_r_ok)
qed (blast intro: add_mpi_sign sub_mpi_sign shift_l_sign)+

theorem mpi_built_ok_witness:
  "mpi_ok \<lparr>mpi_s = - 1, mpi_p = [7]\<rparr>"
proof (rule mpi_built_ok)
  have "mpi_lset (\<lambda>_. True) mpi_init (- 7) = ok \<lparr>mpi_s = - 1, mpi_p = [7]\<rparr>"
    by (simp add: mpi_lset_def mpi_grow_def mpi_init_def overwrite_def)
  then show "built (\<lambda>_. True) \<lparr>mpi_s = - 1, mpi_p = [7]\<rparr>" by (rule built.lset [OF built.init])
qed

subsection \<open>Addition, subtraction, multiplication\<close>

text \<open>C13. Signed addition and subtraction: unless both operands are the destination, and unless the
  magnitudes are added and the carry is lost, both return and the destination holds the sum and
  the difference of the operands, whichever of them is the destination.
\<close>

theorem mpi_add_sub_correct:
  assumes "\<forall>k. al k" and "mpi_ok (opnd X A)" and "mpi_ok (opnd X B)" and "A \<noteq> This \<or> B \<noteq> This"
    and "add_missing X A B = 0"
  shows "(\<exists>Y. mpi_add_mpi al X A B = ok Y \<and> mpi_ok Y \<and> mval Y = mval (opnd X A) + mval (opnd X B))
    \<and> (\<exists>Y. mpi_sub_mpi al X A B = ok Y \<and> mpi_ok Y \<and> mval Y = mval (opnd X A) - mval (opnd X B))"
  using gives_total [OF gives_add_mpi [OF assms(2-4)] assms(1)]
    gives_total [OF gives_sub_mpi [OF assms(2-4)] assms(1)] assms(5) by auto

theorem mpi_add_sub_correct_witness:
  "(\<exists>Y. mpi_add_mpi (\<lambda>_. True) \<lparr>mpi_s = - 1, mpi_p = [3]\<rparr> This (That \<lparr>mpi_s = 1, mpi_p = [5]\<rparr>) = ok Y
      \<and> mpi_ok Y \<and> mval Y = 2)
    \<and> (\<exists>Y. mpi_sub_mpi (\<lambda>_. True) \<lparr>mpi_s = - 1, mpi_p = [3]\<rparr> This (That \<lparr>mpi_s = 1, mpi_p = [5]\<rparr>) = ok Y
      \<and> mpi_ok Y \<and> mval Y = - 8)"
  using mpi_add_sub_correct [of "\<lambda>_. True" "\<lparr>mpi_s = - 1, mpi_p = [3]\<rparr>" This
      "That \<lparr>mpi_s = 1, mpi_p = [5]\<rparr>"]
  by (simp add: mpi_ok_def mval_def add_missing_def add_order_def missing_def carry_lost_def)

text \<open>C32. The carry that \<open>mpi_add_abs\<close> loses: when the limb above the shorter operand overflows as
  well and the destination has a further limb, the carry is added to the same limb again, so
  that the sum of two numbers of the same sign is too small by \<open>(2^32 - 1) * 2^(32 * j)\<close>, where
  \<open>j\<close> is the limb count of the shorter operand.
\<close>

theorem mpi_add_loses_carry:
  assumes "\<forall>k. al k" and "mpi_s A = 1" and "mpi_s B = 1"
    and "carry_lost (max (mpi_n X) (scan_pos (mpi_p A) (mpi_n A))) (mpi_p A) (mpi_p B)"
  shows "\<exists>Y. mpi_add_mpi al X (That A) (That B) = ok Y
    \<and> mval Y = mval A + mval B - (2 ^ 32 - 1) * 2 ^ (32 * scan_all (mpi_p B) (mpi_n B))"
proof -
  have "int ((LB - 1) * LB ^ j) = (2 ^ 32 - 1) * 2 ^ (32 * j)" for j
    by (simp add: LB_def power_mult)
  then show ?thesis
    using gives_total [OF gives_add_mpi [of X "That A" "That B"] assms(1)] assms(2-4)
    by (auto simp: mpi_ok_def add_missing_def add_order_def dest_limbs_def missing_def)
qed

theorem mpi_add_loses_carry_witness:
  "\<exists>Y. mpi_add_mpi (\<lambda>_. True) \<lparr>mpi_s = 1, mpi_p = [0, 0, 0]\<rparr>
      (That \<lparr>mpi_s = 1, mpi_p = [- 1, - 1]\<rparr>) (That \<lparr>mpi_s = 1, mpi_p = [1]\<rparr>) = ok Y
    \<and> mval Y = 2 ^ 32"
proof -
  have "carry_lost (max 3 2) [- 1, - 1] [1]" by (simp add: carry_lost_def LB_def)
  then show ?thesis
    using mpi_add_loses_carry [of "\<lambda>_. True" "\<lparr>mpi_s = 1, mpi_p = [- 1, - 1]\<rparr>"
        "\<lparr>mpi_s = 1, mpi_p = [1]\<rparr>" "\<lparr>mpi_s = 1, mpi_p = [0, 0, 0]\<rparr>"]
    by (simp add: mval_def LB_def numeral_3_eq_3)
qed

text \<open>C9. Multiplication: the product of any two numbers is right, whichever of the destination and
  the operands coincide; the only other outcome is the code 1 of a failed allocation, and no
  limb outside the vectors is touched.
\<close>

theorem mpi_mul_correct:
  "case mpi_mul_mpi al X A B of
     None \<Rightarrow> False
   | Some (Inl r) \<Rightarrow> r = 1 \<and> (\<exists>k. \<not> al k)
   | Some (Inr Y) \<Rightarrow> mval Y = mval (opnd X A) * mval (opnd X B)"
  using gives_mul_val [of al X A B] by (auto simp: gives_def split: option.splits sum.splits)

text \<open>The multiply-and-add loop that takes eight limbs at a time in the 64-bit media registers
  gives the limbs and the carry of the loop that takes one limb at a time, for every length,
  including the reads and writes outside the vectors on which both fail.
\<close>

theorem mul_steps_equiv: "mul_steps i s si d di b c = mul_ones i s si d di b c"
  by (rule mul_steps_ones)

subsection \<open>Comparison\<close>

text \<open>C34. Signed comparison: \<open>mpi_cmp_mpi\<close> orders two numbers as the integers, except when they have
  different signs and the second has more significant limbs; then its answer is the opposite.
\<close>

theorem mpi_cmp_mpi_exact:
  assumes "mpi_ok X" and "mpi_ok Y"
  shows "mpi_cmp_mpi X Y =
    (if scan_all (mpi_p X) (mpi_n X) < scan_all (mpi_p Y) (mpi_n Y) \<and> mpi_s X \<noteq> mpi_s Y
     then - sgn (mval X - mval Y) else sgn (mval X - mval Y))"
  by (rule mpi_cmp_mpi_cases [OF assms])

theorem mpi_cmp_mpi_exact_witness:
  "mpi_cmp_mpi \<lparr>mpi_s = - 1, mpi_p = [1]\<rparr> \<lparr>mpi_s = 1, mpi_p = [0, 1]\<rparr> = 1
    \<and> mval \<lparr>mpi_s = - 1, mpi_p = [1]\<rparr> < mval \<lparr>mpi_s = 1, mpi_p = [0, 1]\<rparr>"
  using mpi_cmp_mpi_exact [of "\<lparr>mpi_s = - 1, mpi_p = [1]\<rparr>" "\<lparr>mpi_s = 1, mpi_p = [0, 1]\<rparr>"]
  by (simp add: mpi_ok_def mval_def LB_def numeral_2_eq_2)

subsection \<open>Division\<close>

lemma div_signs:
  fixes a b q m s u :: int
  assumes "a = q * b + m" "0 \<le> a" "0 \<le> m" "m < b" "s = 1 \<or> s = - 1" "u = 1 \<or> u = - 1"
  shows "s * a = (s * u * q) * (u * b) + s * m \<and> \<bar>s * m\<bar> < \<bar>u * b\<bar> \<and> 0 \<le> (s * m) * (s * a)"
proof -
  have "0 \<le> m * a" using assms(2,3) by simp
  then show ?thesis using assms(3-) unfolding assms(1) by (auto simp: algebra_simps)
qed

text \<open>C10. Division: with a non-zero divisor and with quotient and remainder at two addresses other
  than those of the operands, \<open>mpi_div_mpi\<close> returns, and changes nothing else; the dividend is
  the quotient times the divisor plus the remainder, the remainder is smaller in size than the
  divisor and has the sign of the dividend or is zero.
\<close>

theorem mpi_div_correct:
  assumes "\<forall>k. al k" and "mpi_ok (st A)" and "mpi_ok (st B)" and "mval (st B) \<noteq> 0"
    and "distinct [q, r, A]" and "distinct [q, r, B]"
  shows "\<exists>st'. mpi_div_mpi al (Some q) (Some r) A B st = ok st'
    \<and> (\<forall>i. i \<noteq> q \<longrightarrow> i \<noteq> r \<longrightarrow> st' i = st i)
    \<and> mval (st A) = mval (st' q) * mval (st B) + mval (st' r)
    \<and> \<bar>mval (st' r)\<bar> < \<bar>mval (st B)\<bar> \<and> 0 \<le> mval (st' r) * mval (st A)"
proof -
  let ?a = "nval (mpi_p (st A))" and ?b = "nval (mpi_p (st B))"
  have b: "?b \<noteq> 0" using assms(4) by (auto simp: mval_def)
  from mpi_div_ok [OF assms(1-3) b, of "Some q" "Some r"] assms(5,6) obtain st' where
    st': "mpi_div_mpi al (Some q) (Some r) A B st = ok st'" "\<forall>i. i \<noteq> q \<longrightarrow> i \<noteq> r \<longrightarrow> st' i = st i"
    "mval (st' q) = mpi_s (st A) * mpi_s (st B) * int (?a div ?b)"
    "mval (st' r) = mpi_s (st A) * int (?a mod ?b)" by auto
  have "int ?a = int (?a div ?b) * int ?b + int (?a mod ?b)"
    by (simp only: flip: of_nat_mult of_nat_add) simp
  moreover have "int (?a mod ?b) < int ?b" using b by (simp only: of_nat_less_iff) simp
  ultimately have "mval (st A) = mval (st' q) * mval (st B) + mval (st' r)
      \<and> \<bar>mval (st' r)\<bar> < \<bar>mval (st B)\<bar> \<and> 0 \<le> mval (st' r) * mval (st A)"
    unfolding st'(3,4) mval_def [of "st A"] mval_def [of "st B"]
    using assms(2,3) [unfolded mpi_ok_def] by (intro div_signs) simp_all
  then show ?thesis using st'(1,2) by blast
qed

theorem mpi_div_correct_witness:
  "\<exists>st'. mpi_div_mpi (\<lambda>_. True) (Some 2) (Some 3) 0 1
      (\<lambda>i. if i = 0 then \<lparr>mpi_s = - 1, mpi_p = [7, 9]\<rparr> else \<lparr>mpi_s = 1, mpi_p = [5]\<rparr>) = ok st'
    \<and> - (7 + 9 * 2 ^ 32) = mval (st' 2) * 5 + mval (st' 3) \<and> \<bar>mval (st' 3)\<bar> < 5"
  using mpi_div_correct [of "\<lambda>_. True"
      "\<lambda>i. if i = 0 then \<lparr>mpi_s = - 1, mpi_p = [7, 9]\<rparr> else \<lparr>mpi_s = 1, mpi_p = [5]\<rparr>" 0 1 2 3]
  by (auto simp: mpi_ok_def mval_def LB_def)

text \<open>C11. Reduction: for a positive modulus, \<open>mpi_mod_mpi\<close> returns the residue of the dividend, also
  for a negative one, in the address of the result and nowhere else; the loops that correct the
  sign end. When the result takes the place of the dividend, the dividend must not be negative; its address
  is not that of the modulus, and a dividend of zero has the sign 1.
\<close>

theorem mpi_mod_correct:
  assumes "\<forall>k. al k" and "mpi_ok (st A)" and "nval (mpi_p (st A)) = 0 \<longrightarrow> mpi_s (st A) = 1"
    and "0 < mval (st B)" and "mpi_ok (st B)"
    and "R \<noteq> B" and "R = A \<longrightarrow> mpi_s (st A) = 1"
  shows "\<exists>V. mpi_mod_mpi al R A B st = ok (st(R := V)) \<and> mval V = mval (st A) mod mval (st B)"
proof -
  have "mpi_s (st B) = 1" "nval (mpi_p (st B)) \<noteq> 0" using assms(4,5) by (auto simp: mpi_defs)
  from mpi_mod_ok [OF assms(1-3) this assms(6,7)] show ?thesis by auto
qed

theorem mpi_mod_correct_witness:
  "\<exists>V. mpi_mod_mpi (\<lambda>_. True) 2 0 1
      (\<lambda>i. if i = 0 then \<lparr>mpi_s = - 1, mpi_p = [7]\<rparr> else \<lparr>mpi_s = 1, mpi_p = [5]\<rparr>)
    = ok ((\<lambda>i. if i = 0 then \<lparr>mpi_s = - 1, mpi_p = [7]\<rparr> else \<lparr>mpi_s = 1, mpi_p = [5]\<rparr>)(2 := V))
    \<and> mval V = 3"
  using mpi_mod_correct [of "\<lambda>_. True"
      "\<lambda>i. if i = 0 then \<lparr>mpi_s = - 1, mpi_p = [7]\<rparr> else \<lparr>mpi_s = 1, mpi_p = [5]\<rparr>" 0 1 2]
  by (simp add: mpi_defs)

subsection \<open>Binary conversion\<close>

text \<open>C35. Export and import: a non-zero number written to a buffer that is long enough, and then read
  into any number, comes back with its magnitude, and the buffer holds its big-endian bytes
  after leading zeros.
\<close>

theorem mpi_binary_roundtrip:
  assumes "\<forall>k. al k" and "nval (mpi_p X) \<noteq> 0" and "mpi_size X = Some n" and "n \<le> length buf"
  shows "\<exists>buf' Y. mpi_write_binary X buf = Some (0, X, buf') \<and> length buf' = length buf
    \<and> be_val buf' = nval (mpi_p X)
    \<and> mpi_read_binary al Z buf' = ok Y \<and> mval Y = int (nval (mpi_p X))"
proof -
  define b where "b = replicate (length buf - n) 0 @ be_bytes n (nval (mpi_p X))"
  have w: "mpi_write_binary X buf = Some (0, X, b)"
    unfolding b_def by (rule mpi_write_binary_ok [OF assms(3,4,2)])
  have n: "nval (mpi_p X) < 256 ^ n" "n \<noteq> 0"
    using mpi_size_ok [of X] mpi_size_0 [of X] assms(2,3) by auto
  then have v: "be_val b = nval (mpi_p X)" by (simp add: b_def be_val_append be_val_bytes)
  have "b \<noteq> []" using n(2) by (auto simp: b_def simp flip: length_0_conv)
  from gives_total [OF gives_read_binary [OF this] assms(1), of Z] v obtain Y where
    "mpi_read_binary al Z b = ok Y" "mval Y = int (nval (mpi_p X))" by (auto simp: mval_def)
  moreover have "length b = length buf" using assms(4) by (simp add: b_def)
  ultimately show ?thesis using v w by blast
qed

theorem mpi_binary_roundtrip_witness:
  "\<exists>buf' Y. mpi_write_binary \<lparr>mpi_s = 1, mpi_p = [5]\<rparr> [9, 9, 9] = Some (0, \<lparr>mpi_s = 1, mpi_p = [5]\<rparr>, buf')
    \<and> mpi_read_binary (\<lambda>_. True) mpi_init buf' = ok Y \<and> mval Y = 5"
proof -
  have "mpi_size \<lparr>mpi_s = 1, mpi_p = [5]\<rparr> = Some 1" by code_simp
  then show ?thesis
    using mpi_binary_roundtrip [of "\<lambda>_. True" "\<lparr>mpi_s = 1, mpi_p = [5]\<rparr>" 1 "[9, 9, 9]" mpi_init]
    by auto
qed

text \<open>Export of zero: it reports success, but leaves every byte of the buffer as it was, and
  turns the number into one that violates the type invariant.
\<close>

theorem mpi_write_zero:
  "nval (mpi_p X) = 0 \<Longrightarrow> \<exists>Y. mpi_write_binary X buf = Some (0, Y, buf) \<and> \<not> mpi_ok Y"
  using mpi_size_0 [of X] by (auto simp: mpi_write_binary_def mpi_ok_def)

theorem mpi_write_zero_witness:
  "\<exists>Y. mpi_write_binary \<lparr>mpi_s = 1, mpi_p = [0]\<rparr> [1, 2] = Some (0, Y, [1, 2]) \<and> \<not> mpi_ok Y"
  by (rule mpi_write_zero) simp

end
