(* ===== verification/MpiMont.thy ===== *)
theory MpiMont
  imports MpiDivOk
begin

text \<open>
  Reduction by a small integer and the Montgomery arithmetic of
  \<open>src/common/crypto/bignum.cpp\<close>: \<open>mpi_mod_int\<close>, \<open>mpi_montg_init\<close>, \<open>mpi_montmul\<close> and
  \<open>mpi_montred\<close>, and their correctness.
\<close>

subsection \<open>Reduction by an integer\<close>

fun mod_int_loop :: "t_int list \<Rightarrow> nat \<Rightarrow> t_int \<Rightarrow> t_int \<Rightarrow> t_int" where
  "mod_int_loop p 0 b y = y"
| "mod_int_loop p (Suc i) b y =
    (let x = p ! i;
         y = push_bit 16 y OR drop_bit 16 x;
         z = y div b;
         y = y - z * b;
         x = push_bit 16 x;
         y = push_bit 16 y OR drop_bit 16 x;
         z = y div b;
         y = y - z * b
     in mod_int_loop p i b y)"

definition mpi_mod_int :: "mpi \<Rightarrow> int \<Rightarrow> t_int mres" where
  "mpi_mod_int A b =
    (if b = 0 then err POLARSSL_ERR_MPI_DIVISION_BY_ZERO
     else let b = (if b < 0 then - b else b) in
       if b = 1 then ok 0
       else if b = 2 then if mpi_p A = [] then None else ok (mpi_p A ! 0 AND 1)
       else ok (mod_int_loop (mpi_p A) (mpi_n A) (word_of_int b) 0))"

subsection \<open>Montgomery arithmetic\<close>

definition mpi_montg_init :: "mpi \<Rightarrow> t_int option" where
  "mpi_montg_init N =
    (if mpi_p N = [] then None
     else let m0 = mpi_p N ! 0;
              x = m0;
              x = x + push_bit 1 ((m0 + 2) AND 4);
              x = x * (2 - m0 * x);
              x = x * (2 - m0 * x);
              x = x * (2 - m0 * x)
          in Some (NOT x + 1))"

text \<open>The loop of \<open>mpi_montmul\<close>: \<open>i\<close> is also the offset of \<open>d\<close> into the limbs of \<open>T\<close>.\<close>

function montmul_loop ::
  "t_int list \<Rightarrow> t_int list \<Rightarrow> t_int list \<Rightarrow> t_int \<Rightarrow> nat \<Rightarrow> nat \<Rightarrow> nat \<Rightarrow> t_int list \<Rightarrow> t_int list option" where
  "montmul_loop a b p mm m n i t =
    (if i < n
     then if i < length a \<and> 0 < length b \<and> i < length t
          then let u0 = a ! i;
                   u1 = (t ! i + u0 * b ! 0) * mm
               in case mpi_mul_hlp m b t i u0 of None \<Rightarrow> None
                  | Some t \<Rightarrow>
                    (case mpi_mul_hlp n p t i u1 of None \<Rightarrow> None
                     | Some t \<Rightarrow>
                        if Suc i + (n + 1) < length t
                        then montmul_loop a b p mm m n (Suc i) (t[i := u0, Suc i + (n + 1) := 0])
                        else None)
          else None
     else Some t)"
  by pat_completeness auto
termination by (relation "measure (\<lambda>(a, b, p, mm, m, n, i, t). n - i)") auto

declare montmul_loop.simps [simp del]

definition mpi_montmul :: "mpi \<Rightarrow> mpi \<Rightarrow> mpi \<Rightarrow> t_int \<Rightarrow> mpi \<Rightarrow> (mpi \<times> mpi) option" where
  "mpi_montmul A B N mm T =
    (let t = replicate (mpi_n T) 0;
         n = mpi_n N;
         m = (if mpi_n B < n then mpi_n B else n)
     in case montmul_loop (mpi_p A) (mpi_p B) (mpi_p N) mm m n 0 t of None \<Rightarrow> None
        | Some t \<Rightarrow>
          if n + (n + 1) \<le> length t \<and> n + 1 \<le> mpi_n A
          then let A = A\<lparr>mpi_p := overwrite (mpi_p A) 0 (take (n + 1) (drop n t))\<rparr>
               in if mpi_cmp_abs A N \<ge> 0
                  then map_option (\<lambda>p. (A\<lparr>mpi_p := p\<rparr>, T\<lparr>mpi_p := t\<rparr>)) (mpi_sub_hlp n (mpi_p N) (mpi_p A))
                  else map_option (\<lambda>p. (A, T\<lparr>mpi_p := p\<rparr>)) (mpi_sub_hlp n (mpi_p A) t)
          else None)"

definition mpi_montred :: "mpi \<Rightarrow> mpi \<Rightarrow> t_int \<Rightarrow> mpi \<Rightarrow> (mpi \<times> mpi) option" where
  "mpi_montred A N mm T = mpi_montmul A \<lparr>mpi_s = 1, mpi_p = [1]\<rparr> N mm T"

subsection \<open>Correctness of the reduction by an integer\<close>

lemma half_or:
  fixes y x :: t_int
  assumes "unat y < 2 ^ 16"
  shows "unat (push_bit 16 y OR drop_bit 16 x) = unat y * 2 ^ 16 + unat x div 2 ^ 16"
proof -
  have "unat x div 2 ^ 16 < 2 ^ 16" using unat_less_exp [of x] by (simp add: less_mult_imp_div_less)
  moreover have "unat y * 2 ^ 16 < LB" using assms by (simp add: LB_def)
  ultimately show ?thesis using limb_or [of "drop_bit 16 x" 16 y] by (simp add: unat_drop_bit)
qed

lemma unat_rem: "unat ((y :: t_int) - y div b * b) = unat y mod unat b"
  by (metis minus_div_mult_eq_mod unat_mod)

lemma mod_int_step:
  fixes x b y :: t_int
  assumes "0 < unat b" "unat b \<le> 2 ^ 16" "unat y < unat b"
  defines "y1 \<equiv> push_bit 16 y OR drop_bit 16 x"
  defines "y2 \<equiv> y1 - y1 div b * b"
  defines "y3 \<equiv> push_bit 16 y2 OR drop_bit 16 (push_bit 16 x)"
  shows "unat (y3 - y3 div b * b) = (unat y * LB + unat x) mod unat b"
proof -
  let ?h = "unat x div 2 ^ 16" and ?l = "unat x mod 2 ^ 16"
  have y1: "unat y1 = unat y * 2 ^ 16 + ?h" unfolding y1_def using assms(2,3) by (intro half_or) simp
  have y2: "unat y2 = (unat y * 2 ^ 16 + ?h) mod unat b" unfolding y2_def unat_rem y1 ..
  have "unat y2 < unat b" unfolding y2 using assms(1) by simp
  then have "unat y3 = unat y2 * 2 ^ 16 + unat (push_bit 16 x) div 2 ^ 16"
    unfolding y3_def using assms(2) by (intro half_or) simp
  also have "unat (push_bit 16 x) div 2 ^ 16 = ?l"
    by (simp only: limb_push_bit LB_def) (simp add: mod_mult2_eq [of _ "2 ^ 16" "2 ^ 16", simplified] mult.commute flip: mult_mod_right)
  finally have "unat (y3 - y3 div b * b) = (unat y2 * 2 ^ 16 + ?l) mod unat b" by (simp add: unat_rem)
  also have "\<dots> = ((unat y * 2 ^ 16 + ?h) * 2 ^ 16 + ?l) mod unat b"
    unfolding y2 by (metis mod_add_left_eq mod_mult_left_eq)
  also have "(unat y * 2 ^ 16 + ?h) * 2 ^ 16 + ?l = unat y * LB + unat x"
    using div_mult_mod_eq [of "unat x" "2 ^ 16"] by (simp add: LB_def algebra_simps)
  finally show ?thesis .
qed

lemma mod_int_loop_ok:
  assumes "n \<le> length p" "0 < unat b" "unat b \<le> 2 ^ 16" "unat y < unat b"
  shows "unat (mod_int_loop p n b y) = (unat y * LB ^ n + nval (take n p)) mod unat b"
  using assms(1,4)
proof (induction n arbitrary: y)
  case (Suc n)
  define w where "w = mod_int_loop p (Suc n) b y"
  define y4 where "y4 = (let x = p ! n; y = push_bit 16 y OR drop_bit 16 x; y = y - y div b * b;
    y = push_bit 16 y OR drop_bit 16 (push_bit 16 x) in y - y div b * b)"
  have w: "w = mod_int_loop p n b y4" by (simp add: w_def y4_def Let_def)
  have y4: "unat y4 = (unat y * LB + unat (p ! n)) mod unat b"
    unfolding y4_def Let_def by (rule mod_int_step [OF assms(2,3) Suc.prems(2)])
  have "unat w = (unat y4 * LB ^ n + nval (take n p)) mod unat b"
    unfolding w using Suc.prems assms(2) y4 by (intro Suc.IH) simp_all
  also have "\<dots> = ((unat y * LB + unat (p ! n)) * LB ^ n + nval (take n p)) mod unat b"
    unfolding y4 by (metis mod_add_left_eq mod_mult_left_eq)
  also have "(unat y * LB + unat (p ! n)) * LB ^ n + nval (take n p)
      = unat y * LB ^ Suc n + nval (take (Suc n) p)"
    using Suc.prems(1) by (simp add: nval_take_Suc algebra_simps)
  finally show ?case by (simp add: w_def)
qed simp

lemma mpi_mod_int_ok:
  assumes "0 < \<bar>b\<bar>" "\<bar>b\<bar> \<le> 2 ^ 16" "mpi_p A \<noteq> []"
  shows "\<exists>r. mpi_mod_int A b = ok r \<and> int (unat r) = int (nval (mpi_p A)) mod \<bar>b\<bar>"
proof -
  define c where "c = \<bar>b\<bar>"
  have c: "0 < c" "c \<le> 2 ^ 16" using assms by (simp_all add: c_def)
  have "(if b < 0 then - b else b) = c" by (simp add: c_def)
  then have d: "mpi_mod_int A b = (if c = 1 then ok 0 else if c = 2 then ok (mpi_p A ! 0 AND 1)
      else ok (mod_int_loop (mpi_p A) (mpi_n A) (word_of_int c) 0))"
    using assms by (simp add: mpi_mod_int_def)
  consider "c = 1" | "c = 2" | "c \<noteq> 1" "c \<noteq> 2" by blast
  then show ?thesis
  proof cases
    case 1
    then show ?thesis using d by (simp add: c_def [symmetric])
  next
    case 2
    have "unat (mpi_p A ! 0 AND 1) = unat (mpi_p A ! 0) mod 2"
      by (simp add: and_one_eq unat_mod)
    also have "\<dots> = nval (mpi_p A) mod 2"
      using nth_nval [of 0 "mpi_p A"] assms(3) by (simp add: LB_def mod_mod_cancel)
    finally have "int (unat (mpi_p A ! 0 AND 1)) = int (nval (mpi_p A)) mod 2" by (simp only: of_nat_mod of_nat_numeral)
    then show ?thesis using d 2 unfolding c_def [symmetric] by simp
  next
    case 3
    have w: "unat (word_of_int c :: t_int) = nat c"
      using c by (simp add: unsigned_of_int take_bit_int_eq_self)
    have "unat (mod_int_loop (mpi_p A) (mpi_n A) (word_of_int c) 0) = nval (mpi_p A) mod nat c"
      using mod_int_loop_ok [of "mpi_n A" "mpi_p A" "word_of_int c" 0] c w by simp
    then have "int (unat (mod_int_loop (mpi_p A) (mpi_n A) (word_of_int c) 0)) = int (nval (mpi_p A)) mod c"
      using c by (simp only: of_nat_mod) simp
    then show ?thesis using d 3 unfolding c_def [symmetric] by simp
  qed
qed

subsection \<open>The Montgomery constant\<close>

lemma unat_take4: "unat (take_bit 4 (w :: t_int)) = unat w mod 16"
  by (subst unsigned_take_bit_eq) (simp add: take_bit_eq_mod)

lemma take4_odd:
  assumes "odd (m0 :: t_int)"
  shows "take_bit 4 (m0 * (m0 + push_bit 1 ((m0 + 2) AND 4))) = 1"
proof -
  define r where "r = take_bit 4 m0"
  have and4: "x AND 4 = take_bit 4 x AND 4" for x :: t_int
    by (simp add: take_bit_eq_mask and.assoc mask_eq_exp_minus_1)
  have add4: "take_bit 4 (m0 + x) = take_bit 4 (r + x)" for x :: t_int
    by (simp add: word_unat_eq_iff unat_take4 unat_word_ariths r_def mod_mod_cancel mod_add_left_eq)
  have "take_bit 4 (m0 * x) = take_bit 4 (r * take_bit 4 x)" for x :: t_int
    by (simp add: word_unat_eq_iff unat_take4 unat_word_ariths r_def mod_mod_cancel mod_mult_eq)
  then have "take_bit 4 (m0 * (m0 + push_bit 1 ((m0 + 2) AND 4)))
      = take_bit 4 (r * take_bit 4 (r + push_bit 1 (take_bit 4 (r + 2) AND 4)))"
    by (simp only: add4 and4 [of "m0 + 2"])
  moreover have "r \<in> {1, 3, 5, 7, 9, 11, 13, 15}"
  proof -
    have lt: "unat r < 16" by (simp add: r_def unat_take4)
    have "odd (unat r)" using assms odd_unat_bit [of m0 0] by (simp add: r_def unat_take4 bit_0 dvd_mod_iff)
    have "v < 16 \<Longrightarrow> odd v \<Longrightarrow> v = 1 \<or> v = 3 \<or> v = 5 \<or> v = 7 \<or> v = 9 \<or> v = 11 \<or> v = 13 \<or> v = 15"
      for v :: nat by presburger
    with lt \<open>odd (unat r)\<close> have "unat r \<in> {1, 3, 5, 7, 9, 11, 13, 15}" by blast
    then show ?thesis by (simp add: word_unat_eq_iff)
  qed
  ultimately show ?thesis by auto
qed

lemma newton_step: "m * x = 1 + e \<Longrightarrow> m * (x * (2 - m * x)) = 1 - e * (e :: t_int)"
  by (simp add: algebra_simps)

lemma mpi_montg_init_ok:
  assumes "mpi_p N \<noteq> []" "odd (mpi_p N ! 0)"
  shows "\<exists>mm. mpi_montg_init N = Some mm \<and> mpi_p N ! 0 * mm = - 1"
proof -
  define m0 where "m0 = mpi_p N ! 0"
  define x0 where "x0 = m0 + push_bit 1 ((m0 + 2) AND 4)"
  define x1 where "x1 = x0 * (2 - m0 * x0)"
  define x2 where "x2 = x1 * (2 - m0 * x1)"
  define x3 where "x3 = x2 * (2 - m0 * x2)"
  have "m0 * x0 = push_bit 4 (drop_bit 4 (m0 * x0)) + take_bit 4 (m0 * x0)" by (simp add: bits_ident)
  also have "take_bit 4 (m0 * x0) = 1"
    unfolding x0_def using assms(2) by (intro take4_odd) (simp add: m0_def)
  finally have "m0 * x0 = 1 + 16 * drop_bit 4 (m0 * x0)" by (simp add: push_bit_eq_mult ac_simps)
  then obtain t where "m0 * x0 = 1 + 16 * t" ..
  then have 1: "m0 * x1 = 1 + - (256 * (t * t))" using newton_step [of m0 x0 "16 * t"] by (simp add: x1_def)
  have 2: "m0 * x2 = 1 + - (65536 * (t * t * (t * t)))"
    using newton_step [OF 1] by (simp add: x2_def algebra_simps)
  have z: "(65536 :: t_int) * 65536 = 0" by (simp add: word_unat_eq_iff unat_word_ariths)
  have sq: "- (65536 * q) * - (65536 * q) = (65536 * 65536) * (q * q)" for q :: t_int
    by (simp only: minus_mult_minus ac_simps)
  have "m0 * x3 = 1" using newton_step [OF 2] unfolding sq x3_def [symmetric] z by simp
  then have "m0 * (NOT x3 + 1) = - 1" by (simp add: not_eq_complement)
  moreover have "mpi_montg_init N = Some (NOT x3 + 1)"
    using assms(1) unfolding mpi_montg_init_def m0_def x3_def x2_def x1_def x0_def Let_def by simp
  ultimately show ?thesis by (simp add: m0_def)
qed

subsection \<open>Montgomery multiplication\<close>

lemma list_update_zero: "k < length t \<Longrightarrow> t ! k = 0 \<Longrightarrow> t[k := 0] = t"
  by (metis list_update_id)

lemma mul_hlp_window:
  assumes "k \<le> length s" "i + k < length t" "nval t div LB ^ i + nval (take k s) * unat u < LB ^ (length t - i)"
  shows "\<exists>t'. mpi_mul_hlp k s t i u = Some t' \<and> length t' = length t
    \<and> nval t' div LB ^ i = nval t div LB ^ i + nval (take k s) * unat u"
proof -
  let ?w = "nval t div LB ^ i" and ?x = "nval (take k s) * unat u"
  have split: "nval t = ?w * LB ^ i + nval t mod LB ^ i" by (simp only: div_mult_mod_eq)
  have "nval t < ?w * LB ^ i + LB ^ i" by (subst split) simp
  then have "nval t + LB ^ i * ?x < (?w + ?x + 1) * LB ^ i" by (simp add: algebra_simps)
  also have "\<dots> \<le> LB ^ (length t - i) * LB ^ i" using assms(3) by (intro mult_right_mono) simp_all
  also have "\<dots> = LB ^ length t" using assms(2) by (simp flip: power_add)
  finally have "nval t + LB ^ i * ?x < LB ^ length t" .
  from mpi_mul_hlp_ok [OF assms(1,2) this] obtain t' where
    "mpi_mul_hlp k s t i u = Some t'" "length t' = length t" "nval t' = nval t + LB ^ i * ?x" by blast
  then show ?thesis by simp
qed

lemma limb_mod: "unat (x * y :: t_int) = unat x * unat y mod LB" "unat (x + y :: t_int) = (unat x + unat y) mod LB"
  by (simp_all add: unat_word_ariths LB_def)

text \<open>The multiple of the modulus that makes the lowest limb zero.\<close>

lemma mont_cancel:
  fixes n0 mm v :: t_int
  assumes "n0 * mm = - 1"
  shows "(unat v + unat n0 * unat (v * mm)) mod LB = 0"
proof -
  have "v + n0 * (v * mm) = v + v * (n0 * mm)" by (simp add: ac_simps)
  also have "\<dots> = 0" by (simp add: assms)
  finally have "unat (v + n0 * (v * mm)) = 0" by simp
  then show ?thesis by (simp add: limb_mod mod_add_right_eq)
qed

lemma nval_mod_LB: "p \<noteq> [] \<Longrightarrow> nval p mod LB = unat (p ! 0)"
  using nth_nval [of 0 p] by simp

lemma mont_low:
  assumes mm: "p ! 0 * mm = - 1" and ne: "p \<noteq> []" "b \<noteq> []"
    and w: "w mod LB = unat (ti :: t_int)"
  shows "(w + nval b * unat u + nval p * unat ((ti + u * b ! 0) * mm)) mod LB = 0"
proof -
  let ?v = "ti + u * b ! 0"
  have "(w + nval b * unat u) mod LB = (unat ti + unat (b ! 0) * unat u) mod LB"
    using w nval_mod_LB [OF ne(2)] by (intro mod_add_cong mod_mult_cong) simp_all
  also have "\<dots> = unat ?v mod LB" by (simp add: limb_mod mod_add_right_eq mult.commute)
  finally have "(w + nval b * unat u + nval p * unat (?v * mm)) mod LB
      = (unat ?v + unat (p ! 0) * unat (?v * mm)) mod LB"
    using nval_mod_LB [OF ne(1)] by (intro mod_add_cong mod_mult_cong) simp_all
  then show ?thesis using mont_cancel [OF mm, of ?v] by simp
qed

text \<open>
  After \<open>i\<close> rounds the window of \<open>T\<close> at offset \<open>i\<close> is congruent to the product of the first
  \<open>i\<close> limbs of \<open>A\<close> with \<open>B\<close>, divided by \<open>2^(32 * i)\<close>, and below twice the modulus.
\<close>

lemma montmul_loop_ok:
  fixes p :: "t_int list"
  defines "n \<equiv> length p"
  assumes mm: "p ! 0 * mm = - 1" and p: "p \<noteq> []"
    and b: "b \<noteq> []" "nval b < nval p" "m = min (length b) n"
    and "n \<le> length a" "2 * n + 2 \<le> length t" "i \<le> n"
    and "nval t div LB ^ i < 2 * nval p"
    and "\<exists>k. LB ^ i * (nval t div LB ^ i) = nval (take i a) * nval b + k * nval p"
  shows "\<exists>t'. montmul_loop a b p mm m n i t = Some t' \<and> length t' = length t
    \<and> nval t' div LB ^ n < 2 * nval p
    \<and> (\<exists>k. LB ^ n * (nval t' div LB ^ n) = nval (take n a) * nval b + k * nval p)"
  using assms(8-)
proof (induction "n - i" arbitrary: i t)
  case 0
  then show ?case by (simp add: montmul_loop.simps)
next
  case (Suc j)
  let ?N = "nval p" and ?B = "nval b"
  define w where "w = nval t div LB ^ i"
  define u0 where "u0 = a ! i"
  define u1 where "u1 = (t ! i + u0 * b ! 0) * mm"
  have i: "i < n" using Suc.hyps(2) by simp
  have Nl: "?N < LB ^ n" unfolding n_def by (rule nval_less)
  have Bm: "nval (take m b) = ?B"
  proof (cases "length b \<le> n")
    case False
    then show ?thesis using b(2,3) Nl by (intro nval_take_small) auto
  qed (use b(3) in simp)
  have room: "LB ^ (n + 2) \<le> LB ^ (length t - i)"
    using Suc.prems(1) i by (intro power_increasing) simp_all
  have u: "unat u0 \<le> LB - 1" "unat u1 \<le> LB - 1" by (rule limb_le)+
  have e1: "?B * unat u0 \<le> ?N * (LB - 1)" using b(2) u by (intro mult_mono) simp_all
  have e2: "?N * unat u1 \<le> ?N * (LB - 1)" using u by simp
  have tot: "2 * ?N + ?N * (LB - 1) + ?N * (LB - 1) = 2 * ?N * LB"
    using mult_Suc_right [of ?N "LB - 1"] by simp
  have S: "w + ?B * unat u0 + ?N * unat u1 < 2 * ?N * LB"
    using Suc.prems(3) e1 e2 tot unfolding w_def by linarith
  have "2 * ?N * LB \<le> LB * LB ^ n * LB" using LB_ge_2 Nl by (intro mult_mono) simp_all
  then have big: "2 * ?N * LB \<le> LB ^ (n + 2)" by (simp add: ac_simps)
  have "w + nval (take m b) * unat u0 < LB ^ (length t - i)"
    unfolding Bm using S big room by linarith
  moreover have "m \<le> length b" "i + m < length t" using b(3) Suc.prems(1) i by auto
  ultimately obtain t1 where
    t1: "mpi_mul_hlp m b t i u0 = Some t1" "length t1 = length t" "nval t1 div LB ^ i = w + ?B * unat u0"
    using mul_hlp_window [of m b i t u0] unfolding Bm w_def by blast
  have "nval t1 div LB ^ i + nval (take n p) * unat u1 < LB ^ (length t1 - i)"
    unfolding t1(2,3) using S big room by (simp only: n_def take_all order_refl)
  from mul_hlp_window [OF _ _ this] t1(2) Suc.prems(1) i obtain t2 where
    t2: "mpi_mul_hlp n p t1 i u1 = Some t2" "length t2 = length t"
    "nval t2 div LB ^ i = w + ?B * unat u0 + ?N * unat u1"
    by (auto simp: t1 n_def)
  define s where "s = w + ?B * unat u0 + ?N * unat u1"
  have "w mod LB = unat (t ! i)" using nth_nval [of i t] Suc.prems(1) i by (simp add: w_def)
  from mont_low [OF mm p b(1) this, of u0] have s0: "s mod LB = 0" by (simp add: s_def u1_def)
  define t3 where "t3 = t2[i := u0]"
  have "nval t3 div LB ^ Suc i = nval (drop (Suc i) t3)" by (rule nval_div)
  also have "\<dots> = nval t2 div LB ^ Suc i" by (simp only: nval_div t3_def drop_update_cancel lessI)
  also have "\<dots> = s div LB" by (simp only: div_LB_Suc t2(3) s_def)
  finally have t3: "nval t3 div LB ^ Suc i = s div LB" .
  have sl: "s div LB < 2 * ?N" using S by (simp add: s_def less_mult_imp_div_less)
  have "2 * ?N \<le> LB * LB ^ n" using LB_ge_2 Nl by (intro mult_mono) simp_all
  then have "s div LB < LB ^ (n + 1)" using sl by simp
  then have "s div LB div LB ^ (n + 1) = 0" by (rule div_less)
  then have "unat (t3 ! (Suc i + (n + 1))) = 0"
    using nth_nval [of "Suc i + (n + 1)" t3] t2(2) Suc.prems(1) i
    unfolding power_add [of LB "Suc i" "n + 1"] div_mult2_eq t3 by (simp add: t3_def)
  then have "t3 ! (Suc i + (n + 1)) = 0" by (simp add: word_unat_eq_iff)
  then have up: "t2[i := u0, Suc i + (n + 1) := 0] = t3"
    using t2(2) Suc.prems(1) i by (simp add: t3_def list_update_zero)
  obtain k where k: "LB ^ i * w = nval (take i a) * ?B + k * ?N" using Suc.prems(4) by (auto simp: w_def)
  have "LB ^ Suc i * (s div LB) = LB ^ i * s"
    using s0 by (simp add: ac_simps) (metis div_mult_mod_eq add_0_right mult.assoc mult.commute)
  also have "\<dots> = nval (take (Suc i) a) * ?B + (k + LB ^ i * unat u1) * ?N"
    using k assms(7) i by (simp add: s_def nval_take_Suc u0_def algebra_simps)
  finally have k': "\<exists>k. LB ^ Suc i * (nval t3 div LB ^ Suc i) = nval (take (Suc i) a) * ?B + k * ?N"
    unfolding t3 by blast
  have "montmul_loop a b p mm m n i t = montmul_loop a b p mm m n (Suc i) t3"
    using i t1(1) t2(1,2) Suc.prems(1) assms(7) b(1) up
    by (subst montmul_loop.simps) (simp add: u0_def [symmetric] u1_def [symmetric])
  moreover have "j = n - Suc i" using Suc.hyps(2) by simp
  from Suc.hyps(1) [OF this, of t3] Suc.prems(1) i sl k' t3 t2(2)
  obtain t' where "montmul_loop a b p mm m n (Suc i) t3 = Some t'" "length t' = length t"
    "nval t' div LB ^ n < 2 * ?N"
    "\<exists>k. LB ^ n * (nval t' div LB ^ n) = nval (take n a) * ?B + k * ?N" by (auto simp: t3_def)
  ultimately show ?case by auto
qed

lemma montmul_reduce:
  fixes N :: nat
  assumes "L * w = a + k * N" "w < 2 * N" "r = (if N \<le> w then w - N else w)"
  shows "r < N \<and> (L * r) mod N = a mod N"
proof -
  have "(L * r) mod N = (L * w) mod N"
  proof (cases "N \<le> w")
    case True
    then have "L * w = L * r + L * N" using assms(3) by (simp flip: distrib_left)
    then show ?thesis by simp
  qed (use assms(3) in simp)
  moreover have "r < N" using assms(2,3) by (simp split: if_splits)
  ultimately show ?thesis using assms(1) by simp
qed

lemma nval_take_le: "nval (take n p) \<le> nval p"
  using nval_take_drop [of n p] by (cases "n \<le> length p") simp_all

lemma overwrite_nval:
  assumes "length q \<le> length p" "nval (drop (length q) p) = 0"
  shows "length (overwrite p 0 q) = length p" "nval (overwrite p 0 q) = nval q"
  using assms by (simp_all add: overwrite_def nval_append)

lemma mpi_montmul_ok:
  assumes mm: "mpi_p N ! 0 * mm = - 1" and N: "0 < mpi_n N"
    and A: "nval (mpi_p A) < LB ^ mpi_n N" "mpi_n N + 1 \<le> mpi_n A"
    and B: "0 < mpi_n B" "nval (mpi_p B) < nval (mpi_p N)"
    and T: "2 * mpi_n N + 2 \<le> mpi_n T"
  shows "\<exists>A' T'. mpi_montmul A B N mm T = Some (A', T') \<and> mpi_n A' = mpi_n A \<and> mpi_s A' = mpi_s A
    \<and> mpi_n T' = mpi_n T \<and> nval (mpi_p A') < nval (mpi_p N)
    \<and> LB ^ mpi_n N * nval (mpi_p A') mod nval (mpi_p N) = nval (mpi_p A) * nval (mpi_p B) mod nval (mpi_p N)"
proof -
  define n where "n = mpi_n N"
  let ?N = "nval (mpi_p N)"
  have m: "(if mpi_n B < n then mpi_n B else n) = min (mpi_n B) (mpi_n N)" by (simp add: n_def min_def)
  obtain t where t: "montmul_loop (mpi_p A) (mpi_p B) (mpi_p N) mm (if mpi_n B < n then mpi_n B else n) n 0
      (replicate (mpi_n T) 0) = Some t" "length t = mpi_n T" and w: "nval t div LB ^ n < 2 * ?N"
    and k: "\<exists>k. LB ^ n * (nval t div LB ^ n) = nval (take n (mpi_p A)) * nval (mpi_p B) + k * ?N"
    using montmul_loop_ok [OF mm _ _ B(2), of _ "mpi_p A" "replicate (mpi_n T) 0" 0, OF _ _ m] N A B T
    by (auto simp: n_def)
  define q where "q = take (n + 1) (drop n t)"
  have len: "n + (n + 1) \<le> length t" "length q = n + 1" using T t(2) by (auto simp: q_def n_def)
  have "?N < LB ^ n" unfolding n_def by (rule nval_less)
  then have "2 * ?N \<le> LB * LB ^ n" using LB_ge_2 by (intro mult_mono) simp_all
  then have "nval (drop n t) < LB ^ (n + 1)" using w by (simp add: nval_div)
  then have q: "nval q = nval t div LB ^ n"
    unfolding q_def nval_div using len by (intro nval_take_small) simp_all
  define A1 where "A1 = A\<lparr>mpi_p := overwrite (mpi_p A) 0 q\<rparr>"
  have "nval (drop (n + 1) (mpi_p A)) = nval (mpi_p A) div LB ^ (n + 1)" by (simp only: nval_div)
  also have "\<dots> = 0" using A(1) by (intro div_less) (simp add: n_def less_le_trans)
  finally have A1: "mpi_n A1 = mpi_n A" "nval (mpi_p A1) = nval t div LB ^ n" "mpi_s A1 = mpi_s A"
    using overwrite_nval [of q "mpi_p A"] len A(2) q by (simp_all add: A1_def n_def)
  have "nval (take n (mpi_p A)) = nval (mpi_p A)" using A by (intro nval_take_small) (simp_all add: n_def)
  with k obtain k where k': "LB ^ n * (nval t div LB ^ n) = nval (mpi_p A) * nval (mpi_p B) + k * ?N" by auto
  have run: "mpi_montmul A B N mm T =
      (if ?N \<le> nval (mpi_p A1)
       then map_option (\<lambda>p. (A1\<lparr>mpi_p := p\<rparr>, T\<lparr>mpi_p := t\<rparr>)) (mpi_sub_hlp n (mpi_p N) (mpi_p A1))
       else map_option (\<lambda>p. (A1, T\<lparr>mpi_p := p\<rparr>)) (mpi_sub_hlp n (mpi_p A1) t))"
    using t len A(2) by (simp add: mpi_montmul_def Let_def n_def [symmetric] A1_def q_def)
  show ?thesis
  proof (cases "?N \<le> nval (mpi_p A1)")
    case True
    then obtain p where p: "mpi_sub_hlp n (mpi_p N) (mpi_p A1) = Some p" "length p = mpi_n A"
      "nval p + ?N = nval (mpi_p A1)"
      using mpi_sub_hlp_ok [of n "mpi_p N" "mpi_p A1"] A A1 by (auto simp: n_def)
    then have "nval p = (if ?N \<le> nval t div LB ^ n then nval t div LB ^ n - ?N else nval t div LB ^ n)"
      using True A1 by simp
    from montmul_reduce [OF k' w this] show ?thesis using run True A1 t p by (auto simp: n_def)
  next
    case False
    have "nval (take n (mpi_p A1)) \<le> LB ^ n * (nval t div LB ^ n)"
      using nval_take_le [of n "mpi_p A1"] A1(2) mult_le_mono1 [of 1 "LB ^ n"] by (simp add: le_trans)
    also have "\<dots> \<le> nval t" by simp
    finally obtain p where "mpi_sub_hlp n (mpi_p A1) t = Some p" "length p = mpi_n T"
      using mpi_sub_hlp_ok [of n "mpi_p A1" t] A A1 t len by (auto simp: n_def)
    then show ?thesis
      using run False A1 t montmul_reduce [OF k' w, of "nval (mpi_p A1)"] by (auto simp: n_def)
  qed
qed

end
