(* ===== verification/MpiExp.thy ===== *)
theory MpiExp
  imports MpiMont
begin

text \<open>
  Modular exponentiation with sliding windows, \<open>mpi_exp_mod\<close> of \<open>src/common/crypto/bignum.cpp\<close>.
  The destination may be the base (\<open>This\<close>); exponent and modulus are other numbers, as in every
  call of the source. The two calls whose return code the source drops are modelled with what a
  failing allocation leaves behind.
\<close>

unbundle bit_operations_syntax

subsection \<open>Reductions inside the exponentiation\<close>

text \<open>\<open>mpi_mod_mpi (R, A, N)\<close> on numbers at three addresses.\<close>

definition mod_call :: "(nat \<Rightarrow> bool) \<Rightarrow> mpi \<Rightarrow> operand \<Rightarrow> mpi \<Rightarrow> mpi mres" where
  "mod_call al R A N =
    MPI_CHK (mpi_mod_mpi al 0 (case A of This \<Rightarrow> 0 | That _ \<Rightarrow> 1) 2
      ((\<lambda>_. mpi_init)(0 := R, 1 := opnd R A, 2 := N))) (\<lambda>st. ok (st 0))"

text \<open>What the loops of a failing \<open>mpi_mod_mpi\<close> leave behind.\<close>

partial_function (option) mod_up_left :: "(nat \<Rightarrow> bool) \<Rightarrow> nat \<Rightarrow> nat \<Rightarrow> store \<Rightarrow> store option" where
  "mod_up_left al R B st =
    (if mpi_cmp_int (st R) 0 < 0
     then case mpi_add_mpi al (st R) This (if B = R then This else That (st B)) of
            None \<Rightarrow> None
          | Some (Inl e) \<Rightarrow> Some st
          | Some (Inr V) \<Rightarrow> mod_up_left al R B (st(R := V))
     else Some st)"

partial_function (option) mod_down_left :: "(nat \<Rightarrow> bool) \<Rightarrow> nat \<Rightarrow> nat \<Rightarrow> store \<Rightarrow> store option" where
  "mod_down_left al R B st =
    (if mpi_cmp_mpi (st R) (st B) \<ge> 0
     then case mpi_sub_mpi al (st R) This (if B = R then This else That (st B)) of
            None \<Rightarrow> None
          | Some (Inl e) \<Rightarrow> Some st
          | Some (Inr V) \<Rightarrow> mod_down_left al R B (st(R := V))
     else Some st)"

declare mod_up_left.simps [code] mod_down_left.simps [code]

definition mod_unchecked :: "(nat \<Rightarrow> bool) \<Rightarrow> mpi \<Rightarrow> mpi \<Rightarrow> mpi \<Rightarrow> mpi option" where
  "mod_unchecked al R A N =
    (let st = (\<lambda>_. mpi_init)(0 := R, 1 := A, 2 := N) in
     case mpi_div_mpi al None (Some 0) 1 2 st of None \<Rightarrow> None
     | Some (Inl e) \<Rightarrow> Some R
     | Some (Inr st) \<Rightarrow>
        (case mod_up al 0 2 st of None \<Rightarrow> None
         | Some (Inl e) \<Rightarrow> map_option (\<lambda>st. st 0) (mod_up_left al 0 2 st)
         | Some (Inr st) \<Rightarrow>
            (case mod_down al 0 2 st of None \<Rightarrow> None
             | Some (Inl e) \<Rightarrow> map_option (\<lambda>st. st 0) (mod_down_left al 0 2 st)
             | Some (Inr st) \<Rightarrow> Some (st 0))))"

subsection \<open>Sliding-window exponentiation\<close>

definition exp_wsize :: "nat \<Rightarrow> nat" where
  "exp_wsize i = (if i > 671 then 6 else if i > 239 then 5 else if i > 79 then 4 else if i > 23 then 3 else 1)"

text \<open>\<open>R^2 mod N\<close>, computed at the first call and kept at \<open>_RR\<close> (\<open>None\<close> for \<open>NULL\<close>).\<close>

definition exp_RR :: "(nat \<Rightarrow> bool) \<Rightarrow> mpi \<Rightarrow> mpi option \<Rightarrow> (mpi \<times> mpi option) mres" where
  "exp_RR al N rr =
    (if rr = None \<or> mpi_p (the rr) = []
     then MPI_CHK (mpi_lset al mpi_init 1) (\<lambda>RR.
          MPI_CHK (mpi_shift_l al RR (mpi_n N * 2 * 32)) (\<lambda>RR.
          MPI_CHK (mod_call al RR This N) (\<lambda>RR.
          ok (RR, if rr = None then None else Some RR))))
     else ok (the rr, rr))"

definition exp_base :: "(nat \<Rightarrow> bool) \<Rightarrow> mpi \<Rightarrow> mpi \<Rightarrow> mpi \<Rightarrow> mpi option" where
  "exp_base al V A N =
    (if mpi_cmp_mpi A N \<ge> 0 then mod_unchecked al V A N else Some (copy_unchecked al V A))"

fun mont_squares :: "nat \<Rightarrow> mpi \<Rightarrow> mpi \<Rightarrow> t_int \<Rightarrow> mpi \<Rightarrow> (mpi \<times> mpi) option" where
  "mont_squares 0 A N mm T = Some (A, T)"
| "mont_squares (Suc k) A N mm T =
    (case mpi_montmul A A N mm T of None \<Rightarrow> None | Some (A, T) \<Rightarrow> mont_squares k A N mm T)"

text \<open>The window table: the loop from \<open>W[j + 1]\<close> on, and the code around it.\<close>

function exp_fill :: "(nat \<Rightarrow> bool) \<Rightarrow> mpi \<Rightarrow> t_int \<Rightarrow> nat \<Rightarrow> nat \<Rightarrow> mpi list \<Rightarrow> mpi \<Rightarrow> (mpi list \<times> mpi) mres" where
  "exp_fill al N mm i m W T =
    (if i < m
     then MPI_CHK (mpi_grow al (W ! i) (mpi_n N + 1)) (\<lambda>V.
          MPI_CHK (mpi_copy al V (That (W ! (i - 1)))) (\<lambda>V.
          case mpi_montmul V (W ! 1) N mm T of None \<Rightarrow> None
          | Some (V, T) \<Rightarrow> exp_fill al N mm (Suc i) m (W[i := V]) T))
     else ok (W, T))"
  by pat_completeness auto
termination by (relation "measure (\<lambda>(al, N, mm, i, m, W, T). m - i)") auto

declare exp_fill.simps [simp del]

definition exp_table :: "(nat \<Rightarrow> bool) \<Rightarrow> mpi \<Rightarrow> t_int \<Rightarrow> nat \<Rightarrow> mpi list \<Rightarrow> mpi \<Rightarrow> (mpi list \<times> mpi) mres" where
  "exp_table al N mm wsize W T =
    (if wsize > 1
     then let j = 2 ^ (wsize - 1) in
          MPI_CHK (mpi_grow al (W ! j) (mpi_n N + 1)) (\<lambda>V.
          MPI_CHK (mpi_copy al V (That (W ! 1))) (\<lambda>V.
          case mont_squares (wsize - 1) V N mm T of None \<Rightarrow> None
          | Some (V, T) \<Rightarrow> exp_fill al N mm (j + 1) (2 ^ wsize) (W[j := V]) T))
     else ok (W, T))"

text \<open>The loop over the bits of the exponent, from the highest.\<close>

function exp_loop ::
  "t_int list \<Rightarrow> mpi list \<Rightarrow> mpi \<Rightarrow> t_int \<Rightarrow> nat \<Rightarrow> nat \<Rightarrow> nat \<Rightarrow> nat \<Rightarrow> nat \<Rightarrow> nat \<Rightarrow> mpi \<Rightarrow> mpi
    \<Rightarrow> (mpi \<times> mpi \<times> nat \<times> nat) option" where
  "exp_loop E W N mm wsize nblimbs bufsize nbits wbits state X T =
    (if bufsize = 0 \<and> nblimbs = 0 then Some (X, T, nbits, wbits)
     else let nblimbs = (if bufsize = 0 then nblimbs - 1 else nblimbs);
              bufsize = (if bufsize = 0 then 32 else bufsize) - 1;
              ei = drop_bit bufsize (E ! nblimbs) AND 1
          in if ei = 0 \<and> state = 0
             then exp_loop E W N mm wsize nblimbs bufsize nbits wbits state X T
             else if ei = 0 \<and> state = 1
             then case mpi_montmul X X N mm T of None \<Rightarrow> None
                  | Some (X, T) \<Rightarrow> exp_loop E W N mm wsize nblimbs bufsize nbits wbits state X T
             else let nbits = nbits + 1;
                      wbits = wbits OR push_bit (wsize - nbits) (unat ei)
                  in if nbits = wsize
                     then case mont_squares wsize X N mm T of None \<Rightarrow> None
                          | Some (X, T) \<Rightarrow>
                            (case mpi_montmul X (W ! wbits) N mm T of None \<Rightarrow> None
                             | Some (X, T) \<Rightarrow> exp_loop E W N mm wsize nblimbs bufsize 0 0 1 X T)
                     else exp_loop E W N mm wsize nblimbs bufsize nbits wbits 2 X T)"
  by pat_completeness auto
termination
  by (relation "measure (\<lambda>(E, W, N, mm, wsize, nblimbs, bufsize, _). 33 * nblimbs + bufsize)") auto

declare exp_loop.simps [simp del]

fun exp_rest ::
  "nat \<Rightarrow> mpi list \<Rightarrow> mpi \<Rightarrow> t_int \<Rightarrow> nat \<Rightarrow> nat \<Rightarrow> mpi \<Rightarrow> mpi \<Rightarrow> (mpi \<times> mpi) option" where
  "exp_rest 0 W N mm wsize wbits X T = Some (X, T)"
| "exp_rest (Suc k) W N mm wsize wbits X T =
    (case mpi_montmul X X N mm T of None \<Rightarrow> None
     | Some (X, T) \<Rightarrow>
        (let wbits = push_bit 1 wbits
         in if wbits AND 2 ^ wsize \<noteq> 0
            then case mpi_montmul X (W ! 1) N mm T of None \<Rightarrow> None
                 | Some (X, T) \<Rightarrow> exp_rest k W N mm wsize wbits X T
            else exp_rest k W N mm wsize wbits X T))"

definition mpi_exp_mod ::
  "(nat \<Rightarrow> bool) \<Rightarrow> mpi \<Rightarrow> operand \<Rightarrow> mpi \<Rightarrow> mpi \<Rightarrow> mpi option \<Rightarrow> (mpi \<times> mpi option) mres" where
  "mpi_exp_mod al X A E N rr =
    (if mpi_cmp_int N 0 < 0 then err POLARSSL_ERR_MPI_BAD_INPUT_DATA
     else if mpi_p N = [] then None
     else if mpi_p N ! 0 AND 1 = 0 then err POLARSSL_ERR_MPI_BAD_INPUT_DATA
     else
       case mpi_montg_init N of None \<Rightarrow> None
       | Some mm \<Rightarrow>
       (case mpi_msb E of None \<Rightarrow> None
       | Some i \<Rightarrow>
         let wsize = exp_wsize i;
             W = replicate 64 \<lparr>mpi_s = 0, mpi_p = []\<rparr>;
             j = mpi_n N + 1
         in MPI_CHK (mpi_grow al X j) (\<lambda>X.
            MPI_CHK (mpi_grow al (W ! 1) j) (\<lambda>V.
            MPI_CHK (mpi_grow al mpi_init (j * 2)) (\<lambda>T.
            MPI_CHK (exp_RR al N rr) (\<lambda>(RR, rr).
            case exp_base al V (opnd X A) N of None \<Rightarrow> None
            | Some V \<Rightarrow>
            (case mpi_montmul V RR N mm T of None \<Rightarrow> None
            | Some (V, T) \<Rightarrow>
              MPI_CHK (mpi_copy al X (That RR)) (\<lambda>X.
              case mpi_montred X N mm T of None \<Rightarrow> None
              | Some (X, T) \<Rightarrow>
                MPI_CHK (exp_table al N mm wsize (W[1 := V]) T) (\<lambda>(W, T).
                case exp_loop (mpi_p E) W N mm wsize (mpi_n E) 0 0 0 0 X T of None \<Rightarrow> None
                | Some (X, T, nbits, wbits) \<Rightarrow>
                (case exp_rest nbits W N mm wsize wbits X T of None \<Rightarrow> None
                | Some (X, T) \<Rightarrow>
                (case mpi_montred X N mm T of None \<Rightarrow> None
                | Some (X, T) \<Rightarrow> ok (X, rr))))))))))))"

end
