(* ===== verification/RandomSupply.thy ===== *)
theory RandomSupply
  imports MpiAdd
begin

text \<open>
  The random supply of \<open>src/common/crypto/RandomSupply.cpp\<close>: a block cipher in counter mode.
  The cipher (\<open>rijndaelKeySetupEnc\<close> and \<open>rijndaelBlockEncrypt\<close>, table-driven AES) is the
  argument \<open>encrypt\<close>; the counter is the four 32-bit words the code increments.
\<close>

subsection \<open>The supply\<close>

record RandomSupply =
  counter :: "u32 list"
  round_keys :: "u32 list"
  pool :: bytes
  pool_ptr :: nat

type_synonym cipher = "u32 list \<Rightarrow> nat \<Rightarrow> u32 list \<Rightarrow> bytes"

definition getNumAesRounds :: "nat \<Rightarrow> nat option" where
  "getNumAesRounds num_bits =
    (if num_bits = 128 then Some 10 else if num_bits = 192 then Some 12 else if num_bits = 256 then Some 14 else None)"

text \<open>The pool is not initialised: \<open>junk\<close> is what its memory held.\<close>

definition RandomSupply_init :: "(bytes \<Rightarrow> nat \<Rightarrow> u32 list) \<Rightarrow> bytes \<Rightarrow> bytes \<Rightarrow> RandomSupply" where
  "RandomSupply_init key_setup junk seed =
    \<lparr>counter = replicate 4 0, round_keys = key_setup seed 128, pool = junk, pool_ptr = 16\<rparr>"

text \<open>The loop over the words of the counter; true when all of them wrapped.\<close>

fun increment :: "u32 list \<Rightarrow> u32 list \<times> bool" where
  "increment [] = ([], True)"
| "increment (c # cs) =
    (if c + 1 = 0 then let (cs, all_overflow) = increment cs in (0 # cs, all_overflow)
     else ((c + 1) # cs, False))"

definition get_random_byte :: "cipher \<Rightarrow> RandomSupply \<Rightarrow> (u8 \<times> RandomSupply) option" where
  "get_random_byte encrypt rs = do {
     rs \<leftarrow> (if pool_ptr rs \<ge> 16
            then do {
              let (ctr, all_overflow) = increment (counter rs);
              _ \<leftarrow> lite_assert (\<not> all_overflow);
              rounds \<leftarrow> getNumAesRounds 128;
              Some (rs\<lparr>counter := ctr, pool := encrypt (round_keys rs) rounds ctr, pool_ptr := 0\<rparr>)
            }
            else Some rs);
     v \<leftarrow> rd (pool rs) (pool_ptr rs);
     Some (v, rs\<lparr>pool_ptr := pool_ptr rs + 1\<rparr>)
   }"

fun get_random_bytes :: "cipher \<Rightarrow> nat \<Rightarrow> RandomSupply \<Rightarrow> (bytes \<times> RandomSupply) option" where
  "get_random_bytes encrypt 0 rs = Some ([], rs)"
| "get_random_bytes encrypt (Suc n) rs = do {
     (v, rs) \<leftarrow> get_random_byte encrypt rs;
     (vs, rs) \<leftarrow> get_random_bytes encrypt n rs;
     Some (v # vs, rs)
   }"

subsection \<open>The stream of bytes\<close>

text \<open>The counter as a number, and the words of a number: the block for the \<open>c\<close>-th counter value.\<close>

fun words :: "nat \<Rightarrow> nat \<Rightarrow> u32 list" where
  "words 0 v = []"
| "words (Suc n) v = of_nat (v mod LB) # words n (v div LB)"

lemma unat_limb_of: "unat (of_nat (v mod LB) :: u32) = v mod LB"
  by (simp add: unat_of_nat LB_def)

lemma words_nval: "words (length cs) (nval cs) = cs"
  by (induction cs) (simp_all add: word_unat_eq_iff)

lemma nval_words: "v < LB ^ n \<Longrightarrow> nval (words n v) = v"
proof (induction n arbitrary: v)
  case (Suc n)
  then have "v div LB < LB ^ n" by (simp add: less_mult_imp_div_less mult.commute)
  with Suc.IH show ?case by (simp add: unat_limb_of)
qed simp

lemma length_words [simp]: "length (words n v) = n"
  by (induction n arbitrary: v) simp_all

text \<open>The loop adds one to the counter, and reports exactly the last value.\<close>

lemma increment_nval:
  "fst (increment cs) = words (length cs) (nval cs + 1)
    \<and> (snd (increment cs) \<longleftrightarrow> nval cs + 1 = LB ^ length cs)"
proof (induction cs)
  case (Cons c cs)
  show ?case
  proof (cases "c + 1 = 0")
    case True
    then have "unat c + 1 = LB" using limb_add [of c 1] by simp
    then have n: "nval (c # cs) + 1 = LB * (nval cs + 1)" by simp
    have "increment (c # cs) = (0 # fst (increment cs), snd (increment cs))"
      using True by (simp add: case_prod_beta)
    moreover have "LB * (nval cs + 1) = LB ^ length (c # cs) \<longleftrightarrow> nval cs + 1 = LB ^ length cs"
      by (simp only: length_Cons power_Suc mult_cancel1 LB_ne) simp
    moreover have "words (length (c # cs)) (LB * (nval cs + 1)) = 0 # words (length cs) (nval cs + 1)" by simp
    ultimately show ?thesis unfolding n using Cons by (simp only: fst_conv snd_conv)
  next
    case False
    then have c: "unat (c + 1) = unat c + 1" using limb_add [of c 1] by (simp add: word_less_1)
    then have lt: "unat c + 1 < LB" by (metis limb_less)
    have "nval (c # cs) + 1 = (unat c + 1) + LB * nval cs" by simp
    then have "(nval (c # cs) + 1) mod LB = unat c + 1" "(nval (c # cs) + 1) div LB = nval cs"
      using lt by (simp_all only: mod_mult_self2 div_mult_self2 LB_ne mod_less div_less add_0 not_False_eq_True)
    moreover have "c + 1 = of_nat (unat c + 1)" by simp
    ultimately show ?thesis
      using False words_nval [of cs] by auto
  qed
qed simp

definition supply_at :: "cipher \<Rightarrow> u32 list \<Rightarrow> nat \<Rightarrow> RandomSupply \<Rightarrow> bool" where
  "supply_at encrypt keys k rs \<longleftrightarrow> round_keys rs = keys \<and>
    (\<exists>c. counter rs = words 4 c \<and> c < LB ^ 4 \<and> k + 16 = 16 * c + pool_ptr rs \<and> pool_ptr rs \<le> 16
       \<and> (0 < c \<longrightarrow> pool rs = encrypt keys 10 (words 4 c)))"

definition stream_byte :: "cipher \<Rightarrow> u32 list \<Rightarrow> nat \<Rightarrow> u8" where
  "stream_byte encrypt keys k = encrypt keys 10 (words 4 (k div 16 + 1)) ! (k mod 16)"

lemma supply_init: "supply_at encrypt (key_setup seed 128) 0 (RandomSupply_init key_setup junk seed)"
proof -
  have "replicate 4 0 = words 4 0" by (simp add: numeral_eq_Suc)
  then show ?thesis by (simp add: supply_at_def RandomSupply_init_def)
qed

lemma random_byte_ok:
  assumes enc: "\<forall>c. length (encrypt keys 10 c) = 16" and at: "supply_at encrypt keys k rs" and k: "k < 16 * (LB ^ 4 - 1)"
  shows "\<exists>rs'. get_random_byte encrypt rs = Some (stream_byte encrypt keys k, rs') \<and> supply_at encrypt keys (k + 1) rs'"
proof -
  from at obtain c where c: "round_keys rs = keys" "counter rs = words 4 c" "c < LB ^ 4" "k + 16 = 16 * c + pool_ptr rs"
    "pool_ptr rs \<le> 16" "0 < c \<longrightarrow> pool rs = encrypt keys 10 (words 4 c)" by (auto simp: supply_at_def)
  show ?thesis
  proof (cases "pool_ptr rs \<ge> 16")
    case True
    then have k16: "k = 16 * c" using c(4,5) by simp
    then have "c + 1 < LB ^ 4" using k by simp
    then have inc: "increment (counter rs) = (words 4 (c + 1), False)"
      using increment_nval [of "counter rs"] nval_words [OF c(3)] c(2) by (simp add: prod_eq_iff)
    have "get_random_byte encrypt rs = Some (stream_byte encrypt keys k,
        rs\<lparr>counter := words 4 (c + 1), pool := encrypt keys 10 (words 4 (c + 1)), pool_ptr := 1\<rparr>)"
      using True inc enc c(1) k16
      by (simp add: get_random_byte_def lite_assert_def getNumAesRounds_def rd_def stream_byte_def)
    then show ?thesis using c(1) k16 \<open>c + 1 < LB ^ 4\<close> by (auto simp: supply_at_def intro!: exI [of _ "c + 1"])
  next
    case False
    then have c0: "0 < c" "k = 16 * (c - 1) + pool_ptr rs" using c(4) by auto
    then have "k div 16 + 1 = c" "k mod 16 = pool_ptr rs" using False by auto
    then have "get_random_byte encrypt rs = Some (stream_byte encrypt keys k, rs\<lparr>pool_ptr := pool_ptr rs + 1\<rparr>)"
      using False c(6) c0 enc by (simp add: get_random_byte_def rd_def stream_byte_def)
    then show ?thesis using c c0 False by (auto simp: supply_at_def intro!: exI [of _ c])
  qed
qed

lemma random_bytes_ok:
  assumes "\<forall>c. length (encrypt keys 10 c) = 16" "supply_at encrypt keys k rs" "k + n \<le> 16 * (LB ^ 4 - 1)"
  shows "\<exists>rs'. get_random_bytes encrypt n rs = Some (map (stream_byte encrypt keys) [k..<k + n], rs')
    \<and> supply_at encrypt keys (k + n) rs'"
  using assms(2,3)
proof (induction n arbitrary: k rs)
  case (Suc n)
  from random_byte_ok [OF assms(1) Suc.prems(1)] Suc.prems(2) obtain rs1 where
    1: "get_random_byte encrypt rs = Some (stream_byte encrypt keys k, rs1)" "supply_at encrypt keys (k + 1) rs1" by auto
  from Suc.IH [OF 1(2)] Suc.prems(2) obtain rs2 where
    "get_random_bytes encrypt n rs1 = Some (map (stream_byte encrypt keys) [k + 1..<k + 1 + n], rs2)"
    "supply_at encrypt keys (k + 1 + n) rs2" by auto
  moreover have "[k..<k + Suc n] = k # [k + 1..<k + 1 + n]" by (simp add: upt_conv_Cons del: upt_Suc)
  ultimately show ?case using 1(1) by (simp del: upt_Suc)
qed simp

end
