(* ===== verification/Rsa.thy ===== *)
theory Rsa
  imports MpiExp RandomSupply LiteLib
begin

text \<open>
  RSA with PKCS#1 v1.5 padding, \<open>src/common/crypto/rsa.cpp\<close> and \<open>rsa.h\<close>. A result is an error
  code (\<open>Inl\<close>) or the values the caller sees after a return of 0; \<open>None\<close> is an access outside a
  buffer or a limb vector. \<open>al\<close> says which allocations of limbs succeed. The buffer that
  \<open>rsa_pkcs1_decrypt\<close> and \<open>rsa_pkcs1_verify\<close> keep on the stack is not initialised: \<open>stack\<close> is
  what that memory held.
\<close>

unbundle bit_operations_syntax

definition POLARSSL_ERR_RSA_BAD_INPUT_DATA :: int where "POLARSSL_ERR_RSA_BAD_INPUT_DATA = - 0x0400"
definition POLARSSL_ERR_RSA_INVALID_PADDING :: int where "POLARSSL_ERR_RSA_INVALID_PADDING = - 0x0410"
definition POLARSSL_ERR_RSA_KEY_CHECK_FAILED :: int where "POLARSSL_ERR_RSA_KEY_CHECK_FAILED = - 0x0430"
definition POLARSSL_ERR_RSA_PUBLIC_FAILED :: int where "POLARSSL_ERR_RSA_PUBLIC_FAILED = - 0x0440"
definition POLARSSL_ERR_RSA_PRIVATE_FAILED :: int where "POLARSSL_ERR_RSA_PRIVATE_FAILED = - 0x0450"
definition POLARSSL_ERR_RSA_VERIFY_FAILED :: int where "POLARSSL_ERR_RSA_VERIFY_FAILED = - 0x0460"
definition POLARSSL_ERR_RSA_OUTPUT_TO_LARGE :: int where "POLARSSL_ERR_RSA_OUTPUT_TO_LARGE = - 0x0470"

definition RSA_RAW :: int where "RSA_RAW = 0"
definition RSA_MD2 :: int where "RSA_MD2 = 2"
definition RSA_MD4 :: int where "RSA_MD4 = 3"
definition RSA_MD5 :: int where "RSA_MD5 = 4"
definition RSA_SHA1 :: int where "RSA_SHA1 = 5"
definition RSA_SHA256 :: int where "RSA_SHA256 = 6"
definition RSA_SHA512 :: int where "RSA_SHA512 = 7"
definition RSA_PUBLIC :: int where "RSA_PUBLIC = 0"
definition RSA_PRIVATE :: int where "RSA_PRIVATE = 1"
definition RSA_PKCS_V15 :: int where "RSA_PKCS_V15 = 0"
definition RSA_SIGN :: u8 where "RSA_SIGN = 1"
definition RSA_CRYPT :: u8 where "RSA_CRYPT = 2"

definition ASN1_HASH_MDX :: bytes where
  "ASN1_HASH_MDX = [0x30, 0x20, 0x30, 0x0C, 0x06, 0x08, 0x2A, 0x86, 0x48,
     0x86, 0xF7, 0x0D, 0x02, 0x00, 0x05, 0x00, 0x04, 0x10]"

definition ASN1_HASH_SHA1 :: bytes where
  "ASN1_HASH_SHA1 = [0x30, 0x21, 0x30, 0x09, 0x06, 0x05, 0x2B, 0x0E, 0x03,
     0x02, 0x1A, 0x05, 0x00, 0x04, 0x14]"

definition ASN1_HASH_SHA256 :: bytes where
  "ASN1_HASH_SHA256 = [0x30, 0x31, 0x30, 0x0d, 0x06, 0x09, 0x60, 0x86, 0x48,
     0x01, 0x65, 0x03, 0x04, 0x02, 0x01, 0x05, 0x00, 0x04, 0x20]"

definition ASN1_HASH_SHA512 :: bytes where
  "ASN1_HASH_SHA512 = [0x30, 0x51, 0x30, 0x0d, 0x06, 0x09, 0x60, 0x86, 0x48,
     0x01, 0x65, 0x03, 0x04, 0x02, 0x03, 0x05, 0x00, 0x04, 0x40]"

record rsa_context =
  ctx_ver :: int
  ctx_len :: nat
  ctx_N :: mpi
  ctx_E :: mpi
  ctx_D :: mpi
  ctx_P :: mpi
  ctx_Q :: mpi
  ctx_DP :: mpi
  ctx_DQ :: mpi
  ctx_QP :: mpi
  ctx_RN :: mpi
  ctx_RP :: mpi
  ctx_RQ :: mpi
  ctx_padding :: int
  ctx_hash_id :: int

subsection \<open>Contexts and keys\<close>

definition rsa_init :: "int \<Rightarrow> int \<Rightarrow> rsa_context" where
  "rsa_init padding hash_id =
    (let z = \<lparr>mpi_s = 0, mpi_p = []\<rparr> in
     \<lparr>ctx_ver = 0, ctx_len = 0, ctx_N = z, ctx_E = z, ctx_D = z, ctx_P = z, ctx_Q = z, ctx_DP = z, ctx_DQ = z,
      ctx_QP = z, ctx_RN = z, ctx_RP = z, ctx_RQ = z, ctx_padding = padding, ctx_hash_id = hash_id\<rparr>)"

definition rsa_free :: "rsa_context \<Rightarrow> rsa_context" where
  "rsa_free ctx =
    ctx\<lparr>ctx_RQ := mpi_free (ctx_RQ ctx), ctx_RP := mpi_free (ctx_RP ctx), ctx_RN := mpi_free (ctx_RN ctx),
        ctx_QP := mpi_free (ctx_QP ctx), ctx_DQ := mpi_free (ctx_DQ ctx), ctx_DP := mpi_free (ctx_DP ctx),
        ctx_Q := mpi_free (ctx_Q ctx), ctx_P := mpi_free (ctx_P ctx), ctx_D := mpi_free (ctx_D ctx),
        ctx_E := mpi_free (ctx_E ctx), ctx_N := mpi_free (ctx_N ctx)\<rparr>"

text \<open>The return code.\<close>

definition rsa_check_pubkey :: "rsa_context \<Rightarrow> int option" where
  "rsa_check_pubkey ctx = do {
     n0 \<leftarrow> rd (mpi_p (ctx_N ctx)) 0;
     if n0 AND 1 = 0 then Some POLARSSL_ERR_RSA_KEY_CHECK_FAILED
     else do {
       e0 \<leftarrow> rd (mpi_p (ctx_E ctx)) 0;
       if e0 AND 1 = 0 then Some POLARSSL_ERR_RSA_KEY_CHECK_FAILED
       else do {
         n \<leftarrow> mpi_msb (ctx_N ctx);
         if n < 128 \<or> n > 4096 then Some POLARSSL_ERR_RSA_KEY_CHECK_FAILED
         else do {
           e \<leftarrow> mpi_msb (ctx_E ctx);
           if e < 2 \<or> e > 64 then Some POLARSSL_ERR_RSA_KEY_CHECK_FAILED else Some 0
         }
       }
     }
   }"

subsection \<open>The public and the private operation\<close>

text \<open>The label \<open>cleanup\<close>: the code of the failing call is combined with the one of the function.\<close>

definition cleanup :: "int \<Rightarrow> 'a mres \<Rightarrow> 'a mres" where
  "cleanup code m = (case m of None \<Rightarrow> None | Some (Inl r) \<Rightarrow> err (code OR r) | Some (Inr x) \<Rightarrow> ok x)"

definition rsa_write :: "mpi \<Rightarrow> bytes \<Rightarrow> nat \<Rightarrow> bytes mres" where
  "rsa_write T output olen =
    (if length output < olen then None
     else case mpi_write_binary T (take olen output) of None \<Rightarrow> None
       | Some (r, T, buf) \<Rightarrow> if r \<noteq> 0 then err (int r) else ok (overwrite output 0 buf))"

definition rsa_public :: "(nat \<Rightarrow> bool) \<Rightarrow> rsa_context \<Rightarrow> bytes \<Rightarrow> bytes \<Rightarrow> (rsa_context \<times> bytes) mres" where
  "rsa_public al ctx input output =
    (if length input < ctx_len ctx then None
     else MPI_CHK (cleanup POLARSSL_ERR_RSA_PUBLIC_FAILED (mpi_read_binary al mpi_init (take (ctx_len ctx) input))) (\<lambda>T.
       if mpi_cmp_mpi T (ctx_N ctx) \<ge> 0 then err POLARSSL_ERR_RSA_BAD_INPUT_DATA
       else cleanup POLARSSL_ERR_RSA_PUBLIC_FAILED (
         MPI_CHK (mpi_exp_mod al T This (ctx_E ctx) (ctx_N ctx) (Some (ctx_RN ctx))) (\<lambda>(T, rr).
         let ctx = ctx\<lparr>ctx_RN := the rr\<rparr> in
         MPI_CHK (rsa_write T output (ctx_len ctx)) (\<lambda>output. ok (ctx, output))))))"

definition rsa_private :: "(nat \<Rightarrow> bool) \<Rightarrow> rsa_context \<Rightarrow> bytes \<Rightarrow> bytes \<Rightarrow> (rsa_context \<times> bytes) mres" where
  "rsa_private al ctx input output =
    (if length input < ctx_len ctx then None
     else MPI_CHK (cleanup POLARSSL_ERR_RSA_PRIVATE_FAILED (mpi_read_binary al mpi_init (take (ctx_len ctx) input))) (\<lambda>T.
       if mpi_cmp_mpi T (ctx_N ctx) \<ge> 0 then err POLARSSL_ERR_RSA_BAD_INPUT_DATA
       else cleanup POLARSSL_ERR_RSA_PRIVATE_FAILED (
         MPI_CHK (mpi_exp_mod al mpi_init (That T) (ctx_DP ctx) (ctx_P ctx) (Some (ctx_RP ctx))) (\<lambda>(T1, rr).
         let ctx = ctx\<lparr>ctx_RP := the rr\<rparr> in
         MPI_CHK (mpi_exp_mod al mpi_init (That T) (ctx_DQ ctx) (ctx_Q ctx) (Some (ctx_RQ ctx))) (\<lambda>(T2, rr).
         let ctx = ctx\<lparr>ctx_RQ := the rr\<rparr> in
         MPI_CHK (mpi_sub_mpi al T (That T1) (That T2)) (\<lambda>T.
         MPI_CHK (mpi_mul_mpi al T1 (That T) (That (ctx_QP ctx))) (\<lambda>T1.
         MPI_CHK (mod_call al T (That T1) (ctx_P ctx)) (\<lambda>T.
         MPI_CHK (mpi_mul_mpi al T1 (That T) (That (ctx_Q ctx))) (\<lambda>T1.
         MPI_CHK (mpi_add_mpi al T (That T2) (That T1)) (\<lambda>T.
         MPI_CHK (rsa_write T output (ctx_len ctx)) (\<lambda>output. ok (ctx, output))))))))))))"

definition rsa_op :: "(nat \<Rightarrow> bool) \<Rightarrow> int \<Rightarrow> rsa_context \<Rightarrow> bytes \<Rightarrow> bytes \<Rightarrow> (rsa_context \<times> bytes) mres" where
  "rsa_op al mode ctx input output =
    (if mode = RSA_PUBLIC then rsa_public al ctx input output else rsa_private al ctx input output)"

subsection \<open>Encryption\<close>

partial_function (option) nonzero_byte :: "cipher \<Rightarrow> RandomSupply \<Rightarrow> (u8 \<times> RandomSupply) option" where
  "nonzero_byte encrypt rs =
    (case get_random_byte encrypt rs of None \<Rightarrow> None
     | Some (v, rs) \<Rightarrow> if v = 0 then nonzero_byte encrypt rs else Some (v, rs))"

declare nonzero_byte.simps [code]

fun pad_random :: "cipher \<Rightarrow> nat \<Rightarrow> nat \<Rightarrow> bytes \<Rightarrow> RandomSupply \<Rightarrow> (bytes \<times> RandomSupply) option" where
  "pad_random encrypt 0 p output rs = Some (output, rs)"
| "pad_random encrypt (Suc nb_pad) p output rs = do {
     (v, rs) \<leftarrow> nonzero_byte encrypt rs;
     output \<leftarrow> wr output p v;
     pad_random encrypt nb_pad (p + 1) output rs
   }"

text \<open>The padded block, before the RSA operation.\<close>

definition encrypt_block ::
  "cipher \<Rightarrow> RandomSupply \<Rightarrow> nat \<Rightarrow> nat \<Rightarrow> bytes \<Rightarrow> bytes \<Rightarrow> (bytes \<times> RandomSupply) option" where
  "encrypt_block encrypt rs olen ilen input output = do {
     let nb_pad = olen - 3 - ilen;
     output \<leftarrow> wr output 0 0;
     output \<leftarrow> wr output 1 RSA_CRYPT;
     (output, rs) \<leftarrow> pad_random encrypt nb_pad 2 output rs;
     output \<leftarrow> wr output (2 + nb_pad) 0;
     output \<leftarrow> lite_memcpy output (3 + nb_pad) input 0 ilen;
     Some (output, rs)
   }"

definition rsa_pkcs1_encrypt ::
  "(nat \<Rightarrow> bool) \<Rightarrow> cipher \<Rightarrow> rsa_context \<Rightarrow> RandomSupply \<Rightarrow> int \<Rightarrow> int \<Rightarrow> bytes \<Rightarrow> bytes
    \<Rightarrow> (rsa_context \<times> RandomSupply \<times> bytes) mres" where
  "rsa_pkcs1_encrypt al encrypt ctx rs mode ilen input output =
    (let olen = ctx_len ctx in
     if ctx_padding ctx = RSA_PKCS_V15
     then if ilen < 0 \<or> int olen < ilen + 11 then err POLARSSL_ERR_RSA_BAD_INPUT_DATA
          else case encrypt_block encrypt rs olen (nat ilen) input output of None \<Rightarrow> None
            | Some (output, rs) \<Rightarrow>
               MPI_CHK (rsa_op al mode ctx output output) (\<lambda>(ctx, output). ok (ctx, rs, output))
     else err POLARSSL_ERR_RSA_INVALID_PADDING)"

text \<open>The search for the zero that ends the padding, with the test \<open>bad\<close> on the padding bytes.\<close>

function pad_end :: "(u8 \<Rightarrow> bool) \<Rightarrow> bytes \<Rightarrow> nat \<Rightarrow> nat \<Rightarrow> nat mres" where
  "pad_end bad buf len p =
    (if p < length buf
     then if buf ! p = 0 then ok (p + 1)
          else if p \<ge> len - 1 \<or> bad (buf ! p) then err POLARSSL_ERR_RSA_INVALID_PADDING
          else pad_end bad buf len (p + 1)
     else None)"
  by pat_completeness auto
termination by (relation "measure (\<lambda>(bad, buf, len, p). length buf - p)") auto

declare pad_end.simps [simp del]

definition rsa_pkcs1_decrypt ::
  "(nat \<Rightarrow> bool) \<Rightarrow> bytes \<Rightarrow> rsa_context \<Rightarrow> int \<Rightarrow> bytes \<Rightarrow> bytes \<Rightarrow> int \<Rightarrow> (rsa_context \<times> nat \<times> bytes) mres" where
  "rsa_pkcs1_decrypt al stack ctx mode input output output_max_len =
    (let ilen = ctx_len ctx in
     if ilen < 16 \<or> ilen > 512 then err POLARSSL_ERR_RSA_BAD_INPUT_DATA
     else MPI_CHK (rsa_op al mode ctx input stack) (\<lambda>(ctx, buf).
       if ctx_padding ctx = RSA_PKCS_V15
       then if buf ! 0 \<noteq> 0 \<or> buf ! 1 \<noteq> RSA_CRYPT then err POLARSSL_ERR_RSA_INVALID_PADDING
            else MPI_CHK (pad_end (\<lambda>_. False) buf ilen 2) (\<lambda>p.
              let olen = ilen - p in
              if int olen > output_max_len then err POLARSSL_ERR_RSA_OUTPUT_TO_LARGE
              else case lite_memcpy output 0 buf p olen of None \<Rightarrow> None
                | Some output \<Rightarrow> ok (ctx, olen, output))
       else err POLARSSL_ERR_RSA_INVALID_PADDING))"

subsection \<open>Signatures\<close>

text \<open>The first switch of \<open>rsa_pkcs1_sign\<close>: the number of padding bytes.\<close>

definition sign_pad :: "nat \<Rightarrow> int \<Rightarrow> int \<Rightarrow> int option" where
  "sign_pad olen hash_id hashlen =
    (if hash_id = RSA_RAW then Some (int olen - 3 - hashlen)
     else if hash_id = RSA_SHA1 then Some (int olen - 3 - 35)
     else if hash_id = RSA_SHA256 then Some (int olen - 3 - 51)
     else if hash_id = RSA_SHA512 then Some (int olen - 3 - 83)
     else None)"

text \<open>The second switch; the case of SHA-512 has no \<open>break\<close> and runs into the default.\<close>

definition sign_digest :: "int \<Rightarrow> int \<Rightarrow> bytes \<Rightarrow> bytes \<Rightarrow> nat \<Rightarrow> bytes mres" where
  "sign_digest hash_id hashlen hash sig p =
    (if hash_id = RSA_RAW
     then if hashlen < 0 then None else map_option Inr (lite_memcpy sig p hash 0 (nat hashlen))
     else if hash_id = RSA_SHA1
     then map_option Inr (do { sig \<leftarrow> lite_memcpy sig p ASN1_HASH_SHA1 0 15; lite_memcpy sig (p + 15) hash 0 20 })
     else if hash_id = RSA_SHA256
     then map_option Inr (do { sig \<leftarrow> lite_memcpy sig p ASN1_HASH_SHA256 0 19; lite_memcpy sig (p + 19) hash 0 32 })
     else if hash_id = RSA_SHA512
     then do {
       sig \<leftarrow> lite_memcpy sig p ASN1_HASH_SHA512 0 19;
       sig \<leftarrow> lite_memcpy sig (p + 19) hash 0 64;
       err POLARSSL_ERR_RSA_BAD_INPUT_DATA
     }
     else err POLARSSL_ERR_RSA_BAD_INPUT_DATA)"

definition rsa_pkcs1_sign ::
  "(nat \<Rightarrow> bool) \<Rightarrow> rsa_context \<Rightarrow> int \<Rightarrow> int \<Rightarrow> int \<Rightarrow> bytes \<Rightarrow> bytes \<Rightarrow> (rsa_context \<times> bytes) mres" where
  "rsa_pkcs1_sign al ctx mode hash_id hashlen hash sig =
    (let olen = ctx_len ctx in
     if ctx_padding ctx = RSA_PKCS_V15
     then case sign_pad olen hash_id hashlen of
            None \<Rightarrow> err POLARSSL_ERR_RSA_BAD_INPUT_DATA
          | Some nb_pad \<Rightarrow>
             if nb_pad < 8 then err POLARSSL_ERR_RSA_BAD_INPUT_DATA
             else case do {
                   sig \<leftarrow> wr sig 0 0;
                   sig \<leftarrow> wr sig 1 RSA_SIGN;
                   sig \<leftarrow> lite_memset sig 2 0xFF (nat nb_pad);
                   wr sig (2 + nat nb_pad) 0
                 } of None \<Rightarrow> None
               | Some sig \<Rightarrow>
                  MPI_CHK (sign_digest hash_id hashlen hash sig (3 + nat nb_pad)) (\<lambda>sig.
                  rsa_op al mode ctx sig sig)
     else err POLARSSL_ERR_RSA_INVALID_PADDING)"

text \<open>
  The comparison of the digest, from offset \<open>p\<close> of the block on: the return code. The code for
  34 bytes overwrites byte 13 of the digest information before it compares.
\<close>

definition verify_part :: "bytes \<Rightarrow> nat \<Rightarrow> bytes \<Rightarrow> nat \<Rightarrow> bytes \<Rightarrow> nat \<Rightarrow> int option" where
  "verify_part buf p asn1 n hash m = do {
     r \<leftarrow> lite_memcmp buf p asn1 0 n;
     if r \<noteq> 0 then Some POLARSSL_ERR_RSA_VERIFY_FAILED
     else do {
       r \<leftarrow> lite_memcmp buf (p + n) hash 0 m;
       Some (if r = 0 then 0 else POLARSSL_ERR_RSA_VERIFY_FAILED)
     }
   }"

definition verify_digest :: "bytes \<Rightarrow> nat \<Rightarrow> nat \<Rightarrow> int \<Rightarrow> int \<Rightarrow> bytes \<Rightarrow> int option" where
  "verify_digest buf p len hash_id hashlen hash =
    (let rest = (\<lambda>buf.
       if len = 35 \<and> hash_id = RSA_SHA1 then verify_part buf p ASN1_HASH_SHA1 15 hash 20
       else if len = 51 \<and> hash_id = RSA_SHA256 then verify_part buf p ASN1_HASH_SHA256 19 hash 32
       else if len = 83 \<and> hash_id = RSA_SHA512 then verify_part buf p ASN1_HASH_SHA512 19 hash 64
       else if int len = hashlen \<and> hash_id = RSA_RAW
       then do {
         r \<leftarrow> lite_memcmp buf p hash 0 len;
         Some (if r = 0 then 0 else POLARSSL_ERR_RSA_VERIFY_FAILED)
       }
       else Some POLARSSL_ERR_RSA_INVALID_PADDING)
     in if len = 34
        then do {
          c \<leftarrow> rd buf (p + 13);
          buf \<leftarrow> wr buf (p + 13) 0;
          r \<leftarrow> lite_memcmp buf p ASN1_HASH_MDX 0 18;
          if r \<noteq> 0 then Some POLARSSL_ERR_RSA_VERIFY_FAILED
          else if c = 2 \<and> hash_id = RSA_MD2 \<or> c = 4 \<and> hash_id = RSA_MD4 \<or> c = 5 \<and> hash_id = RSA_MD5
          then do {
            r \<leftarrow> lite_memcmp buf (p + 18) hash 0 16;
            Some (if r = 0 then 0 else POLARSSL_ERR_RSA_VERIFY_FAILED)
          }
          else rest buf
        }
        else rest buf)"

definition rsa_pkcs1_verify ::
  "(nat \<Rightarrow> bool) \<Rightarrow> bytes \<Rightarrow> rsa_context \<Rightarrow> int \<Rightarrow> int \<Rightarrow> int \<Rightarrow> bytes \<Rightarrow> bytes \<Rightarrow> rsa_context mres" where
  "rsa_pkcs1_verify al stack ctx mode hash_id hashlen hash sig =
    (let siglen = ctx_len ctx in
     if siglen < 16 \<or> siglen > 512 then err POLARSSL_ERR_RSA_BAD_INPUT_DATA
     else MPI_CHK (rsa_op al mode ctx sig stack) (\<lambda>(ctx, buf).
       if ctx_padding ctx = RSA_PKCS_V15
       then if buf ! 0 \<noteq> 0 \<or> buf ! 1 \<noteq> RSA_SIGN then err POLARSSL_ERR_RSA_INVALID_PADDING
            else MPI_CHK (pad_end (\<lambda>v. v \<noteq> 0xFF) buf siglen 2) (\<lambda>p.
              case verify_digest buf p (siglen - p) hash_id hashlen hash of None \<Rightarrow> None
              | Some r \<Rightarrow> if r = 0 then ok ctx else err r)
       else err POLARSSL_ERR_RSA_INVALID_PADDING))"

end
