(* ===== verification/MpiPrime.thy ===== *)
theory MpiPrime
  imports MpiExp RandomSupply
begin

text \<open>
  The number theory of \<open>src/common/crypto/bignum.cpp\<close>: \<open>mpi_gcd\<close>, \<open>mpi_inv_mod\<close>,
  \<open>mpi_is_prime\<close> and \<open>mpi_gen_prime\<close>. Loops that need not end are partial functions, so that
  not returning is \<open>None\<close>. The code \<open>POLARSSL_ERR_MPI_NOT_ACCEPTABLE\<close> of \<open>mpi_is_prime\<close> is the
  value \<open>False\<close>, since its caller goes on after it; all other codes are errors.
\<close>

unbundle bit_operations_syntax

subsection \<open>Greatest common divisor\<close>

partial_function (option) make_odd :: "mpi \<Rightarrow> mpi option" where
  "make_odd T =
    (if mpi_p T = [] then None
     else if mpi_p T ! 0 AND 1 = 0 then make_odd (mpi_shift_r T 1) else Some T)"

partial_function (option) gcd_loop :: "(nat \<Rightarrow> bool) \<Rightarrow> mpi \<Rightarrow> mpi \<Rightarrow> mpi mres" where
  "gcd_loop al TA TB =
    (if mpi_cmp_int TA 0 \<noteq> 0
     then case make_odd TA of None \<Rightarrow> None
       | Some TA \<Rightarrow>
          (case make_odd TB of None \<Rightarrow> None
           | Some TB \<Rightarrow>
              if mpi_cmp_mpi TA TB \<ge> 0
              then case mpi_sub_abs al TA This (That TB) of None \<Rightarrow> None
                | Some (Inl r) \<Rightarrow> err r
                | Some (Inr TA) \<Rightarrow> gcd_loop al (mpi_shift_r TA 1) TB
              else case mpi_sub_abs al TB This (That TA) of None \<Rightarrow> None
                | Some (Inl r) \<Rightarrow> err r
                | Some (Inr TB) \<Rightarrow> gcd_loop al TA (mpi_shift_r TB 1))
     else ok TB)"

declare make_odd.simps [code] gcd_loop.simps [code]

definition mpi_gcd :: "(nat \<Rightarrow> bool) \<Rightarrow> mpi \<Rightarrow> mpi \<Rightarrow> mpi \<Rightarrow> mpi mres" where
  "mpi_gcd al G A B =
    MPI_CHK (mpi_lset al mpi_init 1) (\<lambda>TG.
    MPI_CHK (mpi_copy al mpi_init (That A)) (\<lambda>TA.
    MPI_CHK (mpi_copy al mpi_init (That B)) (\<lambda>TB.
    let TA = TA\<lparr>mpi_s := 1\<rparr>; TB = TB\<lparr>mpi_s := 1\<rparr> in
    MPI_CHK (gcd_loop al TA TB) (\<lambda>TB.
    mpi_mul_mpi al G (That TG) (That TB)))))"

subsection \<open>Modular inverse\<close>

text \<open>The loop that halves \<open>TU\<close>, with its two coefficients; the one for \<open>TV\<close> is the same code.\<close>

partial_function (option) inv_halve ::
  "(nat \<Rightarrow> bool) \<Rightarrow> mpi \<Rightarrow> mpi \<Rightarrow> mpi \<Rightarrow> mpi \<Rightarrow> mpi \<Rightarrow> (mpi \<times> mpi \<times> mpi) mres" where
  "inv_halve al TA TB TU U1 U2 =
    (if mpi_p TU = [] then None
     else if mpi_p TU ! 0 AND 1 = 0
     then let TU = mpi_shift_r TU 1 in
       if mpi_p U1 = [] \<or> mpi_p U2 = [] then None
       else if mpi_p U1 ! 0 AND 1 \<noteq> 0 \<or> mpi_p U2 ! 0 AND 1 \<noteq> 0
       then case mpi_add_mpi al U1 This (That TB) of None \<Rightarrow> None
         | Some (Inl r) \<Rightarrow> err r
         | Some (Inr U1) \<Rightarrow>
            (case mpi_sub_mpi al U2 This (That TA) of None \<Rightarrow> None
             | Some (Inl r) \<Rightarrow> err r
             | Some (Inr U2) \<Rightarrow> inv_halve al TA TB TU (mpi_shift_r U1 1) (mpi_shift_r U2 1))
       else inv_halve al TA TB TU (mpi_shift_r U1 1) (mpi_shift_r U2 1)
     else ok (TU, U1, U2))"

definition inv_subtract ::
  "(nat \<Rightarrow> bool) \<Rightarrow> mpi \<times> mpi \<times> mpi \<Rightarrow> mpi \<times> mpi \<times> mpi \<Rightarrow> (mpi \<times> mpi \<times> mpi) mres" where
  "inv_subtract al = (\<lambda>(TU, U1, U2) (TV, V1, V2).
    MPI_CHK (mpi_sub_mpi al TU This (That TV)) (\<lambda>TU.
    MPI_CHK (mpi_sub_mpi al U1 This (That V1)) (\<lambda>U1.
    MPI_CHK (mpi_sub_mpi al U2 This (That V2)) (\<lambda>U2. ok (TU, U1, U2)))))"

partial_function (option) inv_loop ::
  "(nat \<Rightarrow> bool) \<Rightarrow> mpi \<Rightarrow> mpi \<Rightarrow> mpi \<times> mpi \<times> mpi \<Rightarrow> mpi \<times> mpi \<times> mpi \<Rightarrow> mpi mres" where
  "inv_loop al TA TB U V =
    (case inv_halve al TA TB (fst U) (fst (snd U)) (snd (snd U)) of None \<Rightarrow> None
     | Some (Inl r) \<Rightarrow> err r
     | Some (Inr U) \<Rightarrow>
        (case inv_halve al TA TB (fst V) (fst (snd V)) (snd (snd V)) of None \<Rightarrow> None
         | Some (Inl r) \<Rightarrow> err r
         | Some (Inr V) \<Rightarrow>
            if mpi_cmp_mpi (fst U) (fst V) \<ge> 0
            then case inv_subtract al U V of None \<Rightarrow> None
              | Some (Inl r) \<Rightarrow> err r
              | Some (Inr U) \<Rightarrow> if mpi_cmp_int (fst U) 0 \<noteq> 0 then inv_loop al TA TB U V else ok (fst (snd V))
            else case inv_subtract al V U of None \<Rightarrow> None
              | Some (Inl r) \<Rightarrow> err r
              | Some (Inr V) \<Rightarrow> if mpi_cmp_int (fst U) 0 \<noteq> 0 then inv_loop al TA TB U V else ok (fst (snd V))))"

declare inv_halve.simps [code] inv_loop.simps [code] mod_up.simps [code] mod_down.simps [code]

definition mpi_inv_mod :: "(nat \<Rightarrow> bool) \<Rightarrow> mpi \<Rightarrow> mpi \<Rightarrow> mpi \<Rightarrow> mpi mres" where
  "mpi_inv_mod al X A N =
    (if mpi_cmp_int N 0 \<le> 0 then err POLARSSL_ERR_MPI_BAD_INPUT_DATA
     else MPI_CHK (mpi_gcd al mpi_init A N) (\<lambda>G.
       if mpi_cmp_int G 1 \<noteq> 0 then err POLARSSL_ERR_MPI_NOT_ACCEPTABLE
       else MPI_CHK (mod_call al mpi_init (That A) N) (\<lambda>TA.
       MPI_CHK (mpi_copy al mpi_init (That TA)) (\<lambda>TU.
       MPI_CHK (mpi_copy al mpi_init (That N)) (\<lambda>TB.
       MPI_CHK (mpi_copy al mpi_init (That N)) (\<lambda>TV.
       MPI_CHK (mpi_lset al mpi_init 1) (\<lambda>U1.
       MPI_CHK (mpi_lset al mpi_init 0) (\<lambda>U2.
       MPI_CHK (mpi_lset al mpi_init 0) (\<lambda>V1.
       MPI_CHK (mpi_lset al mpi_init 1) (\<lambda>V2.
       MPI_CHK (inv_loop al TA TB (TU, U1, U2) (TV, V1, V2)) (\<lambda>V1.
       MPI_CHK (mod_up al 0 1 ((\<lambda>_. mpi_init)(0 := V1, 1 := N))) (\<lambda>st.
       MPI_CHK (mod_down al 0 1 st) (\<lambda>st.
       mpi_copy al X (That (st 0)))))))))))))))"

subsection \<open>Primality\<close>

definition small_prime :: "int list" where
  "small_prime =
    [3, 5, 7, 11, 13, 17, 19, 23, 29, 31, 37, 41, 43, 47, 53, 59, 61, 67, 71, 73, 79, 83, 89, 97,
     101, 103, 107, 109, 113, 127, 131, 137, 139, 149, 151, 157, 163, 167, 173, 179, 181, 191, 193,
     197, 199, 211, 223, 227, 229, 233, 239, 241, 251, 257, 263, 269, 271, 277, 281, 283, 293, 307,
     311, 313, 317, 331, 337, 347, 349, 353, 359, 367, 373, 379, 383, 389, 397, 401, 409, 419, 421,
     431, 433, 439, 443, 449, 457, 461, 463, 467, 479, 487, 491, 499, 503, 509, 521, 523, 541, 547,
     557, 563, 569, 571, 577, 587, 593, 599, 601, 607, 613, 617, 619, 631, 641, 643, 647, 653, 659,
     661, 673, 677, 683, 691, 701, 709, 719, 727, 733, 739, 743, 751, 757, 761, 769, 773, 787, 797,
     809, 811, 821, 823, 827, 829, 839, 853, 857, 859, 863, 877, 881, 883, 887, 907, 911, 919, 929,
     937, 941, 947, 953, 967, 971, 977, 983, 991, 997, - 103]"

text \<open>Trial division: \<open>Some\<close> when the function returns from inside the loop.\<close>

fun is_prime_trial :: "mpi \<Rightarrow> int list \<Rightarrow> bool option mres" where
  "is_prime_trial X [] = ok None"
| "is_prime_trial X (p # ps) =
    (if p > 0
     then if mpi_cmp_int X p \<le> 0 then ok (Some True)
          else MPI_CHK (mpi_mod_int X p) (\<lambda>r. if r = 0 then ok (Some False) else is_prime_trial X ps)
     else ok None)"

text \<open>\<open>mpi_shift_r\<close> with an \<open>int\<close>: a negative count shifts no limbs, and its low five bits as bits.\<close>

definition shift_r_int :: "mpi \<Rightarrow> int \<Rightarrow> mpi" where
  "shift_r_int X cnt = mpi_shift_r X (if cnt \<ge> 0 then nat cnt else nat (cnt mod 32))"

text \<open>Random bytes written over the limbs of a number, in the byte order of the machine.\<close>

fun limbs_of_bytes :: "bytes \<Rightarrow> t_int list" where
  "limbs_of_bytes (a # b # c # d # bs) =
    (ucast a OR push_bit 8 (ucast b) OR push_bit 16 (ucast c) OR push_bit 24 (ucast d)) # limbs_of_bytes bs"
| "limbs_of_bytes _ = []"

definition random_limbs :: "cipher \<Rightarrow> mpi \<Rightarrow> RandomSupply \<Rightarrow> (mpi \<times> RandomSupply) option" where
  "random_limbs encrypt X rs =
    map_option (\<lambda>(bs, rs). (X\<lparr>mpi_p := limbs_of_bytes bs\<rparr>, rs)) (get_random_bytes encrypt (mpi_n X * 4) rs)"

function mr_squares :: "(nat \<Rightarrow> bool) \<Rightarrow> mpi \<Rightarrow> mpi \<Rightarrow> nat \<Rightarrow> nat \<Rightarrow> mpi \<Rightarrow> mpi \<Rightarrow> (mpi \<times> mpi) mres" where
  "mr_squares al X W s j A T =
    (if j < s \<and> mpi_cmp_mpi A W \<noteq> 0
     then MPI_CHK (mpi_mul_mpi al T (That A) (That A)) (\<lambda>T.
          MPI_CHK (mod_call al A (That T) X) (\<lambda>A.
          if mpi_cmp_int A 1 = 0 then ok (A, T) else mr_squares al X W s (j + 1) A T))
     else ok (A, T))"
  by pat_completeness auto
termination by (relation "measure (\<lambda>(al, X, W, s, j, A, T). s - j)") auto

declare mr_squares.simps [simp del]

text \<open>One round: true when the loop goes on.\<close>

definition mr_round ::
  "(nat \<Rightarrow> bool) \<Rightarrow> cipher \<Rightarrow> mpi \<Rightarrow> mpi \<Rightarrow> mpi \<Rightarrow> nat \<Rightarrow> mpi \<times> mpi \<times> mpi \<times> RandomSupply
    \<Rightarrow> (bool \<times> mpi \<times> mpi \<times> mpi \<times> RandomSupply) mres" where
  "mr_round al encrypt X W R s = (\<lambda>(A, T, RR, rs).
    MPI_CHK (mpi_grow al A (mpi_n X)) (\<lambda>A.
    case random_limbs encrypt A rs of None \<Rightarrow> None
    | Some (A, rs) \<Rightarrow>
    (case mpi_msb A of None \<Rightarrow> None
    | Some ma \<Rightarrow>
    (case mpi_msb W of None \<Rightarrow> None
    | Some mw \<Rightarrow>
      let j = int ma - int mw;
          A = shift_r_int A (j + 1);
          A = A\<lparr>mpi_p := (mpi_p A)[0 := mpi_p A ! 0 OR 3]\<rparr>
      in MPI_CHK (mpi_exp_mod al A This R X (Some RR)) (\<lambda>(A, rr).
         if mpi_cmp_mpi A W = 0 \<or> mpi_cmp_int A 1 = 0 then ok (True, A, T, the rr, rs)
         else MPI_CHK (mr_squares al X W s 1 A T) (\<lambda>(A, T).
           ok (\<not> (mpi_cmp_mpi A W \<noteq> 0 \<or> mpi_cmp_int A 1 = 0), A, T, the rr, rs)))))))"

fun mr_rounds ::
  "(nat \<Rightarrow> bool) \<Rightarrow> cipher \<Rightarrow> mpi \<Rightarrow> mpi \<Rightarrow> mpi \<Rightarrow> nat \<Rightarrow> nat \<Rightarrow> mpi \<times> mpi \<times> mpi \<times> RandomSupply
    \<Rightarrow> (bool \<times> RandomSupply) mres" where
  "mr_rounds al encrypt X W R s 0 (A, T, RR, rs) = ok (True, rs)"
| "mr_rounds al encrypt X W R s (Suc n) z =
    MPI_CHK (mr_round al encrypt X W R s z) (\<lambda>(go, A, T, RR, rs).
      if go then mr_rounds al encrypt X W R s n (A, T, RR, rs) else ok (False, rs))"

definition mr_count :: "nat \<Rightarrow> nat" where
  "mr_count i =
    (if i \<ge> 1300 then 2 else if i \<ge> 850 then 3 else if i \<ge> 650 then 4 else if i \<ge> 350 then 8
     else if i \<ge> 250 then 12 else if i \<ge> 150 then 18 else 27)"

text \<open>
  The bits of \<open>W\<close> are counted before \<open>W\<close> is set, and the returns inside the trial division
  leave the sign of \<open>X\<close> changed.
\<close>

definition mpi_is_prime :: "(nat \<Rightarrow> bool) \<Rightarrow> cipher \<Rightarrow> mpi \<Rightarrow> RandomSupply \<Rightarrow> (bool \<times> mpi \<times> RandomSupply) mres" where
  "mpi_is_prime al encrypt X rs =
    (if mpi_cmp_int X 0 = 0 then ok (True, X, rs)
     else let xs = mpi_s X; X = X\<lparr>mpi_s := 1\<rparr> in
       if mpi_p X = [] then None
       else if mpi_p X ! 0 AND 1 = 0 then ok (False, X, rs)
       else MPI_CHK (is_prime_trial X small_prime) (\<lambda>verdict.
         case verdict of Some v \<Rightarrow> ok (v, X, rs)
         | None \<Rightarrow>
            let s = mpi_lsb mpi_init in
            MPI_CHK (mpi_sub_int al mpi_init (That X) 1) (\<lambda>W.
            MPI_CHK (mpi_copy al mpi_init (That W)) (\<lambda>R.
            let R = mpi_shift_r R s in
            case mpi_msb X of None \<Rightarrow> None
            | Some i \<Rightarrow>
               MPI_CHK (mr_rounds al encrypt X W R s (mr_count i) (mpi_init, mpi_init, mpi_init, rs)) (\<lambda>(v, rs).
               ok (v, X\<lparr>mpi_s := xs\<rparr>, rs))))))"

partial_function (option) gen_prime_loop ::
  "(nat \<Rightarrow> bool) \<Rightarrow> cipher \<Rightarrow> mpi \<Rightarrow> RandomSupply \<Rightarrow> (mpi \<times> RandomSupply) mres" where
  "gen_prime_loop al encrypt X rs =
    (case mpi_is_prime al encrypt X rs of None \<Rightarrow> None
     | Some (Inl r) \<Rightarrow> err r
     | Some (Inr (v, X, rs)) \<Rightarrow>
        if v then ok (X, rs)
        else case mpi_add_int al X This 2 of None \<Rightarrow> None
          | Some (Inl r) \<Rightarrow> err r
          | Some (Inr X) \<Rightarrow> gen_prime_loop al encrypt X rs)"

partial_function (option) gen_safe_loop ::
  "(nat \<Rightarrow> bool) \<Rightarrow> cipher \<Rightarrow> mpi \<Rightarrow> mpi \<Rightarrow> RandomSupply \<Rightarrow> (mpi \<times> RandomSupply) mres" where
  "gen_safe_loop al encrypt X Y rs =
    (case mpi_is_prime al encrypt X rs of None \<Rightarrow> None
     | Some (Inl r) \<Rightarrow> err r
     | Some (Inr (v, X, rs)) \<Rightarrow>
        (case (if v then mpi_is_prime al encrypt Y rs else ok (False, Y, rs)) of None \<Rightarrow> None
         | Some (Inl r) \<Rightarrow> err r
         | Some (Inr (v, Y, rs)) \<Rightarrow>
            if v then ok (X, rs)
            else case mpi_add_int al Y (That X) 1 of None \<Rightarrow> None
              | Some (Inl r) \<Rightarrow> err r
              | Some (Inr Y) \<Rightarrow>
                 (case mpi_add_int al X This 2 of None \<Rightarrow> None
                  | Some (Inl r) \<Rightarrow> err r
                  | Some (Inr X) \<Rightarrow> gen_safe_loop al encrypt X (mpi_shift_r Y 1) rs)))"

declare gen_prime_loop.simps [code] gen_safe_loop.simps [code]

definition mpi_gen_prime ::
  "(nat \<Rightarrow> bool) \<Rightarrow> cipher \<Rightarrow> mpi \<Rightarrow> int \<Rightarrow> int \<Rightarrow> RandomSupply \<Rightarrow> (mpi \<times> RandomSupply) mres" where
  "mpi_gen_prime al encrypt X nbits dh_flag rs =
    (if nbits < 3 then err POLARSSL_ERR_MPI_BAD_INPUT_DATA
     else MPI_CHK (mpi_grow al X (BITS_TO_LIMBS (nat nbits))) (\<lambda>X.
     MPI_CHK (mpi_lset al X 0) (\<lambda>X.
     case random_limbs encrypt X rs of None \<Rightarrow> None
     | Some (X, rs) \<Rightarrow>
     (case mpi_msb X of None \<Rightarrow> None
     | Some k \<Rightarrow>
       MPI_CHK (if k < nat nbits then mpi_shift_l al X (nat nbits - k) else ok X) (\<lambda>X.
       let X = (if k > nat nbits then mpi_shift_r X (k - nat nbits) else X);
           X = X\<lparr>mpi_p := (mpi_p X)[0 := mpi_p X ! 0 OR 3]\<rparr>
       in if dh_flag = 0 then gen_prime_loop al encrypt X rs
          else MPI_CHK (mpi_sub_int al mpi_init (That X) 1) (\<lambda>Y.
               gen_safe_loop al encrypt X (mpi_shift_r Y 1) rs))))))"

end
