(* ===== verification/MpiExpOk.thy ===== *)
theory MpiExpOk
  imports MpiExp
begin

text \<open>
  The sliding-window exponentiation computes the power: numbers in Montgomery form as powers of
  the base, the window table, and the loop over the bits of the exponent.
\<close>

unbundle bit_operations_syntax

subsection \<open>Powers in Montgomery form\<close>

definition mont_env :: "mpi \<Rightarrow> t_int \<Rightarrow> bool" where
  "mont_env N mm \<longleftrightarrow> mpi_p N \<noteq> [] \<and> mpi_p N ! 0 * mm = - 1 \<and> odd (nval (mpi_p N)) \<and> 1 < nval (mpi_p N)"

definition montpow :: "mpi \<Rightarrow> nat \<Rightarrow> nat \<Rightarrow> mpi \<Rightarrow> bool" where
  "montpow N a e X \<longleftrightarrow> mpi_n N + 1 \<le> mpi_n X \<and> nval (mpi_p X) < nval (mpi_p N)
    \<and> nval (mpi_p X) = a ^ e * LB ^ mpi_n N mod nval (mpi_p N)"

lemma mod_cancel_nat:
  fixes c x y m :: nat
  assumes "coprime c m" "c * x mod m = c * y mod m"
  shows "x mod m = y mod m"
proof -
  have "int c * int x mod int m = int c * int y mod int m" using assms(2) by (metis of_nat_mod of_nat_mult)
  then have "int m dvd int c * (int x - int y)" by (simp add: mod_eq_dvd_iff right_diff_distrib)
  moreover have "coprime (int m) (int c)" using assms(1) by (simp add: coprime_commute)
  ultimately have "int m dvd int x - int y" by (simp add: coprime_dvd_mult_right_iff)
  then have "int x mod int m = int y mod int m" by (simp add: mod_eq_dvd_iff)
  then show ?thesis by (metis of_nat_eq_iff of_nat_mod)
qed

lemma odd_coprime_LB: "odd m \<Longrightarrow> coprime (LB ^ k) (m :: nat)"
  by (simp add: LB_pow)

lemma montmul_any:
  assumes "mont_env N mm" "mpi_n N + 1 \<le> mpi_n X" "nval (mpi_p X) < LB ^ mpi_n N"
    "mpi_p Y \<noteq> []" "nval (mpi_p Y) < nval (mpi_p N)" "mpi_n T = 2 * mpi_n N + 2"
    and z: "nval (mpi_p X) * nval (mpi_p Y) mod nval (mpi_p N) = LB ^ mpi_n N * z mod nval (mpi_p N)"
  shows "\<exists>X' T'. mpi_montmul X Y N mm T = Some (X', T') \<and> mpi_n X' = mpi_n X \<and> mpi_s X' = mpi_s X
    \<and> mpi_n T' = 2 * mpi_n N + 2 \<and> nval (mpi_p X') = z mod nval (mpi_p N)"
proof -
  have "mpi_p N ! 0 * mm = - 1" "0 < mpi_n N" "0 < mpi_n Y" "2 * mpi_n N + 2 \<le> mpi_n T"
    using assms(1,4,6) by (simp_all add: mont_env_def)
  from mpi_montmul_ok [OF this(1,2) assms(3,2) this(3) assms(5) this(4)] obtain X' T' where
    r: "mpi_montmul X Y N mm T = Some (X', T')" "mpi_n X' = mpi_n X" "mpi_s X' = mpi_s X"
    "mpi_n T' = mpi_n T" "nval (mpi_p X') < nval (mpi_p N)"
    "LB ^ mpi_n N * nval (mpi_p X') mod nval (mpi_p N) = nval (mpi_p X) * nval (mpi_p Y) mod nval (mpi_p N)"
    by (elim exE conjE) (rule that)
  have "nval (mpi_p X') mod nval (mpi_p N) = z mod nval (mpi_p N)"
    by (rule mod_cancel_nat [OF odd_coprime_LB [of _ "mpi_n N"] trans [OF r(6) z]])
      (use assms(1) in \<open>simp add: mont_env_def\<close>)
  then show ?thesis using r assms(6) by auto
qed

lemma montmul_pow:
  assumes N: "mont_env N mm" and X: "montpow N a e X" and Y: "montpow N a f Y"
    and T: "mpi_n T = 2 * mpi_n N + 2"
  shows "\<exists>X' T'. mpi_montmul X Y N mm T = Some (X', T') \<and> montpow N a (e + f) X' \<and> mpi_s X' = mpi_s X
    \<and> mpi_n X' = mpi_n X \<and> mpi_n T' = 2 * mpi_n N + 2"
proof -
  let ?N = "nval (mpi_p N)" and ?R = "LB ^ mpi_n N"
  have "nval (mpi_p X) * nval (mpi_p Y) mod ?N = (a ^ e * ?R) * (a ^ f * ?R) mod ?N"
    using X Y by (simp add: montpow_def mod_mult_eq)
  then have z: "nval (mpi_p X) * nval (mpi_p Y) mod ?N = ?R * (a ^ (e + f) * ?R) mod ?N"
    by (simp add: power_add ac_simps)
  have "nval (mpi_p X) < ?R" "mpi_p Y \<noteq> []" using X Y nval_less [of "mpi_p N"] by (auto simp: montpow_def)
  with montmul_any [OF N _ _ _ _ T z] X Y obtain X' T' where
    "mpi_montmul X Y N mm T = Some (X', T')" "mpi_n X' = mpi_n X" "mpi_s X' = mpi_s X"
    "mpi_n T' = 2 * mpi_n N + 2" "nval (mpi_p X') = a ^ (e + f) * ?R mod ?N"
    by (auto simp: montpow_def)
  moreover have "0 < ?N" using N by (simp add: mont_env_def)
  ultimately show ?thesis using X by (auto simp: montpow_def)
qed

lemma mont_squares_pow:
  assumes "mont_env N mm" "montpow N a e X" "mpi_n T = 2 * mpi_n N + 2"
  shows "\<exists>X' T'. mont_squares k X N mm T = Some (X', T') \<and> montpow N a (e * 2 ^ k) X' \<and> mpi_s X' = mpi_s X
    \<and> mpi_n X' = mpi_n X \<and> mpi_n T' = 2 * mpi_n N + 2"
  using assms(2,3)
proof (induction k arbitrary: e X T)
  case (Suc k)
  from montmul_pow [OF assms(1) Suc.prems(1,1,2)] obtain X' T' where
    1: "mpi_montmul X X N mm T = Some (X', T')" "montpow N a (e + e) X'" "mpi_s X' = mpi_s X"
    "mpi_n T' = 2 * mpi_n N + 2" "mpi_n X' = mpi_n X" by blast
  from Suc.IH [OF 1(2,4)] obtain X'' T'' where
    "mont_squares k X' N mm T' = Some (X'', T'')" "montpow N a ((e + e) * 2 ^ k) X''" "mpi_s X'' = mpi_s X'"
    "mpi_n X'' = mpi_n X'" "mpi_n T'' = 2 * mpi_n N + 2" by blast
  moreover have "(e + e) * 2 ^ k = e * 2 ^ Suc k" by simp
  ultimately show ?case using 1 by (simp only: mont_squares.simps option.case prod.case) auto
qed simp

subsection \<open>The window table\<close>

lemma grow_copy_pow:
  assumes al: "\<forall>k. al k" and Y: "montpow N a e Y"
  shows "\<exists>V Z. mpi_grow al X (mpi_n N + 1) = ok V \<and> mpi_copy al V (That Y) = ok Z \<and> montpow N a e Z"
proof -
  from gives_total [OF gives_grow al] obtain V where
    V: "mpi_grow al X (mpi_n N + 1) = ok V" "V = X\<lparr>mpi_p := mpi_p X @ replicate (mpi_n N + 1 - mpi_n X) 0\<rparr>" by blast
  from gives_total [OF gives_copy [of al V Y] al] obtain Z where
    Z: "mpi_copy al V (That Y) = ok Z" "nval (mpi_p Z) = nval (mpi_p Y)" "mpi_n V \<le> mpi_n Z" by auto
  have "montpow N a e Z" using Y Z(2,3) V(2) by (auto simp: montpow_def)
  then show ?thesis using V(1) Z(1) by auto
qed

lemma exp_fill_ok:
  assumes al: "\<forall>k. al k" and N: "mont_env N mm" and m: "m \<le> length W" "1 < i" "i \<le> m"
    and W: "montpow N a 1 (W ! 1)" "\<forall>k. lo \<le> k \<and> k < i \<longrightarrow> montpow N a k (W ! k)" "lo < i"
    and T: "mpi_n T = 2 * mpi_n N + 2"
  shows "\<exists>W' T'. exp_fill al N mm i m W T = ok (W', T') \<and> length W' = length W \<and> mpi_n T' = 2 * mpi_n N + 2
    \<and> montpow N a 1 (W' ! 1) \<and> (\<forall>k. lo \<le> k \<and> k < m \<longrightarrow> montpow N a k (W' ! k))"
  using m W T
proof (induction "m - i" arbitrary: i W T)
  case 0
  then show ?case by (simp add: exp_fill.simps)
next
  case (Suc d)
  have i: "i < m" using Suc.hyps(2) by simp
  have "montpow N a (i - 1) (W ! (i - 1))" using Suc.prems by auto
  from grow_copy_pow [OF al this, of "W ! i"] obtain V0 V where
    V: "montpow N a (i - 1) V" "mpi_grow al (W ! i) (mpi_n N + 1) = ok V0"
    "mpi_copy al V0 (That (W ! (i - 1))) = ok V" by blast
  from montmul_pow [OF N V(1) Suc.prems(4,7)] Suc.prems(2) obtain V' T' where
    V': "mpi_montmul V (W ! 1) N mm T = Some (V', T')" "montpow N a i V'" "mpi_n T' = 2 * mpi_n N + 2"
    by auto
  have "exp_fill al N mm i m W T = exp_fill al N mm (Suc i) m (W[i := V']) T'"
    using i V' by (subst exp_fill.simps) (simp add: V(2) [simplified] V(3) [simplified])
  moreover have "\<forall>k. lo \<le> k \<and> k < Suc i \<longrightarrow> montpow N a k (W[i := V'] ! k)"
    using Suc.prems i V'(2) by (auto simp: less_Suc_eq)
  moreover have "d = m - Suc i" using Suc.hyps(2) by simp
  ultimately have step: "exp_fill al N mm i m W T = exp_fill al N mm (Suc i) m (W[i := V']) T'"
    and "\<forall>k. lo \<le> k \<and> k < Suc i \<longrightarrow> montpow N a k (W[i := V'] ! k)" "d = m - Suc i" by simp_all
  with Suc.hyps(1) [of "Suc i" "W[i := V']" T'] Suc.prems i V'
  obtain W' T'' where "exp_fill al N mm (Suc i) m (W[i := V']) T' = ok (W', T'')" "length W' = length W"
    "mpi_n T'' = 2 * mpi_n N + 2" "montpow N a 1 (W' ! 1)" "\<forall>k. lo \<le> k \<and> k < m \<longrightarrow> montpow N a k (W' ! k)"
    by auto
  then show ?case unfolding step by auto
qed

lemma exp_table_ok:
  assumes al: "\<forall>k. al k" and N: "mont_env N mm" and W: "length W = 64" "montpow N a 1 (W ! 1)"
    and w: "0 < wsize" "wsize \<le> 6" and T: "mpi_n T = 2 * mpi_n N + 2"
  shows "\<exists>W' T'. exp_table al N mm wsize W T = ok (W', T') \<and> length W' = 64 \<and> mpi_n T' = 2 * mpi_n N + 2
    \<and> montpow N a 1 (W' ! 1) \<and> (\<forall>k. 2 ^ (wsize - 1) \<le> k \<and> k < 2 ^ wsize \<longrightarrow> montpow N a k (W' ! k))"
proof (cases "wsize > 1")
  case False
  then have "wsize = 1" using w by simp
  then show ?thesis using W T by (auto simp: exp_table_def less_2_cases_iff)
next
  case True
  define j :: nat where "j = 2 ^ (wsize - 1)"
  have "(2 :: nat) ^ wsize \<le> 2 ^ 6" using w by (intro power_increasing) simp_all
  moreover have "2 ^ wsize = 2 * j" using w by (cases wsize) (simp_all add: j_def)
  moreover have "(2 :: nat) ^ 1 \<le> j" unfolding j_def using True by (intro power_increasing) simp_all
  ultimately have j: "2 \<le> j" "2 ^ wsize = 2 * j" "2 * j \<le> 64" by simp_all
  from grow_copy_pow [OF al W(2), of "W ! j"] obtain V0 V where
    V: "montpow N a 1 V" "mpi_grow al (W ! j) (mpi_n N + 1) = ok V0"
    "mpi_copy al V0 (That (W ! 1)) = ok V" by blast
  from mont_squares_pow [OF N V(1) T, of "wsize - 1"] obtain V' T' where
    V': "mont_squares (wsize - 1) V N mm T = Some (V', T')" "montpow N a j V'" "mpi_n T' = 2 * mpi_n N + 2"
    by (auto simp: j_def)
  have "exp_table al N mm wsize W T = exp_fill al N mm (j + 1) (2 * j) (W[j := V']) T'"
    unfolding exp_table_def Let_def j_def [symmetric] j(2)
    using True V'(1) by (simp only: V MPI_CHK_simps if_True option.case prod.case)
  moreover have "\<exists>W' T''. exp_fill al N mm (j + 1) (2 * j) (W[j := V']) T' = ok (W', T'')
      \<and> length W' = length (W[j := V']) \<and> mpi_n T'' = 2 * mpi_n N + 2
      \<and> montpow N a 1 (W' ! 1) \<and> (\<forall>k. j \<le> k \<and> k < 2 * j \<longrightarrow> montpow N a k (W' ! k))"
    using j W V' by (intro exp_fill_ok [OF al N]) (auto simp: less_Suc_eq)
  ultimately show ?thesis unfolding j_def [symmetric] j(2) using W(1) by auto
qed

subsection \<open>The loop over the exponent\<close>

text \<open>
  The window is the top \<open>nbits\<close> of \<open>wsize\<close> bits of \<open>wbits\<close>: its value is \<open>v\<close>. \<open>x\<close> is the
  exponent already in \<open>X\<close>, and \<open>x * 2^nbits + v\<close> the part of the exponent already read.
\<close>

definition window :: "nat \<Rightarrow> nat \<Rightarrow> nat \<Rightarrow> nat \<Rightarrow> nat \<Rightarrow> nat \<Rightarrow> bool" where
  "window wsize nbits wbits state x v \<longleftrightarrow>
    nbits < wsize \<and> wbits = v * 2 ^ (wsize - nbits) \<and> v < 2 ^ nbits
    \<and> (if state = 0 then nbits = 0 \<and> x = 0 else if state = 1 then nbits = 0
       else state = 2 \<and> 0 < nbits \<and> 2 ^ (nbits - 1) \<le> v)"

lemma window_empty: "0 < wsize \<Longrightarrow> window wsize 0 0 1 x 0" "0 < wsize \<Longrightarrow> window wsize 0 0 0 0 0"
  by (simp_all add: window_def)

lemma window_push:
  assumes "window wsize nbits wbits state x v" "b \<le> 1" "b = 1 \<or> state = 2"
  defines "v' \<equiv> 2 * v + b" and "w' \<equiv> wbits OR push_bit (wsize - (nbits + 1)) b"
  shows "w' = v' * 2 ^ (wsize - (nbits + 1))" "v' < 2 ^ (nbits + 1)" "2 ^ nbits \<le> v'"
    "nbits + 1 \<noteq> wsize \<Longrightarrow> window wsize (nbits + 1) w' 2 x v'"
proof -
  define d where "d = wsize - (nbits + 1)"
  have d: "wsize - nbits = Suc d" using assms(1) by (simp add: window_def d_def Suc_diff_Suc)
  have "b = 0 \<or> b = 1" using assms(2) by linarith
  then have "2 * v AND b = 0" by (elim disjE) (simp_all only: and_one_eq and_zero_eq, simp)
  then have "push_bit d (2 * v) AND push_bit d b = 0" by (simp only: push_bit_and [symmetric] push_bit_of_0)
  then have "push_bit d (2 * v) OR push_bit d b = push_bit d (2 * v) + push_bit d b"
    by (rule disjunctive_add_eq_or [symmetric])
  moreover have "push_bit d (2 * v) = v * 2 ^ Suc d" by (simp add: push_bit_eq_mult)
  ultimately have "v * 2 ^ Suc d OR push_bit d b = v * 2 ^ Suc d + push_bit d b" by (simp only:)
  then show w: "w' = v' * 2 ^ (wsize - (nbits + 1))"
    using assms(1) d unfolding w'_def v'_def d_def [symmetric]
    by (simp add: window_def push_bit_eq_mult algebra_simps)
  show lt: "v' < 2 ^ (nbits + 1)" using assms(1,2) by (simp add: v'_def window_def)
  show ge: "2 ^ nbits \<le> v'"
    using assms(1-3) by (cases nbits) (auto simp: v'_def window_def split: if_splits)
  show "window wsize (nbits + 1) w' 2 x v'" if "nbits + 1 \<noteq> wsize"
    using assms(1) that w lt ge by (simp add: window_def)
qed

lemma bit_of_value:
  assumes "j < length E" "k < 32"
  shows "unat (drop_bit k (E ! j) AND 1) = nval E div 2 ^ (32 * j + k) mod 2"
proof -
  have "unat (drop_bit k (E ! j) AND 1) = unat (E ! j) div 2 ^ k mod 2"
    by (simp add: and_one_eq unat_mod unat_drop_bit)
  also have "unat (E ! j) = nval E div LB ^ j mod 2 ^ 32"
    using nth_nval [OF assms(1)] by (simp add: LB_def)
  also have "x mod 2 ^ 32 div 2 ^ k mod 2 = x div 2 ^ k mod 2" for x :: nat
  proof -
    have "take_bit 1 (drop_bit k (take_bit 32 x)) = take_bit 1 (drop_bit k x)"
      using assms(2) by (simp add: drop_bit_take_bit min_def)
    then show ?thesis by (simp only: take_bit_eq_mod drop_bit_eq_div power_one_right)
  qed
  finally show ?thesis by (simp add: LB_pow power_add div_mult2_eq)
qed

lemma exp_loop_step:
  assumes "\<not> (bufsize = 0 \<and> nblimbs = 0)" "nb = (if bufsize = 0 then nblimbs - 1 else nblimbs)"
    "bs = (if bufsize = 0 then 32 else bufsize) - 1" "ei = drop_bit bs (E ! nb) AND 1"
    "w' = wbits OR push_bit (wsize - (nbits + 1)) (unat ei)"
  shows "exp_loop E W N mm wsize nblimbs bufsize nbits wbits state X T =
    (if ei = 0 \<and> state = 0 then exp_loop E W N mm wsize nb bs nbits wbits state X T
     else if ei = 0 \<and> state = 1
     then case mpi_montmul X X N mm T of None \<Rightarrow> None
          | Some (X, T) \<Rightarrow> exp_loop E W N mm wsize nb bs nbits wbits state X T
     else if nbits + 1 = wsize
     then case mont_squares wsize X N mm T of None \<Rightarrow> None
          | Some (X, T) \<Rightarrow>
            (case mpi_montmul X (W ! w') N mm T of None \<Rightarrow> None
             | Some (X, T) \<Rightarrow> exp_loop E W N mm wsize nb bs 0 0 1 X T)
     else exp_loop E W N mm wsize nb bs (nbits + 1) w' 2 X T)"
  unfolding exp_loop.simps [of E W N mm wsize nblimbs bufsize] if_not_P [OF assms(1)] Let_def
  unfolding assms(2-5) ..

lemma exp_loop_ok:
  assumes N: "mont_env N mm" and w: "0 < wsize"
    and W: "\<forall>k. 2 ^ (wsize - 1) \<le> k \<and> k < 2 ^ wsize \<longrightarrow> montpow N a k (W ! k)"
    and T: "mpi_n T = 2 * mpi_n N + 2" and X: "montpow N a x X"
    and b: "nblimbs \<le> length E" "bufsize < 32" "bufsize \<noteq> 0 \<longrightarrow> nblimbs < length E"
    and win: "window wsize nbits wbits state x v"
    and inv: "x * 2 ^ nbits + v = nval E div 2 ^ (32 * nblimbs + bufsize)"
  shows "\<exists>X' T' nbits' wbits' state' x' v'.
    exp_loop E W N mm wsize nblimbs bufsize nbits wbits state X T = Some (X', T', nbits', wbits')
    \<and> mpi_n T' = 2 * mpi_n N + 2 \<and> montpow N a x' X' \<and> mpi_s X' = mpi_s X \<and> mpi_n X' = mpi_n X
    \<and> window wsize nbits' wbits' state' x' v' \<and> x' * 2 ^ nbits' + v' = nval E"
  using T X b win inv
proof (induction "32 * nblimbs + bufsize" arbitrary: nblimbs bufsize nbits wbits state X T x v)
  case 0
  then have "exp_loop E W N mm wsize nblimbs bufsize nbits wbits state X T = Some (X, T, nbits, wbits)"
    by (subst exp_loop.simps) simp
  moreover have "x * 2 ^ nbits + v = nval E" using 0 by simp
  ultimately show ?case using 0 by blast
next
  case (Suc r)
  define nb where "nb = (if bufsize = 0 then nblimbs - 1 else nblimbs)"
  define bs where "bs = (if bufsize = 0 then 32 else bufsize) - 1"
  define ei where "ei = drop_bit bs (E ! nb) AND 1"
  have ne: "\<not> (bufsize = 0 \<and> nblimbs = 0)" using Suc.hyps(2) by auto
  have pos: "r = 32 * nb + bs" "nb < length E" "bs < 32"
    using Suc.hyps(2) Suc.prems(3-5) ne by (auto simp: nb_def bs_def)
  have ei: "unat ei = nval E div 2 ^ r mod 2" unfolding ei_def pos(1) using pos by (intro bit_of_value)
  have "nval E div 2 ^ r = nval E div 2 ^ r div 2 * 2 + unat ei" unfolding ei by simp
  also have "nval E div 2 ^ r div 2 = x * 2 ^ nbits + v"
    using Suc.prems(7) unfolding Suc.hyps(2) [symmetric] by (simp only: power_Suc2 div_mult2_eq)
  finally have V: "nval E div 2 ^ (32 * nb + bs) = (x * 2 ^ nbits + v) * 2 + unat ei" unfolding pos(1) .
  have b: "nb \<le> length E" "bs \<noteq> 0 \<longrightarrow> nb < length E" using pos by simp_all
  note IH = Suc.hyps(1) [OF pos(1) _ _ b(1) pos(3) b(2), unfolded V]
  note run = exp_loop_step [OF ne nb_def bs_def ei_def refl, of W N mm wsize nbits wbits state X T]
  have st: "state = 0 \<or> state = 1 \<or> state = 2" using Suc.prems(6) by (auto simp: window_def split: if_splits)
  consider "ei = 0" "state = 0" | "ei = 0" "state = 1" | "unat ei = 1 \<or> state = 2" "\<not> (ei = 0 \<and> state = 0)" "\<not> (ei = 0 \<and> state = 1)"
    using st ei by (cases "ei = 0") (auto simp: word_unat_eq_iff)
  then show ?case
  proof cases
    case 1
    have "x = 0" "nbits = 0" "v = 0" using Suc.prems(6) 1 by (auto simp: window_def)
    moreover have "exp_loop E W N mm wsize nblimbs bufsize nbits wbits state X T
        = exp_loop E W N mm wsize nb bs nbits wbits state X T" unfolding run using 1 by simp
    ultimately show ?thesis using IH [OF Suc.prems(1,2,6)] 1 by simp
  next
    case 2
    from montmul_pow [OF N Suc.prems(2,2,1)] obtain X' T' where
      m: "mpi_montmul X X N mm T = Some (X', T')" "montpow N a (x + x) X'" "mpi_s X' = mpi_s X"
      "mpi_n T' = 2 * mpi_n N + 2" "mpi_n X' = mpi_n X" by blast
    have n: "nbits = 0" using Suc.prems(6) 2 by (simp add: window_def)
    then have "v = 0" using Suc.prems(6) by (simp add: window_def)
    note n = n this
    have "window wsize nbits wbits state (x + x) v" using Suc.prems(6) 2 by (auto simp: window_def)
    moreover have "exp_loop E W N mm wsize nblimbs bufsize nbits wbits state X T
        = exp_loop E W N mm wsize nb bs nbits wbits state X' T'" unfolding run using 2 m by simp
    ultimately show ?thesis using IH [OF m(4,2)] n 2 m by simp
  next
    case 3
    define v' where "v' = 2 * v + unat ei"
    define w' where "w' = wbits OR push_bit (wsize - (nbits + 1)) (unat ei)"
    have "unat ei \<le> 1" using ei by simp
    note push = window_push [OF Suc.prems(6) this 3(1), folded v'_def w'_def]
    show ?thesis
    proof (cases "nbits + 1 = wsize")
      case True
      from mont_squares_pow [OF N Suc.prems(2,1), of wsize] obtain X1 T1 where
        s: "mont_squares wsize X N mm T = Some (X1, T1)" "montpow N a (x * 2 ^ wsize) X1" "mpi_s X1 = mpi_s X"
        "mpi_n T1 = 2 * mpi_n N + 2" "mpi_n X1 = mpi_n X" by blast
      have "w' = v'" "2 ^ (wsize - 1) \<le> v'" "v' < 2 ^ wsize" using push True by auto
      with W have "montpow N a v' (W ! w')" by auto
      from montmul_pow [OF N s(2) this s(4)] obtain X2 T2 where
        m: "mpi_montmul X1 (W ! w') N mm T1 = Some (X2, T2)" "montpow N a (x * 2 ^ wsize + v') X2"
        "mpi_s X2 = mpi_s X1" "mpi_n T2 = 2 * mpi_n N + 2" "mpi_n X2 = mpi_n X1" by blast
      have "(x * 2 ^ wsize + v') * 2 ^ 0 + 0 = (x * 2 ^ nbits + v) * 2 + unat ei"
        using True by (auto simp: v'_def)
      moreover have "exp_loop E W N mm wsize nblimbs bufsize nbits wbits state X T
          = exp_loop E W N mm wsize nb bs 0 0 1 X2 T2"
        unfolding run w'_def [symmetric] if_not_P [OF 3(2)] if_not_P [OF 3(3)] using True s m by simp
      ultimately show ?thesis using IH [OF m(4,2) window_empty(1) [OF w]] s m by simp
    next
      case False
      have "x * 2 ^ (nbits + 1) + v' = (x * 2 ^ nbits + v) * 2 + unat ei" by (simp add: v'_def)
      moreover have "exp_loop E W N mm wsize nblimbs bufsize nbits wbits state X T
          = exp_loop E W N mm wsize nb bs (nbits + 1) w' 2 X T"
        unfolding run w'_def [symmetric] if_not_P [OF 3(2)] if_not_P [OF 3(3)] using False by simp
      ultimately show ?thesis using IH [OF Suc.prems(1,2) push(4) [OF False]] by simp
    qed
  qed
qed

lemma exp_rest_ok:
  assumes N: "mont_env N mm" and W: "montpow N a 1 (W ! 1)" and k: "k \<le> wsize"
    and T: "mpi_n T = 2 * mpi_n N + 2" and X: "montpow N a x X" and v: "v < 2 ^ k" "wbits mod 2 ^ wsize = v * 2 ^ (wsize - k)"
  shows "\<exists>X' T'. exp_rest k W N mm wsize wbits X T = Some (X', T') \<and> mpi_n T' = 2 * mpi_n N + 2
    \<and> montpow N a (x * 2 ^ k + v) X' \<and> mpi_s X' = mpi_s X \<and> mpi_n X' = mpi_n X"
  using k T X v
proof (induction k arbitrary: T X x v wbits)
  case (Suc k)
  define d where "d = wsize - Suc k"
  have d: "wsize - k = Suc d" "wsize = k + Suc d" using Suc.prems(1) by (simp_all add: d_def)
  define b where "b = v div 2 ^ k"
  have "b < 2" unfolding b_def using Suc.prems(4) by (intro less_mult_imp_div_less) simp
  then have b: "b = 0 \<or> b = 1" by linarith
  have v: "v = b * 2 ^ k + v mod 2 ^ k" unfolding b_def by (simp only: div_mult_mod_eq)
  from montmul_pow [OF N Suc.prems(3,3,2)] obtain X1 T1 where
    1: "mpi_montmul X X N mm T = Some (X1, T1)" "montpow N a (x + x) X1" "mpi_s X1 = mpi_s X"
    "mpi_n T1 = 2 * mpi_n N + 2" "mpi_n X1 = mpi_n X" by blast
  define l where "l = v mod 2 ^ k * 2 ^ Suc d"
  have "v mod 2 ^ k * 2 ^ Suc d < 2 ^ k * 2 ^ Suc d" by (intro mult_strict_right_mono) simp_all
  then have l: "l < 2 ^ wsize" by (simp add: l_def d(2) power_add)
  have "wbits = wbits div 2 ^ wsize * 2 ^ wsize + v * 2 ^ d"
    using Suc.prems(5) unfolding d_def [symmetric] by (metis div_mult_mod_eq)
  then have "push_bit 1 wbits = 2 * (wbits div 2 ^ wsize * 2 ^ wsize + v * 2 ^ d)" by (simp add: push_bit_eq_mult)
  also have "\<dots> = l + (2 * (wbits div 2 ^ wsize) + b) * 2 ^ wsize"
    by (subst v) (simp add: l_def d(2) power_add algebra_simps)
  finally have pw: "push_bit 1 wbits = l + (2 * (wbits div 2 ^ wsize) + b) * 2 ^ wsize" .
  have bit: "push_bit 1 wbits AND 2 ^ wsize \<noteq> 0 \<longleftrightarrow> b = 1"
    and low: "push_bit 1 wbits mod 2 ^ wsize = v mod 2 ^ k * 2 ^ (wsize - k)"
    unfolding pw and_exp_eq_0_iff_not_bit bit_iff_odd d(1) l_def [symmetric] using b l by auto
  have "\<exists>X2 T2. (if b = 1 then mpi_montmul X1 (W ! 1) N mm T1 else Some (X1, T1)) = Some (X2, T2)
      \<and> montpow N a (x + x + b) X2 \<and> mpi_s X2 = mpi_s X \<and> mpi_n T2 = 2 * mpi_n N + 2 \<and> mpi_n X2 = mpi_n X"
    using montmul_pow [OF N 1(2) W 1(4)] 1 b by auto
  then obtain X2 T2 where
    2: "(if b = 1 then mpi_montmul X1 (W ! 1) N mm T1 else Some (X1, T1)) = Some (X2, T2)"
    "montpow N a (x + x + b) X2" "mpi_s X2 = mpi_s X" "mpi_n T2 = 2 * mpi_n N + 2" "mpi_n X2 = mpi_n X" by blast
  have "v mod 2 ^ k < 2 ^ k" by simp
  from Suc.IH [OF _ 2(4,2) this low] Suc.prems(1) obtain X' T' where
    3: "exp_rest k W N mm wsize (push_bit 1 wbits) X2 T2 = Some (X', T')" "mpi_n T' = 2 * mpi_n N + 2"
    "montpow N a ((x + x + b) * 2 ^ k + v mod 2 ^ k) X'" "mpi_s X' = mpi_s X2" "mpi_n X' = mpi_n X2" by auto
  have "(x + x + b) * 2 ^ k + v mod 2 ^ k = x * 2 ^ Suc k + v" by (subst (2) v) (simp add: algebra_simps)
  moreover have "exp_rest (Suc k) W N mm wsize wbits X T = Some (X', T')"
    unfolding exp_rest.simps 1(1) option.case prod.case Let_def bit using 2(1) 3(1) by (auto split: if_splits)
  ultimately show ?case using 2(3,5) 3 by auto
qed simp

subsection \<open>The start of the exponentiation\<close>

lemma MPI_CHK_ok: "MPI_CHK m f = ok y \<longleftrightarrow> (\<exists>x. m = ok x \<and> f x = ok y)"
  by (auto simp: MPI_CHK_def split: option.splits sum.splits)

lemma copy_len: "mpi_copy al X Y = ok V \<Longrightarrow> mpi_n X \<le> mpi_n V"
  using gives_copy [of al X] by (cases Y) (auto simp: mpi_copy_def MPI_CHK_ok mpi_grow_def overwrite_def Let_def split: if_splits)

lemma copy_unchecked_len: "\<forall>k. al k \<Longrightarrow> mpi_n X \<le> mpi_n (copy_unchecked al X Y)"
  using gives_total [OF gives_copy [of al X Y]] by (auto simp: copy_unchecked_def)

lemma div_len:
  assumes "\<forall>k. al k" "mpi_div_mpi al None (Some R) A B st = ok st'"
  shows "mpi_n (st R) \<le> mpi_n (st' R)"
proof (cases "mpi_cmp_abs (st A) (st B) < 0")
  case True
  then show ?thesis using assms(2) copy_len
    by (fastforce simp: mpi_div_mpi_def MPI_CHK_ok split: if_splits)
next
  case False
  then have "mpi_cmp_int (st B) 0 \<noteq> 0" using assms(2) by (auto simp: mpi_div_mpi_def)
  note run = assms(2) [unfolded mpi_div_mpi_compute [of st B A al None "Some R", OF this False] MPI_CHK_ok]
  then obtain X Z k where "div_compute al (st A) (st B) = ok (X, Z, k)" by auto
  with run show ?thesis
    using copy_unchecked_len [OF assms(1), of "st R" "mpi_shift_r X k"] by (auto simp: Let_def split: if_splits)
qed

lemma mod_store_ok:
  assumes al: "\<forall>k. al k" and A: "mpi_s (st A) = 1" and B: "mpi_s (st B) = 1" "nval (mpi_p (st B)) \<noteq> 0"
    and R: "R \<noteq> B"
  shows "\<exists>st'. mpi_div_mpi al None (Some R) A B st = ok st' \<and> mod_up al R B st' = ok st' \<and> mod_down al R B st' = ok st'
    \<and> mpi_s (st' R) = 1 \<and> nval (mpi_p (st' R)) = nval (mpi_p (st A)) mod nval (mpi_p (st B))
    \<and> mpi_n (st R) \<le> mpi_n (st' R)"
proof -
  let ?a = "nval (mpi_p (st A))" and ?b = "nval (mpi_p (st B))"
  have ok: "mpi_ok (st A)" "mpi_ok (st B)" using A B by (simp_all add: mpi_ok_def)
  from mpi_div_ok [OF al ok B(2), of None "Some R"] R A obtain st' where
    d: "mpi_div_mpi al None (Some R) A B st = ok st'" "\<forall>i. i \<noteq> R \<longrightarrow> st' i = st i" "mpi_ok (st' R)"
    "mval (st' R) = int (?a mod ?b)" "nval (mpi_p (st' R)) = 0 \<longrightarrow> mpi_s (st' R) = 1"
    by auto
  have s: "mpi_s (st' R) = 1" using d(3-5) by (auto simp: mpi_defs)
  then have v: "nval (mpi_p (st' R)) = ?a mod ?b" using d(4) by (simp add: mval_def del: of_nat_mod)
  have B': "st' B = st B" using d(2) R by auto
  have "mod_up al R B st' = ok st'"
    using d(3) s by (subst mod_up.simps) (simp add: mpi_cmp_int_0 mval_def sgn_if)
  moreover have "mod_down al R B st' = ok st'"
    using s v B B' by (intro mod_down_stop) (simp_all add: mval_def del: of_nat_mod)
  ultimately show ?thesis using d(1) s v div_len [OF al d(1)] by blast
qed

lemma mod_call_ok:
  assumes al: "\<forall>k. al k" and R: "mpi_s R = 1" and N: "mpi_s N = 1" "nval (mpi_p N) \<noteq> 0"
  shows "\<exists>V. mod_call al R This N = ok V \<and> mpi_s V = 1 \<and> nval (mpi_p V) = nval (mpi_p R) mod nval (mpi_p N)"
  using mod_store_ok [OF al, of "(\<lambda>_. mpi_init)(0 := R, 1 := R, 2 := N)" 0 2 0] R N
  by (auto simp: mod_call_def mpi_mod_mpi_def)

lemma mod_unchecked_ok:
  assumes al: "\<forall>k. al k" and A: "mpi_s A = 1" and N: "mpi_s N = 1" "nval (mpi_p N) \<noteq> 0"
  shows "\<exists>V. mod_unchecked al R A N = Some V \<and> nval (mpi_p V) = nval (mpi_p A) mod nval (mpi_p N)
    \<and> mpi_n R \<le> mpi_n V"
  using mod_store_ok [OF al, of "(\<lambda>_. mpi_init)(0 := R, 1 := A, 2 := N)" 1 2 0] A N
  by (auto simp: mod_unchecked_def Let_def)

lemma exp_base_ok:
  assumes al: "\<forall>k. al k" and A: "mpi_s A = 1" and N: "mpi_s N = 1" "nval (mpi_p N) \<noteq> 0"
  shows "\<exists>V. exp_base al R A N = Some V \<and> nval (mpi_p V) = nval (mpi_p A) mod nval (mpi_p N)
    \<and> mpi_n R \<le> mpi_n V"
proof -
  have "0 \<le> mpi_cmp_mpi A N \<longleftrightarrow> nval (mpi_p N) \<le> nval (mpi_p A)"
    using A N(1) by (subst mpi_cmp_mpi_same) (auto simp: mpi_ok_def mval_def sgn_if)
  then show ?thesis
    using mod_unchecked_ok [OF assms, of R] copy_unchecked_ok [OF al] copy_unchecked_len [OF al]
    by (auto simp: exp_base_def)
qed

definition RR_ok :: "mpi \<Rightarrow> mpi \<Rightarrow> bool" where
  "RR_ok N RR \<longleftrightarrow> mpi_s RR = 1 \<and> nval (mpi_p RR) = LB ^ mpi_n N * LB ^ mpi_n N mod nval (mpi_p N)"

lemma exp_RR_ok:
  assumes al: "\<forall>k. al k" and N: "mpi_s N = 1" "1 < nval (mpi_p N)" "odd (nval (mpi_p N))"
    and rr: "\<forall>RR. rr = Some RR \<longrightarrow> mpi_p RR = [] \<or> RR_ok N RR"
  shows "\<exists>RR. exp_RR al N rr = ok (RR, if rr = None then None else Some RR) \<and> RR_ok N RR \<and> mpi_p RR \<noteq> []"
proof (cases "rr = None \<or> mpi_p (the rr) = []")
  case False
  then show ?thesis using rr by (auto simp: exp_RR_def)
next
  case True
  from gives_total [OF gives_lset [of al mpi_init 1] al] obtain V where
    V: "mpi_lset al mpi_init 1 = ok V" "mpi_s V = 1" "nval (mpi_p V) = 1" by (auto simp: mpi_init_def)
  have "mpi_p V \<noteq> []" using V(3) by auto
  from gives_total [OF gives_shift_l [OF this, of al "mpi_n N * 2 * 32"] al] V obtain V1 where
    V1: "mpi_shift_l al V (mpi_n N * 2 * 32) = ok V1" "mpi_s V1 = 1" "nval (mpi_p V1) = 2 ^ (mpi_n N * 2 * 32)" by auto
  from mod_call_ok [OF al V1(2) N(1)] N(2) obtain RR where
    RR: "mod_call al V1 This N = ok RR" "mpi_s RR = 1" "nval (mpi_p RR) = 2 ^ (mpi_n N * 2 * 32) mod nval (mpi_p N)"
    using V1(3) by auto
  have "(2 :: nat) ^ (mpi_n N * 2 * 32) = LB ^ mpi_n N * LB ^ mpi_n N"
    by (simp add: LB_pow ac_simps flip: power_add)
  then have ok: "RR_ok N RR" using RR by (simp add: RR_ok_def)
  have "coprime (2 ^ (mpi_n N * 2 * 32)) (nval (mpi_p N))" using N(3) by simp
  then have "\<not> nval (mpi_p N) dvd 2 ^ (mpi_n N * 2 * 32)"
    using N(2) coprime_common_divisor [OF _ _ dvd_refl] by (metis nat_dvd_1_iff_1 less_irrefl)
  then have "nval (mpi_p RR) \<noteq> 0" using RR(3) by (simp add: dvd_eq_mod_eq_0)
  then have "mpi_p RR \<noteq> []" by auto
  then show ?thesis using True V V1 RR ok by (auto simp: exp_RR_def)
qed

subsection \<open>The exponentiation\<close>

lemma mont_into:
  assumes N: "mont_env N mm" and V: "mpi_n N + 1 \<le> mpi_n V" "nval (mpi_p V) < nval (mpi_p N)"
    and RR: "RR_ok N RR" "mpi_p RR \<noteq> []" and T: "mpi_n T = 2 * mpi_n N + 2" and a: "nval (mpi_p V) = a mod nval (mpi_p N)"
  shows "\<exists>V' T'. mpi_montmul V RR N mm T = Some (V', T') \<and> montpow N a 1 V' \<and> mpi_n T' = 2 * mpi_n N + 2"
proof -
  let ?N = "nval (mpi_p N)" and ?R = "LB ^ mpi_n N"
  have N0: "0 < ?N" using N by (simp add: mont_env_def)
  have "nval (mpi_p V) * nval (mpi_p RR) mod ?N = a * (?R * ?R) mod ?N"
    using RR(1) a by (simp add: RR_ok_def mod_mult_eq)
  also have "a * (?R * ?R) = ?R * (a * ?R)" by (simp only: ac_simps)
  finally have z: "nval (mpi_p V) * nval (mpi_p RR) mod ?N = ?R * (a * ?R) mod ?N" .
  have "nval (mpi_p V) < ?R" using V(2) nval_less [of "mpi_p N"] by simp
  moreover have "nval (mpi_p RR) < ?N" using RR(1) N0 by (simp add: RR_ok_def)
  ultimately show ?thesis using montmul_any [OF N V(1) _ RR(2) _ T z] V(1) N0 by (auto simp: montpow_def)
qed

lemma mont_one:
  assumes N: "mont_env N mm" and X: "mpi_n N + 1 \<le> mpi_n X" "nval (mpi_p X) < nval (mpi_p N)"
    and T: "mpi_n T = 2 * mpi_n N + 2" and z: "nval (mpi_p X) = LB ^ mpi_n N * z mod nval (mpi_p N)"
  shows "\<exists>X' T'. mpi_montred X N mm T = Some (X', T') \<and> nval (mpi_p X') = z mod nval (mpi_p N)
    \<and> mpi_s X' = mpi_s X \<and> mpi_n X' = mpi_n X \<and> mpi_n T' = 2 * mpi_n N + 2"
proof -
  have "nval (mpi_p X) < LB ^ mpi_n N" using X(2) nval_less [of "mpi_p N"] by simp
  moreover have "1 < nval (mpi_p N)" using N by (simp add: mont_env_def)
  ultimately show ?thesis
    using montmul_any [OF N X(1) _ _ _ T, of "\<lparr>mpi_s = 1, mpi_p = [1]\<rparr>" z] z by (auto simp: mpi_montred_def)
qed

lemma exp_wsize_bounds: "0 < exp_wsize i" "exp_wsize i \<le> 6"
  by (simp_all add: exp_wsize_def)

lemma exp_mod_enter:
  assumes "mpi_s N = 1" "odd (nval (mpi_p N))" "1 < nval (mpi_p N)"
  shows "\<not> mpi_cmp_int N 0 < 0" "mpi_p N \<noteq> []" "\<not> mpi_p N ! 0 AND 1 = 0"
    "\<exists>mm. mpi_montg_init N = Some mm \<and> mont_env N mm"
proof -
  show pN: "mpi_p N \<noteq> []" using assms(3) by auto
  show "\<not> mpi_cmp_int N 0 < 0" using assms by (subst mpi_cmp_int_0) (simp_all add: mpi_defs)
  have "unat (mpi_p N ! 0) mod 2 = nval (mpi_p N) mod 2"
    using nth_nval [of 0 "mpi_p N"] pN by (simp add: LB_def mod_mod_cancel)
  then have odd0: "odd (unat (mpi_p N ! 0))" using assms(2) by (simp add: odd_iff_mod_2_eq_one)
  then show "\<not> mpi_p N ! 0 AND 1 = 0"
    by (simp add: word_unat_eq_iff and_one_eq unat_mod odd_iff_mod_2_eq_one)
  have "odd (mpi_p N ! 0)" using odd0 odd_unat_bit [of "mpi_p N ! 0" 0] by (simp add: bit_0)
  from mpi_montg_init_ok [OF pN this] show "\<exists>mm. mpi_montg_init N = Some mm \<and> mont_env N mm"
    using assms(2,3) pN by (auto simp: mont_env_def)
qed

text \<open>From the table on: the loop, the remaining bits and the final reduction.\<close>

lemma exp_power_ok:
  assumes env: "mont_env N mm" and w: "0 < w" and W: "montpow N a 1 (W ! 1)"
    "\<forall>k. 2 ^ (w - 1) \<le> k \<and> k < 2 ^ w \<longrightarrow> montpow N a k (W ! k)"
    and T: "mpi_n T = 2 * mpi_n N + 2" and X: "montpow N a 0 X" "mpi_s X = 1"
  shows "\<exists>X1 T1 nb wb X2 T2 X3 T3. exp_loop E W N mm w (length E) 0 0 0 0 X T = Some (X1, T1, nb, wb)
    \<and> exp_rest nb W N mm w wb X1 T1 = Some (X2, T2) \<and> mpi_montred X2 N mm T2 = Some (X3, T3)
    \<and> mpi_s X3 = 1 \<and> mpi_n X3 = mpi_n X \<and> nval (mpi_p X3) = a ^ nval E mod nval (mpi_p N)"
proof -
  have "0 * 2 ^ 0 + 0 = nval E div 2 ^ (32 * length E + 0)" using nval_less [of E] by (simp add: LB_pow)
  from exp_loop_ok [OF env w(1) W(2) T X(1) _ _ _ window_empty(2) [OF w(1)] this] obtain X3 T5 nb wb st x v where
    X3: "exp_loop E W N mm w (length E) 0 0 0 0 X T = Some (X3, T5, nb, wb)" "mpi_n T5 = 2 * mpi_n N + 2"
    "montpow N a x X3" "mpi_s X3 = 1" "window w nb wb st x v" "x * 2 ^ nb + v = nval E" "mpi_n X3 = mpi_n X"
    using X(2) by auto
  have "v * 2 ^ (w - nb) < 2 ^ nb * 2 ^ (w - nb)" using X3(5) by (simp add: window_def)
  also have "\<dots> = 2 ^ w" using X3(5) by (simp add: window_def flip: power_add)
  finally have "wb mod 2 ^ w = v * 2 ^ (w - nb)" using X3(5) by (simp add: window_def)
  from exp_rest_ok [OF env W(1) _ X3(2,3) _ this] X3(4-6) obtain X4 T6 where
    X4: "exp_rest nb W N mm w wb X3 T5 = Some (X4, T6)" "mpi_n T6 = 2 * mpi_n N + 2"
    "montpow N a (nval E) X4" "mpi_s X4 = 1" "mpi_n X4 = mpi_n X" using X3(7) by (auto simp: window_def)
  from mont_one [OF env _ _ X4(2), of X4 "a ^ nval E"] X4(3-5) X3(1) X4(1) show ?thesis
    by (auto simp: montpow_def mult.commute)
qed

lemma scan_pos_small:
  assumes "nval p < LB ^ n"
  shows "scan_pos p (length p) \<le> n + 1"
proof -
  have "scan_all p (length p) \<le> n"
  proof (rule ccontr)
    assume "\<not> scan_all p (length p) \<le> n"
    then have "LB ^ n \<le> LB ^ (scan_all p (length p) - 1)" by (intro power_increasing) auto
    then show False using scan_all_ge [of p] assms \<open>\<not> _\<close> by linarith
  qed
  then show ?thesis by (simp add: scan_pos_scan_all)
qed

lemma mpi_exp_mod_ok:
  assumes al: "\<forall>k. al k" and A: "mpi_s (opnd X A) = 1" and E: "mpi_p E \<noteq> []"
    and N: "mpi_s N = 1" "odd (nval (mpi_p N))" "1 < nval (mpi_p N)"
    and rr: "\<forall>RR. rr = Some RR \<longrightarrow> mpi_p RR = [] \<or> RR_ok N RR"
  shows "\<exists>X' rr'. mpi_exp_mod al X A E N rr = ok (X', rr') \<and> mpi_s X' = 1
    \<and> nval (mpi_p X') = nval (mpi_p (opnd X A)) ^ nval (mpi_p E) mod nval (mpi_p N)
    \<and> mpi_n X' = max (mpi_n X) (mpi_n N + 1)
    \<and> (rr' = None \<longleftrightarrow> rr = None) \<and> (\<forall>RR. rr' = Some RR \<longrightarrow> RR_ok N RR)"
proof -
  let ?N = "nval (mpi_p N)" and ?n = "mpi_n N" and ?R = "LB ^ mpi_n N"
  define a where "a = nval (mpi_p (opnd X A))"
  have N0: "0 < ?N" using N(3) by simp
  note enter = exp_mod_enter [OF N]
  from enter(4) obtain mm where mm: "mpi_montg_init N = Some mm" and env: "mont_env N mm" by blast
  from mpi_msb_bitlen [OF E] obtain i where msb: "mpi_msb E = Some i" by auto
  define w where "w = exp_wsize i"
  have w: "0 < w" "w \<le> 6" unfolding w_def by (rule exp_wsize_bounds)+
  let ?W = "replicate 64 \<lparr>mpi_s = 0, mpi_p = []\<rparr>"
  define X0 where "X0 = X\<lparr>mpi_p := mpi_p X @ replicate (?n + 1 - mpi_n X) 0\<rparr>"
  have X0: "mpi_grow al X (?n + 1) = ok X0" "mpi_n X0 = max (mpi_n X) (?n + 1)" "nval (mpi_p X0) = nval (mpi_p X)" "mpi_s X0 = mpi_s X"
    using gives_total [OF gives_grow al] by (auto simp: X0_def nval_append)
  obtain V0 where V0: "mpi_grow al (?W ! 1) (?n + 1) = ok V0" "?n + 1 \<le> mpi_n V0"
    using gives_total [OF gives_grow [of al "?W ! 1" "?n + 1"] al] by auto
  obtain T0 where T0: "mpi_grow al mpi_init ((?n + 1) * 2) = ok T0" "mpi_n T0 = 2 * ?n + 2"
    using gives_total [OF gives_grow [of al mpi_init "(?n + 1) * 2"] al] by (auto simp: mpi_init_def)
  from exp_RR_ok [OF al N(1,3,2) rr] obtain RR where
    RR: "exp_RR al N rr = ok (RR, if rr = None then None else Some RR)" "RR_ok N RR" "mpi_p RR \<noteq> []" by blast
  have A0: "mpi_s (opnd X0 A) = 1" "nval (mpi_p (opnd X0 A)) = a" using A X0 by (cases A; simp add: a_def)+
  from exp_base_ok [OF al A0(1) N(1), of V0] N0 A0(2) obtain V1 where
    V1: "exp_base al V0 (opnd X0 A) N = Some V1" "nval (mpi_p V1) = a mod ?N" "?n + 1 \<le> mpi_n V1"
    using V0(2) by auto
  from mont_into [OF env V1(3) _ RR(2,3) T0(2) V1(2)] V1(2) N0 obtain V2 T2 where
    V2: "mpi_montmul V1 RR N mm T0 = Some (V2, T2)" "montpow N a 1 V2" "mpi_n T2 = 2 * ?n + 2" by auto
  have "nval (mpi_p RR) < LB ^ ?n" using RR(2) N0 nval_less [of "mpi_p N"] by (simp add: RR_ok_def less_trans [OF mod_less_divisor])
  then have "scan_pos (mpi_p RR) (mpi_n RR) \<le> ?n + 1" by (rule scan_pos_small)
  with gives_total [OF gives_copy [of al X0 RR] al] obtain X1 where
    X1: "mpi_copy al X0 (That RR) = ok X1" "mpi_s X1 = 1" "nval (mpi_p X1) = nval (mpi_p RR)" "?n + 1 \<le> mpi_n X1"
    "mpi_n X1 = mpi_n X0"
    using X0(2) RR(2) by (auto simp: RR_ok_def)
  from mont_one [OF env X1(4) _ V2(3), of ?R] X1 RR(2) N0 obtain X2 T3 where
    X2: "mpi_montred X1 N mm T2 = Some (X2, T3)" "mpi_s X2 = 1" "mpi_n T3 = 2 * ?n + 2" "montpow N a 0 X2" "mpi_n X2 = mpi_n X0"
    by (auto simp: RR_ok_def montpow_def)
  from exp_table_ok [OF al env _ _ w X2(3), of "?W[1 := V2]" a] V2(2) obtain W T4 where
    W: "exp_table al N mm w (?W[1 := V2]) T3 = ok (W, T4)" "mpi_n T4 = 2 * ?n + 2" "montpow N a 1 (W ! 1)"
    "\<forall>k. 2 ^ (w - 1) \<le> k \<and> k < 2 ^ w \<longrightarrow> montpow N a k (W ! k)" by auto
  from exp_power_ok [OF env w(1) W(3,4,2) X2(4,2), of "mpi_p E"] obtain X3 T5 nb wb X4 T6 X5 T7 where
    X3: "exp_loop (mpi_p E) W N mm w (mpi_n E) 0 0 0 0 X2 T4 = Some (X3, T5, nb, wb)"
    and X4: "exp_rest nb W N mm w wb X3 T5 = Some (X4, T6)"
    and X5: "mpi_montred X4 N mm T6 = Some (X5, T7)" "mpi_s X5 = 1" "nval (mpi_p X5) = a ^ nval (mpi_p E) mod ?N"
    "mpi_n X5 = mpi_n X2" by blast
  have "mpi_exp_mod al X A E N rr = ok (X5, if rr = None then None else Some RR)"
    unfolding mpi_exp_mod_def if_not_P [OF enter(1)] if_not_P [OF enter(2)] if_not_P [OF enter(3)] mm msb option.case Let_def
      w_def [symmetric] X0(1) V0(1) T0(1) RR(1) MPI_CHK_simps prod.case V1(1) V2(1) X1(1) X2(1) W(1) X3 X4 X5(1)
    ..
  then show ?thesis using X5(2-4) X2(5) X0(2) RR(2) by (auto simp: a_def)
qed

end
