(* ===== verification/RsaMath.thy ===== *)
theory RsaMath
  imports Complex_Main MpiExpOk
begin

text \<open>
  The number theory behind RSA: Fermat's little theorem, the exponents of a key, and the
  combination of two residues by the Chinese remainder theorem.
\<close>

definition prime_num :: "nat \<Rightarrow> bool" where
  "prime_num p \<longleftrightarrow> 1 < p \<and> (\<forall>d. d dvd p \<longrightarrow> d = 1 \<or> d = p)"

lemma prime_coprime: "prime_num p \<Longrightarrow> \<not> p dvd a \<Longrightarrow> coprime p a"
  unfolding prime_num_def coprime_iff_gcd_eq_1 by (metis gcd_dvd1 gcd_dvd2)

lemma prime_dvd_mult: "prime_num p \<Longrightarrow> p dvd a * b \<Longrightarrow> p dvd a \<or> p dvd b"
  using prime_coprime coprime_dvd_mult_right_iff by blast

lemma primes_coprime: "prime_num p \<Longrightarrow> prime_num q \<Longrightarrow> p \<noteq> q \<Longrightarrow> coprime p q"
  by (rule prime_coprime) (auto simp: prime_num_def)

lemma prime_dvd_choose:
  assumes "prime_num p" "0 < k" "k < p"
  shows "p dvd p choose k"
proof -
  have "k * (p choose k) = p * ((p - 1) choose (k - 1))"
    using binomial_absorption [of "k - 1" p] assms(2) by simp
  then have "p dvd k * (p choose k)" by simp
  moreover have "\<not> p dvd k" using assms by (auto dest: dvd_imp_le)
  ultimately show ?thesis using prime_dvd_mult assms(1) by blast
qed

theorem fermat:
  assumes p: "prime_num p"
  shows "a ^ p mod p = a mod p"
proof (induction a)
  case 0
  then show ?case using p by (auto simp: prime_num_def power_0_left)
next
  case (Suc a)
  have p0: "0 < p" using p by (simp add: prime_num_def)
  have "Suc a ^ p = (\<Sum>k\<le>p. (p choose k) * a ^ k)"
    using binomial [of a 1 p] by simp
  also have "\<dots> = a ^ p + (\<Sum>k<p. (p choose k) * a ^ k)"
    by (simp add: lessThan_Suc_atMost [symmetric])
  also have "(\<Sum>k<p. (p choose k) * a ^ k) = 1 + (\<Sum>k\<in>{1..<p}. (p choose k) * a ^ k)"
    using p0 by (simp add: lessThan_atLeast0 sum.atLeast_Suc_lessThan)
  finally have e: "Suc a ^ p = a ^ p + 1 + (\<Sum>k\<in>{1..<p}. (p choose k) * a ^ k)" by simp
  have "p dvd (\<Sum>k\<in>{1..<p}. (p choose k) * a ^ k)"
    using prime_dvd_choose [OF p] by (intro dvd_sum) simp
  then have "Suc a ^ p mod p = (a ^ p + 1) mod p" unfolding e by (auto elim!: dvdE)
  also have "\<dots> = (a + 1) mod p" using Suc by (metis mod_add_left_eq)
  finally show ?case by simp
qed

lemma fermat_pred:
  assumes "prime_num p" "\<not> p dvd m"
  shows "m ^ (p - 1) mod p = 1"
proof -
  have "1 < p" using assms(1) by (simp add: prime_num_def)
  then have "m * m ^ (p - 1) = m ^ p" by (metis power_eq_if not_one_less_zero)
  then have "m * m ^ (p - 1) mod p = m * 1 mod p" using fermat [OF assms(1), of m] by (metis mult_1_right)
  moreover have "coprime m p" using prime_coprime [OF assms] by (simp add: coprime_commute)
  ultimately have "m ^ (p - 1) mod p = 1 mod p" by (metis mod_cancel_nat)
  then show ?thesis using \<open>1 < p\<close> by simp
qed

text \<open>Raising to two exponents that are inverse modulo \<open>p - 1\<close> gives the message back.\<close>

lemma key_exponents:
  assumes p: "prime_num p" and k: "k mod (p - 1) = 1"
  shows "m ^ k mod p = m mod p"
proof -
  have "k = 1 + (p - 1) * (k div (p - 1))" using k by (metis mod_mult_div_eq)
  then obtain j where j: "k = Suc ((p - 1) * j)" by auto
  show ?thesis
  proof (cases "p dvd m")
    case True
    then show ?thesis by (simp add: j dvd_imp_mod_0)
  next
    case False
    have "m ^ k mod p = m * ((m ^ (p - 1)) ^ j mod p) mod p" by (simp add: j power_mult mod_mult_right_eq)
    also have "(m ^ (p - 1)) ^ j mod p = (m ^ (p - 1) mod p) ^ j mod p" by (simp add: power_mod)
    also have "\<dots> = 1 mod p" using fermat_pred [OF p False] by simp
    finally show ?thesis by (simp add: mod_mult_right_eq)
  qed
qed

lemma exponent_reduce:
  assumes p: "prime_num p" and d: "d = k mod (p - 1)" "0 < d"
  shows "m ^ k mod p = m ^ d mod p"
proof (cases "p dvd m")
  case True
  have "0 < k" using d by (cases "k = 0") auto
  then have "p dvd m ^ k" "p dvd m ^ d" using True d(2) by (meson dvd_power dvd_trans)+
  then show ?thesis by (simp add: dvd_imp_mod_0)
next
  case False
  have "k = (p - 1) * (k div (p - 1)) + d" using d(1) by simp
  then have "m ^ k mod p = (m ^ (p - 1)) ^ (k div (p - 1)) * m ^ d mod p" by (metis power_add power_mult)
  also have "\<dots> = (m ^ (p - 1) mod p) ^ (k div (p - 1)) * m ^ d mod p" by (metis mod_mult_left_eq power_mod)
  also have "\<dots> = m ^ d mod p" by (simp only: fermat_pred [OF p False] power_one mult_1)
  finally show ?thesis .
qed

lemma crt_unique:
  fixes p q x y :: nat
  assumes "coprime p q" "x mod p = y mod p" "x mod q = y mod q" "x < p * q" "y < p * q"
  shows "x = y"
proof -
  have "int p dvd int x - int y" "int q dvd int x - int y"
    using assms(2,3) by (metis of_nat_mod mod_eq_dvd_iff)+
  then have "int p * int q dvd int x - int y" using assms(1) by (intro divides_mult) simp_all
  then have "int x mod int (p * q) = int y mod int (p * q)" by (simp add: mod_eq_dvd_iff)
  then show ?thesis using assms(4,5) by (metis mod_less of_nat_eq_iff of_nat_mod)
qed

text \<open>Garner's combination of two residues.\<close>

lemma garner:
  fixes p q qp m1 m2 :: int
  assumes "0 < p" "0 < q" "q * qp mod p = 1 mod p" "0 \<le> m2" "m2 < q"
  defines "x \<equiv> m2 + q * ((m1 - m2) * qp mod p)"
  shows "x mod p = m1 mod p" "x mod q = m2" "0 \<le> x" "x < p * q"
proof -
  let ?h = "(m1 - m2) * qp mod p"
  have h: "0 \<le> ?h" "?h \<le> p - 1" using assms(1) by simp_all
  have "q * ?h mod p = (m1 - m2) * (q * qp mod p) mod p"
    by (simp add: mod_mult_right_eq ac_simps)
  also have "\<dots> = (m1 - m2) mod p" unfolding assms(3) by (simp add: mod_mult_right_eq)
  finally have "x mod p = (m2 + (m1 - m2)) mod p" unfolding x_def by (metis mod_add_right_eq)
  then show "x mod p = m1 mod p" by simp
  show "x mod q = m2" using assms(4,5) by (simp add: x_def)
  have "q * ?h \<le> q * (p - 1)" using h assms(2) by (intro mult_left_mono) simp_all
  then show "x < p * q" using assms(5) by (simp add: x_def algebra_simps)
  show "0 \<le> x" using assms(2,4) h by (simp add: x_def)
qed

lemma garner_nat:
  fixes p q qp a b x :: nat
  assumes x: "int x = int b + int q * ((int a - int b) * int qp mod int p)"
    and inv: "q * qp mod p = 1" and p: "1 < p" and b: "b < q"
  shows "x mod p = a mod p" "x mod q = b" "x < p * q"
proof -
  have "int q * int qp mod int p = 1 mod int p"
    using inv p by (metis of_nat_1 of_nat_mod of_nat_mult mod_mod_trivial)
  note g = garner [OF _ _ this, of "int b" "int a"]
  have "int x mod int p = int a mod int p" "int x mod int q = int b" "int x < int p * int q"
    unfolding x using g p b by simp_all
  then show "x mod p = a mod p" "x mod q = b" "x < p * q"
    by (metis of_nat_eq_iff of_nat_mod of_nat_less_iff of_nat_mult)+
qed

subsection \<open>Proth's criterion\<close>

text \<open>It certifies the primes of concrete keys: \<open>h * 2^k + 1\<close> with \<open>h < 2^k\<close>.\<close>

lemma prime_divisor:
  assumes "1 < (n :: nat)"
  shows "\<exists>p. prime_num p \<and> p dvd n"
proof -
  define p where "p = (LEAST d. 1 < d \<and> d dvd n)"
  have p: "1 < p" "p dvd n" using LeastI [of "\<lambda>d. 1 < d \<and> d dvd n" n] assms by (simp_all add: p_def)
  have "d = 1 \<or> d = p" if "d dvd p" for d
  proof (cases "1 < d")
    case True
    have "d dvd n" using that p(2) dvd_trans by blast
    then have "p \<le> d" unfolding p_def using True by (intro Least_le) simp
    then show ?thesis using that p(1) dvd_imp_le [of d p] by simp
  next
    case False
    then show ?thesis using that p(1) by (cases d) auto
  qed
  then show ?thesis using p unfolding prime_num_def by blast
qed

lemma proth_divisor:
  assumes p: "prime_num p" "odd p" and b: "int b ^ 2 ^ (k - 1) mod int p = - 1 mod int p" and k: "0 < k"
  shows "2 ^ k dvd p - 1"
proof -
  have p2: "2 < p" using p by (cases "p = 2") (auto simp: prime_num_def)
  have "\<not> p dvd b"
  proof
    assume "p dvd b"
    then have "int p dvd int b ^ 2 ^ (k - 1)" using dvd_power [of "2 ^ (k - 1)" "int b"] by (meson dvd_trans int_dvd_int_iff zero_less_power zero_less_numeral)
    then have "int p dvd - 1" using b by (metis dvd_eq_mod_eq_0)
    then show False using p2 by simp
  qed
  then have "b ^ (p - 1) mod p = 1" by (rule fermat_pred [OF p(1)])
  then have f: "int b ^ (p - 1) mod int p = 1" by (metis of_nat_1 of_nat_mod of_nat_power)
  have "2 ^ j dvd p - 1" if "j \<le> k" for j
    using that
  proof (induction j)
    case (Suc j)
    then obtain m where m: "p - 1 = 2 ^ j * m" by (auto elim: dvdE)
    have "even m"
    proof (rule ccontr)
      assume "odd m"
      have "(2 :: nat) ^ (k - 1) = 2 ^ j * 2 ^ (k - 1 - j)" using Suc.prems by (simp flip: power_add)
      then have "(p - 1) * 2 ^ (k - 1 - j) = 2 ^ (k - 1) * m" unfolding m by (simp only: ac_simps)
      then have "int b ^ (2 ^ (k - 1) * m) = (int b ^ (p - 1)) ^ 2 ^ (k - 1 - j)" by (metis power_mult)
      then have "int b ^ (2 ^ (k - 1) * m) mod int p = 1 mod int p" using f by (metis power_mod power_one)
      moreover have "int b ^ (2 ^ (k - 1) * m) mod int p = (- 1) ^ m mod int p" using b by (metis power_mod power_mult)
      ultimately have "int p dvd 1 - (- 1)" using \<open>odd m\<close> by (metis mod_eq_dvd_iff power_minus_odd power_one)
      then show False using p2 by (auto dest: zdvd_imp_le)
    qed
    then show ?case using m by (auto elim!: evenE)
  qed simp
  then show ?thesis by simp
qed

lemma proth:
  assumes q: "q = h * 2 ^ k + 1" "h < 2 ^ k" "0 < h" "0 < k" and a: "(a ^ h) ^ 2 ^ (k - 1) mod q = q - 1"
  shows "prime_num q"
proof -
  have q1: "1 < q" using q by simp
  have big: "2 ^ k < p" if p: "prime_num p" "p dvd q" for p
  proof -
    have "odd q" using q by simp
    then have "odd p" using p(2) by (meson dvd_trans)
    moreover have "int (a ^ h) ^ 2 ^ (k - 1) mod int q = int (q - 1)" using a by (metis of_nat_mod of_nat_power)
    then have "int q dvd int (a ^ h) ^ 2 ^ (k - 1) - int (q - 1)" by (metis mod_eq_dvd_iff mod_mod_trivial)
    then have "int q dvd int (a ^ h) ^ 2 ^ (k - 1) - int (q - 1) + int q" by simp
    then have "int q dvd int (a ^ h) ^ 2 ^ (k - 1) - (- 1)" using q1 by (simp add: of_nat_diff)
    then have "int p dvd int (a ^ h) ^ 2 ^ (k - 1) - (- 1)" using p(2) by (meson dvd_trans int_dvd_int_iff)
    then have "int (a ^ h) ^ 2 ^ (k - 1) mod int p = - 1 mod int p" by (simp only: mod_eq_dvd_iff)
    ultimately have "2 ^ k dvd p - 1" using proth_divisor [OF p(1)] q(4) by blast
    moreover have "0 < p - 1" using p(1) by (simp add: prime_num_def)
    ultimately have "2 ^ k \<le> p - 1" by (rule dvd_imp_le)
    then show ?thesis using \<open>0 < p - 1\<close> by linarith
  qed
  have "d = 1 \<or> d = q" if d: "d dvd q" for d
  proof (rule ccontr)
    assume "\<not> (d = 1 \<or> d = q)"
    obtain e where e: "q = d * e" using d by (auto elim: dvdE)
    have "1 < d" "1 < e" using \<open>\<not> _\<close> e q1 by (auto simp: nat_neq_iff)
    then obtain p r where "prime_num p" "p dvd d" "prime_num r" "r dvd e" using prime_divisor by meson
    then have "2 ^ k < d" "2 ^ k < e"
      using big [of p] big [of r] e \<open>1 < d\<close> \<open>1 < e\<close> by (meson dvd_imp_le dvd_mult dvd_mult2 less_le_trans less_trans zero_less_one)+
    then have "Suc (2 ^ k) * Suc (2 ^ k) \<le> q" unfolding e by (intro mult_mono) simp_all
    moreover have "h * 2 ^ k \<le> 2 ^ k * 2 ^ k" using q(2) by (intro mult_right_mono) simp_all
    moreover have "Suc (2 ^ k) * Suc (2 ^ k) = 2 ^ k * 2 ^ k + 2 * 2 ^ k + 1" by simp
    moreover have "(0 :: nat) < 2 ^ k" by simp
    ultimately show False using q(1) by linarith
  qed
  then show ?thesis using q1 unfolding prime_num_def by blast
qed

text \<open>The criterion by repeated squaring, for evaluation.\<close>

fun sq_mod :: "nat \<Rightarrow> int \<Rightarrow> int \<Rightarrow> int" where
  "sq_mod 0 x q = x mod q"
| "sq_mod (Suc k) x q = sq_mod k (x * x mod q) q"

lemma sq_mod_power: "sq_mod k x q = x ^ 2 ^ k mod q"
proof (induction k arbitrary: x)
  case (Suc k)
  have "x ^ 2 ^ Suc k mod q = (x * x) ^ 2 ^ k mod q" by (simp add: power_mult power2_eq_square)
  also have "\<dots> = (x * x mod q) ^ 2 ^ k mod q" by (simp add: power_mod)
  finally show ?case using Suc by simp
qed simp

lemma proth_squares:
  assumes "int q = int h * 2 ^ k + 1" "int h < 2 ^ k" "0 < h" "0 < k" "sq_mod (k - 1) (int a ^ h) (int q) = int q - 1"
  shows "prime_num q"
proof (rule proth [where h = h and k = k and a = a])
  have "int (h * 2 ^ k + 1) = int q" "int h < int (2 ^ k)" using assms(1,2) by simp_all
  then show "q = h * 2 ^ k + 1" "h < 2 ^ k" by linarith+
  then have q: "0 < q" by simp
  have "int ((a ^ h) ^ 2 ^ (k - 1) mod q) = int (q - 1)"
    using assms(5) q by (simp add: sq_mod_power of_nat_mod of_nat_diff)
  then show "(a ^ h) ^ 2 ^ (k - 1) mod q = q - 1" by linarith
qed (use assms in simp_all)

end
