(* ===== verification/MpiPrimeOk.thy ===== *)
theory MpiPrimeOk
  imports MpiPrime RsaMath
begin

text \<open>
  The binary greatest common divisor computes the odd part of the divisor and ends exactly
  when it should; the primality test accepts every odd prime and rejects small factors.
\<close>

unbundle bit_operations_syntax

subsection \<open>Making a number odd\<close>

lemma low_bit: "p \<noteq> [] \<Longrightarrow> p ! 0 AND 1 = 0 \<longleftrightarrow> even (nval p)"
proof -
  assume "p \<noteq> []"
  then have "unat (p ! 0) mod 2 = nval p mod 2" using nth_nval [of 0 p] by (simp add: LB_def mod_mod_cancel)
  then show ?thesis
    by (simp add: word_unat_eq_iff and_one_eq unat_mod even_iff_mod_2_eq_zero)
qed

lemma make_odd_ok:
  assumes "nval (mpi_p T) \<noteq> 0"
  shows "\<exists>T' k. make_odd T = Some T' \<and> mpi_s T' = mpi_s T \<and> odd (nval (mpi_p T')) \<and> nval (mpi_p T) = nval (mpi_p T') * 2 ^ k"
  using assms
proof (induction "nval (mpi_p T)" arbitrary: T rule: less_induct)
  case less
  have p: "mpi_p T \<noteq> []" using less.prems by auto
  show ?case
  proof (cases "even (nval (mpi_p T))")
    case False
    then have "make_odd T = Some T" using p low_bit by (subst make_odd.simps) simp
    then show ?thesis using False by (intro exI [of _ T] exI [of _ 0]) simp
  next
    case True
    define S where "S = mpi_shift_r T 1"
    have S: "mpi_s S = mpi_s T" "nval (mpi_p S) = nval (mpi_p T) div 2" by (simp_all add: S_def mpi_shift_r_ok)
    have "nval (mpi_p S) < nval (mpi_p T)" "nval (mpi_p S) \<noteq> 0" using S(2) less.prems True by auto
    from less.hyps [OF this] obtain T' k where
      T': "make_odd S = Some T'" "mpi_s T' = mpi_s S" "odd (nval (mpi_p T'))" "nval (mpi_p S) = nval (mpi_p T') * 2 ^ k" by blast
    have "make_odd T = make_odd S" using p low_bit True by (subst make_odd.simps) (simp add: S_def)
    moreover have "nval (mpi_p T) = nval (mpi_p T') * 2 ^ Suc k" using True S(2) T'(4) by auto
    ultimately show ?thesis using T'(1-3) S(1) by metis
  qed
qed

lemma make_odd_zero:
  assumes "nval (mpi_p T) = 0"
  shows "make_odd T = None"
proof (cases "make_odd T")
  case (Some r)
  have "nval (mpi_p T) \<noteq> 0"
  proof (rule make_odd.raw_induct [where P = "\<lambda>T r. nval (mpi_p T) \<noteq> 0", OF _ Some])
    fix f :: "mpi \<Rightarrow> mpi option" and T r
    assume h: "\<And>T r. f T = Some r \<Longrightarrow> nval (mpi_p T) \<noteq> 0"
      "(if mpi_p T = [] then None else if mpi_p T ! 0 AND 1 = 0 then f (mpi_shift_r T 1) else Some T) = Some r"
    show "nval (mpi_p T) \<noteq> 0"
    proof (cases "mpi_p T ! 0 AND 1 = 0")
      case True
      then have "f (mpi_shift_r T 1) = Some r" using h(2) by (simp split: if_splits)
      from h(1) [OF this] show ?thesis by (auto simp: mpi_shift_r_ok)
    next
      case False
      then show ?thesis using h(2) low_bit [of "mpi_p T"] by (auto split: if_splits intro: gr0I)
    qed
  qed
  then show ?thesis using assms by simp
qed

subsection \<open>The greatest common divisor\<close>

lemma gcd_pow2:
  assumes "odd (a :: nat)" "odd b"
  shows "\<exists>j. gcd (a * 2 ^ i) (b * 2 ^ l) = gcd a b * 2 ^ j"
proof -
  have step: "\<exists>j. gcd (a * 2 ^ i) (b * 2 ^ l) = gcd a b * 2 ^ j" if "odd a" "i \<le> l" for a b i l :: nat
  proof -
    have "(2 :: nat) ^ l = 2 ^ (l - i) * 2 ^ i" using that(2) by (simp flip: power_add)
    then have "gcd (a * 2 ^ i) (b * 2 ^ l) = gcd a (b * 2 ^ (l - i)) * 2 ^ i"
      by (metis gcd_mult_distrib_nat mult.assoc mult.commute)
    moreover have "coprime a (2 ^ (l - i))" using that(1) by simp
    ultimately show ?thesis by (metis gcd_mult_right_right_cancel)
  qed
  show ?thesis
  proof (cases "i \<le> l")
    case False
    then show ?thesis using step [OF assms(2), of l i a] by (simp add: gcd.commute)
  qed (use step [OF assms(1)] in blast)
qed

definition odd_gcd :: "nat \<Rightarrow> nat \<Rightarrow> nat \<Rightarrow> bool" where
  "odd_gcd a b g \<longleftrightarrow> (if a = 0 then g = b else odd g \<and> (\<exists>k. gcd a b = g * 2 ^ k))"

lemma odd_gcd_step:
  assumes "odd (a1 :: nat)" "odd b1" "a = a1 * 2 ^ i" "b = b1 * 2 ^ l" "odd g" "\<exists>k. gcd a1 b1 = g * 2 ^ k"
  shows "odd_gcd a b g"
proof -
  from gcd_pow2 [OF assms(1,2), of i l] assms(6) obtain j k where "gcd a b = g * 2 ^ k * 2 ^ j" unfolding assms(3,4) by metis
  then have "gcd a b = g * 2 ^ (k + j)" by (simp add: power_add)
  moreover have "a \<noteq> 0" using assms(1,3) by (auto intro: gr0I)
  ultimately show ?thesis using assms(5) by (auto simp: odd_gcd_def)
qed

lemma gcd_half:
  assumes "odd (a :: nat)" "odd b" "b \<le> a"
  shows "gcd a b = gcd ((a - b) div 2) b"
proof -
  have "even (a - b)" using assms by simp
  then have "a - b = (a - b) div 2 * 2" by simp
  then have "gcd (a - b) b = gcd ((a - b) div 2) b" using assms(2)
    by (metis gcd_mult_left_right_cancel coprime_commute coprime_right_2_iff_odd)
  then show ?thesis using assms(3) by (metis gcd_diff1_nat)
qed

lemma cmp_positive: "mpi_s X = 1 \<Longrightarrow> mpi_s Y = 1 \<Longrightarrow> 0 \<le> mpi_cmp_mpi X Y \<longleftrightarrow> nval (mpi_p Y) \<le> nval (mpi_p X)"
  by (subst mpi_cmp_mpi_same) (auto simp: mpi_ok_def mval_def sgn_if)

lemma cmp_int_0: "mpi_s T = 1 \<Longrightarrow> mpi_cmp_int T 0 \<noteq> 0 \<longleftrightarrow> nval (mpi_p T) \<noteq> 0"
  by (subst mpi_cmp_int_0) (auto simp: mpi_defs)

lemma sub_half:
  assumes al: "\<forall>k. al k" and "mpi_s A = 1" "nval (mpi_p B) \<le> nval (mpi_p A)"
  shows "\<exists>V. mpi_sub_abs al A This (That B) = ok V \<and> mpi_s (mpi_shift_r V 1) = 1
    \<and> nval (mpi_p (mpi_shift_r V 1)) = (nval (mpi_p A) - nval (mpi_p B)) div 2"
  using gives_total [OF gives_sub_abs [of A "That B" This al] al] assms(2,3) by (auto simp: mpi_shift_r_ok)

lemma gcd_loop_ok:
  assumes al: "\<forall>k. al k" and "mpi_s TA = 1" "mpi_s TB = 1" "nval (mpi_p TB) \<noteq> 0"
  shows "\<exists>G. gcd_loop al TA TB = ok G \<and> mpi_s G = 1 \<and> odd_gcd (nval (mpi_p TA)) (nval (mpi_p TB)) (nval (mpi_p G))"
  using assms(2-4)
proof (induction "nval (mpi_p TA) + nval (mpi_p TB)" arbitrary: TA TB rule: less_induct)
  case less
  let ?a = "nval (mpi_p TA)" and ?b = "nval (mpi_p TB)"
  show ?case
  proof (cases "?a = 0")
    case True
    then show ?thesis using less.prems cmp_int_0 [of TA] by (subst gcd_loop.simps) (simp add: odd_gcd_def)
  next
    case False
    from make_odd_ok [OF False] obtain A i where
      A: "make_odd TA = Some A" "mpi_s A = 1" "odd (nval (mpi_p A))" "?a = nval (mpi_p A) * 2 ^ i" using less.prems by auto
    from make_odd_ok [OF less.prems(3)] obtain B l where
      B: "make_odd TB = Some B" "mpi_s B = 1" "odd (nval (mpi_p B))" "?b = nval (mpi_p B) * 2 ^ l" using less.prems by auto
    let ?a1 = "nval (mpi_p A)" and ?b1 = "nval (mpi_p B)"
    have le: "?a1 \<le> ?a" "?b1 \<le> ?b" using A(4) B(4) by simp_all
    have pos: "0 < ?a1" "0 < ?b1" using A(3) B(3) by (auto intro: gr0I)
    note fin = odd_gcd_step [OF A(3) B(3) A(4) B(4)]
    show ?thesis
    proof (cases "?b1 \<le> ?a1")
      case True
      from sub_half [OF al A(2) True] obtain V where
        V: "mpi_sub_abs al A This (That B) = ok V" "mpi_s (mpi_shift_r V 1) = 1" "nval (mpi_p (mpi_shift_r V 1)) = (?a1 - ?b1) div 2" by blast
      have "nval (mpi_p (mpi_shift_r V 1)) + ?b1 < ?a + ?b" using V(3) le pos by linarith
      from less.hyps [OF this V(2) B(2)] pos obtain G where
        G: "gcd_loop al (mpi_shift_r V 1) B = ok G" "mpi_s G = 1" "odd_gcd ((?a1 - ?b1) div 2) ?b1 (nval (mpi_p G))"
        using V(3) by auto
      have "gcd_loop al TA TB = gcd_loop al (mpi_shift_r V 1) B"
        using False less.prems(1) cmp_int_0 [of TA] A B V(1) True cmp_positive [of A B] by (subst gcd_loop.simps) simp
      moreover have "odd (nval (mpi_p G)) \<and> (\<exists>k. gcd ?a1 ?b1 = nval (mpi_p G) * 2 ^ k)"
        using G(3) B(3) gcd_half [OF A(3) B(3) True] by (auto simp: odd_gcd_def split: if_splits intro!: exI [of _ 0])
      ultimately show ?thesis using G(1,2) fin by auto
    next
      case lt: False
      then have "?a1 \<le> ?b1" by simp
      from sub_half [OF al B(2) this] obtain V where
        V: "mpi_sub_abs al B This (That A) = ok V" "mpi_s (mpi_shift_r V 1) = 1" "nval (mpi_p (mpi_shift_r V 1)) = (?b1 - ?a1) div 2" by blast
      have "even (?b1 - ?a1)" "0 < ?b1 - ?a1" using A(3) B(3) lt by auto
      then have nz: "(?b1 - ?a1) div 2 \<noteq> 0" by presburger
      have "?a1 + nval (mpi_p (mpi_shift_r V 1)) < ?a + ?b" using V(3) le pos by linarith
      from less.hyps [OF this A(2) V(2)] nz obtain G where
        G: "gcd_loop al A (mpi_shift_r V 1) = ok G" "mpi_s G = 1" "odd_gcd ?a1 ((?b1 - ?a1) div 2) (nval (mpi_p G))"
        using V(3) by auto
      have "gcd_loop al TA TB = gcd_loop al A (mpi_shift_r V 1)"
        using False less.prems(1) cmp_int_0 [of TA] A B V(1) lt cmp_positive [of A B] by (subst gcd_loop.simps) simp
      moreover have "odd (nval (mpi_p G)) \<and> (\<exists>k. gcd ?a1 ?b1 = nval (mpi_p G) * 2 ^ k)"
        using G(3) pos gcd_half [OF B(3) A(3) \<open>?a1 \<le> ?b1\<close>] by (auto simp: odd_gcd_def gcd.commute split: if_splits)
      ultimately show ?thesis using G(1,2) fin by auto
    qed
  qed
qed

lemma copy_init:
  assumes "\<forall>k. al k"
  shows "\<exists>V. mpi_copy al mpi_init (That Y) = ok V \<and> mpi_s V = mpi_s Y \<and> nval (mpi_p V) = nval (mpi_p Y)
    \<and> mpi_n V = scan_pos (mpi_p Y) (mpi_n Y)"
  using gives_total [OF gives_copy [of al mpi_init Y] assms] by (auto simp: mpi_init_def)

lemma lset_init:
  assumes "\<forall>k. al k" "0 \<le> z" "z < 2 ^ 32"
  shows "\<exists>V. mpi_lset al mpi_init z = ok V \<and> mpi_s V = 1 \<and> nval (mpi_p V) = nat z"
proof -
  have "unat (word_of_int z :: t_int) = nat z" using assms(2,3) by (simp add: unsigned_of_int take_bit_int_eq_self)
  then show ?thesis using gives_total [OF gives_lset [of al mpi_init z] assms(1)] assms(2) by (auto simp: mpi_init_def)
qed

lemma mpi_gcd_ok:
  assumes al: "\<forall>k. al k" and b: "nval (mpi_p B) \<noteq> 0"
  shows "\<exists>G'. mpi_gcd al G A B = ok G' \<and> mpi_s G' = 1 \<and> odd_gcd (nval (mpi_p A)) (nval (mpi_p B)) (nval (mpi_p G'))"
proof -
  from lset_init [OF al, of 1] obtain TG where TG: "mpi_lset al mpi_init 1 = ok TG" "mpi_s TG = 1" "nval (mpi_p TG) = 1" by auto
  from copy_init [OF al, of A] obtain TA where TA: "mpi_copy al mpi_init (That A) = ok TA" "nval (mpi_p TA) = nval (mpi_p A)" by auto
  from copy_init [OF al, of B] obtain TB where TB: "mpi_copy al mpi_init (That B) = ok TB" "nval (mpi_p TB) = nval (mpi_p B)" by auto
  from gcd_loop_ok [OF al, of "TA\<lparr>mpi_s := 1\<rparr>" "TB\<lparr>mpi_s := 1\<rparr>"] TA(2) TB(2) b obtain V where
    V: "gcd_loop al (TA\<lparr>mpi_s := 1\<rparr>) (TB\<lparr>mpi_s := 1\<rparr>) = ok V" "mpi_s V = 1"
    "odd_gcd (nval (mpi_p A)) (nval (mpi_p B)) (nval (mpi_p V))" by auto
  from gives_total [OF gives_mul_mpi [of al G "That TG" "That V"] al] TG V show ?thesis
    by (auto simp: mpi_gcd_def TA(1) TB(1) Let_def)
qed

text \<open>With a second argument of zero the search for an odd number never ends.\<close>

lemma mpi_gcd_hangs:
  assumes al: "\<forall>k. al k" and "nval (mpi_p A) \<noteq> 0" "nval (mpi_p B) = 0"
  shows "mpi_gcd al G A B = None"
proof -
  from lset_init [OF al, of 1] obtain TG where TG: "mpi_lset al mpi_init 1 = ok TG" by auto
  from copy_init [OF al, of A] obtain TA where TA: "mpi_copy al mpi_init (That A) = ok TA" "nval (mpi_p TA) = nval (mpi_p A)" by auto
  from copy_init [OF al, of B] obtain TB where TB: "mpi_copy al mpi_init (That B) = ok TB" "nval (mpi_p TB) = nval (mpi_p B)" by auto
  have "gcd_loop al (TA\<lparr>mpi_s := 1\<rparr>) (TB\<lparr>mpi_s := 1\<rparr>) = None"
    using cmp_int_0 [of "TA\<lparr>mpi_s := 1\<rparr>"] make_odd_zero [of "TB\<lparr>mpi_s := 1\<rparr>"] TA(2) TB(2) assms(2,3)
    by (subst gcd_loop.simps) (simp split: option.splits)
  then show ?thesis by (simp add: mpi_gcd_def TG TA(1) TB(1) Let_def)
qed

subsection \<open>Trial division\<close>

lemma cmp_int_small: "mpi_s X = 1 \<Longrightarrow> 0 < z \<Longrightarrow> z < 2 ^ 32 \<Longrightarrow> mpi_cmp_int X z = sgn (int (nval (mpi_p X)) - z)"
  using mval_of_int [of z] by (simp add: mpi_cmp_int_def mpi_cmp_mpi_same mpi_ok_def mval_def mpi_of_int_def)

lemma mod_int_zero:
  assumes "0 < z" "z \<le> 2 ^ 16" "mpi_p X \<noteq> []"
  shows "\<exists>r. mpi_mod_int X z = ok r \<and> (r = 0 \<longleftrightarrow> z dvd int (nval (mpi_p X)))"
proof -
  from mpi_mod_int_ok [of z X] assms obtain r where r: "mpi_mod_int X z = ok r" "int (unat r) = int (nval (mpi_p X)) mod z" by auto
  have "r = 0 \<longleftrightarrow> int (unat r) = 0" by (simp only: word_unat_eq_iff unat_0 of_nat_eq_0_iff)
  then show ?thesis using r by (auto simp: dvd_eq_mod_eq_0)
qed

lemma trial_ok:
  assumes "mpi_s X = 1" "mpi_p X \<noteq> []" "\<forall>p \<in> set ps. p < 2 ^ 16"
  shows "\<exists>v. is_prime_trial X ps = ok v
    \<and> (v = Some False \<longrightarrow> (\<exists>p \<in> set ps. 0 < p \<and> p < int (nval (mpi_p X)) \<and> p dvd int (nval (mpi_p X))))
    \<and> ((\<exists>p \<in> set (takeWhile (\<lambda>p. 0 < p) ps). p < int (nval (mpi_p X)) \<and> p dvd int (nval (mpi_p X)))
        \<and> sorted (takeWhile (\<lambda>p. 0 < p) ps) \<longrightarrow> v = Some False)"
  using assms(3)
proof (induction ps)
  case (Cons p ps)
  show ?case
  proof (cases "p > 0")
    case False
    then show ?thesis by simp
  next
    case p: True
    have cmp: "mpi_cmp_int X p \<le> 0 \<longleftrightarrow> int (nval (mpi_p X)) \<le> p"
      using cmp_int_small [OF assms(1) p] Cons.prems by (auto simp: sgn_if)
    show ?thesis
    proof (cases "int (nval (mpi_p X)) \<le> p")
      case True
      then have "is_prime_trial X (p # ps) = ok (Some True)" using p cmp by simp
      then show ?thesis using True p by fastforce
    next
      case lt: False
      from mod_int_zero [of p X] p Cons.prems assms(2) obtain r where
        r: "mpi_mod_int X p = ok r" "r = 0 \<longleftrightarrow> p dvd int (nval (mpi_p X))" by auto
      from Cons.IH Cons.prems obtain v where v: "is_prime_trial X ps = ok v"
        "v = Some False \<longrightarrow> (\<exists>p \<in> set ps. 0 < p \<and> p < int (nval (mpi_p X)) \<and> p dvd int (nval (mpi_p X)))"
        "(\<exists>p \<in> set (takeWhile (\<lambda>p. 0 < p) ps). p < int (nval (mpi_p X)) \<and> p dvd int (nval (mpi_p X)))
          \<and> sorted (takeWhile (\<lambda>p. 0 < p) ps) \<longrightarrow> v = Some False" by auto
      have "is_prime_trial X (p # ps) = ok (if p dvd int (nval (mpi_p X)) then Some False else v)"
        using p cmp lt r v(1) by simp
      then show ?thesis using p lt v(2,3) by auto
    qed
  qed
qed simp

lemma small_prime_bound: "\<forall>p \<in> set small_prime. p < 2 ^ 16"
  by (simp add: small_prime_def)

lemma small_prime_sorted: "sorted (takeWhile (\<lambda>p. 0 < p) small_prime)"
  by code_simp

subsection \<open>The random bases\<close>

lemma length_limbs_of_bytes: "length bs = 4 * n \<Longrightarrow> length (limbs_of_bytes bs) = n"
proof (induction n arbitrary: bs)
  case (Suc n)
  then obtain a b c d cs where "bs = a # b # c # d # cs" "length cs = 4 * n"
    by (cases bs rule: limbs_of_bytes.cases) auto
  with Suc.IH show ?case by simp
qed simp

lemma random_limbs_ok:
  assumes "\<forall>c. length (encrypt keys 10 c) = 16" "supply_at encrypt keys k rs" "k + mpi_n X * 4 \<le> 16 * (LB ^ 4 - 1)"
  shows "\<exists>p rs'. random_limbs encrypt X rs = Some (X\<lparr>mpi_p := p\<rparr>, rs') \<and> length p = mpi_n X
    \<and> supply_at encrypt keys (k + mpi_n X * 4) rs'"
proof -
  from random_bytes_ok [OF assms] obtain rs' where
    r: "get_random_bytes encrypt (mpi_n X * 4) rs = Some (map (stream_byte encrypt keys) [k..<k + mpi_n X * 4], rs')"
    "supply_at encrypt keys (k + mpi_n X * 4) rs'" by blast
  then show ?thesis
    using length_limbs_of_bytes [of "map (stream_byte encrypt keys) [k..<k + mpi_n X * 4]" "mpi_n X"]
    by (auto simp: random_limbs_def)
qed

lemma or_3: "unat ((w :: t_int) OR 3) = unat w div 4 * 4 + 3"
proof -
  have one: "m OR 1 = m div 2 * 2 + 1" for m :: nat by (subst or_rec) simp
  have "n OR 3 = n div 2 div 2 * 4 + 3" for n :: nat
    by (subst or_rec) (simp add: one [simplified])
  then show ?thesis by (simp add: unsigned_or_eq div_mult2_eq [symmetric])
qed

text \<open>A base below a power of two stays below it when its two low bits are set.\<close>

lemma set_low_bits:
  assumes "p \<noteq> []" "nval p < 2 ^ k" "2 \<le> k"
  shows "nval (p[0 := p ! 0 OR 3]) < 2 ^ k" "0 < nval (p[0 := p ! 0 OR 3])" "odd (nval (p[0 := p ! 0 OR 3]))"
proof -
  obtain w ws where p: "p = w # ws" using assms(1) by (cases p) auto
  have LB4: "LB * nval ws = 4 * (2 ^ 30 * nval ws)" by (simp add: LB_def)
  have v: "nval (p[0 := p ! 0 OR 3]) = 4 * (unat w div 4 + 2 ^ 30 * nval ws) + 3" by (simp add: p or_3 LB4)
  have "(2 :: nat) ^ k = 4 * 2 ^ (k - 2)" using assms(3) by (metis le_add_diff_inverse power2_eq_square power_add numeral_Bit0 mult_2 numeral_One one_add_one)
  moreover have "unat w + 4 * (2 ^ 30 * nval ws) < 2 ^ k" using assms(2) by (simp add: p LB4)
  ultimately have "unat w div 4 + 2 ^ 30 * nval ws < 2 ^ (k - 2)" by simp
  then show "nval (p[0 := p ! 0 OR 3]) < 2 ^ k" unfolding v \<open>2 ^ k = _\<close> by simp
  show "0 < nval (p[0 := p ! 0 OR 3])" "odd (nval (p[0 := p ! 0 OR 3]))" unfolding v by simp_all
qed

lemma shift_base:
  assumes "bitlen v ma" "1 \<le> mw"
  shows "v div 2 ^ (if 0 \<le> int ma - int mw + 1 then nat (int ma - int mw + 1) else nat ((int ma - int mw + 1) mod 32)) < 2 ^ (mw - 1)"
proof (cases "0 \<le> int ma - int mw + 1")
  case True
  define c where "c = nat (int ma - int mw + 1)"
  have "ma = (mw - 1) + c" using True assms(2) by (simp add: c_def)
  then have "v < 2 ^ (mw - 1) * 2 ^ c" using assms(1) by (simp add: bitlen_def power_add)
  then show ?thesis using True by (simp add: c_def [symmetric] less_mult_imp_div_less)
next
  case False
  have "v div d \<le> v" for d by simp
  moreover have "v < 2 ^ ma" using assms(1) by (simp add: bitlen_def)
  moreover have "(2 :: nat) ^ ma \<le> 2 ^ (mw - 1)" using False assms(2) by (intro power_increasing) auto
  ultimately show ?thesis by (meson le_less_trans less_le_trans)
qed

subsection \<open>Primes pass\<close>

lemma mr_round_prime:
  assumes al: "\<forall>k. al k" and enc: "\<forall>c. length (encrypt keys 10 c) = 16"
    and X: "mpi_s X = 1" "prime_num x" "x = nval (mpi_p X)" "3 < x" "odd x"
    and W: "nval (mpi_p W) = x - 1" and R: "mpi_p R \<noteq> []" "nval (mpi_p R) = x - 1"
    and RR: "mpi_p RR = [] \<or> RR_ok X RR" and A: "mpi_s A = 1" "mpi_n A \<le> mpi_n X + 1"
    and rs: "supply_at encrypt keys k rs" "k + (mpi_n X + 1) * 4 \<le> 16 * (LB ^ 4 - 1)"
  shows "\<exists>A' RR' rs' k'. mr_round al encrypt X W R s (A, T, RR, rs) = ok (True, A', T, RR', rs')
    \<and> mpi_s A' = 1 \<and> mpi_n A' \<le> mpi_n X + 1 \<and> RR_ok X RR' \<and> supply_at encrypt keys k' rs' \<and> k' \<le> k + (mpi_n X + 1) * 4"
proof -
  obtain A1 where A1: "mpi_grow al A (mpi_n X) = ok A1" "mpi_s A1 = 1" "mpi_n A1 \<le> mpi_n X + 1" "mpi_n X \<le> mpi_n A1"
    using gives_total [OF gives_grow [of al A "mpi_n X"] al] A by auto
  have "k + mpi_n A1 * 4 \<le> 16 * (LB ^ 4 - 1)" by (rule le_trans [OF _ rs(2)]) (use A1(3) in simp)
  from random_limbs_ok [OF enc rs(1) this] obtain p rs' where
    p: "random_limbs encrypt A1 rs = Some (A1\<lparr>mpi_p := p\<rparr>, rs')" "length p = mpi_n A1" "supply_at encrypt keys (k + mpi_n A1 * 4) rs'"
    by blast
  have pX: "mpi_p X \<noteq> []" using X(3,4) by auto
  then have p0: "p \<noteq> []" using p(2) A1(4) by auto
  from mpi_msb_bitlen [of "A1\<lparr>mpi_p := p\<rparr>"] p0 obtain ma where
    ma: "mpi_msb (A1\<lparr>mpi_p := p\<rparr>) = Some ma" "bitlen (nval p) ma" by auto
  have "mpi_p W \<noteq> []" using W X(4) by auto
  from mpi_msb_bitlen [OF this] obtain mw where mw: "mpi_msb W = Some mw" "bitlen (x - 1) mw" using W by auto
  have mw2: "2 \<le> mw - 1" "2 ^ (mw - 1) \<le> x - 1"
  proof -
    have "\<not> mw \<le> 2"
    proof
      assume "mw \<le> 2"
      then have "(2 :: nat) ^ mw \<le> 2 ^ 2" by (intro power_increasing) simp_all
      then show False using mw(2) X(4,5) by (auto simp: bitlen_def) presburger
    qed
    then show "2 \<le> mw - 1" "2 ^ (mw - 1) \<le> x - 1" using mw(2) by (auto simp: bitlen_def)
  qed
  define B where "B = shift_r_int (A1\<lparr>mpi_p := p\<rparr>) (int ma - int mw + 1)"
  have B: "nval (mpi_p B) < 2 ^ (mw - 1)" "mpi_n B = mpi_n A1" "mpi_s B = 1"
    using shift_base [OF ma(2), of mw] mw2(1) p(2) A1(2) by (simp_all add: B_def shift_r_int_def mpi_shift_r_ok)
  define C where "C = B\<lparr>mpi_p := (mpi_p B)[0 := mpi_p B ! 0 OR 3]\<rparr>"
  have B0: "mpi_p B \<noteq> []" using B(2) p(2) p0 by auto
  have C: "nval (mpi_p C) < x" "0 < nval (mpi_p C)" "mpi_s C = 1" "mpi_n C = mpi_n A1"
    using set_low_bits [OF B0 B(1) mw2(1)] mw2(2) B X(4) by (simp_all add: C_def)
  have cache: "\<forall>Z. Some RR = Some Z \<longrightarrow> mpi_p Z = [] \<or> RR_ok X Z" using RR by simp
  have X1: "odd (nval (mpi_p X))" "1 < nval (mpi_p X)" using X(3-5) by simp_all
  from mpi_exp_mod_ok [OF al, of C This R X, OF _ R(1) X(1) X1 cache] C obtain A' RR' where
    A': "mpi_exp_mod al C This R X (Some RR) = ok (A', Some RR')" "mpi_s A' = 1"
    "nval (mpi_p A') = nval (mpi_p C) ^ (x - 1) mod x" "mpi_n A' \<le> mpi_n X + 1" "RR_ok X RR'"
    using A1(3) R(2) X(3) by auto
  have "\<not> x dvd nval (mpi_p C)" using C(1,2) by (auto dest: dvd_imp_le)
  then have "nval (mpi_p A') = 1" using fermat_pred [OF X(2)] A'(3) by simp
  then have one: "mpi_cmp_int A' 1 = 0" using cmp_int_small [OF A'(2), of 1] by simp
  have "mr_round al encrypt X W R s (A, T, RR, rs) = ok (True, A', T, RR', rs')"
    using A1(1) p(1) ma(1) mw(1) A'(1) one
    by (simp add: mr_round_def Let_def B_def [symmetric] C_def [symmetric])
  moreover have "k + mpi_n A1 * 4 \<le> k + (mpi_n X + 1) * 4" using A1(3) by simp
  ultimately show ?thesis using A'(2,4,5) p(3) by blast
qed

lemma mr_rounds_prime:
  assumes al: "\<forall>k. al k" and enc: "\<forall>c. length (encrypt keys 10 c) = 16"
    and X: "mpi_s X = 1" "prime_num x" "x = nval (mpi_p X)" "3 < x" "odd x"
    and W: "nval (mpi_p W) = x - 1" and R: "mpi_p R \<noteq> []" "nval (mpi_p R) = x - 1"
    and RR: "mpi_p RR = [] \<or> RR_ok X RR" and A: "mpi_s A = 1" "mpi_n A \<le> mpi_n X + 1"
    and rs: "supply_at encrypt keys k rs" "k + n * ((mpi_n X + 1) * 4) \<le> 16 * (LB ^ 4 - 1)"
  shows "\<exists>rs'. mr_rounds al encrypt X W R s n (A, T, RR, rs) = ok (True, rs')"
  using RR A rs
proof (induction n arbitrary: A RR rs k)
  case (Suc n)
  have "k + (mpi_n X + 1) * 4 \<le> 16 * (LB ^ 4 - 1)" using Suc.prems(5) by simp
  from mr_round_prime [OF al enc X W R Suc.prems(1-4) this, of s T] obtain A' RR' rs' k' where
    1: "mr_round al encrypt X W R s (A, T, RR, rs) = ok (True, A', T, RR', rs')" "mpi_s A' = 1" "mpi_n A' \<le> mpi_n X + 1"
    "RR_ok X RR'" "supply_at encrypt keys k' rs'" "k' \<le> k + (mpi_n X + 1) * 4" by blast
  have "k' + n * ((mpi_n X + 1) * 4) \<le> 16 * (LB ^ 4 - 1)" using 1(6) Suc.prems(5) by simp
  from Suc.IH [OF _ 1(2,3,5) this] 1(4) obtain rs'' where
    "mr_rounds al encrypt X W R s n (A', T, RR', rs') = ok (True, rs'')" by blast
  then show ?case using 1(1) by simp
qed simp

lemma sub_one:
  assumes al: "\<forall>k. al k" and X: "mpi_s X = 1" "1 < nval (mpi_p X)"
  shows "\<exists>W. mpi_sub_int al mpi_init (That X) 1 = ok W \<and> mpi_s W = 1 \<and> nval (mpi_p W) = nval (mpi_p X) - 1"
proof -
  define D where "D = \<lparr>mpi_s = 1, mpi_p = [1]\<rparr>"
  have D: "mpi_ok D" "mval D = 1" "mpi_s D = 1" by (simp_all add: D_def mpi_ok_def mval_def)
  have "mpi_ok X" using X by (simp add: mpi_ok_def)
  from gives_total [OF gives_sub_mpi [of mpi_init "That X" "That D"] al] this D X obtain W where
    W: "mpi_sub_mpi al mpi_init (That X) (That D) = ok W" "mpi_ok W" "mval W = mval X - 1" by auto
  have "mval W = int (nval (mpi_p X)) - 1" using W(3) X(1) by (simp add: mval_def)
  then have "mpi_s W = 1 \<and> nval (mpi_p W) = nval (mpi_p X) - 1"
    using W(2) X(2) by (auto simp: mpi_defs)
  then show ?thesis using W(1) by (simp add: mpi_sub_int_def D_def mpi_of_int_def)
qed

lemma small_prime_gt_1: "\<forall>p \<in> set small_prime. 0 < p \<longrightarrow> 1 < p"
  by (simp add: small_prime_def)

lemma trial_none: "mpi_s X = 1 \<Longrightarrow> is_prime_trial X small_prime = ok None \<Longrightarrow> 3 < nval (mpi_p X)"
  using cmp_int_small [of X 3] by (auto simp: small_prime_def sgn_if split: if_splits)

lemma is_prime_accepts:
  assumes al: "\<forall>k. al k" and enc: "\<forall>c. length (encrypt keys 10 c) = 16"
    and okX: "mpi_ok X" and X: "prime_num (nval (mpi_p X))" "odd (nval (mpi_p X))"
    and rs: "supply_at encrypt keys k rs" "k + 108 * (mpi_n X + 1) \<le> 16 * (LB ^ 4 - 1)"
  shows "\<exists>X' rs'. mpi_is_prime al encrypt X rs = ok (True, X', rs')"
proof -
  define Y where "Y = X\<lparr>mpi_s := 1\<rparr>"
  define x where "x = nval (mpi_p X)"
  have x: "1 < x" "x = nval (mpi_p Y)" "mpi_s Y = 1" "mpi_p Y \<noteq> []" "mpi_n Y = mpi_n X" "mpi_p Y = mpi_p X" "prime_num x" "odd x"
    using X by (auto simp: x_def Y_def prime_num_def)
  have nz: "mpi_cmp_int X 0 \<noteq> 0" using mpi_cmp_int_0 [OF okX] x okX by (auto simp: mpi_defs)
  have lo: "mpi_p Y ! 0 AND 1 \<noteq> 0" using low_bit [OF x(4)] x(2,8) by simp
  from trial_ok [OF x(3,4) small_prime_bound] obtain v where
    v: "is_prime_trial Y small_prime = ok v"
    "v = Some False \<longrightarrow> (\<exists>p \<in> set small_prime. 0 < p \<and> p < int x \<and> p dvd int x)" using x(2) by auto
  have "v \<noteq> Some False"
  proof
    assume "v = Some False"
    then obtain p where p: "p \<in> set small_prime" "0 < p" "p < int x" "p dvd int x" using v(2) by auto
    then have "nat p dvd x" "nat p < x" "nat p \<noteq> 1" using small_prime_gt_1 by (auto simp: nat_dvd_iff)
    then show False using x(7) by (auto simp: prime_num_def)
  qed
  then consider "v = Some True" | "v = None" by (cases v) auto
  then show ?thesis
  proof cases
    case 1
    then show ?thesis using nz lo v(1) x(4) by (simp add: mpi_is_prime_def Let_def Y_def [symmetric])
  next
    case 2
    have x3: "3 < x" using trial_none [OF x(3)] v(1) 2 x(2) by simp
    from sub_one [OF al x(3)] x(1,2) obtain W where
      W: "mpi_sub_int al mpi_init (That Y) 1 = ok W" "nval (mpi_p W) = x - 1" by auto
    from copy_init [OF al, of W] obtain R where R: "mpi_copy al mpi_init (That W) = ok R" "nval (mpi_p R) = x - 1" using W(2) by auto
    from mpi_msb_bitlen [OF x(4)] obtain i where i: "mpi_msb Y = Some i" by auto
    have s: "mpi_lsb mpi_init = 0" by (simp add: mpi_lsb_def mpi_init_def)
    define R' where "R' = mpi_shift_r R 0"
    have R': "nval (mpi_p R') = x - 1" using R(2) by (simp add: R'_def mpi_shift_r_ok)
    moreover have "mpi_p R' \<noteq> []" using R' x3 by auto
    moreover have "mr_count i * ((mpi_n Y + 1) * 4) \<le> 27 * ((mpi_n Y + 1) * 4)" by (intro mult_right_mono) (simp_all add: mr_count_def)
    then have "k + mr_count i * ((mpi_n Y + 1) * 4) \<le> 16 * (LB ^ 4 - 1)"
      by (intro le_trans [OF _ rs(2)]) (simp add: x(5))
    ultimately obtain rs' where
      "mr_rounds al encrypt Y W R' 0 (mr_count i) (mpi_init, mpi_init, mpi_init, rs) = ok (True, rs')"
      using mr_rounds_prime [OF al enc x(3,7,2) x3 x(8) W(2) _ _ _ _ _ rs(1), of R' mpi_init mpi_init "mr_count i" 0 mpi_init]
      by (auto simp: mpi_init_def)
    then show ?thesis using nz lo v(1) x(4) 2 W(1) R(1) i s
      by (simp add: mpi_is_prime_def Let_def Y_def [symmetric] R'_def [symmetric])
  qed
qed

lemma is_prime_rejects:
  assumes "mpi_ok X" "nval (mpi_p X) \<noteq> 0"
    and "even (nval (mpi_p X)) \<or> (\<exists>p \<in> set (takeWhile (\<lambda>p. 0 < p) small_prime). p < int (nval (mpi_p X)) \<and> p dvd int (nval (mpi_p X)))"
  shows "mpi_is_prime al encrypt X rs = ok (False, X\<lparr>mpi_s := 1\<rparr>, rs)"
proof -
  have nz: "mpi_cmp_int X 0 \<noteq> 0" using mpi_cmp_int_0 [OF assms(1)] assms(1,2) by (auto simp: mpi_defs)
  have p: "mpi_p X \<noteq> []" using assms(2) by auto
  from trial_ok [of "X\<lparr>mpi_s := 1\<rparr>", OF _ _ small_prime_bound] p assms(3) small_prime_sorted
  have "even (nval (mpi_p X)) \<or> is_prime_trial (X\<lparr>mpi_s := 1\<rparr>) small_prime = ok (Some False)" by fastforce
  then show ?thesis using nz p low_bit [OF p] by (auto simp: mpi_is_prime_def Let_def)
qed

end
