(* ===== verification/RsaOk.thy ===== *)
theory RsaOk
  imports Rsa MpiPrimeOk
begin

text \<open>
  What the RSA operations compute: the public and the private operation as powers modulo the
  key, and their being inverse to each other for a valid key.
\<close>

unbundle bit_operations_syntax

subsection \<open>Numbers as byte strings\<close>

lemma be_bytes_pad: "v < 256 ^ n \<Longrightarrow> n \<le> k \<Longrightarrow> be_bytes k v = replicate (k - n) 0 @ be_bytes n v"
  using be_bytes_val [of "replicate (k - n) 0 @ be_bytes n v"]
  by (simp add: be_val_append be_val_bytes)

lemma rsa_write_ok:
  assumes "nval (mpi_p T) < 256 ^ len" "len \<le> length output"
  shows "rsa_write T output len = ok (if nval (mpi_p T) = 0 then output else overwrite output 0 (be_bytes len (nval (mpi_p T))))"
proof (cases "nval (mpi_p T) = 0")
  case True
  then have "mpi_size T = Some 0" by (simp add: mpi_size_0)
  then show ?thesis using True assms(2) by (simp add: rsa_write_def mpi_write_binary_def overwrite_def)
next
  case False
  from mpi_size_ok [of T] obtain n where
    n: "mpi_size T = Some n" "nval (mpi_p T) < 256 ^ n" "0 < n \<longrightarrow> 256 ^ (n - 1) \<le> nval (mpi_p T)" by auto
  have nl: "n \<le> len"
  proof (rule ccontr)
    assume "\<not> n \<le> len"
    then have "(256 :: nat) ^ len \<le> 256 ^ (n - 1)" by (intro power_increasing) auto
    also have "\<dots> \<le> nval (mpi_p T)" using n(3) \<open>\<not> n \<le> len\<close> by (simp only: not_le)
    finally show False using assms(1) by simp
  qed
  then have "mpi_write_binary T (take len output) = Some (0, T, be_bytes len (nval (mpi_p T)))"
    unfolding be_bytes_pad [OF n(2) nl]
    using mpi_write_binary_ok [OF n(1) _ False, of "take len output"] assms(2) by simp
  then show ?thesis using False assms(2) by (simp add: rsa_write_def)
qed

subsection \<open>Keys\<close>

text \<open>A cached square of the Montgomery radix is right, or not there yet.\<close>

definition cache_ok :: "mpi \<Rightarrow> mpi \<Rightarrow> bool" where
  "cache_ok N RR \<longleftrightarrow> mpi_p RR = [] \<or> RR_ok N RR"

definition public_key :: "rsa_context \<Rightarrow> bool" where
  "public_key ctx \<longleftrightarrow> mpi_s (ctx_N ctx) = 1 \<and> odd (nval (mpi_p (ctx_N ctx))) \<and> 1 < nval (mpi_p (ctx_N ctx))
    \<and> mpi_p (ctx_E ctx) \<noteq> [] \<and> cache_ok (ctx_N ctx) (ctx_RN ctx)
    \<and> 0 < ctx_len ctx \<and> 256 ^ (ctx_len ctx - 1) \<le> nval (mpi_p (ctx_N ctx)) \<and> nval (mpi_p (ctx_N ctx)) < 256 ^ ctx_len ctx"

definition private_key :: "rsa_context \<Rightarrow> bool" where
  "private_key ctx \<longleftrightarrow> (let N = nval (mpi_p (ctx_N ctx)); E = nval (mpi_p (ctx_E ctx));
      P = nval (mpi_p (ctx_P ctx)); Q = nval (mpi_p (ctx_Q ctx)) in
    mpi_s (ctx_P ctx) = 1 \<and> mpi_s (ctx_Q ctx) = 1 \<and> mpi_s (ctx_QP ctx) = 1
    \<and> mpi_p (ctx_DP ctx) \<noteq> [] \<and> mpi_p (ctx_DQ ctx) \<noteq> []
    \<and> cache_ok (ctx_P ctx) (ctx_RP ctx) \<and> cache_ok (ctx_Q ctx) (ctx_RQ ctx)
    \<and> prime_num P \<and> prime_num Q \<and> P \<noteq> Q \<and> N = P * Q
    \<and> E * nval (mpi_p (ctx_DP ctx)) mod (P - 1) = 1 \<and> E * nval (mpi_p (ctx_DQ ctx)) mod (Q - 1) = 1
    \<and> Q * nval (mpi_p (ctx_QP ctx)) mod P = 1)"

lemma read_number:
  assumes "\<forall>k. al k" "0 < len" "len \<le> length input"
  shows "\<exists>T. mpi_read_binary al mpi_init (take len input) = ok T \<and> mpi_s T = 1 \<and> nval (mpi_p T) = be_val (take len input)"
proof -
  have "take len input \<noteq> []" using assms(2,3) by auto
  from gives_total [OF gives_read_binary [OF this] assms(1)] show ?thesis by blast
qed

text \<open>The bytes an operation leaves in its output: a zero result writes nothing.\<close>

definition put_number :: "nat \<Rightarrow> bytes \<Rightarrow> nat \<Rightarrow> bytes" where
  "put_number len output v = (if v = 0 then output else overwrite output 0 (be_bytes len v))"

lemma rsa_public_ok:
  assumes al: "\<forall>k. al k" and key: "public_key ctx" and len: "ctx_len ctx \<le> length input" "ctx_len ctx \<le> length output"
  defines "m \<equiv> be_val (take (ctx_len ctx) input)" and "n \<equiv> nval (mpi_p (ctx_N ctx))"
  shows "if n \<le> m then rsa_public al ctx input output = err POLARSSL_ERR_RSA_BAD_INPUT_DATA
    else \<exists>RR. rsa_public al ctx input output =
      ok (ctx\<lparr>ctx_RN := RR\<rparr>, put_number (ctx_len ctx) output (m ^ nval (mpi_p (ctx_E ctx)) mod n)) \<and> RR_ok (ctx_N ctx) RR"
proof -
  note k = key [unfolded public_key_def]
  from read_number [OF al _ len(1)] k obtain T where
    T: "mpi_read_binary al mpi_init (take (ctx_len ctx) input) = ok T" "mpi_s T = 1" "nval (mpi_p T) = m"
    by (auto simp: m_def)
  have cmp: "0 \<le> mpi_cmp_mpi T (ctx_N ctx) \<longleftrightarrow> n \<le> m" using cmp_positive T k by (simp add: n_def)
  show ?thesis
  proof (cases "n \<le> m")
    case True
    then show ?thesis using T(1) cmp len by (simp add: rsa_public_def cleanup_def)
  next
    case False
    have "\<forall>RR. Some (ctx_RN ctx) = Some RR \<longrightarrow> mpi_p RR = [] \<or> RR_ok (ctx_N ctx) RR" using k by (simp add: cache_ok_def)
    from mpi_exp_mod_ok [OF al, of T This "ctx_E ctx" "ctx_N ctx", OF _ _ _ _ _ this] T k obtain X RR where
      X: "mpi_exp_mod al T This (ctx_E ctx) (ctx_N ctx) (Some (ctx_RN ctx)) = ok (X, Some RR)"
      "nval (mpi_p X) = m ^ nval (mpi_p (ctx_E ctx)) mod n" "RR_ok (ctx_N ctx) RR"
      by (auto simp: n_def)
    have "n < 256 ^ ctx_len ctx" "0 < n" using k by (simp_all add: n_def)
    then have "nval (mpi_p X) < 256 ^ ctx_len ctx" unfolding X(2) using mod_less_divisor less_trans by blast
    from rsa_write_ok [OF this len(2)] X(2)
    have "rsa_write X output (ctx_len ctx) = ok (put_number (ctx_len ctx) output (m ^ nval (mpi_p (ctx_E ctx)) mod n))"
      by (simp add: put_number_def)
    then show ?thesis
      using T(1) X(1,3) False cmp len by (auto simp: rsa_public_def cleanup_def Let_def)
  qed
qed

subsection \<open>The private operation\<close>

lemma missing_le:
  assumes "nval a \<le> nval b"
  shows "missing n a b = 0"
proof -
  let ?j = "scan_all b (length b)"
  have "a ! ?j \<noteq> - 1" if "?j < length a"
  proof
    assume "a ! ?j = - 1"
    then have "LB ^ ?j \<le> nval a" using that by (intro nval_top) simp_all
    then show False using assms scan_all_less [of b] by linarith
  qed
  then show ?thesis by (auto simp: missing_def carry_lost_def Let_def)
qed

lemma sub_nonneg_sign:
  assumes "mpi_sub_mpi al X (That A) (That B) = ok Y" "mpi_s A = 1" "mpi_s B = 1" "nval (mpi_p B) \<le> nval (mpi_p A)"
  shows "mpi_s Y = 1"
  using assms by (auto simp: mpi_sub_mpi_def Let_def MPI_CHK_ok)

lemma mod_call_value:
  assumes al: "\<forall>k. al k" and A: "mpi_ok A" "nval (mpi_p A) = 0 \<longrightarrow> mpi_s A = 1"
    and N: "mpi_s N = 1" "nval (mpi_p N) \<noteq> 0"
  shows "\<exists>V. mod_call al R (That A) N = ok V \<and> mpi_s V = 1 \<and> mval V = mval A mod mval N"
  using mpi_mod_ok [OF al, of "(\<lambda>_. mpi_init)(0 := R, 1 := A, 2 := N)" 1 2 0] A N
  by (auto simp: mod_call_def)

text \<open>Garner's recombination of the two powers, as \<open>rsa_private\<close> does it.\<close>

lemma recombine_ok:
  assumes al: "\<forall>k. al k" and T1: "mpi_s T1 = 1" and T2: "mpi_s T2 = 1" "nval (mpi_p T2) < nval (mpi_p Q)"
    and P: "mpi_s P = 1" "nval (mpi_p P) \<noteq> 0" and Q: "mpi_s Q = 1" and QP: "mpi_s QP = 1" "nval (mpi_p QP) \<noteq> 0"
  shows "\<exists>S S1 T' S2 T''. mpi_sub_mpi al T (That T1) (That T2) = ok S \<and> mpi_mul_mpi al T1 (That S) (That QP) = ok S1
    \<and> mod_call al S (That S1) P = ok T' \<and> mpi_mul_mpi al S1 (That T') (That Q) = ok S2
    \<and> mpi_add_mpi al T' (That T2) (That S2) = ok T''
    \<and> int (nval (mpi_p T'')) = mval T2 + mval Q * ((mval T1 - mval T2) * mval QP mod mval P)"
proof -
  have ok: "mpi_ok T1" "mpi_ok T2" "mpi_ok Q" "mpi_ok QP" using T1 T2 Q QP by (simp_all add: mpi_ok_def)
  from gives_total [OF gives_sub_mpi [of T "That T1" "That T2" al] al] ok obtain S where
    S: "mpi_sub_mpi al T (That T1) (That T2) = ok S" "mpi_ok S" "mval S = mval T1 - mval T2" using T1 T2 by auto
  have S0: "mpi_s S = 1" if "nval (mpi_p S) = 0"
    using sub_nonneg_sign [OF S(1) T1 T2(1)] S(3) that T1 T2(1) by (simp add: mval_def)
  from gives_total [OF gives_mul_mpi [of al T1 "That S" "That QP"] al] obtain S1 where
    S1: "mpi_mul_mpi al T1 (That S) (That QP) = ok S1" "mpi_s S1 = mpi_s S"
    "nval (mpi_p S1) = nval (mpi_p S) * nval (mpi_p QP)" using QP(1) by auto
  have mS1: "mval S1 = (mval T1 - mval T2) * mval QP" using S1(2,3) S(3) QP(1) by (simp add: mval_def)
  have "mpi_ok S1" "nval (mpi_p S1) = 0 \<longrightarrow> mpi_s S1 = 1" using S1 S(2) S0 QP by (auto simp: mpi_ok_def)
  from mod_call_value [OF al this P] obtain T' where
    T': "mod_call al S (That S1) P = ok T'" "mpi_s T' = 1" "mval T' = (mval T1 - mval T2) * mval QP mod mval P"
    using mS1 by auto
  from gives_total [OF gives_mul_mpi [of al S1 "That T'" "That Q"] al] obtain S2 where
    S2: "mpi_mul_mpi al S1 (That T') (That Q) = ok S2" "mpi_s S2 = 1"
    "nval (mpi_p S2) = nval (mpi_p T') * nval (mpi_p Q)" using Q T'(2) by auto
  have "add_missing T' (That T2) (That S2) = 0"
  proof (cases "nval (mpi_p T') = 0")
    case True
    then show ?thesis using S2(3) by (simp add: add_missing_def add_order_def missing_zero)
  next
    case False
    then have "nval (mpi_p Q) * 1 \<le> nval (mpi_p Q) * nval (mpi_p T')" by (intro mult_left_mono) simp_all
    also have "\<dots> = nval (mpi_p S2)" using S2(3) by simp
    finally show ?thesis using T2(2) by (simp add: add_missing_def add_order_def missing_le)
  qed
  with gives_total [OF gives_add_mpi [of T' "That T2" "That S2" al] al] ok(2) S2(2) obtain T'' where
    T'': "mpi_add_mpi al T' (That T2) (That S2) = ok T''" "mpi_ok T''" "mval T'' = mval T2 + mval S2"
    by (auto simp: mpi_ok_def)
  have "mval S2 = mval Q * mval T'" using S2(2,3) T'(2) Q by (simp add: mval_def)
  moreover have "int (nval (mpi_p T'')) = mval T''"
    using nval_abs [OF T''(2)] T''(3) T2(1) S2(2) by (simp add: mval_def)
  ultimately show ?thesis using S(1) S1(1) T'(1,3) S2(1) T''(1,3) by auto
qed

lemma private_prime_odd:
  assumes "public_key ctx" "private_key ctx"
  shows "odd (nval (mpi_p (ctx_P ctx)))" "odd (nval (mpi_p (ctx_Q ctx)))"
    "1 < nval (mpi_p (ctx_P ctx))" "1 < nval (mpi_p (ctx_Q ctx))"
  using assms by (auto simp: public_key_def private_key_def Let_def prime_num_def)

lemma private_powers:
  assumes al: "\<forall>k. al k" and key: "public_key ctx" "private_key ctx" and T: "mpi_s T = 1"
  shows "\<exists>T1 RP T2 RQ.
    mpi_exp_mod al mpi_init (That T) (ctx_DP ctx) (ctx_P ctx) (Some (ctx_RP ctx)) = ok (T1, Some RP) \<and> mpi_s T1 = 1
    \<and> nval (mpi_p T1) = nval (mpi_p T) ^ nval (mpi_p (ctx_DP ctx)) mod nval (mpi_p (ctx_P ctx)) \<and> RR_ok (ctx_P ctx) RP
    \<and> mpi_exp_mod al mpi_init (That T) (ctx_DQ ctx) (ctx_Q ctx) (Some (ctx_RQ ctx)) = ok (T2, Some RQ) \<and> mpi_s T2 = 1
    \<and> nval (mpi_p T2) = nval (mpi_p T) ^ nval (mpi_p (ctx_DQ ctx)) mod nval (mpi_p (ctx_Q ctx)) \<and> RR_ok (ctx_Q ctx) RQ"
proof -
  note k = key(2) [unfolded private_key_def Let_def]
  note odd = private_prime_odd [OF key]
  have rr: "\<forall>RR. Some (ctx_RP ctx) = Some RR \<longrightarrow> mpi_p RR = [] \<or> RR_ok (ctx_P ctx) RR"
    "\<forall>RR. Some (ctx_RQ ctx) = Some RR \<longrightarrow> mpi_p RR = [] \<or> RR_ok (ctx_Q ctx) RR" using k by (simp_all add: cache_ok_def)
  have s: "mpi_s (ctx_P ctx) = 1" "mpi_s (ctx_Q ctx) = 1" "mpi_p (ctx_DP ctx) \<noteq> []" "mpi_p (ctx_DQ ctx) \<noteq> []"
    using k by simp_all
  have A: "mpi_s (opnd mpi_init (That T)) = 1" using T by simp
  from mpi_exp_mod_ok [OF al A s(3) s(1) odd(1,3) rr(1)] mpi_exp_mod_ok [OF al A s(4) s(2) odd(2,4) rr(2)]
  show ?thesis by auto
qed

lemma rsa_private_ok:
  assumes al: "\<forall>k. al k" and key: "public_key ctx" "private_key ctx"
    and len: "ctx_len ctx \<le> length input" "ctx_len ctx \<le> length output"
  defines "m \<equiv> be_val (take (ctx_len ctx) input)" and "n \<equiv> nval (mpi_p (ctx_N ctx))"
    and "p \<equiv> nval (mpi_p (ctx_P ctx))" and "q \<equiv> nval (mpi_p (ctx_Q ctx))"
  shows "if n \<le> m then rsa_private al ctx input output = err POLARSSL_ERR_RSA_BAD_INPUT_DATA
    else \<exists>RP RQ x. rsa_private al ctx input output =
      ok (ctx\<lparr>ctx_RP := RP, ctx_RQ := RQ\<rparr>, put_number (ctx_len ctx) output x)
      \<and> RR_ok (ctx_P ctx) RP \<and> RR_ok (ctx_Q ctx) RQ
      \<and> x < n \<and> x mod p = m ^ nval (mpi_p (ctx_DP ctx)) mod p \<and> x mod q = m ^ nval (mpi_p (ctx_DQ ctx)) mod q"
proof -
  note k = key(1) [unfolded public_key_def] key(2) [unfolded private_key_def Let_def]
  note odd = private_prime_odd [OF key]
  have len0: "0 < ctx_len ctx" and N: "mpi_s (ctx_N ctx) = 1" "n = p * q" and Nl: "n < 256 ^ ctx_len ctx"
    using k by (simp_all add: n_def p_def q_def)
  from read_number [OF al len0 len(1)] obtain T where
    T: "mpi_read_binary al mpi_init (take (ctx_len ctx) input) = ok T" "mpi_s T = 1" "nval (mpi_p T) = m"
    by (auto simp: m_def)
  have cmp: "0 \<le> mpi_cmp_mpi T (ctx_N ctx) \<longleftrightarrow> n \<le> m" using cmp_positive [OF T(2) N(1)] T(3) by (simp add: n_def)
  show ?thesis
  proof (cases "n \<le> m")
    case True
    then show ?thesis using T(1) cmp len by (simp add: rsa_private_def cleanup_def)
  next
    case False
    have s: "mpi_s (ctx_P ctx) = 1" "mpi_s (ctx_Q ctx) = 1" "mpi_s (ctx_QP ctx) = 1"
      "mpi_p (ctx_DP ctx) \<noteq> []" "mpi_p (ctx_DQ ctx) \<noteq> []"
      "q * nval (mpi_p (ctx_QP ctx)) mod p = 1" using k by (simp_all add: p_def q_def)
    from private_powers [OF al key T(2)] obtain T1 RP T2 RQ where
      T1: "mpi_exp_mod al mpi_init (That T) (ctx_DP ctx) (ctx_P ctx) (Some (ctx_RP ctx)) = ok (T1, Some RP)"
      "mpi_s T1 = 1" "nval (mpi_p T1) = m ^ nval (mpi_p (ctx_DP ctx)) mod p" "RR_ok (ctx_P ctx) RP" and
      T2: "mpi_exp_mod al mpi_init (That T) (ctx_DQ ctx) (ctx_Q ctx) (Some (ctx_RQ ctx)) = ok (T2, Some RQ)"
      "mpi_s T2 = 1" "nval (mpi_p T2) = m ^ nval (mpi_p (ctx_DQ ctx)) mod q" "RR_ok (ctx_Q ctx) RQ"
      unfolding T(3) p_def [symmetric] q_def [symmetric] by blast
    have pq: "1 < p" "1 < q" using odd by (simp_all add: p_def q_def)
    have lt: "nval (mpi_p T2) < nval (mpi_p (ctx_Q ctx))" using T2(3) pq by (simp add: q_def)
    have "nval (mpi_p (ctx_P ctx)) \<noteq> 0" "nval (mpi_p (ctx_QP ctx)) \<noteq> 0"
      using odd(3) s(6) by (auto intro: gr0I)
    from recombine_ok [OF al T1(2) T2(2) lt s(1) this(1) s(2,3) this(2), of T] obtain S S1 T' S2 X where
      X: "mpi_sub_mpi al T (That T1) (That T2) = ok S" "mpi_mul_mpi al T1 (That S) (That (ctx_QP ctx)) = ok S1"
      "mod_call al S (That S1) (ctx_P ctx) = ok T'" "mpi_mul_mpi al S1 (That T') (That (ctx_Q ctx)) = ok S2"
      "mpi_add_mpi al T' (That T2) (That S2) = ok X"
      "int (nval (mpi_p X)) = mval T2 + mval (ctx_Q ctx) * ((mval T1 - mval T2) * mval (ctx_QP ctx) mod mval (ctx_P ctx))"
      by blast
    have "int (nval (mpi_p X)) = int (nval (mpi_p T2)) + int q * ((int (nval (mpi_p T1)) - int (nval (mpi_p T2)))
        * int (nval (mpi_p (ctx_QP ctx))) mod int p)"
      using X(6) T1(2) T2(2) s by (simp add: mval_def p_def q_def)
    note res = garner_nat [OF this s(6) pq(1) lt [folded q_def], folded N(2)]
    have "rsa_write X output (ctx_len ctx) = ok (put_number (ctx_len ctx) output (nval (mpi_p X)))"
      using rsa_write_ok [of X "ctx_len ctx" "output"] res(3) Nl len(2) by (simp add: put_number_def)
    then have "rsa_private al ctx input output =
        ok (ctx\<lparr>ctx_RP := RP, ctx_RQ := RQ\<rparr>, put_number (ctx_len ctx) output (nval (mpi_p X)))"
      using T(1) False cmp len T1(1) T2(1) X(1-5) by (simp add: rsa_private_def cleanup_def Let_def)
    moreover have "nval (mpi_p X) mod p = m ^ nval (mpi_p (ctx_DP ctx)) mod p"
      "nval (mpi_p X) mod q = m ^ nval (mpi_p (ctx_DQ ctx)) mod q" using res T1(3) T2(3) by simp_all
    ultimately show ?thesis using False T1(4) T2(4) res(3) by auto
  qed
qed

subsection \<open>The two operations are inverse\<close>

lemma power_both:
  assumes key: "private_key ctx" and n: "n = nval (mpi_p (ctx_N ctx))"
    and x: "x mod nval (mpi_p (ctx_P ctx)) = m ^ dp mod nval (mpi_p (ctx_P ctx))"
    "x mod nval (mpi_p (ctx_Q ctx)) = m ^ dq mod nval (mpi_p (ctx_Q ctx))"
    and e: "e * dp mod (nval (mpi_p (ctx_P ctx)) - 1) = 1" "e * dq mod (nval (mpi_p (ctx_Q ctx)) - 1) = 1"
    and m: "m < n"
  shows "x ^ e mod n = m"
proof -
  let ?p = "nval (mpi_p (ctx_P ctx))" and ?q = "nval (mpi_p (ctx_Q ctx))"
  have k: "prime_num ?p" "prime_num ?q" "?p \<noteq> ?q" "n = ?p * ?q" using key n by (simp_all add: private_key_def Let_def)
  have n0: "0 < n" using m by simp
  have power: "x ^ e mod r = m mod r" if "prime_num r" "x mod r = m ^ d mod r" "e * d mod (r - 1) = 1" for r d
  proof -
    have "x ^ e mod r = (m ^ d) ^ e mod r" using that(2) by (metis power_mod)
    then show ?thesis using key_exponents [OF that(1,3), of m] by (simp add: power_mult [symmetric] mult.commute)
  qed
  show ?thesis
  proof (rule crt_unique [OF primes_coprime [OF k(1-3)]])
    show "x ^ e mod n mod ?p = m mod ?p" using power [OF k(1) x(1) e(1)] k(4) by (simp add: mod_mod_cancel)
    show "x ^ e mod n mod ?q = m mod ?q" using power [OF k(2) x(2) e(2)] k(4) by (simp add: mod_mod_cancel)
    show "x ^ e mod n < ?p * ?q" "m < ?p * ?q" using m n0 k(4) by auto
  qed
qed

text \<open>The byte string of a message: not zero, and below the modulus.\<close>

definition message :: "rsa_context \<Rightarrow> bytes \<Rightarrow> bool" where
  "message ctx b \<longleftrightarrow> length b = ctx_len ctx \<and> 0 < be_val b \<and> be_val b < nval (mpi_p (ctx_N ctx))"

lemma keys_cached [simp]:
  "RR_ok (ctx_N ctx) RR \<Longrightarrow> public_key ctx \<Longrightarrow> public_key (ctx\<lparr>ctx_RN := RR\<rparr>)"
  "public_key (ctx\<lparr>ctx_RP := RP\<rparr>) \<longleftrightarrow> public_key ctx" "public_key (ctx\<lparr>ctx_RQ := RQ\<rparr>) \<longleftrightarrow> public_key ctx"
  "private_key (ctx\<lparr>ctx_RN := RR\<rparr>) \<longleftrightarrow> private_key ctx"
  "RR_ok (ctx_P ctx) RP \<Longrightarrow> RR_ok (ctx_Q ctx) RQ \<Longrightarrow> private_key ctx \<Longrightarrow> private_key (ctx\<lparr>ctx_RP := RP, ctx_RQ := RQ\<rparr>)"
  by (simp_all add: public_key_def private_key_def cache_ok_def Let_def)

lemma put_number_take:
  "0 < v \<Longrightarrow> len \<le> length out \<Longrightarrow> take len (put_number len out v) = be_bytes len v"
  "len \<le> length out \<Longrightarrow> length (put_number len out v) = length out"
  by (simp_all add: put_number_def overwrite_def)

lemma message_bytes: "message ctx b \<Longrightarrow> be_bytes (ctx_len ctx) (be_val b) = b"
  using be_bytes_val [of b] by (simp add: message_def)

text \<open>A message signed with the private operation comes back from the public one.\<close>

lemma public_private_ok:
  assumes al: "\<forall>k. al k" and key: "public_key ctx" "private_key ctx"
    and msg: "message ctx (take (ctx_len ctx) input)" "ctx_len ctx \<le> length input"
    and len: "ctx_len ctx \<le> length out" "ctx_len ctx \<le> length buf"
  shows "\<exists>ctx1 sig ctx2. rsa_private al ctx input out = ok (ctx1, sig) \<and> length sig = length out
    \<and> rsa_public al ctx1 sig buf = ok (ctx2, overwrite buf 0 (take (ctx_len ctx) input))
    \<and> public_key ctx1 \<and> private_key ctx1 \<and> ctx_len ctx1 = ctx_len ctx \<and> ctx_padding ctx1 = ctx_padding ctx
    \<and> ctx_padding ctx2 = ctx_padding ctx"
proof -
  let ?len = "ctx_len ctx" and ?n = "nval (mpi_p (ctx_N ctx))"
  let ?p = "nval (mpi_p (ctx_P ctx))" and ?q = "nval (mpi_p (ctx_Q ctx))" and ?e = "nval (mpi_p (ctx_E ctx))"
  define m where "m = be_val (take ?len input)"
  have m: "0 < m" "m < ?n" using msg(1) by (simp_all add: message_def m_def)
  from rsa_private_ok [OF al key msg(2) len(1)] m obtain RP RQ x where
    x: "rsa_private al ctx input out = ok (ctx\<lparr>ctx_RP := RP, ctx_RQ := RQ\<rparr>, put_number ?len out x)"
    "RR_ok (ctx_P ctx) RP" "RR_ok (ctx_Q ctx) RQ" "x < ?n"
    "x mod ?p = m ^ nval (mpi_p (ctx_DP ctx)) mod ?p" "x mod ?q = m ^ nval (mpi_p (ctx_DQ ctx)) mod ?q"
    by (auto simp: m_def)
  have e: "?e * nval (mpi_p (ctx_DP ctx)) mod (?p - 1) = 1" "?e * nval (mpi_p (ctx_DQ ctx)) mod (?q - 1) = 1"
    using key(2) by (simp_all add: private_key_def Let_def)
  have xe: "x ^ ?e mod ?n = m" by (rule power_both [OF key(2) refl x(5,6) e m(2)])
  have "?e \<noteq> 0" using e(1) by (auto intro: gr0I)
  then have x0: "0 < x" using xe m(1) by (cases "x = 0") (auto simp: power_0_left)
  define ctx1 where "ctx1 = ctx\<lparr>ctx_RP := RP, ctx_RQ := RQ\<rparr>"
  define sig where "sig = put_number ?len out x"
  have k1: "public_key ctx1" "private_key ctx1" using key x(2,3) by (simp_all add: ctx1_def)
  have sig: "take ?len sig = be_bytes ?len x" "length sig = length out"
    using put_number_take(1) [of x "ctx_len ctx" out] put_number_take(2) [of "ctx_len ctx" out x] x0 len(1) by (simp_all add: sig_def)
  have "?n < 256 ^ ?len" using key(1) by (simp add: public_key_def)
  then have "be_val (take (ctx_len ctx1) sig) = x" using x(4) sig(1) by (simp add: be_val_bytes ctx1_def)
  with rsa_public_ok [OF al k1(1), of sig buf] len sig(2) x(4) xe m(1) obtain ctx2 where
    "rsa_public al ctx1 sig buf = ok (ctx2, put_number ?len buf m)" "ctx_padding ctx2 = ctx_padding ctx"
    by (auto simp: ctx1_def)
  moreover have "put_number ?len buf m = overwrite buf 0 (take ?len input)"
    using m(1) message_bytes [OF msg(1)] by (simp add: put_number_def m_def)
  ultimately show ?thesis using x(1) k1 sig(2) by (auto simp: ctx1_def sig_def)
qed

lemma power_back:
  assumes key: "private_key ctx" and c: "c = m ^ nval (mpi_p (ctx_E ctx)) mod nval (mpi_p (ctx_N ctx))"
    and x: "x mod nval (mpi_p (ctx_P ctx)) = c ^ nval (mpi_p (ctx_DP ctx)) mod nval (mpi_p (ctx_P ctx))"
    "x mod nval (mpi_p (ctx_Q ctx)) = c ^ nval (mpi_p (ctx_DQ ctx)) mod nval (mpi_p (ctx_Q ctx))"
    "x < nval (mpi_p (ctx_N ctx))" and m: "m < nval (mpi_p (ctx_N ctx))"
  shows "x = m"
proof -
  let ?n = "nval (mpi_p (ctx_N ctx))" and ?p = "nval (mpi_p (ctx_P ctx))" and ?q = "nval (mpi_p (ctx_Q ctx))"
  let ?e = "nval (mpi_p (ctx_E ctx))"
  have k: "prime_num ?p" "prime_num ?q" "?p \<noteq> ?q" "?n = ?p * ?q"
    "?e * nval (mpi_p (ctx_DP ctx)) mod (?p - 1) = 1" "?e * nval (mpi_p (ctx_DQ ctx)) mod (?q - 1) = 1"
    using key by (simp_all add: private_key_def Let_def)
  have red: "x mod r = m mod r" if "prime_num r" "r dvd ?n" "x mod r = c ^ d mod r" "?e * d mod (r - 1) = 1" for r d
  proof -
    have "c mod r = m ^ ?e mod r" using that(2) by (simp add: c mod_mod_cancel)
    then have "c ^ d mod r = m ^ (?e * d) mod r" by (metis power_mod power_mult)
    then show ?thesis using key_exponents [OF that(1,4), of m] that(3) by simp
  qed
  show ?thesis
  proof (rule crt_unique [OF primes_coprime [OF k(1-3)]])
    show "x mod ?p = m mod ?p" using red [OF k(1) _ x(1) k(5)] k(4) by simp
    show "x mod ?q = m mod ?q" using red [OF k(2) _ x(2) k(6)] k(4) by simp
  qed (use m x(3) k(4) in simp_all)
qed

text \<open>A message encrypted with the public operation comes back from the private one.\<close>

lemma private_public_ok:
  assumes al: "\<forall>k. al k" and key: "public_key ctx" "private_key ctx"
    and msg: "message ctx (take (ctx_len ctx) input)" "ctx_len ctx \<le> length input"
    and len: "ctx_len ctx \<le> length out" "ctx_len ctx \<le> length buf"
  shows "\<exists>ctx1 sig ctx2. rsa_public al ctx input out = ok (ctx1, sig) \<and> length sig = length out
    \<and> rsa_private al ctx1 sig buf = ok (ctx2, overwrite buf 0 (take (ctx_len ctx) input))
    \<and> public_key ctx1 \<and> private_key ctx1 \<and> ctx_len ctx1 = ctx_len ctx \<and> ctx_padding ctx1 = ctx_padding ctx
    \<and> ctx_padding ctx2 = ctx_padding ctx"
proof -
  let ?len = "ctx_len ctx" and ?n = "nval (mpi_p (ctx_N ctx))" and ?e = "nval (mpi_p (ctx_E ctx))"
  let ?p = "nval (mpi_p (ctx_P ctx))" and ?q = "nval (mpi_p (ctx_Q ctx))"
  define m where "m = be_val (take ?len input)"
  define c where "c = m ^ ?e mod ?n"
  have m: "0 < m" "m < ?n" using msg(1) by (simp_all add: message_def m_def)
  have d: "nval (mpi_p (ctx_DP ctx)) \<noteq> 0" "nval (mpi_p (ctx_DQ ctx)) \<noteq> 0"
    using key(2) by (auto simp: private_key_def Let_def intro: gr0I)
  have "0 = m" if "c = 0"
    by (rule power_back [OF key(2) c_def]) (use that d m in \<open>simp_all add: power_0_left\<close>)
  then have c: "0 < c" "c < ?n" using m by (auto simp: c_def)
  from rsa_public_ok [OF al key(1) msg(2) len(1)] m obtain RR where
    x: "rsa_public al ctx input out = ok (ctx\<lparr>ctx_RN := RR\<rparr>, put_number ?len out c)" "RR_ok (ctx_N ctx) RR"
    by (auto simp: m_def c_def)
  define ctx1 where "ctx1 = ctx\<lparr>ctx_RN := RR\<rparr>"
  define sig where "sig = put_number ?len out c"
  have k1: "public_key ctx1" "private_key ctx1" using key x(2) by (simp_all add: ctx1_def)
  have sig: "take ?len sig = be_bytes ?len c" "length sig = length out"
    using put_number_take(1) [of c "ctx_len ctx" out] put_number_take(2) [of "ctx_len ctx" out c] c len(1) by (simp_all add: sig_def)
  have "?n < 256 ^ ?len" using key(1) by (simp add: public_key_def)
  then have v: "be_val (take (ctx_len ctx1) sig) = c" using c(2) sig(1) by (simp add: be_val_bytes ctx1_def)
  from rsa_private_ok [OF al k1, of sig buf] len sig(2) c(2) obtain ctx2 y where
    y: "rsa_private al ctx1 sig buf = ok (ctx2, put_number ?len buf y)" "ctx_padding ctx2 = ctx_padding ctx"
    "y mod ?p = c ^ nval (mpi_p (ctx_DP ctx)) mod ?p" "y mod ?q = c ^ nval (mpi_p (ctx_DQ ctx)) mod ?q" "y < ?n"
    unfolding v by (auto simp: ctx1_def)
  have "y = m" by (rule power_back [OF key(2) c_def y(3-5) m(2)])
  moreover have "put_number ?len buf m = overwrite buf 0 (take ?len input)"
    using m(1) message_bytes [OF msg(1)] by (simp add: put_number_def m_def)
  ultimately show ?thesis using x(1) y(1,2) k1 sig(2) by (auto simp: ctx1_def sig_def)
qed

end
