(* ===== verification/RsaPkcs.thy ===== *)
theory RsaPkcs
  imports RsaOk
begin

text \<open>
  The PKCS#1 blocks of \<open>src/common/crypto/rsa.cpp\<close>: what the padding code writes and what the
  checking code accepts, the basis of the round trips of signatures and encryption.
\<close>

unbundle bit_operations_syntax

subsection \<open>Writing a block piece by piece\<close>

lemma overwrite_next:
  "length xs = i \<Longrightarrow> i + length ys \<le> length b \<Longrightarrow> overwrite (overwrite b 0 xs) i ys = overwrite b 0 (xs @ ys)"
  by (simp add: overwrite_def add.commute)

lemma wr_next:
  "length xs = i \<Longrightarrow> i < length b \<Longrightarrow> wr (overwrite b 0 xs) i v = Some (overwrite b 0 (xs @ [v]))"
  using overwrite_next [of xs i "[v]" b] by (simp add: wr_def overwrite_single)

lemma memset_next:
  "length xs = i \<Longrightarrow> i + n \<le> length b \<Longrightarrow> lite_memset (overwrite b 0 xs) i v n = Some (overwrite b 0 (xs @ replicate n v))"
  by (simp add: memset_spec overwrite_next)

lemma memcpy_next:
  "length xs = i \<Longrightarrow> i + n \<le> length b \<Longrightarrow> n \<le> length src
    \<Longrightarrow> lite_memcpy (overwrite b 0 xs) i src 0 n = Some (overwrite b 0 (xs @ take n src))"
  by (simp add: memcpy_spec overwrite_next)

lemma first_writes:
  assumes "2 \<le> length b"
  shows "wr b 0 x = Some (overwrite b 0 [x])" "wr (overwrite b 0 [x]) 1 y = Some (overwrite b 0 [x, y])"
proof -
  have "b \<noteq> []" using assms by auto
  then show "wr b 0 x = Some (overwrite b 0 [x])" "wr (overwrite b 0 [x]) 1 y = Some (overwrite b 0 [x, y])"
    using assms wr_next [of "[]" 0 b x] wr_next [of "[x]" 1 b y] by simp_all
qed

subsection \<open>Reading the padding\<close>

lemma pad_end_skip:
  assumes "\<forall>i. j \<le> i \<and> i < k \<longrightarrow> buf ! i \<noteq> 0 \<and> \<not> bad (buf ! i)" "buf ! k = 0" "j \<le> k" "k < len" "len \<le> length buf"
  shows "pad_end bad buf len j = ok (k + 1)"
  using assms
proof (induction "k - j" arbitrary: j)
  case 0
  then show ?case by (subst pad_end.simps) simp
next
  case (Suc d)
  then have "pad_end bad buf len j = pad_end bad buf len (j + 1)"
    by (subst pad_end.simps) (simp add: Suc_le_eq)
  also have "\<dots> = ok (k + 1)" using Suc by (intro Suc.hyps(1)) auto
  finally show ?case .
qed

definition pkcs_block :: "u8 \<Rightarrow> bytes \<Rightarrow> bytes \<Rightarrow> bytes" where
  "pkcs_block t pad data = [0, t] @ pad @ [0] @ data"

lemma length_pkcs_block [simp]: "length (pkcs_block t pad data) = length pad + length data + 3"
  by (simp add: pkcs_block_def)

lemma block_read:
  assumes "take len buf = pkcs_block t pad data" "len \<le> length buf" "\<forall>v \<in> set pad. v \<noteq> 0 \<and> \<not> bad v"
  shows "buf ! 0 = 0" "buf ! 1 = t" "pad_end bad buf len 2 = ok (3 + length pad)"
    "drop (3 + length pad) (take len buf) = data" "len = length pad + length data + 3"
proof -
  have l: "len = length pad + length data + 3" using assms(1,2) by (metis length_pkcs_block length_take min.absorb2)
  then show "len = length pad + length data + 3" .
  have n: "buf ! i = pkcs_block t pad data ! i" if "i < len" for i using that assms(1) by (metis nth_take)
  show "buf ! 0 = 0" "buf ! 1 = t" using n [of 0] n [of 1] l by (simp_all add: pkcs_block_def)
  have "pad_end bad buf len 2 = ok (length pad + 2 + 1)"
    by (rule pad_end_skip) (use n l assms(2,3) in \<open>auto simp: pkcs_block_def nth_append nth_Cons' numeral_2_eq_2\<close>)
  then show "pad_end bad buf len 2 = ok (3 + length pad)" by (simp add: add.commute)
  show "drop (3 + length pad) (take len buf) = data" using assms(1) by (simp add: pkcs_block_def numeral_3_eq_3)
qed

lemma block_message:
  assumes "public_key ctx" "length (pkcs_block t pad data) = ctx_len ctx" "t \<noteq> 0"
  shows "message ctx (pkcs_block t pad data)"
proof -
  let ?rest = "pad @ [0] @ data"
  have v: "be_val (pkcs_block t pad data) = be_val (t # ?rest)" by (simp add: pkcs_block_def)
  have "length (t # ?rest) = ctx_len ctx - 1" using assms(2) by simp
  then have "be_val (t # ?rest) < 256 ^ (ctx_len ctx - 1)" using be_val_less [of "t # ?rest"] by metis
  moreover have "0 < be_val (t # ?rest)" using assms(3) by (simp add: unat_gt_0)
  ultimately show ?thesis using assms(1,2) v by (simp add: message_def public_key_def)
qed

subsection \<open>Signatures\<close>

text \<open>What is signed for a digest: the digest information, and the digests \<open>rsa_pkcs1_sign\<close> can sign.\<close>

definition digest_info :: "int \<Rightarrow> int \<Rightarrow> bytes \<Rightarrow> bytes" where
  "digest_info hash_id hashlen hash =
    (if hash_id = RSA_RAW then take (nat hashlen) hash
     else if hash_id = RSA_SHA1 then ASN1_HASH_SHA1 @ take 20 hash
     else ASN1_HASH_SHA256 @ take 32 hash)"

definition sign_input :: "int \<Rightarrow> int \<Rightarrow> bytes \<Rightarrow> bool" where
  "sign_input hash_id hashlen hash \<longleftrightarrow>
    hash_id = RSA_RAW \<and> 0 \<le> hashlen \<and> nat hashlen \<le> length hash
    \<or> hash_id = RSA_SHA1 \<and> 20 \<le> length hash \<or> hash_id = RSA_SHA256 \<and> 32 \<le> length hash"

text \<open>
  Raw data of 34 bytes are taken for the digest information of MD2, MD4 or MD5 when they are verified, and
  rejected unless they begin with the bytes of that.
\<close>

definition taken_for_mdx :: "int \<Rightarrow> int \<Rightarrow> bytes \<Rightarrow> bool" where
  "taken_for_mdx hash_id hashlen hash \<longleftrightarrow> hash_id = RSA_RAW \<and> hashlen = 34 \<and> take 18 hash \<noteq> ASN1_HASH_MDX"

definition signable :: "int \<Rightarrow> int \<Rightarrow> bytes \<Rightarrow> bool" where
  "signable hash_id hashlen hash \<longleftrightarrow>
    hash_id = RSA_RAW \<and> 0 \<le> hashlen \<and> nat hashlen \<le> length hash \<and> hashlen \<noteq> 34
    \<or> hash_id = RSA_SHA1 \<and> 20 \<le> length hash \<or> hash_id = RSA_SHA256 \<and> 32 \<le> length hash"

lemmas hash_ids = RSA_RAW_def RSA_MD2_def RSA_MD4_def RSA_MD5_def RSA_SHA1_def RSA_SHA256_def RSA_SHA512_def

lemma signable_input: "signable hash_id hashlen hash \<Longrightarrow> sign_input hash_id hashlen hash \<and> \<not> taken_for_mdx hash_id hashlen hash"
  by (auto simp: signable_def sign_input_def taken_for_mdx_def hash_ids)

lemma length_asn1 [simp]: "length ASN1_HASH_SHA1 = 15" "length ASN1_HASH_SHA256 = 19" "length ASN1_HASH_SHA512 = 19"
  by (simp_all add: ASN1_HASH_SHA1_def ASN1_HASH_SHA256_def ASN1_HASH_SHA512_def)

lemma sign_pad_info:
  "sign_input hash_id hashlen hash \<Longrightarrow> sign_pad olen hash_id hashlen = Some nb \<Longrightarrow>
    nb = int olen - 3 - int (length (digest_info hash_id hashlen hash))"
  by (auto simp: sign_input_def sign_pad_def digest_info_def hash_ids)

lemma sign_digest_ok:
  assumes s: "sign_input hash_id hashlen hash" and p: "length xs = p"
    "p + length (digest_info hash_id hashlen hash) \<le> length sig"
  shows "sign_digest hash_id hashlen hash (overwrite sig 0 xs) p
    = ok (overwrite sig 0 (xs @ digest_info hash_id hashlen hash))"
proof -
  have two: "lite_memcpy (overwrite sig 0 xs) p asn1 0 a \<bind> (\<lambda>sig. lite_memcpy sig (p + a) hash 0 h)
      = Some (overwrite sig 0 (xs @ asn1 @ take h hash))"
    if "length asn1 = a" "h \<le> length hash" "p + (a + h) \<le> length sig" for asn1 a h
    using memcpy_next [OF p(1), of a sig asn1] memcpy_next [of "xs @ asn1" "p + a" h sig hash] that p(1) by simp
  consider "hash_id = RSA_RAW" | "hash_id = RSA_SHA1" | "hash_id = RSA_SHA256" using s by (auto simp: sign_input_def)
  then show ?thesis
  proof cases
    case 1
    then show ?thesis using s p memcpy_next [OF p(1), of "nat hashlen" sig hash]
      by (auto simp: sign_digest_def sign_input_def digest_info_def hash_ids)
  next
    case 2
    then show ?thesis using s p two [of ASN1_HASH_SHA1 15 20]
      by (auto simp: sign_digest_def sign_input_def digest_info_def hash_ids)
  next
    case 3
    then show ?thesis using s p two [of ASN1_HASH_SHA256 19 32]
      by (auto simp: sign_digest_def sign_input_def digest_info_def hash_ids)
  qed
qed

definition sign_block :: "nat \<Rightarrow> int \<Rightarrow> int \<Rightarrow> bytes \<Rightarrow> bytes" where
  "sign_block olen hash_id hashlen hash =
    pkcs_block RSA_SIGN (replicate (olen - 3 - length (digest_info hash_id hashlen hash)) 0xFF) (digest_info hash_id hashlen hash)"

lemma sign_runs:
  assumes s: "sign_input hash_id hashlen hash" and pad: "sign_pad (ctx_len ctx) hash_id hashlen = Some nb" "8 \<le> nb"
    and sig: "ctx_len ctx \<le> length sig" and ctx: "ctx_padding ctx = RSA_PKCS_V15"
  shows "rsa_pkcs1_sign al ctx mode hash_id hashlen hash sig
    = (let sig = overwrite sig 0 (sign_block (ctx_len ctx) hash_id hashlen hash) in rsa_op al mode ctx sig sig)"
    "length (sign_block (ctx_len ctx) hash_id hashlen hash) = ctx_len ctx"
proof -
  let ?d = "digest_info hash_id hashlen hash" and ?n = "ctx_len ctx"
  have nb: "nb = int ?n - 3 - int (length ?d)" by (rule sign_pad_info [OF s pad(1)])
  then have n: "nat nb = ?n - 3 - length ?d" "?n = 3 + nat nb + length ?d" using pad(2) by simp_all
  show "length (sign_block ?n hash_id hashlen hash) = ?n" using n by (simp add: sign_block_def)
  have "2 \<le> length sig" using n sig by simp
  note w = first_writes(1) [OF this, of 0] first_writes(2) [OF this, of 0 RSA_SIGN]
  have a: "lite_memset (overwrite sig 0 [0, RSA_SIGN]) 2 0xFF (nat nb)
      = Some (overwrite sig 0 ([0, RSA_SIGN] @ replicate (nat nb) 0xFF))"
    using n sig by (intro memset_next) simp_all
  have b: "wr (overwrite sig 0 ([0, RSA_SIGN] @ replicate (nat nb) 0xFF)) (2 + nat nb) 0
      = Some (overwrite sig 0 (([0, RSA_SIGN] @ replicate (nat nb) 0xFF) @ [0]))"
    using n sig by (intro wr_next) simp_all
  have c: "sign_digest hash_id hashlen hash (overwrite sig 0 (([0, RSA_SIGN] @ replicate (nat nb) 0xFF) @ [0])) (3 + nat nb)
      = ok (overwrite sig 0 ((([0, RSA_SIGN] @ replicate (nat nb) 0xFF) @ [0]) @ ?d))"
    using n sig by (intro sign_digest_ok [OF s]) simp_all
  show "rsa_pkcs1_sign al ctx mode hash_id hashlen hash sig
    = (let sig = overwrite sig 0 (sign_block ?n hash_id hashlen hash) in rsa_op al mode ctx sig sig)"
    using ctx pad w a b c n(1) by (simp add: rsa_pkcs1_sign_def sign_block_def pkcs_block_def Let_def)
qed

lemma verify_part_ok:
  assumes "take (n + m) (drop p buf) = asn1 @ take m hash" "length asn1 = n" "m \<le> length hash" "p + n + m \<le> length buf"
  shows "verify_part buf p asn1 n hash m = Some 0"
proof -
  have "take n (drop p buf) = asn1" "take m (drop (p + n) buf) = take m hash"
    using arg_cong [OF assms(1), of "take n"] arg_cong [OF assms(1), of "drop n"] assms(2)
    by (simp_all add: drop_take add.commute)
  with memcmp_eq_0 [of p n buf 0 asn1] memcmp_eq_0 [of "p + n" m buf 0 hash] assms(2-4) show ?thesis
    by (auto simp: verify_part_def)
qed

lemma verify_raw_34:
  assumes d: "take 34 (drop p buf) = take 34 hash" and l: "34 \<le> length hash" "p + 34 \<le> length buf"
  shows "verify_digest buf p 34 RSA_RAW 34 hash =
    Some (if take 18 hash = ASN1_HASH_MDX then 0 else POLARSSL_ERR_RSA_VERIFY_FAILED)"
proof -
  let ?b = "buf[p + 13 := 0]" and ?h = "take 18 hash"
  have m: "length ASN1_HASH_MDX = 18" "ASN1_HASH_MDX ! 13 = 0" by (simp_all add: ASN1_HASH_MDX_def)
  have t34: "take 34 (drop p ?b) = (take 34 hash)[13 := 0]"
    using d by (simp add: drop_update_swap take_update_swap)
  have t18: "take 18 (drop p ?b) = ?h[13 := 0]"
    using arg_cong [OF t34, of "take 18"] by (simp add: take_update_swap min_def)
  from memcmp_eq_0 [of p 18 ?b 0 ASN1_HASH_MDX] l m(1) t18 obtain r where
    r: "lite_memcmp ?b p ASN1_HASH_MDX 0 18 = Some r" "r = 0 \<longleftrightarrow> ?h[13 := 0] = ASN1_HASH_MDX" by auto
  from memcmp_eq_0 [of p 34 ?b 0 hash] l t34 obtain q where
    q: "lite_memcmp ?b p hash 0 34 = Some q" "q = 0 \<longleftrightarrow> (take 34 hash)[13 := 0] = take 34 hash" by auto
  have z: "ys[13 := 0] = ys \<longleftrightarrow> ys ! 13 = 0" if "13 < length ys" for ys :: bytes
    using that by (metis list_update_id nth_list_update_eq)
  have "q = 0 \<longleftrightarrow> hash ! 13 = 0" using q(2) z [of "take 34 hash"] l(1) by simp
  moreover have h: "?h[13 := 0] = ?h \<longleftrightarrow> hash ! 13 = 0" "?h ! 13 = hash ! 13" using z [of ?h] l(1) by simp_all
  then have "?h[13 := 0] = ASN1_HASH_MDX \<and> hash ! 13 = 0 \<longleftrightarrow> ?h = ASN1_HASH_MDX" using m(2) by metis
  ultimately show ?thesis
    using r q(1) l(2) by (auto simp: verify_digest_def rd_def wr_def hash_ids Let_def)
qed

lemma verify_digest_code:
  assumes s: "sign_input hash_id hashlen hash" and d: "drop p (take len buf) = digest_info hash_id hashlen hash"
    and l: "p \<le> len" "len \<le> length buf"
  shows "verify_digest buf p (len - p) hash_id hashlen hash =
    Some (if taken_for_mdx hash_id hashlen hash then POLARSSL_ERR_RSA_VERIFY_FAILED else 0)"
proof -
  have d': "take (len - p) (drop p buf) = digest_info hash_id hashlen hash" using d by (simp add: drop_take)
  have len: "len - p = length (digest_info hash_id hashlen hash)" using arg_cong [OF d, of length] l by simp
  consider "hash_id = RSA_RAW" "hashlen = 34" | "hash_id = RSA_RAW" "hashlen \<noteq> 34" | "hash_id = RSA_SHA1" | "hash_id = RSA_SHA256"
    using s by (auto simp: sign_input_def)
  then show ?thesis
  proof cases
    case 1
    then have h: "34 \<le> length hash" "len - p = 34" using s len by (auto simp: sign_input_def digest_info_def hash_ids)
    with verify_raw_34 [of p buf hash] d' l 1 show ?thesis by (auto simp: digest_info_def taken_for_mdx_def)
  next
    case 2
    then have h: "0 \<le> hashlen" "nat hashlen \<le> length hash" "len - p = nat hashlen"
      using s len by (auto simp: sign_input_def digest_info_def hash_ids)
    with memcmp_eq_0 [of p "nat hashlen" buf 0 hash] d' l 2 show ?thesis
      by (auto simp: verify_digest_def digest_info_def taken_for_mdx_def hash_ids)
  next
    case 3
    then have h: "20 \<le> length hash" "len - p = 15 + 20"
      using s len by (auto simp: sign_input_def digest_info_def hash_ids)
    with verify_part_ok [of 15 20 p buf ASN1_HASH_SHA1 hash] d' l 3 show ?thesis
      by (simp add: verify_digest_def digest_info_def taken_for_mdx_def hash_ids)
  next
    case 4
    then have h: "32 \<le> length hash" "len - p = 19 + 32"
      using s len by (auto simp: sign_input_def digest_info_def hash_ids)
    with verify_part_ok [of 19 32 p buf ASN1_HASH_SHA256 hash] d' l 4 show ?thesis
      by (simp add: verify_digest_def digest_info_def taken_for_mdx_def hash_ids)
  qed
qed

text \<open>Whatever wrote it, a buffer with the block of a digest passes the check, raw data of 34 bytes excepted.\<close>

lemma verify_block_code:
  assumes s: "sign_input hash_id hashlen hash" and pad: "sign_pad n hash_id hashlen = Some nb" "8 \<le> nb"
    and len: "ctx_len ctx = n" "16 \<le> n" "n \<le> 512" and ctx: "ctx_padding ctx2 = RSA_PKCS_V15"
    and run: "rsa_op al mode ctx sig stack = ok (ctx2, buf)"
    and buf: "take n buf = sign_block n hash_id hashlen hash" "n \<le> length buf"
  shows "rsa_pkcs1_verify al stack ctx mode hash_id hashlen hash sig =
    (if taken_for_mdx hash_id hashlen hash then err POLARSSL_ERR_RSA_VERIFY_FAILED else ok ctx2)"
proof -
  let ?d = "digest_info hash_id hashlen hash"
  have nb: "nb = int n - 3 - int (length ?d)" by (rule sign_pad_info [OF s pad(1)])
  note b = block_read [of n buf RSA_SIGN "replicate (n - 3 - length ?d) 0xFF" ?d "\<lambda>v. v \<noteq> 0xFF",
      OF buf(1) [unfolded sign_block_def] buf(2)]
  have p: "3 + (n - 3 - length ?d) \<le> n" using nb pad(2) by simp
  have "verify_digest buf (3 + (n - 3 - length ?d)) (n - (3 + (n - 3 - length ?d))) hash_id hashlen hash =
      Some (if taken_for_mdx hash_id hashlen hash then POLARSSL_ERR_RSA_VERIFY_FAILED else 0)"
    using b(4) by (intro verify_digest_code [OF s _ p buf(2)]) simp
  then show ?thesis using len ctx run b(1-3) by (simp add: rsa_pkcs1_verify_def Let_def POLARSSL_ERR_RSA_VERIFY_FAILED_def)
qed

lemma sign_verify_code:
  assumes al: "\<forall>k. al k" and key: "public_key ctx" "private_key ctx" "ctx_padding ctx = RSA_PKCS_V15"
    and s: "sign_input hash_id hashlen hash" and pad: "sign_pad (ctx_len ctx) hash_id hashlen = Some nb" "8 \<le> nb"
    and len: "16 \<le> ctx_len ctx" "ctx_len ctx \<le> 512" "ctx_len ctx \<le> length sig" "length stack = 512"
  shows "\<exists>ctx1 sig' ctx2. rsa_pkcs1_sign al ctx RSA_PRIVATE hash_id hashlen hash sig = ok (ctx1, sig')
    \<and> rsa_pkcs1_verify al stack ctx1 RSA_PUBLIC hash_id hashlen hash sig' =
        (if taken_for_mdx hash_id hashlen hash then err POLARSSL_ERR_RSA_VERIFY_FAILED else ok ctx2)"
proof -
  define block where "block = sign_block (ctx_len ctx) hash_id hashlen hash"
  define sig1 where "sig1 = overwrite sig 0 block"
  note sign = sign_runs(1) [OF s pad len(3) key(3), of al RSA_PRIVATE, folded block_def, unfolded Let_def, folded sig1_def]
    sign_runs(2) [OF s pad len(3) key(3), folded block_def]
  have blk: "take (ctx_len ctx) sig1 = block" "length sig1 = length sig"
    using sign(2) len(3) by (simp_all add: sig1_def overwrite_def)
  have "message ctx block"
    unfolding block_def sign_block_def
    by (rule block_message [OF key(1)]) (use sign(2) in \<open>simp_all add: block_def sign_block_def RSA_SIGN_def\<close>)
  with public_private_ok [OF al key(1,2), of sig1 sig1 stack] blk len obtain ctx1 sig' ctx2 where
    r: "rsa_private al ctx sig1 sig1 = ok (ctx1, sig')" "rsa_public al ctx1 sig' stack = ok (ctx2, overwrite stack 0 block)"
    "ctx_len ctx1 = ctx_len ctx" "ctx_padding ctx2 = ctx_padding ctx" by auto
  have "rsa_pkcs1_verify al stack ctx1 RSA_PUBLIC hash_id hashlen hash sig' =
      (if taken_for_mdx hash_id hashlen hash then err POLARSSL_ERR_RSA_VERIFY_FAILED else ok ctx2)"
    by (rule verify_block_code [OF s pad, of ctx1 ctx2 al RSA_PUBLIC sig' stack "overwrite stack 0 block"])
      (use r key(3) len sign(2) in \<open>simp_all add: rsa_op_def block_def [symmetric] overwrite_def\<close>)
  moreover have "rsa_pkcs1_sign al ctx RSA_PRIVATE hash_id hashlen hash sig = ok (ctx1, sig')"
    using sign(1) r(1) by (simp add: rsa_op_def RSA_PRIVATE_def RSA_PUBLIC_def)
  ultimately show ?thesis by blast
qed

subsection \<open>Encryption\<close>

lemma nonzero_byte_ne:
  assumes "nonzero_byte encrypt rs = Some (v, rs')"
  shows "v \<noteq> 0"
proof -
  have "fst (v, rs') \<noteq> 0"
    by (rule nonzero_byte.raw_induct [where P = "\<lambda>_ _ r. fst r \<noteq> 0", OF _ assms])
      (auto split: option.splits if_splits prod.splits)
  then show ?thesis by simp
qed

lemma pad_random_next:
  assumes "pad_random encrypt n i (overwrite b 0 xs) rs = Some (out, rs')" "length xs = i" "i + n \<le> length b"
  shows "\<exists>pad. length pad = n \<and> (\<forall>v \<in> set pad. v \<noteq> 0) \<and> out = overwrite b 0 (xs @ pad)"
  using assms
proof (induction n arbitrary: i xs rs)
  case (Suc n)
  from Suc.prems(1) obtain v rs1 b1 where v: "nonzero_byte encrypt rs = Some (v, rs1)"
    "wr (overwrite b 0 xs) i v = Some b1" "pad_random encrypt n (i + 1) b1 rs1 = Some (out, rs')"
    by (auto simp: bind_eq_Some_conv)
  have "b1 = overwrite b 0 (xs @ [v])" using v(2) wr_next [of xs i b v] Suc.prems by simp
  with Suc.IH [of "i + 1" "xs @ [v]" rs1] v(3) Suc.prems obtain pad where
    "length pad = n" "\<forall>v \<in> set pad. v \<noteq> 0" "out = overwrite b 0 (xs @ [v] @ pad)" by auto
  then show ?case using nonzero_byte_ne [OF v(1)] by (intro exI [of _ "v # pad"]) auto
qed simp

lemma encrypt_block_ok:
  assumes run: "encrypt_block encrypt rs olen ilen input b = Some (out, rs')"
    and len: "ilen + 11 \<le> olen" "olen \<le> length b" "ilen \<le> length input"
  shows "\<exists>pad. length (pkcs_block RSA_CRYPT pad (take ilen input)) = olen \<and> (\<forall>v \<in> set pad. v \<noteq> 0)
    \<and> out = overwrite b 0 (pkcs_block RSA_CRYPT pad (take ilen input))"
proof -
  define nb where "nb = olen - 3 - ilen"
  have n: "olen = nb + ilen + 3" using len(1) by (simp add: nb_def)
  have "2 \<le> length b" using len by simp
  note w = first_writes(1) [OF this, of 0] first_writes(2) [OF this, of 0 RSA_CRYPT]
  from run w obtain b1 b2 where
    p: "pad_random encrypt nb 2 (overwrite b 0 [0, RSA_CRYPT]) rs = Some (b1, rs')"
    and z: "wr b1 (2 + nb) 0 = Some b2" and c: "lite_memcpy b2 (3 + nb) input 0 ilen = Some out"
    by (auto simp: encrypt_block_def Let_def nb_def bind_eq_Some_conv)
  from pad_random_next [OF p] n len obtain pad where
    pad: "length pad = nb" "\<forall>v \<in> set pad. v \<noteq> 0" "b1 = overwrite b 0 ([0, RSA_CRYPT] @ pad)" by auto
  have "b2 = overwrite b 0 (([0, RSA_CRYPT] @ pad) @ [0])"
    using z wr_next [of "[0, RSA_CRYPT] @ pad" "2 + nb" b 0] pad n len by simp
  then have "out = overwrite b 0 ((([0, RSA_CRYPT] @ pad) @ [0]) @ take ilen input)"
    using c memcpy_next [of "([0, RSA_CRYPT] @ pad) @ [0]" "3 + nb" ilen b input] pad n len by simp
  then show ?thesis using pad n len by (intro exI [of _ pad]) (simp add: pkcs_block_def)
qed

lemma decrypt_block_ok:
  assumes run: "rsa_op al mode ctx input stack = ok (ctx2, buf)" and ctx: "ctx_padding ctx2 = RSA_PKCS_V15"
    and buf: "take (ctx_len ctx) buf = pkcs_block RSA_CRYPT pad data" "ctx_len ctx \<le> length buf" "\<forall>v \<in> set pad. v \<noteq> 0"
    and len: "16 \<le> ctx_len ctx" "ctx_len ctx \<le> 512" "int (length data) \<le> mx" "length data \<le> length out"
  shows "rsa_pkcs1_decrypt al stack ctx mode input out mx = ok (ctx2, length data, overwrite out 0 data)"
proof -
  note b = block_read [of "ctx_len ctx" buf RSA_CRYPT pad data "\<lambda>_. False", OF buf(1,2)]
  have l: "ctx_len ctx - (3 + length pad) = length data" using b(5) buf(3) by simp
  have "take (length data) (drop (3 + length pad) buf) = data"
    using b(4) buf(3) l by (simp add: drop_take)
  then have "lite_memcpy out 0 buf (3 + length pad) (length data) = Some (overwrite out 0 data)"
    using memcpy_spec [of "3 + length pad" "length data" buf out 0] len(4) b(5) buf(2,3) by simp
  then show ?thesis using run ctx b(1-3) buf(3) len(1-3) l by (simp add: rsa_pkcs1_decrypt_def Let_def)
qed

lemma encrypt_decrypt_ok:
  assumes al: "\<forall>k. al k" and key: "public_key ctx" "private_key ctx" "ctx_padding ctx = RSA_PKCS_V15"
    and len: "16 \<le> ctx_len ctx" "ctx_len ctx \<le> 512" "length stack = 512" "ctx_len ctx \<le> length b"
    and msg: "0 \<le> ilen" "ilen + 11 \<le> int (ctx_len ctx)" "nat ilen \<le> length input" "ilen \<le> mx" "nat ilen \<le> length out"
    and some: "encrypt_block encrypt rs (ctx_len ctx) (nat ilen) input b \<noteq> None"
  shows "\<exists>ctx1 rs' c ctx2. rsa_pkcs1_encrypt al encrypt ctx rs RSA_PUBLIC ilen input b = ok (ctx1, rs', c)
    \<and> rsa_pkcs1_decrypt al stack ctx1 RSA_PRIVATE c out mx = ok (ctx2, nat ilen, overwrite out 0 (take (nat ilen) input))"
proof -
  from some obtain b1 rs' where run: "encrypt_block encrypt rs (ctx_len ctx) (nat ilen) input b = Some (b1, rs')" by auto
  have "nat ilen + 11 \<le> ctx_len ctx" using msg(1,2) by linarith
  from encrypt_block_ok [OF run this len(4) msg(3)] obtain pad where
    pad: "length (pkcs_block RSA_CRYPT pad (take (nat ilen) input)) = ctx_len ctx" "\<forall>v \<in> set pad. v \<noteq> 0"
    "b1 = overwrite b 0 (pkcs_block RSA_CRYPT pad (take (nat ilen) input))" by auto
  define block where "block = pkcs_block RSA_CRYPT pad (take (nat ilen) input)"
  have blk: "take (ctx_len ctx) b1 = block" "length b1 = length b" "length block = ctx_len ctx"
    using pad(1,3) len(4) by (simp_all add: block_def [symmetric] overwrite_def)
  have "message ctx block"
    unfolding block_def by (rule block_message [OF key(1) pad(1)]) (simp add: RSA_CRYPT_def)
  with private_public_ok [OF al key(1,2), of b1 b1 stack] blk len obtain ctx1 c ctx2 where
    r: "rsa_public al ctx b1 b1 = ok (ctx1, c)" "rsa_private al ctx1 c stack = ok (ctx2, overwrite stack 0 block)"
    "ctx_len ctx1 = ctx_len ctx" "ctx_padding ctx2 = ctx_padding ctx" by auto
  have "rsa_pkcs1_decrypt al stack ctx1 RSA_PRIVATE c out mx
      = ok (ctx2, length (take (nat ilen) input), overwrite out 0 (take (nat ilen) input))"
    by (rule decrypt_block_ok [where buf = "overwrite stack 0 block" and pad = pad])
      (use r key(3) len pad(2) msg blk(3) in \<open>simp_all add: rsa_op_def RSA_PRIVATE_def RSA_PUBLIC_def overwrite_def block_def\<close>)
  moreover have "rsa_pkcs1_encrypt al encrypt ctx rs RSA_PUBLIC ilen input b = ok (ctx1, rs', c)"
    using key(3) msg run r(1) by (simp add: rsa_pkcs1_encrypt_def rsa_op_def Let_def)
  ultimately show ?thesis using msg(3) by auto
qed

end
