(* ===== verification/RsaProps.thy ===== *)
theory RsaProps
  imports RsaPkcs
begin

text \<open>
  The properties of the modular exponentiation, of the RSA operations and of the random supply,
  with a 125-bit key on which their hypotheses hold.
\<close>

unbundle bit_operations_syntax

subsection \<open>A key\<close>

definition sample_key :: rsa_context where
  "sample_key = (rsa_init RSA_PKCS_V15 0)
    \<lparr>ctx_len := 16,
     ctx_N := \<lparr>mpi_s = 1, mpi_p = [1, 41943040, 12, 503316480]\<rparr>,
     ctx_E := \<lparr>mpi_s = 1, mpi_p = [7]\<rparr>,
     ctx_D := \<lparr>mpi_s = 1, mpi_p = [3067833783, 1840700269, 3681400539, 215707062]\<rparr>,
     ctx_P := \<lparr>mpi_s = 1, mpi_p = [1, 0, 12]\<rparr>,
     ctx_Q := \<lparr>mpi_s = 1, mpi_p = [1, 41943040]\<rparr>,
     ctx_DP := \<lparr>mpi_s = 1, mpi_p = [3067833783, 1840700269, 3]\<rparr>,
     ctx_DQ := \<lparr>mpi_s = 1, mpi_p = [3067833783, 11983725]\<rparr>,
     ctx_QP := \<lparr>mpi_s = 1, mpi_p = [41277583, 2629172031, 10]\<rparr>\<rparr>"

text \<open>Its factors, by Proth's criterion.\<close>

lemma sample_squares_P: "sq_mod 65 1331 221360928884514619393 = 221360928884514619392"
  by code_simp

lemma sample_squares_Q: "sq_mod 54 243 180143985094819841 = 180143985094819840"
  by code_simp

lemma sample_prime_P: "prime_num 221360928884514619393"
  by (rule proth_squares [where h = 3 and k = 66 and a = 11]) (use sample_squares_P in simp_all)

lemma sample_prime_Q: "prime_num 180143985094819841"
  by (rule proth_squares [where h = 5 and k = 55 and a = 3]) (use sample_squares_Q in simp_all)

lemma sample_public: "public_key sample_key"
  by (simp add: public_key_def sample_key_def rsa_init_def Let_def cache_ok_def LB_def)

lemma sample_private: "private_key sample_key"
  using sample_prime_P sample_prime_Q
  by (simp add: private_key_def sample_key_def rsa_init_def Let_def cache_ok_def LB_def)

lemma sample_fields [simp]: "ctx_len sample_key = 16" "ctx_padding sample_key = RSA_PKCS_V15"
  by (simp_all add: sample_key_def rsa_init_def Let_def)

subsection \<open>Modular exponentiation\<close>

text \<open>C12. \<open>mpi_exp_mod\<close>: for a base and an exponent that are not negative and an odd modulus above 1, with or without
  the cached square of the Montgomery radix, the result is the base to the power of the exponent, modulo the modulus;
  it may replace the base. The cache is filled, and right for the next call. (Of a negative exponent the sign is ignored.)\<close>

theorem mpi_exp_mod_correct:
  assumes "\<forall>k. al k" and "mpi_s (opnd X A) = 1" and "mpi_s E = 1" "mpi_p E \<noteq> []"
    and "mpi_s N = 1" "odd (nval (mpi_p N))" "1 < nval (mpi_p N)"
    and "\<forall>RR. rr = Some RR \<longrightarrow> mpi_p RR = [] \<or> RR_ok N RR"
  shows "\<exists>X' rr'. mpi_exp_mod al X A E N rr = ok (X', rr')
    \<and> mval X' = mval (opnd X A) ^ nat (mval E) mod mval N
    \<and> (rr' = None \<longleftrightarrow> rr = None) \<and> (\<forall>RR. rr' = Some RR \<longrightarrow> RR_ok N RR)"
proof -
  from mpi_exp_mod_ok [OF assms(1,2,4-)] obtain X' rr' where
    r: "mpi_exp_mod al X A E N rr = ok (X', rr')" "mpi_s X' = 1"
    "nval (mpi_p X') = nval (mpi_p (opnd X A)) ^ nval (mpi_p E) mod nval (mpi_p N)"
    "rr' = None \<longleftrightarrow> rr = None" "\<forall>RR. rr' = Some RR \<longrightarrow> RR_ok N RR" by blast
  have "mval X' = mval (opnd X A) ^ nat (mval E) mod mval N"
    using r(2,3) assms(2,3,5) by (simp add: mval_def of_nat_mod)
  then show ?thesis using r by blast
qed

theorem mpi_exp_mod_correct_witness:
  "\<exists>X' rr'. mpi_exp_mod (\<lambda>_. True) \<lparr>mpi_s = 1, mpi_p = [3]\<rparr> This \<lparr>mpi_s = 1, mpi_p = [5]\<rparr> \<lparr>mpi_s = 1, mpi_p = [7]\<rparr> None = ok (X', rr')
    \<and> mval X' = 5"
  using mpi_exp_mod_correct [of "\<lambda>_. True" "\<lparr>mpi_s = 1, mpi_p = [3]\<rparr>" This "\<lparr>mpi_s = 1, mpi_p = [5]\<rparr>" "\<lparr>mpi_s = 1, mpi_p = [7]\<rparr>" None]
  by (auto simp: mval_def)

text \<open>C36. \<open>mpi_mod_int\<close> gives the remainder of a number that is not negative by a positive divisor of at most
  \<open>2^16\<close>. Outside of that it does not: for a larger divisor its steps of half a limb overflow, and \<open>2^32\<close> modulo
  100000 comes out as 0; the signs are ignored, and -1 modulo 3 comes out as 1.\<close>

theorem mpi_mod_int_range:
  "(0 < b \<and> b \<le> 2 ^ 16 \<and> mpi_s A = 1 \<and> mpi_p A \<noteq> [] \<longrightarrow>
      (\<exists>r. mpi_mod_int A b = ok r \<and> int (unat r) = mval A mod b))
    \<and> mpi_mod_int \<lparr>mpi_s = 1, mpi_p = [0, 1]\<rparr> 100000 = ok 0 \<and> mval \<lparr>mpi_s = 1, mpi_p = [0, 1]\<rparr> mod 100000 = 67296
    \<and> mpi_mod_int \<lparr>mpi_s = - 1, mpi_p = [1]\<rparr> 3 = ok 1 \<and> mval \<lparr>mpi_s = - 1, mpi_p = [1]\<rparr> mod 3 = 2"
proof -
  have "mpi_mod_int \<lparr>mpi_s = 1, mpi_p = [0, 1]\<rparr> 100000 = ok 0" "mpi_mod_int \<lparr>mpi_s = - 1, mpi_p = [1]\<rparr> 3 = ok 1"
    by code_simp+
  moreover have "mval \<lparr>mpi_s = 1, mpi_p = [0, 1]\<rparr> mod 100000 = 67296" "mval \<lparr>mpi_s = - 1, mpi_p = [1]\<rparr> mod 3 = 2"
    by (simp_all add: mval_def LB_def)
  ultimately show ?thesis using mpi_mod_int_ok [of b A] by (auto simp: mval_def)
qed

theorem mpi_mod_int_range_witness:
  "\<exists>r. mpi_mod_int \<lparr>mpi_s = 1, mpi_p = [0, 1]\<rparr> 1000 = ok r \<and> int (unat r) = 296"
  using mpi_mod_int_range [of 1000 "\<lparr>mpi_s = 1, mpi_p = [0, 1]\<rparr>"] by (simp add: mval_def LB_def)

subsection \<open>Signatures and encryption\<close>

text \<open>C5. Signing and verifying, with allocations that succeed, a key of two primes and a modulus of 16 to 512 bytes
  that leaves eight bytes of padding: \<open>rsa_pkcs1_sign\<close> signs a SHA-1 or SHA-256 digest or raw data with the private key,
  and \<open>rsa_pkcs1_verify\<close> accepts the signature with the public key, whatever the stack held. The exception are raw data
  of 34 bytes: they are taken for an MD2, MD4 or MD5 digest, and rejected unless they begin with its prefix.\<close>

theorem rsa_sign_verify:
  assumes "\<forall>k. al k" and "public_key ctx" "private_key ctx" "ctx_padding ctx = RSA_PKCS_V15"
    and "sign_input hash_id hashlen hash" and "sign_pad (ctx_len ctx) hash_id hashlen = Some nb" "8 \<le> nb"
    and "16 \<le> ctx_len ctx" "ctx_len ctx \<le> 512" "ctx_len ctx \<le> length sig" "length stack = 512"
  shows "\<exists>ctx1 sig' ctx2. rsa_pkcs1_sign al ctx RSA_PRIVATE hash_id hashlen hash sig = ok (ctx1, sig')
    \<and> rsa_pkcs1_verify al stack ctx1 RSA_PUBLIC hash_id hashlen hash sig' =
        (if hash_id = RSA_RAW \<and> hashlen = 34 \<and> take 18 hash \<noteq> ASN1_HASH_MDX then err POLARSSL_ERR_RSA_VERIFY_FAILED else ok ctx2)"
  by (rule sign_verify_code [OF assms, unfolded taken_for_mdx_def])

theorem rsa_sign_verify_witness:
  "\<exists>ctx1 sig' ctx2. rsa_pkcs1_sign (\<lambda>_. True) sample_key RSA_PRIVATE RSA_RAW 5 [1, 2, 3, 4, 5] (replicate 16 0) = ok (ctx1, sig')
    \<and> rsa_pkcs1_verify (\<lambda>_. True) (replicate 512 0) ctx1 RSA_PUBLIC RSA_RAW 5 [1, 2, 3, 4, 5] sig' = ok ctx2"
  using rsa_sign_verify [of "\<lambda>_. True" sample_key RSA_RAW 5 "[1, 2, 3, 4, 5]" 8 "replicate 16 0" "replicate 512 0"]
  by (simp add: sample_public sample_private sign_input_def sign_pad_def hash_ids)

text \<open>C7. Encrypting and decrypting: a message of at most eleven bytes less than the modulus comes back from
  \<open>rsa_pkcs1_decrypt\<close> with its length, whenever the random supply yields the padding.\<close>

theorem rsa_encrypt_decrypt:
  assumes "\<forall>k. al k" and "public_key ctx" "private_key ctx" "ctx_padding ctx = RSA_PKCS_V15"
    and "16 \<le> ctx_len ctx" "ctx_len ctx \<le> 512" "length stack = 512" "ctx_len ctx \<le> length b"
    and "0 \<le> ilen" "ilen + 11 \<le> int (ctx_len ctx)" "nat ilen \<le> length input" "ilen \<le> mx" "nat ilen \<le> length out"
    and "encrypt_block encrypt rs (ctx_len ctx) (nat ilen) input b \<noteq> None"
  shows "\<exists>ctx1 rs' c ctx2. rsa_pkcs1_encrypt al encrypt ctx rs RSA_PUBLIC ilen input b = ok (ctx1, rs', c)
    \<and> rsa_pkcs1_decrypt al stack ctx1 RSA_PRIVATE c out mx = ok (ctx2, nat ilen, overwrite out 0 (take (nat ilen) input))"
  by (rule encrypt_decrypt_ok [OF assms])

definition sample_supply :: RandomSupply where
  "sample_supply = RandomSupply_init (\<lambda>_ _. []) (replicate 16 0) (replicate 16 0)"

theorem rsa_encrypt_decrypt_witness:
  "\<exists>ctx1 rs' c ctx2. rsa_pkcs1_encrypt (\<lambda>_. True) (\<lambda>_ _ _. replicate 16 9) sample_key sample_supply RSA_PUBLIC 3 [65, 66, 67] (replicate 16 0)
      = ok (ctx1, rs', c)
    \<and> rsa_pkcs1_decrypt (\<lambda>_. True) (replicate 512 0) ctx1 RSA_PRIVATE c (replicate 3 0) 3 = ok (ctx2, 3, [65, 66, 67])"
proof -
  have "encrypt_block (\<lambda>_ _ _. replicate 16 9) sample_supply 16 3 [65, 66, 67] (replicate 16 0) \<noteq> None"
    by code_simp
  then show ?thesis
    using rsa_encrypt_decrypt [of "\<lambda>_. True" sample_key "replicate 512 0" "replicate 16 0" 3 "[65, 66, 67]" 3 "replicate 3 0"
        "\<lambda>_ _ _. replicate 16 9" sample_supply]
    by (simp add: sample_public sample_private overwrite_def)
qed

text \<open>C8. The recombination of the two half-size powers in \<open>rsa_private\<close> equals the plain power of the input: the
  number written is the input to the power of \<open>D\<close> modulo \<open>N\<close>, and inputs that are not below \<open>N\<close> are rejected.\<close>

theorem rsa_private_is_power:
  assumes "\<forall>k. al k" and "public_key ctx" "private_key ctx"
    and "nval (mpi_p (ctx_DP ctx)) = nval (mpi_p (ctx_D ctx)) mod (nval (mpi_p (ctx_P ctx)) - 1)"
    and "nval (mpi_p (ctx_DQ ctx)) = nval (mpi_p (ctx_D ctx)) mod (nval (mpi_p (ctx_Q ctx)) - 1)"
    and "ctx_len ctx \<le> length input" "ctx_len ctx \<le> length out"
  defines "m \<equiv> be_val (take (ctx_len ctx) input)" and "n \<equiv> nval (mpi_p (ctx_N ctx))"
  shows "if n \<le> m then rsa_private al ctx input out = err POLARSSL_ERR_RSA_BAD_INPUT_DATA
    else \<exists>ctx'. rsa_private al ctx input out = ok (ctx', put_number (ctx_len ctx) out (m ^ nval (mpi_p (ctx_D ctx)) mod n))"
proof -
  note key = assms(2,3)
  let ?p = "nval (mpi_p (ctx_P ctx))" and ?q = "nval (mpi_p (ctx_Q ctx))" and ?d = "nval (mpi_p (ctx_D ctx))"
  have k: "prime_num ?p" "prime_num ?q" "?p \<noteq> ?q" "n = ?p * ?q" "nval (mpi_p (ctx_DP ctx)) \<noteq> 0" "nval (mpi_p (ctx_DQ ctx)) \<noteq> 0"
    using key(2) by (auto simp: private_key_def Let_def n_def intro: gr0I)
  have n: "0 < n" using key(1) by (simp add: public_key_def n_def)
  show ?thesis
  proof (cases "n \<le> m")
    case True
    then show ?thesis using rsa_private_ok [OF assms(1) key assms(6,7)] by (simp add: m_def n_def)
  next
    case False
    with rsa_private_ok [OF assms(1) key assms(6,7)] obtain RP RQ x where
      x: "rsa_private al ctx input out = ok (ctx\<lparr>ctx_RP := RP, ctx_RQ := RQ\<rparr>, put_number (ctx_len ctx) out x)"
      "x < n" "x mod ?p = m ^ nval (mpi_p (ctx_DP ctx)) mod ?p" "x mod ?q = m ^ nval (mpi_p (ctx_DQ ctx)) mod ?q"
      by (auto simp: m_def n_def)
    have "x = m ^ ?d mod n"
    proof (rule crt_unique [OF primes_coprime [OF k(1-3)]])
      show "x mod ?p = m ^ ?d mod n mod ?p"
        using exponent_reduce [OF k(1) assms(4), of m] x(3) k(4,5) by (simp add: mod_mod_cancel)
      show "x mod ?q = m ^ ?d mod n mod ?q"
        using exponent_reduce [OF k(2) assms(5), of m] x(4) k(4,6) by (simp add: mod_mod_cancel)
    qed (use x(2) n k(4) in auto)
    then show ?thesis using x(1) False by auto
  qed
qed

theorem rsa_private_is_power_witness:
  "\<exists>ctx'. rsa_private (\<lambda>_. True) sample_key (replicate 15 0 @ [2]) (replicate 16 0)
    = ok (ctx', put_number 16 (replicate 16 0) (2 ^ nval (mpi_p (ctx_D sample_key)) mod nval (mpi_p (ctx_N sample_key))))"
proof -
  have v: "be_val (take (ctx_len sample_key) (replicate 15 0 @ [2])) = 2" by (simp add: be_val_append)
  have "nval (mpi_p (ctx_DP sample_key)) = nval (mpi_p (ctx_D sample_key)) mod (nval (mpi_p (ctx_P sample_key)) - 1)"
    "nval (mpi_p (ctx_DQ sample_key)) = nval (mpi_p (ctx_D sample_key)) mod (nval (mpi_p (ctx_Q sample_key)) - 1)"
    "\<not> nval (mpi_p (ctx_N sample_key)) \<le> 2"
    by (simp_all add: sample_key_def LB_def)
  with rsa_private_is_power [of "\<lambda>_. True" sample_key "replicate 15 0 @ [2]" "replicate 16 0"] show ?thesis
    unfolding v by (simp add: sample_public sample_private)
qed

subsection \<open>What goes wrong\<close>

text \<open>C25. A signature of zero bytes leaves the block on the stack unwritten: when that memory still holds the block of an
  earlier verification, \<open>rsa_pkcs1_verify\<close> accepts the zero signature for the earlier digest.\<close>

theorem rsa_verify_zero_signature:
  assumes "\<forall>k. al k" and "public_key ctx" "ctx_padding ctx = RSA_PKCS_V15" "nval (mpi_p (ctx_E ctx)) \<noteq> 0"
    and "signable hash_id hashlen hash" and "sign_pad (ctx_len ctx) hash_id hashlen = Some nb" "8 \<le> nb"
    and "16 \<le> ctx_len ctx" "ctx_len ctx \<le> 512" "length stack = 512"
    and "take (ctx_len ctx) stack = sign_block (ctx_len ctx) hash_id hashlen hash"
    and "sig = replicate (ctx_len ctx) 0"
  shows "\<exists>ctx2. rsa_pkcs1_verify al stack ctx RSA_PUBLIC hash_id hashlen hash sig = ok ctx2"
proof -
  have z: "be_val (take (ctx_len ctx) sig) = 0" using assms(12) by simp
  have n: "\<not> nval (mpi_p (ctx_N ctx)) \<le> 0" using assms(2) by (simp add: public_key_def)
  have "ctx_len ctx \<le> length sig" "ctx_len ctx \<le> length stack" using assms(9,10,12) by simp_all
  from rsa_public_ok [OF assms(1,2) this, unfolded z, simplified n if_False] assms(4) obtain RR where
    "rsa_public al ctx sig stack = ok (ctx\<lparr>ctx_RN := RR\<rparr>, stack)"
    by (auto simp: put_number_def power_0_left)
  then have op: "rsa_op al RSA_PUBLIC ctx sig stack = ok (ctx\<lparr>ctx_RN := RR\<rparr>, stack)" by (simp add: rsa_op_def)
  have "rsa_pkcs1_verify al stack ctx RSA_PUBLIC hash_id hashlen hash sig = ok (ctx\<lparr>ctx_RN := RR\<rparr>)"
    using verify_block_code [OF _ assms(6,7) refl assms(8,9) _ op assms(11)] signable_input [OF assms(5)] assms(3,9,10) by simp
  then show ?thesis ..
qed

theorem rsa_verify_zero_signature_witness:
  "\<exists>ctx2. rsa_pkcs1_verify (\<lambda>_. True) (sign_block 16 RSA_RAW 5 [1, 2, 3, 4, 5] @ replicate 496 0) sample_key RSA_PUBLIC
    RSA_RAW 5 [1, 2, 3, 4, 5] (replicate 16 0) = ok ctx2"
proof -
  have "length (sign_block 16 RSA_RAW 5 [1, 2, 3, 4, 5]) = 16"
    by (simp add: sign_block_def digest_info_def)
  moreover have "nval (mpi_p (ctx_E sample_key)) \<noteq> 0" by (simp add: sample_key_def)
  ultimately show ?thesis
    by (intro rsa_verify_zero_signature [of _ _ _ _ _ 8])
      (simp_all add: sample_public signable_def sign_pad_def hash_ids)
qed

text \<open>C26. A SHA-512 digest is never signed: the missing \<open>break\<close> turns the finished block into the error for bad input.\<close>

theorem rsa_sign_sha512_fails:
  "\<not> (\<exists>r. rsa_pkcs1_sign al ctx mode RSA_SHA512 hashlen hash sig = ok r)"
  by (auto simp: rsa_pkcs1_sign_def Let_def MPI_CHK_ok sign_digest_def hash_ids bind_eq_Some_conv split: option.splits if_splits)

subsection \<open>The random supply\<close>

text \<open>C24. The random supply is the cipher in counter mode: the bytes drawn from a fresh supply are the blocks for the
  counters 1, 2, 3 and on, each used once, up to the last of the \<open>2^128 - 1\<close> counters.\<close>

theorem random_supply_stream:
  assumes "\<forall>c. length (encrypt (key_setup seed 128) 10 c) = 16" and "n \<le> 16 * (2 ^ 128 - 1)"
  shows "\<exists>rs'. get_random_bytes encrypt n (RandomSupply_init key_setup junk seed)
    = Some (map (\<lambda>k. encrypt (key_setup seed 128) 10 (words 4 (k div 16 + 1)) ! (k mod 16)) [0..<n], rs')"
proof -
  have "LB ^ 4 = 2 ^ 128" by (simp add: LB_def)
  then have "0 + n \<le> 16 * (LB ^ 4 - 1)" using assms(2) by simp
  from random_bytes_ok [OF assms(1) supply_init [of encrypt key_setup seed junk] this] show ?thesis
    by (auto simp: stream_byte_def [abs_def])
qed

theorem random_supply_stream_witness:
  "\<exists>rs'. get_random_bytes (\<lambda>_ _ c. replicate 16 (ucast (c ! 0))) 20 (RandomSupply_init (\<lambda>_ _. []) [] [])
    = Some (map (\<lambda>k. replicate 16 (ucast (words 4 (k div 16 + 1) ! 0)) ! (k mod 16)) [0..<20], rs')"
  using random_supply_stream [of "\<lambda>_ _ c. replicate 16 (ucast (c ! 0))" "\<lambda>_ _. []" "[]" 20 "[]"] by simp

end
