(* ===== verification/RsaKey.thy ===== *)
theory RsaKey
  imports RsaOk
begin

text \<open>
  Key generation and the check of a private key, \<open>rsa_gen_key\<close> and \<open>rsa_check_privkey\<close> of
  \<open>src/common/crypto/rsa.cpp\<close>, with the exact condition under which a key pair passes the checks.
\<close>

unbundle bit_operations_syntax

definition POLARSSL_ERR_RSA_KEY_GEN_FAILED :: int where "POLARSSL_ERR_RSA_KEY_GEN_FAILED = - 0x0420"

subsection \<open>Generating a key\<close>

text \<open>
  What the body of the loop works on: the context, \<open>P1\<close>, \<open>Q1\<close>, \<open>H\<close>, \<open>G\<close> and the random supply. A
  \<open>continue\<close> goes to the test of \<open>G\<close> with what an earlier pass left in it.
\<close>

type_synonym gen_state = "rsa_context \<times> mpi \<times> mpi \<times> mpi \<times> mpi \<times> RandomSupply"

definition gen_key_body :: "(nat \<Rightarrow> bool) \<Rightarrow> cipher \<Rightarrow> int \<Rightarrow> gen_state \<Rightarrow> gen_state mres" where
  "gen_key_body al encrypt nbits = (\<lambda>(ctx, P1, Q1, H, G, rs).
    MPI_CHK (mpi_gen_prime al encrypt (ctx_P ctx) ((nbits + 1) div 2) 0 rs) (\<lambda>(P, rs).
    MPI_CHK (mpi_gen_prime al encrypt (ctx_Q ctx) ((nbits + 1) div 2) 0 rs) (\<lambda>(Q, rs).
    let (P, Q) = (if mpi_cmp_mpi P Q < 0 then mpi_swap P Q else (P, Q));
        ctx = ctx\<lparr>ctx_P := P, ctx_Q := Q\<rparr>
    in if mpi_cmp_mpi P Q = 0 then ok (ctx, P1, Q1, H, G, rs)
       else MPI_CHK (mpi_mul_mpi al (ctx_N ctx) (That P) (That Q)) (\<lambda>N.
         let ctx = ctx\<lparr>ctx_N := N\<rparr> in
         case mpi_msb N of None \<Rightarrow> None
         | Some n \<Rightarrow>
            if int n \<noteq> nbits then ok (ctx, P1, Q1, H, G, rs)
            else MPI_CHK (mpi_sub_int al P1 (That P) 1) (\<lambda>P1.
                 MPI_CHK (mpi_sub_int al Q1 (That Q) 1) (\<lambda>Q1.
                 MPI_CHK (mpi_mul_mpi al H (That P1) (That Q1)) (\<lambda>H.
                 MPI_CHK (mpi_gcd al G (ctx_E ctx) H) (\<lambda>G.
                 ok (ctx, P1, Q1, H, G, rs)))))))))"

partial_function (option) gen_key_loop :: "(nat \<Rightarrow> bool) \<Rightarrow> cipher \<Rightarrow> int \<Rightarrow> gen_state \<Rightarrow> gen_state mres" where
  "gen_key_loop al encrypt nbits st =
    (case gen_key_body al encrypt nbits st of None \<Rightarrow> None
     | Some (Inl r) \<Rightarrow> err r
     | Some (Inr (ctx, P1, Q1, H, G, rs)) \<Rightarrow>
        if mpi_cmp_int G 1 \<noteq> 0 then gen_key_loop al encrypt nbits (ctx, P1, Q1, H, G, rs)
        else ok (ctx, P1, Q1, H, G, rs))"

declare gen_key_loop.simps [code]

text \<open>A failure leaves the caller its code and the context with all numbers freed, a return of 0 the new key.\<close>

definition rsa_gen_key :: "(nat \<Rightarrow> bool) \<Rightarrow> cipher \<Rightarrow> rsa_context \<Rightarrow> int \<Rightarrow> int \<Rightarrow> RandomSupply
    \<Rightarrow> ((int \<times> rsa_context) + (rsa_context \<times> RandomSupply)) option" where
  "rsa_gen_key al encrypt ctx nbits exponent rs =
    (if nbits < 128 \<or> exponent < 3 then Some (Inl (POLARSSL_ERR_RSA_BAD_INPUT_DATA, ctx))
     else case
       MPI_CHK (mpi_lset al (ctx_E ctx) exponent) (\<lambda>E.
       MPI_CHK (gen_key_loop al encrypt nbits (ctx\<lparr>ctx_E := E\<rparr>, mpi_init, mpi_init, mpi_init, mpi_init, rs))
         (\<lambda>(ctx, P1, Q1, H, G, rs).
       MPI_CHK (mpi_inv_mod al (ctx_D ctx) (ctx_E ctx) H) (\<lambda>D.
       MPI_CHK (mod_call al (ctx_DP ctx) (That D) P1) (\<lambda>DP.
       MPI_CHK (mod_call al (ctx_DQ ctx) (That D) Q1) (\<lambda>DQ.
       MPI_CHK (mpi_inv_mod al (ctx_QP ctx) (ctx_Q ctx) (ctx_P ctx)) (\<lambda>QP.
       case mpi_msb (ctx_N ctx) of None \<Rightarrow> None
       | Some n \<Rightarrow> ok (ctx\<lparr>ctx_D := D, ctx_DP := DP, ctx_DQ := DQ, ctx_QP := QP, ctx_len := (n + 7) div 8\<rparr>, rs)))))))
     of None \<Rightarrow> None
     | Some (Inl r) \<Rightarrow> Some (Inl (POLARSSL_ERR_RSA_KEY_GEN_FAILED OR r, rsa_free ctx))
     | Some (Inr r) \<Rightarrow> Some (Inr r))"

subsection \<open>Checking a private key\<close>

definition rsa_check_privkey :: "(nat \<Rightarrow> bool) \<Rightarrow> rsa_context \<Rightarrow> int option" where
  "rsa_check_privkey al ctx =
    (case rsa_check_pubkey ctx of None \<Rightarrow> None
     | Some r \<Rightarrow>
        if r \<noteq> 0 then Some r
        else case
          MPI_CHK (mpi_mul_mpi al mpi_init (That (ctx_P ctx)) (That (ctx_Q ctx))) (\<lambda>PQ.
          MPI_CHK (mpi_mul_mpi al mpi_init (That (ctx_D ctx)) (That (ctx_E ctx))) (\<lambda>DE.
          MPI_CHK (mpi_sub_int al mpi_init (That (ctx_P ctx)) 1) (\<lambda>P1.
          MPI_CHK (mpi_sub_int al mpi_init (That (ctx_Q ctx)) 1) (\<lambda>Q1.
          MPI_CHK (mpi_mul_mpi al mpi_init (That P1) (That Q1)) (\<lambda>H.
          MPI_CHK (mod_call al mpi_init (That DE) H) (\<lambda>I.
          MPI_CHK (mpi_gcd al mpi_init (ctx_E ctx) H) (\<lambda>G. ok (PQ, I, G))))))))
        of None \<Rightarrow> None
        | Some (Inl r) \<Rightarrow> Some (POLARSSL_ERR_RSA_KEY_CHECK_FAILED OR r)
        | Some (Inr (PQ, I, G)) \<Rightarrow>
           if mpi_cmp_mpi PQ (ctx_N ctx) = 0 \<and> mpi_cmp_int I 1 = 0 \<and> mpi_cmp_int G 1 = 0 then Some 0
           else Some (POLARSSL_ERR_RSA_KEY_CHECK_FAILED OR 0))"

subsection \<open>What the checks accept\<close>

definition pubkey_ok :: "nat \<Rightarrow> nat \<Rightarrow> bool" where
  "pubkey_ok n e \<longleftrightarrow> odd n \<and> odd e \<and> 2 ^ 127 \<le> n \<and> n < 2 ^ 4096 \<and> 2 \<le> e \<and> e < 2 ^ 64"

lemma bitlen_le: "bitlen v m \<Longrightarrow> m \<le> k \<longleftrightarrow> v < 2 ^ k"
proof
  assume b: "bitlen v m" and "m \<le> k"
  then have "(2 :: nat) ^ m \<le> 2 ^ k" by (intro power_increasing) simp_all
  moreover have "v < 2 ^ m" using b by (simp add: bitlen_def)
  ultimately show "v < 2 ^ k" by (rule less_le_trans [rotated])
next
  assume b: "bitlen v m" and v: "v < 2 ^ k"
  show "m \<le> k"
  proof (rule ccontr)
    assume "\<not> m \<le> k"
    then have "(2 :: nat) ^ k \<le> 2 ^ (m - 1)" by (intro power_increasing) simp_all
    moreover have "2 ^ (m - 1) \<le> v" using b \<open>\<not> m \<le> k\<close> by (simp add: bitlen_def)
    ultimately show False using v by linarith
  qed
qed

lemma check_pubkey_ok:
  assumes "mpi_p (ctx_N ctx) \<noteq> []" "mpi_p (ctx_E ctx) \<noteq> []"
  shows "rsa_check_pubkey ctx = Some (if pubkey_ok (nval (mpi_p (ctx_N ctx))) (nval (mpi_p (ctx_E ctx))) then 0
    else POLARSSL_ERR_RSA_KEY_CHECK_FAILED)"
proof -
  from mpi_msb_bitlen [OF assms(1)] obtain n where n: "mpi_msb (ctx_N ctx) = Some n" "bitlen (nval (mpi_p (ctx_N ctx))) n" by auto
  from mpi_msb_bitlen [OF assms(2)] obtain e where e: "mpi_msb (ctx_E ctx) = Some e" "bitlen (nval (mpi_p (ctx_E ctx))) e" by auto
  have 1: "n < 128 \<longleftrightarrow> n \<le> 127" "n > 4096 \<longleftrightarrow> \<not> n \<le> 4096" "e < 2 \<longleftrightarrow> e \<le> 1" "e > 64 \<longleftrightarrow> \<not> e \<le> 64" by arith+
  have "n < 128 \<or> n > 4096 \<longleftrightarrow> \<not> (2 ^ 127 \<le> nval (mpi_p (ctx_N ctx)) \<and> nval (mpi_p (ctx_N ctx)) < 2 ^ 4096)"
    by (simp only: 1 bitlen_le [OF n(2)] de_Morgan_conj not_le)
  moreover have "e < 2 \<or> e > 64 \<longleftrightarrow> \<not> (2 \<le> nval (mpi_p (ctx_E ctx)) \<and> nval (mpi_p (ctx_E ctx)) < 2 ^ 64)"
    by (simp only: 1 bitlen_le [OF e(2)] de_Morgan_conj not_le power_one_right)
  ultimately show ?thesis
    using n(1) e(1) low_bit [OF assms(1)] low_bit [OF assms(2)] assms
    by (simp add: rsa_check_pubkey_def pubkey_ok_def rd_def del: de_Morgan_conj power_numeral)
qed

lemma mod_call_that:
  assumes al: "\<forall>k. al k" and A: "mpi_s A = 1" and N: "mpi_s N = 1" "nval (mpi_p N) \<noteq> 0"
  shows "\<exists>V. mod_call al R (That A) N = ok V \<and> mpi_s V = 1 \<and> nval (mpi_p V) = nval (mpi_p A) mod nval (mpi_p N)"
  using mod_store_ok [OF al, of "(\<lambda>_. mpi_init)(0 := R, 1 := A, 2 := N)" 1 2 0] A N
  by (auto simp: mod_call_def mpi_mod_mpi_def)

lemma mul_init:
  assumes "\<forall>k. al k" "mpi_s A = 1" "mpi_s B = 1"
  shows "\<exists>V. mpi_mul_mpi al mpi_init (That A) (That B) = ok V \<and> mpi_s V = 1 \<and> nval (mpi_p V) = nval (mpi_p A) * nval (mpi_p B)"
  using gives_total [OF gives_mul_mpi [of al mpi_init "That A" "That B"] assms(1)] assms(2,3) by auto

lemma unit_gcd:
  assumes "odd (e :: nat)" "odd_gcd e h g" "d * e mod h = 1"
  shows "g = 1"
proof -
  from assms(1,2) obtain k where g: "gcd e h = g * 2 ^ k" by (auto simp: odd_gcd_def split: if_splits)
  have "gcd e h dvd d * e mod h" by (simp add: dvd_mod)
  then show ?thesis using assms(3) g by simp
qed

lemma check_privkey_ok:
  assumes al: "\<forall>k. al k"
    and s: "mpi_s (ctx_N ctx) = 1" "mpi_s (ctx_E ctx) = 1" "mpi_s (ctx_D ctx) = 1" "mpi_s (ctx_P ctx) = 1" "mpi_s (ctx_Q ctx) = 1"
    and ne: "mpi_p (ctx_N ctx) \<noteq> []" "mpi_p (ctx_E ctx) \<noteq> []"
    and v: "n = nval (mpi_p (ctx_N ctx))" "e = nval (mpi_p (ctx_E ctx))" "d = nval (mpi_p (ctx_D ctx))"
      "p = nval (mpi_p (ctx_P ctx))" "q = nval (mpi_p (ctx_Q ctx))" and pq: "1 < p" "1 < q"
  shows "rsa_check_privkey al ctx = Some (if pubkey_ok n e \<and> n = p * q \<and> d * e mod ((p - 1) * (q - 1)) = 1 then 0
    else POLARSSL_ERR_RSA_KEY_CHECK_FAILED)"
proof (cases "pubkey_ok n e")
  case True
  from mul_init [OF al s(4,5)] obtain PQ where
    PQ: "mpi_mul_mpi al mpi_init (That (ctx_P ctx)) (That (ctx_Q ctx)) = ok PQ" "mpi_s PQ = 1" "nval (mpi_p PQ) = p * q" using v by auto
  from mul_init [OF al s(3,2)] obtain DE where
    DE: "mpi_mul_mpi al mpi_init (That (ctx_D ctx)) (That (ctx_E ctx)) = ok DE" "mpi_s DE = 1" "nval (mpi_p DE) = d * e" using v by auto
  from sub_one [OF al s(4)] pq(1) v(4) obtain P1 where
    P1: "mpi_sub_int al mpi_init (That (ctx_P ctx)) 1 = ok P1" "mpi_s P1 = 1" "nval (mpi_p P1) = p - 1" by auto
  from sub_one [OF al s(5)] pq(2) v(5) obtain Q1 where
    Q1: "mpi_sub_int al mpi_init (That (ctx_Q ctx)) 1 = ok Q1" "mpi_s Q1 = 1" "nval (mpi_p Q1) = q - 1" by auto
  from mul_init [OF al P1(2) Q1(2)] obtain H where
    H: "mpi_mul_mpi al mpi_init (That P1) (That Q1) = ok H" "mpi_s H = 1" "nval (mpi_p H) = (p - 1) * (q - 1)" using P1(3) Q1(3) by auto
  have h0: "nval (mpi_p H) \<noteq> 0" using H(3) pq by simp
  from mod_call_that [OF al DE(2) H(2) h0] obtain I where
    I: "mod_call al mpi_init (That DE) H = ok I" "mpi_s I = 1" "nval (mpi_p I) = d * e mod ((p - 1) * (q - 1))" using DE(3) H(3) by auto
  from mpi_gcd_ok [OF al h0, of mpi_init "ctx_E ctx"] obtain G where
    G: "mpi_gcd al mpi_init (ctx_E ctx) H = ok G" "mpi_s G = 1" "odd_gcd e ((p - 1) * (q - 1)) (nval (mpi_p G))" using H(3) v(2) by auto
  have "odd e" using True by (simp add: pubkey_ok_def)
  then have g: "d * e mod ((p - 1) * (q - 1)) = 1 \<Longrightarrow> nval (mpi_p G) = 1" using unit_gcd G(3) by blast
  have "mpi_cmp_mpi PQ (ctx_N ctx) = 0 \<longleftrightarrow> n = p * q"
    using mpi_cmp_mpi_same [of PQ "ctx_N ctx"] PQ(2,3) s(1) v(1) by (auto simp: mval_def mpi_ok_def sgn_0_0 simp flip: of_nat_mult)
  moreover have "mpi_cmp_int I 1 = 0 \<longleftrightarrow> d * e mod ((p - 1) * (q - 1)) = 1"
    using cmp_int_small [OF I(2), of 1] I(3) by (simp add: sgn_0_0)
  moreover have "mpi_cmp_int G 1 = 0 \<longleftrightarrow> nval (mpi_p G) = 1" using cmp_int_small [OF G(2), of 1] by (simp add: sgn_0_0)
  ultimately show ?thesis
    using True check_pubkey_ok [OF ne] PQ(1) DE(1) P1(1) Q1(1) H(1) I(1) G(1) g v(1,2) by (simp add: rsa_check_privkey_def)
next
  case False
  then show ?thesis using check_pubkey_ok [OF ne] v(1,2) by (simp add: rsa_check_privkey_def POLARSSL_ERR_RSA_KEY_CHECK_FAILED_def)
qed

end
