(* ===== verification/KeyProps.thy ===== *)
theory KeyProps
  imports RsaKey
begin

text \<open>
  The properties of the number theory below RSA keys: greatest common divisors, modular inverses,
  the primality test, and the check of a private key.
\<close>

unbundle bit_operations_syntax

text \<open>C18. \<open>mpi_gcd\<close> of nonzero numbers returns, and its result is the greatest common divisor without its factors of
  two, so the exact one when an operand is odd. With a second operand of zero the halving loop never ends.\<close>

theorem mpi_gcd_odd_part:
  assumes "\<forall>k. al k" and "nval (mpi_p A) = a" "a \<noteq> 0" "nval (mpi_p B) = b"
  shows "if b = 0 then mpi_gcd al G A B = None
    else \<exists>G' g k. mpi_gcd al G A B = ok G' \<and> mval G' = int g \<and> odd g \<and> gcd a b = g * 2 ^ k
      \<and> (odd a \<or> odd b \<longrightarrow> g = gcd a b)"
proof (cases "b = 0")
  case True
  then show ?thesis using mpi_gcd_hangs [OF assms(1), of A B G] assms(2-4) by simp
next
  case False
  with mpi_gcd_ok [OF assms(1), of B G A] assms(2-4) obtain G' where
    G: "mpi_gcd al G A B = ok G'" "mpi_s G' = 1" "odd_gcd a b (nval (mpi_p G'))" by auto
  from G(3) assms(3) obtain k where k: "odd (nval (mpi_p G'))" "gcd a b = nval (mpi_p G') * 2 ^ k" by (auto simp: odd_gcd_def)
  have "odd a \<or> odd b \<Longrightarrow> odd (gcd a b)" by auto
  then have "odd a \<or> odd b \<longrightarrow> k = 0" using k(2) by (cases k) auto
  then have "odd a \<or> odd b \<longrightarrow> nval (mpi_p G') = gcd a b" using k(2) by auto
  moreover have "mval G' = int (nval (mpi_p G'))" using G(2) by (simp add: mval_def)
  ultimately show ?thesis using False G(1) k by auto
qed

theorem mpi_gcd_odd_part_witness:
  "\<exists>G' g k. mpi_gcd (\<lambda>_. True) mpi_init \<lparr>mpi_s = 1, mpi_p = [12]\<rparr> \<lparr>mpi_s = 1, mpi_p = [18]\<rparr> = ok G' \<and> mval G' = int g
    \<and> odd g \<and> 6 = g * 2 ^ k"
  using mpi_gcd_odd_part [of "\<lambda>_. True" "\<lparr>mpi_s = 1, mpi_p = [12]\<rparr>" 12 "\<lparr>mpi_s = 1, mpi_p = [18]\<rparr>" 18 mpi_init]
    gcd_red_nat [of 12 18] gcd_red_nat [of 18 12] gcd_red_nat [of 12 6] by auto

declare add_carry.simps [code]

text \<open>\<open>mpi_inv_mod\<close> takes two even numbers for coprime ones: it returns 1 as an inverse of 2 modulo 4.\<close>

theorem mpi_inv_mod_even:
  "mpi_inv_mod (\<lambda>_. True) mpi_init \<lparr>mpi_s = 1, mpi_p = [2]\<rparr> \<lparr>mpi_s = 1, mpi_p = [4]\<rparr> = ok \<lparr>mpi_s = 1, mpi_p = [1]\<rparr>"
  by code_simp

text \<open>C19. The primality test accepts every odd prime, whichever bytes the random supply yields, as long as it has the
  27 bases of the longest run left.\<close>

theorem mpi_is_prime_complete:
  assumes "\<forall>k. al k" and "\<forall>c. length (encrypt keys 10 c) = 16" and "mpi_ok X"
    and "prime_num (nval (mpi_p X))" "odd (nval (mpi_p X))"
    and "supply_at encrypt keys k rs" "k + 108 * (mpi_n X + 1) \<le> 16 * (LB ^ 4 - 1)"
  shows "\<exists>X' rs'. mpi_is_prime al encrypt X rs = ok (True, X', rs')"
  by (rule is_prime_accepts [OF assms])

lemma prime_1153: "prime_num 1153"
proof -
  have "sq_mod 6 1953125 1153 = 1152" by code_simp
  then show ?thesis by (intro proth_squares [where h = 9 and k = 7 and a = 5]) simp_all
qed

theorem mpi_is_prime_complete_witness:
  "\<exists>X' rs'. mpi_is_prime (\<lambda>_. True) (\<lambda>_ _ _. replicate 16 9) \<lparr>mpi_s = 1, mpi_p = [1153]\<rparr>
    (RandomSupply_init (\<lambda>_ _. []) [] []) = ok (True, X', rs')"
  by (rule mpi_is_prime_complete [where keys = "[]" and k = 0])
    (use supply_init [of "\<lambda>_ _ _. replicate 16 9" "\<lambda>_ _. []" "[]" "[]"] prime_1153 in \<open>simp_all add: mpi_ok_def LB_def\<close>)

text \<open>C20. Of the numbers above 2 in absolute value, the primality test rejects every even one and every one with a
  proper divisor among the odd primes below 1000, whatever the random supply and without drawing from it; it leaves
  the number without its sign. (0 and 1 it accepts, and the prime 2 it rejects.)\<close>

theorem mpi_is_prime_trial_rejects:
  assumes "mpi_ok X" "2 < nval (mpi_p X)"
    and "even (nval (mpi_p X)) \<or>
      (\<exists>p \<in> set (takeWhile (\<lambda>p. 0 < p) small_prime). p < int (nval (mpi_p X)) \<and> p dvd int (nval (mpi_p X)))"
  shows "mpi_is_prime al encrypt X rs = ok (False, X\<lparr>mpi_s := 1\<rparr>, rs)"
  by (rule is_prime_rejects [OF assms(1) _ assms(3)]) (use assms(2) in simp)

theorem mpi_is_prime_trial_rejects_witness:
  "mpi_is_prime (\<lambda>_. True) (\<lambda>_ _ _. []) \<lparr>mpi_s = - 1, mpi_p = [15]\<rparr> (RandomSupply_init (\<lambda>_ _. []) [] [])
    = ok (False, \<lparr>mpi_s = 1, mpi_p = [15]\<rparr>, RandomSupply_init (\<lambda>_ _. []) [] [])"
  using mpi_is_prime_trial_rejects [of "\<lparr>mpi_s = - 1, mpi_p = [15]\<rparr>" "\<lambda>_. True" "\<lambda>_ _ _. []" "RandomSupply_init (\<lambda>_ _. []) [] []"]
  by (simp add: mpi_ok_def small_prime_def)

text \<open>The numbers up to 2: the test accepts 0 and 1, and rejects the prime 2.\<close>

theorem mpi_is_prime_small:
  "mpi_is_prime al encrypt \<lparr>mpi_s = 1, mpi_p = [0]\<rparr> rs = ok (True, \<lparr>mpi_s = 1, mpi_p = [0]\<rparr>, rs)"
  "mpi_is_prime al encrypt \<lparr>mpi_s = 1, mpi_p = [1]\<rparr> rs = ok (True, \<lparr>mpi_s = 1, mpi_p = [1]\<rparr>, rs)"
  "mpi_is_prime al encrypt \<lparr>mpi_s = 1, mpi_p = [2]\<rparr> rs = ok (False, \<lparr>mpi_s = 1, mpi_p = [2]\<rparr>, rs)"
  by code_simp+

text \<open>C17. \<open>rsa_check_privkey\<close> accepts exactly the keys whose modulus and exponent are odd and of the allowed lengths,
  with \<open>N = P Q\<close> and \<open>D E = 1\<close> modulo \<open>(P - 1) (Q - 1)\<close>. It does not test that \<open>P\<close> and \<open>Q\<close> are prime, nor the
  exponents \<open>DP\<close> and \<open>DQ\<close> and the coefficient \<open>QP\<close> that \<open>rsa_private\<close> uses.\<close>

theorem rsa_check_privkey_exact:
  assumes "\<forall>k. al k"
    and "mpi_s (ctx_N ctx) = 1" "mpi_s (ctx_E ctx) = 1" "mpi_s (ctx_D ctx) = 1" "mpi_s (ctx_P ctx) = 1" "mpi_s (ctx_Q ctx) = 1"
    and "mpi_p (ctx_N ctx) \<noteq> []" "mpi_p (ctx_E ctx) \<noteq> []"
    and "n = nval (mpi_p (ctx_N ctx))" "e = nval (mpi_p (ctx_E ctx))" "d = nval (mpi_p (ctx_D ctx))"
      "p = nval (mpi_p (ctx_P ctx))" "q = nval (mpi_p (ctx_Q ctx))" and "1 < p" "1 < q"
  shows "rsa_check_privkey al ctx = Some (if pubkey_ok n e \<and> n = p * q \<and> d * e mod ((p - 1) * (q - 1)) = 1 then 0
    else POLARSSL_ERR_RSA_KEY_CHECK_FAILED)"
  by (rule check_privkey_ok [OF assms])

definition checked_key :: rsa_context where
  "checked_key = (rsa_init RSA_PKCS_V15 0)
    \<lparr>ctx_len := 17,
     ctx_N := \<lparr>mpi_s = 1, mpi_p = [1, 0, 3, 0, 2]\<rparr>,
     ctx_E := \<lparr>mpi_s = 1, mpi_p = [3]\<rparr>,
     ctx_D := \<lparr>mpi_s = 1, mpi_p = [2863311531, 2863311530, 2863311530, 2863311530]\<rparr>,
     ctx_P := \<lparr>mpi_s = 1, mpi_p = [1, 0, 1]\<rparr>,
     ctx_Q := \<lparr>mpi_s = 1, mpi_p = [1, 0, 2]\<rparr>\<rparr>"

theorem rsa_check_privkey_exact_witness:
  "rsa_check_privkey (\<lambda>_. True) checked_key = Some 0"
proof -
  have "rsa_check_privkey (\<lambda>_. True) checked_key = Some (if pubkey_ok 680564733841876926982089447084665077761 3
      \<and> (680564733841876926982089447084665077761 :: nat) = (2 ^ 64 + 1) * (2 ^ 65 + 1)
      \<and> (226854911280625642308916404954512140971 :: nat) * 3 mod ((2 ^ 64 + 1 - 1) * (2 ^ 65 + 1 - 1)) = 1 then 0
    else POLARSSL_ERR_RSA_KEY_CHECK_FAILED)"
    by (rule rsa_check_privkey_exact) (simp_all add: checked_key_def LB_def)
  then show ?thesis by (simp add: pubkey_ok_def)
qed

end
