(* ===== verification/DomainName.thy ===== *)
theory DomainName
  imports Wire LiteLib
begin

text \<open>
  Byte streams and domain names, \<open>src/common/crypto/ByteStream.cpp\<close> and \<open>DomainName.cpp\<close>. A result is an
  exception (\<open>Inl\<close>) or a value; \<open>None\<close> is an access outside an array. A buffer is the memory from its pointer on,
  which may go on beyond the size the caller states; \<open>raw\<close> gives the contents of fresh memory. Pointers are not null.
\<close>

unbundle bit_operations_syntax

datatype ExceptionType = BAD_INPUT | OUT_OF_MEMORY | BUFFER_OVERFLOW | INTEGER_OVERFLOW

type_synonym 'a cres = "(ExceptionType + 'a) option"

abbreviation ret :: "'a \<Rightarrow> 'a cres" where
  "ret x \<equiv> Some (Inr x)"

abbreviation Throw :: "ExceptionType \<Rightarrow> 'a cres" where
  "Throw e \<equiv> Some (Inl e)"

text \<open>Going on after a call that may throw.\<close>

definition run :: "'a cres \<Rightarrow> ('a \<Rightarrow> 'b cres) \<Rightarrow> 'b cres" where
  "run m f = (case m of None \<Rightarrow> None | Some (Inl e) \<Rightarrow> Throw e | Some (Inr x) \<Rightarrow> f x)"

lemma run_simps [simp]: "run (ret x) f = f x" "run (Throw e) f = Throw e" "run None f = None"
  by (simp_all add: run_def)

lemma run_ret: "run m f = ret y \<longleftrightarrow> (\<exists>x. m = ret x \<and> f x = ret y)"
  by (simp add: run_def split: option.split sum.split)

subsection \<open>Byte streams\<close>

record ByteStream =
  bs_buffer :: bytes
  bs_size :: u32
  bs_pos :: u32

definition ByteStream_new :: "bytes \<Rightarrow> u32 \<Rightarrow> ByteStream cres" where
  "ByteStream_new buffer sz =
    (if sz = 0 then Throw BAD_INPUT else ret \<lparr>bs_buffer = buffer, bs_size = sz, bs_pos = 0\<rparr>)"

definition assertBytesRemaining :: "ByteStream \<Rightarrow> u32 \<Rightarrow> unit cres" where
  "assertBytesRemaining s numBytes =
    (if bs_pos s + numBytes < bs_pos s \<or> bs_pos s + numBytes < numBytes then Throw INTEGER_OVERFLOW
     else if bs_pos s + numBytes > bs_size s then Throw BUFFER_OVERFLOW
     else ret ())"

definition assertInBounds :: "ByteStream \<Rightarrow> u32 \<Rightarrow> unit cres" where
  "assertInBounds s index = (if index \<ge> bs_size s then Throw BUFFER_OVERFLOW else ret ())"

definition bs_put :: "ByteStream \<Rightarrow> bytes \<Rightarrow> ByteStream cres" where
  "bs_put s xs =
    run (assertBytesRemaining s (of_nat (length xs))) (\<lambda>_.
    case wr_bytes (bs_buffer s) (unat (bs_pos s)) xs of None \<Rightarrow> None
    | Some b \<Rightarrow> ret (s\<lparr>bs_buffer := b, bs_pos := bs_pos s + of_nat (length xs)\<rparr>))"

definition bs_get :: "ByteStream \<Rightarrow> nat \<Rightarrow> (bytes \<times> ByteStream) cres" where
  "bs_get s n =
    run (assertBytesRemaining s (of_nat n)) (\<lambda>_.
    case rd_bytes (bs_buffer s) (unat (bs_pos s)) n of None \<Rightarrow> None
    | Some xs \<Rightarrow> ret (xs, s\<lparr>bs_pos := bs_pos s + of_nat n\<rparr>))"

definition put_u8 :: "ByteStream \<Rightarrow> u8 \<Rightarrow> ByteStream cres" where
  "put_u8 s v = bs_put s [v]"

definition put_u16 :: "ByteStream \<Rightarrow> u16 \<Rightarrow> ByteStream cres" where
  "put_u16 s v = bs_put s (bytes_of_u16 (z_htons v))"

text \<open>The 32-bit operators call the 16-bit conversion.\<close>

definition put_u32 :: "ByteStream \<Rightarrow> u32 \<Rightarrow> ByteStream cres" where
  "put_u32 s v = bs_put s (bytes_of_u32 (ucast (z_htons (ucast v))))"

definition get_u8 :: "ByteStream \<Rightarrow> (u8 \<times> ByteStream) cres" where
  "get_u8 s = run (bs_get s 1) (\<lambda>(xs, s). ret (xs ! 0, s))"

definition get_u16 :: "ByteStream \<Rightarrow> (u16 \<times> ByteStream) cres" where
  "get_u16 s = run (bs_get s 2) (\<lambda>(xs, s). ret (z_ntohs (u16_of_bytes xs), s))"

definition get_u32 :: "ByteStream \<Rightarrow> (u32 \<times> ByteStream) cres" where
  "get_u32 s = run (bs_get s 4) (\<lambda>(xs, s). ret (ucast (z_ntohs (ucast (u32_of_bytes xs))), s))"

definition bs_at :: "ByteStream \<Rightarrow> nat \<Rightarrow> u8 cres" where
  "bs_at s i = run (assertInBounds s (of_nat i)) (\<lambda>_. map_option Inr (rd (bs_buffer s) i))"

definition bs_set :: "ByteStream \<Rightarrow> nat \<Rightarrow> u8 \<Rightarrow> ByteStream cres" where
  "bs_set s i v =
    run (assertInBounds s (of_nat i)) (\<lambda>_. map_option (\<lambda>b. Inr (s\<lparr>bs_buffer := b\<rparr>)) (wr (bs_buffer s) i v))"

subsection \<open>Names from dotted strings\<close>

record DomainName =
  nameBytes :: bytes
  dn_len :: u16
  num_labels :: u8

definition MAX_DNS_NAME_LEN :: nat where "MAX_DNS_NAME_LEN = 255"

definition isLetter :: "u8 \<Rightarrow> bool" where
  "isLetter c \<longleftrightarrow> 97 \<le> c \<and> c \<le> 122 \<or> 65 \<le> c \<and> c \<le> 90"

definition isLetterDigit :: "u8 \<Rightarrow> bool" where
  "isLetterDigit c \<longleftrightarrow> 97 \<le> c \<and> c \<le> 122 \<or> 65 \<le> c \<and> c \<le> 90 \<or> 48 \<le> c \<and> c \<le> 57"

definition isLetterDigitHyphen :: "u8 \<Rightarrow> bool" where
  "isLetterDigitHyphen c \<longleftrightarrow> 97 \<le> c \<and> c \<le> 122 \<or> 65 \<le> c \<and> c \<le> 90 \<or> 48 \<le> c \<and> c \<le> 57 \<or> c = 45"

definition toLower :: "u8 \<Rightarrow> u8" where
  "toLower c = (if 65 \<le> c \<and> c \<le> 90 then 97 + (c - 65) else c)"

function label_scan :: "bytes \<Rightarrow> nat \<Rightarrow> nat \<Rightarrow> nat \<Rightarrow> nat option" where
  "label_scan name start len labelLen =
    (if labelLen < len
     then do {
       c \<leftarrow> rd name (start + labelLen);
       if \<not> isLetterDigitHyphen c then Some labelLen else label_scan name start len (labelLen + 1)
     }
     else Some labelLen)"
  by pat_completeness auto
termination by (relation "measure (\<lambda>(name, start, len, labelLen). len - labelLen)") auto

declare label_scan.simps [simp del]

definition checkLabel :: "bytes \<Rightarrow> nat \<Rightarrow> u32 \<Rightarrow> int option" where
  "checkLabel name start len =
    (if len = 0 then Some (- 1)
     else do {
       c \<leftarrow> rd name start;
       if \<not> isLetter c then Some (- 1)
       else do {
         labelLen \<leftarrow> label_scan name start (unat len) 1;
         c \<leftarrow> rd name (start + labelLen - 1);
         Some (if isLetterDigit c then int labelLen else - 1)
       }
     })"

text \<open>The result of \<open>checkLabel\<close> is stored in a byte, so that the comparison with -1 never holds.\<close>

function checkSubdomain :: "bytes \<Rightarrow> nat \<Rightarrow> u32 \<Rightarrow> int option" where
  "checkSubdomain name start len =
    (if len = 0 then Some (- 1)
     else case checkLabel name start len of None \<Rightarrow> None
       | Some r \<Rightarrow>
          let labelLen = (word_of_int r :: u8) in
          if int (unat labelLen) = - 1 then Some (- 1)
          else if ucast labelLen = len then Some (sint len)
          else if ucast labelLen > len - 2 then Some (- 1)
          else if length name \<le> start + unat labelLen then None
          else if name ! (start + unat labelLen) = 46
          then case checkSubdomain name (start + unat labelLen + 1) (len - ucast labelLen - 1) of None \<Rightarrow> None
            | Some s \<Rightarrow> if s \<noteq> - 1 then Some (sint len) else Some (- 1)
          else Some (- 1))"
  by pat_completeness auto
termination by (relation "measure (\<lambda>(name, start, len). length name - start)") auto

declare checkSubdomain.simps [simp del]

definition checkDomainName :: "bytes \<Rightarrow> u32 \<Rightarrow> bool option" where
  "checkDomainName name len =
    (if len = 0 then Some False
     else do {
       root \<leftarrow> (if len = 1 then map_option (\<lambda>c. c = 32) (rd name 0) else Some False);
       if root then Some True
       else do { r \<leftarrow> checkSubdomain name 0 len; Some (word_of_int r = len) }
     })"

fun copy_lower :: "bytes \<Rightarrow> nat \<Rightarrow> nat \<Rightarrow> bytes \<Rightarrow> bytes option" where
  "copy_lower name i 0 nb = Some nb"
| "copy_lower name i (Suc n) nb = do {
     c \<leftarrow> rd name i;
     nb \<leftarrow> wr nb i (toLower c);
     copy_lower name (i + 1) n nb
   }"

fun count_dots :: "bytes \<Rightarrow> nat \<Rightarrow> u8" where
  "count_dots name 0 = 0"
| "count_dots name (Suc i) = count_dots name i + (if name ! i = 46 then 1 else 0)"

text \<open>
  \<open>name\<close> is the memory at the string, \<open>len\<close> its stated size with the terminator. The copying loop counts in a byte up to
  \<open>nameLength + 1\<close>: with a length of 255 it leaves the array.
\<close>

definition DomainName_parse :: "(u32 \<Rightarrow> bytes) \<Rightarrow> bytes \<Rightarrow> u32 \<Rightarrow> DomainName cres" where
  "DomainName_parse raw name len =
    (case checkDomainName name (len - 1) of None \<Rightarrow> None
     | Some valid \<Rightarrow>
       if \<not> valid then Throw BAD_INPUT
       else case lite_strnlen name 0 (unat len) of None \<Rightarrow> None
       | Some l \<Rightarrow>
         let nameLength = (of_nat l :: u8) in
         if nameLength = 0 \<or> unat nameLength > MAX_DNS_NAME_LEN then Throw BAD_INPUT
         else if ucast nameLength = len \<and> name ! (unat nameLength - 1) \<noteq> 0 then Throw BAD_INPUT
         else case copy_lower name 0 (unat nameLength + 1) (raw 255) of None \<Rightarrow> None
         | Some nb \<Rightarrow>
            if nameLength = 1 \<and> name ! 0 = 32
            then ret \<lparr>nameBytes = nb, dn_len = 1, num_labels = 0\<rparr>
            else let n = count_dots name (unat nameLength) + 1
              in ret \<lparr>nameBytes = nb, dn_len = (ucast nameLength - (ucast n - 1)) + ucast n + 1, num_labels = n\<rparr>)"

definition DomainName_copy :: "(u32 \<Rightarrow> bytes) \<Rightarrow> DomainName \<Rightarrow> DomainName cres" where
  "DomainName_copy raw d =
    (case lite_strlen (nameBytes d) 0 of None \<Rightarrow> None
     | Some l \<Rightarrow> DomainName_parse raw (nameBytes d) (of_nat l + 1))"

subsection \<open>Names from the wire\<close>

fun copy_label :: "bytes \<Rightarrow> nat \<Rightarrow> nat \<Rightarrow> bytes \<Rightarrow> bytes option" where
  "copy_label buf p 0 nb = Some nb"
| "copy_label buf p (Suc n) nb = do {
     c \<leftarrow> rd buf (p + 1);
     nb \<leftarrow> wr nb p c;
     copy_label buf (p + 1) n nb
   }"

text \<open>The root label: the final period becomes the terminator.\<close>

definition end_name :: "bytes \<Rightarrow> nat \<Rightarrow> bytes option" where
  "end_name nb len =
    (if len = 0 then do { nb \<leftarrow> wr nb len 32; wr nb (len + 1) 0 }
     else wr nb (len - 1) 0)"

text \<open>The result: the bytes, the length, the number of labels and whether the root label was found.\<close>

function dns_loop :: "bytes \<Rightarrow> nat \<Rightarrow> bytes \<Rightarrow> nat \<Rightarrow> u8 \<Rightarrow> (bytes \<times> nat \<times> u8 \<times> bool) cres" where
  "dns_loop buf sz nb len n =
    (if len < min MAX_DNS_NAME_LEN sz
     then case rd buf len of None \<Rightarrow> None
       | Some labelLen \<Rightarrow>
          if len + unat labelLen + 1 > sz then Throw BAD_INPUT
          else case copy_label buf len (unat labelLen) nb of None \<Rightarrow> None
          | Some nb \<Rightarrow>
             if labelLen = 0
             then (case end_name nb len of None \<Rightarrow> None | Some nb \<Rightarrow> ret (nb, len + 1, n, True))
             else let n = (if \<not> (labelLen = 1 \<and> len + 1 < sz \<and> buf ! (len + 1) = 42) then n + 1 else n)
               in case wr nb (len + unat labelLen) 46 of None \<Rightarrow> None
                | Some nb \<Rightarrow> dns_loop buf sz nb (len + unat labelLen + 1) n
     else ret (nb, len, n, False))"
  by pat_completeness auto
termination by (relation "measure (\<lambda>(buf, sz, nb, len, n). sz - len)") auto

declare dns_loop.simps [simp del]

definition DomainName_dns :: "(u32 \<Rightarrow> bytes) \<Rightarrow> bytes \<Rightarrow> u32 \<Rightarrow> DomainName cres" where
  "DomainName_dns raw buf sz =
    (if sz = 0 then Throw BAD_INPUT
     else run (dns_loop buf (unat sz) (raw 255) 0 0) (\<lambda>(nb, len, n, wellFormed).
       if \<not> (len \<le> min MAX_DNS_NAME_LEN (unat sz) \<and> wellFormed) then Throw BAD_INPUT
       else ret \<lparr>nameBytes = nb, dn_len = of_nat len, num_labels = n\<rparr>))"

text \<open>The same from a byte stream, which checks every access.\<close>

fun stream_label :: "ByteStream \<Rightarrow> nat \<Rightarrow> nat \<Rightarrow> bytes \<Rightarrow> bytes cres" where
  "stream_label s p 0 nb = ret nb"
| "stream_label s p (Suc n) nb =
    run (bs_at s (p + 1)) (\<lambda>c.
    case wr nb p c of None \<Rightarrow> None | Some nb \<Rightarrow> stream_label s (p + 1) n nb)"

function stream_loop :: "ByteStream \<Rightarrow> bytes \<Rightarrow> nat \<Rightarrow> u8 \<Rightarrow> (bytes \<times> nat \<times> u8 \<times> bool) cres" where
  "stream_loop s nb len n =
    (if len < MAX_DNS_NAME_LEN
     then run (bs_at s len) (\<lambda>labelLen.
          run (stream_label s len (unat labelLen) nb) (\<lambda>nb.
          if labelLen = 0
          then (case end_name nb len of None \<Rightarrow> None | Some nb \<Rightarrow> ret (nb, len + 1, n, True))
          else run (if labelLen = 1 then bs_at s (len + 1) else ret 0) (\<lambda>c.
            let n = (if \<not> (labelLen = 1 \<and> c = 42) then n + 1 else n)
            in case wr nb (len + unat labelLen) 46 of None \<Rightarrow> None
             | Some nb \<Rightarrow> stream_loop s nb (len + unat labelLen + 1) n)))
     else ret (nb, len, n, False))"
  by pat_completeness auto
termination by (relation "measure (\<lambda>(s, nb, len, n). MAX_DNS_NAME_LEN - len)") auto

declare stream_loop.simps [simp del]

definition DomainName_stream :: "(u32 \<Rightarrow> bytes) \<Rightarrow> ByteStream \<Rightarrow> DomainName cres" where
  "DomainName_stream raw s =
    run (stream_loop s (raw 255) 0 0) (\<lambda>(nb, len, n, wellFormed).
    if \<not> (len \<le> MAX_DNS_NAME_LEN \<and> wellFormed) then Throw BAD_INPUT
    else ret \<lparr>nameBytes = nb, dn_len = of_nat len, num_labels = n\<rparr>)"

subsection \<open>Writing and comparing\<close>

definition DomainName_size :: "DomainName \<Rightarrow> u32" where
  "DomainName_size d = ucast (dn_len d)"

text \<open>\<open>off\<close> is the place of the name in the buffer.\<close>

function ser_loop :: "bytes \<Rightarrow> nat \<Rightarrow> nat \<Rightarrow> nat \<Rightarrow> u8 \<Rightarrow> u8 \<Rightarrow> bytes \<Rightarrow> (u8 \<times> u8 \<times> bytes) option" where
  "ser_loop nb n i off labelPos labelLen buf =
    (if i < n
     then if nb ! i = 46
       then case wr buf (off + unat labelPos) labelLen of None \<Rightarrow> None
         | Some buf \<Rightarrow> ser_loop nb n (i + 1) off (of_nat (i + 1)) 0 buf
       else if nb ! i = 32
       then case wr buf (off + i) 0 of None \<Rightarrow> None
         | Some buf \<Rightarrow> ser_loop nb n (i + 1) off labelPos labelLen buf
       else case wr buf (off + (i + 1)) (toLower (nb ! i)) of None \<Rightarrow> None
         | Some buf \<Rightarrow> ser_loop nb n (i + 1) off labelPos (labelLen + 1) buf
     else Some (labelPos, labelLen, buf))"
  by pat_completeness auto
termination by (relation "measure (\<lambda>(nb, n, i, off, labelPos, labelLen, buf). n - i)") auto

declare ser_loop.simps [simp del]

definition DomainName_serialize :: "DomainName \<Rightarrow> bytes \<Rightarrow> nat \<Rightarrow> (u32 \<times> bytes) option" where
  "DomainName_serialize d buf off = do {
     n \<leftarrow> lite_strlen (nameBytes d) 0;
     (labelPos, labelLen, buf) \<leftarrow> ser_loop (nameBytes d) n 0 off 0 0 buf;
     buf \<leftarrow> wr buf (off + unat labelPos) labelLen;
     buf \<leftarrow> wr buf (off + unat (dn_len d) - 1) 0;
     Some (ucast (dn_len d), buf)
   }"

text \<open>The same into a byte stream, by index.\<close>

function ser_stream_loop :: "bytes \<Rightarrow> nat \<Rightarrow> nat \<Rightarrow> u8 \<Rightarrow> u8 \<Rightarrow> ByteStream \<Rightarrow> (u8 \<times> u8 \<times> ByteStream) cres" where
  "ser_stream_loop nb n i labelPos labelLen s =
    (if i < n
     then if nb ! i = 46
       then run (bs_set s (unat labelPos) labelLen) (\<lambda>s. ser_stream_loop nb n (i + 1) (of_nat (i + 1)) 0 s)
       else if nb ! i = 32
       then run (bs_set s i 0) (\<lambda>s. ser_stream_loop nb n (i + 1) labelPos labelLen s)
       else run (bs_set s (i + 1) (toLower (nb ! i))) (\<lambda>s. ser_stream_loop nb n (i + 1) labelPos (labelLen + 1) s)
     else ret (labelPos, labelLen, s))"
  by pat_completeness auto
termination by (relation "measure (\<lambda>(nb, n, i, labelPos, labelLen, s). n - i)") auto

declare ser_stream_loop.simps [simp del]

definition DomainName_serialize_stream :: "DomainName \<Rightarrow> ByteStream \<Rightarrow> (u32 \<times> ByteStream) cres" where
  "DomainName_serialize_stream d s =
    (case lite_strlen (nameBytes d) 0 of None \<Rightarrow> None
     | Some n \<Rightarrow>
       run (ser_stream_loop (nameBytes d) n 0 0 0 s) (\<lambda>(labelPos, labelLen, s).
       run (bs_set s (unat labelPos) labelLen) (\<lambda>s.
       run (bs_set s (unat (dn_len d) - 1) 0) (\<lambda>s.
       ret (ucast (dn_len d), s)))))"

text \<open>\<open>k\<close> is \<open>parentPos + 1\<close>; the result says whether all characters matched, and where the comparison ended.\<close>

fun suffix_loop :: "bytes \<Rightarrow> bytes \<Rightarrow> nat \<Rightarrow> int \<Rightarrow> (bool \<times> int) option" where
  "suffix_loop nb pb 0 pos = Some (True, pos)"
| "suffix_loop nb pb (Suc k) pos =
    (if pos < 0 then None
     else do {
       c \<leftarrow> rd nb (nat pos);
       p \<leftarrow> rd pb k;
       if c \<noteq> p then Some (False, pos) else suffix_loop nb pb k (pos - 1)
     })"

definition DomainName_suffix :: "DomainName \<Rightarrow> DomainName \<Rightarrow> bool option" where
  "DomainName_suffix d parent =
    (if \<not> dn_len parent \<le> dn_len d then Some False
     else if dn_len parent = 1 then Some True
     else do {
       k \<leftarrow> lite_strlen (nameBytes parent) 0;
       n \<leftarrow> lite_strlen (nameBytes d) 0;
       (same, pos) \<leftarrow> suffix_loop (nameBytes d) (nameBytes parent) k (int n - 1);
       if \<not> same then Some False
       else if pos < 0 then Some True
       else Some (nameBytes d ! nat pos = 46)
     })"

fun same_bytes :: "bytes \<Rightarrow> bytes \<Rightarrow> nat \<Rightarrow> nat \<Rightarrow> bool option" where
  "same_bytes a b i 0 = Some True"
| "same_bytes a b i (Suc n) = do {
     x \<leftarrow> rd a i;
     y \<leftarrow> rd b i;
     if x \<noteq> y then Some False else same_bytes a b (i + 1) n
   }"

definition DomainName_eq :: "DomainName \<Rightarrow> DomainName \<Rightarrow> bool option" where
  "DomainName_eq a b =
    (if dn_len a \<noteq> dn_len b \<or> num_labels a \<noteq> num_labels b then Some False
     else do { n \<leftarrow> lite_strlen (nameBytes a) 0; same_bytes (nameBytes a) (nameBytes b) 0 n })"

end
