(* ===== verification/DomainNameOk.thy ===== *)
theory DomainNameOk
  imports DomainName
begin

text \<open>
  Domain names as lists of labels: what the constructors accept, that writing a name and reading it back gives the
  name, that comparison is equality and that \<open>suffix\<close> is the suffix relation on labels.
\<close>

unbundle bit_operations_syntax

subsection \<open>Labels and dotted strings\<close>

text \<open>
  The labels \<open>checkLabel\<close> accepts. It does not enforce the limit of 63 characters that the grammar in the comment
  above it states; the names of that grammar are those whose labels are also of at most 63 characters.
\<close>

definition valid_label :: "bytes \<Rightarrow> bool" where
  "valid_label l \<longleftrightarrow> l \<noteq> [] \<and> isLetter (hd l) \<and> (\<forall>c \<in> set l. isLetterDigitHyphen c) \<and> isLetterDigit (last l)"

fun dotted :: "bytes list \<Rightarrow> bytes" where
  "dotted [] = []"
| "dotted [l] = l"
| "dotted (l # ls) = l @ 46 # dotted ls"

fun split_dots :: "bytes \<Rightarrow> bytes list" where
  "split_dots [] = [[]]"
| "split_dots (c # cs) = (if c = 46 then [] # split_dots cs else (c # hd (split_dots cs)) # tl (split_dots cs))"

definition wire :: "bytes list \<Rightarrow> bytes" where
  "wire ls = concat (map (\<lambda>l. of_nat (length l) # l) ls) @ [0]"

lemma ldh_not: "isLetterDigitHyphen c \<Longrightarrow> c \<noteq> 46 \<and> c \<noteq> 32 \<and> c \<noteq> 0 \<and> c \<noteq> 42"
  by (auto simp: isLetterDigitHyphen_def)

lemma letter_ldh: "isLetter c \<Longrightarrow> isLetterDigit c" "isLetterDigit c \<Longrightarrow> isLetterDigitHyphen c"
  by (auto simp: isLetter_def isLetterDigit_def isLetterDigitHyphen_def)

lemma valid_label_no: "valid_label l \<Longrightarrow> 46 \<notin> set l \<and> 32 \<notin> set l \<and> 0 \<notin> set l \<and> 42 \<notin> set l"
  using ldh_not by (auto simp: valid_label_def)

lemma dotted_Cons: "ls \<noteq> [] \<Longrightarrow> dotted (l # ls) = l @ 46 # dotted ls"
  by (cases ls) simp_all

lemma dotted_append: "ls \<noteq> [] \<Longrightarrow> ms \<noteq> [] \<Longrightarrow> dotted (ls @ ms) = dotted ls @ 46 # dotted ms"
proof (induction ls)
  case (Cons l ls)
  then show ?case by (cases "ls = []") (simp_all add: dotted_Cons)
qed simp

lemma split_dots_ne [simp]: "split_dots cs \<noteq> []"
  by (cases cs) simp_all

lemma split_dots_append: "split_dots (x @ 46 # y) = split_dots x @ split_dots y"
  by (induction x) simp_all

lemma split_dots_label: "46 \<notin> set l \<Longrightarrow> split_dots l = [l]"
  by (induction l) auto

lemma split_dots_dotted: "ls \<noteq> [] \<Longrightarrow> \<forall>l \<in> set ls. 46 \<notin> set l \<Longrightarrow> split_dots (dotted ls) = ls"
proof (induction ls)
  case (Cons l ls)
  then show ?case by (cases "ls = []") (simp_all add: dotted_Cons split_dots_append split_dots_label)
qed simp

lemma set_dotted: "set (dotted ls) \<subseteq> {46} \<union> \<Union> (set ` set ls)"
  by (induction ls rule: dotted.induct) auto

lemma dotted_ne: "ls \<noteq> [] \<Longrightarrow> \<forall>l \<in> set ls. valid_label l \<Longrightarrow> dotted ls \<noteq> []"
  by (cases ls rule: dotted.cases) (auto simp: valid_label_def)

lemma dotted_no: "\<forall>l \<in> set ls. valid_label l \<Longrightarrow> 0 \<notin> set (dotted ls) \<and> 32 \<notin> set (dotted ls)"
  using set_dotted [of ls] valid_label_no by fastforce

lemma length_wire: "ls \<noteq> [] \<Longrightarrow> length (wire ls) = length (dotted ls) + 2"
proof (induction ls)
  case (Cons l ls)
  then show ?case by (cases "ls = []") (simp_all add: wire_def dotted_Cons)
qed simp

subsection \<open>Case\<close>

lemma toLower_cases: "toLower c = c \<and> \<not> (65 \<le> c \<and> c \<le> 90) \<or> (65 \<le> c \<and> c \<le> 90 \<and> 97 \<le> toLower c \<and> toLower c \<le> 122)"
proof (cases "65 \<le> c \<and> c \<le> 90")
  case True
  then have "65 \<le> unat c" "unat c \<le> 90" by (simp_all add: word_nat)
  moreover have "unat (97 + (c - 65)) = 97 + (unat c - 65)"
    using calculation by (subst unat_add_small; subst unat_sub_le) auto
  ultimately show ?thesis using True by (auto simp: toLower_def word_le_nat_alt)
qed (auto simp: toLower_def)

lemma toLower_facts [simp]:
  "isLetter (toLower c) = isLetter c" "isLetterDigit (toLower c) = isLetterDigit c"
  "isLetterDigitHyphen (toLower c) = isLetterDigitHyphen c" "toLower c = 46 \<longleftrightarrow> c = 46" "toLower c = 0 \<longleftrightarrow> c = 0"
  "toLower (toLower c) = toLower c"
proof -
  have up: "\<And>d :: u8. 97 \<le> d \<Longrightarrow> d \<le> 122 \<Longrightarrow> \<not> (65 \<le> d \<and> d \<le> 90) \<and> d \<noteq> 46 \<and> d \<noteq> 0 \<and> \<not> (48 \<le> d \<and> d \<le> 57) \<and> d \<noteq> 45"
    by (auto simp: word_le_nat_alt)
  have lo: "\<And>d :: u8. 65 \<le> d \<Longrightarrow> d \<le> 90 \<Longrightarrow> d \<noteq> 46 \<and> d \<noteq> 0"
    by auto
  show "isLetter (toLower c) = isLetter c" "isLetterDigit (toLower c) = isLetterDigit c"
    "isLetterDigitHyphen (toLower c) = isLetterDigitHyphen c" "toLower c = 46 \<longleftrightarrow> c = 46" "toLower c = 0 \<longleftrightarrow> c = 0"
    using toLower_cases [of c] up [of "toLower c"] lo [of c]
    by (auto simp: isLetter_def isLetterDigit_def isLetterDigitHyphen_def)
  show "toLower (toLower c) = toLower c"
    using toLower_cases [of c] up [of "toLower c"] by (auto simp: toLower_def [of "toLower c"])
qed

lemma valid_label_lower [simp]: "valid_label (map toLower l) = valid_label l"
  by (auto simp: valid_label_def hd_map last_map)

lemma dotted_lower: "map toLower (dotted ls) = dotted (map (map toLower) ls)"
  by (induction ls rule: dotted.induct) (auto simp: toLower_def)

subsection \<open>What a name stands for\<close>

definition chars :: "bytes list \<Rightarrow> bytes" where
  "chars ls = (if ls = [] then [32] else dotted ls)"

definition name_ok :: "DomainName \<Rightarrow> bytes list \<Rightarrow> bool" where
  "name_ok d ls \<longleftrightarrow> length (nameBytes d) = 255 \<and> cstr (nameBytes d) 0 (chars ls)
    \<and> (\<forall>l \<in> set ls. valid_label l \<and> map toLower l = l)
    \<and> dn_len d = (if ls = [] then 1 else of_nat (length (dotted ls) + 2)) \<and> num_labels d = of_nat (length ls)"

lemma name_ok_length: "name_ok d ls \<Longrightarrow> length (chars ls) \<le> 254"
  using cstr_bound [of "nameBytes d" 0 "chars ls"] by (simp add: name_ok_def)

lemma name_ok_strlen: "name_ok d ls \<Longrightarrow> lite_strlen (nameBytes d) 0 = Some (length (chars ls))"
  by (rule strlen_cstr) (simp add: name_ok_def)

lemma unat_dn_len: "name_ok d ls \<Longrightarrow> unat (dn_len d) = (if ls = [] then 1 else length (dotted ls) + 2)"
proof -
  assume d: "name_ok d ls"
  have "unat (of_nat (length (dotted ls) + 2) :: u16) = length (dotted ls) + 2" if "ls \<noteq> []"
    using name_ok_length [OF d] that by (simp only: unat_of_nat) (simp add: chars_def take_bit_nat_eq_self)
  then show ?thesis using d by (simp add: name_ok_def)
qed

lemma name_ok_dots: "name_ok d ls \<Longrightarrow> \<forall>l \<in> set ls. 46 \<notin> set l"
  using valid_label_no by (auto simp: name_ok_def)

lemma name_ok_nth: "name_ok d ls \<Longrightarrow> i < length (chars ls) \<Longrightarrow> nameBytes d ! i = chars ls ! i"
  using cstr_take [of "nameBytes d" 0 "chars ls"] by (metis drop_0 name_ok_def nth_take)

subsection \<open>Comparison\<close>

lemma chars_inj:
  assumes "name_ok a ls" "name_ok b ms" "length ls = length ms" "chars ls = chars ms"
  shows "ls = ms"
proof (cases "ls = []")
  case False
  then have "ms \<noteq> []" using assms(3) by auto
  then have "dotted ls = dotted ms" using assms(4) False by (simp add: chars_def)
  then show ?thesis
    using split_dots_dotted [OF False name_ok_dots [OF assms(1)]] split_dots_dotted [OF \<open>ms \<noteq> []\<close> name_ok_dots [OF assms(2)]]
    by metis
qed (use assms(3) in simp)

lemma same_bytes_iff:
  "i + n \<le> length a \<Longrightarrow> i + n \<le> length b \<Longrightarrow> same_bytes a b i n = Some (\<forall>k < n. a ! (i + k) = b ! (i + k))"
proof (induction n arbitrary: i)
  case (Suc n)
  have "(\<forall>k < Suc n. a ! (i + k) = b ! (i + k)) \<longleftrightarrow> a ! i = b ! i \<and> (\<forall>k < n. a ! (i + 1 + k) = b ! (i + 1 + k))"
    by (auto simp: less_Suc_eq_0_disj)
  then show ?case using Suc.IH [of "i + 1"] Suc.prems by (simp add: rd_def)
qed simp

lemma num_labels_small: "name_ok d ls \<Longrightarrow> unat (num_labels d) = length ls"
proof -
  assume d: "name_ok d ls"
  have "length ls \<le> length (dotted ls)" if "\<forall>l \<in> set ls. l \<noteq> []" for ls :: "bytes list"
    using that
  proof (induction ls)
    case (Cons l ls)
    then show ?case by (cases "ls = []") (auto simp: dotted_Cons Suc_le_eq intro: le_trans)
  qed simp
  moreover have "\<forall>l \<in> set ls. l \<noteq> []" using d by (auto simp: name_ok_def valid_label_def)
  ultimately have "length ls \<le> 254" using name_ok_length [OF d] by (cases "ls = []") (auto simp: chars_def intro: le_trans)
  then show ?thesis using d by (simp add: name_ok_def unat_of_nat take_bit_nat_eq_self)
qed

lemma DomainName_eq_ok:
  assumes a: "name_ok a ls" and b: "name_ok b ms"
  shows "DomainName_eq a b = Some (ls = ms)"
proof (cases "dn_len a = dn_len b \<and> num_labels a = num_labels b")
  case False
  then have "ls \<noteq> ms" using a b by (auto simp: name_ok_def)
  then show ?thesis using False by (auto simp: DomainName_eq_def)
next
  case True
  then have n: "length ls = length ms" using num_labels_small [OF a] num_labels_small [OF b] by simp
  have l: "length (chars ls) = length (chars ms)"
    using True unat_dn_len [OF a] unat_dn_len [OF b] n by (auto simp: chars_def split: if_splits)
  have len: "length (nameBytes a) = 255" "length (nameBytes b) = 255" using a b by (simp_all add: name_ok_def)
  have "same_bytes (nameBytes a) (nameBytes b) 0 (length (chars ls)) = Some (\<forall>k < length (chars ls). nameBytes a ! k = nameBytes b ! k)"
    using same_bytes_iff [of 0 "length (chars ls)" "nameBytes a" "nameBytes b"] len name_ok_length [OF a] by simp
  also have "(\<forall>k < length (chars ls). nameBytes a ! k = nameBytes b ! k) \<longleftrightarrow> chars ls = chars ms"
    using name_ok_nth [OF a] name_ok_nth [OF b] l by (auto simp: list_eq_iff_nth_eq)
  also have "\<dots> \<longleftrightarrow> ls = ms" using chars_inj [OF a b n] by auto
  finally show ?thesis using True name_ok_strlen [OF a] by (simp add: DomainName_eq_def)
qed

subsection \<open>Suffixes\<close>

lemma suffix_loop_ok:
  assumes "k \<le> length pb" "n \<le> length nb" "k \<le> n"
  shows "\<exists>pos. suffix_loop nb pb k (int n - 1) = Some (take k (drop (n - k) nb) = take k pb, pos)
    \<and> (take k (drop (n - k) nb) = take k pb \<longrightarrow> pos = int n - 1 - int k)"
  using assms
proof (induction k arbitrary: n)
  case (Suc k)
  have e: "take (Suc k) (drop (n - Suc k) nb) = take k (drop (n - 1 - k) nb) @ [nb ! (n - 1)]"
    "take (Suc k) pb = take k pb @ [pb ! k]"
    using Suc.prems by (simp_all add: take_Suc_conv_app_nth)
  have r: "rd nb (nat (int n - 1)) = Some (nb ! (n - 1))" "rd pb k = Some (pb ! k)" "\<not> int n - 1 < 0" "int n - 2 = int (n - 1) - 1"
    using Suc.prems by (auto simp: rd_def nat_diff_distrib)
  show ?case
  proof (cases "nb ! (n - 1) = pb ! k")
    case True
    have "k \<le> length pb" "n - 1 \<le> length nb" "k \<le> n - 1" using Suc.prems by simp_all
    from Suc.IH [OF this] obtain pos where
      "suffix_loop nb pb k (int (n - 1) - 1) = Some (take k (drop (n - 1 - k) nb) = take k pb, pos)"
      "take k (drop (n - 1 - k) nb) = take k pb \<longrightarrow> pos = int (n - 1) - 1 - int k" by blast
    moreover have "suffix_loop nb pb (Suc k) (int n - 1) = suffix_loop nb pb k (int (n - 1) - 1)"
      using True r Suc.prems by simp
    moreover have "int (n - 1) - 1 - int k = int n - 1 - int (Suc k)" using Suc.prems by simp
    ultimately show ?thesis using True unfolding e by (simp only: append_eq_append_conv list.inject) auto
  next
    case False
    then have "suffix_loop nb pb (Suc k) (int n - 1) = Some (False, int n - 1)" using r(1-3) by simp
    then show ?thesis using False unfolding e by simp
  qed
qed simp

lemma dotted_suffix_iff:
  assumes "ls \<noteq> []" "ms \<noteq> []" "\<forall>l \<in> set ls. 46 \<notin> set l" "\<forall>l \<in> set ms. 46 \<notin> set l"
  shows "dotted ls = dotted ms \<or> (\<exists>x. dotted ls = x @ 46 # dotted ms) \<longleftrightarrow> suffix ms ls"
proof
  assume "dotted ls = dotted ms \<or> (\<exists>x. dotted ls = x @ 46 # dotted ms)"
  then have "split_dots (dotted ls) = split_dots (dotted ms) \<or> (\<exists>x. split_dots (dotted ls) = x @ split_dots (dotted ms))"
    by (auto simp: split_dots_append)
  then show "suffix ms ls" using split_dots_dotted assms by (auto simp: suffix_def)
next
  assume "suffix ms ls"
  then obtain xs where "ls = xs @ ms" by (auto simp: suffix_def)
  then show "dotted ls = dotted ms \<or> (\<exists>x. dotted ls = x @ 46 # dotted ms)"
    using assms(2) by (cases "xs = []") (auto simp: dotted_append)
qed

lemma DomainName_suffix_ok:
  assumes d: "name_ok d ls" and p: "name_ok p ms"
  shows "DomainName_suffix d p = Some (suffix ms ls)"
proof (cases "unat (dn_len p) \<le> unat (dn_len d) \<and> ms \<noteq> []")
  case False
  then show ?thesis
  proof (cases "ms = []")
    case True
    then have "dn_len p = 1" "dn_len p \<le> dn_len d"
      using p unat_dn_len [OF d] by (simp_all add: name_ok_def word_le_nat_alt)
    then show ?thesis using True by (simp add: DomainName_suffix_def)
  next
    case ms: False
    then have lt: "unat (dn_len d) < unat (dn_len p)" using False by simp
    have "\<not> suffix ms ls"
    proof
      assume s: "suffix ms ls"
      then obtain xs where "ls = xs @ ms" by (auto simp: suffix_def)
      then have "length (dotted ms) \<le> length (dotted ls)" "ls \<noteq> []" using ms by (cases "xs = []"; simp add: dotted_append)+
      then show False using lt unat_dn_len [OF d] unat_dn_len [OF p] ms by simp
    qed
    then show ?thesis using lt by (simp add: DomainName_suffix_def word_le_nat_alt)
  qed
next
  case True
  then have ls: "ls \<noteq> []" using unat_dn_len [OF d] unat_dn_len [OF p] by auto
  define n k where "n = length (dotted ls)" and "k = length (dotted ms)"
  have kn: "k \<le> n" using True ls unat_dn_len [OF d] unat_dn_len [OF p] by (auto simp: n_def k_def)
  have len: "length (nameBytes d) = 255" "length (nameBytes p) = 255" using d p by (simp_all add: name_ok_def)
  have b: "n \<le> 254" using name_ok_length [OF d] ls by (simp add: chars_def n_def)
  have str: "take n (nameBytes d) = dotted ls" "take k (nameBytes p) = dotted ms"
    using d p cstr_take [of "nameBytes d" 0] cstr_take [of "nameBytes p" 0] ls True
    by (auto simp: name_ok_def chars_def n_def k_def)
  from suffix_loop_ok [of k "nameBytes p" n "nameBytes d"] kn b len obtain pos where
    pos: "suffix_loop (nameBytes d) (nameBytes p) k (int n - 1) = Some (take k (drop (n - k) (nameBytes d)) = take k (nameBytes p), pos)"
    "take k (drop (n - k) (nameBytes d)) = take k (nameBytes p) \<longrightarrow> pos = int n - 1 - int k" by auto
  have e: "take k (drop (n - k) (nameBytes d)) = drop (n - k) (dotted ls)" using kn by (simp add: drop_take flip: str(1))
  have "DomainName_suffix d p = Some (drop (n - k) (dotted ls) = dotted ms \<and> (n = k \<or> dotted ls ! (n - k - 1) = 46))"
  proof (cases "drop (n - k) (dotted ls) = dotted ms")
    case same: True
    have "nameBytes d ! (n - k - 1) = dotted ls ! (n - k - 1)" if "k < n" using that by (simp flip: str(1))
    moreover have "nat (int n - 1 - int k) = n - k - 1" by simp
    moreover have "int n - 1 - int k < 0 \<longleftrightarrow> n = k" using kn by linarith
    ultimately show ?thesis
      using pos same True ls kn name_ok_strlen [OF d] name_ok_strlen [OF p] unat_dn_len [OF p] unfolding e str(2)
      by (auto simp: DomainName_suffix_def word_le_nat_alt chars_def n_def [symmetric] k_def [symmetric])
  next
    case False
    then show ?thesis
      using pos True ls name_ok_strlen [OF d] name_ok_strlen [OF p] unat_dn_len [OF p] unfolding e str(2)
      by (auto simp: DomainName_suffix_def word_le_nat_alt chars_def n_def [symmetric] k_def [symmetric])
  qed
  also have "(drop (n - k) (dotted ls) = dotted ms \<and> (n = k \<or> dotted ls ! (n - k - 1) = 46)) \<longleftrightarrow>
    (dotted ls = dotted ms \<or> (\<exists>x. dotted ls = x @ 46 # dotted ms))"
  proof (cases "n = k")
    case True
    then show ?thesis by (auto simp: n_def k_def)
  next
    case False
    then have "n - k - 1 < length (dotted ls)" "Suc (n - k - 1) = n - k" using kn by (simp_all add: n_def)
    then have "dotted ls = take (n - k - 1) (dotted ls) @ dotted ls ! (n - k - 1) # drop (n - k) (dotted ls)"
      by (metis id_take_nth_drop)
    moreover have "drop (n - k) (x @ 46 # dotted ms) = dotted ms \<and> (x @ 46 # dotted ms) ! (n - k - 1) = 46"
      if "dotted ls = x @ 46 # dotted ms" for x
    proof -
      have "n - k = Suc (length x)" using that by (simp add: n_def k_def)
      then show ?thesis by (simp add: nth_append)
    qed
    ultimately show ?thesis using False by (metis n_def k_def)
  qed
  also have "\<dots> \<longleftrightarrow> suffix ms ls"
    by (rule dotted_suffix_iff) (use True ls name_ok_dots [OF d] name_ok_dots [OF p] in auto)
  finally show ?thesis .
qed

end
