(* ===== verification/DomainNameIO.thy ===== *)
theory DomainNameIO
  imports DomainNameOk
begin

text \<open>
  Reading and writing domain names: the check of dotted strings accepts the names of the grammar, a copy of a name is the
  name, and the bytes written for a name are read back as the name.
\<close>

unbundle bit_operations_syntax

lemma field_append: "field b i (xs @ ys) \<longleftrightarrow> field b i xs \<and> field b (i + length xs) ys"
proof (cases "i + length xs + length ys \<le> length b")
  case True
  then have "take (length xs + length ys) (drop i b) = xs @ ys \<longleftrightarrow>
    take (length xs) (drop i b) = xs \<and> take (length ys) (drop (i + length xs) b) = ys"
    by (simp add: take_add append_eq_append_conv add.commute)
  then show ?thesis using True by (simp add: field_def)
qed (auto simp: field_def)

lemma field_Cons: "field b i (x # xs) \<longleftrightarrow> i < length b \<and> b ! i = x \<and> field b (Suc i) xs"
  using field_append [of b i "[x]" xs] by (auto simp: field_def take_Suc_conv_app_nth)

subsection \<open>The grammar\<close>

lemma label_scan_ok:
  assumes "k \<le> m" "m \<le> len" "start + m \<le> length name" "\<forall>j. k \<le> j \<and> j < m \<longrightarrow> isLetterDigitHyphen (name ! (start + j))"
    "m = len \<or> (start + m < length name \<and> \<not> isLetterDigitHyphen (name ! (start + m)))"
  shows "label_scan name start len k = Some m"
  using assms
proof (induction "m - k" arbitrary: k)
  case 0
  then have "k = m" by simp
  then show ?case using "0.prems" by (subst label_scan.simps) (auto simp: rd_def)
next
  case (Suc x)
  then have "label_scan name start len (k + 1) = Some m" by (intro Suc.hyps(1)) auto
  moreover have "k < m" using Suc.hyps(2) by simp
  ultimately show ?case using Suc.prems by (subst label_scan.simps) (simp add: rd_def)
qed

lemma checkLabel_ok:
  assumes "valid_label l" "field name start l" "length l \<le> unat len"
    "length l = unat len \<or> (start + length l < length name \<and> name ! (start + length l) = 46)"
  shows "checkLabel name start len = Some (int (length l))"
proof -
  have f: "start + length l \<le> length name" "\<forall>k < length l. name ! (start + k) = l ! k"
    using assms(2) by (auto simp: field_iff_nth)
  have l: "l \<noteq> []" "isLetter (l ! 0)" "\<forall>j < length l. isLetterDigitHyphen (l ! j)" "isLetterDigit (l ! (length l - 1))"
    using assms(1) by (auto simp: valid_label_def hd_conv_nth last_conv_nth)
  have "label_scan name start (unat len) 1 = Some (length l)"
  proof (rule label_scan_ok)
    show "1 \<le> length l" using l(1) by (simp add: Suc_le_eq)
    show "length l = unat len \<or> (start + length l < length name \<and> \<not> isLetterDigitHyphen (name ! (start + length l)))"
      using assms(4) ldh_not [of 46] by auto
  qed (use assms(3) f l(3) in auto)
  moreover have "start + length l - 1 = start + (length l - 1)" using l(1) by (cases l) simp_all
  then have "name ! start = l ! 0" "name ! (start + length l - 1) = l ! (length l - 1)"
    using f(2) [rule_format, of 0] f(2) [rule_format, of "length l - 1"] l(1) by simp_all
  moreover have "len \<noteq> 0" "start < length name" "start + length l - 1 < length name" using l(1) assms(3) f(1) by (cases l; auto)+
  ultimately show ?thesis using l(2,4) by (simp add: checkLabel_def rd_def)
qed

text \<open>One step of \<open>checkSubdomain\<close>, with the byte the label length is stored in.\<close>

lemma checkSubdomain_step:
  assumes c: "checkLabel name start len = Some c" and "len \<noteq> 0" and w: "unat (word_of_int c :: u8) = w"
  shows "checkSubdomain name start len =
    (if w = unat len then Some (sint len) else if unat (len - 2) < w then Some (- 1)
     else if length name \<le> start + w then None
     else if name ! (start + w) = 46
     then case checkSubdomain name (start + w + 1) (len - of_nat w - 1) of None \<Rightarrow> None
       | Some s \<Rightarrow> if s \<noteq> - 1 then Some (sint len) else Some (- 1)
     else Some (- 1))"
proof -
  define v where "v = (word_of_int c :: u8)"
  have u: "unat (ucast v :: u32) = w" "ucast v = (of_nat w :: u32)" "unat v = w"
  proof -
    show "unat v = w" using w by (simp add: v_def)
    then show "ucast v = (of_nat w :: u32)" by auto
    moreover have "w < 2 ^ 32" using \<open>unat v = w\<close> unat_less_exp [of v] by simp
    ultimately show "unat (ucast v :: u32) = w" by (simp only: unat_of_nat_u32)
  qed
  then have "ucast v = len \<longleftrightarrow> w = unat len" "len - 2 < ucast v \<longleftrightarrow> unat (len - 2) < w"
    by (auto simp: word_unat_eq_iff word_less_nat_alt)
  moreover have "int (unat v) \<noteq> - 1" by linarith
  ultimately show ?thesis
    using c assms(2) u(2,3) by (subst checkSubdomain.simps) (simp only: option.case Let_def v_def [symmetric] if_False)
qed

lemma byte_of_label: "n \<le> 254 \<Longrightarrow> unat (word_of_int (int n) :: u8) = n" "unat (word_of_int (- 1) :: u8) = 255"
  by (simp_all add: unat_of_nat take_bit_nat_eq_self) code_simp

lemma rest_length: "n < unat len \<Longrightarrow> unat (len - of_nat n - 1 :: u32) = unat len - n - 1"
proof -
  assume n: "n < unat len"
  then have u: "unat (of_nat n :: u32) = n" using unat_less_exp [of len] by (intro unat_of_nat_u32) simp
  then have "unat (len - of_nat n) = unat len - n" using n by (subst unat_sub_le) simp_all
  then show ?thesis using n by (subst unat_sub_le) simp_all
qed

lemma sub_2: "2 \<le> unat len \<Longrightarrow> unat (len - 2 :: u32) = unat len - 2"
  by (subst unat_sub_le) simp_all

lemma checkSubdomain_complete:
  assumes "ls \<noteq> []" "\<forall>l \<in> set ls. valid_label l" "field name start (dotted ls)" "length (dotted ls) = unat len" "unat len \<le> 254"
  shows "checkSubdomain name start len = Some (sint len)"
  using assms
proof (induction ls arbitrary: start len)
  case (Cons l ls)
  define n where "n = length l"
  have l: "valid_label l" "0 < n" using Cons.prems(2) by (auto simp: valid_label_def n_def)
  show ?case
  proof (cases "ls = []")
    case True
    then have n: "checkLabel name start len = Some (int n)" "n = unat len"
      using checkLabel_ok [OF l(1), of name start len] Cons.prems(3,4) by (simp_all add: n_def)
    then have "len \<noteq> 0" "n \<le> 254" using l(2) Cons.prems(5) by auto
    then show ?thesis using checkSubdomain_step [OF n(1) _ byte_of_label(1)] n(2) by simp
  next
    case False
    then have d: "dotted (l # ls) = l @ 46 # dotted ls" by (simp add: dotted_Cons)
    have ne: "0 < length (dotted ls)" using dotted_ne False Cons.prems(2) by simp
    have f: "field name start l" "start + n < length name" "name ! (start + n) = 46" "field name (start + n + 1) (dotted ls)"
      using Cons.prems(3) unfolding d by (auto simp: field_append field_Cons n_def)
    have len: "unat len = n + 1 + length (dotted ls)" "n \<le> 254" "len \<noteq> 0" "n < unat len"
      using Cons.prems(4,5) unfolding d by (auto simp: n_def)
    have cl: "checkLabel name start len = Some (int n)"
      using checkLabel_ok [OF l(1) f(1), of len] f(2,3) len by (simp add: n_def)
    have rest: "unat (len - of_nat n - 1) = length (dotted ls)" using rest_length [OF len(4)] len(1) by simp
    have "checkSubdomain name (start + n + 1) (len - of_nat n - 1) = Some (sint (len - of_nat n - 1))"
      using Cons.IH [OF False _ f(4)] Cons.prems(2,5) rest len by simp
    moreover have "sint (len - of_nat n - 1) \<noteq> - 1"
      using sint_small_u32 [of "len - of_nat n - 1"] rest len Cons.prems(5) by simp
    moreover have "\<not> unat (len - 2) < n" using sub_2 [of len] len ne by linarith
    ultimately show ?thesis using checkSubdomain_step [OF cl len(3) byte_of_label(1) [OF len(2)]] f(2,3) len(4) by simp
  qed
qed simp

lemma label_scan_sound:
  assumes "label_scan name start len k = Some m" "k \<le> len"
  shows "k \<le> m \<and> m \<le> len \<and> (\<forall>j. k \<le> j \<and> j < m \<longrightarrow> start + j < length name \<and> isLetterDigitHyphen (name ! (start + j)))"
  using assms
proof (induction "len - k" arbitrary: k rule: less_induct)
  case less
  show ?case
  proof (cases "k < len \<and> isLetterDigitHyphen (name ! (start + k))")
    case True
    then have "label_scan name start len k = (if start + k < length name then label_scan name start len (k + 1) else None)"
      by (subst label_scan.simps) (simp add: rd_def)
    then have r: "start + k < length name" "label_scan name start len (k + 1) = Some m"
      using less.prems(1) by (simp_all split: if_splits)
    have "len - (k + 1) < len - k" "k + 1 \<le> len" using True by auto
    from less.hyps [OF this(1) r(2) this(2)] have
      "k + 1 \<le> m \<and> m \<le> len \<and> (\<forall>j. k + 1 \<le> j \<and> j < m \<longrightarrow> start + j < length name \<and> isLetterDigitHyphen (name ! (start + j)))" .
    moreover have "start + j < length name \<and> isLetterDigitHyphen (name ! (start + j))" if "j = k" for j using that True r(1) by simp
    ultimately show ?thesis by (metis Suc_eq_plus1 Suc_leD not_less_eq_eq le_antisym)
  next
    case False
    have "label_scan name start len k = Some k \<or> label_scan name start len k = None"
      using False by (subst (1 2) label_scan.simps) (simp add: rd_def)
    then have "m = k" using less.prems(1) by simp
    then show ?thesis using less.prems(2) by auto
  qed
qed

lemma checkLabel_sound:
  assumes "checkLabel name start len = Some r" "r \<noteq> - 1"
  shows "\<exists>n. r = int n \<and> 0 < n \<and> n \<le> unat len \<and> start + n \<le> length name \<and> valid_label (take n (drop start name))"
proof -
  from assms obtain n where n: "start < length name" "isLetter (name ! start)" "label_scan name start (unat len) 1 = Some n"
    "start + n - 1 < length name" "isLetterDigit (name ! (start + n - 1))" "r = int n" "len \<noteq> 0"
    by (auto simp: checkLabel_def rd_def bind_eq_Some_conv split: if_splits)
  have "1 \<le> unat len" using n(7) by (simp add: Suc_le_eq unat_gt_0)
  from label_scan_sound [OF n(3) this] have
    s: "1 \<le> n" "n \<le> unat len" "\<forall>j. 1 \<le> j \<and> j < n \<longrightarrow> start + j < length name \<and> isLetterDigitHyphen (name ! (start + j))" by auto
  have e: "start + n \<le> length name" using n(4) s(1) by linarith
  have "\<forall>j < n. isLetterDigitHyphen (name ! (start + j))"
  proof (intro allI impI)
    fix j assume "j < n"
    then show "isLetterDigitHyphen (name ! (start + j))" using s(3) n(2) letter_ldh by (cases "j = 0") auto
  qed
  then have "\<forall>c \<in> set (take n (drop start name)). isLetterDigitHyphen c" using e by (auto simp: in_set_conv_nth)
  moreover have "take n (drop start name) \<noteq> []" "hd (take n (drop start name)) = name ! start"
    "last (take n (drop start name)) = name ! (start + n - 1)"
    using s(1) e n(1) by (auto simp: hd_drop_conv_nth hd_take last_conv_nth)
  ultimately show ?thesis using n s e by (auto simp: valid_label_def)
qed

text \<open>A string in a buffer of at most 255 bytes is accepted only if it is in the grammar.\<close>

lemma checkSubdomain_sound:
  assumes "checkSubdomain name start len = Some r" "r \<noteq> - 1" "length name \<le> 255" "unat len \<le> 254"
  shows "\<exists>ls. ls \<noteq> [] \<and> (\<forall>l \<in> set ls. valid_label l) \<and> field name start (dotted ls) \<and> length (dotted ls) = unat len \<and> r = sint len"
  using assms
proof (induction name start len arbitrary: r rule: checkSubdomain.induct)
  case (1 name start len)
  from "1.prems"(1,2) obtain c where len: "len \<noteq> 0" and c: "checkLabel name start len = Some c"
    by (subst (asm) checkSubdomain.simps) (auto split: if_splits option.splits)
  have IH: "\<exists>ls. ls \<noteq> [] \<and> (\<forall>l \<in> set ls. valid_label l) \<and> field name (start + n + 1) (dotted ls)
      \<and> length (dotted ls) = unat (len - of_nat n - 1) \<and> s = sint (len - of_nat n - 1)"
    if "c = int n" "\<not> unat (len - 2) < n" "start + n < length name" "name ! (start + n) = 46" "n \<noteq> unat len"
      "checkSubdomain name (start + n + 1) (len - of_nat n - 1) = Some s" "s \<noteq> - 1"
      "n \<le> 254" "unat (len - of_nat n - 1) \<le> 254" for n s
  proof -
    have w: "unat (word_of_int c :: u8) = n" using byte_of_label(1) that(1,8) by simp
    then have v: "ucast (word_of_int c :: u8) = (of_nat n :: u32)" by auto
    then have "unat (ucast (word_of_int c :: u8) :: u32) = n" using that(8) by (simp add: unat_of_nat_u32)
    then have "of_nat n \<noteq> len" "\<not> len - 2 < of_nat n" using that(2,5) unfolding v by (auto simp: word_less_nat_alt)
    then show ?thesis using "1.IH" [OF len c refl, unfolded w v, of s] that "1.prems"(3) by simp
  qed
  show ?case
  proof (cases "c = - 1")
    case True
    have "unat (len - 2) < 255 \<or> length name \<le> start + 255"
    proof (cases "2 \<le> unat len")
      case True
      then show ?thesis using sub_2 [of len] "1.prems"(4) by linarith
    next
      case False
      then show ?thesis using "1.prems"(3) by simp
    qed
    then have False using checkSubdomain_step [OF c len, of 255] byte_of_label(2) True "1.prems" by (auto split: if_splits)
    then show ?thesis ..
  next
    case False
    from checkLabel_sound [OF c this] obtain n where
      n: "c = int n" "0 < n" "n \<le> unat len" "start + n \<le> length name" "valid_label (take n (drop start name))" by blast
    define l where "l = take n (drop start name)"
    have l: "valid_label l" "length l = n" "field name start l" using n by (simp_all add: l_def field_def)
    have w: "unat (word_of_int c :: u8) = n" using byte_of_label(1) [of n] n(1,3) "1.prems"(4) by simp
    note step = checkSubdomain_step [OF c len w]
    show ?thesis
    proof (cases "n = unat len")
      case True
      then have "r = sint len" using "1.prems"(1) step by simp
      then show ?thesis using l True by (intro exI [of _ "[l]"]) simp
    next
      case ne: False
      obtain s where s: "\<not> unat (len - 2) < n" "start + n < length name" "name ! (start + n) = 46"
        "checkSubdomain name (start + n + 1) (len - of_nat n - 1) = Some s" "s \<noteq> - 1" "r = sint len"
        using "1.prems"(1,2) ne unfolding step by (auto split: if_splits option.splits)
      have r: "unat (len - of_nat n - 1) = unat len - n - 1" using rest_length [of n len] n(3) ne by simp
      obtain ls where ls: "ls \<noteq> []" "\<forall>l \<in> set ls. valid_label l" "field name (start + n + 1) (dotted ls)"
        "length (dotted ls) = unat len - n - 1"
        using IH [OF n(1) s(1-3) ne s(4,5)] "1.prems"(4) n(3) r by (metis diff_le_self le_trans)
      have "field name start (dotted (l # ls))"
        using l ls(1,3) s(2,3) unfolding dotted_Cons [OF ls(1)] by (simp add: field_append field_Cons)
      then show ?thesis using l ls n(3) ne s(6) by (intro exI [of _ "l # ls"]) (auto simp: dotted_Cons)
    qed
  qed
qed

subsection \<open>Overwriting in pieces\<close>

lemma overwrite_append:
  "i + length xs + length ys \<le> length b \<Longrightarrow> overwrite (overwrite b i xs) (i + length xs) ys = overwrite b i (xs @ ys)"
  by (rule nth_equalityI) (auto simp: nth_overwrite nth_append)

lemma overwrite_snoc: "i + length xs < length b \<Longrightarrow> (overwrite b i xs)[i + length xs := x] = overwrite b i (xs @ [x])"
  using overwrite_append [of i xs "[x]" b] by (simp add: overwrite_single)

lemma overwrite_before: "Suc i + length xs \<le> length b \<Longrightarrow> (overwrite b (Suc i) xs)[i := x] = overwrite b i (x # xs)"
proof (rule nth_equalityI)
  fix j assume *: "Suc i + length xs \<le> length b" "j < length ((overwrite b (Suc i) xs)[i := x])"
  then show "(overwrite b (Suc i) xs)[i := x] ! j = overwrite b i (x # xs) ! j"
    by (cases "j \<le> i") (auto simp: nth_overwrite nth_list_update Suc_diff_Suc [symmetric])
qed simp

subsection \<open>Names from strings\<close>

lemma copy_lower_ok:
  "i + n \<le> length name \<Longrightarrow> i + n \<le> length nb \<Longrightarrow> copy_lower name i n nb = Some (overwrite nb i (map toLower (take n (drop i name))))"
proof (induction n arbitrary: i nb)
  case (Suc n)
  then have "take (Suc n) (drop i name) = name ! i # take n (drop (i + 1) name)" by (simp add: Cons_nth_drop_Suc [symmetric])
  then show ?case using Suc by (simp add: rd_def wr_def overwrite_Cons)
qed simp

lemma count_dots_eq: "n \<le> length name \<Longrightarrow> count_dots name n = of_nat (length (filter (\<lambda>c. c = 46) (take n name)))"
  by (induction n) (simp_all add: take_Suc_conv_app_nth)

lemma dots_dotted: "ls \<noteq> [] \<Longrightarrow> \<forall>l \<in> set ls. 46 \<notin> set l \<Longrightarrow> Suc (length (filter (\<lambda>c. c = 46) (dotted ls))) = length ls"
proof (induction ls)
  case (Cons l ls)
  moreover have "filter (\<lambda>c. c = 46) l = []" using Cons.prems by (auto simp: filter_empty_conv)
  ultimately show ?case by (cases "ls = []") (simp_all add: dotted_Cons)
qed simp

lemma check_complete:
  assumes "cstr name 0 (chars ls)" "\<forall>l \<in> set ls. valid_label l" "length (chars ls) \<le> 254"
  shows "checkDomainName name (of_nat (length (chars ls))) = Some True"
proof -
  have n: "unat (of_nat (length (chars ls)) :: u32) = length (chars ls)" using assms(3) by (simp add: unat_of_nat_u32)
  have f: "field name 0 (chars ls)" using assms(1) by (simp add: cstr_def field_def)
  show ?thesis
  proof (cases "ls = []")
    case True
    then show ?thesis using f by (simp add: chars_def checkDomainName_def field_Cons rd_def)
  next
    case False
    then have ne: "chars ls \<noteq> []" "chars ls = dotted ls" using dotted_ne assms(2) by (simp_all add: chars_def)
    then have "(of_nat (length (chars ls)) :: u32) \<noteq> 0" using n by (metis length_0_conv unat_0)
    moreover have "checkSubdomain name 0 (of_nat (length (chars ls))) = Some (sint (of_nat (length (chars ls)) :: u32))"
      using checkSubdomain_complete [OF False assms(2), of name 0] f ne(2) n assms(3) by simp
    moreover obtain c cs where c: "chars ls = c # cs" using ne(1) by (cases "chars ls") auto
    then have "c \<noteq> 32" using dotted_no [OF assms(2)] ne(2) by (metis list.set_intros(1))
    moreover have "rd name 0 = Some c" using f unfolding c by (simp add: field_Cons rd_def)
    ultimately show ?thesis by (cases "of_nat (length (chars ls)) = (1 :: u32)") (simp_all add: checkDomainName_def)
  qed
qed

lemma chars_lower: "map toLower (chars ls) = chars (map (map toLower) ls)"
proof (cases "ls = []")
  case True
  then show ?thesis by (simp add: chars_def toLower_def)
next
  case False
  then show ?thesis by (simp add: chars_def dotted_lower)
qed

lemma DomainName_parse_ok:
  assumes raw: "length (raw 255) = 255" and name: "cstr name 0 (chars ls)" "\<forall>l \<in> set ls. valid_label l" "length (chars ls) \<le> 254"
  shows "\<exists>d. DomainName_parse raw name (of_nat (length (chars ls)) + 1) = ret d \<and> name_ok d (map (map toLower) ls)"
proof -
  define k where "k = length (chars ls)"
  define nb where "nb = overwrite (raw 255) 0 (map toLower (chars ls) @ [0])"
  have k: "unat (of_nat k :: u8) = k" "unat (of_nat k + 1 :: u32) = k + 1" "0 < k" "k \<le> 254"
    "unat (ucast (of_nat k :: u8) :: u32) = k"
    using name(3) dotted_ne [of ls] name(2)
    by (auto simp: k_def chars_def unat_of_nat take_bit_nat_eq_self unat_word_ariths unsigned_ucast_eq)
  have b: "k < length name" "take k name = chars ls" "name ! k = 0" "0 \<notin> set (chars ls)" using name(1) by (auto simp: cstr_def k_def)
  have "take (k + 1) name = chars ls @ [0]" using b by (simp add: take_Suc_conv_app_nth)
  then have cp: "copy_lower name 0 (k + 1) (raw 255) = Some nb"
    using copy_lower_ok [of 0 "k + 1" name "raw 255"] b(1) k(4) raw by (simp add: nb_def toLower_def [of 0])
  have chk: "checkDomainName name (of_nat k) = Some True" using check_complete [OF name] by (simp add: k_def)
  have sl: "lite_strnlen name 0 (unat (of_nat k + 1 :: u32)) = Some k" using strnlen_cstr [OF name(1)] k(2) by (simp add: k_def)
  have z: "of_nat k \<noteq> (0 :: u8)" "ucast (of_nat k :: u8) \<noteq> (of_nat k + 1 :: u32)"
    using k by (metis less_numeral_extra(3) unat_0) (use k in \<open>metis add_cancel_right_right zero_neq_one\<close>)
  have nl: "cstr nb 0 (chars (map (map toLower) ls))"
  proof -
    have "0 \<notin> set (map toLower (chars ls))" using b(4) by auto
    then show "cstr nb 0 (chars (map (map toLower) ls))"
      using raw k(4) cstr_overwrite [of 0 "map toLower (chars ls)" "raw 255"] by (simp add: nb_def k_def flip: chars_lower)
  qed
  have len: "length nb = 255" using raw k(4) by (simp add: nb_def k_def)
  have n0: "name ! 0 = hd (chars ls)" using b(1,2) k(3) by (metis hd_conv_nth length_0_conv less_numeral_extra(3) nth_take k_def)
  show ?thesis
  proof (cases "ls = []")
    case True
    then have "DomainName_parse raw name (of_nat k + 1) = ret \<lparr>nameBytes = nb, dn_len = 1, num_labels = 0\<rparr>"
      using chk sl z cp k(1,4) n0 by (simp add: DomainName_parse_def Let_def MAX_DNS_NAME_LEN_def) (simp add: k_def chars_def)
    then show ?thesis using True nl len by (simp add: k_def name_ok_def)
  next
    case False
    have dots: "\<forall>l \<in> set ls. 46 \<notin> set l" using name(2) valid_label_no by blast
    have "chars ls = dotted ls" "hd (chars ls) \<noteq> 32"
      using False dotted_no [OF name(2)] dotted_ne [OF False name(2)] by (auto simp: chars_def) (metis hd_in_set)
    moreover have "count_dots name k + 1 = of_nat (length ls)"
      using count_dots_eq [of k name] b(1,2) dots_dotted [OF False dots] calculation(1) by (metis add.commute less_imp_le of_nat_Suc)
    ultimately have "DomainName_parse raw name (of_nat k + 1) =
      ret \<lparr>nameBytes = nb, dn_len = (ucast (of_nat k :: u8) - (ucast (of_nat (length ls) :: u8) - 1)) + ucast (of_nat (length ls) :: u8) + 1,
        num_labels = of_nat (length ls)\<rparr>"
      using chk sl z cp k(1,4) n0 by (simp add: DomainName_parse_def Let_def MAX_DNS_NAME_LEN_def)
    moreover have "ucast (of_nat k :: u8) = (of_nat k :: u16)" using k(1) by (metis of_nat_unat)
    moreover have "length (dotted (map (map toLower) ls)) = k"
      using False by (metis chars_def chars_lower k_def length_map map_is_Nil_conv)
    ultimately show ?thesis using False nl len name(2) by (auto simp: k_def name_ok_def)
  qed
qed

lemma lower_names: "name_ok d ls \<Longrightarrow> map (map toLower) ls = ls"
  by (auto simp: name_ok_def intro: map_idI)

lemma DomainName_copy_ok:
  assumes "length (raw 255) = 255" "name_ok d ls"
  shows "\<exists>d'. DomainName_copy raw d = ret d' \<and> name_ok d' ls"
  using DomainName_parse_ok [of raw "nameBytes d" ls] name_ok_strlen [OF assms(2)] name_ok_length [OF assms(2)] lower_names [OF assms(2)] assms
  by (auto simp: DomainName_copy_def name_ok_def)

lemma strlen_Some: "lite_strlen s p = Some k \<Longrightarrow> \<exists>cs. cstr s p cs \<and> length cs = k"
proof (induction k arbitrary: p)
  case 0
  then have "p < length s \<and> s ! p = 0" by (subst (asm) lite_strlen.simps) (auto split: if_splits)
  then show ?case by (intro exI [of _ "[]"]) simp
next
  case (Suc k)
  then have p: "p < length s \<and> s ! p \<noteq> 0 \<and> lite_strlen s (p + 1) = Some k"
    by (subst (asm) (2) lite_strlen.simps) (auto split: if_splits)
  with Suc.IH [of "p + 1"] obtain cs where "cstr s (p + 1) cs" "length cs = k" by auto
  then show ?case using p by (intro exI [of _ "s ! p # cs"]) (simp add: cstr_Cons)
qed

text \<open>Copying admits only names of the grammar, whatever is in the array.\<close>

lemma DomainName_copy_sound:
  assumes "length (raw 255) = 255" "length (nameBytes d) = 255" "DomainName_copy raw d = ret d'"
  shows "\<exists>ls. name_ok d' ls"
proof -
  from assms(3) obtain k where k: "lite_strlen (nameBytes d) 0 = Some k" "DomainName_parse raw (nameBytes d) (of_nat k + 1) = ret d'"
    by (auto simp: DomainName_copy_def split: option.splits)
  obtain cs where cs: "cstr (nameBytes d) 0 cs" "k = length cs" using strlen_Some [OF k(1)] by blast
  have kl: "k \<le> 254" using cstr_bound [OF cs(1)] assms(2) cs(2) by simp
  have u: "unat (of_nat k :: u32) = k" using kl by (simp add: unat_of_nat_u32)
  have "checkDomainName (nameBytes d) (of_nat k) = Some True"
    using k(2) by (auto simp: DomainName_parse_def split: option.splits if_splits)
  then have "k \<noteq> 0" "k = 1 \<and> nameBytes d ! 0 = 32 \<or> (\<exists>r. checkSubdomain (nameBytes d) 0 (of_nat k) = Some r \<and> word_of_int r = (of_nat k :: u32))"
    using u kl by (auto simp: checkDomainName_def rd_def bind_eq_Some_conv word_unat_eq_iff split: if_splits)
  then obtain ls where ls: "\<forall>l \<in> set ls. valid_label l" "cs = chars ls"
  proof (elim disjE conjE exE)
    assume "k = 1" "nameBytes d ! 0 = 32"
    then have "cs = chars []" using cs cstr_take [OF cs(1)] by (cases cs) (auto simp: chars_def cstr_Cons)
    then show ?thesis using that [of "[]"] by simp
  next
    fix r assume r: "checkSubdomain (nameBytes d) 0 (of_nat k) = Some r" "word_of_int r = (of_nat k :: u32)"
    have "r \<noteq> - 1"
    proof
      assume "r = - 1"
      then have "unat (of_nat k :: u32) = unat (- 1 :: u32)" using r(2) by simp
      then show False using u kl by simp
    qed
    from checkSubdomain_sound [OF r(1) this] assms(2) u kl obtain ls where
      l: "ls \<noteq> []" "\<forall>l \<in> set ls. valid_label l" "field (nameBytes d) 0 (dotted ls)" "length (dotted ls) = k" by auto
    then have "cs = chars ls" using cstr_take [OF cs(1)] cs(2) by (simp add: field_def chars_def)
    then show ?thesis using that l(2) by blast
  qed
  from DomainName_parse_ok [of raw "nameBytes d" ls] assms(1) cs ls kl k(2) show ?thesis by auto
qed

subsection \<open>Names on the wire\<close>

definition labels :: "bytes list \<Rightarrow> bytes" where
  "labels ls = concat (map (\<lambda>l. of_nat (length l) # l) ls)"

lemma labels_simps [simp]: "labels [] = []" "labels (l # ls) = of_nat (length l) # l @ labels ls"
  by (simp_all add: labels_def)

lemma wire_labels: "wire ls = labels ls @ [0]"
  by (simp add: wire_def labels_def)

lemma length_labels: "ls \<noteq> [] \<Longrightarrow> length (labels ls) = length (dotted ls) + 1"
  using length_wire [of ls] by (simp add: wire_labels)

lemma map_id_iff: "map f xs = xs \<longleftrightarrow> (\<forall>x \<in> set xs. f x = x)"
  by (induction xs) auto

lemma ser_label:
  assumes "field nb i l" "i + length l \<le> n" "off + i + length l < length buf" "valid_label l \<or> l = []"
    "\<forall>c \<in> set l. isLetterDigitHyphen c \<and> toLower c = c"
  shows "ser_loop nb n i off lp ll buf = ser_loop nb n (i + length l) off lp (ll + of_nat (length l)) (overwrite buf (off + i + 1) l)"
  using assms(1-3,5)
proof (induction l arbitrary: i ll buf)
  case (Cons c l)
  have c: "nb ! i = c" "c \<noteq> 46" "c \<noteq> 32" "toLower c = c" "field nb (i + 1) l"
    using Cons.prems(1,4) ldh_not [of c] by (auto simp: field_Cons)
  have "ser_loop nb n i off lp ll buf = ser_loop nb n (i + 1) off lp (ll + 1) (buf[off + (i + 1) := c])"
    using c Cons.prems(2,3) by (subst ser_loop.simps) (simp add: wr_def)
  also have "\<dots> = ser_loop nb n (i + 1 + length l) off lp (ll + 1 + of_nat (length l)) (overwrite (buf[off + (i + 1) := c]) (off + (i + 1) + 1) l)"
    using Cons.IH [OF c(5), of "buf[off + (i + 1) := c]"] Cons.prems by simp
  also have "overwrite (buf[off + (i + 1) := c]) (off + (i + 1) + 1) l = overwrite buf (off + i + 1) (c # l)"
    using overwrite_Cons [of "off + (i + 1)" buf c l] Cons.prems(3) by simp
  finally show ?case by (simp add: add.assoc)
qed simp

lemma ser_labels:
  assumes "ls \<noteq> []" "\<forall>l \<in> set ls. valid_label l \<and> map toLower l = l" "field nb i (dotted ls)" "n = i + length (dotted ls)"
    "off + n < length buf" "n \<le> 254"
  shows "\<exists>p k buf'. ser_loop nb n i off (of_nat i) 0 buf = Some (of_nat p, of_nat k, buf') \<and> p \<le> 254
    \<and> length buf' = length buf \<and> off + p < length buf \<and> buf'[off + p := of_nat k] = overwrite buf (off + i) (labels ls)"
  using assms
proof (induction ls arbitrary: i buf)
  case (Cons l ls)
  define m where "m = length l"
  have l: "valid_label l" "\<forall>c \<in> set l. isLetterDigitHyphen c \<and> toLower c = c"
    using Cons.prems(2) map_id_iff [of toLower l] by (auto simp: valid_label_def)
  show ?case
  proof (cases "ls = []")
    case True
    have "ser_loop nb n i off (of_nat i) 0 buf = ser_loop nb n n off (of_nat i) (of_nat m) (overwrite buf (off + i + 1) l)"
      using ser_label [OF _ _ _ _ l(2), of nb i n off buf "of_nat i" 0] l(1) Cons.prems True by (simp add: m_def)
    also have "\<dots> = Some (of_nat i, of_nat m, overwrite buf (off + i + 1) l)" by (subst ser_loop.simps) simp
    finally show ?thesis
      using overwrite_before [of "off + i" l buf "of_nat m"] Cons.prems True
      by (intro exI [of _ i] exI [of _ m] exI [of _ "overwrite buf (off + i + 1) l"]) (simp add: m_def)
  next
    case False
    then have d: "dotted (l # ls) = l @ 46 # dotted ls" by (simp add: dotted_Cons)
    have f: "field nb i l" "nb ! (i + m) = 46" "field nb (i + m + 1) (dotted ls)" and n: "n = i + m + 1 + length (dotted ls)"
      using Cons.prems(3,4) unfolding d by (auto simp: field_append field_Cons m_def)
    define b where "b = overwrite buf (off + i) (of_nat m # l)"
    have b: "length b = length buf" using Cons.prems(5) n by (simp add: b_def m_def)
    have "ser_loop nb n i off (of_nat i) 0 buf = ser_loop nb n (i + m) off (of_nat i) (of_nat m) (overwrite buf (off + i + 1) l)"
      using ser_label [OF f(1) _ _ _ l(2), of n off buf "of_nat i" 0] l(1) Cons.prems(5) n by (simp add: m_def)
    also have "\<dots> = ser_loop nb n (i + m + 1) off (of_nat (i + m + 1)) 0 b"
      using f(2) n Cons.prems(5,6) overwrite_before [of "off + i" l buf "of_nat m"]
      by (subst ser_loop.simps) (simp add: wr_def b_def m_def unat_of_nat take_bit_nat_eq_self)
    finally have step: "ser_loop nb n i off (of_nat i) 0 buf = ser_loop nb n (i + m + 1) off (of_nat (i + m + 1)) 0 b" .
    have "\<forall>l \<in> set ls. valid_label l \<and> map toLower l = l" "off + n < length b" using Cons.prems(2,5) b by simp_all
    from Cons.IH [OF False this(1) f(3) n this(2) Cons.prems(6)] obtain p k buf' where
      r: "ser_loop nb n (i + m + 1) off (of_nat (i + m + 1)) 0 b = Some (of_nat p, of_nat k, buf')" "p \<le> 254"
      "length buf' = length b" "off + p < length b" "buf'[off + p := of_nat k] = overwrite b (off + (i + m + 1)) (labels ls)" by blast
    have "overwrite b (off + (i + m + 1)) (labels ls) = overwrite buf (off + i) (labels (l # ls))"
      using overwrite_append [of "off + i" "of_nat m # l" "labels ls" buf] length_labels [OF False] n Cons.prems(5)
      by (simp add: b_def m_def add.assoc)
    then show ?thesis using step r b by auto
  qed
qed simp

lemma DomainName_serialize_ok:
  assumes d: "name_ok d ls" and "off + length (wire ls) \<le> length buf"
  shows "DomainName_serialize d buf off = Some (of_nat (length (wire ls)), overwrite buf off (wire ls))"
proof (cases "ls = []")
  case True
  then have n: "nameBytes d ! 0 = 32" "dn_len d = 1" "wire ls = [0]" "off < length buf" "lite_strlen (nameBytes d) 0 = Some 1"
    using d name_ok_nth [OF d, of 0] assms(2) name_ok_strlen [OF d] by (auto simp: name_ok_def chars_def wire_def)
  have "ser_loop (nameBytes d) 1 0 off 0 0 buf = ser_loop (nameBytes d) 1 1 off 0 0 (buf[off := 0])"
    using n by (subst ser_loop.simps) (simp add: wr_def)
  also have "\<dots> = Some (0, 0, buf[off := 0])" by (subst ser_loop.simps) simp
  finally show ?thesis using n by (simp add: DomainName_serialize_def wr_def overwrite_single)
next
  case False
  have len: "unat (dn_len d) = length (dotted ls) + 2" "length (wire ls) = length (dotted ls) + 2"
    using unat_dn_len [OF d] length_wire False by simp_all
  have le: "length (dotted ls) \<le> 254" using name_ok_length [OF d] False by (simp add: chars_def)
  have f: "field (nameBytes d) 0 (dotted ls)" "lite_strlen (nameBytes d) 0 = Some (length (dotted ls))"
    using d name_ok_strlen [OF d] False by (auto simp: name_ok_def cstr_def field_def chars_def)
  have "\<forall>l \<in> set ls. valid_label l \<and> map toLower l = l" using d by (simp add: name_ok_def)
  from ser_labels [OF False this f(1), of "length (dotted ls)" off buf] le len(2) assms(2) obtain p k buf' where
    r: "ser_loop (nameBytes d) (length (dotted ls)) 0 off 0 0 buf = Some (of_nat p, of_nat k, buf')" "p \<le> 254"
    "length buf' = length buf" "off + p < length buf" "buf'[off + p := of_nat k] = overwrite buf off (labels ls)" by auto
  have "(overwrite buf off (labels ls))[off + length (dotted ls) + 1 := 0] = overwrite buf off (wire ls)"
    using overwrite_snoc [of off "labels ls" buf 0] length_labels [OF False] len(2) assms(2) by (simp add: wire_labels)
  moreover have "ucast (dn_len d) = (of_nat (length (wire ls)) :: u32)" using len by (metis of_nat_unat)
  moreover have "length (labels ls) \<le> length buf - off" using length_labels [OF False] len(2) assms(2) by simp
  ultimately show ?thesis
    using r f(2) len(1) assms(2) length_labels [OF False] len(2)
    by (simp add: DomainName_serialize_def wr_def unat_of_nat take_bit_nat_eq_self)
qed

lemma copy_label_ok:
  "field buf (p + 1) l \<Longrightarrow> p + length l \<le> length nb \<Longrightarrow> copy_label buf p (length l) nb = Some (overwrite nb p l)"
  by (induction l arbitrary: p nb) (simp_all add: field_Cons rd_def wr_def overwrite_Cons)

lemma dns_labels:
  assumes "ls \<noteq> []" "\<forall>l \<in> set ls. valid_label l" "field buf p (wire ls)" "length nb = 255" "p + length (wire ls) \<le> 255"
    "p + length (wire ls) \<le> sz"
  shows "dns_loop buf sz nb p n = ret (overwrite nb p (dotted ls @ [0]), p + length (wire ls), n + of_nat (length ls), True)"
  using assms
proof (induction ls arbitrary: p nb n)
  case (Cons l ls)
  define m where "m = length l"
  have w: "wire (l # ls) = of_nat m # l @ wire ls" by (simp add: wire_labels m_def)
  have f: "buf ! p = of_nat m" "p < length buf" "field buf (p + 1) l" "field buf (p + m + 1) (wire ls)"
    using Cons.prems(3) unfolding w by (auto simp: field_append field_Cons m_def)
  have l: "0 < m" "42 \<notin> set l" using Cons.prems(2) valid_label_no by (auto simp: m_def valid_label_def)
  have wl: "length (wire (l # ls)) = m + 1 + length (wire ls)" "0 < length (wire ls)" by (simp_all add: w m_def) (simp add: wire_def)
  have u: "unat (of_nat m :: u8) = m" "(of_nat m :: u8) \<noteq> 0"
    using wl Cons.prems(5) l(1) by (auto simp: unat_of_nat take_bit_nat_eq_self word_unat_eq_iff)
  have nw: "\<not> (of_nat m = (1 :: u8) \<and> p + 1 < sz \<and> buf ! (p + 1) = 42)"
  proof
    assume "of_nat m = (1 :: u8) \<and> p + 1 < sz \<and> buf ! (p + 1) = 42"
    moreover from this have "m = 1" using u(1) by (metis unat_1)
    ultimately have "m = 1" "buf ! (p + 1) = 42" by simp_all
    then show False using f(3) l(2) by (cases l) (auto simp: field_Cons m_def)
  qed
  have ow: "(overwrite nb p l)[p + m := 46] = overwrite nb p (l @ [46])"
    using overwrite_snoc [of p l nb 46] wl Cons.prems(4,5) by (simp add: m_def)
  have step: "dns_loop buf sz nb p n = dns_loop buf sz (overwrite nb p (l @ [46])) (p + m + 1) (n + 1)"
    using f u nw ow copy_label_ok [OF f(3), of nb] wl Cons.prems(4-6)
    by (subst dns_loop.simps) (simp add: rd_def wr_def Let_def MAX_DNS_NAME_LEN_def m_def)
  have lb: "length (overwrite nb p (l @ [46])) = 255" using wl Cons.prems(4,5) by (simp add: m_def)
  show ?case
  proof (cases "ls = []")
    case True
    then have b: "buf ! (p + m + 1) = 0" "p + m + 1 < length buf" "wire ls = [0]" using f(4) by (auto simp: wire_def field_Cons)
    have "(overwrite nb p (l @ [46]))[p + m := 0] = overwrite nb p (l @ [0])"
      unfolding ow [symmetric] using overwrite_snoc [of p l nb 0] wl Cons.prems(4,5) by (simp add: m_def)
    then have "end_name (overwrite nb p (l @ [46])) (p + m + 1) = Some (overwrite nb p (l @ [0]))"
      using wl Cons.prems(5) lb by (simp add: end_name_def wr_def)
    then show ?thesis unfolding step
      using b wl Cons.prems(5,6) True by (subst dns_loop.simps) (simp add: rd_def MAX_DNS_NAME_LEN_def)
  next
    case False
    have "dns_loop buf sz (overwrite nb p (l @ [46])) (p + m + 1) (n + 1) =
      ret (overwrite (overwrite nb p (l @ [46])) (p + m + 1) (dotted ls @ [0]), p + m + 1 + length (wire ls), n + 1 + of_nat (length ls), True)"
      using Cons.IH [OF False _ f(4) lb] wl Cons.prems(2,5,6) by simp
    moreover have "overwrite (overwrite nb p (l @ [46])) (p + m + 1) (dotted ls @ [0]) = overwrite nb p (dotted (l # ls) @ [0])"
      using overwrite_append [of p "l @ [46]" "dotted ls @ [0]" nb] length_wire [OF False] wl Cons.prems(4,5)
      by (simp add: m_def dotted_Cons [OF False])
    ultimately show ?thesis unfolding step using wl by (simp add: add.assoc)
  qed
qed simp

lemma DomainName_dns_ok:
  assumes "length (raw 255) = 255" "\<forall>l \<in> set ls. valid_label l \<and> map toLower l = l"
    "field buf 0 (wire ls)" "length (wire ls) \<le> 255" "length (wire ls) \<le> unat sz"
  shows "\<exists>d. DomainName_dns raw buf sz = ret d \<and> name_ok d ls"
proof (cases "ls = []")
  case True
  then have w: "wire ls = [0]" "buf ! 0 = 0" "0 < length buf" "0 < unat sz" "sz \<noteq> 0" using assms(3,5) by (auto simp: wire_def field_Cons)
  have "dns_loop buf (unat sz) (raw 255) 0 0 = ret (overwrite (raw 255) 0 [32, 0], 1, 0, True)"
    using w assms(1) overwrite_Cons [of 0 "raw 255" 32 "[0]"] overwrite_single [of 1 "(raw 255)[0 := 32]" 0]
    by (subst dns_loop.simps) (simp add: rd_def wr_def MAX_DNS_NAME_LEN_def end_name_def)
  then show ?thesis
    using w assms(1) True cstr_overwrite [of 0 "[32]" "raw 255"]
    by (simp add: DomainName_dns_def MAX_DNS_NAME_LEN_def name_ok_def chars_def)
next
  case False
  have v: "\<forall>l \<in> set ls. valid_label l" using assms(2) by blast
  have "dns_loop buf (unat sz) (raw 255) 0 0 = ret (overwrite (raw 255) 0 (dotted ls @ [0]), length (wire ls), of_nat (length ls), True)"
    using dns_labels [OF False v assms(3) assms(1), of "unat sz" 0] assms(4,5) by simp
  moreover have "cstr (overwrite (raw 255) 0 (dotted ls @ [0])) 0 (dotted ls)"
    using cstr_overwrite [of 0 "dotted ls" "raw 255"] dotted_no [OF v] length_wire [OF False] assms(1,4) by simp
  moreover have "sz \<noteq> 0" using assms(5) length_wire [OF False] by auto
  ultimately show ?thesis
    using assms False length_wire [OF False] by (simp add: DomainName_dns_def MAX_DNS_NAME_LEN_def name_ok_def chars_def)
qed

end
