(* ===== verification/NameProps.thy ===== *)
theory NameProps
  imports DomainNameIO
begin

text \<open>
  The properties of domain names and byte streams, stated on the operations of \<open>DomainName.cpp\<close> and \<open>ByteStream.cpp\<close>.
\<close>

unbundle bit_operations_syntax

definition zeros :: "u32 \<Rightarrow> bytes" where
  "zeros n = replicate (unat n) 0"

text \<open>C21. Names survive the wire: a dotted name of the grammar, of labels of at most 63 characters and at most 253
  characters in all, is accepted, the bytes \<open>serialize\<close> writes for it are accepted by the constructor from DNS bytes,
  and the result compares equal.\<close>

theorem domain_name_roundtrip:
  assumes "length (raw 255) = 255" "cstr name 0 (dotted ls)" "ls \<noteq> []" "\<forall>l \<in> set ls. valid_label l \<and> length l \<le> 63"
    and "length (dotted ls) \<le> 253" "length (dotted ls) + 2 \<le> length buf"
  shows "\<exists>d buf' d'. DomainName_parse raw name (of_nat (length (dotted ls)) + 1) = ret d
    \<and> DomainName_serialize d buf 0 = Some (of_nat (length (dotted ls) + 2), buf')
    \<and> DomainName_dns raw buf' (of_nat (length (dotted ls) + 2)) = ret d' \<and> DomainName_eq d d' = Some True"
proof -
  define ms where "ms = map (map toLower) ls"
  have c: "chars ls = dotted ls" using assms(3) by (simp add: chars_def)
  have "\<exists>d. DomainName_parse raw name (of_nat (length (chars ls)) + 1) = ret d \<and> name_ok d (map (map toLower) ls)"
    by (rule DomainName_parse_ok) (use assms c in simp_all)
  then obtain d where d: "DomainName_parse raw name (of_nat (length (dotted ls)) + 1) = ret d" "name_ok d ms"
    by (auto simp: c ms_def)
  have w: "length (wire ms) = length (dotted ls) + 2"
    using length_wire [of ms] dotted_lower [of ls] assms(3) by (metis length_map map_is_Nil_conv ms_def)
  define buf' where "buf' = overwrite buf 0 (wire ms)"
  have s: "DomainName_serialize d buf 0 = Some (of_nat (length (dotted ls) + 2), buf')"
    using DomainName_serialize_ok [OF d(2), of 0 buf] w assms(6) by (simp add: buf'_def)
  have "field buf' 0 (wire ms)" using w assms(6) by (simp add: buf'_def)
  moreover have "unat (of_nat (length (dotted ls) + 2) :: u32) = length (dotted ls) + 2"
    using assms(5) by (intro unat_of_nat_u32) simp
  moreover have "\<forall>l \<in> set ms. valid_label l \<and> map toLower l = l" using d(2) by (simp add: name_ok_def)
  ultimately obtain d' where d': "DomainName_dns raw buf' (of_nat (length (dotted ls) + 2)) = ret d'" "name_ok d' ms"
    using DomainName_dns_ok [of raw ms buf' "of_nat (length (dotted ls) + 2)"] assms(1,5) w by auto
  show ?thesis using d s d' DomainName_eq_ok [OF d(2) d'(2)] by auto
qed

theorem domain_name_roundtrip_witness:
  "\<exists>d buf' d'. DomainName_parse zeros [65, 46, 98, 0] 4 = ret d
    \<and> DomainName_serialize d (replicate 9 7) 0 = Some (5, buf') \<and> DomainName_dns zeros buf' 5 = ret d' \<and> DomainName_eq d d' = Some True"
  using domain_name_roundtrip [of zeros "[65, 46, 98, 0]" "[[65], [98]]" "replicate 9 7"]
  by (simp add: zeros_def cstr_Cons valid_label_def isLetter_def isLetterDigit_def isLetterDigitHyphen_def)

text \<open>C22. \<open>suffix\<close> decides the domain relation: for two names read from dotted strings of the grammar it says whether the
  labels of the parent end the labels of the name, without regard to case; the root is above every name.\<close>

theorem domain_name_suffix:
  assumes "length (raw 255) = 255" "cstr name 0 (chars ls)" "\<forall>l \<in> set ls. valid_label l" "length (chars ls) \<le> 254"
    and "cstr parent 0 (chars ms)" "\<forall>l \<in> set ms. valid_label l" "length (chars ms) \<le> 254"
  shows "\<exists>d p. DomainName_parse raw name (of_nat (length (chars ls)) + 1) = ret d
    \<and> DomainName_parse raw parent (of_nat (length (chars ms)) + 1) = ret p
    \<and> DomainName_suffix d p = Some (suffix (map (map toLower) ms) (map (map toLower) ls))"
proof -
  have "\<exists>d. DomainName_parse raw name (of_nat (length (chars ls)) + 1) = ret d \<and> name_ok d (map (map toLower) ls)"
    by (rule DomainName_parse_ok) (use assms in simp_all)
  moreover have "\<exists>p. DomainName_parse raw parent (of_nat (length (chars ms)) + 1) = ret p \<and> name_ok p (map (map toLower) ms)"
    by (rule DomainName_parse_ok) (use assms in simp_all)
  ultimately show ?thesis using DomainName_suffix_ok by blast
qed

theorem domain_name_suffix_witness:
  "\<exists>d p. DomainName_parse zeros [98, 97, 46, 98, 0] 5 = ret d \<and> DomainName_parse zeros [97, 46, 98, 0] 4 = ret p
    \<and> DomainName_suffix d p = Some False"
  using domain_name_suffix [of zeros "[98, 97, 46, 98, 0]" "[[98, 97], [98]]" "[97, 46, 98, 0]" "[[97], [98]]"]
  by (simp add: zeros_def cstr_Cons valid_label_def isLetter_def isLetterDigit_def isLetterDigitHyphen_def chars_def
      toLower_def suffix_def Cons_eq_append_conv)

text \<open>C23. The failure value of \<open>checkLabel\<close> is stored in a byte and becomes a label of 255 characters: every string of
  255 characters that does not begin with a letter passes the check, and the constructor then writes behind its
  array.\<close>

theorem bad_name_accepted:
  assumes "length (raw 255) = 255" "cstr name 0 cs" "length cs = 255" "\<not> isLetter (hd cs)"
  shows "checkDomainName name 255 = Some True \<and> DomainName_parse raw name 256 = None"
proof -
  obtain c ds where cs: "cs = c # ds" using assms(3) by (cases cs) auto
  have n: "255 < length name" "name ! 0 = c" "\<not> isLetter c" using assms(2-4) cstr_bound [OF assms(2)] by (auto simp: cs cstr_Cons)
  have "checkLabel name 0 255 = Some (- 1)" using n by (auto simp: checkLabel_def rd_def)
  then have "checkSubdomain name 0 255 = Some (sint (255 :: u32))"
    using checkSubdomain_step [of name 0 255 "- 1" 255] byte_of_label(2) by simp
  then have chk: "checkDomainName name 255 = Some True" by (simp add: checkDomainName_def)
  have "lite_strnlen name 0 256 = Some 255" using strnlen_cstr [OF assms(2), of 256] assms(3) by simp
  moreover have "copy_lower name 0 256 (raw 255) = None"
  proof -
    have "copy_lower name i k nb = None" if "length nb = 255" "i + k = 256" "0 < k" for i k nb
      using that
    proof (induction k arbitrary: i nb)
      case (Suc k)
      then show ?case by (cases "i < 255") (auto simp: rd_def wr_def)
    qed simp
    then show ?thesis using assms(1) by simp
  qed
  ultimately show ?thesis using chk by (simp add: DomainName_parse_def Let_def MAX_DNS_NAME_LEN_def)
qed

theorem bad_name_accepted_witness:
  "checkDomainName (replicate 255 33 @ [0]) 255 = Some True \<and> DomainName_parse zeros (replicate 255 33 @ [0]) 256 = None"
proof -
  have "cstr (replicate 255 33 @ [0]) 0 (replicate 255 33)" by (simp add: cstr_def nth_append)
  moreover have "\<not> isLetter (hd (replicate 255 33))" by (simp add: isLetter_def)
  ultimately show ?thesis using bad_name_accepted [of zeros] by (simp add: zeros_def)
qed

text \<open>Byte streams: reading back what was written gives the value at 8 and 16 bits; a 32-bit value loses its upper half,
  since the operators convert it with the 16-bit routine.\<close>

theorem byte_stream_roundtrip:
  assumes "ByteStream_new buf sz = ret s" "unat sz \<le> length buf" "4 \<le> unat sz"
  shows "(\<exists>t. put_u8 s a = ret t \<and> (\<exists>u. get_u8 (t\<lparr>bs_pos := 0\<rparr>) = ret (a, u)))
    \<and> (\<exists>t. put_u16 s b = ret t \<and> (\<exists>u. get_u16 (t\<lparr>bs_pos := 0\<rparr>) = ret (b, u)))
    \<and> (\<exists>t. put_u32 s c = ret t \<and> (\<exists>u. get_u32 (t\<lparr>bs_pos := 0\<rparr>) = ret (c AND 0xFFFF, u)))"
proof -
  have s: "s = \<lparr>bs_buffer = buf, bs_size = sz, bs_pos = 0\<rparr>" using assms(1) by (auto simp: ByteStream_new_def split: if_splits)
  have rt: "\<exists>t u. bs_put s xs = ret t \<and> bs_get (t\<lparr>bs_pos := 0\<rparr>) (length xs) = ret (xs, u)" if "length xs \<le> 4" for xs
  proof -
    have n: "unat (of_nat (length xs) :: u32) = length xs" using that by (intro unat_of_nat_u32) simp
    have "assertBytesRemaining s (of_nat (length xs)) = ret ()" "length xs \<le> length buf"
      using n that assms(2,3) by (auto simp: s assertBytesRemaining_def word_less_nat_alt)
    then show ?thesis
      by (auto simp: bs_put_def bs_get_def s assertBytesRemaining_def wr_bytes_def rd_bytes_def overwrite_def split: if_splits)
  qed
  have "(ucast (z_ntohs (ucast (ucast (z_htons (ucast c)) :: u32))) :: u32) = c AND 0xFFFF"
  proof -
    have "(ucast (ucast (z_htons (ucast c)) :: u32) :: u16) = z_htons (ucast c)" by (rule bit_word_eqI) (simp add: bit_simps)
    moreover have "(ucast (ucast c :: u16) :: u32) = c AND mask 16" by (rule bit_word_eqI) (auto simp: bit_simps)
    moreover have "(mask 16 :: u32) = 0xFFFF" by (simp add: mask_eq_exp_minus_1)
    ultimately show ?thesis by (simp add: z_ntohs_def)
  qed
  then show ?thesis
    using rt [of "[a]"] rt [of "bytes_of_u16 (z_htons b)"] rt [of "bytes_of_u32 (ucast (z_htons (ucast c)))"]
    by (auto simp: put_u8_def put_u16_def put_u32_def get_u8_def get_u16_def get_u32_def z_ntohs_def)
qed

theorem byte_stream_roundtrip_witness:
  "\<exists>t. put_u32 \<lparr>bs_buffer = [0, 0, 0, 0], bs_size = 4, bs_pos = 0\<rparr> 65537 = ret t \<and> (\<exists>u. get_u32 (t\<lparr>bs_pos := 0\<rparr>) = ret (1, u))"
  using byte_stream_roundtrip [of "[0, 0, 0, 0]" 4 "\<lparr>bs_buffer = [0, 0, 0, 0], bs_size = 4, bs_pos = 0\<rparr>" 0 0 65537]
  by (simp add: ByteStream_new_def)

end
