(* ===== verification/Spec2Isabelle.thy ===== *)
theory Spec2Isabelle
  imports LinkedList HashTable HashClients InstallReply OrderedSet Exchange Sha1Stream MpiProps RsaProps KeyProps NameProps
begin

text \<open>
  Verification of the runtime libraries of the Embassies system (\<open>src/common\<close>): the containers all
  parts share, the file transfer protocol ZFTP by which guests fetch files they verify block by block,
  and the cryptography on which the names of files and the identities of applications rest.

  \<^bold>\<open>The program.\<close> A ZFTP client knows a file by its hash. A \<open>ZCachedFile\<close> keeps a Merkle tree of the
  hashes of the blocks of 64 kB; the \<open>RequestBuilder\<close> picks the hashes and bytes still missing and
  puts them into a request packet; the server answers with a reply packet (\<open>ValidFileResult\<close>); the
  client takes it apart (\<open>ZFileReplyFromServer\<close>), installs hashes and data, validates the hashes
  against the root and delivers blocks to the block cache, which the hash table and the AVL tree of
  \<open>src/common/utils\<close> implement. The hash is SHA-1; signatures are RSA over the multi-precision
  integers of \<open>bignum.cpp\<close>; the owners of keys are domain names.

  \<^bold>\<open>Conventions\<close> (theory \<open>Prelude\<close>). Machine integers are words of the width the C code uses. An operation
  that can fail a \<open>lite_assert\<close>, dereference a null pointer or leave an array returns an \<open>option\<close>,
  \<open>None\<close> being the abort. The multi-precision and RSA code adds the error codes of \<open>MPI_CHK\<close> (type
  \<open>mres\<close>), the names add C++ exceptions (type \<open>cres\<close>). Fresh memory has arbitrary contents, given
  by a parameter; where allocation may fail, a parameter says which requests succeed.

  \<^bold>\<open>Containers\<close> (\<open>src/common/utils\<close>).
  \<^item> \<open>LinkedList\<close>: \<open>linked_list.c\<close> over an explicit store of links. Every session acts as a
    double-ended queue; the locale \<open>fifo\<close> is the contract of a queue, interpreted as \<open>llq\<close>.
  \<^item> \<open>HashTable\<close>: \<open>hash_table.c\<close> with its two subtables and incremental resizing. The locale
    \<open>hash_keys\<close> states what a hash and a comparison must satisfy, and is a sublocale of the contract
    \<open>keyed_set\<close>; sessions refine a multiset with unique keys.
  \<^item> \<open>HashClients\<close>: \<open>Set.cpp\<close>, \<open>Table.cpp\<close> (locale \<open>table_keys\<close>), \<open>HashableHash.cpp\<close>
    (interpretation \<open>hhash\<close>), the thread stack table \<open>xax_stack_table.c\<close> (\<open>xste\<close>) and the handlers
    of the key-value server \<open>keyval_zoog.cpp\<close>, all through the contract of the table.
  \<^item> \<open>AvlTree\<close>, \<open>AvlSet\<close>, \<open>OrderedSet\<close>: \<open>avl2.h\<close> and \<open>avl2logic.h\<close>. Rotations keep the tree
    ordered and balanced; locale \<open>ordered_set\<close>, interpreted as \<open>avl_set\<close>, is what clients use.
  \<^item> \<open>LiteLib\<close> and \<open>NetOrder\<close>: the string and memory routines and the byte order conversions.

  \<^bold>\<open>ZFTP\<close> (\<open>src/common/zftp_module\<close>).
  \<^item> \<open>TreeMath\<close> and \<open>DataRange\<close>: \<open>tree_math.c\<close>, \<open>zftp_protocol.h\<close>, \<open>lite_log2.c\<close>, \<open>DataRange.cpp\<close>.
  \<^item> \<open>Merkle\<close> and \<open>MerkleCheck\<close>: the tree of \<open>ZCachedFile.cpp\<close> and \<open>ValidatedMerkleRecord.cpp\<close>.
    Hashes are installed exactly when they lie in the tree and contradict no validated one, and
    validation keeps the invariant that validated pairs hash to their parent. Unanchored pairs are
    validated too, which is a defect of the code and a theorem here.
  \<^item> \<open>Blocks\<close>: \<open>ZBlockCacheRecord.cpp\<close>, \<open>ZBlockCache.cpp\<close>, \<open>ZBlockDB.cpp\<close>; the block cache
    interprets \<open>hash_keys\<close> as \<open>zbc\<close>, the records of the tree as \<open>vmr\<close>.
  \<^item> \<open>CachedFile\<close>, \<open>MissingSet\<close>, \<open>Install\<close>: reading, the set of missing bytes and the installation of
    data, for a block cache with no database behind it. The locale \<open>file_buffer\<close> is what \<open>read\<close> needs of a
    class derived from \<open>Buf\<close>, its cast to \<open>ValidatedZCB\<close> included. In \<open>ZcbBuf\<close> it is interpreted for \<open>ValidatedZCB\<close>
    (\<open>zcb\<close>); \<open>MemBuf\<close> does not satisfy it, and reading into one aborts (\<open>MemBuf_read_aborts\<close>).
    \<open>Samples\<close> holds the small files of the witnesses.
  \<^item> \<open>InstallReply\<close>: \<open>install_reply\<close> and sequences of replies. Whatever a server sends, metadata, hashes
    validated with all their ancestors and complete blocks under them are those of the file with the name asked for, or
    the client holds an explicit collision of the hash function.
  \<^item> \<open>Wire\<close> and \<open>Reply\<close>: packets as byte buffers (\<open>OutboundRequest.cpp\<close>, \<open>ZFileRequest.cpp\<close>,
    \<open>ValidFileResult.cpp\<close>, \<open>ErrorFileResult.cpp\<close>, \<open>ZFileReplyFromServer.cpp\<close>), with round trips.
  \<^item> \<open>Requests\<close>, \<open>RequestFits\<close>, \<open>Exchange\<close>: \<open>RequestBuilder.cpp\<close>. When the known leaves among the missing
    blocks are consecutive, a request asks only for what is missing, its reply fits the payload limit, it makes progress under the stated conditions, and
    it arrives at the server as it was built.

  \<^bold>\<open>Cryptography\<close> (\<open>src/common/crypto\<close>).
  \<^item> \<open>Sha1\<close>, \<open>Sha1Spec\<close>, \<open>Sha1Stream\<close>: \<open>sha1.c\<close> with \<open>sha2_helper.c.inc\<close> and \<open>zhash\<close> compute the
    function of FIPS 180-4, however the message is cut.
  \<^item> \<open>Mpi\<close>, \<open>MpiVal\<close>, \<open>MpiAdd\<close>, \<open>MpiMul\<close>, \<open>MpiBits\<close>, \<open>MpiDiv\<close>, \<open>MpiDivOk\<close>, \<open>MpiProps\<close>: \<open>bignum.cpp\<close>
    and \<open>bignum_mul.h\<close> on vectors of 32-bit limbs, in the aliasings the operations allow, against
    the integers; the cases in which the code is wrong are characterised.
  \<^item> \<open>MpiMont\<close>, \<open>MpiExp\<close>, \<open>MpiExpOk\<close>: Montgomery multiplication and sliding-window powers.
  \<^item> \<open>MpiPrime\<close>, \<open>MpiPrimeOk\<close>: greatest common divisor, inverse, primality test, prime generation.
  \<^item> \<open>RandomSupply\<close>: \<open>RandomSupply.cpp\<close> with the block cipher as a parameter.
  \<^item> \<open>RsaMath\<close>, \<open>Rsa\<close>, \<open>RsaOk\<close>, \<open>RsaPkcs\<close>, \<open>RsaKey\<close>, \<open>RsaProps\<close>, \<open>KeyProps\<close>: \<open>rsa.cpp\<close>. The private
    operation is the power modulo the key, encryption and signature are inverted by decryption and
    verification (raw data of 34 bytes excepted, which are mostly rejected), and the check of a private key accepts exactly the keys it describes.
  \<^item> \<open>DomainName\<close>, \<open>DomainNameOk\<close>, \<open>DomainNameIO\<close>, \<open>NameProps\<close>: \<open>ByteStream.cpp\<close> and
    \<open>DomainName.cpp\<close>. Names of the grammar survive writing and reading, and \<open>suffix\<close> is the suffix
    relation on labels.

  \<^bold>\<open>Bounds and loops.\<close> No definition counts fuel. Loops that follow a pointer or wait for a value are
  \<open>partial_function (option)\<close>, so that not returning is \<open>None\<close> as an abort is. Where a theorem says
  that an operation returns, it states the \<open>Some\<close>. Where an operation need not return, as \<open>mpi_gcd\<close> with second
  operand zero, this is proved, or left open for the search of primes, whose
  end depends on the random bytes. Sizes are those of the code: 32-bit lengths, names of at most
  255 bytes, and the limits on requests that the theorems state as hypotheses.

  \<^bold>\<open>Not modelled.\<close> The records, certificates and key objects above the domain names and RSA
  (\<open>ZRecord.cpp\<close>, \<open>ZCert.cpp\<close>, \<open>ZCertChain.cpp\<close>, \<open>ZKey.cpp\<close> and their relatives), \<open>mpi_read_string\<close>,
  and the window manager \<open>src/monitors/common\<close> have no definitions here. AES and VMAC
  are reference code of third parties; the cipher is a parameter. SHA-256 and SHA-512 are compiled
  out. Allocators and locks need a model of raw memory and of atomic instructions; the modelled
  components are the sequential code between lock and unlock. Log messages and statistics have
  no effect on results and are left out. Of \<open>ZCachedFile.cpp\<close>, the waiting requests, the sending of requests, the stored
  status and image of a file and the loading of files from the disk of the server are left out. The server and client loops, sockets, database, monitors, POSIX
  emulation, build tools and the Picocenter hub and worker are input and output, system calls or
  code against frameworks that are not part of the sources.
\<close>

end
